(* ===== verification/C_Prelude.thy ===== *)
theory C_Prelude
  imports Main "HOL-Library.Word" "HOL-Library.Char_ord"
begin

section \<open>Shared vocabulary: C results, memory cells, machine integers\<close>

text \<open>
  What every component of the model shares. A C function that may stop the program returns
  \<open>stop + 'a\<close>: \<open>Inl (Crash f)\<close> when it runs into an assertion failure or into undefined
  behaviour, \<open>Inl (Exit code tr)\<close> when it calls \<open>exit\<close> (with the system calls made so far),
  and \<open>Inr v\<close> when it returns \<open>v\<close>. Arrays are lists of \<open>'a option\<close>, with \<open>None\<close> for a cell
  that \<open>malloc\<close> or \<open>realloc\<close> has not initialised. Allocation itself never fails in the model
  except where the source tests the returned pointer.
\<close>

subsection \<open>Machine integers\<close>

type_synonym u16 = "16 word"
type_synonym u32 = "32 word"
type_synonym u64 = "64 word"

abbreviation INT_MAX :: int where "INT_MAX \<equiv> 2147483647"
abbreviation INT_MIN :: int where "INT_MIN \<equiv> - 2147483648"

definition in_int :: "int \<Rightarrow> bool" where
  "in_int x \<longleftrightarrow> INT_MIN \<le> x \<and> x \<le> INT_MAX"

text \<open>Conversion to a 32-bit signed \<open>int\<close>, as two's complement truncation.\<close>

definition to_int32 :: "int \<Rightarrow> int" where
  "to_int32 x = (x + 2 ^ 31) mod 2 ^ 32 - 2 ^ 31"

lemma to_int32_id [simp]: "in_int x \<Longrightarrow> to_int32 x = x"
  by (simp add: in_int_def to_int32_def)

lemma to_int32_range: "in_int (to_int32 x)"
proof -
  have "0 \<le> (x + 2 ^ 31) mod 2 ^ 32" and "(x + 2 ^ 31) mod 2 ^ 32 < 2 ^ 32"
    by simp_all
  then show ?thesis by (simp add: in_int_def to_int32_def)
qed

text \<open>Additions and products on unsigned words that do not wrap around.\<close>

lemma unat_bound: "unat (w :: 'a::len word) < 2 ^ LENGTH('a)"
  by (rule unsigned_less)

lemma unat_add_no_wrap:
  "unat (a :: 'a::len word) + unat b < 2 ^ LENGTH('a) \<Longrightarrow> unat (a + b) = unat a + unat b"
  by (simp add: unat_word_ariths)

lemma unat_double_no_wrap:
  "2 * unat (a :: 'a::len word) < 2 ^ LENGTH('a) \<Longrightarrow> unat (2 * a) = 2 * unat a"
  by (metis mult_2 unat_add_no_wrap)

lemma unat_pred: "0 < unat (a :: 'a::len word) \<Longrightarrow> unat (a - 1) = unat a - 1"
  by (metis less_numeral_extra(3) unat_0 unat_minus_one)

lemma unat_gt_0_word [simp]: "(0 :: 'a::len word) < a \<longleftrightarrow> 0 < unat a"
  by (simp add: word_less_nat_alt)

subsection \<open>Faults, exits and results\<close>

datatype c_fault =
    Assert_Failed
  | Out_Of_Bounds
  | Uninitialised_Read
  | Null_Deref
  | Use_After_Free
  | Division_By_Zero
  | Signed_Overflow
  | Overlapping_Copy
  | Invalid_Shift
  | Out_Of_Fuel
  | Aborted

text \<open>
  What a child process does between \<open>fork\<close> and \<open>execvp\<close>, and the system calls of the server,
  as the history that the operating system answers to. A resource limit is set for both the
  soft and the hard limit. \<open>Sys_Newfd\<close> is a new descriptor (\<open>socket\<close>, \<open>pipe\<close>), \<open>Sys_Call\<close> any
  other call with its integer result. The last events are those of the Windows API: closing a
  handle, terminating a job, adding a handle to the completion port, starting to read or write,
  setting the limits of a job, and creating a process from a command line.
\<close>

datatype child_action =
    Setpgid
  | Setrlimit_Cpu int
  | Setrlimit_As u64
  | Setrlimit_Core int
  | Open_Stdin string
  | Dup2 int int
  | Execvp string "string list"

datatype sys_event =
    Sys_Fork int "c_fault + child_action list"
  | Sys_Kill int int
  | Sys_Wait int
  | Sys_Mkstemp string int
  | Sys_Newfd string int
  | Sys_Close int
  | Sys_Accept int
  | Sys_Read int int
  | Sys_Write int "char list" int
  | Sys_Poll int
  | Sys_Call string int
  | Sys_Log string
  | Win_Close int
  | Win_Terminate_Job int
  | Win_Port int u64
  | Win_Read int
  | Win_Write int "char list"
  | Win_Job_Limits int "int option" "u64 option"
  | Win_Create_Process string

type_synonym history = "sys_event list"

datatype stop = Crash c_fault | Exit int history

type_synonym 'a res = "stop + 'a"

abbreviation crash :: "c_fault \<Rightarrow> 'a res" where
  "crash f \<equiv> Inl (Crash f)"

definition bindE :: "'a res \<Rightarrow> ('a \<Rightarrow> 'b res) \<Rightarrow> 'b res" where
  "bindE m f = (case m of Inl e \<Rightarrow> Inl e | Inr x \<Rightarrow> f x)"

lemma bindE_simps [simp]:
  "bindE (Inl e) f = Inl e"
  "bindE (Inr x) f = f x"
  by (simp_all add: bindE_def)

lemma bindE_assoc: "bindE (bindE m f) g = bindE m (\<lambda>x. bindE (f x) g)"
  by (simp add: bindE_def split: sum.split)

lemma bindE_Inr_iff: "bindE m f = Inr y \<longleftrightarrow> (\<exists>x. m = Inr x \<and> f x = Inr y)"
  by (cases m) auto

lemma bindE_Inl_iff: "bindE m f = Inl e \<longleftrightarrow> m = Inl e \<or> (\<exists>x. m = Inr x \<and> f x = Inl e)"
  by (cases m) auto

lemma bindE_cong [fundef_cong]:
  "m = m' \<Longrightarrow> (\<And>x. m' = Inr x \<Longrightarrow> f x = f' x) \<Longrightarrow> bindE m f = bindE m' f'"
  by (cases m') auto

definition c_assert :: "bool \<Rightarrow> unit res" where
  "c_assert b = (if b then Inr () else crash Assert_Failed)"

lemma c_assert_simps [simp]:
  "b \<Longrightarrow> c_assert b = Inr ()"
  "\<not> b \<Longrightarrow> c_assert b = crash Assert_Failed"
  by (simp_all add: c_assert_def)

text \<open>A signed \<open>int\<close> result that does not fit is undefined behaviour.\<close>

definition c_int :: "int \<Rightarrow> int res" where
  "c_int x = (if in_int x then Inr x else crash Signed_Overflow)"

lemma c_int_ok [simp]: "in_int x \<Longrightarrow> c_int x = Inr x"
  by (simp add: c_int_def)

definition c_umod :: "'a::len word \<Rightarrow> 'a word \<Rightarrow> 'a word res" where
  "c_umod a b = (if b = 0 then crash Division_By_Zero else Inr (a mod b))"

subsection \<open>Safety of a result\<close>

text \<open>
  \<open>safe P r\<close>: the computation does not crash, and if it returns, its value satisfies \<open>P\<close>. An
  exit is allowed. The introduction rules in \<open>safe_intros\<close> follow the structure of a program.
\<close>

named_theorems safe_intros \<open>rules that decompose a safety goal along the program\<close>

definition safe :: "('a \<Rightarrow> bool) \<Rightarrow> 'a res \<Rightarrow> bool" where
  "safe P r = (case r of Inl (Crash f) \<Rightarrow> False | Inl (Exit c w) \<Rightarrow> True | Inr x \<Rightarrow> P x)"

lemma safe_simps [simp]:
  "safe P (Inr x) = P x"
  "safe P (crash f) = False"
  "safe P (Inl (Exit c w)) = True"
  by (simp_all add: safe_def)

lemma safe_bindE [safe_intros]:
  assumes "safe Q m" and "\<And>x. Q x \<Longrightarrow> safe P (f x)"
  shows "safe P (bindE m f)"
proof (cases m)
  case (Inl e)
  with assms(1) show ?thesis by (cases e) auto
next
  case (Inr x)
  with assms show ?thesis by simp
qed

lemma safe_if [safe_intros]:
  "(b \<Longrightarrow> safe P x) \<Longrightarrow> (\<not> b \<Longrightarrow> safe P y) \<Longrightarrow> safe P (if b then x else y)"
  by simp

lemma safe_mono: "safe Q m \<Longrightarrow> (\<And>x. Q x \<Longrightarrow> P x) \<Longrightarrow> safe P m"
  by (auto simp: safe_def split: sum.splits stop.splits)

lemma safe_Inr: "safe P m \<Longrightarrow> m = Inr x \<Longrightarrow> P x"
  by simp

lemma safe_no_crash: "safe P m \<Longrightarrow> m \<noteq> crash f"
  by auto

lemma safe_conj: "safe P m \<Longrightarrow> safe Q m \<Longrightarrow> safe (\<lambda>x. P x \<and> Q x) m"
  by (auto simp: safe_def split: sum.splits stop.splits)

lemma safe_conjunct1: "safe (\<lambda>x. P x \<and> Q x) m \<Longrightarrow> safe P m"
  by (erule safe_mono) simp

subsection \<open>Memory cells\<close>

type_synonym 'a cells = "'a option list"

definition c_malloc :: "nat \<Rightarrow> 'a cells" where
  "c_malloc n = replicate n None"

definition c_realloc :: "'a cells \<Rightarrow> nat \<Rightarrow> 'a cells" where
  "c_realloc xs n = take n xs @ replicate (n - length xs) None"

definition c_read :: "'a cells \<Rightarrow> nat \<Rightarrow> 'a res" where
  "c_read xs i =
     (if i < length xs then (case xs ! i of None \<Rightarrow> crash Uninitialised_Read | Some x \<Rightarrow> Inr x)
      else crash Out_Of_Bounds)"

definition c_write :: "'a cells \<Rightarrow> nat \<Rightarrow> 'a \<Rightarrow> 'a cells res" where
  "c_write xs i v = (if i < length xs then Inr (xs[i := Some v]) else crash Out_Of_Bounds)"

text \<open>
  \<open>memcpy\<close> inside one array, with the source at cell \<open>s\<close> and the destination at cell \<open>d\<close>: the
  bytes outside either array, or overlapping regions, are undefined behaviour. Copying
  uninitialised cells is allowed (they stay uninitialised).
\<close>

definition disjoint_regions :: "nat \<Rightarrow> nat \<Rightarrow> nat \<Rightarrow> bool" where
  "disjoint_regions d s n \<longleftrightarrow> n = 0 \<or> d + n \<le> s \<or> s + n \<le> d"

definition copy_cells :: "'a cells \<Rightarrow> nat \<Rightarrow> nat \<Rightarrow> nat \<Rightarrow> 'a cells" where
  "copy_cells xs d s n = take d xs @ take n (drop s xs) @ drop (d + n) xs"

definition c_memcpy :: "'a cells \<Rightarrow> nat \<Rightarrow> nat \<Rightarrow> nat \<Rightarrow> 'a cells res" where
  "c_memcpy xs d s n =
     (if length xs < d + n \<or> length xs < s + n then crash Out_Of_Bounds
      else if \<not> disjoint_regions d s n then crash Overlapping_Copy
      else Inr (copy_cells xs d s n))"

lemma length_c_malloc [simp]: "length (c_malloc n) = n"
  by (simp add: c_malloc_def)

lemma length_c_realloc [simp]: "length (c_realloc xs n) = n"
  by (simp add: c_realloc_def)

lemma nth_c_realloc: "i < length xs \<Longrightarrow> i < n \<Longrightarrow> c_realloc xs n ! i = xs ! i"
  by (simp add: c_realloc_def nth_append)

lemma length_copy_cells [simp]:
  "d + n \<le> length xs \<Longrightarrow> s + n \<le> length xs \<Longrightarrow> length (copy_cells xs d s n) = length xs"
  by (simp add: copy_cells_def)

lemma nth_copy_cells:
  "d + n \<le> length xs \<Longrightarrow> s + n \<le> length xs \<Longrightarrow> i < length xs \<Longrightarrow>
     copy_cells xs d s n ! i = (if d \<le> i \<and> i < d + n then xs ! (s + (i - d)) else xs ! i)"
  by (simp add: copy_cells_def nth_append) (auto simp: algebra_simps)

lemma c_read_Inr_iff: "c_read xs i = Inr x \<longleftrightarrow> i < length xs \<and> xs ! i = Some x"
  by (auto simp: c_read_def split: option.splits)

lemma c_read_ok [simp]: "i < length xs \<Longrightarrow> xs ! i = Some x \<Longrightarrow> c_read xs i = Inr x"
  by (simp add: c_read_def)

lemma c_write_ok [simp]: "i < length xs \<Longrightarrow> c_write xs i v = Inr (xs[i := Some v])"
  by (simp add: c_write_def)

text \<open>A prefix of cells that holds exactly the list \<open>ys\<close>.\<close>

definition holds :: "'a cells \<Rightarrow> 'a list \<Rightarrow> bool" where
  "holds xs ys \<longleftrightarrow> length ys \<le> length xs \<and> take (length ys) xs = map Some ys"

lemma holds_nth: "holds xs ys \<Longrightarrow> i < length ys \<Longrightarrow> xs ! i = Some (ys ! i)"
  by (metis holds_def nth_map nth_take)

lemma holds_Nil [simp]: "holds xs []"
  by (simp add: holds_def)

lemma holdsI:
  "length ys \<le> length xs \<Longrightarrow> (\<And>i. i < length ys \<Longrightarrow> xs ! i = Some (ys ! i)) \<Longrightarrow> holds xs ys"
  unfolding holds_def by (auto intro: nth_equalityI)

lemma holds_take: "holds xs ys \<Longrightarrow> holds xs (take n ys)"
  by (rule holdsI) (auto simp: holds_nth, auto simp: holds_def)

lemma holds_append: "holds xs ys \<Longrightarrow> holds (xs @ zs) ys"
  by (simp add: holds_def)

lemma holds_c_realloc: "holds xs ys \<Longrightarrow> length ys \<le> n \<Longrightarrow> holds (c_realloc xs n) ys"
  by (simp add: holds_def c_realloc_def min_def)

lemma holds_snoc:
  "holds xs ys \<Longrightarrow> length ys < length xs \<Longrightarrow> holds (xs[length ys := Some y]) (ys @ [y])"
  by (rule holdsI) (auto simp: nth_append nth_list_update holds_nth less_Suc_eq)

end
