(* ===== verification/Fifo_Interface.thy ===== *)
theory Fifo_Interface
  imports C_Prelude
begin

section \<open>The contract of a queue\<close>

text \<open>
  What the users of \<open>queue.h\<close> (the write buffer and the request queue) rely on: an abstraction
  of the queue to the list of its elements, oldest first, an invariant, and the effect of the
  operations on the abstraction. A queue takes further elements as long as it holds fewer than
  \<open>room\<close>. The lemmas of the locale are what its clients need for their loops.
\<close>

locale fifo =
  fixes qinv :: "'q \<Rightarrow> bool"
    and qabs :: "'q \<Rightarrow> 'a list"
    and qpush :: "'q \<Rightarrow> 'a \<Rightarrow> 'q res"
    and qpop :: "'q \<Rightarrow> ('a \<times> 'q) res"
    and qempty :: "'q \<Rightarrow> bool"
    and room :: nat
  assumes push_law: "qinv q \<Longrightarrow> length (qabs q) < room \<Longrightarrow>
      \<exists>q'. qpush q x = Inr q' \<and> qinv q' \<and> qabs q' = qabs q @ [x]"
    and pop_law: "qinv q \<Longrightarrow> qabs q = x # xs \<Longrightarrow>
      \<exists>q'. qpop q = Inr (x, q') \<and> qinv q' \<and> qabs q' = xs"
    and pop_empty_law: "qinv q \<Longrightarrow> qabs q = [] \<Longrightarrow> qpop q = crash Assert_Failed"
    and empty_law: "qinv q \<Longrightarrow> qempty q \<longleftrightarrow> qabs q = []"
begin

lemma push_safe:
  "qinv q \<Longrightarrow> length (qabs q) < room \<Longrightarrow>
     safe (\<lambda>q'. qinv q' \<and> qabs q' = qabs q @ [x]) (qpush q x)"
  using push_law [of q x] by auto

lemma pop_nonempty:
  assumes "qinv q" and "\<not> qempty q"
  obtains x q' where "qpop q = Inr (x, q')" and "qinv q'" and "qabs q = x # qabs q'"
proof -
  from assms obtain x xs where "qabs q = x # xs"
    using empty_law [OF assms(1)] by (cases "qabs q") auto
  with pop_law [OF assms(1)] that show thesis by blast
qed

lemma pop_safe:
  "qinv q \<Longrightarrow> \<not> qempty q \<Longrightarrow>
     safe (\<lambda>(x, q'). qinv q' \<and> qabs q = x # qabs q') (qpop q)"
  by (erule (1) pop_nonempty) simp

text \<open>Induction along a loop that pops until the queue is empty.\<close>

lemma drain_induct [consumes 1, case_names empty pop]:
  assumes "qinv q"
    and "\<And>q. qinv q \<Longrightarrow> qempty q \<Longrightarrow> qabs q = [] \<Longrightarrow> P q"
    and "\<And>q x q'. qinv q \<Longrightarrow> \<not> qempty q \<Longrightarrow> qpop q = Inr (x, q') \<Longrightarrow> qinv q' \<Longrightarrow>
           qabs q = x # qabs q' \<Longrightarrow> P q' \<Longrightarrow> P q"
  shows "P q"
  using assms(1)
proof (induction "length (qabs q)" arbitrary: q)
  case 0
  then show ?case using assms(2) [OF \<open>qinv q\<close>] empty_law by auto
next
  case (Suc n)
  then have ne: "\<not> qempty q" using empty_law by auto
  obtain x q' where q': "qpop q = Inr (x, q')" "qinv q'" "qabs q = x # qabs q'"
    using pop_nonempty [OF Suc.prems ne] by blast
  have "P q'" using Suc.hyps q' by simp
  then show ?case using assms(3) [OF Suc.prems ne q'] by blast
qed

text \<open>Two queues with the same elements cannot be told apart by popping.\<close>

lemma pop_same:
  assumes "qinv p" "qinv q" "qabs p = qabs q" "qpop p = Inr (x, p')"
  obtains q' where "qpop q = Inr (x, q')" and "qinv q'" and "qabs q' = qabs p'"
proof -
  have "qabs p \<noteq> []" using pop_empty_law [OF assms(1)] assms(4) by auto
  then have np: "\<not> qempty p" and nq: "\<not> qempty q"
    using empty_law [OF assms(1)] empty_law [OF assms(2)] assms(3) by simp_all
  obtain y p'' where p: "qpop p = Inr (y, p'')" "qabs p = y # qabs p''"
    using pop_nonempty [OF assms(1) np] by blast
  obtain z q' where q: "qpop q = Inr (z, q')" "qinv q'" "qabs q = z # qabs q'"
    using pop_nonempty [OF assms(2) nq] by blast
  show thesis by (rule that [of q']) (use p q assms in auto)
qed

end

end
