(* ===== verification/Ring_Queue.thy ===== *)
theory Ring_Queue
  imports Fifo_Interface
begin

section \<open>The resizable ring buffer of queue.c\<close>

text \<open>
  Models \<open>queue.h\<close> and \<open>queue.c\<close>: a queue kept in a circular array that doubles when it is
  full. The three counters are 32-bit unsigned integers, as in the source, and every read and
  write of the array is checked. The lemmas show that the ring buffer implements the contract
  \<open>fifo\<close> as long as it holds fewer than \<open>2 ^ 30\<close> elements (the doubling of \<open>capacity\<close> wraps
  around beyond).
\<close>

subsection \<open>Definitions\<close>

record 'a t_queue =
  q_data :: "'a cells"
  q_pointer :: u32
  q_len :: u32
  q_capacity :: u32

definition init_queue :: "u32 \<Rightarrow> 'a t_queue res" where
  "init_queue capacity =
     bindE (c_assert (capacity > 0)) (\<lambda>_.
     Inr \<lparr>q_data = c_malloc (unat capacity), q_pointer = 0, q_len = 0, q_capacity = capacity\<rparr>)"

definition queue_pop :: "'a t_queue \<Rightarrow> ('a \<times> 'a t_queue) res" where
  "queue_pop q =
     bindE (c_assert (q_len q > 0)) (\<lambda>_.
     bindE (c_read (q_data q) (unat (q_pointer q))) (\<lambda>tmp.
     bindE (c_umod (q_pointer q + 1) (q_capacity q)) (\<lambda>p.
     Inr (tmp, q\<lparr>q_len := q_len q - 1, q_pointer := p\<rparr>))))"

definition simple_push :: "'a t_queue \<Rightarrow> 'a \<Rightarrow> 'a t_queue res" where
  "simple_push q elt =
     bindE (c_umod (q_pointer q + q_len q) (q_capacity q)) (\<lambda>i.
     bindE (c_write (q_data q) (unat i) elt) (\<lambda>d.
     Inr (q\<lparr>q_data := d, q_len := q_len q + 1\<rparr>)))"

definition resize_queue :: "'a t_queue \<Rightarrow> 'a t_queue res" where
  "resize_queue q =
     (let old_cap = q_capacity q; old_p = q_pointer q;
          new_cap = 2 * old_cap;
          new_p = new_cap - old_cap + old_p;
          d = c_realloc (q_data q) (unat new_cap)
      in bindE (c_memcpy d (unat new_p) (unat old_p) (unat (old_cap - old_p))) (\<lambda>d.
         Inr (q\<lparr>q_data := d, q_capacity := new_cap, q_pointer := new_p\<rparr>)))"

definition queue_push :: "'a t_queue \<Rightarrow> 'a \<Rightarrow> 'a t_queue res" where
  "queue_push q elt =
     bindE (if q_len q = q_capacity q then resize_queue q else Inr q) (\<lambda>q.
     simple_push q elt)"

definition queue_is_empty :: "'a t_queue \<Rightarrow> bool" where
  "queue_is_empty q \<longleftrightarrow> q_len q = 0"

definition queue_length :: "'a t_queue \<Rightarrow> u32" where
  "queue_length q = q_len q"

definition free_queue :: "'a t_queue \<Rightarrow> unit res" where
  "free_queue q = c_assert (queue_is_empty q)"

text \<open>Every successful pop shortens the queue: the measure of the loops that drain one.\<close>

lemma queue_pop_shorter:
  assumes "queue_pop q = Inr (x, q')"
  shows "unat (q_len q') < unat (q_len q)"
proof -
  have "0 < unat (q_len q)" and "q_len q' = q_len q - 1"
    using assms by (auto simp: queue_pop_def bindE_Inr_iff c_assert_def split: if_splits)
  then show ?thesis by (simp add: unat_pred)
qed

subsection \<open>Invariant and abstraction\<close>

definition ring_index :: "'a t_queue \<Rightarrow> nat \<Rightarrow> nat" where
  "ring_index q i = (unat (q_pointer q) + i) mod unat (q_capacity q)"

definition queue_inv :: "'a t_queue \<Rightarrow> bool" where
  "queue_inv q \<longleftrightarrow>
     length (q_data q) = unat (q_capacity q) \<and> 0 < unat (q_capacity q) \<and>
     unat (q_capacity q) \<le> 2 ^ 31 \<and>
     unat (q_pointer q) < unat (q_capacity q) \<and> unat (q_len q) \<le> unat (q_capacity q) \<and>
     (\<forall>i < unat (q_len q). q_data q ! ring_index q i \<noteq> None)"

definition queue_list :: "'a t_queue \<Rightarrow> 'a list" where
  "queue_list q = map (\<lambda>i. the (q_data q ! ring_index q i)) [0..<unat (q_len q)]"

abbreviation queue_room :: nat where
  "queue_room \<equiv> 2 ^ 30"

lemma length_queue_list: "length (queue_list q) = unat (q_len q)"
  by (simp add: queue_list_def)

lemma queue_list_empty: "queue_list q = [] \<longleftrightarrow> queue_is_empty q"
  by (simp add: queue_list_def queue_is_empty_def unat_eq_0)

lemma ring_index_less: "queue_inv q \<Longrightarrow> ring_index q i < length (q_data q)"
  by (simp add: queue_inv_def ring_index_def)

lemma mod_diff_small: "(c::nat) \<le> p \<Longrightarrow> p < 2 * c \<Longrightarrow> p mod c = p - c"
  by (simp add: mod_if)

subsection \<open>Initialisation and pop\<close>

lemma init_queue_ok:
  assumes "0 < unat capacity" and "unat capacity \<le> 2 ^ 31"
  obtains q where "init_queue capacity = Inr q" and "queue_inv q" and "queue_list q = []"
    and "q_capacity q = capacity"
  using assms that by (fastforce simp: init_queue_def queue_inv_def queue_list_def)

lemma queue_pop_empty: "queue_is_empty q \<Longrightarrow> queue_pop q = crash Assert_Failed"
  by (simp add: queue_pop_def queue_is_empty_def)

lemma unat_pointer_succ:
  assumes "queue_inv q"
  shows "unat (q_pointer q + 1) = unat (q_pointer q) + 1"
proof -
  have "unat (q_pointer q) + unat (1::u32) < 2 ^ LENGTH(32)"
    using assms by (simp add: queue_inv_def)
  then show ?thesis by (subst unat_add_no_wrap) simp_all
qed

lemma queue_pop_list:
  assumes inv: "queue_inv q" and l: "queue_list q = x # xs"
  shows "\<exists>q'. queue_pop q = Inr (x, q') \<and> queue_inv q' \<and> queue_list q' = xs"
proof -
  let ?c = "unat (q_capacity q)" and ?p = "unat (q_pointer q)" and ?n = "unat (q_len q)"
  define q' where "q' = q\<lparr>q_len := q_len q - 1, q_pointer := (q_pointer q + 1) mod q_capacity q\<rparr>"
  have n: "0 < ?n" using l by (metis length_queue_list length_Cons zero_less_Suc)
  have p0: "ring_index q 0 = ?p" using inv by (simp add: ring_index_def queue_inv_def)
  have "q_data q ! ?p \<noteq> None" using inv n p0 unfolding queue_inv_def by force
  then obtain y where y: "q_data q ! ?p = Some y" by blast
  have "x = hd (queue_list q)" using l by simp
  also have "\<dots> = y" using n y p0 by (simp add: queue_list_def hd_map)
  finally have x: "q_data q ! ?p = Some x" using y by simp
  have c0: "q_capacity q \<noteq> 0" using inv by (auto simp: queue_inv_def)
  have pop: "queue_pop q = Inr (x, q')"
    using inv n x c0 by (simp add: queue_pop_def c_umod_def q'_def queue_inv_def)
  have len': "unat (q_len q') = ?n - 1" using n by (simp add: q'_def unat_pred)
  have p': "unat (q_pointer q') = (?p + 1) mod ?c"
    using unat_pointer_succ [OF inv] by (simp add: q'_def unat_mod)
  have idx: "ring_index q' i = ring_index q (Suc i)" for i
    using p' by (simp add: ring_index_def q'_def mod_add_left_eq)
  have inv': "queue_inv q'"
    using inv n p' len' unfolding queue_inv_def by (auto simp: q'_def idx [unfolded q'_def])
  have "queue_list q' = tl (queue_list q)"
    using len' by (intro nth_equalityI) (auto simp: queue_list_def nth_tl idx, simp add: q'_def)
  with l pop inv' show ?thesis by auto
qed

subsection \<open>Push\<close>

lemma simple_push_list:
  assumes inv: "queue_inv q" and sp: "unat (q_len q) < unat (q_capacity q)"
  shows "\<exists>q'. simple_push q x = Inr q' \<and> queue_inv q' \<and> queue_list q' = queue_list q @ [x]"
proof -
  let ?c = "unat (q_capacity q)" and ?n = "unat (q_len q)" and ?j = "ring_index q (unat (q_len q))"
  have sum: "unat (q_pointer q + q_len q) = unat (q_pointer q) + ?n"
    using inv sp by (intro unat_add_no_wrap) (simp add: queue_inv_def)
  have n1: "unat (q_len q + 1) = ?n + 1"
    using inv sp by (subst unat_add_no_wrap) (simp_all add: queue_inv_def)
  have j: "unat ((q_pointer q + q_len q) mod q_capacity q) = ?j"
    by (simp add: unat_mod sum ring_index_def)
  have c0: "q_capacity q \<noteq> 0" using sp by auto
  define q' where "q' = q\<lparr>q_data := (q_data q)[?j := Some x], q_len := q_len q + 1\<rparr>"
  have jl: "?j < length (q_data q)" using inv by (rule ring_index_less)
  have push: "simple_push q x = Inr q'"
    using c0 j jl by (simp add: simple_push_def c_umod_def q'_def)
  have idx: "ring_index q' i = ring_index q i" for i
    by (simp add: ring_index_def q'_def)
  have ne: "ring_index q i \<noteq> ?j" if "i < ?n" for i
  proof
    let ?p = "unat (q_pointer q)"
    assume "ring_index q i = ?j"
    then have "(?p + ?n) mod ?c = (?p + i) mod ?c" by (simp add: ring_index_def)
    then have "?c dvd (?p + ?n) - (?p + i)" using that by (simp add: mod_eq_dvd_iff_nat)
    then have "?c dvd ?n - i" by simp
    moreover have "0 < ?n - i" "?n - i < ?c" using that sp by simp_all
    ultimately show False using nat_dvd_not_less by blast
  qed
  have old: "q_data q' ! ring_index q' i = q_data q ! ring_index q i" if "i < ?n" for i
    unfolding idx using ne [OF that] by (simp add: q'_def)
  have new: "q_data q' ! ring_index q' ?n = Some x"
    unfolding idx using jl by (simp add: q'_def)
  have "queue_inv q'"
    using inv sp n1 old new unfolding queue_inv_def
    by (auto simp: q'_def less_Suc_eq)
  moreover have "queue_list q' = queue_list q @ [x]"
    using n1 old new by (auto simp: queue_list_def q'_def)
  ultimately show ?thesis using push by blast
qed

text \<open>
  Doubling: the cells from \<open>pointer\<close> to the end move to the end of the larger array, into
  cells that do not overlap with their old place; the wrapped part stays where it is.
\<close>

lemma resize_ring_index:
  fixes c p i :: nat
  assumes "p < c" and "i < c"
  shows "(c + p + i) mod (2 * c) = (if p + i < c then c + (p + i) else p + i - c)"
  using assms by (auto simp: mod_if)

lemma resize_queue_ok:
  assumes inv: "queue_inv q" and cap: "unat (q_capacity q) \<le> 2 ^ 30"
  shows "\<exists>q'. resize_queue q = Inr q' \<and> queue_inv q' \<and> queue_list q' = queue_list q \<and>
    q_len q' = q_len q \<and> unat (q_capacity q') = 2 * unat (q_capacity q)"
proof -
  let ?c = "unat (q_capacity q)" and ?p = "unat (q_pointer q)" and ?n = "unat (q_len q)"
  have c2: "unat (2 * q_capacity q) = 2 * ?c"
    using cap by (intro unat_double_no_wrap) simp
  have np: "unat (q_capacity q + q_pointer q) = ?c + ?p"
    using inv cap by (intro unat_add_no_wrap) (simp add: queue_inv_def)
  have rest: "unat (q_capacity q - q_pointer q) = ?c - ?p"
    using inv by (intro unat_sub) (simp add: queue_inv_def word_le_nat_alt)
  define d where "d = c_realloc (q_data q) (2 * ?c)"
  define d' where "d' = copy_cells d (?c + ?p) ?p (?c - ?p)"
  have ld: "length d = 2 * ?c" "length d' = 2 * ?c"
    using inv by (simp_all add: d_def d'_def queue_inv_def)
  define q' where "q' = q\<lparr>q_data := d', q_capacity := 2 * q_capacity q,
      q_pointer := q_capacity q + q_pointer q\<rparr>"
  have "c_memcpy d (?c + ?p) ?p (?c - ?p) = Inr d'"
    using inv ld by (simp add: c_memcpy_def d'_def disjoint_regions_def queue_inv_def)
  then have rs: "resize_queue q = Inr q'"
    by (simp add: resize_queue_def Let_def c2 np rest d_def q'_def)
  have cell: "d' ! ((?c + ?p + i) mod (2 * ?c)) = q_data q ! ring_index q i" if "i < ?c" for i
  proof -
    have pc: "?p < ?c" "length (q_data q) = ?c" using inv by (simp_all add: queue_inv_def)
    show ?thesis
    proof (cases "?p + i < ?c")
      case True
      then have ix: "(?c + ?p + i) mod (2 * ?c) = ?c + (?p + i)" "ring_index q i = ?p + i"
        using pc that by (simp_all add: resize_ring_index ring_index_def)
      have "d' ! (?c + (?p + i)) = d ! (?p + i)"
        using pc that True ld unfolding d'_def by (subst nth_copy_cells) auto
      also have "\<dots> = q_data q ! (?p + i)"
        using True pc by (simp add: d_def nth_c_realloc)
      finally show ?thesis by (simp add: ix)
    next
      case False
      then have ix: "(?c + ?p + i) mod (2 * ?c) = ?p + i - ?c" "ring_index q i = ?p + i - ?c"
        using pc that by (simp_all add: resize_ring_index ring_index_def mod_diff_small)
      have "d' ! (?p + i - ?c) = d ! (?p + i - ?c)"
        using pc that False ld unfolding d'_def by (subst nth_copy_cells) auto
      also have "\<dots> = q_data q ! (?p + i - ?c)"
        using False pc that by (simp add: d_def nth_c_realloc)
      finally show ?thesis by (simp add: ix)
    qed
  qed
  have "ring_index q' i = (?c + ?p + i) mod (2 * ?c)" for i
    by (simp add: ring_index_def q'_def c2 np)
  then have cell': "q_data q' ! ring_index q' i = q_data q ! ring_index q i" if "i < ?c" for i
    using cell [OF that] by (simp add: q'_def)
  have "queue_inv q'"
    using inv cap c2 np ld cell' unfolding queue_inv_def by (auto simp: q'_def)
  moreover have "queue_list q' = queue_list q"
    using inv cell' by (auto simp: queue_list_def q'_def queue_inv_def)
  ultimately show ?thesis using rs c2 by (auto simp: q'_def)
qed

lemma queue_push_list:
  assumes inv: "queue_inv q" and r: "length (queue_list q) < queue_room"
  shows "\<exists>q'. queue_push q x = Inr q' \<and> queue_inv q' \<and> queue_list q' = queue_list q @ [x]"
proof (cases "q_len q = q_capacity q")
  case True
  then have "unat (q_capacity q) \<le> 2 ^ 30" using r by (simp add: length_queue_list)
  from resize_queue_ok [OF inv this] obtain q1 where
    q1: "resize_queue q = Inr q1" "queue_inv q1" "queue_list q1 = queue_list q"
      "unat (q_len q1) < unat (q_capacity q1)"
    using True inv by (auto simp: queue_inv_def)
  from simple_push_list [OF q1(2,4)] True q1(1,3) show ?thesis
    by (simp add: queue_push_def)
next
  case False
  then have "unat (q_len q) < unat (q_capacity q)"
    using inv unfolding queue_inv_def by (metis le_neq_implies_less word_unat_eq_iff)
  from simple_push_list [OF inv this] False show ?thesis
    by (simp add: queue_push_def)
qed

subsection \<open>The ring buffer is a queue\<close>

interpretation rq: fifo queue_inv queue_list queue_push queue_pop queue_is_empty queue_room
proof unfold_locales
  fix q :: "'a t_queue" and x
  assume "queue_inv q" "length (queue_list q) < queue_room"
  then show "\<exists>q'. queue_push q x = Inr q' \<and> queue_inv q' \<and> queue_list q' = queue_list q @ [x]"
    by (rule queue_push_list)
next
  fix q :: "'a t_queue" and x xs
  assume "queue_inv q" "queue_list q = x # xs"
  then show "\<exists>q'. queue_pop q = Inr (x, q') \<and> queue_inv q' \<and> queue_list q' = xs"
    by (rule queue_pop_list)
qed (simp_all add: queue_list_empty queue_pop_empty)

end
