(* ===== verification/C_Strings.thy ===== *)
theory C_Strings
  imports C_Prelude
begin

section \<open>C strings and the string functions of the standard library\<close>

text \<open>
  The part of \<open>string.h\<close>, \<open>stdlib.h\<close> and \<open>stdio.h\<close> that the server uses. A C string is the
  content of a memory block; what the library functions see of it ends at the first null byte.
  \<open>atoi\<close> is \<open>(int) strtol (s, NULL, 10)\<close>, where \<open>strtol\<close> saturates at the bounds of \<open>long\<close>.
\<close>

subsection \<open>Strings\<close>

abbreviation NUL :: char where "NUL \<equiv> CHR 0x00"
abbreviation NEWLINE :: char where "NEWLINE \<equiv> CHR 0x0A"
abbreviation SEMICOLON :: char where "SEMICOLON \<equiv> CHR '';''"

type_synonym block = "char list"

definition cstr :: "block \<Rightarrow> string" where
  "cstr b = takeWhile (\<lambda>c. c \<noteq> NUL) b"

definition strlen :: "block \<Rightarrow> nat" where
  "strlen b = length (cstr b)"

text \<open>\<open>streq a b\<close> is \<open>strcmp (a, b) == 0\<close>; \<open>strncmp_eq n a b\<close> is \<open>strncmp (a, b, n) == 0\<close>.\<close>

definition streq :: "block \<Rightarrow> block \<Rightarrow> bool" where
  "streq a b \<longleftrightarrow> cstr a = cstr b"

definition first_char :: "block \<Rightarrow> char" where
  "first_char a = (case a of [] \<Rightarrow> NUL | c # _ \<Rightarrow> c)"

fun strncmp_eq :: "nat \<Rightarrow> block \<Rightarrow> block \<Rightarrow> bool" where
  "strncmp_eq 0 a b = True"
| "strncmp_eq (Suc n) a b \<longleftrightarrow>
     first_char a = first_char b \<and> (first_char a = NUL \<or> strncmp_eq n (tl a) (tl b))"

lemma cstr_Nil [simp]: "cstr [] = []"
  by (simp add: cstr_def)

lemma cstr_terminated [simp]: "cstr (s @ [NUL]) = cstr s"
  by (simp add: cstr_def takeWhile_tail)

lemma cstr_id [simp]: "NUL \<notin> set s \<Longrightarrow> cstr s = s"
  by (simp add: cstr_def takeWhile_eq_all_conv) blast

lemma NUL_notin_cstr [simp]: "NUL \<notin> set (cstr b)"
  by (auto simp: cstr_def dest: set_takeWhileD)

lemma cstr_idem [simp]: "cstr (cstr b) = cstr b"
  by simp

lemma set_cstr_subset: "set (cstr b) \<subseteq> set b"
  by (auto simp: cstr_def dest: set_takeWhileD)

lemma strncmp_eq_iff: "strlen a < n \<Longrightarrow> strncmp_eq n a b \<longleftrightarrow> cstr a = cstr b"
proof (induction n a b rule: strncmp_eq.induct)
  case (1 a b)
  then show ?case by simp
next
  case (2 n a b)
  show ?case
  proof (cases "first_char a = NUL")
    case True
    then have "cstr a = []" by (auto simp: cstr_def first_char_def split: list.splits)
    with True show ?thesis
      by (auto simp: cstr_def first_char_def split: list.splits)
  next
    case False
    then obtain c a' where a: "a = c # a'" "c \<noteq> NUL" "cstr a = c # cstr a'"
      by (auto simp: first_char_def cstr_def split: list.splits)
    with "2.prems" have "strlen (tl a) < n" by (simp add: strlen_def)
    with False "2.IH" a show ?thesis
      by (cases b) (auto simp: first_char_def cstr_def)
  qed
qed

subsection \<open>Decimal numbers\<close>

definition is_digit :: "char \<Rightarrow> bool" where
  "is_digit c \<longleftrightarrow> c \<in> set ''0123456789''"

definition digit_val :: "char \<Rightarrow> nat" where
  "digit_val c = of_char c - 48"

definition digit_char :: "nat \<Rightarrow> char" where
  "digit_char d = ''0123456789'' ! d"

definition is_space :: "char \<Rightarrow> bool" where
  "is_space c \<longleftrightarrow> c \<in> {CHR '' '', CHR 0x09, CHR 0x0A, CHR 0x0B, CHR 0x0C, CHR 0x0D}"

definition digits_val :: "string \<Rightarrow> nat" where
  "digits_val s = foldl (\<lambda>n c. 10 * n + digit_val c) 0 s"

fun dec :: "nat \<Rightarrow> string" where
  "dec n = (if n < 10 then [digit_char n] else dec (n div 10) @ [digit_char (n mod 10)])"

declare dec.simps [simp del]

lemma digit_char_val:
  assumes "d < 10"
  shows "digit_val (digit_char d) = d" and "is_digit (digit_char d)"
proof -
  have "d \<in> {0, 1, 2, 3, 4, 5, 6, 7, 8, 9}" using assms by (auto simp: eval_nat_numeral)
  then show "digit_val (digit_char d) = d"
    by (elim insertE) (simp_all add: digit_val_def digit_char_def)
  show "is_digit (digit_char d)"
    unfolding is_digit_def digit_char_def by (rule nth_mem) (use assms in simp)
qed

lemma dec_nonempty [simp]: "dec n \<noteq> []"
  by (subst dec.simps) simp

lemma digits_val_snoc: "digits_val (s @ [c]) = 10 * digits_val s + digit_val c"
  by (simp add: digits_val_def)

lemma dec_digits: "list_all is_digit (dec n)"
proof (induction n rule: dec.induct)
  case (1 n)
  then show ?case by (subst dec.simps) (simp add: digit_char_val)
qed

lemma digits_val_dec: "digits_val (dec n) = n"
proof (induction n rule: dec.induct)
  case (1 n)
  then show ?case
    by (subst dec.simps) (auto simp: digits_val_snoc digit_char_val digits_val_def)
qed

lemma length_dec: "0 < k \<Longrightarrow> n < 10 ^ k \<Longrightarrow> length (dec n) \<le> k"
proof (induction n arbitrary: k rule: dec.induct)
  case (1 n)
  show ?case
  proof (cases "n < 10")
    case True
    with "1.prems" show ?thesis by (subst dec.simps) simp
  next
    case False
    with "1.prems" obtain j where j: "k = Suc j" "0 < j"
      by (cases k; cases "k - 1") auto
    with "1.prems" have "n div 10 < 10 ^ j" by auto
    with "1.IH" [OF False j(2)] False j show ?thesis by (subst dec.simps) simp
  qed
qed

lemma digit_not_special:
  "is_digit c \<Longrightarrow> c \<noteq> NUL \<and> c \<noteq> SEMICOLON \<and> c \<noteq> NEWLINE \<and> \<not> is_space c \<and> c \<noteq> CHR ''-'' \<and> c \<noteq> CHR ''+''"
  by (auto simp: is_digit_def is_space_def)

lemma dec_no_special:
  "NUL \<notin> set (dec n)" "SEMICOLON \<notin> set (dec n)" "NEWLINE \<notin> set (dec n)"
  using dec_digits [of n] digit_not_special by (auto simp: list_all_iff)

text \<open>
  \<open>strtol_bound m s\<close>: the value of \<open>strtol (s, &p, 10)\<close> for a \<open>long\<close> that reaches from
  \<open>- m - 1\<close> to \<open>m\<close>, and the rest of the string that \<open>p\<close> points to.
\<close>

definition strtol_bound :: "int \<Rightarrow> string \<Rightarrow> int \<times> string" where
  "strtol_bound m s =
     (let s1 = dropWhile is_space s;
          neg = (s1 \<noteq> [] \<and> hd s1 = CHR ''-'');
          s2 = (if s1 \<noteq> [] \<and> (hd s1 = CHR ''-'' \<or> hd s1 = CHR ''+'') then tl s1 else s1);
          ds = takeWhile is_digit s2;
          v = int (digits_val ds)
      in if ds = [] then (0, s)
         else (if neg then max (- m - 1) (- v) else min m v, dropWhile is_digit s2))"

abbreviation LONG_MAX :: int where "LONG_MAX \<equiv> 9223372036854775807"

definition atol :: "block \<Rightarrow> int" where
  "atol b = fst (strtol_bound LONG_MAX (cstr b))"

definition atoi :: "block \<Rightarrow> int" where
  "atoi b = to_int32 (atol b)"

lemma strtol_bound_dec:
  assumes "r = [] \<or> \<not> is_digit (hd r)"
  shows "strtol_bound m (dec n @ r) = (min m (int n), r)"
proof -
  obtain c cs where cs: "dec n = c # cs" by (cases "dec n") auto
  then have c: "is_digit c" and all: "\<forall>x \<in> set (dec n). is_digit x"
    using dec_digits [of n] by (auto simp: list_all_iff)
  have tw: "takeWhile is_digit (dec n @ r) = dec n" "dropWhile is_digit (dec n @ r) = r"
    using all assms by (cases r; auto simp: takeWhile_append dropWhile_append)+
  have sp: "dropWhile is_space (dec n @ r) = dec n @ r"
    using digit_not_special [OF c] by (simp add: cs)
  have h: "hd (dec n @ r) = c" using cs by simp
  show ?thesis
    unfolding strtol_bound_def Let_def sp h
    using digit_not_special [OF c] by (simp add: tw digits_val_dec)
qed

lemma atoi_dec:
  assumes "int n \<le> INT_MAX"
  shows "atoi (dec n @ [NUL]) = int n"
proof -
  have "strtol_bound LONG_MAX (dec n) = (min LONG_MAX (int n), [])"
    using strtol_bound_dec [of "[]"] by simp
  then have "atol (dec n @ [NUL]) = int n"
    using assms dec_no_special(1) [of n] by (simp add: atol_def)
  then show ?thesis using assms by (simp add: atoi_def in_int_def)
qed

subsection \<open>Formatted output\<close>

definition show_int :: "int \<Rightarrow> string" where
  "show_int i = (if i < 0 then ''-'' @ dec (nat (- i)) else dec (nat i))"

text \<open>\<open>%.6f\<close> of a time that is given in microseconds.\<close>

definition show_micros :: "nat \<Rightarrow> string" where
  "show_micros us =
     (let frac = dec (us mod 10 ^ 6)
      in dec (us div 10 ^ 6) @ ''.'' @ replicate (6 - length frac) (CHR ''0'') @ frac)"

lemma length_show_micros:
  assumes "0 < k" "us < 10 ^ (k + 6)"
  shows "length (show_micros us) \<le> k + 7"
proof -
  have d: "length (dec (us mod 10 ^ 6)) \<le> 6" by (rule length_dec) simp_all
  have "us div 10 ^ 6 < 10 ^ k"
    using assms(2) by (subst div_less_iff_less_mult) (simp_all add: power_add)
  then have "length (dec (us div 10 ^ 6)) \<le> k" using assms(1) by (rule length_dec [rotated])
  with d show ?thesis by (simp add: show_micros_def Let_def)
qed

lemma NUL_notin_show:
  "NUL \<notin> set (show_int i)" "NUL \<notin> set (show_micros us)"
  using dec_no_special(1) by (auto simp: show_int_def show_micros_def Let_def)

text \<open>
  \<open>snprintf (buf, len, ...)\<close> of a text \<open>t\<close>: the block holds the text cut to \<open>len - 1\<close>
  characters and a terminator; the returned value is the length of the uncut text, or negative
  when that does not fit an \<open>int\<close>.
\<close>

definition snprintf :: "nat \<Rightarrow> string \<Rightarrow> block \<times> int" where
  "snprintf len t =
     (take (len - 1) t @ [NUL], if int (length t) \<le> INT_MAX then int (length t) else -1)"

end
