(* ===== verification/Request.thy ===== *)
theory Request
  imports Ring_Queue C_Strings
begin

section \<open>Client requests: parsing and the queue of pending requests\<close>

text \<open>
  Models \<open>request.h\<close> and \<open>request.c\<close>. A request line lies in a region of the read buffer, given
  as its cells; every access to it is checked. \<open>parse_request\<close> also changes the global
  \<open>parallel\<close>, which it takes and returns; its log message is written by the caller in this model
  (\<open>handle_msg\<close> of \<open>Server_Unix\<close>). The lemmas relate the index arithmetic of the parser to the
  fields of the line, and \<open>remove_from_queue\<close> to filtering the list of pending requests.
\<close>

subsection \<open>Definitions\<close>

datatype request_type = REQ_RUN | REQ_INTERRUPT

record request =
  r_key :: int
  r_type :: request_type
  r_id :: block
  r_timeout :: int
  r_memlimit :: u32
  r_usestdin :: bool
  r_cmd :: block
  r_numargs :: int
  r_args :: "block list"

function count_semic_from :: "char cells \<Rightarrow> int \<Rightarrow> int \<Rightarrow> int \<Rightarrow> int res" where
  "count_semic_from buf len i cnt =
     (if i < len then
        bindE (c_read buf (nat i)) (\<lambda>c.
        count_semic_from buf len (i + 1) (if c = SEMICOLON then cnt + 1 else cnt))
      else Inr cnt)"
  by pat_completeness auto
termination by (relation "measure (\<lambda>(buf, len, i, cnt). nat (len - i))") auto

declare count_semic_from.simps [simp del]

definition count_semicolons :: "char cells \<Rightarrow> int \<Rightarrow> int res" where
  "count_semicolons buf len = count_semic_from buf len 0 0"

text \<open>The loop of \<open>copy_up_to_semicolon\<close>, and the bytes that its \<open>memcpy\<close> copies.\<close>

function scan_semicolon :: "char cells \<Rightarrow> int \<Rightarrow> int \<Rightarrow> int res" where
  "scan_semicolon buf len i =
     (if i < len then
        bindE (c_read buf (nat i)) (\<lambda>c.
        if c = SEMICOLON then Inr i else scan_semicolon buf len (i + 1))
      else Inr i)"
  by pat_completeness auto
termination by (relation "measure (\<lambda>(buf, len, i). nat (len - i))") auto

declare scan_semicolon.simps [simp del]

fun read_range :: "'a cells \<Rightarrow> nat \<Rightarrow> nat \<Rightarrow> 'a list res" where
  "read_range buf i 0 = Inr []"
| "read_range buf i (Suc n) =
     bindE (c_read buf i) (\<lambda>c. bindE (read_range buf (Suc i) n) (\<lambda>cs. Inr (c # cs)))"

definition copy_up_to_semicolon :: "char cells \<Rightarrow> int \<Rightarrow> int \<Rightarrow> (block \<times> int) res" where
  "copy_up_to_semicolon buf begin len =
     bindE (scan_semicolon buf len begin) (\<lambda>i.
     bindE (read_range buf (nat begin) (nat (i - begin))) (\<lambda>s.
     Inr (s @ [NUL], if i = len then 0 else i + 1)))"

text \<open>The loop of \<open>parse_request\<close> over the arguments of the command.\<close>

fun parse_args :: "char cells \<Rightarrow> int \<Rightarrow> int \<Rightarrow> nat \<Rightarrow> block list res" where
  "parse_args buf len pos 0 = Inr []"
| "parse_args buf len pos (Suc n) =
     bindE (copy_up_to_semicolon buf pos len) (\<lambda>(a, pos).
     bindE (parse_args buf len pos n) (\<lambda>as. Inr (a # as)))"

definition parse_request :: "char cells \<Rightarrow> int \<Rightarrow> int \<Rightarrow> int \<Rightarrow> (request option \<times> int) res" where
  "parse_request str_req len key parallel =
     bindE (count_semicolons str_req len) (\<lambda>semic.
     if semic = 0 then Inr (None, parallel)
     else if semic = 1 then
       bindE (copy_up_to_semicolon str_req 0 len) (\<lambda>(tmp, pos).
       if strncmp_eq (nat pos) tmp ''parallel'' then
         bindE (copy_up_to_semicolon str_req pos len) (\<lambda>(tmp, pos).
         let parallel_arg = atoi tmp in
         Inr (None, if parallel_arg \<ge> 1 then parallel_arg else parallel))
       else if strncmp_eq (nat pos) tmp ''interrupt'' then
         bindE (copy_up_to_semicolon str_req pos len) (\<lambda>(i, pos).
         Inr (Some \<lparr>r_key = key, r_type = REQ_INTERRUPT, r_id = i, r_timeout = 0, r_memlimit = 0,
                    r_usestdin = False, r_cmd = [], r_numargs = 0, r_args = []\<rparr>, parallel))
       else Inr (None, parallel))
     else
       let numargs = semic - 4 in
       if numargs < 0 then Inr (None, parallel)
       else
         bindE (copy_up_to_semicolon str_req 0 len) (\<lambda>(tmp, pos).
         if \<not> strncmp_eq (nat pos) tmp ''run'' \<and> \<not> strncmp_eq (nat pos) tmp ''runstdin''
         then Inr (None, parallel)
         else
           let runstdin = (\<not> strncmp_eq (nat pos) tmp ''run'') in
           bindE (copy_up_to_semicolon str_req pos len) (\<lambda>(i, pos).
           bindE (copy_up_to_semicolon str_req pos len) (\<lambda>(t, pos).
           bindE (copy_up_to_semicolon str_req pos len) (\<lambda>(m, pos).
           bindE (copy_up_to_semicolon str_req pos len) (\<lambda>(c, pos).
           bindE (parse_args str_req len pos (nat numargs)) (\<lambda>as.
           Inr (Some \<lparr>r_key = key, r_type = REQ_RUN, r_id = i, r_timeout = atoi t,
                      r_memlimit = word_of_int (atoi m), r_usestdin = runstdin, r_cmd = c,
                      r_numargs = numargs, r_args = as\<rparr>, parallel))))))))"

text \<open>What \<open>print_request\<close> writes to the standard output.\<close>

definition print_request :: "request option \<Rightarrow> string" where
  "print_request r =
     (case r of
        None \<Rightarrow> ''<null request>''
      | Some r \<Rightarrow>
         (case r_type r of
            REQ_RUN \<Rightarrow> ''req_type=REQ_RUN, timeout='' @ show_int (r_timeout r) @
              '', memlimit='' @ dec (unat (r_memlimit r)) @ '', cmd='' @ cstr (r_cmd r) @
              concat (map (\<lambda>a. '' '' @ cstr a) (take (nat (r_numargs r)) (r_args r)))
          | REQ_INTERRUPT \<Rightarrow> ''req_type=REQ_INTERRUPT, id='' @ cstr (r_id r)))"

definition init_request_queue :: "request t_queue res" where
  "init_request_queue = init_queue 100"

text \<open>
  \<open>remove_from_queue\<close>: the first loop keeps the other requests in a second queue and calls the
  callback, which works on a state of its own, for those it removes; the second loop moves the
  kept requests back.
\<close>

function filter_queue :: "int \<Rightarrow> block option \<Rightarrow> (request \<Rightarrow> 's \<Rightarrow> 's res) option \<Rightarrow>
    request t_queue \<Rightarrow> request t_queue \<Rightarrow> 's \<Rightarrow> (request t_queue \<times> request t_queue \<times> 's) res" where
  "filter_queue key i callback q tmp s =
     (if \<not> queue_is_empty q then
        bindE (queue_pop q) (\<lambda>(r, q).
        if r_key r \<noteq> key \<or> (case i of None \<Rightarrow> False | Some i \<Rightarrow> \<not> streq (r_id r) i) then
          bindE (queue_push tmp r) (\<lambda>tmp. filter_queue key i callback q tmp s)
        else
          (case callback of
             None \<Rightarrow> filter_queue key i callback q tmp s
           | Some f \<Rightarrow> bindE (f r s) (\<lambda>s. filter_queue key i callback q tmp s)))
      else Inr (q, tmp, s))"
  by pat_completeness auto
termination
  by (relation "measure (\<lambda>(key, i, callback, q, tmp, s). unat (q_len q))") (auto dest: queue_pop_shorter)

declare filter_queue.simps [simp del]

function move_queue :: "request t_queue \<Rightarrow> request t_queue \<Rightarrow> (request t_queue \<times> request t_queue) res" where
  "move_queue tmp q =
     (if \<not> queue_is_empty tmp then
        bindE (queue_pop tmp) (\<lambda>(r, tmp). bindE (queue_push q r) (\<lambda>q. move_queue tmp q))
      else Inr (tmp, q))"
  by pat_completeness auto
termination
  by (relation "measure (\<lambda>(tmp, q). unat (q_len tmp))") (auto dest: queue_pop_shorter)

declare move_queue.simps [simp del]

definition remove_from_queue :: "int \<Rightarrow> block option \<Rightarrow> (request \<Rightarrow> 's \<Rightarrow> 's res) option \<Rightarrow>
    request t_queue \<Rightarrow> 's \<Rightarrow> (request t_queue \<times> 's) res" where
  "remove_from_queue key i callback queue s =
     bindE (init_queue (q_capacity queue)) (\<lambda>tmp.
     bindE (filter_queue key i callback queue tmp s) (\<lambda>(queue, tmp, s).
     bindE (move_queue tmp queue) (\<lambda>(tmp, queue).
     bindE (free_queue tmp) (\<lambda>_.
     Inr (queue, s)))))"

subsection \<open>Fields of a line\<close>

text \<open>The reference view of a request line: its fields between the semicolons.\<close>

function split_semi :: "string \<Rightarrow> string list" where
  "split_semi s =
     (case dropWhile (\<lambda>c. c \<noteq> SEMICOLON) s of
        [] \<Rightarrow> [s]
      | _ # r \<Rightarrow> takeWhile (\<lambda>c. c \<noteq> SEMICOLON) s # split_semi r)"
  by pat_completeness auto
termination
proof (relation "measure length", simp)
  fix s x r
  assume "dropWhile (\<lambda>c. c \<noteq> SEMICOLON) s = x # r"
  then have "length (x # r) \<le> length s" by (metis length_dropWhile_le)
  then show "(r, s) \<in> measure length" by simp
qed

declare split_semi.simps [simp del]

definition request_run :: "int \<Rightarrow> bool \<Rightarrow> string \<Rightarrow> string \<Rightarrow> string \<Rightarrow> string \<Rightarrow> string list \<Rightarrow> request" where
  "request_run key stdin i t m c as =
     \<lparr>r_key = key, r_type = REQ_RUN, r_id = i @ [NUL], r_timeout = atoi (t @ [NUL]),
      r_memlimit = word_of_int (atoi (m @ [NUL])), r_usestdin = stdin, r_cmd = c @ [NUL],
      r_numargs = int (length as), r_args = map (\<lambda>a. a @ [NUL]) as\<rparr>"

definition request_interrupt :: "int \<Rightarrow> string \<Rightarrow> request" where
  "request_interrupt key i =
     \<lparr>r_key = key, r_type = REQ_INTERRUPT, r_id = i @ [NUL], r_timeout = 0, r_memlimit = 0,
      r_usestdin = False, r_cmd = [], r_numargs = 0, r_args = []\<rparr>"

definition parse_fields :: "string list \<Rightarrow> int \<Rightarrow> int \<Rightarrow> request option \<times> int" where
  "parse_fields fs key parallel =
     (case fs of
        [c, a] \<Rightarrow>
          if cstr c = ''parallel'' then
            (None, if atoi (a @ [NUL]) \<ge> 1 then atoi (a @ [NUL]) else parallel)
          else if cstr c = ''interrupt'' then (Some (request_interrupt key a), parallel)
          else (None, parallel)
      | c # i # t # m # cmd # as \<Rightarrow>
          if cstr c = ''run'' then (Some (request_run key False i t m cmd as), parallel)
          else if cstr c = ''runstdin'' then (Some (request_run key True i t m cmd as), parallel)
          else (None, parallel)
      | _ \<Rightarrow> (None, parallel))"

fun join_semi :: "string list \<Rightarrow> string" where
  "join_semi [] = []"
| "join_semi [f] = f"
| "join_semi (f # fs) = f @ SEMICOLON # join_semi fs"

lemma split_semi_nonempty: "split_semi s \<noteq> []"
  by (subst split_semi.simps) (simp split: list.split)

lemma split_semi_single: "SEMICOLON \<notin> set s \<Longrightarrow> split_semi s = [s]"
proof -
  assume "SEMICOLON \<notin> set s"
  then have d: "dropWhile (\<lambda>c. c \<noteq> SEMICOLON) s = []" by (auto simp: dropWhile_eq_Nil_conv)
  show ?thesis unfolding split_semi.simps [of s] d by simp
qed

lemma split_semi_cons:
  "SEMICOLON \<notin> set f \<Longrightarrow> split_semi (f @ SEMICOLON # r) = f # split_semi r"
proof -
  assume f: "SEMICOLON \<notin> set f"
  then have "dropWhile (\<lambda>c. c \<noteq> SEMICOLON) (f @ SEMICOLON # r) = SEMICOLON # r"
    and "takeWhile (\<lambda>c. c \<noteq> SEMICOLON) (f @ SEMICOLON # r) = f"
    by (auto simp: dropWhile_append takeWhile_append)
  then show ?thesis by (subst split_semi.simps) simp
qed

lemma split_join:
  "fs \<noteq> [] \<Longrightarrow> \<forall>f \<in> set fs. SEMICOLON \<notin> set f \<Longrightarrow> split_semi (join_semi fs) = fs"
  by (induction fs rule: join_semi.induct) (simp_all add: split_semi_single split_semi_cons)

lemma split_semi_cases:
  obtains (last) "SEMICOLON \<notin> set s" "split_semi s = [s]"
    | (more) f r where "s = f @ SEMICOLON # r" "SEMICOLON \<notin> set f" "split_semi s = f # split_semi r"
proof (cases "SEMICOLON \<in> set s")
  case True
  then obtain f r where "s = f @ SEMICOLON # r" "SEMICOLON \<notin> set f"
    by (metis split_list_first)
  then show thesis using more split_semi_cons by blast
next
  case False
  then show thesis using last split_semi_single by blast
qed

subsection \<open>The parser reads the fields\<close>

text \<open>
  \<open>line_at buf s\<close>: the cells \<open>buf\<close> begin with the line \<open>s\<close>, of at most \<open>INT_MAX\<close> characters.
  \<open>fields_from s p fs\<close>: from position \<open>p\<close> on, the line consists of the fields \<open>fs\<close>.
\<close>

abbreviation line_at :: "char cells \<Rightarrow> string \<Rightarrow> bool" where
  "line_at buf s \<equiv> holds buf s"

definition fields_from :: "string \<Rightarrow> int \<Rightarrow> string list \<Rightarrow> bool" where
  "fields_from s p fs \<longleftrightarrow> 0 \<le> p \<and> p \<le> int (length s) \<and> split_semi (drop (nat p) s) = fs"

lemma line_read: "line_at buf s \<Longrightarrow> i < length s \<Longrightarrow> c_read buf i = Inr (s ! i)"
  using holds_nth [of buf s i] by (auto simp: holds_def)

lemma read_range_line:
  "line_at buf s \<Longrightarrow> i + n \<le> length s \<Longrightarrow> read_range buf i n = Inr (take n (drop i s))"
proof (induction n arbitrary: i)
  case 0
  then show ?case by simp
next
  case (Suc n)
  then have "drop i s = s ! i # drop (Suc i) s" by (simp add: Cons_nth_drop_Suc)
  with Suc show ?case by (simp add: line_read)
qed

lemma count_semic_from_line:
  assumes "line_at buf s" "i \<le> length s"
  shows "count_semic_from buf (int (length s)) (int i) cnt =
    Inr (cnt + int (length (split_semi (drop i s))) - 1)"
  using assms(2)
proof (induction "length s - i" arbitrary: i cnt)
  case 0
  then show ?case
    by (subst count_semic_from.simps) (simp add: split_semi_single)
next
  case (Suc n)
  then have i: "i < length s" by simp
  then have d: "drop i s = s ! i # drop (Suc i) s" by (simp add: Cons_nth_drop_Suc)
  have IH: "count_semic_from buf (int (length s)) (int i + 1) c =
      Inr (c + int (length (split_semi (drop (Suc i) s))) - 1)" for c
    using Suc.hyps(1) [of "Suc i" c] Suc.hyps(2) i by (simp add: add.commute)
  have "length (split_semi (drop i s)) =
      (if s ! i = SEMICOLON then 1 else 0) + length (split_semi (drop (Suc i) s))"
  proof (cases rule: split_semi_cases [of "drop (Suc i) s"])
    case last
    then show ?thesis using split_semi_cons [of "[]"] split_semi_single [of "drop i s"] d by auto
  next
    case (more f r)
    then show ?thesis
      using split_semi_cons [of "[]" "drop (Suc i) s"] split_semi_cons [of "s ! i # f" r] d by auto
  qed
  then show ?case
    using IH i line_read [OF assms(1) i] by (subst count_semic_from.simps) simp
qed

lemma count_semicolons_line:
  "line_at buf s \<Longrightarrow>
     count_semicolons buf (int (length s)) = Inr (int (length (split_semi s)) - 1)"
  using count_semic_from_line [of buf s 0 0] by (simp add: count_semicolons_def)

lemma scan_semicolon_line:
  assumes "line_at buf s" "i \<le> length s"
  shows "scan_semicolon buf (int (length s)) (int i) =
    Inr (int (i + length (takeWhile (\<lambda>c. c \<noteq> SEMICOLON) (drop i s))))"
  using assms(2)
proof (induction "length s - i" arbitrary: i)
  case 0
  then show ?case by (subst scan_semicolon.simps) simp
next
  case (Suc n)
  then have i: "i < length s" by simp
  then have d: "drop i s = s ! i # drop (Suc i) s" by (simp add: Cons_nth_drop_Suc)
  have "scan_semicolon buf (int (length s)) (int i + 1) =
      Inr (int (Suc i + length (takeWhile (\<lambda>c. c \<noteq> SEMICOLON) (drop (Suc i) s))))"
    using Suc.hyps(1) [of "Suc i"] Suc.hyps(2) i by (simp add: add.commute)
  then show ?case
    using i d line_read [OF assms(1) i] by (subst scan_semicolon.simps) simp
qed

lemma copy_up_to_semicolon_line:
  assumes "line_at buf s" "p \<le> length s"
  defines "f \<equiv> takeWhile (\<lambda>c. c \<noteq> SEMICOLON) (drop p s)"
  shows "copy_up_to_semicolon buf (int p) (int (length s)) =
    Inr (f @ [NUL], if p + length f = length s then 0 else int (p + length f) + 1)"
proof -
  have le: "p + length f \<le> length s"
    using assms(2) length_takeWhile_le [of "\<lambda>c. c \<noteq> SEMICOLON" "drop p s"]
    by (simp add: f_def le_diff_conv2 add.commute)
  have "take (length f) (drop p s) = f" unfolding f_def by (metis takeWhile_eq_take)
  with read_range_line [OF assms(1) le] scan_semicolon_line [OF assms(1,2)]
  show ?thesis by (simp add: copy_up_to_semicolon_def f_def [symmetric])
qed

text \<open>Copying at the start of a field gives the field and the position of the next one.\<close>

lemma copy_field:
  assumes b: "line_at buf s" and p: "fields_from s p (f # g # gs)"
  obtains p' where "copy_up_to_semicolon buf p (int (length s)) = Inr (f @ [NUL], p')"
    "fields_from s p' (g # gs)" "p' = p + int (length f) + 1"
proof -
  define n where "n = nat p"
  have n: "p = int n" "n \<le> length s" "split_semi (drop n s) = f # g # gs"
    using p by (auto simp: fields_from_def n_def)
  from n(3) obtain r where r: "drop n s = f @ SEMICOLON # r" "SEMICOLON \<notin> set f" "split_semi r = g # gs"
    by (cases rule: split_semi_cases [of "drop n s"]) auto
  have tw: "takeWhile (\<lambda>c. c \<noteq> SEMICOLON) (drop n s) = f"
    using r by (auto simp: takeWhile_append)
  have len: "length s - n = length f + 1 + length r" using arg_cong [OF r(1), of length] by simp
  have "drop (n + length f + 1) s = r"
    using r(1) by (metis add.assoc append_eq_conv_conj drop_drop add.commute drop_Suc_Cons drop0
        One_nat_def add_Suc_right add_0_right)
  then have "fields_from s (p + int (length f) + 1) (g # gs)"
    using n len r(3) by (simp add: fields_from_def nat_add_distrib)
  moreover have "n + length f \<noteq> length s" using len n(2) by simp
  ultimately show thesis
    using that copy_up_to_semicolon_line [OF b n(2)] tw n(1) by simp
qed

lemma copy_last_field:
  assumes b: "line_at buf s" and p: "fields_from s p [f]"
  shows "copy_up_to_semicolon buf p (int (length s)) = Inr (f @ [NUL], 0)"
proof -
  define n where "n = nat p"
  have n: "p = int n" "n \<le> length s" "split_semi (drop n s) = [f]"
    using p by (auto simp: fields_from_def n_def)
  have r: "drop n s = f \<and> SEMICOLON \<notin> set f"
    using split_semi_cases [of "drop n s"] n(3) split_semi_nonempty by (metis list.inject)
  then have "takeWhile (\<lambda>c. c \<noteq> SEMICOLON) (drop n s) = f" by (auto simp: takeWhile_eq_all_conv)
  moreover have "n + length f = length s" using r n(2) by (metis le_add_diff_inverse length_drop)
  ultimately show ?thesis using copy_up_to_semicolon_line [OF b n(2)] n(1) by simp
qed

lemma parse_args_line:
  "line_at buf s \<Longrightarrow> fields_from s p fs \<Longrightarrow> fs \<noteq> [] \<Longrightarrow>
     parse_args buf (int (length s)) p (length fs) = Inr (map (\<lambda>a. a @ [NUL]) fs)"
proof (induction fs arbitrary: p)
  case Nil
  then show ?case by simp
next
  case (Cons f fs)
  show ?case
  proof (cases fs)
    case Nil
    with Cons.prems copy_last_field [of buf s p f] show ?thesis by simp
  next
    case (Cons g gs)
    with Cons.prems obtain p' where
      "copy_up_to_semicolon buf p (int (length s)) = Inr (f @ [NUL], p')" "fields_from s p' fs"
      using copy_field by (metis Cons.prems(1,2))
    with Cons.IH Cons.prems Cons show ?thesis by simp
  qed
qed


text \<open>
  After a field was copied, \<open>pos\<close> is one more than its length, so that \<open>strncmp\<close> also compares
  the terminator: the command word is compared as a whole.
\<close>

lemma strncmp_field:
  "strncmp_eq (nat (int (length f) + 1)) (f @ [NUL]) w \<longleftrightarrow> cstr f = cstr w"
proof -
  have "strlen (f @ [NUL]) < nat (int (length f) + 1)"
    using length_takeWhile_le [of "\<lambda>c. c \<noteq> NUL" f]
    by (simp add: strlen_def) (simp add: cstr_def)
  from strncmp_eq_iff [OF this] show ?thesis by simp
qed

lemma fields_from_0: "fields_from s 0 (split_semi s)"
  by (simp add: fields_from_def)

lemma parse_request_run_line:
  assumes b: "line_at buf s" and fs: "split_semi s = c # i # t # m # cmd # as"
  shows "parse_request buf (int (length s)) key par = Inr (parse_fields (split_semi s) key par)"
proof -
  let ?n = "int (length s)"
  have cnt: "count_semicolons buf ?n = Inr (4 + int (length as))"
    using count_semicolons_line [OF b] fs by simp
  have "fields_from s 0 (c # i # t # m # cmd # as)" using fields_from_0 [of s] fs by simp
  then obtain p1 where c1: "copy_up_to_semicolon buf 0 ?n = Inr (c @ [NUL], p1)"
      "fields_from s p1 (i # t # m # cmd # as)" "p1 = int (length c) + 1"
    using copy_field [OF b] by (metis add_0)
  then obtain p2 where c2: "copy_up_to_semicolon buf p1 ?n = Inr (i @ [NUL], p2)"
      "fields_from s p2 (t # m # cmd # as)" using copy_field [OF b] by metis
  then obtain p3 where c3: "copy_up_to_semicolon buf p2 ?n = Inr (t @ [NUL], p3)"
      "fields_from s p3 (m # cmd # as)" using copy_field [OF b] by metis
  then obtain p4 where c4: "copy_up_to_semicolon buf p3 ?n = Inr (m @ [NUL], p4)"
      "fields_from s p4 (cmd # as)" using copy_field [OF b] by metis
  obtain p5 where c5: "copy_up_to_semicolon buf p4 ?n = Inr (cmd @ [NUL], p5)"
      "parse_args buf ?n p5 (length as) = Inr (map (\<lambda>a. a @ [NUL]) as)"
  proof (cases as)
    case Nil
    with that copy_last_field [OF b] c4(2) show thesis by simp
  next
    case (Cons a bs)
    with c4(2) obtain p5 where "copy_up_to_semicolon buf p4 ?n = Inr (cmd @ [NUL], p5)"
        "fields_from s p5 as" using copy_field [OF b] by metis
    with that parse_args_line [OF b, of p5 as] Cons show thesis by blast
  qed
  have sn: "strncmp_eq (nat p1) (c @ [NUL]) ''run'' \<longleftrightarrow> cstr c = ''run''"
    "strncmp_eq (nat p1) (c @ [NUL]) ''runstdin'' \<longleftrightarrow> cstr c = ''runstdin''"
    using strncmp_field [of c] c1(3) by simp_all
  show ?thesis
    unfolding parse_request_def
    by (simp add: cnt c1(1) c2(1) c3(1) c4(1) c5 sn fs parse_fields_def request_run_def Let_def)
qed

lemma parse_request_pair_line:
  assumes b: "line_at buf s" and fs: "split_semi s = [c, a]"
  shows "parse_request buf (int (length s)) key par = Inr (parse_fields (split_semi s) key par)"
proof -
  let ?n = "int (length s)"
  have cnt: "count_semicolons buf ?n = Inr 1" using count_semicolons_line [OF b] fs by simp
  have "fields_from s 0 [c, a]" using fields_from_0 [of s] fs by simp
  then obtain p1 where c1: "copy_up_to_semicolon buf 0 ?n = Inr (c @ [NUL], p1)"
      "fields_from s p1 [a]" "p1 = int (length c) + 1"
    using copy_field [OF b] by (metis add_0)
  note c2 = copy_last_field [OF b c1(2)]
  have sn: "strncmp_eq (nat p1) (c @ [NUL]) ''parallel'' \<longleftrightarrow> cstr c = ''parallel''"
    "strncmp_eq (nat p1) (c @ [NUL]) ''interrupt'' \<longleftrightarrow> cstr c = ''interrupt''"
    using strncmp_field [of c] c1(3) by simp_all
  show ?thesis
    unfolding parse_request_def
    by (simp add: cnt c1(1) c2 sn fs parse_fields_def request_interrupt_def Let_def)
qed

lemma parse_request_line:
  assumes b: "line_at buf s"
  shows "parse_request buf (int (length s)) key par = Inr (parse_fields (split_semi s) key par)"
proof -
  note cnt = count_semicolons_line [OF b]
  consider (one) f where "split_semi s = [f]" | (two) f g where "split_semi s = [f, g]"
    | (few) f g h where "split_semi s = [f, g, h]" | (few4) f g h k where "split_semi s = [f, g, h, k]"
    | (many) c i t m cmd as where "split_semi s = c # i # t # m # cmd # as"
    using split_semi_nonempty by (metis list.exhaust)
  then show ?thesis
  proof cases
    case two
    then show ?thesis by (rule parse_request_pair_line [OF b])
  next
    case many
    then show ?thesis by (rule parse_request_run_line [OF b])
  qed (use cnt in \<open>simp_all add: parse_request_def parse_fields_def\<close>)
qed

subsection \<open>Removing requests from the queue\<close>

definition matches :: "int \<Rightarrow> block option \<Rightarrow> request \<Rightarrow> bool" where
  "matches key i r \<longleftrightarrow> r_key r = key \<and> (case i of None \<Rightarrow> True | Some i \<Rightarrow> streq (r_id r) i)"

text \<open>The callback applied to a list of requests, one after the other.\<close>

fun each_request :: "(request \<Rightarrow> 's \<Rightarrow> 's res) option \<Rightarrow> request list \<Rightarrow> 's \<Rightarrow> 's res" where
  "each_request callback [] s = Inr s"
| "each_request callback (r # rs) s =
     bindE (case callback of None \<Rightarrow> Inr s | Some f \<Rightarrow> f r s) (each_request callback rs)"

lemma each_request_None [simp]: "each_request None rs s = Inr s"
  by (induction rs) simp_all

lemma filter_queue_list:
  assumes "queue_inv q" "queue_inv tmp"
    and "length (queue_list tmp) + length (queue_list q) \<le> queue_room"
  shows "\<exists>q' tmp'. queue_inv q' \<and> queue_list q' = [] \<and> queue_inv tmp' \<and>
    queue_list tmp' = queue_list tmp @ filter (\<lambda>r. \<not> matches key i r) (queue_list q) \<and>
    (\<forall>s. filter_queue key i callback q tmp s =
      bindE (each_request callback (filter (matches key i) (queue_list q)) s) (\<lambda>s. Inr (q', tmp', s)))"
  using assms
proof (induction q arbitrary: tmp rule: rq.drain_induct)
  case (empty q)
  then show ?case by (auto simp: filter_queue.simps [of key i callback q])
next
  case (pop q r q1)
  note step = filter_queue.simps [of key i callback q]
  show ?case
  proof (cases "matches key i r")
    case True
    then have c: "\<not> (r_key r \<noteq> key \<or> (case i of None \<Rightarrow> False | Some i \<Rightarrow> \<not> streq (r_id r) i))"
      by (auto simp: matches_def split: option.splits)
    have "length (queue_list tmp) + length (queue_list q1) \<le> queue_room" using pop by simp
    from pop.IH [OF pop.prems(1) this] obtain q' tmp' where
      q': "queue_inv q'" "queue_list q' = []" "queue_inv tmp'"
        "queue_list tmp' = queue_list tmp @ filter (\<lambda>r. \<not> matches key i r) (queue_list q1)"
      and run: "\<And>s. filter_queue key i callback q1 tmp s =
        bindE (each_request callback (filter (matches key i) (queue_list q1)) s) (\<lambda>s. Inr (q', tmp', s))"
      by blast
    have ex: "filter_queue key i callback q1 tmp = (\<lambda>s.
        bindE (each_request callback (filter (matches key i) (queue_list q1)) s) (\<lambda>s. Inr (q', tmp', s)))"
      by (rule ext) (rule run)
    have "filter_queue key i callback q tmp s =
        bindE (each_request callback (filter (matches key i) (queue_list q)) s) (\<lambda>s. Inr (q', tmp', s))" for s
      unfolding step using pop.hyps True c ex by (cases callback) (simp_all add: bindE_assoc)
    with q' True pop.hyps show ?thesis by auto
  next
    case False
    then have c: "r_key r \<noteq> key \<or> (case i of None \<Rightarrow> False | Some i \<Rightarrow> \<not> streq (r_id r) i)"
      by (auto simp: matches_def split: option.splits)
    obtain tmp1 where t: "queue_push tmp r = Inr tmp1" "queue_inv tmp1"
        "queue_list tmp1 = queue_list tmp @ [r]"
      using rq.push_law [OF pop.prems(1), of r] pop by auto
    then have "length (queue_list tmp1) + length (queue_list q1) \<le> queue_room" using pop by simp
    from pop.IH [OF t(2) this] t False pop.hyps c show ?thesis by (auto simp: step)
  qed
qed

lemma move_queue_list:
  assumes "queue_inv tmp" "queue_inv q" "length (queue_list q) + length (queue_list tmp) \<le> queue_room"
  shows "\<exists>tmp' q'. move_queue tmp q = Inr (tmp', q') \<and> queue_is_empty tmp' \<and> queue_inv q' \<and>
    queue_list q' = queue_list q @ queue_list tmp"
  using assms
proof (induction tmp arbitrary: q rule: rq.drain_induct)
  case (empty tmp)
  then show ?case by (subst move_queue.simps) simp
next
  case (pop tmp r tmp1)
  obtain q1 where q1: "queue_push q r = Inr q1" "queue_inv q1" "queue_list q1 = queue_list q @ [r]"
    using rq.push_law [OF pop.prems(1), of r] pop by auto
  then have "length (queue_list q1) + length (queue_list tmp1) \<le> queue_room" using pop by simp
  from pop.IH [OF q1(2) this] q1 pop.hyps show ?case by (subst move_queue.simps) auto
qed

lemma remove_from_queue_list:
  assumes inv: "queue_inv q" and room: "length (queue_list q) \<le> queue_room"
  shows "\<exists>q'. queue_inv q' \<and> queue_list q' = filter (\<lambda>r. \<not> matches key i r) (queue_list q) \<and>
    (\<forall>s. remove_from_queue key i callback q s =
       bindE (each_request callback (filter (matches key i) (queue_list q)) s) (\<lambda>s. Inr (q', s)))"
proof -
  have "0 < unat (q_capacity q)" "unat (q_capacity q) \<le> 2 ^ 31" using inv by (simp_all add: queue_inv_def)
  then obtain tmp :: "request t_queue" where
    tmp: "init_queue (q_capacity q) = Inr tmp" "queue_inv tmp" "queue_list tmp = []"
    by (rule init_queue_ok)
  have r1: "length (queue_list tmp) + length (queue_list q) \<le> queue_room" using tmp room by simp
  obtain q1 t1 where f: "queue_inv q1" "queue_list q1 = []" "queue_inv t1"
    "queue_list t1 = filter (\<lambda>r. \<not> matches key i r) (queue_list q)"
    "\<And>s. filter_queue key i callback q tmp s =
       bindE (each_request callback (filter (matches key i) (queue_list q)) s) (\<lambda>s. Inr (q1, t1, s))"
    using filter_queue_list [OF inv tmp(2) r1, of key i callback] tmp(3) by auto
  have r2: "length (queue_list q1) + length (queue_list t1) \<le> queue_room"
    using f room le_trans [OF length_filter_le] by simp
  from move_queue_list [OF f(3,1) r2] obtain t2 q2 where
    m: "move_queue t1 q1 = Inr (t2, q2)" "queue_is_empty t2" "queue_inv q2"
      "queue_list q2 = filter (\<lambda>r. \<not> matches key i r) (queue_list q)"
    using f by auto
  have "remove_from_queue key i callback q s =
      bindE (each_request callback (filter (matches key i) (queue_list q)) s) (\<lambda>s. Inr (q2, s))" for s
    using tmp(1) m by (simp add: remove_from_queue_def f(5) bindE_assoc free_queue_def)
  with m show ?thesis by blast
qed

lemma init_request_queue_ok:
  obtains q where "init_request_queue = Inr q" "queue_inv q" "queue_list q = []"
  unfolding init_request_queue_def by (rule init_queue_ok [of 100]) simp_all

end
