(* ===== verification/Keyed_Store.thy ===== *)
theory Keyed_Store
  imports C_Prelude "HOL-Library.Multiset"
begin

section \<open>The contract of a list of keyed entries\<close>

text \<open>
  What the users of \<open>arraylist.h\<close> (the lists of clients and of processes) rely on. The entries of
  a list are pairs of a key and a value; a list whose keys are distinct behaves as a finite map,
  and removal keeps the other entries but not their order. The list takes further entries as long
  as it has fewer than \<open>room\<close>.
\<close>

locale keyed_store =
  fixes linv :: "'l \<Rightarrow> bool"
    and lents :: "'l \<Rightarrow> (int \<times> 'v) list"
    and lappend :: "'l \<Rightarrow> int \<Rightarrow> 'v \<Rightarrow> 'l res"
    and lremove :: "'l \<Rightarrow> int \<Rightarrow> 'l res"
    and llookup :: "'l \<Rightarrow> int \<Rightarrow> 'v option res"
    and llength :: "'l \<Rightarrow> int"
    and lempty :: "'l \<Rightarrow> bool"
    and room :: nat
  assumes append_law: "linv l \<Longrightarrow> length (lents l) < room \<Longrightarrow>
      \<exists>l'. lappend l k v = Inr l' \<and> linv l' \<and> lents l' = lents l @ [(k, v)]"
    and remove_law: "linv l \<Longrightarrow> distinct (map fst (lents l)) \<Longrightarrow>
      \<exists>l'. lremove l k = Inr l' \<and> linv l' \<and>
           mset (lents l') = filter_mset (\<lambda>e. fst e \<noteq> k) (mset (lents l))"
    and lookup_law: "linv l \<Longrightarrow> llookup l k = Inr (map_of (lents l) k)"
    and length_law: "linv l \<Longrightarrow> llength l = int (length (lents l))"
    and is_empty_law: "linv l \<Longrightarrow> lempty l \<longleftrightarrow> lents l = []"
begin

definition keys :: "'l \<Rightarrow> int set" where
  "keys l = fst ` set (lents l)"

definition ok :: "'l \<Rightarrow> bool" where
  "ok l \<longleftrightarrow> linv l \<and> distinct (map fst (lents l))"

lemma lookup_Some_iff: "ok l \<Longrightarrow> llookup l k = Inr (Some v) \<longleftrightarrow> (k, v) \<in> set (lents l)"
  by (simp add: ok_def lookup_law)

lemma lookup_None_iff: "ok l \<Longrightarrow> llookup l k = Inr None \<longleftrightarrow> k \<notin> keys l"
  by (simp add: ok_def lookup_law map_of_eq_None_iff keys_def)

lemma lookup_cases:
  assumes "ok l"
  obtains (absent) "llookup l k = Inr None" "k \<notin> keys l"
    | (present) v where "llookup l k = Inr (Some v)" "(k, v) \<in> set (lents l)" "k \<in> keys l"
proof (cases "map_of (lents l) k")
  case None
  then show thesis using assms absent
    by (simp add: ok_def lookup_law map_of_eq_None_iff keys_def)
next
  case (Some v)
  then show thesis using assms present [of v] map_of_SomeD [OF Some]
    by (force simp: ok_def lookup_law keys_def)
qed

lemma append_ok:
  assumes "ok l" "k \<notin> keys l" "length (lents l) < room"
  obtains l' where "lappend l k v = Inr l'" "ok l'" "lents l' = lents l @ [(k, v)]"
    "keys l' = insert k (keys l)"
proof -
  from append_law assms obtain l' where
    l': "lappend l k v = Inr l'" "linv l'" "lents l' = lents l @ [(k, v)]"
    by (metis ok_def)
  with assms have "ok l'" "keys l' = insert k (keys l)" by (auto simp: ok_def keys_def)
  with l' that show thesis by blast
qed

lemma remove_ok:
  assumes "ok l"
  obtains l' where "lremove l k = Inr l'" "ok l'"
    "mset (lents l') = filter_mset (\<lambda>e. fst e \<noteq> k) (mset (lents l))"
    "set (lents l') = {e \<in> set (lents l). fst e \<noteq> k}"
    "keys l' = keys l - {k}"
proof -
  from remove_law assms obtain l' where
    l': "lremove l k = Inr l'" "linv l'"
      "mset (lents l') = filter_mset (\<lambda>e. fst e \<noteq> k) (mset (lents l))"
    by (metis ok_def)
  from l'(3) have fl: "mset (lents l') = mset (filter (\<lambda>e. fst e \<noteq> k) (lents l))" by simp
  have s: "set (lents l') = {e \<in> set (lents l). fst e \<noteq> k}"
    using mset_eq_setD [OF fl] by simp
  have "mset (map fst (lents l')) = mset (map fst (filter (\<lambda>e. fst e \<noteq> k) (lents l)))"
    using fl by (simp only: mset_map)
  then have "distinct (map fst (lents l'))"
    using assms unfolding ok_def by (metis distinct_map_filter mset_eq_imp_distinct_iff)
  with l' s that show thesis by (auto simp: ok_def keys_def)
qed

lemma length_eq_card: "ok l \<Longrightarrow> length (lents l) = card (keys l)"
  by (metis distinct_card length_map list.set_map ok_def keys_def)

lemma remove_length:
  assumes "ok l" "k \<in> keys l" "lremove l k = Inr l'"
  shows "length (lents l') + 1 = length (lents l)"
proof -
  obtain l'' where l'': "lremove l k = Inr l''" "keys l'' = keys l - {k}" "ok l''"
    using remove_ok [OF assms(1)] by metis
  have "card (keys l'') + 1 = card (keys l)"
    using assms(2) l''(2) by (metis List.finite_set Suc_eq_plus1 card_Suc_Diff1 finite_imageI keys_def)
  then have "length (lents l'') + 1 = length (lents l)"
    using length_eq_card l''(3) assms(1) by simp
  then show ?thesis using l''(1) assms(3) by simp
qed

text \<open>The keys are distinct, so a bound on the keys bounds the number of entries.\<close>

lemma length_le_bound:
  assumes "ok l" "keys l \<subseteq> {0..<int n}"
  shows "length (lents l) \<le> n"
proof -
  have "length (lents l) = card (keys l)" using assms(1) by (rule length_eq_card)
  also have "\<dots> \<le> card {0..<int n}" by (rule card_mono) (use assms in simp_all)
  finally show ?thesis by simp
qed

end

end
