(* ===== verification/Array_List.thy ===== *)
theory Array_List
  imports Keyed_Store
begin

section \<open>The growing array of arraylist.c\<close>

text \<open>
  Models \<open>arraylist.h\<close> and \<open>arraylist.c\<close>: two parallel arrays of keys and of data pointers that
  double when they are full. A stored pointer is a value; \<open>NULL\<close>, the answer for an absent key,
  is \<open>None\<close>. The lemmas show that it implements the contract \<open>keyed_store\<close>.
\<close>

subsection \<open>Definitions\<close>

record 'a t_list =
  l_key :: "int cells"
  l_data :: "'a cells"
  l_len :: int
  l_capacity :: int

definition INVALID_INDEX :: int where
  "INVALID_INDEX = -1"

definition init_list :: "int \<Rightarrow> 'a t_list" where
  "init_list capacity =
     \<lparr>l_key = c_malloc (nat capacity), l_data = c_malloc (nat capacity),
      l_len = 0, l_capacity = capacity\<rparr>"

definition list_is_empty :: "'a t_list \<Rightarrow> bool" where
  "list_is_empty l \<longleftrightarrow> l_len l = 0"

text \<open>The loop of \<open>list_lookup_index\<close>, from index \<open>i\<close> on.\<close>

function lookup_index_from :: "'a t_list \<Rightarrow> int \<Rightarrow> int \<Rightarrow> int res" where
  "lookup_index_from l key i =
     (if i < l_len l then
        bindE (c_read (l_key l) (nat i)) (\<lambda>k.
        if k = key then Inr i else lookup_index_from l key (i + 1))
      else Inr INVALID_INDEX)"
  by pat_completeness auto
termination by (relation "measure (\<lambda>(l, key, i). nat (l_len l - i))") auto

declare lookup_index_from.simps [simp del]

definition list_lookup_index :: "'a t_list \<Rightarrow> int \<Rightarrow> int res" where
  "list_lookup_index l key = lookup_index_from l key 0"

definition list_lookup :: "'a t_list \<Rightarrow> int \<Rightarrow> 'a option res" where
  "list_lookup l key =
     bindE (list_lookup_index l key) (\<lambda>i.
     if i = INVALID_INDEX then Inr None
     else bindE (c_read (l_data l) (nat i)) (\<lambda>x. Inr (Some x)))"

definition list_remove :: "'a t_list \<Rightarrow> int \<Rightarrow> 'a t_list res" where
  "list_remove l key =
     bindE (list_lookup_index l key) (\<lambda>i.
     if i \<noteq> INVALID_INDEX then
       bindE (c_assert (\<not> list_is_empty l)) (\<lambda>_.
       let n = l_len l - 1 in
       bindE (c_read (l_key l) (nat n)) (\<lambda>k.
       bindE (c_write (l_key l) (nat i) k) (\<lambda>ks.
       bindE (c_read (l_data l) (nat n)) (\<lambda>x.
       bindE (c_write (l_data l) (nat i) x) (\<lambda>ds.
       Inr (l\<lparr>l_key := ks, l_data := ds, l_len := n\<rparr>))))))
     else Inr l)"

definition free_list :: "'a t_list \<Rightarrow> unit res" where
  "free_list l = c_assert (list_is_empty l)"

definition list_resize :: "'a t_list \<Rightarrow> 'a t_list res" where
  "list_resize l =
     bindE (c_int (l_capacity l * 2)) (\<lambda>newcap.
     Inr (l\<lparr>l_capacity := newcap, l_key := c_realloc (l_key l) (nat newcap),
           l_data := c_realloc (l_data l) (nat newcap)\<rparr>))"

definition list_append :: "'a t_list \<Rightarrow> int \<Rightarrow> 'a \<Rightarrow> 'a t_list res" where
  "list_append l key elt =
     bindE (if l_len l = l_capacity l then list_resize l else Inr l) (\<lambda>l.
     bindE (c_write (l_key l) (nat (l_len l)) key) (\<lambda>ks.
     bindE (c_write (l_data l) (nat (l_len l)) elt) (\<lambda>ds.
     bindE (c_int (l_len l + 1)) (\<lambda>n.
     Inr (l\<lparr>l_key := ks, l_data := ds, l_len := n\<rparr>)))))"

definition list_length :: "'a t_list \<Rightarrow> int" where
  "list_length l = l_len l"

subsection \<open>Invariant and abstraction\<close>

definition list_entries :: "'a t_list \<Rightarrow> (int \<times> 'a) list" where
  "list_entries l = map (\<lambda>i. (the (l_key l ! i), the (l_data l ! i))) [0..<nat (l_len l)]"

definition list_inv :: "'a t_list \<Rightarrow> bool" where
  "list_inv l \<longleftrightarrow>
     0 < l_capacity l \<and> l_capacity l \<le> INT_MAX \<and> 0 \<le> l_len l \<and> l_len l \<le> l_capacity l \<and>
     length (l_key l) = nat (l_capacity l) \<and> length (l_data l) = nat (l_capacity l) \<and>
     holds (l_key l) (map fst (list_entries l)) \<and> holds (l_data l) (map snd (list_entries l))"

abbreviation list_room :: nat where
  "list_room \<equiv> 2 ^ 30"

lemma length_list_entries: "length (list_entries l) = nat (l_len l)"
  by (simp add: list_entries_def)

lemma list_inv_len: "list_inv l \<Longrightarrow> l_len l = int (length (list_entries l))"
  by (simp add: list_inv_def length_list_entries)

lemma list_inv_cells:
  assumes "list_inv l" "i < length (list_entries l)"
  shows "i < length (l_key l)" "i < length (l_data l)"
    "l_key l ! i = Some (fst (list_entries l ! i))"
    "l_data l ! i = Some (snd (list_entries l ! i))"
proof -
  show "i < length (l_key l)" "i < length (l_data l)"
    using assms by (auto simp: list_inv_def length_list_entries)
  show "l_key l ! i = Some (fst (list_entries l ! i))"
    using assms holds_nth [of "l_key l" "map fst (list_entries l)" i] by (simp add: list_inv_def)
  show "l_data l ! i = Some (snd (list_entries l ! i))"
    using assms holds_nth [of "l_data l" "map snd (list_entries l)" i] by (simp add: list_inv_def)
qed

text \<open>A list whose cells hold the keys and the data of \<open>es\<close> has exactly these entries.\<close>

lemma list_invI:
  assumes "0 < l_capacity l" "l_capacity l \<le> INT_MAX" "l_len l = int (length es)"
    "length es \<le> nat (l_capacity l)"
    "length (l_key l) = nat (l_capacity l)" "length (l_data l) = nat (l_capacity l)"
    "holds (l_key l) (map fst es)" "holds (l_data l) (map snd es)"
  shows "list_inv l \<and> list_entries l = es"
proof -
  have "list_entries l = es"
    using assms(3) holds_nth [OF assms(7)] holds_nth [OF assms(8)]
    by (intro nth_equalityI) (auto simp: list_entries_def)
  with assms show ?thesis by (auto simp: list_inv_def)
qed

lemma init_list_ok:
  assumes "0 < capacity" "capacity \<le> INT_MAX"
  shows "list_inv (init_list capacity)" "list_entries (init_list capacity) = []"
  using list_invI [of "init_list capacity" "[]"] assms by (auto simp: init_list_def)

lemma list_is_empty_iff: "list_inv l \<Longrightarrow> list_is_empty l \<longleftrightarrow> list_entries l = []"
  using list_inv_len [of l] by (auto simp: list_is_empty_def)

subsection \<open>Lookup\<close>

lemma lookup_index_from_spec:
  assumes inv: "list_inv l" and "i \<le> length (list_entries l)"
  shows "lookup_index_from l k (int i) = Inr
    (case find (\<lambda>j. fst (list_entries l ! j) = k) [i..<length (list_entries l)] of
       None \<Rightarrow> INVALID_INDEX | Some j \<Rightarrow> int j)"
  using assms(2)
proof (induction "length (list_entries l) - i" arbitrary: i)
  case 0
  then have "i = length (list_entries l)" by simp
  then show ?case using list_inv_len [OF inv]
    by (subst lookup_index_from.simps) simp
next
  case (Suc n)
  then have i: "i < length (list_entries l)" by simp
  have IH: "lookup_index_from l k (int (Suc i)) = Inr
    (case find (\<lambda>j. fst (list_entries l ! j) = k) [Suc i..<length (list_entries l)] of
       None \<Rightarrow> INVALID_INDEX | Some j \<Rightarrow> int j)"
    using Suc i by (intro Suc.hyps) simp_all
  have "int i < l_len l" using i list_inv_len [OF inv] by simp
  then show ?case
    using IH i list_inv_cells [OF inv i]
    by (subst lookup_index_from.simps) (auto simp: upt_conv_Cons add.commute)
qed

lemma list_lookup_index_spec:
  "list_inv l \<Longrightarrow> list_lookup_index l k = Inr
    (case find (\<lambda>j. fst (list_entries l ! j) = k) [0..<length (list_entries l)] of
       None \<Rightarrow> INVALID_INDEX | Some j \<Rightarrow> int j)"
  unfolding list_lookup_index_def using lookup_index_from_spec [of l 0 k] by simp

lemma find_index_map_of:
  "find (\<lambda>j. fst (es ! j) = k) [0..<length es] = None \<Longrightarrow> map_of es k = None"
  "find (\<lambda>j. fst (es ! j) = k) [0..<length es] = Some j \<Longrightarrow>
     j < length es \<and> fst (es ! j) = k \<and> map_of es k = Some (snd (es ! j))"
proof -
  assume "find (\<lambda>j. fst (es ! j) = k) [0..<length es] = None"
  then show "map_of es k = None"
    by (force simp: find_None_iff map_of_eq_None_iff in_set_conv_nth)
next
  assume "find (\<lambda>j. fst (es ! j) = k) [0..<length es] = Some j"
  then have j: "j < length es" "fst (es ! j) = k" "\<forall>i<j. fst (es ! i) \<noteq> k"
    by (auto simp: find_Some_iff)
  have "es = take j es @ es ! j # drop (Suc j) es" using j(1) by (rule id_take_nth_drop)
  moreover have "map_of (take j es) k = None"
    using j by (force simp: map_of_eq_None_iff in_set_conv_nth)
  ultimately have "map_of es k = Some (snd (es ! j))"
    using j(2) by (metis (no_types, lifting) map_add_find_right map_add_def map_of_append
        map_of_Cons_code(2) option.case_eq_if prod.collapse)
  with j show "j < length es \<and> fst (es ! j) = k \<and> map_of es k = Some (snd (es ! j))" by simp
qed

lemma list_lookup_spec:
  assumes inv: "list_inv l"
  shows "list_lookup l k = Inr (map_of (list_entries l) k)"
proof (cases "find (\<lambda>j. fst (list_entries l ! j) = k) [0..<length (list_entries l)]")
  case None
  with list_lookup_index_spec [OF inv, of k] find_index_map_of(1) [OF None]
  show ?thesis by (simp add: list_lookup_def INVALID_INDEX_def)
next
  case (Some j)
  with list_lookup_index_spec [OF inv, of k] find_index_map_of(2) [OF Some] list_inv_cells [OF inv, of j]
  show ?thesis by (simp add: list_lookup_def INVALID_INDEX_def)
qed

subsection \<open>Append\<close>

lemma list_resize_ok:
  assumes inv: "list_inv l" and "l_capacity l < 2 ^ 30"
  shows "\<exists>l'. list_resize l = Inr l' \<and> list_inv l' \<and> list_entries l' = list_entries l \<and>
    l_capacity l' = 2 * l_capacity l"
proof -
  let ?l = "l\<lparr>l_capacity := l_capacity l * 2, l_key := c_realloc (l_key l) (nat (l_capacity l * 2)),
     l_data := c_realloc (l_data l) (nat (l_capacity l * 2))\<rparr>"
  have n: "length (list_entries l) \<le> nat (l_capacity l * 2)"
    using inv by (auto simp: list_inv_def length_list_entries)
  have "in_int (l_capacity l * 2)" using assms by (simp add: in_int_def list_inv_def)
  then have "list_resize l = Inr ?l" by (simp add: list_resize_def)
  moreover have "list_inv ?l \<and> list_entries ?l = list_entries l"
    using assms n list_inv_len [OF inv]
    by (intro list_invI) (auto simp: list_inv_def intro: holds_c_realloc)
  ultimately show ?thesis by auto
qed

lemma list_append_room:
  assumes inv: "list_inv l" and sp: "l_len l < l_capacity l"
  shows "\<exists>l'. list_append l k v = Inr l' \<and> list_inv l' \<and> list_entries l' = list_entries l @ [(k, v)]"
proof -
  let ?n = "length (list_entries l)"
  let ?l = "l\<lparr>l_key := (l_key l)[?n := Some k], l_data := (l_data l)[?n := Some v], l_len := l_len l + 1\<rparr>"
  have n: "l_len l = int ?n" using inv by (rule list_inv_len)
  have lens: "?n < length (l_key l)" "?n < length (l_data l)"
    using inv sp by (auto simp: list_inv_def length_list_entries)
  have i: "in_int (l_len l + 1)" using inv sp by (simp add: in_int_def list_inv_def)
  have "list_append l k v = Inr ?l"
    using sp lens i n by (simp add: list_append_def)
  moreover have "list_inv ?l \<and> list_entries ?l = list_entries l @ [(k, v)]"
    using inv sp n holds_snoc [of "l_key l" "map fst (list_entries l)" k]
      holds_snoc [of "l_data l" "map snd (list_entries l)" v] lens
    by (intro list_invI) (auto simp: list_inv_def)
  ultimately show ?thesis by blast
qed

lemma list_append_spec:
  assumes inv: "list_inv l" and r: "length (list_entries l) < list_room"
  shows "\<exists>l'. list_append l k v = Inr l' \<and> list_inv l' \<and> list_entries l' = list_entries l @ [(k, v)]"
proof (cases "l_len l = l_capacity l")
  case True
  then have "l_capacity l < 2 ^ 30" using r list_inv_len [OF inv] by simp
  from list_resize_ok [OF inv this] obtain l1 where
    l1: "list_resize l = Inr l1" "list_inv l1" "list_entries l1 = list_entries l"
      "l_capacity l1 = 2 * l_capacity l" by blast
  have "l_len l1 < l_capacity l1"
    using l1 True list_inv_len [OF inv] list_inv_len [OF l1(2)] inv by (simp add: list_inv_def)
  from list_append_room [OF l1(2) this, of k v] this True l1(1,3) show ?thesis
    by (auto simp: list_append_def)
next
  case False
  then have "l_len l < l_capacity l" using inv by (simp add: list_inv_def)
  from list_append_room [OF inv this] show ?thesis .
qed

subsection \<open>Remove\<close>

text \<open>Removal overwrites the entry found with the last one and drops the last one.\<close>

lemma mset_swap_last:
  assumes "i < length es"
  shows "mset (butlast (es[i := last es])) = mset es - {#es ! i#}"
proof -
  have ne: "es \<noteq> []" using assms by auto
  let ?us = "es[i := last es]"
  have ul: "?us \<noteq> []" "last ?us = last es"
    using ne assms by (auto simp: last_list_update)
  have "mset ?us = add_mset (last es) (mset es - {#es ! i#})"
    using assms by (simp add: mset_update)
  moreover have "mset ?us = add_mset (last ?us) (mset (butlast ?us))"
    using ul(1) by (metis append_butlast_last_id mset.simps(2) mset_append add.commute
        add_mset_add_single union_mset_add_mset_left mset_single_iff_right mset.simps(1))
  ultimately show ?thesis using ul(2) by simp
qed

lemma remove_key_mset:
  assumes "distinct (map fst es)" "i < length es"
  shows "mset es - {#es ! i#} = filter_mset (\<lambda>e. fst e \<noteq> fst (es ! i)) (mset es)"
proof -
  have es: "es = take i es @ es ! i # drop (Suc i) es" using assms(2) by (rule id_take_nth_drop)
  have d: "distinct (map fst (take i es @ es ! i # drop (Suc i) es))"
    using assms(1) es by metis
  then have "\<forall>e \<in> set (take i es @ drop (Suc i) es). fst e \<noteq> fst (es ! i)"
    by (metis (no_types, opaque_lifting) Un_iff distinct.simps(2) distinct_append
        disjoint_insert(2) image_eqI list.set_map list.simps(9) map_append set_append
        list.set(2))
  then have "filter (\<lambda>e. fst e \<noteq> fst (es ! i)) es = take i es @ drop (Suc i) es"
    by (subst es) (auto simp: filter_id_conv)
  moreover have "mset es = mset (take i es @ es ! i # drop (Suc i) es)" using es by simp
  ultimately show ?thesis
    by (metis add_mset_remove_trivial mset_append mset_filter mset.simps(2) union_mset_add_mset_right)
qed

lemma list_remove_spec:
  assumes inv: "list_inv l" and d: "distinct (map fst (list_entries l))"
  shows "\<exists>l'. list_remove l k = Inr l' \<and> list_inv l' \<and>
    mset (list_entries l') = filter_mset (\<lambda>e. fst e \<noteq> k) (mset (list_entries l))"
proof (cases "find (\<lambda>j. fst (list_entries l ! j) = k) [0..<length (list_entries l)]")
  case None
  then have "\<forall>e \<in> set (list_entries l). fst e \<noteq> k"
    by (force simp: find_None_iff in_set_conv_nth)
  then have "filter_mset (\<lambda>e. fst e \<noteq> k) (mset (list_entries l)) = mset (list_entries l)"
    by (simp add: filter_mset_eq_conv)
  with list_lookup_index_spec [OF inv, of k] None inv show ?thesis
    by (simp add: list_remove_def INVALID_INDEX_def)
next
  case (Some i)
  let ?es = "list_entries l"
  let ?us = "butlast (?es[i := last ?es])"
  from find_index_map_of(2) [OF Some] have i: "i < length ?es" "fst (?es ! i) = k" by simp_all
  then have ne: "?es \<noteq> []" by auto
  define n where "n = length ?es - 1"
  have n: "n < length ?es" "l_len l - 1 = int n" "last ?es = ?es ! n"
    using i list_inv_len [OF inv] ne by (auto simp: n_def last_conv_nth)
  note ci = list_inv_cells [OF inv i(1)] and cn = list_inv_cells [OF inv n(1)]
  let ?l = "l\<lparr>l_key := (l_key l)[i := Some (fst (last ?es))],
              l_data := (l_data l)[i := Some (snd (last ?es))], l_len := int n\<rparr>"
  have rem: "list_remove l k = Inr ?l"
    using list_lookup_index_spec [OF inv, of k] Some i(1) n ci cn list_inv_len [OF inv] ne
    by (simp add: list_remove_def INVALID_INDEX_def list_is_empty_iff [OF inv])
  have us: "length ?us = n" "\<And>j. j < n \<Longrightarrow> ?us ! j = (if j = i then last ?es else ?es ! j)"
    by (auto simp: n_def nth_butlast nth_list_update)
  have "list_inv ?l \<and> list_entries ?l = ?us"
  proof (rule list_invI)
    show "holds (l_key ?l) (map fst ?us)"
      using us n inv list_inv_cells [OF inv] i
      by (intro holdsI) (auto simp: list_inv_def nth_list_update)
    show "holds (l_data ?l) (map snd ?us)"
      using us n inv list_inv_cells [OF inv] i
      by (intro holdsI) (auto simp: list_inv_def nth_list_update)
  qed (use inv us n in \<open>auto simp: list_inv_def\<close>)
  then show ?thesis
    using rem mset_swap_last [OF i(1)] remove_key_mset [OF d i(1)] i(2) by auto
qed

subsection \<open>The growing array is a keyed store\<close>

interpretation al: keyed_store list_inv list_entries list_append list_remove list_lookup
  list_length list_is_empty list_room
proof unfold_locales
  fix l :: "'a t_list" and k v
  assume "list_inv l" "length (list_entries l) < list_room"
  then show "\<exists>l'. list_append l k v = Inr l' \<and> list_inv l' \<and> list_entries l' = list_entries l @ [(k, v)]"
    by (rule list_append_spec)
next
  fix l :: "'a t_list" and k
  assume "list_inv l" "distinct (map fst (list_entries l))"
  then show "\<exists>l'. list_remove l k = Inr l' \<and> list_inv l' \<and>
      mset (list_entries l') = filter_mset (\<lambda>e. fst e \<noteq> k) (mset (list_entries l))"
    by (rule list_remove_spec)
next
  fix l :: "'a t_list" and k
  assume "list_inv l"
  then show "list_lookup l k = Inr (map_of (list_entries l) k)" by (rule list_lookup_spec)
qed (simp_all add: list_inv_len list_length_def list_is_empty_iff)

end
