(* ===== verification/Server_Globals.thy ===== *)
theory Server_Globals
  imports Request Array_List
begin

section \<open>Global state, options and logging\<close>

text \<open>
  The global variables that the Unix and the Windows server share (\<open>options.c\<close>, \<open>logging.c\<close>,
  \<open>request.c\<close>, \<open>proc.c\<close>), as a record that each server extends; \<open>hist\<close> is the history of system
  calls. A process entry is the common part of \<open>t_proc\<close>, extended with the identification of the
  process on each system. The lemmas say which option values the server accepts and that
  logging never changes anything but the history.
\<close>

subsection \<open>State\<close>

record t_proc =
  p_client_key :: int
  p_task_id :: block
  p_outfile :: block

record 'p globals =
  parallel :: int
  socketname :: "string option"
  logging :: bool
  single_client :: bool
  logfile :: bool
  queue :: "request t_queue"
  processes :: "'p t_list"
  hist :: history

definition sys :: "sys_event \<Rightarrow> ('p, 'a) globals_scheme \<Rightarrow> ('p, 'a) globals_scheme" where
  "sys e s = s\<lparr>hist := hist s @ [e]\<rparr>"

lemma sys_simps [simp]:
  "parallel (sys e s) = parallel s" "socketname (sys e s) = socketname s"
  "logging (sys e s) = logging s" "single_client (sys e s) = single_client s"
  "logfile (sys e s) = logfile s" "queue (sys e s) = queue s"
  "processes (sys e s) = processes s" "hist (sys e s) = hist s @ [e]"
  "globals.more (sys e s) = globals.more s"
  by (simp_all add: sys_def)

subsection \<open>Options\<close>

text \<open>
  \<open>getopt_long\<close> is a function of the C library. The model takes the results it gives, one pair of
  the returned code and of \<open>optarg\<close> per call before it returns \<open>-1\<close>, and the final \<open>optind\<close>.
  \<open>einval s\<close> tells whether \<open>strtol\<close> sets \<open>EINVAL\<close> on \<open>s\<close>, which the C library may do when there
  is no number. The messages to the terminal are not modelled.
\<close>

fun parse_option_list :: "(string \<Rightarrow> bool) \<Rightarrow> (char \<times> string) list \<Rightarrow>
    ('p, 'a) globals_scheme \<Rightarrow> ('p, 'a) globals_scheme res" where
  "parse_option_list einval [] s = Inr s"
| "parse_option_list einval ((c, optarg) # os) s =
     (if c = CHR ''i'' then parse_option_list einval os (s\<lparr>single_client := True\<rparr>)
      else if c = CHR ''j'' then
        let n = to_int32 (fst (strtol_bound LONG_MAX optarg)) in
        if einval optarg then Inl (Exit 1 (hist s))
        else if n \<le> 0 then Inl (Exit 1 (hist s))
        else parse_option_list einval os (s\<lparr>parallel := n\<rparr>)
      else if c = CHR ''l'' then parse_option_list einval os (s\<lparr>logging := True\<rparr>)
      else if c = CHR ''s'' then parse_option_list einval os (s\<lparr>socketname := Some optarg\<rparr>)
      else Inl (Exit 1 (hist s)))"

definition parse_options :: "(string \<Rightarrow> bool) \<Rightarrow> (char \<times> string) list \<Rightarrow> int \<Rightarrow> int \<Rightarrow>
    ('p, 'a) globals_scheme \<Rightarrow> ('p, 'a) globals_scheme res" where
  "parse_options einval opts optind argc s =
     bindE (parse_option_list einval opts s) (\<lambda>s.
     if optind < argc then Inl (Exit 1 (hist s))
     else if socketname s = None then Inl (Exit 1 (hist s))
     else Inr s)"

lemma parse_option_list_parallel:
  "parse_option_list einval opts s = Inr s' \<Longrightarrow> 0 < parallel s \<Longrightarrow> in_int (parallel s) \<Longrightarrow>
     0 < parallel s' \<and> in_int (parallel s')"
proof (induction einval opts s rule: parse_option_list.induct)
  case (2 einval c optarg os s)
  then show ?case
    by (auto simp: Let_def to_int32_range split: if_splits)
qed simp

subsection \<open>Logging\<close>

text \<open>
  \<open>fopen\<close> may fail, and then \<open>logfile\<close> is \<open>NULL\<close>; writing to it is undefined behaviour.
\<close>

definition init_logging :: "bool \<Rightarrow> ('p, 'a) globals_scheme \<Rightarrow> ('p, 'a) globals_scheme" where
  "init_logging fopen_ok s =
     (if logging s then
        sys (Sys_Call ''fopen'' (if fopen_ok then 0 else -1)) (s\<lparr>logfile := fopen_ok\<rparr>)
      else s)"

definition log_msg :: "string \<Rightarrow> ('p, 'a) globals_scheme \<Rightarrow> ('p, 'a) globals_scheme res" where
  "log_msg m s =
     (if logging s then (if logfile s then Inr (sys (Sys_Log m) s) else crash Null_Deref)
      else Inr s)"

definition logging_shutdown :: "string \<Rightarrow> ('p, 'a) globals_scheme \<Rightarrow> 'b res" where
  "logging_shutdown m s = bindE (log_msg m s) (\<lambda>s. Inl (Exit 1 (hist s)))"

text \<open>The log file is open whenever logging is on.\<close>

definition log_ok :: "('p, 'a) globals_scheme \<Rightarrow> bool" where
  "log_ok s \<longleftrightarrow> (logging s \<longrightarrow> logfile s)"

lemma log_msg_ok:
  assumes "log_ok s"
  obtains "log_msg m s = Inr (sys (Sys_Log m) s)" | "log_msg m s = Inr s"
  using assms by (cases "logging s") (auto simp: log_msg_def log_ok_def)

lemma logging_shutdown_safe [simp]: "log_ok s \<Longrightarrow> safe P (logging_shutdown m s)"
  by (auto simp: logging_shutdown_def log_msg_def log_ok_def)

lemma log_ok_sys [simp]: "log_ok (sys e s) = log_ok s"
  by (simp add: log_ok_def)

end
