(* ===== verification/Proc.thy ===== *)
theory Proc
  imports Server_Globals
begin

section \<open>The list of running processes\<close>

text \<open>
  Models \<open>proc.h\<close> and \<open>proc.c\<close>. Killing is specific to the operating system: \<open>os_kill\<close> is the
  effect of \<open>os_kill\<close> on the history, and \<open>unix_kill\<close> is its Unix version, which signals the
  process group of the child. Processes stay in the list until the system reports their end.
\<close>

subsection \<open>Definitions\<close>

record unix_proc = t_proc +
  p_id :: int

abbreviation SIGKILL :: int where "SIGKILL \<equiv> 9"

definition unix_kill :: "unix_proc \<Rightarrow> sys_event" where
  "unix_kill p = Sys_Kill (- p_id p) SIGKILL"

definition init_process_list :: "('p, 'a) globals_scheme \<Rightarrow> ('p, 'a) globals_scheme" where
  "init_process_list s = s\<lparr>processes := init_list (parallel s)\<rparr>"

text \<open>The loop over the list, from index \<open>i\<close> on, that kills the processes satisfying \<open>P\<close>.\<close>

function kill_loop :: "('p \<Rightarrow> sys_event) \<Rightarrow> ('p \<Rightarrow> bool) \<Rightarrow> int \<Rightarrow>
    ('p, 'a) globals_scheme \<Rightarrow> ('p, 'a) globals_scheme res" where
  "kill_loop os_kill P i s =
     (if i < l_len (processes s) then
        bindE (c_read (l_data (processes s)) (nat i)) (\<lambda>p.
        kill_loop os_kill P (i + 1) (if P p then sys (os_kill p) s else s))
      else Inr s)"
  by pat_completeness auto
termination by (relation "measure (\<lambda>(k, P, i, s). nat (l_len (processes s) - i))") auto

declare kill_loop.simps [simp del]

definition kill_processes :: "('x t_proc_scheme \<Rightarrow> sys_event) \<Rightarrow> int \<Rightarrow> block option \<Rightarrow>
    ('x t_proc_scheme, 'a) globals_scheme \<Rightarrow> ('x t_proc_scheme, 'a) globals_scheme res" where
  "kill_processes os_kill key i s =
     kill_loop os_kill (\<lambda>p. p_client_key p = key \<and>
       (case i of None \<Rightarrow> True | Some i \<Rightarrow> streq (p_task_id p) i)) 0 s"

definition kill_all_processes :: "('p \<Rightarrow> sys_event) \<Rightarrow>
    ('p, 'a) globals_scheme \<Rightarrow> ('p, 'a) globals_scheme res" where
  "kill_all_processes os_kill s = kill_loop os_kill (\<lambda>p. True) 0 s"

subsection \<open>Which processes are killed\<close>

lemma kill_loop_spec:
  assumes inv: "list_inv (processes s)" and "i \<le> length (list_entries (processes s))"
  shows "kill_loop k P (int i) s = Inr (s\<lparr>hist := hist s @
    map k (filter P (map snd (drop i (list_entries (processes s)))))\<rparr>)"
  using assms
proof (induction "length (list_entries (processes s)) - i" arbitrary: i s)
  case 0
  then show ?case using list_inv_len [OF "0.prems"(1)]
    by (subst kill_loop.simps) simp
next
  case (Suc n)
  let ?l = "processes s"
  have i: "i < length (list_entries ?l)" using Suc.hyps(2) by simp
  then have d: "drop i (list_entries ?l) = list_entries ?l ! i # drop (Suc i) (list_entries ?l)"
    by (simp add: Cons_nth_drop_Suc)
  let ?p = "snd (list_entries ?l ! i)"
  let ?s = "if P ?p then sys (k ?p) s else s"
  have pr: "processes ?s = ?l" by simp
  have "kill_loop k P (int (Suc i)) ?s = Inr (?s\<lparr>hist := hist ?s @
      map k (filter P (map snd (drop (Suc i) (list_entries (processes ?s)))))\<rparr>)"
    using Suc.hyps(2) Suc.prems i by (intro Suc.hyps(1)) (simp_all add: pr)
  then show ?case
    using list_inv_cells [OF Suc.prems(1) i] i list_inv_len [OF Suc.prems(1)] d
    by (subst kill_loop.simps) (auto simp: add.commute sys_def)
qed

definition task_matches :: "int \<Rightarrow> block option \<Rightarrow> 'x t_proc_scheme \<Rightarrow> bool" where
  "task_matches key i p \<longleftrightarrow> p_client_key p = key \<and>
     (case i of None \<Rightarrow> True | Some i \<Rightarrow> streq (p_task_id p) i)"

lemma kill_processes_spec:
  "list_inv (processes s) \<Longrightarrow> kill_processes k key i s = Inr (s\<lparr>hist := hist s @
     map k (filter (task_matches key i) (map snd (list_entries (processes s))))\<rparr>)"
  using kill_loop_spec [of s 0 k] by (simp add: kill_processes_def task_matches_def [abs_def])

lemma kill_all_processes_spec:
  "list_inv (processes s) \<Longrightarrow> kill_all_processes k s = Inr (s\<lparr>hist := hist s @
     map k (map snd (list_entries (processes s)))\<rparr>)"
  using kill_loop_spec [of s 0 k "\<lambda>p. True"] by (simp add: kill_all_processes_def)

end
