(* ===== verification/Read_Buffer.thy ===== *)
theory Read_Buffer
  imports C_Prelude
begin

section \<open>The read buffer of readbuf.c\<close>

text \<open>
  Models \<open>readbuf.h\<close> and \<open>readbuf.c\<close>: a growing byte array with \<open>size_t\<close> counters of 64 bits.
  A read of at most \<open>n\<close> bytes is \<open>prepare_read b n\<close>, the system call, which stores its bytes at
  the returned place (\<open>store_bytes\<close>), and \<open>have_read\<close>; \<open>have_taken\<close> drops bytes from the front.
  The lemmas describe every operation by the bytes in the buffer.
\<close>

subsection \<open>Definitions\<close>

record t_readbuf =
  rb_data :: "char cells"
  rb_len :: u64
  rb_capacity :: u64

definition init_readbuf :: "u64 \<Rightarrow> t_readbuf res" where
  "init_readbuf capacity =
     bindE (c_assert (capacity > 0)) (\<lambda>_.
     Inr \<lparr>rb_data = c_malloc (unat capacity), rb_len = 0, rb_capacity = capacity\<rparr>)"

definition resize_readbuf :: "t_readbuf \<Rightarrow> u64 \<Rightarrow> t_readbuf" where
  "resize_readbuf b newcapacity =
     b\<lparr>rb_data := c_realloc (rb_data b) (unat newcapacity), rb_capacity := newcapacity\<rparr>"

text \<open>The pointer \<open>b->data + b->len\<close> is the index \<open>b->len\<close> into the data of the new buffer.\<close>

definition prepare_read :: "t_readbuf \<Rightarrow> u64 \<Rightarrow> t_readbuf \<times> nat" where
  "prepare_read b sz =
     (let b = (if rb_len b + sz > rb_capacity b
               then resize_readbuf b ((rb_capacity b + sz) * 2) else b)
      in (b, unat (rb_len b)))"

text \<open>What \<open>read\<close> does to the memory it is given.\<close>

fun store_bytes :: "char cells \<Rightarrow> nat \<Rightarrow> char list \<Rightarrow> char cells res" where
  "store_bytes d i [] = Inr d"
| "store_bytes d i (c # cs) = bindE (c_write d i c) (\<lambda>d. store_bytes d (Suc i) cs)"

definition have_read :: "t_readbuf \<Rightarrow> u64 \<Rightarrow> t_readbuf res" where
  "have_read b sz =
     bindE (c_assert (rb_capacity b \<ge> rb_len b + sz)) (\<lambda>_.
     Inr (b\<lparr>rb_len := rb_len b + sz\<rparr>))"

text \<open>
  \<open>have_taken\<close> calls \<open>memcpy\<close> on regions that may overlap, which the C standard leaves undefined.
  The model copies cell by cell in ascending order, the behaviour the code relies on; the
  theorem \<open>have_taken_memcpy_overlap\<close> of the root theory says when the regions overlap.
\<close>

fun memcpy_asc :: "'a cells \<Rightarrow> nat \<Rightarrow> nat \<Rightarrow> nat \<Rightarrow> 'a cells" where
  "memcpy_asc xs d s 0 = xs"
| "memcpy_asc xs d s (Suc n) = memcpy_asc (xs[d := xs ! s]) (Suc d) (Suc s) n"

definition have_taken :: "t_readbuf \<Rightarrow> u64 \<Rightarrow> t_readbuf res" where
  "have_taken b sz =
     bindE (c_assert (sz \<le> rb_len b)) (\<lambda>_.
     if length (rb_data b) < unat (rb_len b) then crash Out_Of_Bounds
     else Inr (b\<lparr>rb_data := memcpy_asc (rb_data b) 0 (unat sz) (unat (rb_len b - sz)),
                rb_len := rb_len b - sz\<rparr>))"

definition clear_readbuf :: "t_readbuf \<Rightarrow> t_readbuf" where
  "clear_readbuf b = b\<lparr>rb_len := 0\<rparr>"

subsection \<open>Invariant and abstraction\<close>

definition rb_bytes :: "t_readbuf \<Rightarrow> char list" where
  "rb_bytes b = map the (take (unat (rb_len b)) (rb_data b))"

definition rb_inv :: "t_readbuf \<Rightarrow> bool" where
  "rb_inv b \<longleftrightarrow>
     length (rb_data b) = unat (rb_capacity b) \<and> 0 < unat (rb_capacity b) \<and>
     unat (rb_len b) \<le> unat (rb_capacity b) \<and>
     holds (rb_data b) (rb_bytes b)"

lemma length_rb_bytes: "rb_inv b \<Longrightarrow> length (rb_bytes b) = unat (rb_len b)"
  by (simp add: rb_inv_def rb_bytes_def)

lemma rb_invI:
  assumes "length (rb_data b) = unat (rb_capacity b)" "0 < unat (rb_capacity b)"
    "unat (rb_len b) = length cs" "holds (rb_data b) cs"
  shows "rb_inv b \<and> rb_bytes b = cs"
proof -
  have "rb_bytes b = cs" using assms(3,4) by (simp add: rb_bytes_def holds_def comp_def)
  with assms show ?thesis by (auto simp: rb_inv_def holds_def)
qed

lemma rb_read_byte:
  "rb_inv b \<Longrightarrow> i < length (rb_bytes b) \<Longrightarrow> c_read (rb_data b) i = Inr (rb_bytes b ! i)"
  using holds_nth [of "rb_data b" "rb_bytes b" i] length_rb_bytes [of b]
  by (simp add: rb_inv_def)

subsection \<open>Operations\<close>

lemma init_readbuf_ok:
  assumes "0 < unat capacity"
  obtains b where "init_readbuf capacity = Inr b" "rb_inv b" "rb_bytes b = []" "rb_capacity b = capacity"
  using assms that by (auto simp: init_readbuf_def rb_inv_def rb_bytes_def)

text \<open>After \<open>prepare_read b n\<close> there is room for \<open>n\<close> more bytes, and no byte is lost.\<close>

lemma prepare_read_ok:
  assumes inv: "rb_inv b" and small: "unat (rb_capacity b) + unat n < 2 ^ 63"
    and "prepare_read b n = (b', p)"
  shows "rb_inv b' \<and> rb_bytes b' = rb_bytes b \<and> p = length (rb_bytes b) \<and>
    length (rb_bytes b) + unat n \<le> length (rb_data b') \<and> length (rb_data b') \<le>
      max (unat (rb_capacity b)) (2 * (length (rb_bytes b) + 2 * unat n))"
proof -
  have len: "unat (rb_len b + n) = unat (rb_len b) + unat n"
    using inv small by (intro unat_add_no_wrap) (simp add: rb_inv_def)
  have "unat (rb_capacity b + n) = unat (rb_capacity b) + unat n"
    using small by (intro unat_add_no_wrap) simp
  then have cap: "unat (2 * (rb_capacity b + n)) = 2 * (unat (rb_capacity b) + unat n)"
    using small unat_double_no_wrap [of "rb_capacity b + n"] by simp
  show ?thesis
  proof (cases "rb_len b + n > rb_capacity b")
    case True
    then have b': "b' = resize_readbuf b (2 * (rb_capacity b + n))" "p = unat (rb_len b)"
      using assms(3) by (auto simp: prepare_read_def resize_readbuf_def mult.commute)
    have "rb_inv b' \<and> rb_bytes b' = rb_bytes b"
    proof (rule rb_invI)
      show "holds (rb_data b') (rb_bytes b)"
        unfolding b' resize_readbuf_def using inv length_rb_bytes [OF inv] cap
        by (auto simp: rb_inv_def intro: holds_c_realloc)
    qed (use inv cap length_rb_bytes [OF inv] in \<open>auto simp: b' resize_readbuf_def rb_inv_def\<close>)
    moreover have "length (rb_data b') = 2 * (unat (rb_capacity b) + unat n)"
      unfolding b' resize_readbuf_def using cap by simp
    moreover have "length (rb_bytes b) \<le> unat (rb_capacity b)" "p = length (rb_bytes b)"
      using inv b'(2) length_rb_bytes [OF inv] by (simp_all add: rb_inv_def)
    moreover have "unat (rb_capacity b) < length (rb_bytes b) + unat n"
      using True len length_rb_bytes [OF inv] by (simp add: word_less_nat_alt)
    ultimately show ?thesis by (intro conjI) auto
  next
    case False
    then have "b' = b" "p = unat (rb_len b)" using assms(3) by (auto simp: prepare_read_def)
    with False inv len show ?thesis
      by (simp add: length_rb_bytes rb_inv_def word_less_nat_alt)
  qed
qed

lemma store_bytes_ok:
  "holds d xs \<Longrightarrow> length xs + length cs \<le> length d \<Longrightarrow>
     \<exists>d'. store_bytes d (length xs) cs = Inr d' \<and> length d' = length d \<and> holds d' (xs @ cs)"
proof (induction cs arbitrary: d xs)
  case Nil
  then show ?case by simp
next
  case (Cons c cs)
  then have "holds (d[length xs := Some c]) (xs @ [c])"
    by (simp add: holds_snoc)
  from Cons.IH [OF this] Cons.prems show ?case by auto
qed

text \<open>A read of \<open>cs\<close> that was prepared appends \<open>cs\<close> to the buffer.\<close>

lemma have_read_ok:
  assumes inv: "rb_inv b" and room: "length (rb_bytes b) + length cs \<le> length (rb_data b)"
    and d': "store_bytes (rb_data b) (length (rb_bytes b)) cs = Inr d'"
    and n: "unat n = length cs"
  shows "\<exists>b'. have_read (b\<lparr>rb_data := d'\<rparr>) n = Inr b' \<and> rb_inv b' \<and> rb_bytes b' = rb_bytes b @ cs
    \<and> rb_capacity b' = rb_capacity b"
proof -
  have len: "unat (rb_len b) = length (rb_bytes b)" using length_rb_bytes [OF inv] by simp
  have cap: "length (rb_data b) = unat (rb_capacity b)" using inv by (simp add: rb_inv_def)
  have sum: "unat (rb_len b + n) = length (rb_bytes b @ cs)"
  proof -
    have "unat (rb_len b) + unat n < 2 ^ LENGTH(64)"
      using room cap n len unat_bound [of "rb_capacity b"] by simp
    then show ?thesis using n len by (simp add: unat_add_no_wrap)
  qed
  from store_bytes_ok [OF _ room] inv d' have h: "length d' = length (rb_data b)" "holds d' (rb_bytes b @ cs)"
    by (auto simp: rb_inv_def)
  let ?b = "b\<lparr>rb_data := d', rb_len := rb_len b + n\<rparr>"
  have "have_read (b\<lparr>rb_data := d'\<rparr>) n = Inr ?b"
    using sum room cap by (simp add: have_read_def word_le_nat_alt)
  moreover have "rb_inv ?b \<and> rb_bytes ?b = rb_bytes b @ cs"
    using inv h sum by (intro rb_invI) (auto simp: rb_inv_def)
  ultimately show ?thesis by auto
qed

lemma length_memcpy_asc [simp]: "length (memcpy_asc xs d s n) = length xs"
  by (induction n arbitrary: xs d s) auto

text \<open>Copying downwards in ascending order reads every cell before it is overwritten.\<close>

lemma nth_memcpy_asc:
  assumes "d \<le> s" "s + n \<le> length xs" "i < length xs"
  shows "memcpy_asc xs d s n ! i = (if d \<le> i \<and> i < d + n then xs ! (s + (i - d)) else xs ! i)"
  using assms
proof (induction n arbitrary: xs d s)
  case 0
  then show ?case by auto
next
  case (Suc n)
  have "memcpy_asc xs d s (Suc n) ! i =
      (if Suc d \<le> i \<and> i < Suc d + n then xs[d := xs ! s] ! (Suc s + (i - Suc d)) else xs[d := xs ! s] ! i)"
    using Suc.IH [of "Suc d" "Suc s" "xs[d := xs ! s]"] Suc.prems by simp
  also have "\<dots> = (if d \<le> i \<and> i < d + Suc n then xs ! (s + (i - d)) else xs ! i)"
    using Suc.prems by (auto simp: nth_list_update Suc_diff_Suc Suc_diff_le)
  finally show ?case .
qed

lemma have_taken_ok:
  assumes inv: "rb_inv b" and n: "unat n \<le> length (rb_bytes b)"
  shows "\<exists>b'. have_taken b n = Inr b' \<and> rb_inv b' \<and> rb_bytes b' = drop (unat n) (rb_bytes b) \<and>
    rb_capacity b' = rb_capacity b"
proof -
  have len: "unat (rb_len b) = length (rb_bytes b)" using length_rb_bytes [OF inv] by simp
  have le: "n \<le> rb_len b" using n len by (simp add: word_le_nat_alt)
  have sub: "unat (rb_len b - n) = length (rb_bytes b) - unat n"
    using unat_sub [OF le] len by simp
  let ?d = "memcpy_asc (rb_data b) 0 (unat n) (unat (rb_len b - n))"
  let ?b = "b\<lparr>rb_data := ?d, rb_len := rb_len b - n\<rparr>"
  have "have_taken b n = Inr ?b"
    using le inv by (simp add: have_taken_def rb_inv_def)
  moreover have "rb_inv ?b \<and> rb_bytes ?b = drop (unat n) (rb_bytes b)"
  proof (rule rb_invI)
    show "holds (rb_data ?b) (drop (unat n) (rb_bytes b))"
    proof (rule holdsI)
      fix i assume i: "i < length (drop (unat n) (rb_bytes b))"
      have h: "rb_data b ! (unat n + i) = Some (rb_bytes b ! (unat n + i))"
        using inv i by (intro holds_nth) (auto simp: rb_inv_def)
      have "?d ! i = rb_data b ! (unat n + i)"
        using inv i sub len n by (subst nth_memcpy_asc) (auto simp: rb_inv_def)
      then show "rb_data ?b ! i = Some (drop (unat n) (rb_bytes b) ! i)"
        using i n h by simp
    qed (use inv len in \<open>auto simp: rb_inv_def\<close>)
  qed (use inv sub in \<open>auto simp: rb_inv_def\<close>)
  ultimately show ?thesis by auto
qed

lemma clear_readbuf_ok: "rb_inv b \<Longrightarrow> rb_inv (clear_readbuf b) \<and> rb_bytes (clear_readbuf b) = []"
  by (intro rb_invI) (auto simp: clear_readbuf_def rb_inv_def)

end
