(* ===== verification/Write_Buffer.thy ===== *)
theory Write_Buffer
  imports Ring_Queue C_Strings
begin

section \<open>The write buffer of writebuf.c\<close>

text \<open>
  Models \<open>writebuf.h\<close> and \<open>writebuf.c\<close>: the message that is being written, the number of its
  bytes already written, and a queue of further messages. A message is the block of a C string;
  \<open>data == NULL\<close> is \<open>None\<close>. The lemmas describe the buffer by the bytes that remain to be
  written (\<open>wb_pending\<close>): a push appends to them and a write drops from their front.
\<close>

subsection \<open>Definitions\<close>

record t_writebuf =
  wb_data :: "block option"
  wb_len :: int
  wb_pointer :: int
  wb_is_writing :: bool
  wb_queue :: "block t_queue"

definition init_writebuf :: "int \<Rightarrow> t_writebuf res" where
  "init_writebuf capacity =
     bindE (init_queue (word_of_int capacity)) (\<lambda>q.
     Inr \<lparr>wb_data = None, wb_len = 0, wb_pointer = 0, wb_is_writing = False, wb_queue = q\<rparr>)"

definition can_write :: "t_writebuf \<Rightarrow> bool" where
  "can_write b \<longleftrightarrow> \<not> wb_is_writing b"

definition has_write_data :: "t_writebuf \<Rightarrow> bool" where
  "has_write_data b \<longleftrightarrow> wb_data b \<noteq> None"

text \<open>Returns the buffer, the place \<open>b->data + b->pointer\<close> as the bytes from there on, and the size.\<close>

definition prepare_write :: "t_writebuf \<Rightarrow> (t_writebuf \<times> block \<times> int) res" where
  "prepare_write b =
     bindE (c_assert (can_write b)) (\<lambda>_.
     bindE (c_assert (has_write_data b)) (\<lambda>_.
     bindE (c_int (wb_len b - wb_pointer b)) (\<lambda>sz.
     Inr (b\<lparr>wb_is_writing := True\<rparr>, drop (nat (wb_pointer b)) (the (wb_data b)), sz))))"

definition have_written :: "t_writebuf \<Rightarrow> int \<Rightarrow> t_writebuf res" where
  "have_written b sz =
     bindE (c_assert (wb_is_writing b)) (\<lambda>_.
     bindE (c_int (wb_pointer b + sz)) (\<lambda>p.
     bindE (c_assert (p \<le> wb_len b)) (\<lambda>_.
     let b = b\<lparr>wb_is_writing := False\<rparr> in
     if p < wb_len b then Inr (b\<lparr>wb_pointer := p\<rparr>)
     else if \<not> queue_is_empty (wb_queue b) then
       bindE (queue_pop (wb_queue b)) (\<lambda>(d, q).
       Inr (b\<lparr>wb_pointer := 0, wb_data := Some d, wb_queue := q, wb_len := to_int32 (int (strlen d))\<rparr>))
     else Inr (b\<lparr>wb_pointer := 0, wb_data := None, wb_len := 0\<rparr>))))"

definition push_write_data :: "t_writebuf \<Rightarrow> block \<Rightarrow> t_writebuf res" where
  "push_write_data b data =
     (if has_write_data b then
        bindE (queue_push (wb_queue b) data) (\<lambda>q. Inr (b\<lparr>wb_queue := q\<rparr>))
      else Inr (b\<lparr>wb_data := Some data, wb_pointer := 0, wb_len := to_int32 (int (strlen data))\<rparr>))"

text \<open>The loop of \<open>free_writebuf\<close> that pops and frees the queued messages.\<close>

function drain_writequeue :: "block t_queue \<Rightarrow> block t_queue res" where
  "drain_writequeue q =
     (if \<not> queue_is_empty q then bindE (queue_pop q) (\<lambda>(d, q). drain_writequeue q) else Inr q)"
  by pat_completeness auto
termination
  by (relation "measure (\<lambda>q. unat (q_len q))") (auto dest: queue_pop_shorter)

declare drain_writequeue.simps [simp del]

definition free_writebuf :: "t_writebuf \<Rightarrow> unit res" where
  "free_writebuf b = bindE (drain_writequeue (wb_queue b)) free_queue"

subsection \<open>Invariant and abstraction\<close>

text \<open>A message is well formed when it is not empty and its length fits an \<open>int\<close>.\<close>

definition msg_ok :: "block \<Rightarrow> bool" where
  "msg_ok m \<longleftrightarrow> cstr m \<noteq> [] \<and> int (strlen m) \<le> INT_MAX"

definition wb_inv :: "t_writebuf \<Rightarrow> bool" where
  "wb_inv b \<longleftrightarrow>
     queue_inv (wb_queue b) \<and> list_all msg_ok (queue_list (wb_queue b)) \<and>
     (case wb_data b of
        None \<Rightarrow> queue_list (wb_queue b) = [] \<and> wb_len b = 0 \<and> wb_pointer b = 0
      | Some d \<Rightarrow> msg_ok d \<and> wb_len b = int (strlen d) \<and> 0 \<le> wb_pointer b \<and> wb_pointer b < wb_len b)"

definition wb_pending :: "t_writebuf \<Rightarrow> char list" where
  "wb_pending b =
     (case wb_data b of None \<Rightarrow> [] | Some d \<Rightarrow> drop (nat (wb_pointer b)) (cstr d)) @
     concat (map cstr (queue_list (wb_queue b)))"

lemma has_write_data_pending: "wb_inv b \<Longrightarrow> has_write_data b \<longleftrightarrow> wb_pending b \<noteq> []"
  by (auto simp: wb_inv_def has_write_data_def wb_pending_def strlen_def msg_ok_def split: option.splits)

lemma msg_len: "msg_ok m \<Longrightarrow> to_int32 (int (strlen m)) = int (strlen m)"
  by (simp add: msg_ok_def in_int_def)

lemma msg_strlen_pos: "msg_ok m \<Longrightarrow> 0 < strlen m"
  by (simp add: msg_ok_def strlen_def)

subsection \<open>Operations\<close>

lemma init_writebuf_ok:
  assumes "0 < capacity" "capacity \<le> INT_MAX"
  obtains b where "init_writebuf capacity = Inr b" "wb_inv b" "wb_pending b = []" "can_write b"
proof -
  have "unat (word_of_int capacity :: u32) = nat capacity"
    using assms by (simp add: unat_eq_nat_uint uint_word_of_int)
  then have "0 < unat (word_of_int capacity :: u32)" "unat (word_of_int capacity :: u32) \<le> 2 ^ 31"
    using assms by simp_all
  then obtain q :: "block t_queue" where
    "init_queue (word_of_int capacity) = Inr q" "queue_inv q" "queue_list q = []"
    by (rule init_queue_ok)
  then show thesis using that
    by (simp add: init_writebuf_def wb_inv_def wb_pending_def can_write_def)
qed

lemma push_write_data_ok:
  assumes inv: "wb_inv b" and m: "msg_ok m" and room: "length (queue_list (wb_queue b)) < queue_room"
  shows "\<exists>b'. push_write_data b m = Inr b' \<and> wb_inv b' \<and> wb_pending b' = wb_pending b @ cstr m \<and>
    wb_is_writing b' = wb_is_writing b \<and> has_write_data b' \<and>
    length (queue_list (wb_queue b')) \<le> length (queue_list (wb_queue b)) + 1"
proof (cases "wb_data b")
  case None
  with inv m show ?thesis
    by (auto simp: push_write_data_def has_write_data_def wb_inv_def wb_pending_def msg_len msg_strlen_pos)
next
  case (Some d)
  obtain q where "queue_push (wb_queue b) m = Inr q" "queue_inv q"
      "queue_list q = queue_list (wb_queue b) @ [m]"
    using inv rq.push_law [OF _ room, of m] by (auto simp: wb_inv_def)
  with Some inv m show ?thesis
    by (auto simp: push_write_data_def has_write_data_def wb_inv_def wb_pending_def)
qed

text \<open>A write of the first \<open>n\<close> of the offered bytes removes exactly these from the pending bytes.\<close>

lemma prepare_write_ok:
  assumes inv: "wb_inv b" and "can_write b" "has_write_data b"
  obtains d where "wb_data b = Some d"
    "prepare_write b = Inr (b\<lparr>wb_is_writing := True\<rparr>, drop (nat (wb_pointer b)) d,
        int (length (drop (nat (wb_pointer b)) (cstr d))))"
    "0 < length (drop (nat (wb_pointer b)) (cstr d))"
proof -
  from assms(3) obtain d where d: "wb_data b = Some d" by (auto simp: has_write_data_def)
  then have p: "0 \<le> wb_pointer b" "wb_pointer b < int (strlen d)" "wb_len b = int (strlen d)" "msg_ok d"
    using inv by (auto simp: wb_inv_def)
  then have sz: "wb_len b - wb_pointer b = int (length (drop (nat (wb_pointer b)) (cstr d)))"
    by (simp add: strlen_def)
  have "in_int (wb_len b - wb_pointer b)" using p by (simp add: in_int_def msg_ok_def)
  then have "prepare_write b = Inr (b\<lparr>wb_is_writing := True\<rparr>, drop (nat (wb_pointer b)) d,
        int (length (drop (nat (wb_pointer b)) (cstr d))))"
    using assms(2,3) d sz by (simp add: prepare_write_def)
  moreover have "0 < length (drop (nat (wb_pointer b)) (cstr d))" using sz p by simp
  ultimately show thesis using that d by blast
qed

lemma have_written_ok:
  assumes inv: "wb_inv b" and wr: "wb_is_writing b" and d: "wb_data b = Some d"
    and n: "0 \<le> n" "n \<le> int (length (drop (nat (wb_pointer b)) (cstr d)))"
  shows "\<exists>b'. have_written b n = Inr b' \<and> wb_inv b' \<and> wb_pending b' = drop (nat n) (wb_pending b) \<and>
    can_write b' \<and> length (queue_list (wb_queue b')) \<le> length (queue_list (wb_queue b))"
proof -
  have p: "0 \<le> wb_pointer b" "wb_pointer b < int (strlen d)" "wb_len b = int (strlen d)" "msg_ok d"
    using inv d by (auto simp: wb_inv_def)
  have le: "wb_pointer b + n \<le> wb_len b" using n p by (simp add: strlen_def)
  have i: "in_int (wb_pointer b + n)" using le p n by (simp add: in_int_def msg_ok_def)
  show ?thesis
  proof (cases "wb_pointer b + n < wb_len b")
    case True
    let ?b = "b\<lparr>wb_is_writing := False, wb_pointer := wb_pointer b + n\<rparr>"
    have "have_written b n = Inr ?b"
      using wr i le True by (simp add: have_written_def)
    moreover have "wb_inv ?b" using inv d True n by (auto simp: wb_inv_def)
    moreover have "wb_pending ?b = drop (nat n) (wb_pending b)"
      using d n p by (simp add: wb_pending_def nat_add_distrib add.commute)
    ultimately show ?thesis by (simp add: can_write_def)
  next
    case False
    then have full: "nat (wb_pointer b) + nat n = length (cstr d)"
      using le p n by (simp add: strlen_def)
    then have pend: "drop (nat n) (wb_pending b) = concat (map cstr (queue_list (wb_queue b)))"
      using d by (simp add: wb_pending_def)
    show ?thesis
    proof (cases "queue_is_empty (wb_queue b)")
      case True
      then have "queue_list (wb_queue b) = []" using queue_list_empty by blast
      then show ?thesis
        using wr i le True False inv pend
        by (auto simp: have_written_def wb_inv_def wb_pending_def can_write_def)
    next
      case ne: False
      have qi: "queue_inv (wb_queue b)" using inv by (simp add: wb_inv_def)
      obtain e q where q: "queue_pop (wb_queue b) = Inr (e, q)" "queue_inv q"
          "queue_list (wb_queue b) = e # queue_list q"
        using rq.pop_nonempty [OF qi ne] by blast
      moreover have "msg_ok e" "list_all msg_ok (queue_list q)" using inv q by (auto simp: wb_inv_def)
      ultimately show ?thesis
        using wr i le ne False pend
        by (auto simp: have_written_def wb_inv_def wb_pending_def can_write_def msg_len msg_strlen_pos)
    qed
  qed
qed

lemma drain_writequeue_ok:
  "queue_inv q \<Longrightarrow> \<exists>q'. drain_writequeue q = Inr q' \<and> queue_is_empty q'"
proof (induction q rule: rq.drain_induct)
  case (empty q)
  then show ?case by (subst drain_writequeue.simps) simp
next
  case (pop q x q')
  then show ?case by (subst drain_writequeue.simps) simp
qed

lemma free_writebuf_ok: "wb_inv b \<Longrightarrow> free_writebuf b = Inr ()"
  using drain_writequeue_ok [of "wb_queue b"] by (auto simp: free_writebuf_def free_queue_def wb_inv_def)

end
