(* ===== verification/OS_Interface.thy ===== *)
theory OS_Interface
  imports C_Prelude
begin

section \<open>The operating system as a parameter\<close>

text \<open>
  The operating system is not part of the sources. It is a record of functions from the history
  of system calls to the result of the next one; \<open>os_ok\<close> states the documented behaviour that
  the safety theorems rely on: process identifiers and descriptors are fresh and bounded, \<open>read\<close>
  returns at most what was asked for, \<open>wait3\<close> reports only children that were not reported yet.
\<close>

unbundle bit_operations_syntax

datatype wait_status = WExited int | WSignaled int | WOther

record os =
  os_fork :: "history \<Rightarrow> int"
  os_mkstemp :: "history \<Rightarrow> string \<times> int"
  os_malloc :: "history \<Rightarrow> bool"
  os_accept :: "history \<Rightarrow> int"
  os_read :: "history \<Rightarrow> int \<Rightarrow> char list option"
  os_write :: "history \<Rightarrow> int \<Rightarrow> char list \<Rightarrow> int"
  os_wait3 :: "history \<Rightarrow> int \<times> wait_status \<times> nat"
  os_poll :: "history \<Rightarrow> (int \<times> u16) list \<Rightarrow> int \<times> (nat \<Rightarrow> u16)"
  os_call :: "history \<Rightarrow> string \<Rightarrow> int"
  os_getcwd :: string

text \<open>Children that were forked and not yet waited for, and descriptors that are open.\<close>

fun upd_pids :: "sys_event \<Rightarrow> int list \<Rightarrow> int list" where
  "upd_pids (Sys_Fork p c) ps = (if 0 < p then p # ps else ps)"
| "upd_pids (Sys_Wait p) ps = filter (\<lambda>x. x \<noteq> p) ps"
| "upd_pids _ ps = ps"

definition live_pids :: "history \<Rightarrow> int list" where
  "live_pids h = fold upd_pids h []"

fun upd_fds :: "sys_event \<Rightarrow> int list \<Rightarrow> int list" where
  "upd_fds (Sys_Accept fd) fs = (if 0 \<le> fd then fd # fs else fs)"
| "upd_fds (Sys_Mkstemp t fd) fs = (if 0 \<le> fd then fd # fs else fs)"
| "upd_fds (Sys_Newfd n fd) fs = (if 0 \<le> fd then fd # fs else fs)"
| "upd_fds (Sys_Close fd) fs = filter (\<lambda>x. x \<noteq> fd) fs"
| "upd_fds _ fs = fs"

definition open_fds :: "history \<Rightarrow> int list" where
  "open_fds h = fold upd_fds h []"

lemma live_pids_snoc [simp]: "live_pids (h @ [e]) = upd_pids e (live_pids h)"
  by (simp add: live_pids_def)

lemma open_fds_snoc [simp]: "open_fds (h @ [e]) = upd_fds e (open_fds h)"
  by (simp add: open_fds_def)

text \<open>The number of bytes that \<open>read\<close> has delivered.\<close>

fun read_count :: "sys_event \<Rightarrow> nat" where
  "read_count (Sys_Read fd n) = nat n"
| "read_count _ = 0"

definition total_read :: "history \<Rightarrow> nat" where
  "total_read h = sum_list (map read_count h)"

lemma total_read_append [simp]: "total_read (h @ h') = total_read h + total_read h'"
  by (simp add: total_read_def)

lemma total_read_simps [simp]: "total_read [] = 0" "total_read (e # h) = read_count e + total_read h"
  by (simp_all add: total_read_def)

abbreviation POLLIN :: u16 where "POLLIN \<equiv> 1"
abbreviation POLLOUT :: u16 where "POLLOUT \<equiv> 4"
abbreviation POLLERR :: u16 where "POLLERR \<equiv> 8"

abbreviation PID_LIMIT :: int where "PID_LIMIT \<equiv> 4194304"
abbreviation FD_LIMIT :: int where "FD_LIMIT \<equiv> 1048576"
abbreviation READ_ONCE :: nat where "READ_ONCE \<equiv> 1024"

definition status_ok :: "wait_status \<Rightarrow> bool" where
  "status_ok st = (case st of WExited c \<Rightarrow> 0 \<le> c \<and> c \<le> 255 | WSignaled g \<Rightarrow> 0 < g \<and> g < 128 | WOther \<Rightarrow> True)"

definition fork_ok :: "os \<Rightarrow> bool" where
  "fork_ok env \<longleftrightarrow> (\<forall>h. os_fork env h = -1 \<or>
     (0 < os_fork env h \<and> os_fork env h < PID_LIMIT \<and> os_fork env h \<notin> set (live_pids h)))"

definition accept_ok :: "os \<Rightarrow> bool" where
  "accept_ok env \<longleftrightarrow> (\<forall>h. os_accept env h = -1 \<or>
     (0 \<le> os_accept env h \<and> os_accept env h < FD_LIMIT \<and> os_accept env h \<notin> set (open_fds h)))"

definition mkstemp_ok :: "os \<Rightarrow> bool" where
  "mkstemp_ok env \<longleftrightarrow> (\<forall>h. length (fst (os_mkstemp env h)) = 6 \<and>
     (snd (os_mkstemp env h) = -1 \<or>
      (0 \<le> snd (os_mkstemp env h) \<and> snd (os_mkstemp env h) \<notin> set (open_fds h))))"

definition read_ok :: "os \<Rightarrow> bool" where
  "read_ok env \<longleftrightarrow> (\<forall>h fd bs. os_read env h fd = Some bs \<longrightarrow> length bs \<le> READ_ONCE)"

definition write_ok :: "os \<Rightarrow> bool" where
  "write_ok env \<longleftrightarrow> (\<forall>h fd bs. 0 \<le> os_write env h fd bs \<and> os_write env h fd bs \<le> int (length bs))"

definition wait_ok :: "os \<Rightarrow> bool" where
  "wait_ok env \<longleftrightarrow> (\<forall>h. case os_wait3 env h of (pid, st, us) \<Rightarrow>
     (pid \<le> 0 \<or> pid \<in> set (live_pids h)) \<and> status_ok st \<and> us < 10 ^ 18)"

text \<open>
  \<open>poll\<close> reports that a descriptor is writable only where this was asked for; the listening
  socket has no error condition.
\<close>

definition poll_ok :: "os \<Rightarrow> bool" where
  "poll_ok env \<longleftrightarrow> (\<forall>h l i. i < length l \<longrightarrow>
     snd (os_poll env h l) i AND POLLOUT \<noteq> 0 \<longrightarrow> snd (l ! i) AND POLLOUT \<noteq> 0)"

definition listen_ok :: "os \<Rightarrow> int \<Rightarrow> bool" where
  "listen_ok env sock \<longleftrightarrow> (\<forall>h l i. i < length l \<longrightarrow> fst (l ! i) = sock \<longrightarrow>
     snd (os_poll env h l) i = 0 \<or> snd (os_poll env h l) i = POLLIN)"

text \<open>
  The clients send at most \<open>2 ^ 28\<close> bytes altogether: a bound under which no counter of the
  server can wrap around.
\<close>

definition input_ok :: "os \<Rightarrow> bool" where
  "input_ok env \<longleftrightarrow> (\<forall>h fd bs. os_read env h fd = Some bs \<longrightarrow> bs \<noteq> [] \<longrightarrow> total_read h + length bs \<le> 2 ^ 28)"

definition os_ok :: "os \<Rightarrow> bool" where
  "os_ok env \<longleftrightarrow> fork_ok env \<and> accept_ok env \<and> mkstemp_ok env \<and> read_ok env \<and> write_ok env \<and>
     wait_ok env \<and> poll_ok env \<and> input_ok env"

end
