(* ===== verification/Server_Unix.thy ===== *)
theory Server_Unix
  imports Proc Read_Buffer Write_Buffer OS_Interface
begin

section \<open>The Unix server\<close>

text \<open>
  Models \<open>server-unix.c\<close>: the poll list, the clients, the start of processes, the messages to
  clients, the handling of requests and the event loop. A client object is mutated through
  pointers; it lives in a store \<open>heap\<close> from addresses to objects, \<open>free\<close> removes it, and access
  to a freed object is a crash. The system calls are answered by the operating system \<open>env\<close>, given
  the history so far. \<open>EINTR\<close> retries are part of the answer of \<open>poll\<close> and \<open>read\<close>. The theory
  holds the definitions; \<open>Unix_Invariant\<close> and \<open>Unix_Safety\<close> hold the proofs.
\<close>

unbundle bit_operations_syntax

subsection \<open>State\<close>

record t_client =
  c_fd :: int
  c_readbuf :: t_readbuf
  c_writebuf :: t_writebuf

record pollfd =
  pf_fd :: int
  pf_events :: u16
  pf_revents :: u16

type_synonym ptr = nat

record unix_server = "unix_proc globals" +
  server_sock :: int
  poll_list :: "pollfd cells"
  poll_num :: int
  poll_len :: int
  clients :: "ptr t_list"
  clients_set :: bool
  current_dir :: string
  cpipe0 :: int
  cpipe1 :: int
  heap :: "ptr \<Rightarrow> t_client option"
  next_ptr :: ptr

definition client_at :: "ptr \<Rightarrow> unix_server \<Rightarrow> t_client res" where
  "client_at p s = (case heap s p of None \<Rightarrow> crash Use_After_Free | Some c \<Rightarrow> Inr c)"

definition set_client :: "ptr \<Rightarrow> t_client \<Rightarrow> unix_server \<Rightarrow> unix_server" where
  "set_client p c s = s\<lparr>heap := (heap s)(p := Some c)\<rparr>"

text \<open>A system call that returns an integer: its result, recorded in the history.\<close>

definition os_int :: "os \<Rightarrow> string \<Rightarrow> unix_server \<Rightarrow> int \<times> unix_server" where
  "os_int env name s = (let r = os_call env (hist s) name in (r, sys (Sys_Call name r) s))"

subsection \<open>Shutdown\<close>

function close_clients :: "int \<Rightarrow> unix_server \<Rightarrow> unix_server res" where
  "close_clients i s =
     (if i < list_length (clients s) then
        bindE (c_read (l_data (clients s)) (nat i)) (\<lambda>p.
        bindE (client_at p s) (\<lambda>c.
        close_clients (i + 1) (sys (Sys_Close (c_fd c)) s)))
      else Inr s)"
  by pat_completeness auto
termination
  by (relation "measure (\<lambda>(i, s). nat (l_len (clients s) - i))") (auto simp: list_length_def sys_def)

declare close_clients.simps [simp del]

definition shutdown_with_msg :: "string \<Rightarrow> unix_server \<Rightarrow> 'b res" where
  "shutdown_with_msg msg s =
     (let s = (if server_sock s \<noteq> -1 then sys (Sys_Close (server_sock s)) s else s) in
      bindE (if clients_set s then close_clients 0 s else Inr s) (\<lambda>s.
      logging_shutdown msg s))"

subsection \<open>The poll list\<close>

definition add_to_poll_list :: "int \<Rightarrow> u16 \<Rightarrow> unix_server \<Rightarrow> unix_server res" where
  "add_to_poll_list sock events s =
     bindE (if poll_num s = poll_len s then
              bindE (c_int (poll_len s * 2)) (\<lambda>n.
              Inr (s\<lparr>poll_len := n, poll_list := c_realloc (poll_list s) (nat n)\<rparr>))
            else Inr s) (\<lambda>s.
     bindE (c_write (poll_list s) (nat (poll_num s))
              \<lparr>pf_fd = sock, pf_events = events, pf_revents = 0\<rparr>) (\<lambda>l.
     bindE (c_int (poll_num s + 1)) (\<lambda>n.
     Inr (s\<lparr>poll_list := l, poll_num := n\<rparr>))))"

text \<open>The index of the entry, where the source returns a pointer to it.\<close>

function poll_lookup_from :: "int \<Rightarrow> int \<Rightarrow> unix_server \<Rightarrow> int option res" where
  "poll_lookup_from fd i s =
     (if i < poll_num s then
        bindE (c_read (poll_list s) (nat i)) (\<lambda>e.
        if pf_fd e = fd then Inr (Some i) else poll_lookup_from fd (i + 1) s)
      else Inr None)"
  by pat_completeness auto
termination by (relation "measure (\<lambda>(fd, i, s). nat (poll_num s - i))") auto

declare poll_lookup_from.simps [simp del]

definition poll_list_lookup :: "int \<Rightarrow> unix_server \<Rightarrow> int option res" where
  "poll_list_lookup fd s = poll_lookup_from fd 0 s"

function poll_clean_from :: "int \<Rightarrow> unix_server \<Rightarrow> unix_server res" where
  "poll_clean_from i s =
     (if i < poll_num s then
        bindE (c_read (poll_list s) (nat i)) (\<lambda>e.
        if pf_fd e = -1 then
          bindE (c_read (poll_list s) (nat (poll_num s - 1))) (\<lambda>x.
          bindE (c_write (poll_list s) (nat i) x) (\<lambda>l.
          poll_clean_from i (s\<lparr>poll_list := l, poll_num := poll_num s - 1\<rparr>)))
        else poll_clean_from (i + 1) s)
      else Inr s)"
  by pat_completeness auto
termination by (relation "measure (\<lambda>(i, s). nat (poll_num s - i))") auto

declare poll_clean_from.simps [simp del]

definition poll_list_clean :: "unix_server \<Rightarrow> unix_server res" where
  "poll_list_clean s = poll_clean_from 0 s"

function poll_remove_from :: "int \<Rightarrow> int \<Rightarrow> unix_server \<Rightarrow> unix_server res" where
  "poll_remove_from fd i s =
     (if i < poll_num s then
        bindE (c_read (poll_list s) (nat i)) (\<lambda>e.
        if pf_fd e = fd then
          bindE (c_write (poll_list s) (nat i) (e\<lparr>pf_fd := -1, pf_revents := 0\<rparr>)) (\<lambda>l.
          Inr (s\<lparr>poll_list := l\<rparr>))
        else poll_remove_from fd (i + 1) s)
      else Inr s)"
  by pat_completeness auto
termination by (relation "measure (\<lambda>(fd, i, s). nat (poll_num s - i))") auto

declare poll_remove_from.simps [simp del]

definition poll_list_remove :: "int \<Rightarrow> unix_server \<Rightarrow> unix_server res" where
  "poll_list_remove fd s = poll_remove_from fd 0 s"

text \<open>Changing the events of the entry with index \<open>i\<close>.\<close>

definition poll_set_events :: "int \<Rightarrow> (u16 \<Rightarrow> u16) \<Rightarrow> unix_server \<Rightarrow> unix_server res" where
  "poll_set_events i f s =
     bindE (c_read (poll_list s) (nat i)) (\<lambda>e.
     bindE (c_write (poll_list s) (nat i) (e\<lparr>pf_events := f (pf_events e)\<rparr>)) (\<lambda>l.
     Inr (s\<lparr>poll_list := l\<rparr>)))"

subsection \<open>Clients\<close>

definition server_accept_client :: "os \<Rightarrow> unix_server \<Rightarrow> unix_server res" where
  "server_accept_client env s =
     (let fd = os_accept env (hist s); s = sys (Sys_Accept fd) s in
      if fd = -1 then shutdown_with_msg ''error accepting a client'' s
      else
        bindE (init_readbuf (of_nat READ_ONCE)) (\<lambda>rb.
        bindE (init_writebuf (parallel s)) (\<lambda>wb.
        let p = next_ptr s;
            s = s\<lparr>heap := (heap s)(p := Some \<lparr>c_fd = fd, c_readbuf = rb, c_writebuf = wb\<rparr>),
                  next_ptr := p + 1\<rparr> in
        bindE (list_append (clients s) fd p) (\<lambda>l.
        bindE (log_msg (''accepted client '' @ show_int fd) (s\<lparr>clients := l\<rparr>)) (\<lambda>s.
        add_to_poll_list fd POLLIN s)))))"

definition queue_write :: "ptr option \<Rightarrow> block \<Rightarrow> unix_server \<Rightarrow> unix_server res" where
  "queue_write client msgbuf s =
     (case client of
        None \<Rightarrow> crash Null_Deref
      | Some p \<Rightarrow>
          bindE (client_at p s) (\<lambda>c.
          bindE (log_msg (''client '' @ show_int (c_fd c) @ '': sending reply '' @ cstr msgbuf) s) (\<lambda>s.
          bindE (push_write_data (c_writebuf c) msgbuf) (\<lambda>wb.
          let s = set_client p (c\<lparr>c_writebuf := wb\<rparr>) s in
          bindE (poll_list_lookup (c_fd c) s) (\<lambda>entry.
          case entry of
            None \<Rightarrow> Inr s
          | Some i \<Rightarrow> poll_set_events i (\<lambda>e. e OR POLLOUT) s)))))"

definition write_to_client :: "os \<Rightarrow> ptr \<Rightarrow> int \<Rightarrow> unix_server \<Rightarrow> unix_server res" where
  "write_to_client env p i s =
     bindE (client_at p s) (\<lambda>c.
     bindE (prepare_write (c_writebuf c)) (\<lambda>(wb, buf, need_write).
     let bytes = take (nat need_write) buf;
         has_written = os_write env (hist s) (c_fd c) bytes;
         s = sys (Sys_Write (c_fd c) bytes has_written) s in
     bindE (if has_written \<noteq> -1 then have_written wb has_written else Inr wb) (\<lambda>wb.
     let s = set_client p (c\<lparr>c_writebuf := wb\<rparr>) s in
     if \<not> has_write_data wb then poll_set_events i (\<lambda>e. e AND NOT POLLOUT) s else Inr s)))"

definition os_malloc_msg :: "os \<Rightarrow> unix_server \<Rightarrow> bool \<times> unix_server" where
  "os_malloc_msg env s =
     (let b = os_malloc env (hist s) in (b, sys (Sys_Call ''malloc'' (if b then 1 else 0)) s))"

definition send_started_msg_to_client :: "os \<Rightarrow> ptr option \<Rightarrow> block \<Rightarrow> unix_server \<Rightarrow> unix_server res" where
  "send_started_msg_to_client env client i s =
     (let len = strlen i + 4;
          (allocated, s) = os_malloc_msg env s in
      if \<not> allocated then shutdown_with_msg ''error when allocating client msg'' s
      else
        let (msgbuf, used) = snprintf len (''S;'' @ cstr i @ [NEWLINE]) in
        if used \<noteq> int len - 1 then shutdown_with_msg ''message for client too long'' s
        else queue_write client msgbuf s)"

text \<open>
  In \<open>send_msg_to_client\<close> the comparison \<open>used >= len\<close> is one of unsigned numbers, so that a
  negative \<open>used\<close> also counts as too long. The CPU time is given in microseconds.
\<close>

definition msg_text :: "block \<Rightarrow> int \<Rightarrow> nat \<Rightarrow> bool \<Rightarrow> block \<Rightarrow> string" where
  "msg_text i exitcode cpu_time timeout outfile =
     ''F;'' @ cstr i @ '';'' @ show_int exitcode @ '';'' @ show_micros cpu_time @ '';'' @
     (if timeout then ''1'' else ''0'') @ '';'' @ cstr outfile @ [NEWLINE]"

definition send_msg_to_client :: "os \<Rightarrow> ptr option \<Rightarrow> block \<Rightarrow> int \<Rightarrow> nat \<Rightarrow> bool \<Rightarrow> block \<Rightarrow>
    unix_server \<Rightarrow> unix_server res" where
  "send_msg_to_client env client i exitcode cpu_time timeout outfile s =
     (let len = strlen i + 3 + 27 + strlen outfile + 1;
          (allocated, s) = os_malloc_msg env s in
      if \<not> allocated then shutdown_with_msg ''error when allocating client msg'' s
      else
        let (msgbuf, used) = snprintf len (msg_text i exitcode cpu_time timeout outfile) in
        if used < 0 \<or> used \<ge> int len then shutdown_with_msg ''message for client too long'' s
        else queue_write client msgbuf s)"

subsection \<open>Processes\<close>

definition open_temp_file :: "os \<Rightarrow> string \<Rightarrow> unix_server \<Rightarrow> block \<times> int \<times> unix_server" where
  "open_temp_file env dir s =
     (let (suffix, fd) = os_mkstemp env (hist s);
          template = dir @ ''/why3'' @ suffix
      in (template @ [NUL], fd, sys (Sys_Mkstemp template fd) s))"

text \<open>
  The array \<open>unix_argv\<close>: \<open>count + 2\<close> pointers, with the command first, \<open>NULL\<close> (here \<open>None\<close>) last,
  and the arguments between them.
\<close>

fun copy_argv :: "block list \<Rightarrow> nat \<Rightarrow> nat \<Rightarrow> block option cells \<Rightarrow> block option cells res" where
  "copy_argv argv i 0 a = Inr a"
| "copy_argv argv i (Suc n) a =
     (if length argv \<le> i then crash Out_Of_Bounds
      else bindE (c_write a (i + 1) (Some (argv ! i))) (\<lambda>a. copy_argv argv (i + 1) n a))"

definition make_argv :: "block \<Rightarrow> block list \<Rightarrow> int \<Rightarrow> block option cells res" where
  "make_argv cmd argv cnt =
     bindE (c_write (c_malloc (nat (cnt + 2))) 0 (Some cmd)) (\<lambda>a.
     bindE (c_write a (nat (cnt + 1)) None) (\<lambda>a.
     copy_argv argv 0 (nat cnt) a))"

text \<open>The strings that \<open>execvp\<close> passes on: up to the first \<open>NULL\<close>.\<close>

definition argv_strings :: "block option cells \<Rightarrow> string list" where
  "argv_strings a = map (\<lambda>x. cstr (the (the x))) (takeWhile (\<lambda>x. x \<noteq> None \<and> x \<noteq> Some None) a)"

text \<open>What the child does after \<open>fork\<close>, as long as no call fails (it exits otherwise).\<close>

definition child_program :: "block \<Rightarrow> block option cells \<Rightarrow> block list \<Rightarrow> int \<Rightarrow> bool \<Rightarrow> int \<Rightarrow> int \<Rightarrow> u32 \<Rightarrow>
    c_fault + child_action list" where
  "child_program cmd unix_argv argv cnt usestdin outfile timelimit memlimit =
     (let limits =
        (if timelimit > 0 then [Setrlimit_Cpu timelimit] else []) @
        (if memlimit > 0 then [Setrlimit_As (ucast memlimit * 1024 * 1024)] else []) @
        (if timelimit > 0 \<or> memlimit > 0 then [Setrlimit_Core 0] else []);
          run = [Dup2 outfile 1, Dup2 outfile 2, Execvp (cstr cmd) (argv_strings unix_argv)]
      in if usestdin then
           (if cnt < 0 \<or> int (length argv) \<le> cnt then Inl Out_Of_Bounds
            else Inr ([Setpgid] @ limits @ [Open_Stdin (cstr (argv ! nat cnt))] @ run))
         else Inr ([Setpgid] @ limits @ run))"

definition create_process :: "os \<Rightarrow> block \<Rightarrow> int \<Rightarrow> block list \<Rightarrow> bool \<Rightarrow> int \<Rightarrow> int \<Rightarrow> u32 \<Rightarrow>
    unix_server \<Rightarrow> (int \<times> unix_server) res" where
  "create_process env cmd argc argv usestdin outfile timelimit memlimit s =
     (let count = (if usestdin then argc - 1 else argc) in
      bindE (make_argv cmd argv count) (\<lambda>unix_argv.
      let pid = os_fork env (hist s);
          s = sys (Sys_Fork pid
                (child_program cmd unix_argv argv count usestdin outfile timelimit memlimit)) s in
      if pid = -1 then shutdown_with_msg ''failed to fork'' s else Inr (pid, s)))"

fun exit_info :: "wait_status \<Rightarrow> int \<times> bool" where
  "exit_info (WSignaled g) = (g, True)"
| "exit_info (WExited c) = (c, False)"
| "exit_info WOther = (1, False)"

text \<open>The loop of \<open>handle_child_events\<close>, with fuel.\<close>

fun child_events :: "os \<Rightarrow> nat \<Rightarrow> unix_server \<Rightarrow> unix_server res" where
  "child_events env 0 s = crash Out_Of_Fuel"
| "child_events env (Suc n) s =
     (let (pid, status, cpu_time) = os_wait3 env (hist s); s = sys (Sys_Wait pid) s in
      if pid \<le> 0 then Inr s
      else
        let (exit_code, is_timeout) = exit_info status in
        bindE (list_lookup (processes s) pid) (\<lambda>child.
        bindE (list_remove (processes s) pid) (\<lambda>l.
        let s = s\<lparr>processes := l\<rparr> in
        case child of
          None \<Rightarrow> crash Null_Deref
        | Some child \<Rightarrow>
            bindE (list_lookup (clients s) (p_client_key child)) (\<lambda>client.
            bindE (case client of
                     None \<Rightarrow> Inr s
                   | Some p \<Rightarrow> send_msg_to_client env (Some p) (p_task_id child) exit_code cpu_time
                                is_timeout (p_outfile child) s) (\<lambda>s.
            child_events env n s)))))"

definition handle_child_events :: "os \<Rightarrow> unix_server \<Rightarrow> unix_server res" where
  "handle_child_events env s = child_events env (nat (list_length (processes s)) + 1) s"

subsection \<open>Requests\<close>

definition run_request :: "os \<Rightarrow> request \<Rightarrow> unix_server \<Rightarrow> unix_server res" where
  "run_request env r s =
     bindE (list_lookup (clients s) (r_key r)) (\<lambda>client.
     case client of
       None \<Rightarrow> Inr s
     | Some p \<Rightarrow>
         let (outfile, out_descr, s) = open_temp_file env (current_dir s) s in
         bindE (create_process env (r_cmd r) (r_numargs r) (r_args r) (r_usestdin r) out_descr
                  (r_timeout r) (r_memlimit r) s) (\<lambda>(pid, s).
         let s = sys (Sys_Close out_descr) s in
         bindE (list_append (processes s) pid
                  \<lparr>p_client_key = r_key r, p_task_id = r_id r, p_outfile = outfile, p_id = pid\<rparr>) (\<lambda>l.
         send_started_msg_to_client env (Some p) (r_id r) (s\<lparr>processes := l\<rparr>))))"

definition handle_queue_remove :: "os \<Rightarrow> request \<Rightarrow> unix_server \<Rightarrow> unix_server res" where
  "handle_queue_remove env r s =
     bindE (list_lookup (clients s) (r_key r)) (\<lambda>client.
     send_msg_to_client env client (r_id r) 0 0 False [] s)"

text \<open>The body of the loop of \<open>handle_msg\<close> for one request.\<close>

definition handle_request :: "os \<Rightarrow> ptr \<Rightarrow> int \<Rightarrow> request \<Rightarrow> unix_server \<Rightarrow> unix_server res" where
  "handle_request env p key r s =
     (case r_type r of
        REQ_RUN \<Rightarrow>
          if list_length (processes s) < parallel s then run_request env r s
          else bindE (queue_push (queue s) r) (\<lambda>q. Inr (s\<lparr>queue := q\<rparr>))
      | REQ_INTERRUPT \<Rightarrow>
          bindE (client_at p s) (\<lambda>c.
          bindE (log_msg (''client '' @ show_int (c_fd c) @ '': requested removing id '' @ cstr (r_id r)
                  @ '' from queue'') s) (\<lambda>s.
          bindE (remove_from_queue key (Some (r_id r)) (Some (handle_queue_remove env)) (queue s) s) (\<lambda>(q, s).
          kill_processes unix_kill key (Some (r_id r)) (s\<lparr>queue := q\<rparr>)))))"

text \<open>The inner loop that looks for the end of the line.\<close>

function scan_newline :: "char cells \<Rightarrow> int \<Rightarrow> int \<Rightarrow> int res" where
  "scan_newline buf mx cur =
     (if cur < mx then
        bindE (c_read buf (nat cur)) (\<lambda>c. if c = NEWLINE then Inr cur else scan_newline buf mx (cur + 1))
      else Inr cur)"
  by pat_completeness auto
termination by (relation "measure (\<lambda>(buf, mx, cur). nat (mx - cur))") auto

declare scan_newline.simps [simp del]

lemma scan_newline_range:
  "scan_newline buf mx cur = Inr i \<Longrightarrow> cur < mx \<Longrightarrow> cur \<le> i \<and> i \<le> mx"
proof (induction buf mx cur rule: scan_newline.induct)
  case (1 buf mx cur)
  then show ?case
    by (cases "cur + 1 < mx")
      (auto simp: scan_newline.simps [of buf mx cur] scan_newline.simps [of buf mx "cur + 1"]
        bindE_Inr_iff split: if_splits)
qed

text \<open>The bytes of a line as the log shows them (\<open>%.*s\<close>).\<close>

definition log_line :: "char cells \<Rightarrow> int \<Rightarrow> string" where
  "log_line buf n = cstr (map the (take (nat n) buf))"

function handle_msg_loop :: "os \<Rightarrow> ptr \<Rightarrow> int \<Rightarrow> char cells \<Rightarrow> int \<Rightarrow> int \<Rightarrow> unix_server \<Rightarrow>
    (int \<times> unix_server) res" where
  "handle_msg_loop env p key buf mx old s =
     (if old < mx then
        bindE (scan_newline buf mx old) (\<lambda>cur.
        if cur = mx then Inr (old, s)
        else
          bindE (log_msg (''client '' @ show_int key @ '': received query ''
                  @ log_line (drop (nat old) buf) (cur - old)) s) (\<lambda>s.
          bindE (parse_request (drop (nat old) buf) (cur - old) key (parallel s)) (\<lambda>(r, par).
          let s = s\<lparr>parallel := par\<rparr> in
          bindE (case r of None \<Rightarrow> Inr s | Some r \<Rightarrow> handle_request env p key r s) (\<lambda>s.
          handle_msg_loop env p key buf mx (cur + 1) s))))
      else Inr (old, s))"
  by pat_completeness auto
termination
  by (relation "measure (\<lambda>(env, p, key, buf, mx, old, s). nat (mx - old))")
    (auto dest: scan_newline_range)

declare handle_msg_loop.simps [simp del]

definition handle_msg :: "os \<Rightarrow> ptr \<Rightarrow> int \<Rightarrow> unix_server \<Rightarrow> unix_server res" where
  "handle_msg env p key s =
     bindE (client_at p s) (\<lambda>c.
     bindE (handle_msg_loop env p key (rb_data (c_readbuf c)) (to_int32 (uint (rb_len (c_readbuf c)))) 0 s)
       (\<lambda>(old, s).
     if old > 0 then
       bindE (client_at p s) (\<lambda>c.
       bindE (have_taken (c_readbuf c) (word_of_int old)) (\<lambda>rb.
       Inr (set_client p (c\<lparr>c_readbuf := rb\<rparr>) s)))
     else Inr s))"

definition shutdown_server :: "os \<Rightarrow> unix_server \<Rightarrow> 'b res" where
  "shutdown_server env s = shutdown_with_msg ''last client disconnected'' (snd (os_int env ''unlink'' s))"

definition close_client :: "os \<Rightarrow> ptr \<Rightarrow> unix_server \<Rightarrow> unix_server res" where
  "close_client env p s =
     bindE (client_at p s) (\<lambda>c.
     bindE (remove_from_queue (c_fd c) None None (queue s) ()) (\<lambda>(q, _).
     bindE (kill_processes unix_kill (c_fd c) None (s\<lparr>queue := q\<rparr>)) (\<lambda>s.
     bindE (list_remove (clients s) (c_fd c)) (\<lambda>l.
     bindE (poll_list_remove (c_fd c) (s\<lparr>clients := l\<rparr>)) (\<lambda>s.
     bindE (free_writebuf (c_writebuf c)) (\<lambda>_.
     bindE (log_msg (''client '' @ show_int (c_fd c) @ '' disconnected'') (sys (Sys_Close (c_fd c)) s)) (\<lambda>s.
     let s = s\<lparr>heap := (heap s)(p := None)\<rparr> in
     if single_client s \<and> list_is_empty (clients s) then shutdown_server env s else Inr s)))))))"

definition read_on_client :: "os \<Rightarrow> ptr \<Rightarrow> unix_server \<Rightarrow> unix_server res" where
  "read_on_client env p s =
     bindE (client_at p s) (\<lambda>c.
     let (rb, at) = prepare_read (c_readbuf c) (of_nat READ_ONCE);
         s = set_client p (c\<lparr>c_readbuf := rb\<rparr>) s;
         num_read = os_read env (hist s) (c_fd c) in
     case num_read of
       None \<Rightarrow> Inr (sys (Sys_Read (c_fd c) (-1)) s)
     | Some bytes \<Rightarrow>
         let s = sys (Sys_Read (c_fd c) (int (length bytes))) s in
         if bytes = [] then close_client env p s
         else
           bindE (store_bytes (rb_data rb) at bytes) (\<lambda>d.
           bindE (have_read (rb\<lparr>rb_data := d\<rparr>) (of_nat (length bytes))) (\<lambda>rb.
           handle_msg env p (c_fd c) (set_client p (c\<lparr>c_readbuf := rb\<rparr>) s))))"

subsection \<open>Frame lemmas for the loops\<close>

lemma poll_set_events_frame:
  "poll_set_events i f s = Inr s' \<Longrightarrow> queue s' = queue s \<and> processes s' = processes s \<and> parallel s' = parallel s"
  by (auto simp: poll_set_events_def bindE_Inr_iff)

lemma log_msg_frame:
  "log_msg m s = Inr s' \<Longrightarrow> queue s' = queue s \<and> processes s' = processes s \<and> parallel s' = parallel s"
  by (auto simp: log_msg_def split: if_splits)

lemma shutdown_with_msg_not_Inr [simp]: "shutdown_with_msg m s \<noteq> Inr x"
  by (auto simp: shutdown_with_msg_def logging_shutdown_def Let_def bindE_Inr_iff)

lemma queue_write_frame:
  "queue_write p m s = Inr s' \<Longrightarrow> queue s' = queue s \<and> processes s' = processes s \<and> parallel s' = parallel s"
  by (auto simp: queue_write_def set_client_def bindE_Inr_iff Let_def
      dest!: log_msg_frame poll_set_events_frame split: option.splits)

lemma send_started_frame:
  "send_started_msg_to_client env p i s = Inr s' \<Longrightarrow>
     queue s' = queue s \<and> processes s' = processes s \<and> parallel s' = parallel s"
  by (auto simp: send_started_msg_to_client_def os_malloc_msg_def snprintf_def Let_def
      dest!: queue_write_frame split: if_splits)

lemma create_process_frame:
  "create_process env c n a u f t m s = Inr (pid, s') \<Longrightarrow>
     queue s' = queue s \<and> processes s' = processes s \<and> parallel s' = parallel s"
  by (auto simp: create_process_def bindE_Inr_iff Let_def split: if_splits)

lemma run_request_queue: "run_request env r s = Inr s' \<Longrightarrow> queue s' = queue s"
  by (auto simp: run_request_def open_temp_file_def bindE_Inr_iff Let_def
      dest!: create_process_frame send_started_frame split: option.splits prod.splits)

subsection \<open>The event loop\<close>

function schedule_new_jobs :: "os \<Rightarrow> unix_server \<Rightarrow> unix_server res" where
  "schedule_new_jobs env s =
     (if list_length (processes s) < parallel s \<and> \<not> queue_is_empty (queue s) then
        bindE (queue_pop (queue s)) (\<lambda>(r, q).
        bindE (run_request env r (s\<lparr>queue := q\<rparr>)) (\<lambda>s. schedule_new_jobs env s))
      else Inr s)"
  by pat_completeness auto
termination
  by (relation "measure (\<lambda>(env, s). unat (q_len (queue s)))")
    (auto dest!: run_request_queue queue_pop_shorter)

declare schedule_new_jobs.simps [simp del]

text \<open>What \<open>poll\<close> reads from and writes to the list, and the handling of one entry.\<close>

definition poll_request :: "unix_server \<Rightarrow> (int \<times> u16) list" where
  "poll_request s = map (\<lambda>e. (pf_fd (the e), pf_events (the e))) (take (nat (poll_num s)) (poll_list s))"

definition set_revents :: "(nat \<Rightarrow> u16) \<Rightarrow> unix_server \<Rightarrow> unix_server" where
  "set_revents rv s = s\<lparr>poll_list :=
     map (\<lambda>(i, e). if i < nat (poll_num s) then map_option (\<lambda>e. e\<lparr>pf_revents := rv i\<rparr>) e else e)
       (enumerate 0 (poll_list s))\<rparr>"

definition handle_entry :: "os \<Rightarrow> int \<Rightarrow> pollfd \<Rightarrow> unix_server \<Rightarrow> unix_server res" where
  "handle_entry env i cur s =
     (if pf_revents cur = 0 then Inr s
      else if pf_fd cur = cpipe0 s then
        (let (res, s) = os_int env ''read'' s in
         if res = -1 then shutdown_with_msg ''call to read shouldn't fail'' s
         else handle_child_events env s)
      else if pf_fd cur = server_sock s then
        bindE (c_assert (pf_revents cur = POLLIN)) (\<lambda>_. server_accept_client env s)
      else
        bindE (list_lookup (clients s) (pf_fd cur)) (\<lambda>client.
        case client of
          None \<Rightarrow> Inr s
        | Some p \<Rightarrow>
            if pf_revents cur AND POLLERR \<noteq> 0 then close_client env p s
            else if pf_revents cur AND POLLOUT \<noteq> 0 then write_to_client env p i s
            else if pf_revents cur AND POLLIN \<noteq> 0 then read_on_client env p s
            else Inr s))"

fun poll_loop :: "os \<Rightarrow> nat \<Rightarrow> int \<Rightarrow> unix_server \<Rightarrow> unix_server res" where
  "poll_loop env 0 i s = crash Out_Of_Fuel"
| "poll_loop env (Suc n) i s =
     (if i < poll_num s then
        bindE (c_read (poll_list s) (nat i)) (\<lambda>cur.
        bindE (handle_entry env i cur s) (\<lambda>s. poll_loop env n (i + 1) s))
      else Inr s)"

text \<open>One turn of the loop of \<open>main\<close>.\<close>

definition main_turn :: "os \<Rightarrow> unix_server \<Rightarrow> unix_server res" where
  "main_turn env s =
     bindE (schedule_new_jobs env s) (\<lambda>s.
     bindE (poll_list_clean s) (\<lambda>s.
     let (res, rv) = os_poll env (hist s) (poll_request s); s = sys (Sys_Poll res) s in
     if res = -1 then shutdown_with_msg ''call to poll failed'' s
     else
       let s = set_revents rv s in
       poll_loop env (3 * nat (poll_num s) + 1) 0 s))"

end
