(* ===== verification/Unix_Poll.thy ===== *)
theory Unix_Poll
  imports Server_Unix
begin

section \<open>The poll list of the Unix server\<close>

text \<open>
  The active part of the poll list as a list of entries, and the effect of the operations of
  \<open>server-unix.c\<close> on it. Every operation changes only the three variables of the poll list.
\<close>

definition poll_entries :: "unix_server \<Rightarrow> pollfd list" where
  "poll_entries s = map the (take (nat (poll_num s)) (poll_list s))"

definition poll_inv :: "unix_server \<Rightarrow> bool" where
  "poll_inv s \<longleftrightarrow> 0 \<le> poll_num s \<and> poll_num s \<le> poll_len s \<and> 0 < poll_len s \<and> poll_len s \<le> INT_MAX \<and>
     length (poll_list s) = nat (poll_len s) \<and> holds (poll_list s) (poll_entries s)"

abbreviation poll_upd :: "unix_server \<Rightarrow> pollfd cells \<Rightarrow> int \<Rightarrow> int \<Rightarrow> unix_server" where
  "poll_upd s l n m \<equiv> s\<lparr>poll_list := l, poll_num := n, poll_len := m\<rparr>"

lemma length_poll_entries: "poll_inv s \<Longrightarrow> poll_num s = int (length (poll_entries s))"
  by (auto simp: poll_inv_def poll_entries_def)

lemma poll_invI:
  assumes "0 < m" "m \<le> INT_MAX" "length l = nat m" "n = int (length es)" "length es \<le> nat m" "holds l es"
  shows "poll_inv (poll_upd s l n m) \<and> poll_entries (poll_upd s l n m) = es"
proof -
  have "poll_entries (poll_upd s l n m) = es"
    using assms by (simp add: poll_entries_def holds_def comp_def)
  with assms show ?thesis by (simp add: poll_inv_def)
qed

lemma poll_cell:
  assumes "poll_inv s" "i < length (poll_entries s)"
  shows "i < length (poll_list s)" "poll_list s ! i = Some (poll_entries s ! i)"
    "c_read (poll_list s) i = Inr (poll_entries s ! i)"
proof -
  show "i < length (poll_list s)" "poll_list s ! i = Some (poll_entries s ! i)"
    using assms by (auto simp: poll_inv_def holds_def intro: holds_nth)
  then show "c_read (poll_list s) i = Inr (poll_entries s ! i)" by simp
qed

lemma poll_entries_other [simp]:
  "poll_entries (sys e s) = poll_entries s"
  "poll_entries (s\<lparr>heap := h\<rparr>) = poll_entries s"
  "poll_inv (sys e s) = poll_inv s"
  "poll_inv (s\<lparr>heap := h\<rparr>) = poll_inv s"
  by (simp_all add: poll_entries_def poll_inv_def sys_def)

text \<open>Writing one entry in place.\<close>

lemma poll_write:
  assumes inv: "poll_inv s" and i: "i < length (poll_entries s)"
  shows "poll_inv (s\<lparr>poll_list := (poll_list s)[i := Some e]\<rparr>)"
    "poll_entries (s\<lparr>poll_list := (poll_list s)[i := Some e]\<rparr>) = (poll_entries s)[i := e]"
proof -
  let ?l = "(poll_list s)[i := Some e]"
  have "holds ?l ((poll_entries s)[i := e])"
    using inv i by (auto simp: holds_def poll_inv_def map_update take_update_swap)
  then have "poll_inv (poll_upd s ?l (poll_num s) (poll_len s)) \<and>
      poll_entries (poll_upd s ?l (poll_num s) (poll_len s)) = (poll_entries s)[i := e]"
    using inv i length_poll_entries [OF inv] by (intro poll_invI) (auto simp: poll_inv_def)
  then show "poll_inv (s\<lparr>poll_list := ?l\<rparr>)" "poll_entries (s\<lparr>poll_list := ?l\<rparr>) = (poll_entries s)[i := e]"
    by simp_all
qed

subsection \<open>Adding an entry\<close>

lemma add_to_poll_list_ok:
  assumes inv: "poll_inv s" and room: "length (poll_entries s) < 2 ^ 30"
  shows "\<exists>l n m. add_to_poll_list fd ev s = Inr (poll_upd s l n m) \<and> poll_inv (poll_upd s l n m) \<and>
    poll_entries (poll_upd s l n m) = poll_entries s @ [\<lparr>pf_fd = fd, pf_events = ev, pf_revents = 0\<rparr>]"
proof -
  let ?e = "\<lparr>pf_fd = fd, pf_events = ev, pf_revents = 0\<rparr>" and ?n = "length (poll_entries s)"
  have n: "poll_num s = int ?n" using inv by (rule length_poll_entries)
  have grow: "\<exists>l m. (if poll_num s = poll_len s then
              bindE (c_int (poll_len s * 2)) (\<lambda>n.
              Inr (s\<lparr>poll_len := n, poll_list := c_realloc (poll_list s) (nat n)\<rparr>))
            else Inr s) = Inr (s\<lparr>poll_len := m, poll_list := l\<rparr>) \<and>
      int ?n < m \<and> m \<le> INT_MAX \<and> length l = nat m \<and> holds l (poll_entries s)"
  proof (cases "poll_num s = poll_len s")
    case True
    then have "in_int (poll_len s * 2)" using room n by (simp add: in_int_def)
    moreover have "holds (c_realloc (poll_list s) (nat (poll_len s * 2))) (poll_entries s)"
      using inv True n by (intro holds_c_realloc) (auto simp: poll_inv_def)
    ultimately show ?thesis using True n inv room
      by (intro exI [of _ "c_realloc (poll_list s) (nat (poll_len s * 2))"] exI [of _ "poll_len s * 2"])
        (simp add: poll_inv_def)
  next
    case False
    then show ?thesis using inv n
      by (intro exI [of _ "poll_list s"] exI [of _ "poll_len s"]) (auto simp: poll_inv_def)
  qed
  then obtain l m where g: "(if poll_num s = poll_len s then
              bindE (c_int (poll_len s * 2)) (\<lambda>n.
              Inr (s\<lparr>poll_len := n, poll_list := c_realloc (poll_list s) (nat n)\<rparr>))
            else Inr s) = Inr (s\<lparr>poll_len := m, poll_list := l\<rparr>)"
      "int ?n < m" "m \<le> INT_MAX" "length l = nat m" "holds l (poll_entries s)"
    by blast
  have w: "?n < length l" using g by simp
  have i: "in_int (int ?n + 1)" using g by (simp add: in_int_def)
  have "add_to_poll_list fd ev s = Inr (poll_upd s (l[?n := Some ?e]) (int ?n + 1) m)"
    unfolding add_to_poll_list_def g(1) using w i n by simp
  moreover have "poll_inv (poll_upd s (l[?n := Some ?e]) (int ?n + 1) m) \<and>
      poll_entries (poll_upd s (l[?n := Some ?e]) (int ?n + 1) m) = poll_entries s @ [?e]"
    using g w holds_snoc [OF g(5) w] by (intro poll_invI) auto
  ultimately show ?thesis by blast
qed

subsection \<open>Lookup and removal\<close>

lemma poll_lookup_from_spec:
  assumes inv: "poll_inv s" and "i \<le> length (poll_entries s)"
  shows "poll_lookup_from fd (int i) s =
    Inr (map_option int (find (\<lambda>j. pf_fd (poll_entries s ! j) = fd) [i..<length (poll_entries s)]))"
  using assms(2)
proof (induction "length (poll_entries s) - i" arbitrary: i)
  case 0
  then show ?case using length_poll_entries [OF inv] by (subst poll_lookup_from.simps) simp
next
  case (Suc n)
  then have i: "i < length (poll_entries s)" by simp
  have "poll_lookup_from fd (int i + 1) s =
     Inr (map_option int (find (\<lambda>j. pf_fd (poll_entries s ! j) = fd) [Suc i..<length (poll_entries s)]))"
    using Suc.hyps(1) [of "Suc i"] Suc.hyps(2) i by (simp add: add.commute)
  then show ?case
    using i poll_cell [OF inv i] length_poll_entries [OF inv]
    by (subst poll_lookup_from.simps) (simp add: upt_conv_Cons)
qed

lemma poll_list_lookup_spec:
  assumes inv: "poll_inv s"
  obtains (absent) "poll_list_lookup fd s = Inr None" "fd \<notin> pf_fd ` set (poll_entries s)"
    | (present) j where "poll_list_lookup fd s = Inr (Some (int j))" "j < length (poll_entries s)"
      "pf_fd (poll_entries s ! j) = fd"
proof (cases "find (\<lambda>j. pf_fd (poll_entries s ! j) = fd) [0..<length (poll_entries s)]")
  case None
  then have "fd \<notin> pf_fd ` set (poll_entries s)" by (auto simp: find_None_iff in_set_conv_nth)
  with None absent poll_lookup_from_spec [OF inv, of 0 fd] show thesis
    by (simp add: poll_list_lookup_def)
next
  case (Some j)
  then have "j < length (poll_entries s)" "pf_fd (poll_entries s ! j) = fd"
    by (auto simp: find_Some_iff)
  with Some present poll_lookup_from_spec [OF inv, of 0 fd] show thesis
    by (simp add: poll_list_lookup_def)
qed

lemma poll_set_events_ok:
  assumes "poll_inv s" "i < length (poll_entries s)"
  defines "e \<equiv> poll_entries s ! i"
  shows "\<exists>l. poll_set_events (int i) f s = Inr (s\<lparr>poll_list := l\<rparr>) \<and> poll_inv (s\<lparr>poll_list := l\<rparr>) \<and>
    poll_entries (s\<lparr>poll_list := l\<rparr>) = (poll_entries s)[i := e\<lparr>pf_events := f (pf_events e)\<rparr>]"
  using poll_cell [OF assms(1,2)] poll_write [OF assms(1,2)]
  by (auto simp: poll_set_events_def e_def)

text \<open>The entries with the one for \<open>fd\<close> disabled.\<close>

fun disable_fd :: "int \<Rightarrow> pollfd list \<Rightarrow> pollfd list" where
  "disable_fd fd [] = []"
| "disable_fd fd (e # es) = (if pf_fd e = fd then e\<lparr>pf_fd := -1, pf_revents := 0\<rparr> # es else e # disable_fd fd es)"

lemma length_disable_fd [simp]: "length (disable_fd fd es) = length es"
  by (induction es) auto

lemma poll_remove_from_ok:
  assumes inv: "poll_inv s" and "i \<le> length (poll_entries s)"
  shows "\<exists>l. poll_remove_from fd (int i) s = Inr (s\<lparr>poll_list := l\<rparr>) \<and> poll_inv (s\<lparr>poll_list := l\<rparr>) \<and>
    poll_entries (s\<lparr>poll_list := l\<rparr>) = take i (poll_entries s) @ disable_fd fd (drop i (poll_entries s))"
  using assms(2)
proof (induction "length (poll_entries s) - i" arbitrary: i)
  case 0
  then show ?case using length_poll_entries [OF inv] inv
    by (subst poll_remove_from.simps) (auto intro!: exI [of _ "poll_list s"])
next
  case (Suc n)
  then have i: "i < length (poll_entries s)" by simp
  let ?e = "poll_entries s ! i"
  have d: "drop i (poll_entries s) = ?e # drop (Suc i) (poll_entries s)"
    using i by (simp add: Cons_nth_drop_Suc)
  note step = poll_remove_from.simps [of fd "int i" s]
  show ?case
  proof (cases "pf_fd ?e = fd")
    case True
    let ?x = "?e\<lparr>pf_fd := -1, pf_revents := 0\<rparr>"
    have "(poll_entries s)[i := ?x] = take i (poll_entries s) @ ?x # drop (Suc i) (poll_entries s)"
      using i by (simp add: upd_conv_take_nth_drop)
    with True i d poll_cell [OF inv i] poll_write [OF inv i, of ?x] length_poll_entries [OF inv]
    show ?thesis by (auto simp: step)
  next
    case False
    have "take (Suc i) (poll_entries s) = take i (poll_entries s) @ [?e]"
      using i by (simp add: take_Suc_conv_app_nth)
    with False i d poll_cell [OF inv i] length_poll_entries [OF inv] Suc.hyps(1) [of "Suc i"] Suc.hyps(2)
    show ?thesis by (auto simp: step add.commute)
  qed
qed

lemma poll_list_remove_ok:
  assumes "poll_inv s"
  shows "\<exists>l. poll_list_remove fd s = Inr (s\<lparr>poll_list := l\<rparr>) \<and> poll_inv (s\<lparr>poll_list := l\<rparr>) \<and>
    poll_entries (s\<lparr>poll_list := l\<rparr>) = disable_fd fd (poll_entries s)"
  using poll_remove_from_ok [OF assms, of 0 fd] by (simp add: poll_list_remove_def)

subsection \<open>Cleaning\<close>

lemma poll_clean_from_ok:
  assumes inv: "poll_inv s" and "i \<le> length (poll_entries s)"
    and "\<forall>e \<in> set (take i (poll_entries s)). pf_fd e \<noteq> -1"
  shows "\<exists>l n. poll_clean_from (int i) s = Inr (s\<lparr>poll_list := l, poll_num := n\<rparr>) \<and>
    poll_inv (s\<lparr>poll_list := l, poll_num := n\<rparr>) \<and>
    mset (poll_entries (s\<lparr>poll_list := l, poll_num := n\<rparr>)) =
      filter_mset (\<lambda>e. pf_fd e \<noteq> -1) (mset (poll_entries s))"
  using assms
proof (induction "length (poll_entries s) - i" arbitrary: i s)
  case 0
  then have "filter (\<lambda>e. pf_fd e \<noteq> -1) (poll_entries s) = poll_entries s"
    by (auto simp: filter_id_conv)
  then have "filter_mset (\<lambda>e. pf_fd e \<noteq> -1) (mset (poll_entries s)) = mset (poll_entries s)"
    by (metis mset_filter)
  moreover have "poll_clean_from (int i) s = Inr (s\<lparr>poll_list := poll_list s, poll_num := poll_num s\<rparr>)"
    using 0 length_poll_entries [OF "0.prems"(1)] by (subst poll_clean_from.simps) simp
  ultimately show ?case using "0.prems"(1)
    by (intro exI [of _ "poll_list s"] exI [of _ "poll_num s"]) simp
next
  case (Suc n)
  let ?es = "poll_entries s"
  have i: "i < length ?es" using Suc.hyps(2) by simp
  note inv = Suc.prems(1) and len = length_poll_entries [OF Suc.prems(1)]
  note step = poll_clean_from.simps [of "int i" s]
  show ?case
  proof (cases "pf_fd (?es ! i) = -1")
    case False
    have "take (Suc i) ?es = take i ?es @ [?es ! i]" using i by (simp add: take_Suc_conv_app_nth)
    then have "\<forall>e \<in> set (take (Suc i) ?es). pf_fd e \<noteq> -1" using False Suc.prems(3) by auto
    with Suc.hyps(1) [of s "Suc i"] Suc.hyps(2) i inv False poll_cell [OF inv i] len show ?thesis
      by (auto simp: step add.commute)
  next
    case True
    define m where "m = length ?es - 1"
    have "?es \<noteq> []" using i by auto
    then have m: "m < length ?es" "poll_num s - 1 = int m" "last ?es = ?es ! m"
      using i len by (auto simp: m_def last_conv_nth)
    let ?us = "butlast (?es[i := last ?es])"
    let ?l = "(poll_list s)[i := Some (last ?es)]"
    let ?t = "s\<lparr>poll_list := ?l, poll_num := int m\<rparr>"
    have us: "length ?us = m" by (simp add: m_def)
    have "holds ?l (?es[i := last ?es])"
      using inv i by (auto simp: holds_def poll_inv_def map_update take_update_swap)
    then have h: "holds ?l ?us" by (simp add: butlast_conv_take holds_take)
    have "poll_inv (poll_upd s ?l (int m) (poll_len s)) \<and> poll_entries (poll_upd s ?l (int m) (poll_len s)) = ?us"
      using inv m us h len by (intro poll_invI) (auto simp: poll_inv_def)
    moreover have "poll_upd s ?l (int m) (poll_len s) = ?t" by simp
    ultimately have t: "poll_inv ?t" "poll_entries ?t = ?us" by simp_all
    have run: "poll_clean_from (int i) s = poll_clean_from (int i) ?t"
      using True i m poll_cell [OF inv i] poll_cell [OF inv m(1)] len by (simp add: step)
    have "i \<le> length ?es - 1" using i by simp
    then have tk: "take i ?us = take i ?es" by (simp add: butlast_conv_take min_def)
    have "mset ?us = mset ?es - {#?es ! i#}" by (rule mset_swap_last [OF i])
    then have ms: "filter_mset (\<lambda>e. pf_fd e \<noteq> -1) (mset ?us) = filter_mset (\<lambda>e. pf_fd e \<noteq> -1) (mset ?es)"
      using True i by (simp add: filter_diff_mset)
    have "\<exists>l n. poll_clean_from (int i) ?t = Inr (?t\<lparr>poll_list := l, poll_num := n\<rparr>) \<and>
        poll_inv (?t\<lparr>poll_list := l, poll_num := n\<rparr>) \<and>
        mset (poll_entries (?t\<lparr>poll_list := l, poll_num := n\<rparr>)) =
          filter_mset (\<lambda>e. pf_fd e \<noteq> -1) (mset (poll_entries ?t))"
      using Suc.hyps(2) i Suc.prems(3) t us
      by (intro Suc.hyps(1)) (auto simp: t tk m_def)
    with run ms t(2) show ?thesis by simp
  qed
qed

lemma poll_list_clean_ok:
  assumes "poll_inv s"
  shows "\<exists>l n. poll_list_clean s = Inr (s\<lparr>poll_list := l, poll_num := n\<rparr>) \<and>
    poll_inv (s\<lparr>poll_list := l, poll_num := n\<rparr>) \<and>
    mset (poll_entries (s\<lparr>poll_list := l, poll_num := n\<rparr>)) =
      filter_mset (\<lambda>e. pf_fd e \<noteq> -1) (mset (poll_entries s))"
  using poll_clean_from_ok [OF assms, of 0] by (simp add: poll_list_clean_def)

subsection \<open>The answer of poll\<close>

lemma poll_request_entries:
  "poll_request s = map (\<lambda>e. (pf_fd e, pf_events e)) (poll_entries s)"
  by (simp add: poll_request_def poll_entries_def)

lemma set_revents_ok:
  assumes inv: "poll_inv s"
  shows "poll_inv (set_revents rv s)"
    "length (poll_entries (set_revents rv s)) = length (poll_entries s)"
    "i < length (poll_entries s) \<Longrightarrow> poll_entries (set_revents rv s) ! i = (poll_entries s ! i)\<lparr>pf_revents := rv i\<rparr>"
proof -
  let ?l = "poll_list (set_revents rv s)"
  let ?es = "map (\<lambda>i. (poll_entries s ! i)\<lparr>pf_revents := rv i\<rparr>) [0..<length (poll_entries s)]"
  have n: "nat (poll_num s) = length (poll_entries s)" using length_poll_entries [OF inv] by simp
  have len: "length ?l = length (poll_list s)" by (simp add: set_revents_def)
  have cell: "?l ! j = Some (?es ! j)" if "j < length (poll_entries s)" for j
    using that poll_cell [OF inv that] n by (simp add: set_revents_def nth_enumerate_eq)
  have "holds ?l ?es"
    using inv len cell by (intro holdsI) (auto simp: poll_inv_def holds_def)
  then have "poll_inv (poll_upd s ?l (poll_num s) (poll_len s)) \<and>
      poll_entries (poll_upd s ?l (poll_num s) (poll_len s)) = ?es"
    using inv len length_poll_entries [OF inv] by (intro poll_invI) (auto simp: poll_inv_def holds_def)
  moreover have "poll_upd s ?l (poll_num s) (poll_len s) = set_revents rv s"
    by (simp add: set_revents_def)
  ultimately have r: "poll_inv (set_revents rv s)" "poll_entries (set_revents rv s) = ?es" by simp_all
  then show "poll_inv (set_revents rv s)"
    "length (poll_entries (set_revents rv s)) = length (poll_entries s)"
    "i < length (poll_entries s) \<Longrightarrow> poll_entries (set_revents rv s) ! i = (poll_entries s ! i)\<lparr>pf_revents := rv i\<rparr>"
    by simp_all
qed

end
