(* ===== verification/Unix_Invariant.thy ===== *)
theory Unix_Invariant
  imports Unix_Poll
begin

section \<open>The invariant of the Unix server\<close>

text \<open>
  What holds between two steps of the event loop. A budget \<open>B\<close> bounds, for every client, the
  messages waiting for it plus one for every running and two for every pending request: each
  request leads to at most two messages, so that the budget grows by two per request and by
  nothing else. \<open>frame\<close> describes what the operations on processes and messages leave alone.
\<close>

unbundle bit_operations_syntax

lemma poll_entries_upd [simp]:
  "poll_entries (s\<lparr>processes := pr\<rparr>) = poll_entries s" "poll_inv (s\<lparr>processes := pr\<rparr>) = poll_inv s"
  "poll_entries (s\<lparr>queue := q\<rparr>) = poll_entries s" "poll_inv (s\<lparr>queue := q\<rparr>) = poll_inv s"
  "poll_entries (s\<lparr>hist := h\<rparr>) = poll_entries s" "poll_inv (s\<lparr>hist := h\<rparr>) = poll_inv s"
  "poll_entries (s\<lparr>parallel := n\<rparr>) = poll_entries s" "poll_inv (s\<lparr>parallel := n\<rparr>) = poll_inv s"
  "poll_entries (s\<lparr>clients := cl\<rparr>) = poll_entries s" "poll_inv (s\<lparr>clients := cl\<rparr>) = poll_inv s"
  "poll_entries (s\<lparr>next_ptr := k\<rparr>) = poll_entries s" "poll_inv (s\<lparr>next_ptr := k\<rparr>) = poll_inv s"
  by (simp_all add: poll_entries_def poll_inv_def)

lemma sys_unix_simps [simp]:
  "server_sock (sys e s) = server_sock s" "poll_list (sys e s) = poll_list s"
  "poll_num (sys e s) = poll_num s" "poll_len (sys e s) = poll_len s"
  "clients (sys e s) = clients s" "clients_set (sys e s) = clients_set s"
  "current_dir (sys e s) = current_dir s" "cpipe0 (sys e s) = cpipe0 s" "cpipe1 (sys e s) = cpipe1 s"
  "heap (sys e s) = heap s" "next_ptr (sys e s) = next_ptr s"
  by (simp_all add: sys_def)

lemma set_client_simps [simp]:
  "server_sock (set_client p c s) = server_sock s"
  "clients (set_client p c s) = clients s" "clients_set (set_client p c s) = clients_set s"
  "current_dir (set_client p c s) = current_dir s" "cpipe0 (set_client p c s) = cpipe0 s"
  "heap (set_client p c s) = (heap s)(p := Some c)" "next_ptr (set_client p c s) = next_ptr s"
  "poll_entries (set_client p c s) = poll_entries s" "poll_inv (set_client p c s) = poll_inv s"
  "processes (set_client p c s) = processes s" "queue (set_client p c s) = queue s"
  "hist (set_client p c s) = hist s" "parallel (set_client p c s) = parallel s"
  "log_ok (set_client p c s) = log_ok s" "single_client (set_client p c s) = single_client s"
  by (simp_all add: set_client_def log_ok_def)

subsection \<open>Definitions\<close>

definition wb_count :: "t_writebuf \<Rightarrow> nat" where
  "wb_count b = (if has_write_data b then 1 else 0) + length (queue_list (wb_queue b))"

definition load :: "unix_server \<Rightarrow> nat" where
  "load s = length (list_entries (processes s)) + 2 * length (queue_list (queue s))"

definition rb_small :: "history \<Rightarrow> t_readbuf \<Rightarrow> bool" where
  "rb_small h b \<longleftrightarrow> length (rb_bytes b) \<le> total_read h \<and> unat (rb_capacity b) \<le> 2 * total_read h + 6144"

definition client_ok :: "nat \<Rightarrow> unix_server \<Rightarrow> t_client \<Rightarrow> bool" where
  "client_ok B s c \<longleftrightarrow> rb_inv (c_readbuf c) \<and> rb_small (hist s) (c_readbuf c) \<and>
     wb_inv (c_writebuf c) \<and> can_write (c_writebuf c) \<and> wb_count (c_writebuf c) + load s \<le> B"

definition clients_ok :: "nat \<Rightarrow> unix_server \<Rightarrow> bool" where
  "clients_ok B s \<longleftrightarrow> al.ok (clients s) \<and> distinct (map snd (list_entries (clients s))) \<and>
     (\<forall>(fd, p) \<in> set (list_entries (clients s)). 0 \<le> fd \<and> fd < FD_LIMIT \<and> p < next_ptr s \<and>
        (\<exists>c. heap s p = Some c \<and> c_fd c = fd \<and> client_ok B s c))"

definition procs_ok :: "unix_server \<Rightarrow> bool" where
  "procs_ok s \<longleftrightarrow> al.ok (processes s) \<and> al.keys (processes s) = set (live_pids (hist s)) \<and>
     (\<forall>(pid, p) \<in> set (list_entries (processes s)). p_id p = pid \<and> 0 < pid \<and> pid < PID_LIMIT)"

definition req_ok :: "request \<Rightarrow> bool" where
  "req_ok r \<longleftrightarrow> r_type r = REQ_RUN \<and> r_numargs r = int (length (r_args r))"

definition queue_ok :: "unix_server \<Rightarrow> bool" where
  "queue_ok s \<longleftrightarrow> queue_inv (queue s) \<and>
     (\<forall>r \<in> set (queue_list (queue s)). req_ok r \<and> r_key r \<in> al.keys (clients s))"

definition fds_ok :: "unix_server \<Rightarrow> bool" where
  "fds_ok s \<longleftrightarrow> insert (server_sock s) (insert (cpipe0 s) (al.keys (clients s))) \<subseteq> set (open_fds (hist s)) \<and>
     server_sock s \<notin> al.keys (clients s) \<and> cpipe0 s \<notin> al.keys (clients s) \<and> server_sock s \<noteq> cpipe0 s \<and>
     0 \<le> server_sock s \<and> 0 \<le> cpipe0 s"

text \<open>A client is asked for writability exactly when there is something to write to it.\<close>

definition entry_ok :: "unix_server \<Rightarrow> int \<Rightarrow> ptr \<Rightarrow> bool" where
  "entry_ok s fd p \<longleftrightarrow> (\<exists>e \<in> set (poll_entries s). pf_fd e = fd \<and>
     (pf_events e AND POLLOUT \<noteq> 0 \<longleftrightarrow> has_write_data (c_writebuf (the (heap s p)))))"

definition polls_ok :: "unix_server \<Rightarrow> bool" where
  "polls_ok s \<longleftrightarrow> poll_inv s \<and> distinct (filter (\<lambda>fd. fd \<noteq> -1) (map pf_fd (poll_entries s))) \<and>
     pf_fd ` set (poll_entries s) \<subseteq> insert (-1) (insert (server_sock s) (insert (cpipe0 s) (al.keys (clients s)))) \<and>
     (\<forall>(fd, p) \<in> set (list_entries (clients s)). entry_ok s fd p)"

definition misc_ok :: "unix_server \<Rightarrow> bool" where
  "misc_ok s \<longleftrightarrow> 0 < parallel s \<and> parallel s \<le> INT_MAX \<and> log_ok s \<and> clients_set s"

definition inv :: "nat \<Rightarrow> unix_server \<Rightarrow> bool" where
  "inv B s \<longleftrightarrow> clients_ok B s \<and> procs_ok s \<and> queue_ok s \<and> fds_ok s \<and> polls_ok s \<and> misc_ok s \<and> load s \<le> B"

lemmas inv_defs = inv_def clients_ok_def procs_ok_def queue_ok_def fds_ok_def polls_ok_def misc_ok_def

text \<open>What is still unhandled in the poll list, from entry \<open>i\<close> on.\<close>

definition rev_ok :: "nat \<Rightarrow> unix_server \<Rightarrow> bool" where
  "rev_ok i s \<longleftrightarrow> (\<forall>j. i \<le> j \<longrightarrow> j < length (poll_entries s) \<longrightarrow>
     (pf_fd (poll_entries s ! j) = server_sock s \<longrightarrow> pf_revents (poll_entries s ! j) \<in> {0, POLLIN}) \<and>
     (\<forall>p c. (pf_fd (poll_entries s ! j), p) \<in> set (list_entries (clients s)) \<longrightarrow> heap s p = Some c \<longrightarrow>
        pf_revents (poll_entries s ! j) AND POLLOUT \<noteq> 0 \<longrightarrow> has_write_data (c_writebuf c)))"

text \<open>Two clients that differ only in their write buffers, the second with no less to write.\<close>

definition same_client :: "t_client \<Rightarrow> t_client \<Rightarrow> bool" where
  "same_client c c' \<longleftrightarrow> c_fd c' = c_fd c \<and> c_readbuf c' = c_readbuf c \<and>
     (has_write_data (c_writebuf c) \<longrightarrow> has_write_data (c_writebuf c'))"

definition frame :: "unix_server \<Rightarrow> unix_server \<Rightarrow> bool" where
  "frame s s' \<longleftrightarrow> clients s' = clients s \<and> server_sock s' = server_sock s \<and> cpipe0 s' = cpipe0 s \<and>
     next_ptr s' = next_ptr s \<and> total_read (hist s') = total_read (hist s) \<and>
     rel_fun (=) (rel_option same_client) (heap s) (heap s') \<and>
     map pf_fd (poll_entries s') = map pf_fd (poll_entries s) \<and>
     map pf_revents (poll_entries s') = map pf_revents (poll_entries s)"

subsection \<open>Frames\<close>

lemma same_client_refl [simp]: "same_client c c"
  by (simp add: same_client_def)

lemma frame_refl [simp]: "frame s s"
  by (simp add: frame_def rel_fun_def option.rel_refl)

lemma frame_heap: "frame s s' \<Longrightarrow> rel_option same_client (heap s p) (heap s' p)"
  by (simp add: frame_def rel_fun_def)

lemma frame_heap_Some:
  assumes "frame s s'" "heap s p = Some c"
  obtains c' where "heap s' p = Some c'" "same_client c c'"
  using frame_heap [OF assms(1), of p] assms(2) by (auto simp: option_rel_Some1)

lemma frame_trans:
  assumes "frame r s" "frame s t"
  shows "frame r t"
proof -
  have "rel_option same_client (heap r p) (heap t p)" for p
    using frame_heap [OF assms(1), of p] frame_heap [OF assms(2), of p]
    by (auto simp: option.rel_sel same_client_def)
  with assms show ?thesis by (simp add: frame_def rel_fun_def)
qed

lemma map_eq_nth: "map f xs = map f ys \<Longrightarrow> i < length xs \<Longrightarrow> f (xs ! i) = f (ys ! i)"
  by (metis length_map nth_map)

text \<open>What of a step matters for the entries of the poll list that are not handled yet.\<close>

definition keeps_polls :: "unix_server \<Rightarrow> unix_server \<Rightarrow> bool" where
  "keeps_polls s s' \<longleftrightarrow> clients s' = clients s \<and> server_sock s' = server_sock s \<and>
     map pf_fd (poll_entries s') = map pf_fd (poll_entries s) \<and>
     map pf_revents (poll_entries s') = map pf_revents (poll_entries s) \<and>
     (\<forall>p c'. heap s' p = Some c' \<longrightarrow>
        (\<exists>c. heap s p = Some c \<and> (has_write_data (c_writebuf c) \<longrightarrow> has_write_data (c_writebuf c'))))"

lemma frame_keeps_polls: "frame s s' \<Longrightarrow> keeps_polls s s'"
proof -
  assume f: "frame s s'"
  have "\<exists>c. heap s p = Some c \<and> (has_write_data (c_writebuf c) \<longrightarrow> has_write_data (c_writebuf c'))"
    if "heap s' p = Some c'" for p c'
    using frame_heap [OF f, of p] that by (auto simp: option_rel_Some2 same_client_def)
  with f show ?thesis by (simp add: keeps_polls_def frame_def)
qed

lemma keeps_polls_trans: "keeps_polls r s \<Longrightarrow> keeps_polls s t \<Longrightarrow> keeps_polls r t"
  unfolding keeps_polls_def by metis

lemma keeps_polls_rev_ok:
  assumes f: "keeps_polls s s'" and r: "rev_ok i s"
  shows "rev_ok i s'"
  unfolding rev_ok_def
proof (intro allI impI)
  fix j assume j: "i \<le> j" "j < length (poll_entries s')"
  let ?e = "poll_entries s ! j" and ?e' = "poll_entries s' ! j"
  have len: "length (poll_entries s') = length (poll_entries s)"
    using f by (metis keeps_polls_def length_map)
  have e: "pf_fd ?e' = pf_fd ?e" "pf_revents ?e' = pf_revents ?e"
    using map_eq_nth [of pf_fd "poll_entries s'" "poll_entries s" j]
      map_eq_nth [of pf_revents "poll_entries s'" "poll_entries s" j] f j
    by (simp_all add: keeps_polls_def)
  have r': "pf_fd ?e = server_sock s \<longrightarrow> pf_revents ?e \<in> {0, POLLIN}"
    "\<And>p c. (pf_fd ?e, p) \<in> set (list_entries (clients s)) \<Longrightarrow> heap s p = Some c \<Longrightarrow>
        pf_revents ?e AND POLLOUT \<noteq> 0 \<Longrightarrow> has_write_data (c_writebuf c)"
    using r j len unfolding rev_ok_def by auto
  have "has_write_data (c_writebuf c')"
    if a: "(pf_fd ?e', p) \<in> set (list_entries (clients s'))" "heap s' p = Some c'"
      "pf_revents ?e' AND POLLOUT \<noteq> 0" for p c'
  proof -
    obtain c where "heap s p = Some c" "has_write_data (c_writebuf c) \<longrightarrow> has_write_data (c_writebuf c')"
      using f a(2) unfolding keeps_polls_def by blast
    with r'(2) [of p c] a e f show ?thesis by (auto simp: keeps_polls_def)
  qed
  with r'(1) e f show "(pf_fd ?e' = server_sock s' \<longrightarrow> pf_revents ?e' \<in> {0, POLLIN}) \<and>
      (\<forall>p c. (pf_fd ?e', p) \<in> set (list_entries (clients s')) \<longrightarrow> heap s' p = Some c \<longrightarrow>
        pf_revents ?e' AND POLLOUT \<noteq> 0 \<longrightarrow> has_write_data (c_writebuf c))"
    by (auto simp: keeps_polls_def)
qed

subsection \<open>Consequences of the invariant\<close>

lemma rb_small_mono: "rb_small h b \<Longrightarrow> total_read h \<le> total_read h' \<Longrightarrow> rb_small h' b"
  by (auto simp: rb_small_def)

lemma client_ok_mono:
  "client_ok B s c \<Longrightarrow> total_read (hist s) \<le> total_read (hist s') \<Longrightarrow>
     wb_count (c_writebuf c) + load s' \<le> B' \<Longrightarrow> client_ok B' s' c"
  by (auto simp: client_ok_def intro: rb_small_mono)

lemma inv_mono: "inv B s \<Longrightarrow> B \<le> B' \<Longrightarrow> inv B' s"
  unfolding inv_def clients_ok_def client_ok_def by (auto split: prod.splits)

lemma inv_client:
  assumes "inv B s" "(fd, p) \<in> set (list_entries (clients s))"
  obtains c where "heap s p = Some c" "c_fd c = fd" "client_ok B s c" "0 \<le> fd" "fd < FD_LIMIT"
    "client_at p s = Inr c"
  using assms unfolding inv_def clients_ok_def client_at_def by fastforce

lemma inv_distinct_fd:
  "inv B s \<Longrightarrow> (fd, p) \<in> set (list_entries (clients s)) \<Longrightarrow> (fd, p') \<in> set (list_entries (clients s)) \<Longrightarrow> p = p'"
  by (auto simp: inv_def clients_ok_def al.ok_def dest: eq_key_imp_eq_value)

lemma inv_distinct_ptr:
  assumes "inv B s" "(fd, p) \<in> set (list_entries (clients s))" "(fd', p) \<in> set (list_entries (clients s))"
  shows "fd = fd'"
proof -
  have "inj_on snd (set (list_entries (clients s)))"
    using assms(1) by (auto simp: inv_def clients_ok_def distinct_map)
  from inj_onD [OF this _ assms(2,3)] show ?thesis by simp
qed

lemma inv_procs_room: "inv B s \<Longrightarrow> length (list_entries (processes s)) < list_room"
proof -
  assume i: "inv B s"
  then have "al.keys (processes s) \<subseteq> {0..<int 4194304}"
    by (force simp: inv_def procs_ok_def al.keys_def)
  with i al.length_le_bound [of "processes s" 4194304] show ?thesis
    by (auto simp: inv_def procs_ok_def)
qed

lemma inv_clients_room: "inv B s \<Longrightarrow> length (list_entries (clients s)) \<le> 1048576"
proof -
  assume i: "inv B s"
  then have "al.keys (clients s) \<subseteq> {0..<int 1048576}"
    by (force simp: inv_def clients_ok_def al.keys_def)
  with i al.length_le_bound [of "clients s" 1048576] show ?thesis
    by (auto simp: inv_def clients_ok_def)
qed

text \<open>Changing the history, the process list or the queue.\<close>

lemma inv_update:
  assumes i: "inv B s"
    and h: "total_read (hist s) \<le> total_read h"
    and pr: "al.ok pr" "al.keys pr = set (live_pids h)"
      "\<forall>(pid, p) \<in> set (list_entries pr). p_id p = pid \<and> 0 < pid \<and> pid < PID_LIMIT"
    and q: "queue_inv q" "\<forall>r \<in> set (queue_list q). req_ok r \<and> r_key r \<in> al.keys (clients s)"
    and fd: "insert (server_sock s) (insert (cpipe0 s) (al.keys (clients s))) \<subseteq> set (open_fds h)"
    and n: "0 < n" "n \<le> INT_MAX"
    and l: "length (list_entries pr) + 2 * length (queue_list q) + B \<le> load s + B'"
  shows "inv B' (s\<lparr>hist := h, processes := pr, queue := q, parallel := n\<rparr>)" (is "inv B' ?s")
proof -
  have ld: "load ?s + B \<le> load s + B'" using l by (simp add: load_def)
  have "client_ok B' ?s c" if "client_ok B s c" for c
    using that ld h by (intro client_ok_mono [OF that]) (auto simp: client_ok_def)
  moreover have "load s \<le> B" using i by (simp add: inv_def)
  ultimately show ?thesis
    using i pr q fd n ld by (fastforce simp: inv_defs entry_ok_def log_ok_def)
qed

end
