(* ===== verification/Unix_Messages.thy ===== *)
theory Unix_Messages
  imports Unix_Invariant
begin

section \<open>Messages, processes and requests keep the invariant\<close>

text \<open>
  The operations of the Unix server below the event loop: shutdown, messages to clients, the
  start and the end of processes, requests. Each lemma says that the operation does not crash,
  keeps the invariant with the given budget and leaves the rest alone (\<open>frame\<close>).
\<close>

unbundle bit_operations_syntax

subsection \<open>Shutdown\<close>

definition can_shutdown :: "unix_server \<Rightarrow> bool" where
  "can_shutdown s \<longleftrightarrow> log_ok s \<and> list_inv (clients s) \<and>
     (\<forall>e \<in> set (list_entries (clients s)). heap s (snd e) \<noteq> None)"

lemma inv_can_shutdown: "inv B s \<Longrightarrow> can_shutdown s"
  by (fastforce simp: can_shutdown_def inv_def misc_ok_def clients_ok_def al.ok_def)

lemma can_shutdown_sys [simp]: "can_shutdown (sys e s) = can_shutdown s"
  by (simp add: can_shutdown_def)

text \<open>Every client is closed, in the order of the list.\<close>

lemma close_clients_spec:
  assumes "can_shutdown s" "i \<le> length (list_entries (clients s))"
  shows "close_clients (int i) s = Inr (s\<lparr>hist := hist s @
    map (\<lambda>e. Sys_Close (c_fd (the (heap s (snd e))))) (drop i (list_entries (clients s)))\<rparr>)"
  using assms
proof (induction "length (list_entries (clients s)) - i" arbitrary: i s)
  case 0
  then have "list_inv (clients s)" by (simp add: can_shutdown_def)
  with 0 show ?case
    by (subst close_clients.simps) (simp add: list_length_def list_inv_len)
next
  case (Suc n)
  let ?l = "clients s"
  have i: "i < length (list_entries ?l)" using Suc.hyps(2) by simp
  have li: "list_inv ?l" using Suc.prems(1) by (simp add: can_shutdown_def)
  let ?p = "snd (list_entries ?l ! i)"
  obtain c where c: "heap s ?p = Some c"
    using Suc.prems(1) i by (force simp: can_shutdown_def)
  let ?s = "sys (Sys_Close (c_fd c)) s"
  have d: "drop i (list_entries ?l) = list_entries ?l ! i # drop (Suc i) (list_entries ?l)"
    using i by (simp add: Cons_nth_drop_Suc)
  have "close_clients (int (Suc i)) ?s = Inr (?s\<lparr>hist := hist ?s @
      map (\<lambda>e. Sys_Close (c_fd (the (heap ?s (snd e))))) (drop (Suc i) (list_entries (clients ?s)))\<rparr>)"
    using Suc.hyps(2) Suc.prems i by (intro Suc.hyps(1)) simp_all
  then show ?case
    using list_inv_cells [OF li i] i list_inv_len [OF li] d c
    by (subst close_clients.simps) (simp add: list_length_def client_at_def add.commute sys_def)
qed

lemma shutdown_safe [simp]: "can_shutdown s \<Longrightarrow> safe P (shutdown_with_msg m s)"
proof -
  assume c: "can_shutdown s"
  define t where "t = (if server_sock s \<noteq> -1 then sys (Sys_Close (server_sock s)) s else s)"
  have t: "can_shutdown t" using c by (simp add: t_def)
  then have "log_ok t" by (simp add: can_shutdown_def)
  moreover have "close_clients 0 t = Inr (t\<lparr>hist := hist t @
      map (\<lambda>e. Sys_Close (c_fd (the (heap t (snd e))))) (list_entries (clients t))\<rparr>)"
    using close_clients_spec [OF t, of 0] by simp
  ultimately show ?thesis
    unfolding shutdown_with_msg_def Let_def t_def [symmetric]
    by (auto simp: log_ok_def)
qed

lemma inv_shutdown: "inv B s \<Longrightarrow> safe P (shutdown_with_msg m s)"
  by (simp add: inv_can_shutdown)

subsection \<open>System calls without effect on the invariant\<close>

fun harmless :: "sys_event \<Rightarrow> bool" where
  "harmless (Sys_Kill p g) = True"
| "harmless (Sys_Write fd bs n) = True"
| "harmless (Sys_Poll n) = True"
| "harmless (Sys_Call c n) = True"
| "harmless (Sys_Log m) = True"
| "harmless _ = False"

lemma harmless_live_pids: "list_all harmless es \<Longrightarrow> live_pids (h @ es) = live_pids h"
proof (induction es rule: rev_induct)
  case (snoc e es)
  then show ?case by (cases e) (simp_all flip: append_assoc)
qed simp

lemma harmless_open_fds: "list_all harmless es \<Longrightarrow> open_fds (h @ es) = open_fds h"
proof (induction es rule: rev_induct)
  case (snoc e es)
  then show ?case by (cases e) (simp_all flip: append_assoc)
qed simp

lemma harmless_total_read: "list_all harmless es \<Longrightarrow> total_read es = 0"
proof (induction es)
  case (Cons e es)
  then show ?case by (cases e) simp_all
qed simp

lemma inv_harmless:
  assumes i: "inv B s" and e: "list_all harmless es"
  shows "inv B (s\<lparr>hist := hist s @ es\<rparr>)"
proof -
  have "inv B (s\<lparr>hist := hist s @ es, processes := processes s, queue := queue s, parallel := parallel s\<rparr>)"
    using i by (intro inv_update [OF i])
      (auto simp: inv_defs harmless_live_pids [OF e] harmless_open_fds [OF e] load_def)
  then show ?thesis by simp
qed

lemma frame_harmless: "list_all harmless es \<Longrightarrow> frame s (s\<lparr>hist := hist s @ es\<rparr>)"
  by (simp add: frame_def harmless_total_read rel_fun_def option.rel_refl)

lemma inv_sys: "inv B s \<Longrightarrow> harmless e \<Longrightarrow> inv B (sys e s)"
  using inv_harmless [of B s "[e]"] by (simp add: sys_def)

lemma frame_sys: "harmless e \<Longrightarrow> frame s (sys e s)"
  using frame_harmless [of "[e]" s] by (simp add: sys_def)

text \<open>Logging.\<close>

lemma log_msg_inv:
  assumes "inv B s"
  shows "safe (\<lambda>s'. inv B s' \<and> frame s s' \<and> heap s' = heap s \<and> processes s' = processes s \<and>
    queue s' = queue s \<and> parallel s' = parallel s) (log_msg m s)"
proof -
  have "log_ok s" using assms by (simp add: inv_def misc_ok_def)
  then show ?thesis
    by (rule log_msg_ok [of s m]) (use assms inv_sys frame_sys in \<open>auto\<close>)
qed

subsection \<open>Queueing a message\<close>

lemma wb_count_push:
  assumes "wb_inv b" "msg_ok m" "wb_count b < queue_room" "can_write b"
  shows "\<exists>b'. push_write_data b m = Inr b' \<and> wb_inv b' \<and> wb_pending b' = wb_pending b @ cstr m \<and>
    can_write b' \<and> has_write_data b' \<and> wb_count b' = wb_count b + 1"
proof (cases "wb_data b")
  case None
  with assms show ?thesis
    by (auto simp: push_write_data_def has_write_data_def wb_inv_def wb_pending_def msg_len
        msg_strlen_pos wb_count_def can_write_def)
next
  case (Some d)
  have "length (queue_list (wb_queue b)) < queue_room" using assms by (simp add: wb_count_def)
  then obtain q where "queue_push (wb_queue b) m = Inr q" "queue_inv q"
      "queue_list q = queue_list (wb_queue b) @ [m]"
    using assms rq.push_law [of "wb_queue b" m] by (auto simp: wb_inv_def)
  with Some assms show ?thesis
    by (auto simp: push_write_data_def has_write_data_def wb_inv_def wb_pending_def wb_count_def can_write_def)
qed

lemma pollout_set [simp]: "((e :: u16) OR POLLOUT) AND POLLOUT \<noteq> 0"
proof -
  have "bit ((e OR POLLOUT) AND POLLOUT) 2" by (simp add: bit_simps)
  then show ?thesis by (metis bit_0_eq bot_apply bot_bool_def)
qed

lemma pollout_clear [simp]: "((e :: u16) AND NOT POLLOUT) AND POLLOUT = 0"
  by (simp add: and.assoc)

text \<open>Updating one client and the events of its entry in the poll list.\<close>

lemma inv_client_update:
  assumes i: "inv B s" and p: "(fd, p) \<in> set (list_entries (clients s))" and c: "heap s p = Some c"
    and c': "c_fd c' = fd" "client_ok B' s c'" "B \<le> B'"
    and poll: "poll_inv (s\<lparr>poll_list := l\<rparr>)" "j < length (poll_entries s)" "pf_fd (poll_entries s ! j) = fd"
      "poll_entries (s\<lparr>poll_list := l\<rparr>) = (poll_entries s)[j := (poll_entries s ! j)\<lparr>pf_events := ev\<rparr>]"
    and ev: "ev AND POLLOUT \<noteq> 0 \<longleftrightarrow> has_write_data (c_writebuf c')"
  shows "inv B' (s\<lparr>heap := (heap s)(p := Some c'), poll_list := l\<rparr>)" (is "inv B' ?s")
proof -
  let ?es = "poll_entries s" and ?es' = "poll_entries (s\<lparr>poll_list := l\<rparr>)"
  let ?cs = "list_entries (clients s)"
  have es: "poll_entries ?s = ?es'" "poll_inv ?s" using poll(1) by (simp_all add: poll_entries_def poll_inv_def)
  have other: "fd' \<noteq> fd \<and> p' \<noteq> p" if "(fd', p') \<in> set ?cs" "(fd', p') \<noteq> (fd, p)" for fd' p'
    using that p inv_distinct_fd [OF i] inv_distinct_ptr [OF i] by blast
  have fds: "map pf_fd ?es' = map pf_fd ?es" using poll(2,3,4) by (simp add: map_update list_update_same_conv)
  have ok: "client_ok B' ?s d" if "client_ok B s d" for d
    using that c'(3) by (auto simp: client_ok_def load_def)
  have "entry_ok ?s fd' p'" if e: "(fd', p') \<in> set ?cs" for fd' p'
  proof (cases "(fd', p') = (fd, p)")
    case True
    then show ?thesis using poll(2,3) ev es
      by (auto simp: entry_ok_def poll(4) intro!: bexI [OF _ set_update_memI [OF poll(2)]])
  next
    case False
    from e i obtain x where x: "x \<in> set ?es" "pf_fd x = fd'"
        "pf_events x AND POLLOUT \<noteq> 0 \<longleftrightarrow> has_write_data (c_writebuf (the (heap s p')))"
      by (fastforce simp: inv_def polls_ok_def entry_ok_def)
    with other [OF e False] poll(3) have "x \<in> set ?es'"
      unfolding poll(4) by (metis in_set_conv_nth length_list_update nth_list_update_neq)
    with x other [OF e False] show ?thesis by (auto simp: entry_ok_def es)
  qed
  moreover have "pf_fd ` set ?es' = pf_fd ` set ?es" using fds by (metis list.set_map)
  ultimately have "polls_ok ?s"
    using i es fds by (auto simp: inv_def polls_ok_def)
  moreover have "clients_ok B' ?s"
  proof -
    have "\<exists>d. heap ?s p' = Some d \<and> c_fd d = fd' \<and> client_ok B' ?s d" if e: "(fd', p') \<in> set ?cs" for fd' p'
    proof (cases "(fd', p') = (fd, p)")
      case True
      have "client_ok B' ?s c'" using c'(2) by (simp add: client_ok_def load_def)
      then show ?thesis using True c' by simp
    next
      case False
      from inv_client [OF i e] obtain d where "heap s p' = Some d" "c_fd d = fd'" "client_ok B s d" by blast
      with other [OF e False] ok show ?thesis by auto
    qed
    then show ?thesis using i by (fastforce simp: inv_def clients_ok_def)
  qed
  ultimately show ?thesis
    using i c'(3) by (auto simp: inv_def procs_ok_def queue_ok_def fds_ok_def misc_ok_def log_ok_def load_def)
qed

lemma queue_write_inv:
  assumes i: "inv B s" and p: "(fd, p) \<in> set (list_entries (clients s))"
    and m: "msg_ok m" and B: "B < queue_room"
  shows "safe (\<lambda>s'. inv (B + 1) s' \<and> frame s s' \<and> processes s' = processes s \<and> queue s' = queue s \<and>
    parallel s' = parallel s) (queue_write (Some p) m s)"
proof -
  obtain c where c: "heap s p = Some c" "c_fd c = fd" "client_ok B s c" "client_at p s = Inr c"
    using inv_client [OF i p] by blast
  obtain wb where wb: "push_write_data (c_writebuf c) m = Inr wb" "wb_inv wb" "can_write wb"
      "has_write_data wb" "wb_count wb = wb_count (c_writebuf c) + 1"
    using wb_count_push [of "c_writebuf c" m] c(3) m B by (auto simp: client_ok_def)
  let ?c = "c\<lparr>c_writebuf := wb\<rparr>"
  have step: "safe (\<lambda>s'. inv (B + 1) s' \<and> frame t s' \<and> processes s' = processes t \<and> queue s' = queue t \<and>
      parallel s' = parallel t)
      (bindE (poll_list_lookup fd (set_client p ?c t)) (\<lambda>entry.
          case entry of None \<Rightarrow> Inr (set_client p ?c t)
          | Some i \<Rightarrow> poll_set_events i (\<lambda>e. e OR POLLOUT) (set_client p ?c t)))"
    if t: "inv B t" "frame s t" "heap t = heap s" "processes t = processes s" "queue t = queue s" for t
  proof -
    have pt: "(fd, p) \<in> set (list_entries (clients t))" using p t(2) by (simp add: frame_def)
    have ct: "heap t p = Some c" using c t(3) by simp
    have ok: "client_ok (B + 1) t ?c"
      using c(3) wb t by (auto simp: client_ok_def load_def rb_small_def frame_def)
    let ?t = "set_client p ?c t"
    have pi: "poll_inv ?t" using t(1) by (simp add: inv_def polls_ok_def)
    then show ?thesis
    proof (cases rule: poll_list_lookup_spec [of ?t fd])
      case absent
      then have False using t(1) pt by (fastforce simp: inv_def polls_ok_def entry_ok_def)
      then show ?thesis ..
    next
      case (present j)
      let ?e = "poll_entries t ! j"
      obtain l where l: "poll_set_events (int j) (\<lambda>e. e OR POLLOUT) ?t = Inr (?t\<lparr>poll_list := l\<rparr>)"
          "poll_inv (?t\<lparr>poll_list := l\<rparr>)"
          "poll_entries (?t\<lparr>poll_list := l\<rparr>) = (poll_entries t)[j := ?e\<lparr>pf_events := pf_events ?e OR POLLOUT\<rparr>]"
        using poll_set_events_ok [OF pi, of j "\<lambda>e. e OR POLLOUT"] present by auto
      have eq: "poll_entries (?t\<lparr>poll_list := l\<rparr>) = poll_entries (t\<lparr>poll_list := l\<rparr>)"
        "poll_inv (?t\<lparr>poll_list := l\<rparr>) = poll_inv (t\<lparr>poll_list := l\<rparr>)"
        by (simp_all add: poll_entries_def poll_inv_def set_client_def)
      have "inv (B + 1) (t\<lparr>heap := (heap t)(p := Some ?c), poll_list := l\<rparr>)"
        using present l c(2) ok wb(4)
        by (intro inv_client_update [OF t(1) pt ct, where j = j and ev = "pf_events ?e OR POLLOUT"])
          (auto simp: eq [symmetric])
      moreover have "t\<lparr>heap := (heap t)(p := Some ?c), poll_list := l\<rparr> = ?t\<lparr>poll_list := l\<rparr>"
        by (simp add: set_client_def)
      moreover have "frame t (?t\<lparr>poll_list := l\<rparr>)"
        using ct present wb(4) l(3)
        by (auto simp: frame_def rel_fun_def option.rel_refl same_client_def map_update list_update_same_conv)
      ultimately show ?thesis using present(1) l(1) by simp
    qed
  qed
  have "safe (\<lambda>s'. inv (B + 1) s' \<and> frame s s' \<and> processes s' = processes s \<and> queue s' = queue s \<and>
    parallel s' = parallel s)
     (bindE (log_msg (''client '' @ show_int (c_fd c) @ '': sending reply '' @ cstr m) s) (\<lambda>s.
          bindE (push_write_data (c_writebuf c) m) (\<lambda>wb.
          let s = set_client p (c\<lparr>c_writebuf := wb\<rparr>) s in
          bindE (poll_list_lookup (c_fd c) s) (\<lambda>entry.
          case entry of
            None \<Rightarrow> Inr s
          | Some i \<Rightarrow> poll_set_events i (\<lambda>e. e OR POLLOUT) s))))"
  proof (rule safe_bindE [OF log_msg_inv [OF i]])
    fix t assume t: "inv B t \<and> frame s t \<and> heap t = heap s \<and> processes t = processes s \<and>
      queue t = queue s \<and> parallel t = parallel s"
    show "safe (\<lambda>s'. inv (B + 1) s' \<and> frame s s' \<and> processes s' = processes s \<and> queue s' = queue s \<and>
      parallel s' = parallel s)
     (bindE (push_write_data (c_writebuf c) m) (\<lambda>wb.
          let s = set_client p (c\<lparr>c_writebuf := wb\<rparr>) t in
          bindE (poll_list_lookup (c_fd c) s) (\<lambda>entry.
          case entry of
            None \<Rightarrow> Inr s
          | Some i \<Rightarrow> poll_set_events i (\<lambda>e. e OR POLLOUT) s)))"
      using step [of t] t by (auto simp: wb(1) c(2) Let_def elim!: safe_mono intro: frame_trans)
  qed
  then show ?thesis by (simp add: queue_write_def c(4))
qed

end
