(* ===== verification/Unix_Requests.thy ===== *)
theory Unix_Requests
  imports Unix_Messages
begin

section \<open>Processes and requests keep the invariant\<close>

text \<open>
  The operations of the Unix server that start and end processes and handle a request. Each
  lemma says that the operation does not crash, keeps the invariant with the given budget and
  leaves the rest alone.
\<close>

subsection \<open>Messages\<close>

lemma snprintf_msg_ok:
  assumes "snprintf len t = (m, used)" "0 \<le> used" "used < int len" "t \<noteq> []" "NUL \<notin> set t"
  shows "m = t @ [NUL]" "msg_ok m" "used = int (length t)"
  using assms by (auto simp: snprintf_def msg_ok_def strlen_def split: if_splits)

lemma send_started_inv:
  assumes i: "inv B s" and p: "(fd, p) \<in> set (list_entries (clients s))" and B: "B < queue_room"
  shows "safe (\<lambda>s'. inv (B + 1) s' \<and> frame s s' \<and> processes s' = processes s \<and> queue s' = queue s \<and>
    parallel s' = parallel s) (send_started_msg_to_client env (Some p) ident s)"
proof -
  define t where "t = sys (Sys_Call ''malloc'' (if os_malloc env (hist s) then 1 else 0)) s"
  have t: "inv B t" "frame s t" using inv_sys [OF i] frame_sys by (simp_all add: t_def)
  obtain m used where m: "snprintf (strlen ident + 4) (''S;'' @ cstr ident @ [NEWLINE]) = (m, used)"
    by fastforce
  have "safe (\<lambda>s'. inv (B + 1) s' \<and> frame s s' \<and> processes s' = processes s \<and> queue s' = queue s \<and>
    parallel s' = parallel s) (queue_write (Some p) m t)" if "used = int (strlen ident + 4) - 1"
  proof (rule safe_mono [OF queue_write_inv])
    show "inv B t" "(fd, p) \<in> set (list_entries (clients t))" "B < queue_room"
      using t p B by (auto simp: frame_def)
    show "msg_ok m" by (rule snprintf_msg_ok [OF m]) (use that in auto)
  qed (use t frame_trans in \<open>auto simp: t_def\<close>)
  then show ?thesis using m inv_shutdown [OF t(1)]
    by (auto simp: send_started_msg_to_client_def os_malloc_msg_def Let_def t_def [symmetric])
qed

lemma NUL_notin_msg_text: "NUL \<notin> set (msg_text ident ec cpu tmo out)"
  by (auto simp: msg_text_def NUL_notin_show)

lemma send_msg_inv:
  assumes i: "inv B s" and p: "(fd, p) \<in> set (list_entries (clients s))" and B: "B < queue_room"
  shows "safe (\<lambda>s'. inv (B + 1) s' \<and> frame s s' \<and> processes s' = processes s \<and> queue s' = queue s \<and>
    parallel s' = parallel s) (send_msg_to_client env (Some p) ident ec cpu tmo out s)"
proof -
  define t where "t = sys (Sys_Call ''malloc'' (if os_malloc env (hist s) then 1 else 0)) s"
  have t: "inv B t" "frame s t" using inv_sys [OF i] frame_sys by (simp_all add: t_def)
  let ?len = "strlen ident + 3 + 27 + strlen out + 1"
  obtain m used where m: "snprintf ?len (msg_text ident ec cpu tmo out) = (m, used)"
    by fastforce
  have "safe (\<lambda>s'. inv (B + 1) s' \<and> frame s s' \<and> processes s' = processes s \<and> queue s' = queue s \<and>
    parallel s' = parallel s) (queue_write (Some p) m t)" if "0 \<le> used" "used < int ?len"
  proof (rule safe_mono [OF queue_write_inv])
    show "inv B t" "(fd, p) \<in> set (list_entries (clients t))" "B < queue_room"
      using t p B by (auto simp: frame_def)
    show "msg_ok m"
      by (rule snprintf_msg_ok [OF m that]) (simp_all add: NUL_notin_msg_text, simp add: msg_text_def)
  qed (use t frame_trans in \<open>auto simp: t_def\<close>)
  then show ?thesis using m inv_shutdown [OF t(1)]
    by (auto simp: send_msg_to_client_def os_malloc_msg_def Let_def t_def [symmetric])
qed

subsection \<open>The start of a process\<close>

lemma copy_argv_ok:
  "i + n \<le> length argv \<Longrightarrow> i + n < length a \<Longrightarrow> \<exists>a'. copy_argv argv i n a = Inr a' \<and> length a' = length a"
proof (induction n arbitrary: i a)
  case (Suc n)
  from Suc.prems Suc.IH [of "i + 1" "a[i + 1 := Some (Some (argv ! i))]"] show ?case by simp
qed simp

lemma make_argv_ok:
  assumes "- 1 \<le> cnt" "cnt \<le> int (length argv)"
  obtains a where "make_argv cmd argv cnt = Inr a"
proof -
  have "\<exists>a'. copy_argv argv 0 (nat cnt) ((c_malloc (nat (cnt + 2)))[0 := Some (Some cmd), nat (cnt + 1) := Some None]) = Inr a' \<and> length a' = nat (cnt + 2)"
    using copy_argv_ok [of 0 "nat cnt" argv "(c_malloc (nat (cnt + 2)))[0 := Some (Some cmd), nat (cnt + 1) := Some None]"] assms
    by simp
  then show thesis using that assms by (auto simp: make_argv_def)
qed

lemma create_process_ok:
  assumes "req_ok r" "fork_ok env" "can_shutdown s" "r_args r = argv" "r_numargs r = argc"
  shows "safe (\<lambda>(pid, s'). 0 < pid \<and> pid < PID_LIMIT \<and> pid \<notin> set (live_pids (hist s)) \<and>
      (\<exists>c. s' = sys (Sys_Fork pid c) s))
    (create_process env cmd argc argv usestdin outfile tlim mlim s)"
proof -
  let ?cnt = "if usestdin then argc - 1 else argc"
  have "- 1 \<le> ?cnt" "?cnt \<le> int (length argv)" using assms by (auto simp: req_ok_def)
  then obtain a where "make_argv cmd argv ?cnt = Inr a" by (rule make_argv_ok)
  moreover have "os_fork env (hist s) = - 1 \<or> (0 < os_fork env (hist s) \<and> os_fork env (hist s) < PID_LIMIT \<and>
      os_fork env (hist s) \<notin> set (live_pids (hist s)))"
    using assms(2) by (simp add: fork_ok_def)
  ultimately show ?thesis using assms(3) by (auto simp: create_process_def Let_def)
qed

lemma live_pids_other: "upd_pids (Sys_Close fd) ps = ps" "upd_pids (Sys_Mkstemp t fd) ps = ps"
  by simp_all

lemma fds_needed:
  "inv B s \<Longrightarrow> x \<in> insert (server_sock s) (insert (cpipe0 s) (al.keys (clients s))) \<Longrightarrow>
     x \<in> set (open_fds (hist s)) \<and> 0 \<le> x"
  by (fastforce simp: inv_def fds_ok_def clients_ok_def al.keys_def)

lemma inv_start_process:
  assumes i: "inv B s" and pid: "0 < pid" "pid < PID_LIMIT" "pid \<notin> set (live_pids (hist s))"
    and fd: "fd = - 1 \<or> fd \<notin> set (open_fds (hist s))"
    and h: "h = hist s @ [Sys_Mkstemp tn fd, Sys_Fork pid c, Sys_Close fd]"
    and pr: "p_id pr = pid"
  obtains l where "list_append (processes s) pid pr = Inr l" "inv (B + 1) (s\<lparr>hist := h, processes := l\<rparr>)"
    "frame s (s\<lparr>hist := h, processes := l\<rparr>)" "list_entries l = list_entries (processes s) @ [(pid, pr)]"
proof -
  let ?p = "processes s"
  have ok: "al.ok ?p" "al.keys ?p = set (live_pids (hist s))"
    "\<forall>(pid, p) \<in> set (list_entries ?p). p_id p = pid \<and> 0 < pid \<and> pid < PID_LIMIT"
    using i by (simp_all add: inv_def procs_ok_def)
  obtain l where l: "list_append ?p pid pr = Inr l" "al.ok l"
      "list_entries l = list_entries ?p @ [(pid, pr)]" "al.keys l = insert pid (al.keys ?p)"
    using al.append_ok [OF ok(1), of pid pr] inv_procs_room [OF i] pid ok(2) by metis
  have hl: "live_pids h = pid # live_pids (hist s)"
    using pid by (simp add: h live_pids_def)
  have ho: "set (open_fds (hist s)) - {fd} \<subseteq> set (open_fds h)" by (auto simp: h open_fds_def)
  have "inv (B + 1) (s\<lparr>hist := h, processes := l, queue := queue s, parallel := parallel s\<rparr>)"
  proof (rule inv_update [OF i])
    show "insert (server_sock s) (insert (cpipe0 s) (al.keys (clients s))) \<subseteq> set (open_fds h)"
      using ho fds_needed [OF i] fd by fastforce
  qed (use i l ok hl pid pr in \<open>auto simp: h inv_def queue_ok_def misc_ok_def load_def\<close>)
  moreover have "frame s (s\<lparr>hist := h, processes := l\<rparr>)"
    by (simp add: frame_def h rel_fun_def option.rel_refl)
  ultimately show thesis using that [OF l(1)] l(3) by simp
qed

lemma run_request_inv:
  assumes i: "inv B s" and r: "req_ok r" and os: "os_ok env" and B: "B + 1 < queue_room"
  shows "safe (\<lambda>s'. inv (B + 2) s' \<and> frame s s' \<and> queue s' = queue s \<and> parallel s' = parallel s \<and>
    length (list_entries (processes s')) \<le> length (list_entries (processes s)) + 1) (run_request env r s)"
proof -
  have cl: "al.ok (clients s)" using i by (simp add: inv_def clients_ok_def)
  show ?thesis
  proof (cases rule: al.lookup_cases [OF cl, of "r_key r"])
    case 1
    then show ?thesis using inv_mono [OF i, of "B + 2"] by (simp add: run_request_def)
  next
    case (2 p)
    define t where "t = sys (Sys_Mkstemp (current_dir s @ ''/why3'' @ fst (os_mkstemp env (hist s))) (snd (os_mkstemp env (hist s)))) s"
    let ?fd = "snd (os_mkstemp env (hist s))" and ?out = "current_dir s @ ''/why3'' @ fst (os_mkstemp env (hist s)) @ [NUL]"
    have fd: "?fd = - 1 \<or> ?fd \<notin> set (open_fds (hist s))" using os by (auto simp: os_ok_def mkstemp_ok_def)
    have ct: "can_shutdown t" using inv_can_shutdown [OF i] by (simp add: t_def)
    have lt: "live_pids (hist t) = live_pids (hist s)" by (simp add: t_def)
    let ?P = "\<lambda>s'. inv (B + 2) s' \<and> frame s s' \<and> queue s' = queue s \<and> parallel s' = parallel s \<and>
      length (list_entries (processes s')) \<le> length (list_entries (processes s)) + 1"
    have "safe ?P (bindE (create_process env (r_cmd r) (r_numargs r) (r_args r) (r_usestdin r) ?fd
                  (r_timeout r) (r_memlimit r) t) (\<lambda>(pid, s).
         let s = sys (Sys_Close ?fd) s in
         bindE (list_append (processes s) pid
                  \<lparr>p_client_key = r_key r, p_task_id = r_id r, p_outfile = ?out, p_id = pid\<rparr>) (\<lambda>l.
         send_started_msg_to_client env (Some p) (r_id r) (s\<lparr>processes := l\<rparr>))))"
    proof (rule safe_bindE [OF create_process_ok [OF r _ ct refl refl]], use os in \<open>simp add: os_ok_def\<close>, clarify)
      fix pid u c
      assume pid: "0 < pid" "pid < PID_LIMIT" "pid \<notin> set (live_pids (hist t))"
      let ?u = "sys (Sys_Close ?fd) (sys (Sys_Fork pid c) t)"
      let ?pr = "\<lparr>p_client_key = r_key r, p_task_id = r_id r, p_outfile = ?out, p_id = pid\<rparr>"
      have hu: "hist ?u = hist s @ [Sys_Mkstemp (current_dir s @ ''/why3'' @ fst (os_mkstemp env (hist s))) ?fd, Sys_Fork pid c, Sys_Close ?fd]"
        by (simp add: t_def)
      obtain l where l: "list_append (processes s) pid ?pr = Inr l"
          "inv (B + 1) (s\<lparr>hist := hist ?u, processes := l\<rparr>)" "frame s (s\<lparr>hist := hist ?u, processes := l\<rparr>)"
          "list_entries l = list_entries (processes s) @ [(pid, ?pr)]"
        using inv_start_process [OF i pid(1,2) _ fd hu, of ?pr] pid(3) by (auto simp: lt)
      have eq: "?u\<lparr>processes := l\<rparr> = s\<lparr>hist := hist ?u, processes := l\<rparr>" by (simp add: t_def sys_def)
      have "safe ?P (send_started_msg_to_client env (Some p) (r_id r) (?u\<lparr>processes := l\<rparr>))"
        unfolding eq
        by (rule safe_mono [OF send_started_inv [OF l(2)]])
          (use 2 B l(3,4) frame_trans [OF l(3)] in \<open>auto\<close>)
      then show "safe ?P (let s = ?u in bindE (list_append (processes s) pid ?pr) (\<lambda>l.
         send_started_msg_to_client env (Some p) (r_id r) (s\<lparr>processes := l\<rparr>)))"
        using l(1) by (simp add: Let_def t_def)
    qed
    then show ?thesis using 2(1)
      by (simp add: run_request_def open_temp_file_def t_def Let_def split_beta)
  qed
qed

subsection \<open>The end of processes\<close>

lemma inv_wait:
  assumes i: "inv B s" and pid: "pid \<in> set (live_pids (hist s))"
  obtains l v where "list_lookup (processes s) pid = Inr (Some v)" "list_remove (processes s) pid = Inr l"
    "(pid, v) \<in> set (list_entries (processes s))" "set (list_entries l) = set (list_entries (processes s)) - {(pid, v)}"
    "length (list_entries l) + 1 = length (list_entries (processes s))" "0 < B"
    "inv (B - 1) (s\<lparr>hist := hist s @ [Sys_Wait pid], processes := l\<rparr>)"
    "frame s (s\<lparr>hist := hist s @ [Sys_Wait pid], processes := l\<rparr>)"
proof -
  let ?p = "processes s"
  have ok: "al.ok ?p" "al.keys ?p = set (live_pids (hist s))"
    "\<forall>(pid, p) \<in> set (list_entries ?p). p_id p = pid \<and> 0 < pid \<and> pid < PID_LIMIT" "load s \<le> B"
    using i by (simp_all add: inv_def procs_ok_def)
  obtain v where v: "list_lookup ?p pid = Inr (Some v)" "(pid, v) \<in> set (list_entries ?p)"
    using al.lookup_cases [OF ok(1), of pid] ok(2) pid by metis
  obtain l where l: "list_remove ?p pid = Inr l" "al.ok l" "set (list_entries l) = {e \<in> set (list_entries ?p). fst e \<noteq> pid}"
      "al.keys l = al.keys ?p - {pid}"
    by (rule al.remove_ok [OF ok(1), of pid])
  have len: "length (list_entries l) + 1 = length (list_entries ?p)"
    using al.remove_length [OF ok(1) _ l(1)] ok(2) pid by simp
  have B: "0 < B" using len ok(4) by (simp add: load_def)
  have "distinct (map fst (list_entries ?p))" using ok(1) by (simp add: al.ok_def)
  then have "fst e = pid \<longleftrightarrow> e = (pid, v)" if "e \<in> set (list_entries ?p)" for e
    using eq_key_imp_eq_value [of "list_entries ?p" pid v "snd e"] that v(2) by (cases e) auto
  then have "set (list_entries l) = set (list_entries ?p) - {(pid, v)}"
    unfolding l(3) by auto
  moreover have "inv (B - 1) (s\<lparr>hist := hist s @ [Sys_Wait pid], processes := l, queue := queue s, parallel := parallel s\<rparr>)"
    by (rule inv_update [OF i]) (use i l ok len B in \<open>auto simp: inv_def queue_ok_def misc_ok_def load_def fds_ok_def\<close>)
  moreover have "frame s (s\<lparr>hist := hist s @ [Sys_Wait pid], processes := l\<rparr>)"
    by (simp add: frame_def rel_fun_def option.rel_refl)
  ultimately show thesis using that [OF v(1) l(1) v(2) _ len B] by simp
qed

lemma inv_wait_none: "inv B s \<Longrightarrow> pid \<le> 0 \<Longrightarrow> inv B (sys (Sys_Wait pid) s)"
proof -
  assume i: "inv B s" and pid: "pid \<le> 0"
  then have "\<forall>x \<in> fst ` set (list_entries (processes s)). x \<noteq> pid" by (auto simp: inv_def procs_ok_def)
  then have "\<forall>x \<in> set (live_pids (hist s)). x \<noteq> pid"
    using i unfolding inv_def procs_ok_def al.keys_def by blast
  then have eq: "live_pids (hist s @ [Sys_Wait pid]) = live_pids (hist s)" by simp
  have "inv B (s\<lparr>hist := hist s @ [Sys_Wait pid], processes := processes s, queue := queue s, parallel := parallel s\<rparr>)"
    by (rule inv_update [OF i], unfold eq) (use i in \<open>auto simp: inv_def procs_ok_def queue_ok_def misc_ok_def load_def fds_ok_def\<close>)
  then show ?thesis by (simp add: sys_def)
qed

lemma child_events_inv:
  assumes "inv B s" "os_ok env" "B \<le> queue_room" "length (list_entries (processes s)) < n"
  shows "safe (\<lambda>s'. inv B s' \<and> frame s s' \<and> queue s' = queue s \<and> parallel s' = parallel s) (child_events env n s)"
  using assms
proof (induction n arbitrary: s)
  case (Suc n)
  obtain pid st us where w: "os_wait3 env (hist s) = (pid, st, us)" by (metis prod_cases3)
  obtain ec tmo where ei: "exit_info st = (ec, tmo)" by fastforce
  show ?case
  proof (cases "pid \<le> 0")
    case True
    have "frame s (sys (Sys_Wait pid) s)" by (simp add: frame_def sys_def rel_fun_def option.rel_refl)
    then show ?thesis using w True inv_wait_none [OF Suc.prems(1) True] by simp
  next
    case False
    then have "pid \<in> set (live_pids (hist s))"
      using w Suc.prems(2) unfolding os_ok_def wait_ok_def by (auto dest!: spec [of _ "hist s"])
    then obtain l v where l: "list_lookup (processes s) pid = Inr (Some v)" "list_remove (processes s) pid = Inr l"
        "length (list_entries l) + 1 = length (list_entries (processes s))" "0 < B"
        "inv (B - 1) (s\<lparr>hist := hist s @ [Sys_Wait pid], processes := l\<rparr>)"
        "frame s (s\<lparr>hist := hist s @ [Sys_Wait pid], processes := l\<rparr>)"
      using inv_wait [OF Suc.prems(1)] by metis
    let ?s = "s\<lparr>hist := hist s @ [Sys_Wait pid], processes := l\<rparr>"
    have rec: "safe (\<lambda>s'. inv B s' \<and> frame s s' \<and> queue s' = queue s \<and> parallel s' = parallel s) (child_events env n t)"
      if "inv B t" "frame ?s t" "queue t = queue ?s" "parallel t = parallel ?s" "processes t = l" for t
      using that Suc.prems l(3,6) by (intro safe_mono [OF Suc.IH [of t]]) (auto intro: frame_trans)
    have cl: "al.ok (clients s)" using Suc.prems by (simp add: inv_def clients_ok_def)
    have "safe (\<lambda>s'. inv B s' \<and> frame s s' \<and> queue s' = queue s \<and> parallel s' = parallel s)
       (bindE (list_lookup (clients ?s) (p_client_key v)) (\<lambda>client.
            bindE (case client of
                     None \<Rightarrow> Inr ?s
                   | Some p \<Rightarrow> send_msg_to_client env (Some p) (p_task_id v) ec us tmo (p_outfile v) ?s) (\<lambda>s.
            child_events env n s)))"
    proof (cases rule: al.lookup_cases [OF cl, of "p_client_key v"])
      case 1
      with rec [of ?s] inv_mono [OF l(5), of B] show ?thesis by simp
    next
      case (2 p)
      have "safe (\<lambda>s'. inv (B - 1 + 1) s' \<and> frame ?s s' \<and> processes s' = processes ?s \<and> queue s' = queue ?s \<and>
          parallel s' = parallel ?s) (send_msg_to_client env (Some p) (p_task_id v) ec us tmo (p_outfile v) ?s)"
        by (rule send_msg_inv [OF l(5)]) (use 2 Suc.prems(3) l(4) in auto)
      with 2 l(4) rec show ?thesis by (auto intro!: safe_bindE)
    qed
    then show ?thesis using w ei False l(1,2) by (simp add: sys_def Let_def)
  qed
qed simp

lemma handle_child_events_inv:
  assumes i: "inv B s" and "os_ok env" "B \<le> queue_room"
  shows "safe (\<lambda>s'. inv B s' \<and> frame s s' \<and> queue s' = queue s \<and> parallel s' = parallel s) (handle_child_events env s)"
proof -
  have "list_length (processes s) = int (length (list_entries (processes s)))"
    using i by (intro al.length_law) (simp add: inv_def procs_ok_def al.ok_def)
  then show ?thesis unfolding handle_child_events_def by (intro child_events_inv) (use assms in auto)
qed

subsection \<open>Requests\<close>

lemma handle_queue_remove_inv:
  assumes i: "inv B s" and k: "r_key r \<in> al.keys (clients s)" and B: "B < queue_room"
  shows "safe (\<lambda>s'. inv (B + 1) s' \<and> frame s s' \<and> processes s' = processes s \<and> queue s' = queue s \<and>
    parallel s' = parallel s) (handle_queue_remove env r s)"
proof -
  have cl: "al.ok (clients s)" using i by (simp add: inv_def clients_ok_def)
  obtain p where "list_lookup (clients s) (r_key r) = Inr (Some p)" "(r_key r, p) \<in> set (list_entries (clients s))"
    using al.lookup_cases [OF cl, of "r_key r"] k by metis
  with send_msg_inv [OF i _ B] show ?thesis by (simp add: handle_queue_remove_def)
qed

lemma each_request_inv:
  assumes "inv B s" "\<forall>r \<in> set rs. r_key r \<in> al.keys (clients s)" "B + length rs \<le> queue_room"
  shows "safe (\<lambda>s'. inv (B + length rs) s' \<and> frame s s' \<and> processes s' = processes s \<and> queue s' = queue s \<and>
    parallel s' = parallel s) (each_request (Some (handle_queue_remove env)) rs s)"
  using assms
proof (induction rs arbitrary: B s)
  case (Cons r rs)
  have "safe (\<lambda>s'. inv (B + length (r # rs)) s' \<and> frame s s' \<and> processes s' = processes s \<and> queue s' = queue s \<and>
      parallel s' = parallel s) (bindE (handle_queue_remove env r s) (each_request (Some (handle_queue_remove env)) rs))"
  proof (rule safe_bindE [OF handle_queue_remove_inv])
    fix t assume t: "inv (B + 1) t \<and> frame s t \<and> processes t = processes s \<and> queue t = queue s \<and> parallel t = parallel s"
    then have "clients t = clients s" by (simp add: frame_def)
    with t Cons show "safe (\<lambda>s'. inv (B + length (r # rs)) s' \<and> frame s s' \<and> processes s' = processes s \<and> queue s' = queue s \<and>
      parallel s' = parallel s) (each_request (Some (handle_queue_remove env)) rs t)"
      by (intro safe_mono [OF Cons.IH [of "B + 1" t]]) (auto intro: frame_trans)
  qed (use Cons in auto)
  then show ?case by simp
qed simp

lemma inv_queue_filter:
  assumes i: "inv B s" and q: "queue_inv q" "queue_list q = filter P (queue_list (queue s))"
  shows "inv (B - 2 * length (filter (\<lambda>r. \<not> P r) (queue_list (queue s)))) (s\<lparr>queue := q\<rparr>)"
proof -
  let ?k = "length (filter (\<lambda>r. \<not> P r) (queue_list (queue s)))"
  have k: "length (filter P (queue_list (queue s))) + ?k = length (queue_list (queue s))"
    by (rule sum_length_filter_compl)
  then have "2 * ?k \<le> B" using i by (simp add: inv_def load_def)
  then have "inv (B - 2 * ?k) (s\<lparr>hist := hist s, processes := processes s, queue := q, parallel := parallel s\<rparr>)"
    by (intro inv_update [OF i]) (use i q k in \<open>auto simp: inv_def procs_ok_def queue_ok_def fds_ok_def misc_ok_def load_def\<close>)
  then show ?thesis by simp
qed

lemma kill_processes_inv:
  assumes i: "inv B s"
  shows "safe (\<lambda>s'. inv B s' \<and> frame s s' \<and> processes s' = processes s \<and> queue s' = queue s \<and>
    parallel s' = parallel s \<and> heap s' = heap s) (kill_processes unix_kill key ident s)"
proof -
  let ?es = "map unix_kill (filter (task_matches key ident) (map snd (list_entries (processes s))))"
  have "list_all harmless ?es" by (simp add: list_all_iff unix_kill_def)
  with inv_harmless [OF i, of ?es] frame_harmless [of ?es s] i show ?thesis
    by (subst kill_processes_spec) (simp_all add: inv_def procs_ok_def al.ok_def)
qed

lemma interrupt_inv:
  assumes i: "inv B s" and B: "B \<le> 2 ^ 29"
  shows "safe (\<lambda>s'. inv B s' \<and> frame s s' \<and> parallel s' = parallel s)
    (bindE (remove_from_queue key (Some ident) (Some (handle_queue_remove env)) (queue s) s) (\<lambda>(q, s).
          kill_processes unix_kill key (Some ident) (s\<lparr>queue := q\<rparr>)))"
proof -
  let ?rs = "filter (matches key (Some ident)) (queue_list (queue s))"
  have qi: "queue_inv (queue s)" and ql: "2 * length (queue_list (queue s)) \<le> B"
    and keys: "\<forall>r \<in> set ?rs. r_key r \<in> al.keys (clients s)"
    using i by (auto simp: inv_def queue_ok_def load_def)
  have len: "length ?rs \<le> length (queue_list (queue s))" by simp
  obtain q where q: "queue_inv q" "queue_list q = filter (\<lambda>r. \<not> matches key (Some ident) r) (queue_list (queue s))"
    "\<And>s'. remove_from_queue key (Some ident) (Some (handle_queue_remove env)) (queue s) s' =
       bindE (each_request (Some (handle_queue_remove env)) ?rs s') (\<lambda>s. Inr (q, s))"
    using remove_from_queue_list [OF qi, of key "Some ident" "Some (handle_queue_remove env)"] ql B by fastforce
  have "safe (\<lambda>s'. inv (B + length ?rs) s' \<and> frame s s' \<and> processes s' = processes s \<and> queue s' = queue s \<and>
    parallel s' = parallel s) (each_request (Some (handle_queue_remove env)) ?rs s)"
    by (rule each_request_inv [OF i keys]) (use ql B len in \<open>simp del: length_filter_le\<close>)
  moreover have "safe (\<lambda>s'. inv B s' \<and> frame s s' \<and> parallel s' = parallel s)
      (kill_processes unix_kill key (Some ident) (t\<lparr>queue := q\<rparr>))"
    if t: "inv (B + length ?rs) t" "frame s t" "queue t = queue s" "parallel t = parallel s" for t
  proof -
    have "inv (B + length ?rs - 2 * length ?rs) (t\<lparr>queue := q\<rparr>)"
      using inv_queue_filter [OF t(1) q(1), of "\<lambda>r. \<not> matches key (Some ident) r"] q(2) t(3) by simp
    then have "inv B (t\<lparr>queue := q\<rparr>)" by (rule inv_mono) simp
    moreover have "frame t (t\<lparr>queue := q\<rparr>)" by (simp add: frame_def rel_fun_def option.rel_refl)
    ultimately show ?thesis using t
      by (intro safe_mono [OF kill_processes_inv]) (auto intro: frame_trans)
  qed
  ultimately show ?thesis by (simp add: q(3) bindE_assoc) (erule safe_bindE, blast)
qed

lemma handle_request_inv:
  assumes i: "inv B s" and p: "(key, p) \<in> set (list_entries (clients s))" and os: "os_ok env"
    and r: "r_type r = REQ_RUN \<Longrightarrow> req_ok r" "r_key r = key" and B: "B \<le> 2 ^ 29"
  shows "safe (\<lambda>s'. inv (B + 2) s' \<and> frame s s' \<and> parallel s' = parallel s) (handle_request env p key r s)"
proof (cases "r_type r")
  case REQ_RUN
  show ?thesis
  proof (cases "list_length (processes s) < parallel s")
    case True
    with REQ_RUN B show ?thesis
      by (auto simp: handle_request_def intro!: safe_mono [OF run_request_inv [OF i r(1) os]])
  next
    case False
    have "length (queue_list (queue s)) < queue_room" "queue_inv (queue s)"
      using i B by (auto simp: inv_def load_def queue_ok_def)
    then obtain q where q: "queue_push (queue s) r = Inr q" "queue_inv q" "queue_list q = queue_list (queue s) @ [r]"
      using rq.push_law by metis
    have "key \<in> al.keys (clients s)" using p by (force simp: al.keys_def)
    then have "inv (B + 2) (s\<lparr>hist := hist s, processes := processes s, queue := q, parallel := parallel s\<rparr>)"
      by (intro inv_update [OF i])
        (use i q r REQ_RUN in \<open>auto simp: inv_def procs_ok_def queue_ok_def fds_ok_def misc_ok_def load_def\<close>)
    moreover have "frame s (s\<lparr>queue := q\<rparr>)" by (simp add: frame_def rel_fun_def option.rel_refl)
    ultimately show ?thesis using REQ_RUN False q(1) by (simp add: handle_request_def)
  qed
next
  case REQ_INTERRUPT
  obtain c where c: "client_at p s = Inr c" using inv_client [OF i p] by blast
  have "safe (\<lambda>s'. inv (B + 2) s' \<and> frame s s' \<and> parallel s' = parallel s)
      (bindE (remove_from_queue key (Some (r_id r)) (Some (handle_queue_remove env)) (queue t) t) (\<lambda>(q, s).
          kill_processes unix_kill key (Some (r_id r)) (s\<lparr>queue := q\<rparr>)))"
    if "inv B t" "frame s t" "parallel t = parallel s" for t
    using that by (intro safe_mono [OF interrupt_inv [OF that(1) B]]) (auto intro: frame_trans inv_mono)
  then show ?thesis using REQ_INTERRUPT c
    by (auto simp: handle_request_def intro!: safe_bindE [OF log_msg_inv [OF i]])
qed

end
