(* ===== verification/Unix_Lines.thy ===== *)
theory Unix_Lines
  imports Unix_Requests
begin

section \<open>The input of a client, line by line\<close>

text \<open>
  \<open>handle_msg\<close> is equivalent to splitting the read buffer at its newlines and handling the
  complete lines one after the other, in order; the rest stays in the buffer. Since splitting
  composes with concatenation, it does not matter in which pieces the input arrives.
\<close>

subsection \<open>Lines\<close>

function split_lines :: "string \<Rightarrow> string list \<times> string" where
  "split_lines bs =
     (case dropWhile (\<lambda>c. c \<noteq> NEWLINE) bs of
        [] \<Rightarrow> ([], bs)
      | _ # r \<Rightarrow> (let (ls, rest) = split_lines r in (takeWhile (\<lambda>c. c \<noteq> NEWLINE) bs # ls, rest)))"
  by pat_completeness auto
termination
  by (relation "measure length") (simp, metis in_measure impossible_Cons le_less_linear length_dropWhile_le order_trans)

declare split_lines.simps [simp del]

lemma split_lines_none: "NEWLINE \<notin> set bs \<Longrightarrow> split_lines bs = ([], bs)"
proof -
  assume "NEWLINE \<notin> set bs"
  then have d: "dropWhile (\<lambda>c. c \<noteq> NEWLINE) bs = []" by (auto simp: dropWhile_eq_Nil_conv)
  show ?thesis unfolding split_lines.simps [of bs] d by simp
qed

lemma split_lines_cons:
  assumes "NEWLINE \<notin> set l"
  shows "split_lines (l @ NEWLINE # r) = (l # fst (split_lines r), snd (split_lines r))"
proof -
  have "dropWhile (\<lambda>c. c \<noteq> NEWLINE) (l @ NEWLINE # r) = NEWLINE # r"
    "takeWhile (\<lambda>c. c \<noteq> NEWLINE) (l @ NEWLINE # r) = l"
    using assms by (auto simp: dropWhile_append takeWhile_append)
  then show ?thesis by (subst split_lines.simps) (simp add: split_beta)
qed

lemma split_lines_cases:
  obtains (rest) "NEWLINE \<notin> set bs"
    | (line) l r where "bs = l @ NEWLINE # r" "NEWLINE \<notin> set l"
  by (metis split_list_first)

lemma split_lines_induct [case_names rest line]:
  assumes "\<And>bs. NEWLINE \<notin> set bs \<Longrightarrow> P bs"
    and "\<And>l r. NEWLINE \<notin> set l \<Longrightarrow> P r \<Longrightarrow> P (l @ NEWLINE # r)"
  shows "P bs"
proof (induction "length bs" arbitrary: bs rule: less_induct)
  case less
  show ?case by (cases bs rule: split_lines_cases) (use less assms in auto)
qed

text \<open>The lines and the rest are the input.\<close>

lemma split_lines_concat:
  "concat (map (\<lambda>l. l @ [NEWLINE]) (fst (split_lines bs))) @ snd (split_lines bs) = bs"
  by (induction bs rule: split_lines_induct) (simp_all add: split_lines_none split_lines_cons)

lemma split_lines_rest: "NEWLINE \<notin> set (snd (split_lines bs))"
  by (induction bs rule: split_lines_induct) (simp_all add: split_lines_none split_lines_cons)

lemma split_lines_length: "length (fst (split_lines bs)) + length (snd (split_lines bs)) \<le> length bs"
  by (induction bs rule: split_lines_induct) (simp_all add: split_lines_none split_lines_cons)

lemma split_lines_append:
  "split_lines (a @ b) = (fst (split_lines a) @ fst (split_lines (snd (split_lines a) @ b)),
     snd (split_lines (snd (split_lines a) @ b)))"
  by (induction a rule: split_lines_induct) (simp_all add: split_lines_none split_lines_cons)

text \<open>A client that has no newline in its buffer completes at most one line per byte.\<close>

lemma split_lines_count: "length (fst (split_lines bs)) = count_list bs NEWLINE"
  by (induction bs rule: split_lines_induct) (auto simp: split_lines_none split_lines_cons count_list_0_iff)

lemma split_lines_new: "NEWLINE \<notin> set a \<Longrightarrow> length (fst (split_lines (a @ b))) \<le> length b"
proof -
  assume "NEWLINE \<notin> set a"
  then have "length (fst (split_lines (a @ b))) = count_list b NEWLINE"
    by (simp add: split_lines_count count_list_0_iff)
  then show ?thesis by (simp add: count_le_length)
qed

subsection \<open>The loop\<close>

definition handle_line :: "os \<Rightarrow> ptr \<Rightarrow> int \<Rightarrow> string \<Rightarrow> unix_server \<Rightarrow> unix_server res" where
  "handle_line env p key line s =
     bindE (log_msg (''client '' @ show_int key @ '': received query '' @ cstr line) s) (\<lambda>s.
     let (r, par) = parse_fields (split_semi line) key (parallel s); s = s\<lparr>parallel := par\<rparr> in
     case r of None \<Rightarrow> Inr s | Some r \<Rightarrow> handle_request env p key r s)"

fun handle_lines :: "os \<Rightarrow> ptr \<Rightarrow> int \<Rightarrow> string list \<Rightarrow> unix_server \<Rightarrow> unix_server res" where
  "handle_lines env p key [] s = Inr s"
| "handle_lines env p key (l # ls) s = bindE (handle_line env p key l s) (handle_lines env p key ls)"

lemma handle_lines_append:
  "handle_lines env p key (ls @ ls') s = bindE (handle_lines env p key ls s) (handle_lines env p key ls')"
proof (induction ls arbitrary: s)
  case (Cons l ls)
  then have "handle_lines env p key (ls @ ls') = (\<lambda>s. bindE (handle_lines env p key ls s) (handle_lines env p key ls'))"
    by blast
  then show ?case by (simp add: bindE_assoc)
qed simp

lemma scan_newline_spec:
  assumes "holds buf bs" "i \<le> length bs"
  shows "scan_newline buf (int (length bs)) (int i) =
    Inr (int (i + length (takeWhile (\<lambda>c. c \<noteq> NEWLINE) (drop i bs))))"
  using assms(2)
proof (induction "length bs - i" arbitrary: i)
  case 0
  then show ?case by (subst scan_newline.simps) simp
next
  case (Suc n)
  then have i: "i < length bs" by simp
  then have d: "drop i bs = bs ! i # drop (Suc i) bs" by (simp add: Cons_nth_drop_Suc)
  have "scan_newline buf (int (length bs)) (int (Suc i)) =
      Inr (int (Suc i + length (takeWhile (\<lambda>c. c \<noteq> NEWLINE) (drop (Suc i) bs))))"
    using Suc by (intro Suc.hyps(1)) simp_all
  then show ?case using line_read [OF assms(1) i] i d
    by (subst scan_newline.simps) (simp add: add.commute)
qed

lemma holds_drop_take:
  assumes "holds buf bs" "drop i bs = l @ r" "i \<le> length bs"
  shows "holds (drop i buf) l"
proof -
  have n: "i + length l \<le> length bs" using assms(2,3) by (metis add_le_cancel_left le_add1 length_append length_drop le_add_diff_inverse)
  have "buf ! (i + j) = Some (l ! j)" if "j < length l" for j
    using that assms(2,3) n holds_nth [OF assms(1), of "i + j"] by (metis nth_append nth_drop add_less_cancel_left order_less_le_trans)
  then show ?thesis using assms(1) n by (intro holdsI) (auto simp: holds_def)
qed

lemma handle_msg_loop_lines:
  assumes "holds buf bs" "i \<le> length bs"
  shows "handle_msg_loop env p key buf (int (length bs)) (int i) s =
    bindE (handle_lines env p key (fst (split_lines (drop i bs))) s)
      (\<lambda>s. Inr (int (length bs - length (snd (split_lines (drop i bs)))), s))"
  using assms(2)
proof (induction "length bs - i" arbitrary: i s rule: less_induct)
  case less
  show ?case
  proof (cases "i < length bs")
    case False
    with less.prems show ?thesis by (subst handle_msg_loop.simps) (simp add: split_lines_none)
  next
    case True
    note scan = scan_newline_spec [OF assms(1) less.prems]
    show ?thesis
    proof (cases "drop i bs" rule: split_lines_cases)
      case rest
      then have "takeWhile (\<lambda>c. c \<noteq> NEWLINE) (drop i bs) = drop i bs" by (auto simp: takeWhile_eq_all_conv)
      with scan True rest show ?thesis
        by (subst handle_msg_loop.simps) (simp add: split_lines_none)
    next
      case (line l r)
      then have tw: "takeWhile (\<lambda>c. c \<noteq> NEWLINE) (drop i bs) = l" by (auto simp: takeWhile_append)
      have n: "length bs = i + length l + 1 + length r"
        using arg_cong [OF line(1), of length] True by simp
      have dr: "drop (i + length l + 1) bs = r"
        using line(1) by (metis add.assoc append_eq_conv_conj drop_drop list.sel(3) tl_drop Suc_eq_plus1 drop_Suc add.commute)
      have h: "holds (drop i buf) l" by (rule holds_drop_take [OF assms(1) line(1) less.prems])
      have ll: "log_line (drop i buf) (int (length l)) = cstr l"
        using h by (simp add: log_line_def holds_def comp_def)
      note pr = parse_request_line [OF h]
      have sc: "scan_newline buf (int (length bs)) (int i) = Inr (int (i + length l))"
        "int i < int (length bs)" "int (i + length l) \<noteq> int (length bs)" "int (i + length l) - int i = int (length l)"
        using scan tw n by simp_all
      have IH: "handle_msg_loop env p key buf (int (length bs)) (int (i + length l) + 1) =
          (\<lambda>t. bindE (handle_lines env p key (fst (split_lines r)) t)
            (\<lambda>s. Inr (int (length bs - length (snd (split_lines r))), s)))"
        using less.hyps [of "i + length l + 1"] n dr by (intro ext) (simp add: add.commute)
      have fs: "fst (split_lines (drop i bs)) = l # fst (split_lines r)"
        "snd (split_lines (drop i bs)) = snd (split_lines r)"
        using line split_lines_cons by simp_all
      show ?thesis
        by (subst handle_msg_loop.simps)
          (simp only: fs handle_lines.simps sc if_True if_False bindE_simps nat_int ll pr IH handle_line_def bindE_assoc Let_def split_beta)
    qed
  qed
qed

end
