(* ===== verification/Unix_Clients.thy ===== *)
theory Unix_Clients
  imports Unix_Lines
begin

section \<open>Reading, writing, accepting and closing\<close>

text \<open>
  The operations of the event loop on one client keep the invariant. Between two of them no
  buffer holds a complete line (\<open>quiet\<close>), and the budget is two messages per byte received.
  \<open>pend\<close> counts the entries of the poll list that a pass still has to visit.
\<close>

unbundle bit_operations_syntax

subsection \<open>Lines\<close>

lemma parse_fields_ok:
  assumes "parse_fields fs key n = (r, par)" "0 < n" "n \<le> INT_MAX"
  shows "0 < par" "par \<le> INT_MAX" "r = Some q \<Longrightarrow> r_key q = key \<and> (r_type q = REQ_RUN \<longrightarrow> req_ok q)"
proof -
  have "atoi x \<le> INT_MAX" for x using to_int32_range by (simp add: atoi_def in_int_def)
  with assms show "0 < par" "par \<le> INT_MAX" "r = Some q \<Longrightarrow> r_key q = key \<and> (r_type q = REQ_RUN \<longrightarrow> req_ok q)"
    by (auto simp: parse_fields_def request_run_def request_interrupt_def req_ok_def split: list.splits if_splits)
qed

lemma handle_line_inv:
  assumes i: "inv B s" and p: "(key, p) \<in> set (list_entries (clients s))" and os: "os_ok env" and B: "B \<le> 2 ^ 29"
  shows "safe (\<lambda>s'. inv (B + 2) s' \<and> frame s s') (handle_line env p key line s)"
proof -
  have step: "safe (\<lambda>s'. inv (B + 2) s' \<and> frame s s')
      (let (r, par) = parse_fields (split_semi line) key (parallel t); s = t\<lparr>parallel := par\<rparr> in
       case r of None \<Rightarrow> Inr s | Some r \<Rightarrow> handle_request env p key r s)"
    if t: "inv B t" "frame s t" for t
  proof -
    obtain r par where r: "parse_fields (split_semi line) key (parallel t) = (r, par)" by fastforce
    note ok = parse_fields_ok [OF r]
    have par: "0 < parallel t" "parallel t \<le> INT_MAX" using t(1) by (simp_all add: inv_def misc_ok_def)
    have "inv B (t\<lparr>hist := hist t, processes := processes t, queue := queue t, parallel := par\<rparr>)"
      by (rule inv_update [OF t(1)])
        (use t(1) ok(1,2) [OF par] in \<open>auto simp: inv_def procs_ok_def queue_ok_def fds_ok_def load_def\<close>)
    then have u: "inv B (t\<lparr>parallel := par\<rparr>)" by simp
    have f: "frame s (t\<lparr>parallel := par\<rparr>)"
      by (rule frame_trans [OF t(2)]) (simp add: frame_def rel_fun_def option.rel_refl)
    show ?thesis
    proof (cases r)
      case None
      then show ?thesis using r u f by (auto intro: inv_mono)
    next
      case (Some q)
      have "safe (\<lambda>s'. inv (B + 2) s' \<and> frame s s') (handle_request env p key q (t\<lparr>parallel := par\<rparr>))"
        by (rule safe_mono [OF handle_request_inv [OF u _ os _ _ B]])
          (use ok(3) [OF par Some] p f frame_trans [OF f] in \<open>auto simp: frame_def\<close>)
      then show ?thesis using r Some by simp
    qed
  qed
  show ?thesis unfolding handle_line_def
    by (rule safe_bindE [OF log_msg_inv [OF i]]) (use step in blast)
qed

lemma handle_lines_inv:
  assumes "inv B s" "(key, p) \<in> set (list_entries (clients s))" "os_ok env" "B + 2 * length ls \<le> 2 ^ 29"
  shows "safe (\<lambda>s'. inv (B + 2 * length ls) s' \<and> frame s s') (handle_lines env p key ls s)"
  using assms
proof (induction ls arbitrary: B s)
  case (Cons l ls)
  have "safe (\<lambda>s'. inv (B + 2 * length (l # ls)) s' \<and> frame s s') (bindE (handle_line env p key l s) (handle_lines env p key ls))"
  proof (rule safe_bindE [OF handle_line_inv])
    fix t assume t: "inv (B + 2) t \<and> frame s t"
    then have "clients t = clients s" by (simp add: frame_def)
    with t Cons.prems show "safe (\<lambda>s'. inv (B + 2 * length (l # ls)) s' \<and> frame s s') (handle_lines env p key ls t)"
      by (intro safe_mono [OF Cons.IH [of "B + 2" t]]) (auto intro: frame_trans)
  qed (use Cons.prems in auto)
  then show ?case by simp
qed simp

subsection \<open>Quiet states\<close>

definition quiet :: "unix_server \<Rightarrow> bool" where
  "quiet s \<longleftrightarrow> (\<forall>(fd, p) \<in> set (list_entries (clients s)).
     NEWLINE \<notin> set (rb_bytes (c_readbuf (the (heap s p)))))"

definition good :: "unix_server \<Rightarrow> bool" where
  "good s \<longleftrightarrow> inv (2 * total_read (hist s)) s \<and> quiet s \<and> total_read (hist s) \<le> 2 ^ 28"

definition pend :: "nat \<Rightarrow> unix_server \<Rightarrow> nat" where
  "pend i s = length (poll_entries s) - i +
     length (filter (\<lambda>fd. fd = server_sock s) (drop i (map pf_fd (poll_entries s))))"

lemma inv_the_heap:
  "inv B s \<Longrightarrow> (fd, p) \<in> set (list_entries (clients s)) \<Longrightarrow> heap s p = Some (the (heap s p))"
  using inv_client [of B s fd p] by (metis option.sel)

lemma frame_quiet:
  assumes f: "frame s s'" and i: "inv B s" and q: "quiet s"
  shows "quiet s'"
proof -
  have "c_readbuf (the (heap s' p)) = c_readbuf (the (heap s p))" if "(fd, p) \<in> set (list_entries (clients s))" for fd p
    by (rule frame_heap_Some [OF f inv_the_heap [OF i that]]) (simp add: same_client_def)
  moreover have "clients s' = clients s" using f by (simp add: frame_def)
  ultimately show ?thesis using q by (auto simp: quiet_def)
qed

lemma keeps_pend: "keeps_polls s s' \<Longrightarrow> pend i s' = pend i s"
  unfolding pend_def keeps_polls_def by (metis length_map)

lemma pend_Suc: "i < length (poll_entries s) \<Longrightarrow> pend (Suc i) s < pend i s"
  using Cons_nth_drop_Suc [of i "map pf_fd (poll_entries s)", symmetric] by (auto simp: pend_def)

lemma frame_good:
  assumes "frame s s'" "good s" "inv (2 * total_read (hist s)) s'"
  shows "good s'"
  using assms frame_quiet [OF assms(1)] by (auto simp: good_def frame_def)

lemma rev_ok_Suc: "rev_ok i s \<Longrightarrow> rev_ok (Suc i) s"
  unfolding rev_ok_def using Suc_leD by blast

lemma rev_okD:
  assumes "rev_ok i s" "i \<le> j" "j < length (poll_entries s)"
  shows "pf_fd (poll_entries s ! j) = server_sock s \<Longrightarrow> pf_revents (poll_entries s ! j) \<in> {0, POLLIN}"
    "(pf_fd (poll_entries s ! j), p) \<in> set (list_entries (clients s)) \<Longrightarrow> heap s p = Some c \<Longrightarrow>
      pf_revents (poll_entries s ! j) AND POLLOUT \<noteq> 0 \<Longrightarrow> has_write_data (c_writebuf c)"
  using assms unfolding rev_ok_def by blast+

text \<open>What the handling of entry \<open>i\<close> of the poll list achieves.\<close>

definition entry_done :: "nat \<Rightarrow> unix_server \<Rightarrow> unix_server \<Rightarrow> bool" where
  "entry_done i s s' \<longleftrightarrow> good s' \<and> rev_ok (Suc i) s' \<and> pend (Suc i) s' < pend i s \<and> server_sock s' = server_sock s"

lemma entry_done_keeps:
  assumes "keeps_polls s s'" "rev_ok i s" "i < length (poll_entries s)" "good s'"
  shows "entry_done i s s'"
  unfolding entry_done_def keeps_pend [OF assms(1)]
  using keeps_polls_rev_ok [OF assms(1) rev_ok_Suc [OF assms(2)]] pend_Suc [OF assms(3)] assms(1,4)
  by (simp add: keeps_polls_def)

lemma entry_done_frame:
  assumes "frame s s'" "rev_ok i s" "i < length (poll_entries s)" "good s" "inv (2 * total_read (hist s)) s'"
  shows "entry_done i s s'"
  using entry_done_keeps [OF frame_keeps_polls] frame_good assms by metis

text \<open>Descriptors in the poll list are distinct, apart from disabled entries.\<close>

lemma distinct_filter_nth:
  assumes "distinct (filter P xs)" "i < length xs" "j < length xs" "xs ! i = xs ! j" "P (xs ! i)"
  shows "i = j"
  using assms
proof (induction xs arbitrary: i j)
  case (Cons x xs)
  show ?case
  proof (cases i; cases j)
    fix i' j' assume "i = Suc i'" "j = Suc j'"
    then show ?thesis using Cons.prems Cons.IH [of i' j'] by (auto split: if_splits)
  qed (use Cons.prems nth_mem [of _ xs] in \<open>auto split: if_splits\<close>)
qed simp

lemma inv_entry_unique:
  assumes i: "inv B s" and "j < length (poll_entries s)" "k < length (poll_entries s)"
    "pf_fd (poll_entries s ! j) = pf_fd (poll_entries s ! k)" "0 \<le> pf_fd (poll_entries s ! j)"
  shows "j = k"
  using distinct_filter_nth [of "\<lambda>fd. fd \<noteq> -1" "map pf_fd (poll_entries s)" j k] assms
  by (auto simp: inv_def polls_ok_def)

lemma inv_entry:
  assumes i: "inv B s" and p: "(fd, p) \<in> set (list_entries (clients s))"
  obtains j where "j < length (poll_entries s)" "pf_fd (poll_entries s ! j) = fd"
    "pf_events (poll_entries s ! j) AND POLLOUT \<noteq> 0 \<longleftrightarrow> has_write_data (c_writebuf (the (heap s p)))"
proof -
  have "entry_ok s fd p" using i p by (auto simp: inv_def polls_ok_def)
  then show thesis unfolding entry_ok_def using that by (metis in_set_conv_nth)
qed

lemma inv_entry_at:
  assumes i: "inv B s" and p: "(fd, p) \<in> set (list_entries (clients s))"
    and j: "j < length (poll_entries s)" "pf_fd (poll_entries s ! j) = fd"
  shows "pf_events (poll_entries s ! j) AND POLLOUT \<noteq> 0 \<longleftrightarrow> has_write_data (c_writebuf (the (heap s p)))"
proof -
  obtain k where k: "k < length (poll_entries s)" "pf_fd (poll_entries s ! k) = fd"
      "pf_events (poll_entries s ! k) AND POLLOUT \<noteq> 0 \<longleftrightarrow> has_write_data (c_writebuf (the (heap s p)))"
    by (rule inv_entry [OF i p])
  have "0 \<le> fd" using inv_client [OF i p] by blast
  with inv_entry_unique [OF i j(1) k(1)] j k show ?thesis by simp
qed

text \<open>Replacing a client by one that still has something to write exactly if it had before.\<close>

lemma inv_set_client:
  assumes i: "inv B s" and p: "(fd, p) \<in> set (list_entries (clients s))" and c: "heap s p = Some c"
    and c': "c_fd c' = fd" "client_ok B s c'"
    and w: "has_write_data (c_writebuf c') \<longleftrightarrow> has_write_data (c_writebuf c)"
  shows "inv B (set_client p c' s)"
proof -
  obtain j where j: "j < length (poll_entries s)" "pf_fd (poll_entries s ! j) = fd"
    "pf_events (poll_entries s ! j) AND POLLOUT \<noteq> 0 \<longleftrightarrow> has_write_data (c_writebuf c)"
    using inv_entry [OF i p] c by (metis option.sel)
  have pi: "poll_inv s" using i by (simp add: inv_def polls_ok_def)
  have "inv B (s\<lparr>heap := (heap s)(p := Some c'), poll_list := poll_list s\<rparr>)"
    by (rule inv_client_update [OF i p c c' order_refl, where j = j and ev = "pf_events (poll_entries s ! j)"])
      (use j w pi in simp_all)
  then show ?thesis by (simp add: set_client_def)
qed

subsection \<open>Writing\<close>

lemma wb_count_written:
  assumes "wb_data b = Some d" "length (queue_list (wb_queue b')) \<le> length (queue_list (wb_queue b))"
  shows "wb_count b' \<le> wb_count b"
  using assms by (simp add: wb_count_def has_write_data_def)

lemma wb_inv_writing [simp]: "wb_inv (b\<lparr>wb_is_writing := w\<rparr>) = wb_inv b"
  "wb_pending (b\<lparr>wb_is_writing := w\<rparr>) = wb_pending b"
  by (auto simp: wb_inv_def wb_pending_def split: option.split)

lemma write_to_client_done:
  assumes g: "good s" and p: "(fd, p) \<in> set (list_entries (clients s))" and r: "rev_ok i s"
    and j: "i < length (poll_entries s)" "pf_fd (poll_entries s ! i) = fd"
    and out: "pf_revents (poll_entries s ! i) AND POLLOUT \<noteq> 0" and os: "write_ok env"
  shows "safe (entry_done i s) (write_to_client env p (int i) s)"
proof -
  let ?B = "2 * total_read (hist s)"
  have i: "inv ?B s" using g by (simp add: good_def)
  obtain c where c: "heap s p = Some c" "c_fd c = fd" "client_ok ?B s c" "client_at p s = Inr c"
    using inv_client [OF i p] by blast
  have hw: "has_write_data (c_writebuf c)" using r j out p c(1) unfolding rev_ok_def by blast
  let ?b = "c_writebuf c"
  have wb: "wb_inv ?b" "can_write ?b" using c(3) by (simp_all add: client_ok_def)
  obtain d where d: "wb_data ?b = Some d" "prepare_write ?b = Inr (?b\<lparr>wb_is_writing := True\<rparr>,
      drop (nat (wb_pointer ?b)) d, int (length (drop (nat (wb_pointer ?b)) (cstr d))))"
    by (rule prepare_write_ok [OF wb hw])
  let ?n = "length (drop (nat (wb_pointer ?b)) (cstr d))"
  let ?bytes = "take ?n (drop (nat (wb_pointer ?b)) d)"
  let ?w = "os_write env (hist s) fd ?bytes"
  have w: "0 \<le> ?w" "?w \<le> int ?n" using os unfolding write_ok_def
    by (auto simp: min_def dest!: spec [of _ "hist s"] spec [of _ fd] spec [of _ ?bytes] split: if_splits)
  obtain b' where b': "have_written (?b\<lparr>wb_is_writing := True\<rparr>) ?w = Inr b'" "wb_inv b'" "can_write b'"
      "length (queue_list (wb_queue b')) \<le> length (queue_list (wb_queue ?b))"
    using have_written_ok [of "?b\<lparr>wb_is_writing := True\<rparr>" d ?w] wb d w by auto
  let ?c = "c\<lparr>c_writebuf := b'\<rparr>" and ?s = "sys (Sys_Write fd ?bytes ?w) s"
  have is': "inv ?B ?s" using inv_sys [OF i] by simp
  have ok: "client_ok ?B ?s ?c"
    using c(3) b' wb_count_written [OF d(1) b'(4)] by (auto simp: client_ok_def load_def rb_small_def)
  have ps: "(fd, p) \<in> set (list_entries (clients ?s))" and cs: "heap ?s p = Some c" using p c by simp_all
  let ?es = "poll_entries s"
  have fin: "entry_done i s t"
    if t: "inv ?B t" "clients t = clients s" "heap t = (heap s)(p := Some ?c)" "server_sock t = server_sock s"
      "map pf_fd (poll_entries t) = map pf_fd ?es" "map pf_revents (poll_entries t) = map pf_revents ?es"
      "total_read (hist t) = total_read (hist s)" for t
  proof -
    have len: "length (poll_entries t) = length ?es" using t(5) by (metis length_map)
    have "good t" using g t c by (auto simp: good_def quiet_def)
    moreover have "pend (Suc i) t < pend i s"
      using pend_Suc [OF j(1)] t len by (simp add: pend_def)
    moreover have "rev_ok (Suc i) t" unfolding rev_ok_def
    proof (intro allI impI)
      fix k assume k: "Suc i \<le> k" "k < length (poll_entries t)"
      let ?e = "?es ! k" and ?e' = "poll_entries t ! k"
      have e: "pf_fd ?e' = pf_fd ?e" "pf_revents ?e' = pf_revents ?e"
        using map_eq_nth [OF t(5) k(2)] map_eq_nth [OF t(6) k(2)] by simp_all
      have nf: "pf_fd ?e \<noteq> fd" using inv_entry_unique [OF i j(1), of k] inv_client [OF i p] j k len by force
      have "q \<noteq> p" if "(pf_fd ?e, q) \<in> set (list_entries (clients s))" for q
        using that nf inv_distinct_ptr [OF i p] by blast
      with rev_okD [OF r, of k] k len e t show "(pf_fd ?e' = server_sock t \<longrightarrow> pf_revents ?e' \<in> {0, POLLIN}) \<and>
          (\<forall>q d. (pf_fd ?e', q) \<in> set (list_entries (clients t)) \<longrightarrow> heap t q = Some d \<longrightarrow>
            pf_revents ?e' AND POLLOUT \<noteq> 0 \<longrightarrow> has_write_data (c_writebuf d))"
        by auto
    qed
    ultimately show ?thesis using t(4) by (simp add: entry_done_def)
  qed
  have sel: "?w \<noteq> - 1" using w by simp
  show ?thesis
  proof (cases "has_write_data b'")
    case True
    have "inv ?B (set_client p ?c ?s)" using True hw c(2) ok by (intro inv_set_client [OF is' ps cs]) simp_all
    then have "entry_done i s (set_client p ?c ?s)" by (rule fin) simp_all
    then show ?thesis using True c(2,4) d(2) b'(1) sel by (simp add: write_to_client_def Let_def)
  next
    case False
    let ?t = "set_client p ?c ?s" and ?f = "\<lambda>e. e AND NOT POLLOUT"
    have pi: "poll_inv ?t" using i by (simp add: inv_def polls_ok_def)
    obtain l where l: "poll_set_events (int i) ?f ?t = Inr (?t\<lparr>poll_list := l\<rparr>)" "poll_inv (?t\<lparr>poll_list := l\<rparr>)"
        "poll_entries (?t\<lparr>poll_list := l\<rparr>) = ?es[i := (?es ! i)\<lparr>pf_events := ?f (pf_events (?es ! i))\<rparr>]"
      using poll_set_events_ok [OF pi, of i ?f] j by auto
    have eq: "poll_entries (?t\<lparr>poll_list := l\<rparr>) = poll_entries (?s\<lparr>poll_list := l\<rparr>)"
      "poll_inv (?t\<lparr>poll_list := l\<rparr>) = poll_inv (?s\<lparr>poll_list := l\<rparr>)"
      "?s\<lparr>heap := (heap ?s)(p := Some ?c), poll_list := l\<rparr> = ?t\<lparr>poll_list := l\<rparr>"
      by (simp_all add: poll_entries_def poll_inv_def set_client_def)
    have "inv ?B (?s\<lparr>heap := (heap ?s)(p := Some ?c), poll_list := l\<rparr>)"
    proof (rule inv_client_update [OF is' ps cs _ ok order_refl, where j = i and ev = "?f (pf_events (?es ! i))"])
      show "poll_inv (?s\<lparr>poll_list := l\<rparr>)" using l(2) unfolding eq .
      show "poll_entries (?s\<lparr>poll_list := l\<rparr>) =
          (poll_entries ?s)[i := (poll_entries ?s ! i)\<lparr>pf_events := ?f (pf_events (?es ! i))\<rparr>]"
        using l(3) unfolding eq by simp
      show "?f (pf_events (?es ! i)) AND POLLOUT \<noteq> 0 \<longleftrightarrow> has_write_data (c_writebuf ?c)"
        using False pollout_clear by simp
    qed (use j c(2) in simp_all)
    then have "entry_done i s (?t\<lparr>poll_list := l\<rparr>)" unfolding eq(3)
      by (rule fin) (use l(3) in \<open>simp_all add: map_update list_update_same_conv j\<close>)
    then show ?thesis using False c(2,4) d(2) b'(1) sel l(1) by (simp add: write_to_client_def Let_def)
  qed
qed

end
