(* ===== verification/Unix_Events.thy ===== *)
theory Unix_Events
  imports Unix_Clients
begin

section \<open>The event loop keeps the invariant\<close>

text \<open>
  Closing, reading and accepting, the dispatch on one entry of the poll list, the pass over the
  list and one turn of the loop of \<open>main\<close>.
\<close>

unbundle bit_operations_syntax

lemma entry_done_trans:
  assumes "entry_done i s t" "keeps_polls t u" "good u"
  shows "entry_done i s u"
  using assms keeps_polls_rev_ok [OF assms(2)] keeps_pend [OF assms(2)]
  by (simp add: entry_done_def) (simp add: keeps_polls_def)

lemma poll_entries_push [simp]:
  "poll_entries (s\<lparr>clients := l, poll_list := pl\<rparr>) = poll_entries (s\<lparr>poll_list := pl\<rparr>)"
  "poll_entries (s\<lparr>queue := q, poll_list := pl\<rparr>) = poll_entries (s\<lparr>poll_list := pl\<rparr>)"
  "poll_inv (s\<lparr>clients := l, poll_list := pl\<rparr>) = poll_inv (s\<lparr>poll_list := pl\<rparr>)"
  "poll_inv (s\<lparr>queue := q, poll_list := pl\<rparr>) = poll_inv (s\<lparr>poll_list := pl\<rparr>)"
  "poll_entries (s\<lparr>hist := h, poll_list := pl\<rparr>) = poll_entries (s\<lparr>poll_list := pl\<rparr>)"
  "poll_inv (s\<lparr>hist := h, poll_list := pl\<rparr>) = poll_inv (s\<lparr>poll_list := pl\<rparr>)"
  by (simp_all add: poll_entries_def poll_inv_def)

lemma inv_client_at:
  assumes "inv B s" "(fd, p) \<in> set (list_entries (clients s))" "heap s p = Some c"
  shows "client_ok B s c" "c_fd c = fd" "client_at p s = Inr c"
proof -
  obtain d where "heap s p = Some d" "c_fd d = fd" "client_ok B s d" "client_at p s = Inr d"
    by (rule inv_client [OF assms(1,2)])
  with assms(3) show "client_ok B s c" "c_fd c = fd" "client_at p s = Inr c" by simp_all
qed

subsection \<open>Closing\<close>

lemma disable_fd_props:
  assumes "distinct (filter (\<lambda>fd. fd \<noteq> -1) (map pf_fd es))" "fd \<noteq> -1"
  shows "distinct (filter (\<lambda>fd. fd \<noteq> -1) (map pf_fd (disable_fd fd es)))"
    "fd \<notin> pf_fd ` set (disable_fd fd es)"
    "pf_fd ` set (disable_fd fd es) \<subseteq> insert (-1) (pf_fd ` set es - {fd})"
    "e \<in> set es \<Longrightarrow> pf_fd e \<noteq> fd \<Longrightarrow> e \<in> set (disable_fd fd es)"
  using assms by (induction es) (auto simp: image_iff split: if_splits)

lemma disable_fd_nth:
  "j < length es \<Longrightarrow> disable_fd fd es ! j = es ! j \<or> (pf_fd (disable_fd fd es ! j) = -1 \<and> pf_revents (disable_fd fd es ! j) = 0)"
proof (induction es arbitrary: j)
  case (Cons e es)
  then show ?case by (cases j) auto
qed simp

lemma filter_disable_fd:
  "k \<noteq> fd \<Longrightarrow> k \<noteq> -1 \<Longrightarrow> filter (\<lambda>x. x = k) (drop i (map pf_fd (disable_fd fd es))) =
     filter (\<lambda>x. x = k) (drop i (map pf_fd es))"
proof (induction es arbitrary: i)
  case (Cons e es)
  then show ?case using Cons.IH [of 0] by (cases i) auto
qed simp

lemma inv_close:
  assumes i: "inv B s" and p: "(fd, p) \<in> set (list_entries (clients s))"
    and q: "queue_inv q" "queue_list q = filter (\<lambda>r. r_key r \<noteq> fd) (queue_list (queue s))"
    and l: "al.ok l" "set (list_entries l) = {e \<in> set (list_entries (clients s)). fst e \<noteq> fd}"
      "mset (list_entries l) = filter_mset (\<lambda>e. fst e \<noteq> fd) (mset (list_entries (clients s)))"
    and pl: "poll_inv (s\<lparr>poll_list := pl\<rparr>)" "poll_entries (s\<lparr>poll_list := pl\<rparr>) = disable_fd fd (poll_entries s)"
    and h: "live_pids h = live_pids (hist s)" "total_read h = total_read (hist s)"
      "set (open_fds h) = set (open_fds (hist s)) - {fd}"
  shows "inv B (s\<lparr>queue := q, clients := l, poll_list := pl, hist := h, heap := (heap s)(p := None)\<rparr>)" (is "inv B ?s")
proof -
  let ?cs = "list_entries (clients s)"
  have es: "poll_entries ?s = disable_fd fd (poll_entries s)" "poll_inv ?s" using pl by simp_all
  have keys: "al.keys l = al.keys (clients s) - {fd}" unfolding al.keys_def l(2) by auto
  have fd: "0 \<le> fd" "fd \<in> al.keys (clients s)"
    using inv_client [OF i p] apply blast using p by (force simp: al.keys_def)
  have ld: "load ?s \<le> load s" using q(2) by (simp add: load_def)
  have other: "fd' \<noteq> fd \<and> p' \<noteq> p \<and> (fd', p') \<in> set ?cs" if "(fd', p') \<in> set (list_entries l)" for fd' p'
    using that p inv_distinct_ptr [OF i, of fd p fd'] unfolding l(2) by auto
  have ok: "client_ok B ?s c" if "client_ok B s c" for c
    using that ld h(2) by (intro client_ok_mono [OF that]) (auto simp: client_ok_def)
  have "mset (map snd (list_entries l)) = mset (map snd (filter (\<lambda>e. fst e \<noteq> fd) ?cs))"
    by (simp only: mset_map l(3) mset_filter)
  moreover have "distinct (map snd ?cs)" using i by (simp add: inv_def clients_ok_def)
  ultimately have ds: "distinct (map snd (list_entries l))"
    by (metis distinct_map_filter mset_eq_imp_distinct_iff)
  have "0 \<le> fd' \<and> fd' < FD_LIMIT \<and> p' < next_ptr s \<and> (\<exists>c. heap ?s p' = Some c \<and> c_fd c = fd' \<and> client_ok B ?s c)"
    if e: "(fd', p') \<in> set (list_entries l)" for fd' p'
  proof -
    obtain c where "heap s p' = Some c" "c_fd c = fd'" "client_ok B s c" "0 \<le> fd'" "fd' < FD_LIMIT" "p' < next_ptr s"
      using i other [OF e] unfolding inv_def clients_ok_def by fastforce
    with other [OF e] ok show ?thesis by simp
  qed
  then have "clients_ok B ?s" using l(1) ds by (auto simp: clients_ok_def simp del: fun_upd_apply)
  moreover have "procs_ok ?s" using i h(1) by (simp add: inv_def procs_ok_def)
  moreover have "queue_ok ?s" using i q keys by (auto simp: inv_def queue_ok_def)
  moreover have "fds_ok ?s" using i h(3) fd keys by (auto simp: inv_def fds_ok_def)
  moreover have "polls_ok ?s"
  proof -
    have dist: "distinct (filter (\<lambda>fd. fd \<noteq> -1) (map pf_fd (poll_entries s)))" and fd1: "fd \<noteq> -1"
      and sub: "pf_fd ` set (poll_entries s) \<subseteq> insert (-1) (insert (server_sock s) (insert (cpipe0 s) (al.keys (clients s))))"
      using i fd by (auto simp: inv_def polls_ok_def)
    note dp = disable_fd_props [OF dist fd1]
    have "entry_ok ?s fd' p'" if e: "(fd', p') \<in> set (list_entries l)" for fd' p'
    proof -
      obtain x where "x \<in> set (poll_entries s)" "pf_fd x = fd'"
          "pf_events x AND POLLOUT \<noteq> 0 \<longleftrightarrow> has_write_data (c_writebuf (the (heap s p')))"
        using i other [OF e] by (fastforce simp: inv_def polls_ok_def entry_ok_def)
      with dp(4) [of x] other [OF e] show ?thesis by (auto simp: entry_ok_def pl(2))
    qed
    moreover have "pf_fd ` set (poll_entries ?s) \<subseteq> insert (-1) (insert (server_sock s) (insert (cpipe0 s) (al.keys l)))"
      using dp(3) sub unfolding es keys by blast
    ultimately show ?thesis using es dp(1) by (auto simp: polls_ok_def)
  qed
  moreover have "misc_ok ?s" using i by (simp add: inv_def misc_ok_def log_ok_def)
  moreover have "load ?s \<le> B" using ld i by (simp add: inv_def)
  ultimately show ?thesis by (simp add: inv_def)
qed

lemma live_pids_harmless_close: "live_pids (h @ es @ [Sys_Close fd]) = live_pids (h @ es)"
  by (simp flip: append_assoc)

text \<open>The state after \<open>close_client\<close>, up to a line in the log.\<close>

definition closed_state :: "unix_server \<Rightarrow> int \<Rightarrow> ptr \<Rightarrow> request t_queue \<Rightarrow> ptr t_list \<Rightarrow> pollfd cells \<Rightarrow> unix_server" where
  "closed_state s fd p q l pl =
     s\<lparr>queue := q, clients := l, poll_list := pl,
       hist := hist s @ map unix_kill (filter (task_matches fd None) (map snd (list_entries (processes s)))) @ [Sys_Close fd],
       heap := (heap s)(p := None)\<rparr>"

lemma closed_state_good:
  assumes g: "good s" and p: "(fd, p) \<in> set (list_entries (clients s))"
    and q: "queue_inv q" "queue_list q = filter (\<lambda>r. r_key r \<noteq> fd) (queue_list (queue s))"
    and l: "al.ok l" "set (list_entries l) = {e \<in> set (list_entries (clients s)). fst e \<noteq> fd}"
      "mset (list_entries l) = filter_mset (\<lambda>e. fst e \<noteq> fd) (mset (list_entries (clients s)))"
    and pl: "poll_inv (s\<lparr>poll_list := pl\<rparr>)" "poll_entries (s\<lparr>poll_list := pl\<rparr>) = disable_fd fd (poll_entries s)"
  shows "good (closed_state s fd p q l pl)"
proof -
  let ?s = "closed_state s fd p q l pl" and ?h = "hist (closed_state s fd p q l pl)"
  let ?es = "map unix_kill (filter (task_matches fd None) (map snd (list_entries (processes s))))"
  have i: "inv (2 * total_read (hist s)) s" using g by (simp add: good_def)
  have hes: "list_all harmless ?es" by (simp add: list_all_iff unix_kill_def)
  have h: "?h = hist s @ ?es @ [Sys_Close fd]" by (simp add: closed_state_def)
  have tr: "total_read ?h = total_read (hist s)" using harmless_total_read [OF hes] by (simp add: h)
  have lp: "live_pids ?h = live_pids (hist s)"
    unfolding h by (simp only: live_pids_harmless_close harmless_live_pids [OF hes])
  have "open_fds ?h = filter (\<lambda>x. x \<noteq> fd) (open_fds (hist s))"
    unfolding h using harmless_open_fds [OF hes] by (simp flip: append_assoc)
  then have "set (open_fds ?h) = set (open_fds (hist s)) - {fd}" by auto
  from inv_close [OF i p q l pl lp tr this] have i2: "inv (2 * total_read (hist s)) ?s"
    by (simp add: closed_state_def)
  have "NEWLINE \<notin> set (rb_bytes (c_readbuf (the (heap ?s p'))))" if e: "(fd', p') \<in> set (list_entries l)" for fd' p'
  proof -
    have "(fd', p') \<in> set (list_entries (clients s))" "fd' \<noteq> fd" using e by (simp_all add: l(2))
    moreover from this have "p' \<noteq> p" using inv_distinct_ptr [OF i p] by blast
    ultimately show ?thesis using g by (auto simp: good_def quiet_def closed_state_def)
  qed
  then have "quiet ?s" unfolding quiet_def by (auto simp: closed_state_def simp del: fun_upd_apply)
  with g i2 tr show ?thesis by (simp add: good_def)
qed

lemma close_client_result:
  assumes g: "good s" and p: "(fd, p) \<in> set (list_entries (clients s))"
  obtains q l pl m where
    "queue_list q = filter (\<lambda>r. r_key r \<noteq> fd) (queue_list (queue s))"
    "set (list_entries l) = {e \<in> set (list_entries (clients s)). fst e \<noteq> fd}"
    "poll_entries (s\<lparr>poll_list := pl\<rparr>) = disable_fd fd (poll_entries s)"
    "good (closed_state s fd p q l pl)"
    "\<forall>P. (\<forall>u. u = closed_state s fd p q l pl \<or> u = sys (Sys_Log m) (closed_state s fd p q l pl) \<longrightarrow>
       safe P (if single_client u \<and> list_is_empty (clients u) then shutdown_server env u else Inr u)) \<longrightarrow>
       safe P (close_client env p s)"
proof -
  let ?B = "2 * total_read (hist s)"
  have i: "inv ?B s" using g by (simp add: good_def)
  obtain c where c: "heap s p = Some c" "c_fd c = fd" "client_ok ?B s c" "client_at p s = Inr c"
    using inv_client [OF i p] by blast
  have qi: "queue_inv (queue s)" and ql: "length (queue_list (queue s)) \<le> queue_room"
    using g by (auto simp: good_def inv_def queue_ok_def load_def)
  obtain q where q: "queue_inv q" "queue_list q = filter (\<lambda>r. r_key r \<noteq> fd) (queue_list (queue s))"
      "remove_from_queue fd None None (queue s) () = Inr (q, ())"
    using remove_from_queue_list [OF qi ql, of fd None "None :: (request \<Rightarrow> unit \<Rightarrow> unit res) option"] by (auto simp: matches_def)
  let ?es = "map unix_kill (filter (task_matches fd None) (map snd (list_entries (processes s))))"
  have kill: "kill_processes unix_kill fd None (s\<lparr>queue := q\<rparr>) = Inr (s\<lparr>queue := q, hist := hist s @ ?es\<rparr>)"
    using i by (subst kill_processes_spec) (simp_all add: inv_def procs_ok_def al.ok_def)
  have cl: "al.ok (clients s)" using i by (simp add: inv_def clients_ok_def)
  obtain l where l: "list_remove (clients s) fd = Inr l" "al.ok l"
      "mset (list_entries l) = filter_mset (\<lambda>e. fst e \<noteq> fd) (mset (list_entries (clients s)))"
      "set (list_entries l) = {e \<in> set (list_entries (clients s)). fst e \<noteq> fd}"
    by (rule al.remove_ok [OF cl])
  let ?s1 = "s\<lparr>queue := q, hist := hist s @ ?es, clients := l\<rparr>"
  have pi: "poll_inv ?s1" using i by (simp add: inv_def polls_ok_def)
  obtain pl where pl: "poll_list_remove fd ?s1 = Inr (?s1\<lparr>poll_list := pl\<rparr>)" "poll_inv (?s1\<lparr>poll_list := pl\<rparr>)"
      "poll_entries (?s1\<lparr>poll_list := pl\<rparr>) = disable_fd fd (poll_entries s)"
    using poll_list_remove_ok [OF pi, of fd] by auto
  have pl': "poll_inv (s\<lparr>poll_list := pl\<rparr>)" "poll_entries (s\<lparr>poll_list := pl\<rparr>) = disable_fd fd (poll_entries s)"
    using pl(2,3) by simp_all
  have wb: "free_writebuf (c_writebuf c) = Inr ()" using c(3) by (intro free_writebuf_ok) (simp add: client_ok_def)
  let ?s2 = "closed_state s fd p q l pl"
  have g2: "good ?s2" by (rule closed_state_good [OF g p q(1,2) l(2,4,3) pl'])
  define m where "m = ''client '' @ show_int fd @ '' disconnected''"
  define t where "t = sys (Sys_Close fd) (?s1\<lparr>poll_list := pl\<rparr>)"
  have t: "t\<lparr>heap := (heap t)(p := None)\<rparr> = ?s2" "(sys (Sys_Log m) t)\<lparr>heap := (heap (sys (Sys_Log m) t))(p := None)\<rparr> = sys (Sys_Log m) ?s2"
    "log_ok t"
    using i by (simp_all add: t_def sys_def log_ok_def closed_state_def inv_def misc_ok_def)
  show thesis
  proof (rule that [OF q(2) l(4) pl'(2) g2], intro allI impI)
    fix P assume last: "\<forall>u. u = ?s2 \<or> u = sys (Sys_Log m) ?s2 \<longrightarrow>
       safe P (if single_client u \<and> list_is_empty (clients u) then shutdown_server env u else Inr u)"
    have "safe P (bindE (log_msg m t) (\<lambda>s.
       let s = s\<lparr>heap := (heap s)(p := None)\<rparr> in
       if single_client s \<and> list_is_empty (clients s) then shutdown_server env s else Inr s))"
    proof (rule log_msg_ok [OF t(3), of m])
      assume "log_msg m t = Inr (sys (Sys_Log m) t)"
      then show ?thesis using last [rule_format, OF disjI2 [OF refl]] by (simp only: bindE_simps Let_def t)
    next
      assume "log_msg m t = Inr t"
      then show ?thesis using last [rule_format, OF disjI1 [OF refl]] by (simp only: bindE_simps Let_def t)
    qed
    then show "safe P (close_client env p s)"
      using c q(3) kill l(1) pl(1) wb by (simp add: close_client_def m_def t_def)
  qed
qed

lemma closed_log_good:
  assumes "good u" "v = u \<or> v = sys (Sys_Log m) u"
  shows "good v" "keeps_polls u v" "safe P (shutdown_server env v)"
proof -
  have i: "inv (2 * total_read (hist u)) u" using assms(1) by (simp add: good_def)
  have f: "frame u v" "inv (2 * total_read (hist u)) v" using assms(2) inv_sys [OF i] frame_sys i by auto
  show "good v" by (rule frame_good [OF f(1) assms(1) f(2)])
  show "keeps_polls u v" by (rule frame_keeps_polls [OF f(1)])
  show "safe P (shutdown_server env v)"
    using inv_can_shutdown [OF f(2)] by (simp add: shutdown_server_def os_int_def Let_def)
qed

lemma close_client_done:
  assumes g: "good s" and p: "(fd, p) \<in> set (list_entries (clients s))" and r: "rev_ok i s"
    and j: "i < length (poll_entries s)"
  shows "safe (entry_done i s) (close_client env p s)"
proof -
  obtain q l pl m where "queue_list q = filter (\<lambda>r. r_key r \<noteq> fd) (queue_list (queue s))"
    and l: "set (list_entries l) = {e \<in> set (list_entries (clients s)). fst e \<noteq> fd}"
    and e1: "poll_entries (s\<lparr>poll_list := pl\<rparr>) = disable_fd fd (poll_entries s)"
    and g2: "good (closed_state s fd p q l pl)"
    and res: "\<forall>P. (\<forall>u. u = closed_state s fd p q l pl \<or> u = sys (Sys_Log m) (closed_state s fd p q l pl) \<longrightarrow>
       safe P (if single_client u \<and> list_is_empty (clients u) then shutdown_server env u else Inr u)) \<longrightarrow>
       safe P (close_client env p s)"
    by (rule close_client_result [OF g p, where env = env])
  let ?s2 = "closed_state s fd p q l pl"
  have i: "inv (2 * total_read (hist s)) s" using g by (simp add: good_def)
  have e2: "poll_entries ?s2 = disable_fd fd (poll_entries s)" using e1 by (simp add: closed_state_def)
  have s2: "server_sock ?s2 = server_sock s" "clients ?s2 = l" "heap ?s2 = (heap s)(p := None)"
    by (simp_all add: closed_state_def)
  have ss: "server_sock s \<noteq> fd" "server_sock s \<noteq> -1"
    using i p by (auto simp: inv_def fds_ok_def al.keys_def image_iff)
  have "pend (Suc i) ?s2 < pend i s"
    using pend_Suc [OF j] by (simp add: pend_def e2 s2 filter_disable_fd ss)
  moreover have "rev_ok (Suc i) ?s2" unfolding rev_ok_def s2
  proof (intro allI impI)
    fix k assume k: "Suc i \<le> k" "k < length (poll_entries ?s2)"
    then have k': "i \<le> k" "k < length (poll_entries s)" by (simp_all add: e2)
    show "(pf_fd (poll_entries ?s2 ! k) = server_sock s \<longrightarrow> pf_revents (poll_entries ?s2 ! k) \<in> {0, POLLIN}) \<and>
      (\<forall>p' c. (pf_fd (poll_entries ?s2 ! k), p') \<in> set (list_entries l) \<longrightarrow> ((heap s)(p := None)) p' = Some c \<longrightarrow>
        pf_revents (poll_entries ?s2 ! k) AND POLLOUT \<noteq> 0 \<longrightarrow> has_write_data (c_writebuf c))"
      using disable_fd_nth [OF k'(2), of fd] rev_okD [OF r k'] ss(2) unfolding e2
      by (auto simp: l split: if_splits)
  qed
  ultimately have fin: "entry_done i s ?s2" using g2 s2 by (simp add: entry_done_def)
  show ?thesis
  proof (rule res [rule_format])
    fix u assume u: "u = ?s2 \<or> u = sys (Sys_Log m) ?s2"
    have "entry_done i s u" using entry_done_trans [OF fin] closed_log_good [OF g2 u] by blast
    then show "safe (entry_done i s)
        (if single_client u \<and> list_is_empty (clients u) then shutdown_server env u else Inr u)"
      by (simp add: closed_log_good(3) [OF g2 u])
  qed
qed

subsection \<open>Reading\<close>

lemma unat_of_nat64: "n < 2 ^ 64 \<Longrightarrow> unat (of_nat n :: u64) = n"
  by (simp add: unsigned_of_nat take_bit_nat_eq_self)

lemma inv_sys_read:
  assumes i: "inv B s"
  shows "inv B (sys (Sys_Read fd n) s)"
proof -
  have "inv B (s\<lparr>hist := hist s @ [Sys_Read fd n], processes := processes s, queue := queue s, parallel := parallel s\<rparr>)"
    by (rule inv_update [OF i]) (use i in \<open>auto simp: inv_def procs_ok_def queue_ok_def fds_ok_def misc_ok_def load_def\<close>)
  then show ?thesis by (simp add: sys_def)
qed

lemma keeps_polls_sys: "keeps_polls s (sys e s)"
  by (simp add: keeps_polls_def)

lemma keeps_polls_readbuf:
  "heap s p = Some c \<Longrightarrow> c_writebuf c' = c_writebuf c \<Longrightarrow> keeps_polls s (set_client p c' s)"
  by (simp add: keeps_polls_def)

lemma split_lines_no_lines: "length (snd (split_lines bs)) = length bs \<Longrightarrow> snd (split_lines bs) = bs"
  using split_lines_concat [of bs] by (metis add_eq_self_zero append_Nil length_0_conv length_append add.commute)

lemma handle_msg_done:
  assumes i: "inv B s" and p: "(fd, p) \<in> set (list_entries (clients s))" and c: "heap s p = Some c"
    and os: "os_ok env" and T: "total_read (hist s) \<le> 2 ^ 28"
    and B: "B + 2 * length (fst (split_lines (rb_bytes (c_readbuf c)))) \<le> 2 * total_read (hist s)"
    and q: "\<forall>(fd', p') \<in> set (list_entries (clients s)). p' \<noteq> p \<longrightarrow>
      NEWLINE \<notin> set (rb_bytes (c_readbuf (the (heap s p'))))"
  shows "safe (\<lambda>s'. good s' \<and> keeps_polls s s') (handle_msg env p fd s)"
proof -
  let ?rb = "c_readbuf c" and ?bs = "rb_bytes (c_readbuf c)"
  let ?ls = "fst (split_lines ?bs)" and ?rest = "snd (split_lines ?bs)"
  have cok: "client_ok B s c" "c_fd c = fd" "client_at p s = Inr c"
    using inv_client_at [OF i p c] .
  then have rb: "rb_inv ?rb" "length ?bs \<le> total_read (hist s)" by (simp_all add: client_ok_def rb_small_def)
  have len: "to_int32 (uint (rb_len ?rb)) = int (length ?bs)"
  proof -
    have "uint (rb_len ?rb) = int (length ?bs)" using length_rb_bytes [OF rb(1)] by simp
    then show ?thesis using rb(2) T by (simp add: in_int_def)
  qed
  have rl: "length ?rest \<le> length ?bs" using split_lines_length [of ?bs] by simp
  have hold: "holds (rb_data ?rb) ?bs" using rb(1) by (simp add: rb_inv_def)
  have loop: "handle_msg_loop env p fd (rb_data ?rb) (int (length ?bs)) 0 s =
      bindE (handle_lines env p fd ?ls s) (\<lambda>s. Inr (int (length ?bs - length ?rest), s))"
    using handle_msg_loop_lines [OF hold, of 0] by simp
  have after: "safe (\<lambda>s'. good s' \<and> keeps_polls s s')
     (if 0 < int (length ?bs - length ?rest) then
       bindE (client_at p t) (\<lambda>c.
       bindE (have_taken (c_readbuf c) (word_of_int (int (length ?bs - length ?rest)))) (\<lambda>rb.
       Inr (set_client p (c\<lparr>c_readbuf := rb\<rparr>) t)))
     else Inr t)"
    if t: "inv (B + 2 * length ?ls) t" "frame s t" for t
  proof -
    obtain d where d: "heap t p = Some d" "same_client c d" by (rule frame_heap_Some [OF t(2) c])
    have cl: "clients t = clients s" "total_read (hist t) = total_read (hist s)" using t(2) by (simp_all add: frame_def)
    have pt: "(fd, p) \<in> set (list_entries (clients t))" using p cl by simp
    have dok: "client_ok (B + 2 * length ?ls) t d" "c_fd d = fd" "client_at p t = Inr d"
      using inv_client_at [OF t(1) pt d(1)] .
    have it: "inv (2 * total_read (hist t)) t" using inv_mono [OF t(1)] B cl by simp
    have others: "NEWLINE \<notin> set (rb_bytes (c_readbuf (the (heap t p'))))"
      if e: "(fd', p') \<in> set (list_entries (clients t))" "p' \<noteq> p" for fd' p'
    proof -
      have e': "(fd', p') \<in> set (list_entries (clients s))" using e cl by simp
      have "c_readbuf (the (heap t p')) = c_readbuf (the (heap s p'))"
        by (rule frame_heap_Some [OF t(2) inv_the_heap [OF i e']]) (simp add: same_client_def)
      then show ?thesis using q e e' by auto
    qed
    show ?thesis
    proof (cases "length ?rest = length ?bs")
      case True
      then have "NEWLINE \<notin> set ?bs" using split_lines_no_lines split_lines_rest by metis
      then have "NEWLINE \<notin> set (rb_bytes (c_readbuf (the (heap t p'))))"
        if "(fd', p') \<in> set (list_entries (clients t))" for fd' p'
        by (cases "p' = p") (use others that d in \<open>auto simp: same_client_def\<close>)
      then have "quiet t" by (auto simp: quiet_def)
      then show ?thesis using True it T cl frame_keeps_polls [OF t(2)] by (simp add: good_def)
    next
      case False
      let ?n = "length ?bs - length ?rest"
      have un: "unat (word_of_int (int ?n) :: u64) = ?n"
        using rb(2) T unat_of_nat64 [of ?n] by simp
      have rd: "c_readbuf d = ?rb" using d(2) by (simp add: same_client_def)
      obtain rb' where rb': "have_taken ?rb (word_of_int (int ?n)) = Inr rb'" "rb_inv rb'" "rb_bytes rb' = drop ?n ?bs"
          "rb_capacity rb' = rb_capacity ?rb"
        using have_taken_ok [OF rb(1), of "word_of_int (int ?n)"] un by auto
      have rest: "rb_bytes rb' = ?rest"
      proof -
        have "?bs = concat (map (\<lambda>l. l @ [NEWLINE]) ?ls) @ ?rest" by (simp add: split_lines_concat)
        then show ?thesis unfolding rb'(3) by (metis append_eq_conv_conj diff_add_inverse2 length_append)
      qed
      let ?d = "d\<lparr>c_readbuf := rb'\<rparr>"
      have "client_ok (2 * total_read (hist t)) t ?d"
        using dok(1) rb' rd B cl rl rest by (auto simp: client_ok_def rb_small_def)
      then have "inv (2 * total_read (hist t)) (set_client p ?d t)"
        using dok(2) by (intro inv_set_client [OF it pt d(1)]) simp_all
      moreover have "quiet (set_client p ?d t)"
        using others split_lines_rest rest by (auto simp: quiet_def)
      ultimately have "good (set_client p ?d t)" using T cl by (simp add: good_def)
      moreover have "keeps_polls s (set_client p ?d t)"
        by (rule keeps_polls_trans [OF frame_keeps_polls [OF t(2)] keeps_polls_readbuf [OF d(1)]]) simp
      ultimately show ?thesis using False rl dok(3) rd rb'(1) by simp
    qed
  qed
  have "safe (\<lambda>s'. good s' \<and> keeps_polls s s') (bindE (handle_lines env p fd ?ls s) (\<lambda>t.
     if 0 < int (length ?bs - length ?rest) then
       bindE (client_at p t) (\<lambda>c.
       bindE (have_taken (c_readbuf c) (word_of_int (int (length ?bs - length ?rest)))) (\<lambda>rb.
       Inr (set_client p (c\<lparr>c_readbuf := rb\<rparr>) t)))
     else Inr t))"
    by (rule safe_bindE [OF handle_lines_inv [OF i p os]]) (use B T after in auto)
  then show ?thesis by (simp add: handle_msg_def cok len loop bindE_assoc)
qed

lemma read_on_client_done:
  assumes g: "good s" and p: "(fd, p) \<in> set (list_entries (clients s))" and r: "rev_ok i s"
    and j: "i < length (poll_entries s)" and os: "os_ok env"
  shows "safe (entry_done i s) (read_on_client env p s)"
proof -
  let ?T = "total_read (hist s)"
  have i: "inv (2 * ?T) s" and T: "?T \<le> 2 ^ 28" using g by (simp_all add: good_def)
  obtain c where c: "heap s p = Some c" "c_fd c = fd" "client_ok (2 * ?T) s c" "client_at p s = Inr c"
    using inv_client [OF i p] by blast
  let ?rb = "c_readbuf c"
  obtain rb at where prep: "prepare_read ?rb (of_nat READ_ONCE) = (rb, at)" by fastforce
  have rb0: "rb_inv ?rb" "rb_small (hist s) ?rb" using c(3) by (simp_all add: client_ok_def)
  have n: "unat (of_nat READ_ONCE :: u64) = READ_ONCE" by simp
  have rb: "rb_inv rb" "rb_bytes rb = rb_bytes ?rb" "at = length (rb_bytes rb)"
      "length (rb_bytes rb) + READ_ONCE \<le> length (rb_data rb)" "rb_small (hist s) rb"
    using prepare_read_ok [OF rb0(1) _ prep] rb0 T unfolding n rb_small_def
    by (auto simp: rb_inv_def)
  let ?c1 = "c\<lparr>c_readbuf := rb\<rparr>"
  let ?s1 = "set_client p ?c1 s"
  have i1: "inv (2 * ?T) ?s1"
    using c rb by (intro inv_set_client [OF i p c(1)]) (simp_all add: client_ok_def)
  have q1: "quiet ?s1" using g c(1) rb(2) p by (fastforce simp: good_def quiet_def)
  have k1: "keeps_polls s ?s1" by (rule keeps_polls_readbuf [OF c(1)]) simp
  show ?thesis
  proof (cases "os_read env (hist s) fd")
    case None
    let ?s2 = "sys (Sys_Read fd (-1)) ?s1"
    have "good ?s2" using inv_sys_read [OF i1] q1 T by (simp add: good_def quiet_def)
    then have "entry_done i s ?s2"
      by (rule entry_done_keeps [OF keeps_polls_trans [OF k1 keeps_polls_sys] r j])
    then show ?thesis using c None prep by (simp add: read_on_client_def)
  next
    case (Some bytes)
    let ?s2 = "sys (Sys_Read fd (int (length bytes))) ?s1"
    have k2: "keeps_polls s ?s2" by (rule keeps_polls_trans [OF k1 keeps_polls_sys])
    have i2: "inv (2 * ?T) ?s2" using inv_sys_read [OF i1] by simp
    have nb: "length bytes \<le> READ_ONCE" "?T + length bytes \<le> 2 ^ 28"
      using os Some T unfolding os_ok_def read_ok_def input_ok_def by (blast, cases "bytes = []") auto
    have p2: "(fd, p) \<in> set (list_entries (clients ?s2))" using p by simp
    show ?thesis
    proof (cases "bytes = []")
      case True
      have "good ?s2" using i2 q1 T True by (simp add: good_def quiet_def)
      from close_client_done [OF this p2 keeps_polls_rev_ok [OF k2 r]] j
      have "safe (entry_done i ?s2) (close_client env p ?s2)" by simp
      then have "safe (entry_done i s) (close_client env p ?s2)"
        by (rule safe_mono) (simp add: entry_done_def keeps_pend [OF k2])
      then show ?thesis using c Some prep True by (simp add: read_on_client_def)
    next
      case False
      have hold: "holds (rb_data rb) (rb_bytes rb)" using rb(1) by (simp add: rb_inv_def)
      obtain d where d: "store_bytes (rb_data rb) (length (rb_bytes rb)) bytes = Inr d" "length d = length (rb_data rb)"
        using store_bytes_ok [OF hold, of bytes] rb(4) nb(1) by auto
      have ub: "unat (of_nat (length bytes) :: u64) = length bytes" using nb by (simp add: unat_of_nat64)
      obtain rb2 where rb2: "have_read (rb\<lparr>rb_data := d\<rparr>) (of_nat (length bytes)) = Inr rb2" "rb_inv rb2"
          "rb_bytes rb2 = rb_bytes rb @ bytes" "rb_capacity rb2 = rb_capacity rb"
        using have_read_ok [OF rb(1) _ d(1) ub] rb(4) nb(1) by auto
      let ?c2 = "c\<lparr>c_readbuf := rb2\<rparr>" and ?s3 = "set_client p (c\<lparr>c_readbuf := rb2\<rparr>) ?s2"
      have h2: "heap ?s2 p = Some ?c1" by simp
      have "client_ok (2 * ?T) ?s2 ?c2"
        using c(3) rb2 rb nb by (auto simp: client_ok_def rb_small_def load_def)
      then have i3: "inv (2 * ?T) ?s3" using c(2) by (intro inv_set_client [OF i2 p2 h2]) simp_all
      have k3: "keeps_polls s ?s3"
        by (rule keeps_polls_trans [OF k2 keeps_polls_readbuf [OF h2]]) simp
      have "NEWLINE \<notin> set (rb_bytes rb)" using g p c(1) rb(2) by (force simp: good_def quiet_def)
      then have lines: "length (fst (split_lines (rb_bytes rb2))) \<le> length bytes"
        unfolding rb2(3) by (rule split_lines_new)
      have "safe (\<lambda>s'. good s' \<and> keeps_polls ?s3 s') (handle_msg env p fd ?s3)"
        by (rule handle_msg_done [OF i3 _ _ os, where c = ?c2])
          (use p nb lines g in \<open>auto simp: good_def quiet_def\<close>)
      then have "safe (entry_done i s) (handle_msg env p fd ?s3)"
        by (rule safe_mono) (use entry_done_keeps [OF keeps_polls_trans [OF k3] r j] in auto)
      then show ?thesis using c Some prep False d(1) rb(3) rb2(1) by (simp add: read_on_client_def set_client_def)
    qed
  qed
qed

end
