(* ===== verification/Unix_Safety.thy ===== *)
theory Unix_Safety
  imports Unix_Events
begin

section \<open>Safety of the event loop\<close>

text \<open>
  Accepting a client, the dispatch on an entry of the poll list, the pass over the list, the
  scheduling of pending requests and one turn of the loop of \<open>main\<close> keep the invariant and do
  not crash. The fuel of the pass is enough: only the entry of the listening socket adds one.
\<close>

unbundle bit_operations_syntax

subsection \<open>Accepting\<close>

lemma inv_accept:
  assumes i: "inv B s" and fd: "0 \<le> fd" "fd < FD_LIMIT" "fd \<notin> set (open_fds (hist s))"
    and c: "c_fd c = fd" "rb_inv (c_readbuf c)" "rb_bytes (c_readbuf c) = []" "rb_capacity (c_readbuf c) = of_nat READ_ONCE"
      "wb_inv (c_writebuf c)" "wb_pending (c_writebuf c) = []" "can_write (c_writebuf c)"
    and l: "al.ok l" "list_entries l = list_entries (clients s) @ [(fd, next_ptr s)]"
    and pl: "poll_inv (poll_upd s pl n m)"
      "poll_entries (poll_upd s pl n m) = poll_entries s @ [\<lparr>pf_fd = fd, pf_events = POLLIN, pf_revents = 0\<rparr>]"
    and h: "live_pids h = live_pids (hist s)" "total_read h = total_read (hist s)"
      "open_fds h = fd # open_fds (hist s)"
  shows "inv B (poll_upd (s\<lparr>hist := h, heap := (heap s)(next_ptr s := Some c), next_ptr := next_ptr s + 1,
    clients := l\<rparr>) pl n m)" (is "inv B ?s")
proof -
  let ?p = "next_ptr s" and ?cs = "list_entries (clients s)"
  have es: "poll_entries ?s = poll_entries s @ [\<lparr>pf_fd = fd, pf_events = POLLIN, pf_revents = 0\<rparr>]" "poll_inv ?s"
    using pl by (simp_all add: poll_entries_def poll_inv_def)
  have ss: "server_sock ?s = server_sock s" "cpipe0 ?s = cpipe0 s" "heap ?s = (heap s)(?p := Some c)" "hist ?s = h"
    "clients ?s = l" "next_ptr ?s = ?p + 1" "processes ?s = processes s" "queue ?s = queue s" by simp_all
  have keys: "al.keys l = insert fd (al.keys (clients s))" unfolding al.keys_def l(2) by auto
  have need: "x \<in> set (open_fds (hist s))" if "x \<in> insert (server_sock s) (insert (cpipe0 s) (al.keys (clients s)))" for x
    using fds_needed [OF i that] by simp
  have old: "q < ?p" if "(fd', q) \<in> set ?cs" for fd' q using that i by (auto simp: inv_def clients_ok_def)
  have ld: "load ?s = load s" by (simp add: load_def)
  have ok: "client_ok B ?s d" if "client_ok B s d" for d
    using that ld h(2) by (intro client_ok_mono [OF that]) (auto simp: client_ok_def)
  have nw: "\<not> has_write_data (c_writebuf c)" using has_write_data_pending [OF c(5)] c(6) by simp
  then have "wb_count (c_writebuf c) = 0"
    using c(5) by (simp add: wb_count_def has_write_data_def wb_inv_def)
  then have okc: "client_ok B ?s c" using c i ld by (simp add: client_ok_def rb_small_def inv_def)
  have "0 \<le> fd' \<and> fd' < FD_LIMIT \<and> q < ?p + 1 \<and> (\<exists>d. heap ?s q = Some d \<and> c_fd d = fd' \<and> client_ok B ?s d)"
    if e: "(fd', q) \<in> set (list_entries l)" for fd' q
  proof (cases "(fd', q) \<in> set ?cs")
    case True
    obtain d where "heap s q = Some d" "c_fd d = fd'" "client_ok B s d" "0 \<le> fd'" "fd' < FD_LIMIT"
      using inv_client [OF i True] by blast
    with old [OF True] ok show ?thesis by simp
  next
    case False
    with e have "fd' = fd" "q = ?p" by (simp_all add: l(2))
    with fd c(1) okc show ?thesis by simp
  qed
  moreover have "distinct (map snd (list_entries l))"
    using i old by (auto simp: l(2) inv_def clients_ok_def)
  ultimately have "clients_ok B ?s" using l(1) by (auto simp: clients_ok_def simp del: fun_upd_apply)
  moreover have "procs_ok ?s" using i h(1) by (simp add: inv_def procs_ok_def)
  moreover have "queue_ok ?s" using i keys by (auto simp: inv_def queue_ok_def)
  moreover have "fds_ok ?s" using i h(3) keys need fd(3) by (auto simp: inv_def fds_ok_def)
  moreover have "polls_ok ?s"
  proof -
    have "fd \<notin> pf_fd ` set (poll_entries s)"
      using i need fd by (auto simp: inv_def polls_ok_def)
    then have "distinct (filter (\<lambda>fd. fd \<noteq> -1) (map pf_fd (poll_entries ?s)))"
      using i unfolding es by (auto simp: inv_def polls_ok_def)
    moreover have "entry_ok ?s fd' q" if e: "(fd', q) \<in> set (list_entries l)" for fd' q
    proof (cases "(fd', q) \<in> set ?cs")
      case True
      then obtain x where "x \<in> set (poll_entries s)" "pf_fd x = fd'"
          "pf_events x AND POLLOUT \<noteq> 0 \<longleftrightarrow> has_write_data (c_writebuf (the (heap s q)))"
        using i by (fastforce simp: inv_def polls_ok_def entry_ok_def)
      moreover have "the (heap ?s q) = the (heap s q)" using old [OF True] by simp
      ultimately show ?thesis unfolding entry_ok_def es by fastforce
    next
      case False
      with e have "fd' = fd" "q = ?p" by (simp_all add: l(2))
      with nw show ?thesis unfolding entry_ok_def es by simp
    qed
    moreover have "pf_fd ` set (poll_entries ?s) \<subseteq> insert (-1) (insert (server_sock s) (insert (cpipe0 s) (al.keys l)))"
      using i keys unfolding es by (auto simp: inv_def polls_ok_def)
    ultimately show ?thesis using es(2) by (auto simp: polls_ok_def)
  qed
  moreover have "misc_ok ?s" using i by (simp add: inv_def misc_ok_def log_ok_def)
  moreover have "load ?s \<le> B" using ld i by (simp add: inv_def)
  ultimately show ?thesis by (simp add: inv_def)
qed

lemma accept_client_done:
  assumes g: "good s" and r: "rev_ok i s" and j: "i < length (poll_entries s)"
    and e: "pf_fd (poll_entries s ! i) = server_sock s" and os: "os_ok env" and room: "i + pend i s < 2 ^ 30"
  shows "safe (entry_done i s) (server_accept_client env s)"
proof -
  let ?B = "2 * total_read (hist s)" and ?fd = "os_accept env (hist s)"
  have i: "inv ?B s" using g by (simp add: good_def)
  let ?s1 = "sys (Sys_Accept ?fd) s"
  have sd: "can_shutdown ?s1" using inv_can_shutdown [OF i] by simp
  show ?thesis
  proof (cases "?fd = -1")
    case True
    then show ?thesis using sd by (simp add: server_accept_client_def Let_def)
  next
    case False
    then have fd: "0 \<le> ?fd" "?fd < FD_LIMIT" "?fd \<notin> set (open_fds (hist s))"
      using os unfolding os_ok_def accept_ok_def by blast+
    have par: "0 < parallel s" "parallel s \<le> INT_MAX" using i by (simp_all add: inv_def misc_ok_def)
    have "0 < unat (of_nat READ_ONCE :: u64)" by simp
    then obtain rb where rb: "init_readbuf (of_nat READ_ONCE) = Inr rb" "rb_inv rb" "rb_bytes rb = []"
        "rb_capacity rb = of_nat READ_ONCE" by (rule init_readbuf_ok)
    obtain wb where wb: "init_writebuf (parallel s) = Inr wb" "wb_inv wb" "wb_pending wb = []" "can_write wb"
      by (rule init_writebuf_ok [OF par])
    let ?c = "\<lparr>c_fd = ?fd, c_readbuf = rb, c_writebuf = wb\<rparr>" and ?p = "next_ptr s"
    have cl: "al.ok (clients s)" using i by (simp add: inv_def clients_ok_def)
    have nk: "?fd \<notin> al.keys (clients s)" using fds_needed [OF i] fd(3) by blast
    obtain l where l: "list_append (clients s) ?fd ?p = Inr l" "al.ok l"
        "list_entries l = list_entries (clients s) @ [(?fd, ?p)]"
      using al.append_ok [OF cl nk, of ?p] inv_clients_room [OF i] by auto
    let ?s2 = "?s1\<lparr>heap := (heap s)(?p := Some ?c), next_ptr := ?p + 1, clients := l\<rparr>"
    have lg: "log_ok ?s2" using i by (simp add: inv_def misc_ok_def log_ok_def)
    have len: "length (poll_entries s) < 2 ^ 30" using room j by (simp add: pend_def)
    have step: "safe (entry_done i s) (add_to_poll_list ?fd POLLIN t)"
      if t: "t = ?s2\<lparr>hist := h\<rparr>" "live_pids h = live_pids (hist s)" "total_read h = total_read (hist s)"
        "open_fds h = ?fd # open_fds (hist s)" for t h
    proof -
      have pt: "poll_inv t" "poll_entries t = poll_entries s"
        using i unfolding t(1) by (simp_all add: inv_def polls_ok_def poll_inv_def poll_entries_def)
      let ?e = "\<lparr>pf_fd = ?fd, pf_events = POLLIN, pf_revents = 0\<rparr>"
      obtain pl n m where pl: "add_to_poll_list ?fd POLLIN t = Inr (poll_upd t pl n m)" "poll_inv (poll_upd t pl n m)"
          "poll_entries (poll_upd t pl n m) = poll_entries s @ [?e]"
        using add_to_poll_list_ok [OF pt(1), of ?fd POLLIN] pt(2) len by auto
      have eq: "poll_upd t pl n m = poll_upd (s\<lparr>hist := h, heap := (heap s)(?p := Some ?c), next_ptr := ?p + 1, clients := l\<rparr>) pl n m"
        unfolding t(1) by (simp add: sys_def)
      have inv': "inv ?B (poll_upd t pl n m)" unfolding eq
      proof (rule inv_accept [OF i fd _ _ _ _ _ _ _ l(2,3)])
        show "poll_inv (poll_upd s pl n m)" "poll_entries (poll_upd s pl n m) = poll_entries s @ [?e]"
          using pl(2,3) by (simp_all add: poll_inv_def poll_entries_def)
      qed (use rb wb t in simp_all)
      let ?u = "poll_upd t pl n m"
      have u: "clients ?u = l" "heap ?u = (heap s)(?p := Some ?c)" "server_sock ?u = server_sock s" "hist ?u = h"
        unfolding eq by simp_all
      have old: "q \<noteq> ?p" if "(fd', q) \<in> set (list_entries (clients s))" for fd' q
        using that i by (auto simp: inv_def clients_ok_def)
      have "NEWLINE \<notin> set (rb_bytes (c_readbuf (the (heap ?u q))))" if "(fd', q) \<in> set (list_entries l)" for fd' q
        using that g old rb(3) by (auto simp: u l(3) good_def quiet_def)
      then have "quiet ?u" unfolding quiet_def u(1) by blast
      then have gu: "good ?u" using inv' g t(3) by (simp add: good_def u)
      have sf: "?fd \<noteq> server_sock s" using fds_needed [OF i] fd(3) by blast
      have dr: "drop i (map pf_fd (poll_entries s)) = server_sock s # drop (Suc i) (map pf_fd (poll_entries s))"
        using j e by (metis Cons_nth_drop_Suc length_map nth_map)
      have "pend (Suc i) ?u < pend i s"
        using j sf dr by (simp add: pend_def u pl(3))
      moreover have "rev_ok (Suc i) ?u" unfolding rev_ok_def u pl(3)
      proof (intro allI impI)
        fix k assume k: "Suc i \<le> k" "k < length (poll_entries s @ [?e])"
        let ?x = "(poll_entries s @ [?e]) ! k"
        show "(pf_fd ?x = server_sock s \<longrightarrow> pf_revents ?x \<in> {0, POLLIN}) \<and>
          (\<forall>q d. (pf_fd ?x, q) \<in> set (list_entries l) \<longrightarrow> ((heap s)(?p := Some ?c)) q = Some d \<longrightarrow>
            pf_revents ?x AND POLLOUT \<noteq> 0 \<longrightarrow> has_write_data (c_writebuf d))"
        proof (cases "k < length (poll_entries s)")
          case True
          have "pf_fd (poll_entries s ! k) \<noteq> ?fd"
          proof -
            have "pf_fd (poll_entries s ! k) \<in> insert (-1) (insert (server_sock s) (insert (cpipe0 s) (al.keys (clients s))))"
              using i nth_mem [OF True] unfolding inv_def polls_ok_def by blast
            then show ?thesis using fds_needed [OF i] fd by fastforce
          qed
          with True k rev_okD [OF r, of k] old show ?thesis by (auto simp: nth_append l(3))
        next
          case False
          with k have "k = length (poll_entries s)" by simp
          then show ?thesis by simp
        qed
      qed
      ultimately show ?thesis using gu pl(1) u(3) by (simp add: entry_done_def)
    qed
    have "safe (entry_done i s) (bindE (log_msg m ?s2) (add_to_poll_list ?fd POLLIN))" for m
    proof (rule log_msg_ok [OF lg, of m])
      assume "log_msg m ?s2 = Inr (sys (Sys_Log m) ?s2)"
      moreover have "safe (entry_done i s) (add_to_poll_list ?fd POLLIN (sys (Sys_Log m) ?s2))"
        by (rule step [of _ "hist s @ [Sys_Accept ?fd, Sys_Log m]"])
          (use fd in \<open>simp_all add: sys_def live_pids_def open_fds_def\<close>)
      ultimately show ?thesis by simp
    next
      assume "log_msg m ?s2 = Inr ?s2"
      moreover have "safe (entry_done i s) (add_to_poll_list ?fd POLLIN ?s2)"
        by (rule step [of _ "hist s @ [Sys_Accept ?fd]"])
          (use fd in \<open>simp_all add: sys_def\<close>)
      ultimately show ?thesis by simp
    qed
    then show ?thesis using False rb(1) wb(1) l(1) by (simp add: server_accept_client_def Let_def)
  qed
qed

subsection \<open>A pass over the poll list\<close>

lemma handle_entry_done:
  assumes g: "good s" and r: "rev_ok i s" and j: "i < length (poll_entries s)"
    and os: "os_ok env" and room: "i + pend i s < 2 ^ 30"
  shows "safe (entry_done i s) (handle_entry env (int i) (poll_entries s ! i) s)"
proof -
  let ?e = "poll_entries s ! i" and ?B = "2 * total_read (hist s)"
  have i: "inv ?B s" and T: "total_read (hist s) \<le> 2 ^ 28" using g by (simp_all add: good_def)
  have same: "entry_done i s s" using entry_done_frame [OF frame_refl r j g i] .
  have cl: "al.ok (clients s)" using i by (simp add: inv_def clients_ok_def)
  consider (idle) "pf_revents ?e = 0" | (child) "pf_revents ?e \<noteq> 0" "pf_fd ?e = cpipe0 s"
    | (listen) "pf_revents ?e \<noteq> 0" "pf_fd ?e \<noteq> cpipe0 s" "pf_fd ?e = server_sock s"
    | (client) "pf_revents ?e \<noteq> 0" "pf_fd ?e \<noteq> cpipe0 s" "pf_fd ?e \<noteq> server_sock s" by blast
  then show ?thesis
  proof cases
    case idle
    with same show ?thesis by (simp add: handle_entry_def)
  next
    case child
    let ?res = "os_call env (hist s) ''read''" and ?t = "sys (Sys_Call ''read'' (os_call env (hist s) ''read'')) s"
    have t: "inv ?B ?t" "frame s ?t" using inv_sys [OF i] frame_sys by simp_all
    have "safe (entry_done i s) (handle_child_events env ?t)"
      by (rule safe_mono [OF handle_child_events_inv [OF t(1) os]])
        (use T t(2) entry_done_frame [OF frame_trans [OF t(2)] r j g] in auto)
    then show ?thesis using child inv_can_shutdown [OF i] by (simp add: handle_entry_def os_int_def Let_def)
  next
    case listen
    then have "pf_revents ?e = POLLIN" using rev_okD(1) [OF r order_refl j] by simp
    with listen accept_client_done [OF g r j _ os room] show ?thesis by (simp add: handle_entry_def)
  next
    case client
    show ?thesis
    proof (cases rule: al.lookup_cases [OF cl, of "pf_fd ?e"])
      case 1
      with client same show ?thesis by (simp add: handle_entry_def)
    next
      case (2 p)
      have "write_ok env" using os by (simp add: os_ok_def)
      with client 2(1) same close_client_done [OF g 2(2) r j] read_on_client_done [OF g 2(2) r j os]
        write_to_client_done [OF g 2(2) r j refl]
      show ?thesis by (simp add: handle_entry_def)
    qed
  qed
qed

lemma poll_loop_safe:
  assumes "good s" "rev_ok i s" "os_ok env" "i + pend i s < 2 ^ 30" "pend i s < n"
  shows "safe (\<lambda>s'. good s' \<and> server_sock s' = server_sock s) (poll_loop env n (int i) s)"
  using assms
proof (induction n arbitrary: i s)
  case (Suc n)
  have pi: "poll_inv s" using Suc.prems(1) by (simp add: good_def inv_def polls_ok_def)
  note num = length_poll_entries [OF pi]
  show ?case
  proof (cases "i < length (poll_entries s)")
    case True
    have "safe (\<lambda>s'. good s' \<and> server_sock s' = server_sock s)
        (bindE (handle_entry env (int i) (poll_entries s ! i) s) (\<lambda>s. poll_loop env n (int (Suc i)) s))"
    proof (rule safe_bindE [OF handle_entry_done [OF Suc.prems(1,2) True Suc.prems(3,4)]])
      fix t assume t: "entry_done i s t"
      with Suc.prems show "safe (\<lambda>s'. good s' \<and> server_sock s' = server_sock s) (poll_loop env n (int (Suc i)) t)"
        by (intro safe_mono [OF Suc.IH [of t "Suc i"]]) (auto simp: entry_done_def)
    qed
    then show ?thesis using True num poll_cell [OF pi True] by (simp add: add.commute)
  qed (use Suc.prems num in simp)
qed simp

subsection \<open>Scheduling\<close>

lemma inv_pop:
  assumes i: "inv B s" and q: "queue_inv q" "queue_list (queue s) = r # queue_list q"
  shows "2 \<le> B" "inv (B - 2) (s\<lparr>queue := q\<rparr>)" "req_ok r" "frame s (s\<lparr>queue := q\<rparr>)"
proof -
  show "2 \<le> B" using i q(2) by (simp add: inv_def load_def)
  then have "inv (B - 2) (s\<lparr>hist := hist s, processes := processes s, queue := q, parallel := parallel s\<rparr>)"
    by (intro inv_update [OF i]) (use i q in \<open>auto simp: inv_def procs_ok_def queue_ok_def fds_ok_def misc_ok_def load_def\<close>)
  then show "inv (B - 2) (s\<lparr>queue := q\<rparr>)" by simp
  show "req_ok r" using i q by (auto simp: inv_def queue_ok_def)
  show "frame s (s\<lparr>queue := q\<rparr>)" by (simp add: frame_def rel_fun_def option.rel_refl)
qed

text \<open>
  The oldest pending requests are started, never more than there are free slots, until no
  request is pending or no slot is free.
\<close>

definition scheduled :: "unix_server \<Rightarrow> unix_server \<Rightarrow> bool" where
  "scheduled s s' \<longleftrightarrow> parallel s' = parallel s \<and> (\<exists>k. queue_list (queue s') = drop k (queue_list (queue s))) \<and>
     int (length (list_entries (processes s'))) \<le> max (parallel s) (int (length (list_entries (processes s)))) \<and>
     (queue_list (queue s') = [] \<or> parallel s' \<le> int (length (list_entries (processes s'))))"

lemma schedule_new_jobs_inv:
  assumes "inv B s" "os_ok env" "B \<le> 2 ^ 29"
  shows "safe (\<lambda>s'. inv B s' \<and> frame s s' \<and> scheduled s s') (schedule_new_jobs env s)"
  using assms
proof (induction "length (queue_list (queue s))" arbitrary: s rule: less_induct)
  case less
  let ?P = "\<lambda>s'. inv B s' \<and> frame s s' \<and> scheduled s s'"
  have qi: "queue_inv (queue s)" using less.prems(1) by (simp add: inv_def queue_ok_def)
  have len: "list_length (processes s) = int (length (list_entries (processes s)))"
    using less.prems(1) by (intro al.length_law) (simp add: inv_def procs_ok_def al.ok_def)
  show ?case
  proof (cases "list_length (processes s) < parallel s \<and> \<not> queue_is_empty (queue s)")
    case True
    then obtain r q where q: "queue_pop (queue s) = Inr (r, q)" "queue_inv q" "queue_list (queue s) = r # queue_list q"
      using rq.pop_nonempty [OF qi] by metis
    note pop = inv_pop [OF less.prems(1) q(2,3)]
    have "safe ?P (bindE (run_request env r (s\<lparr>queue := q\<rparr>)) (schedule_new_jobs env))"
    proof (rule safe_bindE [OF run_request_inv [OF pop(2,3) less.prems(2)]])
      show "B - 2 + 1 < queue_room" using less.prems(3) by simp
      fix t assume t: "inv (B - 2 + 2) t \<and> frame (s\<lparr>queue := q\<rparr>) t \<and> queue t = queue (s\<lparr>queue := q\<rparr>) \<and>
        parallel t = parallel (s\<lparr>queue := q\<rparr>) \<and>
        length (list_entries (processes t)) \<le> length (list_entries (processes (s\<lparr>queue := q\<rparr>))) + 1"
      then have "scheduled t s' \<Longrightarrow> scheduled s s'" for s'
        using True len q(3) by (auto simp: scheduled_def intro!: exI [of _ "Suc _"])
      moreover have "frame s t" using t frame_trans [OF pop(4)] by blast
      ultimately show "safe ?P (schedule_new_jobs env t)"
        by (intro safe_mono [OF less.hyps [of t]])
          (use t [unfolded le_add_diff_inverse2 [OF pop(1)]] q(3) less.prems in \<open>auto intro: frame_trans\<close>)
    qed
    then show ?thesis using True q(1) by (subst schedule_new_jobs.simps) simp
  next
    case False
    then have "scheduled s s" using rq.empty_law [OF qi] len by (auto simp: scheduled_def intro!: exI [of _ 0])
    with False less.prems show ?thesis by (subst schedule_new_jobs.simps) auto
  qed
qed

subsection \<open>One turn\<close>

lemma keys_bound: "inv B s \<Longrightarrow> card (al.keys (clients s)) \<le> 1048576"
  using inv_clients_room al.length_eq_card [of "clients s"] by (metis inv_def clients_ok_def)

lemma poll_clean_good:
  assumes g: "good s"
  obtains l n where "poll_list_clean s = Inr (s\<lparr>poll_list := l, poll_num := n\<rparr>)" "good (s\<lparr>poll_list := l, poll_num := n\<rparr>)"
    "\<forall>e \<in> set (poll_entries (s\<lparr>poll_list := l, poll_num := n\<rparr>)). pf_fd e \<noteq> -1"
proof -
  have i: "inv (2 * total_read (hist s)) s" using g by (simp add: good_def)
  then have pi: "poll_inv s" by (simp add: inv_def polls_ok_def)
  obtain l n where l: "poll_list_clean s = Inr (s\<lparr>poll_list := l, poll_num := n\<rparr>)" "poll_inv (s\<lparr>poll_list := l, poll_num := n\<rparr>)"
      "mset (poll_entries (s\<lparr>poll_list := l, poll_num := n\<rparr>)) = filter_mset (\<lambda>e. pf_fd e \<noteq> -1) (mset (poll_entries s))"
    using poll_list_clean_ok [OF pi] by blast
  let ?s = "s\<lparr>poll_list := l, poll_num := n\<rparr>" and ?es = "filter (\<lambda>e. pf_fd e \<noteq> -1) (poll_entries s)"
  have m: "mset (poll_entries ?s) = mset ?es" using l(3) by simp
  have st: "set (poll_entries ?s) = set ?es" using m by (rule mset_eq_setD)
  have "mset (filter (\<lambda>fd. fd \<noteq> -1) (map pf_fd (poll_entries ?s))) = mset (filter (\<lambda>fd. fd \<noteq> -1) (map pf_fd ?es))"
    by (simp only: mset_filter mset_map m)
  moreover have "distinct (filter (\<lambda>fd. fd \<noteq> -1) (map pf_fd ?es))"
    using i by (simp add: inv_def polls_ok_def filter_map comp_def)
  ultimately have d: "distinct (filter (\<lambda>fd. fd \<noteq> -1) (map pf_fd (poll_entries ?s)))"
    by (metis mset_eq_imp_distinct_iff)
  have "entry_ok ?s fd p" if e: "(fd, p) \<in> set (list_entries (clients s))" for fd p
  proof -
    have "0 \<le> fd" using inv_client [OF i e] by blast
    moreover have "entry_ok s fd p" using i e by (auto simp: inv_def polls_ok_def)
    ultimately show ?thesis unfolding entry_ok_def st by auto
  qed
  then have "polls_ok ?s" using i l(2) d st by (auto simp: inv_def polls_ok_def)
  then have "inv (2 * total_read (hist s)) ?s"
    using i by (auto simp: inv_def clients_ok_def client_ok_def load_def procs_ok_def queue_ok_def fds_ok_def misc_ok_def log_ok_def)
  then have "good ?s" using g by (simp add: good_def quiet_def)
  then show thesis using that [OF l(1)] st by auto
qed

lemma entries_bound:
  assumes i: "inv B s" and n: "\<forall>e \<in> set (poll_entries s). pf_fd e \<noteq> -1"
  shows "length (poll_entries s) \<le> 1048578"
proof -
  let ?fds = "map pf_fd (poll_entries s)" and ?K = "al.keys (clients s)"
  have "filter (\<lambda>fd. fd \<noteq> -1) ?fds = ?fds" using n by (simp add: filter_id_conv)
  then have "distinct ?fds" and sub: "set ?fds \<subseteq> insert (server_sock s) (insert (cpipe0 s) ?K)"
    using i n by (auto simp: inv_def polls_ok_def)
  then have "length (poll_entries s) = card (set ?fds)" by (metis distinct_card length_map)
  also have "\<dots> \<le> card (insert (server_sock s) (insert (cpipe0 s) ?K))"
    by (rule card_mono [OF _ sub]) (simp add: al.keys_def)
  also have "\<dots> \<le> card ?K + 2"
    using card_insert_le_m1 [of "card ?K + 2" "insert (cpipe0 s) ?K" "server_sock s"]
      card_insert_le_m1 [of "card ?K + 1" ?K "cpipe0 s"] by (simp add: card_insert_if al.keys_def)
  finally show ?thesis using keys_bound [OF i] by simp
qed

lemma set_revents_simps [simp]:
  "clients (set_revents rv s) = clients s" "server_sock (set_revents rv s) = server_sock s"
  "cpipe0 (set_revents rv s) = cpipe0 s" "heap (set_revents rv s) = heap s" "hist (set_revents rv s) = hist s"
  "next_ptr (set_revents rv s) = next_ptr s" "processes (set_revents rv s) = processes s"
  "queue (set_revents rv s) = queue s" "parallel (set_revents rv s) = parallel s"
  "log_ok (set_revents rv s) = log_ok s" "clients_set (set_revents rv s) = clients_set s"
  "load (set_revents rv s) = load s" "poll_num (set_revents rv s) = poll_num s"
  by (simp_all add: set_revents_def log_ok_def load_def)

lemma set_revents_good:
  assumes g: "good s"
  shows "good (set_revents rv s)"
proof -
  let ?s = "set_revents rv s" and ?es = "poll_entries s"
  have i: "inv (2 * total_read (hist s)) s" using g by (simp add: good_def)
  then have pi: "poll_inv s" by (simp add: inv_def polls_ok_def)
  note rv = set_revents_ok [OF pi]
  have fds: "map pf_fd (poll_entries ?s) = map pf_fd ?es" by (rule nth_equalityI) (simp_all add: rv)
  then have fs: "pf_fd ` set (poll_entries ?s) = pf_fd ` set ?es" by (metis list.set_map)
  have "entry_ok ?s fd p" if e: "entry_ok s fd p" for fd p
  proof -
    obtain j where "j < length ?es" "pf_fd (?es ! j) = fd"
        "pf_events (?es ! j) AND POLLOUT \<noteq> 0 \<longleftrightarrow> has_write_data (c_writebuf (the (heap s p)))"
      using e unfolding entry_ok_def by (metis in_set_conv_nth)
    moreover from this have "poll_entries ?s ! j \<in> set (poll_entries ?s)" by (simp add: rv(2))
    ultimately show ?thesis unfolding entry_ok_def by (intro bexI [of _ "poll_entries ?s ! j"]) (simp_all add: rv)
  qed
  then have "polls_ok ?s" using i rv(1) fds fs by (auto simp: inv_def polls_ok_def)
  then have "inv (2 * total_read (hist s)) ?s"
    using i by (auto simp: inv_def clients_ok_def client_ok_def procs_ok_def queue_ok_def fds_ok_def misc_ok_def)
  then show ?thesis using g by (simp add: good_def quiet_def)
qed

lemma set_revents_rev_ok:
  assumes g: "good s" and os: "poll_ok env" "listen_ok env (server_sock s)"
    and rv: "rv = snd (os_poll env h (poll_request s))"
  shows "rev_ok 0 (set_revents rv s)"
proof -
  let ?es = "poll_entries s" and ?l = "poll_request s"
  have i: "inv (2 * total_read (hist s)) s" using g by (simp add: good_def)
  then have pi: "poll_inv s" by (simp add: inv_def polls_ok_def)
  note set = set_revents_ok [OF pi]
  have l: "?l ! j = (pf_fd (?es ! j), pf_events (?es ! j))" "length ?l = length ?es" if "j < length ?es" for j
    using that by (simp_all add: poll_request_entries)
  have a: "rv j = 0 \<or> rv j = POLLIN" if "j < length ?es" "pf_fd (?es ! j) = server_sock s" for j
    using os(2) [unfolded listen_ok_def, rule_format, of j ?l h] l [OF that(1)] that by (simp add: rv)
  have b: "pf_events (?es ! j) AND POLLOUT \<noteq> 0" if "j < length ?es" "rv j AND POLLOUT \<noteq> 0" for j
    using os(1) [unfolded poll_ok_def, rule_format, of j ?l h] l [OF that(1)] that by (simp add: rv)
  have "has_write_data (c_writebuf c)"
    if "j < length ?es" "(pf_fd (?es ! j), p) \<in> set (list_entries (clients s))" "heap s p = Some c" "rv j AND POLLOUT \<noteq> 0" for j p c
    using inv_entry_at [OF i that(2,1) refl] b [OF that(1,4)] that(3) by simp
  with a show ?thesis unfolding rev_ok_def by (auto simp: set)
qed

lemma main_turn_good:
  assumes g: "good s" and os: "os_ok env" "listen_ok env (server_sock s)"
  shows "safe (\<lambda>s'. good s' \<and> server_sock s' = server_sock s) (main_turn env s)"
proof -
  have i: "inv (2 * total_read (hist s)) s" "2 * total_read (hist s) \<le> 2 ^ 29" using g by (simp_all add: good_def)
  have rest: "safe (\<lambda>s'. good s' \<and> server_sock s' = server_sock s)
     (bindE (poll_list_clean t) (\<lambda>s.
     let (res, rv) = os_poll env (hist s) (poll_request s); s = sys (Sys_Poll res) s in
     if res = -1 then shutdown_with_msg ''call to poll failed'' s
     else
       let s = set_revents rv s in
       poll_loop env (3 * nat (poll_num s) + 1) 0 s))" (is "safe ?P _")
    if t: "good t" "server_sock t = server_sock s" for t
  proof -
    obtain l n where l: "poll_list_clean t = Inr (t\<lparr>poll_list := l, poll_num := n\<rparr>)" "good (t\<lparr>poll_list := l, poll_num := n\<rparr>)"
      "\<forall>e \<in> set (poll_entries (t\<lparr>poll_list := l, poll_num := n\<rparr>)). pf_fd e \<noteq> -1"
      by (rule poll_clean_good [OF t(1)])
    define u where "u = t\<lparr>poll_list := l, poll_num := n\<rparr>"
    have u: "good u" "\<forall>e \<in> set (poll_entries u). pf_fd e \<noteq> -1" "server_sock u = server_sock s"
      using l(2,3) t(2) by (simp_all add: u_def)
    obtain res rv where rv: "os_poll env (hist u) (poll_request u) = (res, rv)" by fastforce
    let ?v = "sys (Sys_Poll res) u"
    have iu: "inv (2 * total_read (hist u)) u" using u(1) by (simp add: good_def)
    have iv: "inv (2 * total_read (hist u)) ?v" using inv_sys [OF iu] by simp
    have gv: "good ?v" by (rule frame_good [OF frame_sys u(1)]) (use iv in simp_all)
    let ?w = "set_revents rv ?v"
    have gw: "good ?w" using set_revents_good [OF gv] .
    have req: "poll_request ?v = poll_request u" by (simp add: poll_request_def)
    have rv': "rv = snd (os_poll env (hist u) (poll_request ?v))" by (simp add: rv req)
    have rw: "rev_ok 0 ?w"
      by (rule set_revents_rev_ok [OF gv _ _ rv']) (use os u(3) in \<open>simp_all add: os_ok_def\<close>)
    have pv: "poll_inv ?v" using iv by (simp add: inv_def polls_ok_def)
    have len: "length (poll_entries ?w) = length (poll_entries u)" "length (poll_entries u) \<le> 1048578"
      using set_revents_ok(2) [OF pv] entries_bound [OF iu u(2)] by simp_all
    have num: "nat (poll_num ?w) = length (poll_entries ?w)"
      using length_poll_entries [of ?w] gw by (simp add: good_def inv_def polls_ok_def)
    have pd: "pend 0 ?w \<le> 2 * length (poll_entries ?w)"
      using length_filter_le [of "\<lambda>fd. fd = server_sock ?w" "map pf_fd (poll_entries ?w)"] by (simp add: pend_def)
    have "safe ?P (poll_loop env (3 * nat (poll_num ?w) + 1) (int 0) ?w)"
      by (rule safe_mono [OF poll_loop_safe [OF gw rw os(1)]]) (use pd len num u(3) in auto)
    then show ?thesis using l(1) rv inv_can_shutdown [OF iv] by (simp add: u_def [symmetric] Let_def del: poll_loop.simps)
  qed
  show ?thesis unfolding main_turn_def
    by (rule safe_bindE [OF schedule_new_jobs_inv [OF i(1) os(1) i(2)]])
      (use rest frame_good [OF _ g] in \<open>auto simp: frame_def\<close>)
qed

end
