(* ===== verification/Unix_Startup.thy ===== *)
theory Unix_Startup
  imports Unix_Safety
begin

section \<open>Startup, signals and the whole program\<close>

text \<open>
  The part of \<open>server-unix.c\<close> that runs before the event loop, the signal handlers and \<open>main\<close>.
  The size of \<open>sun_path\<close> is a constant of the system and a parameter here. The lemmas say that a
  successful startup establishes the invariant of the event loop.
\<close>

subsection \<open>Definitions\<close>

text \<open>The values of the global variables when the program starts.\<close>

definition initial_state :: unix_server where
  "initial_state =
     \<lparr>parallel = 1, socketname = None, logging = False, single_client = False, logfile = False,
      queue = \<lparr>q_data = [], q_pointer = 0, q_len = 0, q_capacity = 0\<rparr>,
      processes = \<lparr>l_key = [], l_data = [], l_len = 0, l_capacity = 0\<rparr>, hist = [],
      server_sock = -1, poll_list = [], poll_num = 0, poll_len = 0,
      clients = \<lparr>l_key = [], l_data = [], l_len = 0, l_capacity = 0\<rparr>, clients_set = False,
      current_dir = [], cpipe0 = 0, cpipe1 = 0, heap = (\<lambda>_. None), next_ptr = 0\<rparr>"

text \<open>POSIX \<open>dirname\<close> and \<open>basename\<close>.\<close>

abbreviation SLASH :: char where "SLASH \<equiv> CHR ''/''"

definition strip_slashes :: "string \<Rightarrow> string" where
  "strip_slashes p = rev (dropWhile (\<lambda>c. c = SLASH) (rev p))"

definition basename :: "string \<Rightarrow> string" where
  "basename p =
     (if p = [] then ''.''
      else if strip_slashes p = [] then ''/''
      else rev (takeWhile (\<lambda>c. c \<noteq> SLASH) (rev (strip_slashes p))))"

definition dirname :: "string \<Rightarrow> string" where
  "dirname p =
     (let q = rev (dropWhile (\<lambda>c. c \<noteq> SLASH) (rev (strip_slashes p)))
      in if p \<noteq> [] \<and> strip_slashes p = [] then ''/''
         else if q = [] then ''.''
         else if strip_slashes q = [] then ''/'' else strip_slashes q)"

definition new_fd :: "os \<Rightarrow> string \<Rightarrow> unix_server \<Rightarrow> int \<times> unix_server" where
  "new_fd env name s = (let fd = os_call env (hist s) name in (fd, sys (Sys_Newfd name fd) s))"

definition check_call :: "os \<Rightarrow> string \<Rightarrow> string \<Rightarrow> unix_server \<Rightarrow> unix_server res" where
  "check_call env name msg s =
     (let (res, s) = os_int env name s in if res = -1 then shutdown_with_msg msg s else Inr s)"

text \<open>The handler runs between two steps of the main program.\<close>

definition sigterm_handler :: "unix_server \<Rightarrow> 'b res" where
  "sigterm_handler s = bindE (kill_all_processes unix_kill s) (shutdown_with_msg '''')"

definition set_sigterm_handler :: "os \<Rightarrow> unix_server \<Rightarrow> unix_server res" where
  "set_sigterm_handler env s =
     bindE (check_call env ''sigaction'' ''error installing signal handler'' s) (\<lambda>s.
     bindE (check_call env ''sigaction'' ''error installing signal handler'' s) (\<lambda>s.
     check_call env ''sigaction'' ''error installing signal handler'' s))"

text \<open>A failed \<open>write\<close> on the pipe is an error unless the pipe is full or the call was interrupted.\<close>

definition sigchld_handle :: "os \<Rightarrow> unix_server \<Rightarrow> unix_server res" where
  "sigchld_handle env s =
     (let res = os_write env (hist s) (cpipe1 s) ''x'';
          s = sys (Sys_Write (cpipe1 s) ''x'' res) s;
          (retry, s) = os_int env ''EAGAIN or EINTR'' s in
      if res = -1 \<and> retry = 0 then shutdown_with_msg ''error writing to pipe'' s else Inr s)"

definition setup_child_pipe :: "os \<Rightarrow> unix_server \<Rightarrow> unix_server res" where
  "setup_child_pipe env s =
     bindE (check_call env ''pipe'' ''error creating pipe'' s) (\<lambda>s.
     let (r, s) = new_fd env ''pipe read end'' s; (w, s) = new_fd env ''pipe write end'' s;
         s = s\<lparr>cpipe0 := r, cpipe1 := w\<rparr> in
     bindE (check_call env ''fcntl'' ''error getting flags on pipe'' s) (\<lambda>s.
     bindE (check_call env ''fcntl'' ''error setting flags on pipe'' s) (\<lambda>s.
     bindE (check_call env ''fcntl'' ''error getting flags on pipe'' s) (\<lambda>s.
     bindE (check_call env ''fcntl'' ''error setting flags on pipe'' s) (\<lambda>s.
     bindE (check_call env ''sigaction'' ''error installing signal handler'' s) (\<lambda>s.
     add_to_poll_list (cpipe0 s) POLLIN s))))))"

text \<open>
  \<open>server_init_listening\<close> in four parts: the directories, the data structures, the creation of the
  socket, and its activation.
\<close>

definition listen_socket :: "os \<Rightarrow> int \<Rightarrow> unix_server \<Rightarrow> unix_server res" where
  "listen_socket env cur_dir s =
     bindE (check_call env ''bind'' ''error binding socket'' s) (\<lambda>s.
     bindE (c_int (parallel s * 2)) (\<lambda>_.
     bindE (check_call env ''listen'' ''error listening on socket'' s) (\<lambda>s.
     bindE (check_call env ''fchdir'' ''error when switching back to current directory'' s) (\<lambda>s.
     let s = sys (Sys_Close cur_dir) s in
     bindE (check_call env ''close'' ''error closing descriptor to current dir'' s) (\<lambda>s.
     bindE (add_to_poll_list (server_sock s) POLLIN s) (\<lambda>s.
     let s = init_process_list s in
     bindE (setup_child_pipe env s) (set_sigterm_handler env)))))))"

definition init_socket :: "os \<Rightarrow> string \<Rightarrow> int \<Rightarrow> unix_server \<Rightarrow> unix_server res" where
  "init_socket env filen cur_dir s =
     (let (sock, s) = new_fd env ''socket'' s; s = s\<lparr>server_sock := sock\<rparr>;
          (res, s) = os_int env (''unlink '' @ filen) s;
          (enoent, s) = os_int env ''ENOENT'' s in
      if res = -1 \<and> enoent = 0 then shutdown_with_msg ''error deleting socket'' s
      else listen_socket env cur_dir s)"

definition init_data :: "os \<Rightarrow> nat \<Rightarrow> string \<Rightarrow> int \<Rightarrow> unix_server \<Rightarrow> unix_server res" where
  "init_data env path_max filen cur_dir s =
     (let s = init_logging (os_call env (hist s) ''fopen'' \<noteq> -1) s in
      bindE init_request_queue (\<lambda>q.
      bindE (c_int (2 + parallel s)) (\<lambda>len.
      let s = s\<lparr>queue := q, clients := init_list (parallel s), clients_set := True,
                poll_len := len, poll_list := c_malloc (nat len), poll_num := 0\<rparr> in
      if length filen + 1 > path_max then shutdown_with_msg ''basename of filename too long'' s
      else init_socket env filen cur_dir s)))"

definition server_init_listening :: "os \<Rightarrow> nat \<Rightarrow> string \<Rightarrow> unix_server \<Rightarrow> unix_server res" where
  "server_init_listening env path_max name s =
     (let (cur_dir, s) = new_fd env ''open'' (s\<lparr>current_dir := os_getcwd env\<rparr>) in
      if cur_dir = -1 then shutdown_with_msg ''error when opening current directory'' s
      else
        bindE (check_call env (''chdir '' @ dirname name) ''error when switching to socket directory'' s)
          (init_data env path_max (basename name) cur_dir))"

text \<open>\<open>main\<close> up to the \<open>n\<close>th turn of its loop.\<close>

fun turns :: "os \<Rightarrow> nat \<Rightarrow> unix_server \<Rightarrow> unix_server res" where
  "turns env 0 s = Inr s"
| "turns env (Suc n) s = bindE (main_turn env s) (turns env n)"

definition server_main :: "os \<Rightarrow> nat \<Rightarrow> (string \<Rightarrow> bool) \<Rightarrow> (char \<times> string) list \<Rightarrow> int \<Rightarrow> int \<Rightarrow> nat \<Rightarrow> unix_server res" where
  "server_main env path_max einval opts optind argc n =
     bindE (parse_options einval opts optind argc initial_state) (\<lambda>s.
     bindE (server_init_listening env path_max (the (socketname s)) s) (turns env n))"

subsection \<open>What startup relies on\<close>

text \<open>
  New descriptors are fresh; \<open>pipe\<close> gives two of them when it succeeds; \<open>bind\<close> fails on an
  invalid descriptor. With logging, the log file can be opened, and nothing fails before that.
\<close>

definition startup_ok :: "os \<Rightarrow> bool" where
  "startup_ok env \<longleftrightarrow>
     (\<forall>h name. name \<in> {''open'', ''socket'', ''pipe read end'', ''pipe write end''} \<longrightarrow>
        os_call env h name = -1 \<or> (0 \<le> os_call env h name \<and> os_call env h name \<notin> set (open_fds h))) \<and>
     (\<forall>h. 0 \<le> os_call env h ''pipe read end'') \<and>
     (\<forall>h. Sys_Newfd ''socket'' (-1) \<in> set h \<longrightarrow> os_call env h ''bind'' = -1)"

definition log_startup_ok :: "os \<Rightarrow> bool" where
  "log_startup_ok env \<longleftrightarrow> (\<forall>h. os_call env h ''open'' \<noteq> -1 \<and> os_call env h ''fopen'' \<noteq> -1) \<and>
     (\<forall>h d. os_call env h (''chdir '' @ d) \<noteq> -1)"

text \<open>
  The server asks for one socket; \<open>k\<close> is its descriptor, and it has no error condition.
\<close>

definition socket_ok :: "os \<Rightarrow> int \<Rightarrow> bool" where
  "socket_ok env k \<longleftrightarrow> (\<forall>h. os_call env h ''socket'' = -1 \<or> os_call env h ''socket'' = k) \<and> listen_ok env k"

lemma startup_fresh:
  "startup_ok env \<Longrightarrow> name \<in> {''open'', ''socket'', ''pipe read end'', ''pipe write end''} \<Longrightarrow>
     os_call env h name \<noteq> -1 \<Longrightarrow> 0 \<le> os_call env h name \<and> os_call env h name \<notin> set (open_fds h)"
  unfolding startup_ok_def by blast

lemma startup_pipe: "startup_ok env \<Longrightarrow> 0 \<le> os_call env h ''pipe read end''"
  unfolding startup_ok_def by blast

lemma startup_bind:
  "startup_ok env \<Longrightarrow> os_call env h ''bind'' \<noteq> -1 \<Longrightarrow> Sys_Newfd ''socket'' (-1) \<notin> set h"
  unfolding startup_ok_def by blast

subsection \<open>Startup establishes the invariant\<close>

lemma shutdown_early [simp]: "\<not> clients_set s \<Longrightarrow> log_ok s \<Longrightarrow> safe P (shutdown_with_msg m s)"
  by (auto simp: shutdown_with_msg_def Let_def)

lemma check_call_safe:
  assumes "os_call env (hist s) name = -1 \<Longrightarrow> safe P (shutdown_with_msg msg (sys (Sys_Call name (-1)) s))"
    and "os_call env (hist s) name \<noteq> -1 \<Longrightarrow> P (sys (Sys_Call name (os_call env (hist s) name)) s)"
  shows "safe P (check_call env name msg s)"
  using assms by (auto simp: check_call_def os_int_def Let_def)

text \<open>
  \<open>boot s es F\<close>: the global structures are set up and empty, the poll list holds \<open>es\<close>, no
  process was started, nothing was read, and the descriptors \<open>F\<close> are open.
\<close>

definition boot :: "unix_server \<Rightarrow> pollfd list \<Rightarrow> int set \<Rightarrow> bool" where
  "boot s es F \<longleftrightarrow> list_inv (clients s) \<and> list_entries (clients s) = [] \<and> clients_set s \<and> log_ok s \<and>
     0 < parallel s \<and> parallel s \<le> INT_MAX \<and> queue_inv (queue s) \<and> queue_list (queue s) = [] \<and>
     poll_inv s \<and> poll_entries s = es \<and> live_pids (hist s) = [] \<and> total_read (hist s) = 0 \<and>
     F \<subseteq> set (open_fds (hist s))"

lemma boot_can_shutdown [simp]: "boot s es F \<Longrightarrow> can_shutdown s"
  by (simp add: boot_def can_shutdown_def)

lemma boot_call [simp]: "boot (sys (Sys_Call name r) s) es F = boot s es F"
  by (simp add: boot_def)

lemma boot_pipe [simp]: "boot (s\<lparr>cpipe0 := a, cpipe1 := b\<rparr>) es F = boot s es F"
  by (auto simp: boot_def poll_inv_def poll_entries_def log_ok_def)

lemma boot_sock [simp]: "boot (s\<lparr>server_sock := k\<rparr>) es F = boot s es F"
  by (auto simp: boot_def poll_inv_def poll_entries_def log_ok_def)

lemma boot_mono: "boot s es F \<Longrightarrow> G \<subseteq> F \<Longrightarrow> boot s es G"
  by (auto simp: boot_def)

lemma boot_new_fd: "boot s es F \<Longrightarrow> boot (sys (Sys_Newfd name fd) s) es (if 0 \<le> fd then insert fd F else F)"
  by (auto simp: boot_def)

lemma boot_close: "boot s es (insert fd F) \<Longrightarrow> fd \<notin> F \<Longrightarrow> boot (sys (Sys_Close fd) s) es F"
  by (auto simp: boot_def)

lemma check_call_boot:
  assumes "boot s es F"
  shows "safe (\<lambda>s'. boot s' es F \<and> server_sock s' = server_sock s \<and> cpipe0 s' = cpipe0 s \<and>
    processes s' = processes s \<and> heap s' = heap s \<and> parallel s' = parallel s \<and> os_call env (hist s) name \<noteq> -1) (check_call env name msg s)"
  using assms by (intro check_call_safe) simp_all

lemma add_to_poll_list_boot:
  assumes b: "boot s es F" and n: "length es < 2 ^ 30"
  shows "safe (\<lambda>s'. boot s' (es @ [\<lparr>pf_fd = fd, pf_events = ev, pf_revents = 0\<rparr>]) F \<and>
    server_sock s' = server_sock s \<and> cpipe0 s' = cpipe0 s \<and> processes s' = processes s \<and> heap s' = heap s)
    (add_to_poll_list fd ev s)"
proof -
  have "poll_inv s" "length (poll_entries s) < 2 ^ 30" using b n by (simp_all add: boot_def)
  then obtain l n m where "add_to_poll_list fd ev s = Inr (poll_upd s l n m)" "poll_inv (poll_upd s l n m)"
      "poll_entries (poll_upd s l n m) = poll_entries s @ [\<lparr>pf_fd = fd, pf_events = ev, pf_revents = 0\<rparr>]"
    using add_to_poll_list_ok by blast
  with b show ?thesis by (simp add: boot_def log_ok_def)
qed

text \<open>A booted server satisfies the invariant.\<close>

abbreviation listen_entry :: "int \<Rightarrow> pollfd" where
  "listen_entry fd \<equiv> \<lparr>pf_fd = fd, pf_events = POLLIN, pf_revents = 0\<rparr>"

lemma boot_good:
  assumes b: "boot s [listen_entry (server_sock s), listen_entry (cpipe0 s)] {server_sock s, cpipe0 s}"
    and fd: "server_sock s \<noteq> cpipe0 s" "0 \<le> server_sock s" "0 \<le> cpipe0 s"
    and p: "list_inv (processes s)" "list_entries (processes s) = []"
  shows "good s"
proof -
  have k: "al.keys (clients s) = {}" "al.keys (processes s) = {}" using b p by (simp_all add: al.keys_def boot_def)
  have "load s = 0" using b p by (simp add: load_def boot_def)
  with b fd p k show ?thesis
    by (simp add: good_def quiet_def inv_defs boot_def al.ok_def)
qed

lemma set_sigterm_boot:
  assumes b: "boot s es F"
  shows "safe (\<lambda>s'. boot s' es F \<and> server_sock s' = server_sock s \<and> cpipe0 s' = cpipe0 s \<and>
    processes s' = processes s \<and> heap s' = heap s) (set_sigterm_handler env s)"
  unfolding set_sigterm_handler_def
  by (intro safe_bindE [OF check_call_boot [OF b]] safe_bindE [OF check_call_boot] safe_mono [OF check_call_boot])
    auto

lemma setup_child_pipe_boot:
  assumes b: "boot s es F" and n: "length es < 2 ^ 30" and os: "startup_ok env"
  shows "safe (\<lambda>s'. boot s' (es @ [listen_entry (cpipe0 s')]) (insert (cpipe0 s') F) \<and>
    server_sock s' = server_sock s \<and> processes s' = processes s \<and> heap s' = heap s \<and>
    cpipe0 s' \<notin> F \<and> 0 \<le> cpipe0 s') (setup_child_pipe env s)"
proof -
  let ?P = "\<lambda>s'. boot s' (es @ [listen_entry (cpipe0 s')]) (insert (cpipe0 s') F) \<and>
    server_sock s' = server_sock s \<and> processes s' = processes s \<and> heap s' = heap s \<and>
    cpipe0 s' \<notin> F \<and> 0 \<le> cpipe0 s'"
  have rest: "safe ?P
     (bindE (check_call env ''fcntl'' ''error getting flags on pipe'' t) (\<lambda>s.
     bindE (check_call env ''fcntl'' ''error setting flags on pipe'' s) (\<lambda>s.
     bindE (check_call env ''fcntl'' ''error getting flags on pipe'' s) (\<lambda>s.
     bindE (check_call env ''fcntl'' ''error setting flags on pipe'' s) (\<lambda>s.
     bindE (check_call env ''sigaction'' ''error installing signal handler'' s) (\<lambda>s.
     add_to_poll_list (cpipe0 s) POLLIN s))))))"
    if t: "boot t es (insert r F)" "server_sock t = server_sock s" "processes t = processes s" "heap t = heap s"
      "cpipe0 t = r" "0 \<le> r" "r \<notin> F" for t r
    by (rule safe_bindE [OF check_call_boot [OF t(1)]], (rule safe_bindE [OF check_call_boot], blast)+,
        rule safe_mono [OF add_to_poll_list_boot]) (use n t in auto)
  have pipe: "safe ?P (let (r, s) = new_fd env ''pipe read end'' u; (w, s) = new_fd env ''pipe write end'' s;
         s = s\<lparr>cpipe0 := r, cpipe1 := w\<rparr> in
     bindE (check_call env ''fcntl'' ''error getting flags on pipe'' s) (\<lambda>s.
     bindE (check_call env ''fcntl'' ''error setting flags on pipe'' s) (\<lambda>s.
     bindE (check_call env ''fcntl'' ''error getting flags on pipe'' s) (\<lambda>s.
     bindE (check_call env ''fcntl'' ''error setting flags on pipe'' s) (\<lambda>s.
     bindE (check_call env ''sigaction'' ''error installing signal handler'' s) (\<lambda>s.
     add_to_poll_list (cpipe0 s) POLLIN s))))))"
    if u: "boot u es F" "server_sock u = server_sock s" "processes u = processes s" "heap u = heap s" for u
  proof -
    let ?r = "os_call env (hist u) ''pipe read end''"
    let ?t = "sys (Sys_Newfd ''pipe read end'' ?r) u"
    let ?w = "os_call env (hist ?t) ''pipe write end''"
    let ?v = "(sys (Sys_Newfd ''pipe write end'' ?w) ?t)\<lparr>cpipe0 := ?r, cpipe1 := ?w\<rparr>"
    have r: "0 \<le> ?r" "?r \<notin> set (open_fds (hist u))"
      using startup_pipe [OF os, of "hist u"] startup_fresh [OF os, of "''pipe read end''" "hist u"] by auto
    have "boot (sys (Sys_Newfd ''pipe write end'' ?w) ?t) es (insert ?r F)"
      using boot_new_fd [OF boot_new_fd [OF u(1), of "''pipe read end''" ?r], of "''pipe write end''" ?w] r(1)
      by (auto simp: boot_def split: if_splits)
    then have "boot ?v es (insert ?r F)" by simp
    moreover have "?r \<notin> F" using r(2) u(1) by (auto simp: boot_def)
    ultimately have "safe ?P
     (bindE (check_call env ''fcntl'' ''error getting flags on pipe'' ?v) (\<lambda>s.
     bindE (check_call env ''fcntl'' ''error setting flags on pipe'' s) (\<lambda>s.
     bindE (check_call env ''fcntl'' ''error getting flags on pipe'' s) (\<lambda>s.
     bindE (check_call env ''fcntl'' ''error setting flags on pipe'' s) (\<lambda>s.
     bindE (check_call env ''sigaction'' ''error installing signal handler'' s) (\<lambda>s.
     add_to_poll_list (cpipe0 s) POLLIN s))))))"
      using u r(1) by (intro rest) auto
    then show ?thesis by (simp add: new_fd_def Let_def)
  qed
  show ?thesis unfolding setup_child_pipe_def
    by (rule safe_bindE [OF check_call_boot [OF b]]) (rule pipe, auto)
qed

lemma last_stage_good:
  assumes t: "boot t [listen_entry k] {k}" "server_sock t = k" "0 \<le> k" and os: "startup_ok env"
  shows "safe (\<lambda>s. good s \<and> server_sock s = k) (bindE (setup_child_pipe env (init_process_list t)) (set_sigterm_handler env))"
proof -
  let ?t = "init_process_list t"
  have bt: "boot ?t [listen_entry k] {k}"
    using t(1) by (simp add: init_process_list_def boot_def log_ok_def)
  have pt: "list_inv (processes ?t)" "list_entries (processes ?t) = []"
    using init_list_ok [of "parallel t"] t(1) by (simp_all add: init_process_list_def boot_def)
  have st: "server_sock ?t = k" using t(2) by (simp add: init_process_list_def)
  show ?thesis
  proof (rule safe_bindE [OF setup_child_pipe_boot [OF bt _ os]])
    fix u assume u: "boot u ([listen_entry k] @ [listen_entry (cpipe0 u)]) (insert (cpipe0 u) {k}) \<and>
      server_sock u = server_sock ?t \<and> processes u = processes ?t \<and> heap u = heap ?t \<and> cpipe0 u \<notin> {k} \<and> 0 \<le> cpipe0 u"
    then have "boot u [listen_entry k, listen_entry (cpipe0 u)] {k, cpipe0 u}" by (simp add: insert_commute)
    then show "safe (\<lambda>s. good s \<and> server_sock s = k) (set_sigterm_handler env u)"
      by (rule safe_mono [OF set_sigterm_boot]) (rule conjI, rule boot_good, use u st t(3) pt in auto)
  qed simp
qed

lemma listen_socket_good:
  assumes y: "boot y [] (insert cur_dir (if 0 \<le> k then {k} else {}))" "server_sock y = k"
      "Sys_Newfd ''socket'' k \<in> set (hist y)" and fr: "k = -1 \<or> 0 \<le> k" and kc: "k \<noteq> cur_dir"
    and par: "parallel y < 2 ^ 30" and os: "startup_ok env"
  shows "safe (\<lambda>s. good s \<and> server_sock s = k) (listen_socket env cur_dir y)"
  unfolding listen_socket_def
proof (rule safe_bindE [OF check_call_boot [OF y(1)]], elim conjE)
  fix t assume t: "boot t [] (insert cur_dir (if 0 \<le> k then {k} else {}))" "server_sock t = server_sock y"
    "parallel t = parallel y" "os_call env (hist y) ''bind'' \<noteq> - 1"
  have k: "0 \<le> k" using startup_bind [OF os t(4)] y(3) fr by auto
  have par2: "c_int (parallel t * 2) = Inr (parallel t * 2)"
    using t(1,3) par by (intro c_int_ok) (simp add: in_int_def boot_def)
  have bt: "boot t [] {cur_dir, k}" using t(1) k by simp
  have close: "boot (sys (Sys_Close cur_dir) v) [] {k}" if "boot v [] {cur_dir, k}" for v
    by (rule boot_close [OF that]) (use kc in auto)
  show "safe (\<lambda>s. good s \<and> server_sock s = k) (bindE (c_int (parallel t * 2)) (\<lambda>_.
     bindE (check_call env ''listen'' ''error listening on socket'' t) (\<lambda>s.
     bindE (check_call env ''fchdir'' ''error when switching back to current directory'' s) (\<lambda>s.
     let s = sys (Sys_Close cur_dir) s in
     bindE (check_call env ''close'' ''error closing descriptor to current dir'' s) (\<lambda>s.
     bindE (add_to_poll_list (server_sock s) POLLIN s) (\<lambda>s.
     let s = init_process_list s in
     bindE (setup_child_pipe env s) (set_sigterm_handler env)))))))"
    unfolding par2 bindE_simps Let_def
    apply (rule safe_bindE [OF check_call_boot [OF bt]], elim conjE)
    apply (rule safe_bindE [OF check_call_boot], assumption, elim conjE)
    apply (rule safe_bindE [OF check_call_boot [OF close]], assumption, elim conjE)
    apply (rule safe_bindE [OF add_to_poll_list_boot], assumption, simp, elim conjE)
    by (rule last_stage_good [where k = k]) (use t(2) y(2) k os in auto)
qed

lemma init_socket_good:
  assumes b: "boot s [] {cur_dir}" and os: "startup_ok env" and par: "parallel s < 2 ^ 30" and cd: "0 \<le> cur_dir"
    and so: "socket_ok env k"
  shows "safe (\<lambda>s. good s \<and> server_sock s = k) (init_socket env filen cur_dir s)"
proof -
  let ?P = "\<lambda>s. good s \<and> server_sock s = k"
  define k' where "k' = os_call env (hist s) ''socket''"
  have k': "k' = -1 \<or> k' = k" using so by (auto simp: socket_ok_def k'_def)
  have fr: "k' = -1 \<or> (0 \<le> k' \<and> k' \<notin> set (open_fds (hist s)))"
    using startup_fresh [OF os, of "''socket''" "hist s"] by (auto simp: k'_def)
  have kc: "k' \<noteq> cur_dir" using fr b cd by (auto simp: boot_def)
  have bk: "boot (sys (Sys_Newfd ''socket'' k') s) [] (insert cur_dir (if 0 \<le> k' then {k'} else {}))"
    by (rule boot_mono [OF boot_new_fd [OF b, of "''socket''" k']]) auto
  define y where "y = (\<lambda>a b. sys (Sys_Call ''ENOENT'' b) (sys (Sys_Call (''unlink '' @ filen) a)
    ((sys (Sys_Newfd ''socket'' k') s)\<lparr>server_sock := k'\<rparr>)))"
  have by': "boot (y a b) [] (insert cur_dir (if 0 \<le> k' then {k'} else {}))" for a b
    unfolding y_def boot_call boot_sock by (rule bk)
  have "safe (\<lambda>s. good s \<and> server_sock s = k') (listen_socket env cur_dir (y a b))" for a b
    by (rule listen_socket_good [OF by' _ _ _ kc _ os]) (use fr par in \<open>auto simp: y_def\<close>)
  then have "safe ?P (listen_socket env cur_dir (y a b))" for a b
    by (rule safe_mono) (use k' in \<open>auto simp: good_def inv_def fds_ok_def\<close>)
  moreover have "can_shutdown (y a b)" for a b using by' by (rule boot_can_shutdown)
  ultimately show ?thesis
    by (simp add: init_socket_def new_fd_def os_int_def Let_def k'_def [symmetric] y_def)
qed

lemma init_logging_simps [simp]:
  "clients (init_logging ok s) = clients s" "parallel (init_logging ok s) = parallel s"
  "heap (init_logging ok s) = heap s" "live_pids (hist (init_logging ok s)) = live_pids (hist s)"
  "total_read (hist (init_logging ok s)) = total_read (hist s)"
  "open_fds (hist (init_logging ok s)) = open_fds (hist s)"
  "\<not> logging s \<or> ok \<Longrightarrow> log_ok (init_logging ok s)"
  by (simp_all add: init_logging_def log_ok_def sys_def)

lemma init_data_good:
  assumes s: "\<not> logging s \<or> log_startup_ok env" "0 < parallel s" "live_pids (hist s) = []" "total_read (hist s) = 0"
      "cur_dir \<in> set (open_fds (hist s))" "0 \<le> cur_dir"
    and par: "parallel s < 2 ^ 30" and os: "startup_ok env" "socket_ok env k"
  shows "safe (\<lambda>s. good s \<and> server_sock s = k) (init_data env path_max filen cur_dir s)"
proof -
  let ?u = "init_logging (os_call env (hist s) ''fopen'' \<noteq> -1) s" and ?len = "2 + parallel s"
  obtain q :: "request t_queue" where q: "init_request_queue = Inr q" "queue_inv q" "queue_list q = []"
    by (rule init_request_queue_ok)
  let ?w = "?u\<lparr>queue := q, clients := init_list (parallel s), clients_set := True,
        poll_len := ?len, poll_list := c_malloc (nat ?len), poll_num := 0\<rparr>"
  have len: "c_int ?len = Inr ?len" using s(2) par by (intro c_int_ok) (simp add: in_int_def)
  have "log_ok ?u" using s(1) by (intro init_logging_simps) (auto simp: log_startup_ok_def)
  moreover have "list_inv (init_list (parallel s))" "list_entries (init_list (parallel s)) = []"
    using init_list_ok [of "parallel s"] s(2) par by simp_all
  ultimately have bw: "boot ?w [] {cur_dir}"
    using s par q by (simp add: boot_def poll_inv_def poll_entries_def log_ok_def)
  then have "safe (\<lambda>s. good s \<and> server_sock s = k) (init_socket env filen cur_dir ?w)"
    using par s(6) by (intro init_socket_good [OF _ os(1) _ _ os(2)]) simp_all
  with bw show ?thesis
    unfolding init_data_def Let_def q(1) bindE_simps init_logging_simps len by simp
qed

lemma server_init_good:
  assumes s0: "hist s = []" "\<not> clients_set s" "\<not> logfile s" "0 < parallel s"
    and par: "parallel s < 2 ^ 30" and os: "startup_ok env" "socket_ok env k" and lg: "\<not> logging s \<or> log_startup_ok env"
  shows "safe (\<lambda>s. good s \<and> server_sock s = k) (server_init_listening env path_max name s)"
proof -
  let ?P = "\<lambda>s. good s \<and> server_sock s = k" and ?cd = "os_call env [] ''open''"
  define t where "t = sys (Sys_Newfd ''open'' ?cd) (s\<lparr>current_dir := os_getcwd env\<rparr>)"
  have t: "hist t = [Sys_Newfd ''open'' ?cd]" "\<not> clients_set t" "\<not> logfile t" "parallel t = parallel s" "logging t = logging s"
    using s0 by (simp_all add: t_def)
  have early: "safe ?P (shutdown_with_msg m t)" if "?cd = -1" for m
    using that t(2,5) lg by (intro shutdown_early) (auto simp: log_ok_def log_startup_ok_def)
  have "safe ?P (bindE (check_call env (''chdir '' @ d) m t) (init_data env path_max filen ?cd))" if "?cd \<noteq> -1" for d m filen
  proof (rule safe_bindE [OF check_call_safe [where P = "\<lambda>u. \<exists>n r. u = sys (Sys_Call n r) t"]])
    assume "os_call env (hist t) (''chdir '' @ d) = -1"
    then have "\<not> logging t" using lg t(5) unfolding log_startup_ok_def by auto
    then show "safe (\<lambda>u. \<exists>n r. u = sys (Sys_Call n r) t) (shutdown_with_msg m (sys (Sys_Call (''chdir '' @ d) (- 1)) t))"
      using t(2) by (intro shutdown_early) (simp_all add: log_ok_def)
  next
    fix u assume u: "\<exists>n r. u = sys (Sys_Call n r) t"
    have cd: "0 \<le> ?cd" using startup_fresh [OF os(1), of "''open''" "[]"] that by simp
    show "safe ?P (init_data env path_max filen ?cd u)"
      by (rule init_data_good [OF _ _ _ _ _ cd _ os])
        (use u t lg s0(4) par cd in \<open>auto simp: live_pids_def open_fds_def\<close>)
  qed blast
  with early show ?thesis using s0(1)
    by (simp add: server_init_listening_def new_fd_def Let_def t_def [symmetric])
qed

subsection \<open>The whole program\<close>

lemma turns_good:
  "good s \<Longrightarrow> os_ok env \<Longrightarrow> listen_ok env (server_sock s) \<Longrightarrow> safe good (turns env n s)"
proof (induction n arbitrary: s)
  case (Suc n)
  then show ?case by (auto intro!: safe_bindE [OF main_turn_good])
qed simp

lemma parse_options_frame:
  fixes s :: unix_server
  shows "parse_option_list einval opts s = Inr s' \<Longrightarrow> hist s' = hist s \<and> logfile s' = logfile s \<and>
    clients_set s' = clients_set s \<and> heap s' = heap s"
  by (induction einval opts s rule: parse_option_list.induct) (auto simp: Let_def split: if_splits)

lemma parse_options_initial:
  assumes "parse_options einval opts optind argc initial_state = Inr s"
  shows "hist s = []" "\<not> clients_set s" "\<not> logfile s" "heap s = (\<lambda>_. None)" "0 < parallel s" "socketname s \<noteq> None"
proof -
  have p: "parse_option_list einval opts initial_state = Inr s" and so: "socketname s \<noteq> None"
    using assms by (auto simp: parse_options_def bindE_Inr_iff split: if_splits)
  have "0 < parallel initial_state" "in_int (parallel initial_state)" by (simp_all add: initial_state_def in_int_def)
  with parse_option_list_parallel [OF p] show "0 < parallel s" by simp
  show "hist s = []" "\<not> logfile s" "\<not> clients_set s" "heap s = (\<lambda>_. None)"
    using parse_options_frame [OF p] by (simp_all add: initial_state_def)
  show "socketname s \<noteq> None" by (rule so)
qed

lemma safe_exit: "r = Inl (Exit c h) \<Longrightarrow> safe P r"
  by simp

lemma parse_option_list_safe: "safe (\<lambda>s'. True) (parse_option_list einval opts s)"
  by (induction einval opts s rule: parse_option_list.induct) (auto simp: Let_def)

lemma parse_options_safe: "safe (\<lambda>s'. parse_options einval opts optind argc s = Inr s') (parse_options einval opts optind argc s)"
proof -
  have "safe (\<lambda>s'. True) (parse_options einval opts optind argc s)"
    unfolding parse_options_def by (rule safe_bindE [OF parse_option_list_safe]) simp
  then show ?thesis by (auto simp: safe_def split: sum.splits stop.splits)
qed

lemma server_main_good:
  assumes os: "os_ok env" "startup_ok env" "socket_ok env k" "log_startup_ok env"
    and par: "\<And>s. parse_options einval opts optind argc initial_state = Inr s \<Longrightarrow> parallel s < 2 ^ 30"
  shows "safe good (server_main env path_max einval opts optind argc n)"
  unfolding server_main_def
proof (rule safe_bindE [OF parse_options_safe])
  fix s assume s: "parse_options einval opts optind argc initial_state = Inr s"
  have "safe (\<lambda>s. good s \<and> server_sock s = k) (server_init_listening env path_max (the (socketname s)) s)"
    by (rule server_init_good) (use parse_options_initial [OF s] par [OF s] os in simp_all)
  then show "safe good (bindE (server_init_listening env path_max (the (socketname s)) s) (turns env n))"
    by (rule safe_bindE) (use turns_good os in \<open>auto simp: socket_ok_def\<close>)
qed

subsection \<open>Shutdown\<close>

lemma shutdown_exact:
  assumes c: "can_shutdown s" "clients_set s" "server_sock s \<noteq> -1"
  shows "shutdown_with_msg m s = Inl (Exit 1 (hist s @ Sys_Close (server_sock s) #
    map (\<lambda>e. Sys_Close (c_fd (the (heap s (snd e))))) (list_entries (clients s)) @
    (if logging s then [Sys_Log m] else [])))"
proof -
  let ?t = "sys (Sys_Close (server_sock s)) s"
  have t: "can_shutdown ?t" "logging s \<longrightarrow> logfile s" using c by (simp_all add: can_shutdown_def log_ok_def)
  show ?thesis using close_clients_spec [OF t(1), of 0] c(2,3) t(2)
    by (simp add: shutdown_with_msg_def logging_shutdown_def log_msg_def Let_def)
qed

lemma good_clients_close:
  assumes "inv B s"
  shows "map (\<lambda>e. Sys_Close (c_fd (the (heap s (snd e))))) (list_entries (clients s)) =
    map (\<lambda>e. Sys_Close (fst e)) (list_entries (clients s))"
proof (rule map_cong [OF refl])
  fix e assume "e \<in> set (list_entries (clients s))"
  then obtain c where "heap s (snd e) = Some c" "c_fd c = fst e"
    using inv_client [OF assms, of "fst e" "snd e"] by auto
  then show "Sys_Close (c_fd (the (heap s (snd e)))) = Sys_Close (fst e)" by simp
qed

lemma sigchld_good:
  assumes g: "good s"
  shows "safe (\<lambda>s'. good s' \<and> server_sock s' = server_sock s) (sigchld_handle env s)"
proof -
  let ?B = "2 * total_read (hist s)"
  have i: "inv ?B s" using g by (simp add: good_def)
  let ?t = "\<lambda>r n. sys (Sys_Call ''EAGAIN or EINTR'' r) (sys (Sys_Write (cpipe1 s) ''x'' n) s)"
  have t: "inv ?B (?t r n)" "frame s (?t r n)" for r n
    using inv_sys [OF inv_sys [OF i]] frame_trans [OF frame_sys frame_sys] by simp_all
  have "good (?t r n)" for r n by (rule frame_good [OF t(2) g]) (use t(1) in simp)
  with inv_can_shutdown [OF i] show ?thesis
    by (simp add: sigchld_handle_def os_int_def Let_def)
qed

text \<open>
  The states between two turns of the loop, with \<open>SIGCHLD\<close> arriving at any time between them.
\<close>

inductive reachable :: "os \<Rightarrow> nat \<Rightarrow> string \<Rightarrow> unix_server \<Rightarrow> unix_server \<Rightarrow> bool"
  for env :: os and path_max :: nat and name :: string and s0 :: unix_server where
  start: "server_init_listening env path_max name s0 = Inr s \<Longrightarrow> reachable env path_max name s0 s"
| turn: "reachable env path_max name s0 s \<Longrightarrow> main_turn env s = Inr s' \<Longrightarrow> reachable env path_max name s0 s'"
| sigchld: "reachable env path_max name s0 s \<Longrightarrow> sigchld_handle env s = Inr s' \<Longrightarrow> reachable env path_max name s0 s'"

lemma reachable_good:
  assumes "reachable env path_max name s0 s" "os_ok env" "startup_ok env" "socket_ok env k"
    and "hist s0 = []" "\<not> clients_set s0" "\<not> logfile s0" "0 < parallel s0" "parallel s0 < 2 ^ 30"
      "\<not> logging s0 \<or> log_startup_ok env"
  shows "good s \<and> server_sock s = k"
  using assms(1)
proof induction
  case (start s)
  then show ?case using server_init_good [OF assms(5-9) assms(3,4,10), of path_max name] by simp
next
  case (turn s s')
  then show ?case using main_turn_good [of s env] turn.IH assms(2,4) by (simp add: socket_ok_def)
next
  case (sigchld s s')
  then show ?case using sigchld_good [of s env] sigchld.IH by simp
qed

end
