(* ===== verification/Sample_Runs.thy ===== *)
theory Sample_Runs
  imports Unix_Startup
begin

section \<open>A concrete operating system and a concrete state\<close>

text \<open>
  A simulated operating system that satisfies everything the safety theorems rely on, and a
  state of the server that satisfies the invariant: the inputs at which the properties of the
  server are instantiated. In the simulation the first client sends one request and then closes
  its connection, and every child exits at once.
\<close>

unbundle bit_operations_syntax

subsection \<open>The operating system\<close>

definition fresh :: "int \<Rightarrow> int list \<Rightarrow> int" where
  "fresh limit xs = (let n = fold max xs 3 + 1 in if n < limit then n else -1)"

definition sim_os :: os where
  "sim_os =
     \<lparr>os_fork = (\<lambda>h. fresh PID_LIMIT (live_pids h)),
      os_mkstemp = (\<lambda>h. (''abcdef'', -1)),
      os_malloc = (\<lambda>h. True),
      os_accept = (\<lambda>h. fresh FD_LIMIT (open_fds h)),
      os_read = (\<lambda>h fd. Some (if total_read h = 0 then ''run;id;10;100;prover;file'' @ [NEWLINE] else [])),
      os_write = (\<lambda>h fd bs. int (length bs)),
      os_wait3 = (\<lambda>h. case live_pids h of [] \<Rightarrow> (0, WOther, 0) | p # ps \<Rightarrow> (p, WExited 0, 1500000)),
      os_poll = (\<lambda>h l. (1, \<lambda>i. if i < length l \<and> fst (l ! i) \<noteq> 3 \<and> snd (l ! i) AND POLLOUT \<noteq> 0
        then POLLOUT else POLLIN)),
      os_call = (\<lambda>h name.
        if name = ''socket'' then (if 3 \<in> set (open_fds h) then -1 else 3)
        else if name \<in> {''open'', ''pipe read end'', ''pipe write end''} then fold max (open_fds h) 3 + 1
        else if name = ''bind'' \<and> Sys_Newfd ''socket'' (-1) \<in> set h then -1 else 0),
      os_getcwd = ''/tmp''\<rparr>"

lemma fold_max_ge: "y \<le> fold max xs (y :: int)" "x \<in> set xs \<Longrightarrow> x \<le> fold max xs y"
proof -
  have "y \<le> fold max xs y \<and> (\<forall>x \<in> set xs. x \<le> fold max xs y)"
  proof (induction xs arbitrary: y)
    case (Cons a xs)
    from Cons [of "max a y"] show ?case by auto
  qed simp
  then show "y \<le> fold max xs (y :: int)" "x \<in> set xs \<Longrightarrow> x \<le> fold max xs y" by auto
qed

lemma fold_max_fresh: "fold max xs 3 + 1 \<notin> set xs" "0 < fold max xs (3 :: int) + 1"
  using fold_max_ge(2) [of "fold max xs 3 + 1" xs 3] fold_max_ge(1) [of 3 xs] by auto

lemma fresh_ok: "fresh limit xs = -1 \<or> (0 < fresh limit xs \<and> fresh limit xs < limit \<and> fresh limit xs \<notin> set xs)"
  using fold_max_fresh [of xs] by (auto simp: fresh_def Let_def)

lemma sim_os_ok: "os_ok sim_os"
proof -
  have "fork_ok sim_os" using fresh_ok by (simp add: fork_ok_def sim_os_def)
  moreover have "accept_ok sim_os" using fresh_ok by (fastforce simp: accept_ok_def sim_os_def)
  moreover have "mkstemp_ok sim_os" by (simp add: mkstemp_ok_def sim_os_def)
  moreover have "read_ok sim_os" by (simp add: read_ok_def sim_os_def)
  moreover have "write_ok sim_os" by (simp add: write_ok_def sim_os_def)
  moreover have "wait_ok sim_os" by (auto simp: wait_ok_def sim_os_def status_ok_def split: list.split)
  moreover have "poll_ok sim_os" by (simp add: poll_ok_def sim_os_def)
  moreover have "input_ok sim_os" by (simp add: input_ok_def sim_os_def)
  ultimately show ?thesis by (simp add: os_ok_def)
qed

lemma sim_os_startup: "startup_ok sim_os" "socket_ok sim_os 3" "log_startup_ok sim_os"
proof -
  show "startup_ok sim_os"
    using fold_max_fresh(1) fold_max_fresh(2) [THEN less_imp_le] by (simp add: startup_ok_def sim_os_def)
  show "socket_ok sim_os 3" by (simp add: socket_ok_def listen_ok_def sim_os_def)
  have "0 < fold max xs (3 :: int) + 1" for xs by (rule fold_max_fresh(2))
  then have "fold max xs (3 :: int) + 1 \<noteq> -1" for xs by (metis neg_0_less_iff_less not_one_less_zero)
  then show "log_startup_ok sim_os" by (simp add: log_startup_ok_def sim_os_def)
qed

definition sim_start :: unix_server where
  "sim_start = initial_state\<lparr>parallel := 2, socketname := Some ''sock''\<rparr>"

lemmas startup_defs = server_init_listening_def init_data_def init_socket_def listen_socket_def setup_child_pipe_def
  set_sigterm_handler_def check_call_def new_fd_def os_int_def init_logging_def init_process_list_def
lemma sim_call: "os_call sim_os h name =
        (if name = ''socket'' then (if 3 \<in> set (open_fds h) then -1 else 3)
        else if name \<in> {''open'', ''pipe read end'', ''pipe write end''} then fold max (open_fds h) 3 + 1
        else if name = ''bind'' \<and> Sys_Newfd ''socket'' (-1) \<in> set h then -1 else 0)"
  by (simp add: sim_os_def)

lemma sim_start_runs: "\<exists>s. server_init_listening sim_os 108 ''sock'' sim_start = Inr s"
proof -
  obtain q where q: "init_request_queue = Inr q" by (rule init_request_queue_ok)
  have "basename ''sock'' = ''sock''" "dirname ''sock'' = ''.''" by code_simp+
  then show ?thesis
    by (simp add: startup_defs q sim_call Let_def sim_start_def initial_state_def sys_def open_fds_def add_to_poll_list_def c_int_def
     in_int_def c_malloc_def c_write_def c_realloc_def)
qed
subsection \<open>The state\<close>

definition sample_request :: request where
  "sample_request = request_run 5 True ''id'' ''10'' ''100'' ''prover'' [''-t'', ''goal.smt2'']"

definition sample_writebuf :: t_writebuf where
  "sample_writebuf = \<lparr>wb_data = Some ''S;id'', wb_len = 4, wb_pointer = 0, wb_is_writing = False,
     wb_queue = \<lparr>q_data = [None], q_pointer = 0, q_len = 0, q_capacity = 1\<rparr>\<rparr>"

definition sample_client :: t_client where
  "sample_client = \<lparr>c_fd = 5, c_readbuf = \<lparr>rb_data = [None], rb_len = 0, rb_capacity = 1\<rparr>, c_writebuf = sample_writebuf\<rparr>"

lemma sample_writebuf_ok: "wb_inv sample_writebuf" "can_write sample_writebuf" "has_write_data sample_writebuf"
  by (simp_all add: sample_writebuf_def wb_inv_def queue_inv_def queue_list_def msg_ok_def strlen_def can_write_def has_write_data_def)

text \<open>
  A state of the server with one client (descriptor 5), one running process (7), one pending
  request and one message waiting for the client.
\<close>

definition sample_state :: unix_server where
  "sample_state = initial_state\<lparr>parallel := 2,
     queue := \<lparr>q_data = [Some sample_request, None], q_pointer = 0, q_len = 1, q_capacity = 2\<rparr>,
     processes := \<lparr>l_key = [Some 7, None],
       l_data = [Some \<lparr>p_client_key = 5, p_task_id = ''t1'', p_outfile = ''/tmp/why3abcdef'', p_id = 7\<rparr>, None],
       l_len = 1, l_capacity = 2\<rparr>,
     hist := [Sys_Newfd ''socket'' 3, Sys_Newfd ''pipe read end'' 4, Sys_Accept 5, Sys_Read 5 100, Sys_Fork 7 (Inr [])],
     server_sock := 3,
     poll_list := [Some \<lparr>pf_fd = 3, pf_events = 1, pf_revents = 0\<rparr>, Some \<lparr>pf_fd = 4, pf_events = 1, pf_revents = 0\<rparr>,
       Some \<lparr>pf_fd = 5, pf_events = 5, pf_revents = 0\<rparr>, None],
     poll_num := 3, poll_len := 4,
     clients := \<lparr>l_key = [Some 5, None], l_data = [Some 0, None], l_len = 1, l_capacity = 2\<rparr>,
     clients_set := True, current_dir := ''/tmp'', cpipe0 := 4, cpipe1 := 6,
     heap := [0 \<mapsto> sample_client], next_ptr := 1\<rparr>"

lemma sample_lists:
  "list_entries (processes sample_state) = [(7, \<lparr>p_client_key = 5, p_task_id = ''t1'', p_outfile = ''/tmp/why3abcdef'', p_id = 7\<rparr>)]"
  "list_entries (clients sample_state) = [(5, 0)]"
  "queue_list (queue sample_state) = [sample_request]"
  "poll_entries sample_state = [\<lparr>pf_fd = 3, pf_events = 1, pf_revents = 0\<rparr>, \<lparr>pf_fd = 4, pf_events = 1, pf_revents = 0\<rparr>,
       \<lparr>pf_fd = 5, pf_events = 5, pf_revents = 0\<rparr>]"
  "list_inv (processes sample_state)" "list_inv (clients sample_state)" "queue_inv (queue sample_state)" "poll_inv sample_state"
  by (simp_all add: sample_state_def list_entries_def queue_list_def ring_index_def poll_entries_def list_inv_def
      queue_inv_def poll_inv_def holds_def less_Suc_eq nth_Cons')

lemma sample_good: "good sample_state"
proof -
  have req: "req_ok sample_request" "r_key sample_request = 5"
    by (simp_all add: req_ok_def sample_request_def request_run_def)
  have ld: "load sample_state = 3" by (simp add: load_def sample_lists)
  have tr: "total_read (hist sample_state) = 100" "live_pids (hist sample_state) = [7]" "set (open_fds (hist sample_state)) = {3, 4, 5}"
    by (auto simp: sample_state_def live_pids_def open_fds_def)
  have h: "heap sample_state 0 = Some sample_client" "next_ptr sample_state = 1" "server_sock sample_state = 3"
    "cpipe0 sample_state = 4" "parallel sample_state = 2" "clients_set sample_state" "log_ok sample_state"
    by (simp_all add: sample_state_def log_ok_def initial_state_def)
  have c: "c_fd sample_client = 5" "rb_bytes (c_readbuf sample_client) = []" "c_writebuf sample_client = sample_writebuf"
    "rb_inv (c_readbuf sample_client)" "unat (rb_capacity (c_readbuf sample_client)) = 1"
    by (simp_all add: sample_client_def rb_bytes_def rb_inv_def)
  have ok: "client_ok 200 sample_state sample_client"
    using sample_writebuf_ok by (simp add: client_ok_def ld tr c rb_small_def wb_count_def sample_writebuf_def queue_list_def)
  have "inv 200 sample_state"
    using req sample_writebuf_ok ok
    by (auto simp: inv_defs al.ok_def al.keys_def sample_lists tr h ld entry_ok_def c)
  then show ?thesis by (simp add: good_def tr quiet_def sample_lists h c)
qed

end
