(* ===== verification/Write_Stream.thy ===== *)
theory Write_Stream
  imports Sample_Runs
begin

section \<open>The bytes that a client receives\<close>

text \<open>
  The write buffer over time: sequences of queued messages and of writes that accept a part of what they are
  offered. Nothing is lost, duplicated or reordered, and everything arrives when the client
  goes on reading.
\<close>

text \<open>
  A sequence of operations on a write buffer: a message is queued, or the client takes \<open>n\<close> of the
  bytes that are offered to it (all of them if there are fewer).
\<close>

datatype wb_op = Push block | Take nat

fun wb_run :: "wb_op list \<Rightarrow> t_writebuf \<Rightarrow> (char list \<times> t_writebuf) res" where
  "wb_run [] b = Inr ([], b)"
| "wb_run (Push m # ops) b = bindE (push_write_data b m) (wb_run ops)"
| "wb_run (Take n # ops) b =
     (if has_write_data b then
        bindE (prepare_write b) (\<lambda>(b, buf, sz).
        let k = min n (nat sz) in
        bindE (have_written b (int k)) (\<lambda>b.
        bindE (wb_run ops b) (\<lambda>(out, b). Inr (take k buf @ out, b))))
      else wb_run ops b)"

fun pushed :: "wb_op list \<Rightarrow> char list" where
  "pushed [] = []"
| "pushed (Push m # ops) = cstr m @ pushed ops"
| "pushed (Take n # ops) = pushed ops"

fun pushes_ok :: "wb_op list \<Rightarrow> bool" where
  "pushes_ok [] = True"
| "pushes_ok (Push m # ops) \<longleftrightarrow> msg_ok m \<and> pushes_ok ops"
| "pushes_ok (Take n # ops) = pushes_ok ops"

text \<open>A turn in which the client takes bytes: at least one of them, if it wants any.\<close>

lemma wb_take_step:
  assumes inv: "wb_inv b" and wr: "can_write b" and data: "has_write_data b"
  shows "\<exists>k b'. wb_run (Take n # ops) b = bindE (wb_run ops b') (\<lambda>(out, b2). Inr (take k (wb_pending b) @ out, b2)) \<and>
    wb_inv b' \<and> can_write b' \<and> wb_pending b' = drop k (wb_pending b) \<and> wb_count b' \<le> wb_count b \<and> min 1 n \<le> k"
proof -
  obtain d where d: "wb_data b = Some d" "prepare_write b = Inr (b\<lparr>wb_is_writing := True\<rparr>,
      drop (nat (wb_pointer b)) d, int (length (drop (nat (wb_pointer b)) (cstr d))))" "0 < length (drop (nat (wb_pointer b)) (cstr d))"
    by (rule prepare_write_ok [OF inv wr data])
  let ?k = "min n (length (drop (nat (wb_pointer b)) (cstr d)))"
  obtain b' where b': "have_written (b\<lparr>wb_is_writing := True\<rparr>) (int ?k) = Inr b'" "wb_inv b'" "can_write b'"
      "wb_pending b' = drop ?k (wb_pending b)" "length (queue_list (wb_queue b')) \<le> length (queue_list (wb_queue b))"
    using have_written_ok [of "b\<lparr>wb_is_writing := True\<rparr>" d "int ?k"] inv d by auto
  have cnt: "wb_count b' \<le> wb_count b" by (rule wb_count_written [OF d(1) b'(5)])
  have "take ?k (drop (nat (wb_pointer b)) d) = take ?k (drop (nat (wb_pointer b)) (cstr d))"
    unfolding cstr_def by (metis (no_types, lifting) d(1) drop_append take_append takeWhile_dropWhile_id min.cobounded2 diff_is_0_eq' take0 append_Nil2 cstr_def)
  also have "\<dots> = take ?k (wb_pending b)" using d(1) by (simp add: wb_pending_def)
  finally have "wb_run (Take n # ops) b = bindE (wb_run ops b') (\<lambda>(out, b2). Inr (take ?k (wb_pending b) @ out, b2))"
    using data d(2) b'(1) by (simp add: Let_def)
  moreover have "min 1 n \<le> ?k" using d(3) by linarith
  ultimately show ?thesis using b'(2-4) cnt by blast
qed

lemma wb_run_conserves:
  assumes "wb_inv b" "can_write b" "pushes_ok ops" "wb_count b + length ops \<le> queue_room"
  shows "\<exists>out b'. wb_run ops b = Inr (out, b') \<and> wb_inv b' \<and> can_write b' \<and> out @ wb_pending b' = wb_pending b @ pushed ops"
  using assms
proof (induction ops arbitrary: b rule: pushes_ok.induct)
  case 1
  then show ?case by simp
next
  case (2 m ops)
  then obtain b' where b': "push_write_data b m = Inr b'" "wb_inv b'" "wb_pending b' = wb_pending b @ cstr m"
      "can_write b'" "wb_count b' = wb_count b + 1"
    using wb_count_push [of b m] by auto
  with 2 show ?case using "2.IH" [of b'] by auto
next
  case (3 n ops)
  show ?case
  proof (cases "has_write_data b")
    case False
    with 3 show ?thesis by auto
  next
    case True
    obtain k b' where b': "wb_run (Take n # ops) b = bindE (wb_run ops b') (\<lambda>(out, b2). Inr (take k (wb_pending b) @ out, b2))"
        "wb_inv b'" "can_write b'" "wb_pending b' = drop k (wb_pending b)" "wb_count b' \<le> wb_count b"
      using wb_take_step [OF "3.prems"(1,2) True] by blast
    obtain out b2 where r: "wb_run ops b' = Inr (out, b2)" "wb_inv b2" "can_write b2" "out @ wb_pending b2 = wb_pending b' @ pushed ops"
      using "3.IH" [OF b'(2,3)] "3.prems"(3,4) b'(5) by auto
    then show ?thesis using b'(1,4) by (auto simp flip: append.assoc)
  qed
qed

lemma wb_run_drains:
  assumes "wb_inv b" "can_write b" "\<forall>n\<in>set ns. 0 < n" "length (wb_pending b) \<le> length ns"
  shows "\<exists>b'. wb_run (map Take ns) b = Inr (wb_pending b, b') \<and> wb_inv b' \<and> can_write b' \<and> \<not> has_write_data b'"
  using assms
proof (induction ns arbitrary: b)
  case Nil
  then show ?case using has_write_data_pending by auto
next
  case (Cons n ns)
  show ?case
  proof (cases "has_write_data b")
    case False
    then have "wb_pending b = []" using Cons.prems(1) has_write_data_pending by blast
    with False Cons.prems show ?thesis using Cons.IH [of b] by auto
  next
    case True
    obtain k b' where b': "wb_run (Take n # map Take ns) b = bindE (wb_run (map Take ns) b') (\<lambda>(out, b2). Inr (take k (wb_pending b) @ out, b2))"
        "wb_inv b'" "can_write b'" "wb_pending b' = drop k (wb_pending b)" "min 1 n \<le> k"
      using wb_take_step [OF Cons.prems(1,2) True] by blast
    have "length (wb_pending b') \<le> length ns" using b'(4,5) Cons.prems(3,4) by auto
    then obtain b2 where "wb_run (map Take ns) b' = Inr (wb_pending b', b2)" "wb_inv b2" "can_write b2" "\<not> has_write_data b2"
      using Cons.IH [OF b'(2,3)] Cons.prems(3) by auto
    then show ?thesis using b'(1,4) by simp
  qed
qed

text \<open>
  C13: no byte for a client is lost, duplicated or reordered. Whatever sequence of messages is
  queued and however few bytes each \<open>write\<close> accepts, what was written followed by what is still
  pending is what was pending before followed by the messages, in order.
\<close>

theorem write_buffer_stream:
  assumes "wb_inv b" "can_write b" "pushes_ok ops" "wb_count b + length ops \<le> queue_room"
  shows "\<exists>out b'. wb_run ops b = Inr (out, b') \<and> wb_inv b' \<and> out @ wb_pending b' = wb_pending b @ pushed ops"
  using wb_run_conserves [OF assms] by blast

theorem write_buffer_stream_witness:
  "\<exists>out b'. wb_run [Take 3, Push ''F;id'', Take 100, Take 2] sample_writebuf = Inr (out, b') \<and> wb_inv b' \<and>
     out @ wb_pending b' = ''S;idF;id''"
  using write_buffer_stream [OF sample_writebuf_ok(1,2), of "[Take 3, Push ''F;id'', Take 100, Take 2]"]
  by (simp add: msg_ok_def strlen_def wb_count_def sample_writebuf_def queue_list_def wb_pending_def has_write_data_def)

text \<open>
  C14: everything that is pending for a client is delivered in the end, as long as the client goes on to accept at least one
  byte in each \<open>write\<close>: after no more writes than there are pending bytes it has received exactly
  these bytes, and the server stops waiting for it.
\<close>

theorem write_buffer_drains:
  assumes "wb_inv b" "can_write b" "\<forall>n\<in>set ns. 0 < n" "length (wb_pending b) \<le> length ns"
  shows "\<exists>b'. wb_run (map Take ns) b = Inr (wb_pending b, b') \<and> \<not> has_write_data b'"
  using wb_run_drains [OF assms] by blast

theorem write_buffer_drains_witness:
  "\<exists>b'. wb_run (map Take [2, 1, 1, 7]) sample_writebuf = Inr (''S;id'', b') \<and> \<not> has_write_data b'"
proof -
  have "wb_pending sample_writebuf = ''S;id''" by (simp add: sample_writebuf_def wb_pending_def queue_list_def)
  then show ?thesis using write_buffer_drains [OF sample_writebuf_ok(1,2), of "[2, 1, 1, 7]"] by simp
qed

end
