(* ===== verification/Cpulimit_Unix.thy ===== *)
theory Cpulimit_Unix
  imports OS_Interface C_Strings
begin

section \<open>The program why3-cpulimit on Unix\<close>

text \<open>
  A model of \<open>cpulimit-unix.c\<close>. The program runs a command under a soft CPU and memory limit; when
  it has to show the time or to enforce a limit it forks, waits for the child, with an alarm as a
  last resort, and ends the way the child ended. What the operating system answers is a parameter:
  the result of \<open>fork\<close>, of the first and the second \<open>waitpid\<close> (with the status it stores and whether
  the alarm goes off meanwhile), whether \<open>execvp\<close> succeeds, and the times of the child.
\<close>

subsection \<open>State and system calls\<close>

datatype cl_event =
    Cl_Stderr string
  | Cl_Fork int
  | Cl_Alarm u32
  | Cl_Wait int
  | Cl_Kill int int
  | Cl_Show_Time int int int
  | Cl_Soft_Cpu int
  | Cl_Soft_As int
  | Cl_Soft_Core int

text \<open>
  How the program ends: it returns a status, dies by a signal it sends to itself, is replaced by
  the command, or runs into undefined behaviour.
\<close>

datatype cl_end = Cl_Return int | Cl_Killed int | Cl_Exec string "string list" | Cl_Fault c_fault

record cl_os =
  cl_fork :: int
  cl_wait :: "nat \<Rightarrow> int \<times> wait_status \<times> bool"
  cl_exec :: bool
  cl_times :: "int \<times> int \<times> int"

record cl_state =
  wallclock_timelimit :: int
  showtime :: bool
  hidetime :: bool
  cl_hist :: "cl_event list"

type_synonym cl_result = "cl_event list \<times> cl_end"

abbreviation (input) EXIT_FAILURE :: int where "EXIT_FAILURE \<equiv> 1"
abbreviation (input) SIGALRM :: int where "SIGALRM \<equiv> 14"
abbreviation (input) SIGTERM :: int where "SIGTERM \<equiv> 15"
abbreviation (input) CL_SIGKILL :: int where "CL_SIGKILL \<equiv> 9"

definition in_long :: "int \<Rightarrow> bool" where
  "in_long i \<longleftrightarrow> - LONG_MAX - 1 \<le> i \<and> i \<le> LONG_MAX"

definition cl_do :: "cl_event \<Rightarrow> cl_state \<Rightarrow> cl_state" where
  "cl_do e s = s\<lparr>cl_hist := cl_hist s @ [e]\<rparr>"

definition cl_stop :: "cl_end \<Rightarrow> cl_state \<Rightarrow> cl_result" where
  "cl_stop e s = (cl_hist s, e)"

lemma cl_do_simps [simp]:
  "cl_hist (cl_do e s) = cl_hist s @ [e]"
  "showtime (cl_do e s) = showtime s"
  "hidetime (cl_do e s) = hidetime s"
  "wallclock_timelimit (cl_do e s) = wallclock_timelimit s"
  by (simp_all add: cl_do_def)

subsection \<open>The functions\<close>

text \<open>The time is the sum of the first two numbers divided by the third, in seconds.\<close>

definition show_time :: "cl_os \<Rightarrow> cl_state \<Rightarrow> cl_state" where
  "show_time env s =
     (if showtime s then (let (cutime, cstime, tck) = cl_times env in cl_do (Cl_Show_Time cutime cstime tck) s) else s)"

definition wallclock_timelimit_reached :: "cl_state \<Rightarrow> cl_state" where
  "wallclock_timelimit_reached s =
     cl_do (Cl_Stderr (''Why3cpulimit: wallclock timelimit '' @ show_int (wallclock_timelimit s)
       @ '' reached, killing command'' @ [NEWLINE])) s"

definition usage :: "string \<Rightarrow> cl_state \<Rightarrow> cl_result" where
  "usage argv0 s =
     cl_stop (Cl_Return EXIT_FAILURE) (cl_do (Cl_Stderr
       (''usage: '' @ argv0 @ '' <time limit in seconds> <virtual memory limit in MiB>'' @ [NEWLINE]
        @ ''          <show/hide cpu time: -s|-h> <command> <args>...'' @ [NEWLINE, NEWLINE]
        @ ''Zero sets no limit (keeps the actual limit)'' @ [NEWLINE])) s)"

text \<open>
  The parent. The handler of \<open>SIGALRM\<close> is installed only under a time limit; a signal that the
  program sends to itself and that it does not handle ends it.
\<close>

definition set_alarm :: "int \<Rightarrow> cl_state \<Rightarrow> c_fault + cl_state" where
  "set_alarm timelimit s =
     (if timelimit \<noteq> 0 then
        if \<not> in_long (2 * timelimit) \<or> \<not> in_long (2 * timelimit + 60) then Inl Signed_Overflow
        else
          let s = s\<lparr>wallclock_timelimit := to_int32 (2 * timelimit + 60)\<rparr>
          in Inr (cl_do (Cl_Alarm (word_of_int (wallclock_timelimit s))) s)
      else Inr s)"

definition cl_waitpid :: "cl_os \<Rightarrow> nat \<Rightarrow> int \<Rightarrow> cl_state \<Rightarrow> int \<times> wait_status \<times> cl_state" where
  "cl_waitpid env n timelimit s =
     (let (p, status, fired) = cl_wait env n;
          s = (if fired \<and> timelimit \<noteq> 0 then wallclock_timelimit_reached s else s)
      in (p, status, cl_do (Cl_Wait p) s))"

definition end_as_child :: "cl_os \<Rightarrow> int \<Rightarrow> wait_status \<Rightarrow> cl_state \<Rightarrow> cl_result" where
  "end_as_child env timelimit status s =
     (let s = show_time env s;
          neither = (\<lambda>s. cl_stop (Cl_Killed SIGTERM) (cl_do (Cl_Stderr
            (''why3cpulimit: child exited neither normally nor because of a signal'' @ [NEWLINE])) s))
      in case status of
           WExited c \<Rightarrow> cl_stop (Cl_Return c) s
         | WSignaled g \<Rightarrow>
             if g = SIGALRM \<and> timelimit \<noteq> 0 then neither (wallclock_timelimit_reached s)
             else cl_stop (Cl_Killed g) s
         | WOther \<Rightarrow> neither s)"

definition parent :: "cl_os \<Rightarrow> int \<Rightarrow> int \<Rightarrow> cl_state \<Rightarrow> cl_result" where
  "parent env pid timelimit s =
     (case set_alarm timelimit s of
        Inl f \<Rightarrow> cl_stop (Cl_Fault f) s
      | Inr s \<Rightarrow>
          let (p, status, s) = cl_waitpid env 0 timelimit s in
          if p \<le> 0 then
            let (p, status, s) = cl_waitpid env 1 timelimit (cl_do (Cl_Kill pid CL_SIGKILL) s) in
            if p \<le> 0 then cl_stop (Cl_Killed SIGTERM) (cl_do (Cl_Stderr ''why3cpulimit waitpid'') s)
            else end_as_child env timelimit status s
          else end_as_child env timelimit status s)"

text \<open>The child, or the program itself when it does not fork: soft limits, then the command.\<close>

definition run_command :: "cl_os \<Rightarrow> block list \<Rightarrow> int \<Rightarrow> int \<Rightarrow> cl_state \<Rightarrow> cl_result" where
  "run_command env argv timelimit memlimit s =
     (let s = (if timelimit > 0 then cl_do (Cl_Soft_Cpu timelimit) s else s) in
      if memlimit > 0 \<and> (\<not> in_long (memlimit * 1024) \<or> \<not> in_long (memlimit * 1024 * 1024)) then
        cl_stop (Cl_Fault Signed_Overflow) s
      else
        let s = (if memlimit > 0 then cl_do (Cl_Soft_As (memlimit * 1024 * 1024)) s else s);
            s = (if timelimit > 0 \<or> memlimit > 0 then cl_do (Cl_Soft_Core 0) s else s)
        in if cl_exec env then cl_stop (Cl_Exec (cstr (argv ! 4)) (map cstr (drop 4 argv))) s
           else cl_stop (Cl_Return EXIT_FAILURE) (cl_do (Cl_Stderr
             (cstr (argv ! 0) @ '': exec of '' @ cstr (argv ! 4) @ '' failed'')) s))"

definition cl_initial :: cl_state where
  "cl_initial = \<lparr>wallclock_timelimit = 60, showtime = False, hidetime = False, cl_hist = []\<rparr>"

definition cpulimit_main :: "cl_os \<Rightarrow> block list \<Rightarrow> cl_result" where
  "cpulimit_main env argv =
     (if length argv < 5 then usage (cstr (argv ! 0)) cl_initial
      else
        let s = cl_initial\<lparr>showtime := streq ''-s'' (argv ! 3), hidetime := streq ''-h'' (argv ! 3)\<rparr> in
        if \<not> (showtime s \<or> hidetime s) then usage (cstr (argv ! 0)) s
        else
          let timelimit = atol (argv ! 1) in
          if timelimit < 0 then usage (cstr (argv ! 0)) s
          else
            let memlimit = atol (argv ! 2) in
            if memlimit < 0 then usage (cstr (argv ! 0)) s
            else if showtime s \<or> timelimit \<noteq> 0 then
              let pid = cl_fork env; s = cl_do (Cl_Fork pid) s in
              if pid = -1 then cl_stop (Cl_Return EXIT_FAILURE) (cl_do (Cl_Stderr ''fork'') s)
              else if pid > 0 then parent env pid timelimit s
              else run_command env argv timelimit memlimit s
            else run_command env argv timelimit memlimit s)"

subsection \<open>Correctness\<close>

text \<open>Arguments that the program accepts: \<open>t\<close> seconds, \<open>m\<close> mebibytes, and whether to show the time.\<close>

definition cl_args :: "block list \<Rightarrow> int \<Rightarrow> int \<Rightarrow> bool \<Rightarrow> bool" where
  "cl_args argv t m st \<longleftrightarrow> 5 \<le> length argv \<and> cstr (argv ! 3) = (if st then ''-s'' else ''-h'') \<and>
     atol (argv ! 1) = t \<and> atol (argv ! 2) = m \<and> 0 \<le> t \<and> 0 \<le> m"

lemma cl_args_start:
  assumes "cl_args argv t m st"
  shows "cpulimit_main env argv =
    (let s = cl_initial\<lparr>showtime := st, hidetime := \<not> st\<rparr> in
     if st \<or> t \<noteq> 0 then
       let pid = cl_fork env; s = cl_do (Cl_Fork pid) s in
       if pid = -1 then cl_stop (Cl_Return EXIT_FAILURE) (cl_do (Cl_Stderr ''fork'') s)
       else if pid > 0 then parent env pid t s
       else run_command env argv t m s
     else run_command env argv t m s)"
  using assms by (cases st) (auto simp: cl_args_def cpulimit_main_def streq_def Let_def)

lemma set_alarm_ok:
  "in_long (2 * t + 60) \<Longrightarrow> 0 \<le> t \<Longrightarrow> \<exists>s'. set_alarm t s = Inr s' \<and> showtime s' = showtime s \<and>
     cl_hist s' = cl_hist s @ (if t = 0 then [] else [Cl_Alarm (word_of_int (to_int32 (2 * t + 60)))])"
  by (auto simp: set_alarm_def in_long_def)


definition cl_sample_os :: cl_os where
  "cl_sample_os = \<lparr>cl_fork = 42, cl_wait = (\<lambda>n. if n = 0 then (-1, WOther, True) else (42, WSignaled 9, False)),
     cl_exec = True, cl_times = (10, 2, 100)\<rparr>"


text \<open>
  C20: the command is executed with exactly the arguments that follow the first four, under a soft
  CPU limit if and only if a positive one was asked for, under a soft limit of the given number of
  mebibytes if and only if a positive one was asked for, and without core dumps whenever there is a
  limit. The program itself, when nothing has to be shown or enforced over time, runs it without a
  fork.
\<close>

theorem cpulimit_runs_command:
  assumes "cl_args argv t m st" "cl_fork env = 0 \<or> (\<not> st \<and> t = 0)" "m * 2 ^ 20 \<le> LONG_MAX" "cl_exec env"
  shows "cpulimit_main env argv =
    ((if st \<or> t \<noteq> 0 then [Cl_Fork 0] else []) @ (if t > 0 then [Cl_Soft_Cpu t] else []) @
     (if m > 0 then [Cl_Soft_As (m * 2 ^ 20)] else []) @ (if t > 0 \<or> m > 0 then [Cl_Soft_Core 0] else []),
     Cl_Exec (cstr (argv ! 4)) (map cstr (drop 4 argv)))"
proof -
  have m: "0 \<le> m" "0 \<le> t" using assms(1) by (simp_all add: cl_args_def)
  have run: "run_command env argv t m s =
      (cl_hist s @ (if t > 0 then [Cl_Soft_Cpu t] else []) @ (if m > 0 then [Cl_Soft_As (m * 2 ^ 20)] else []) @
       (if t > 0 \<or> m > 0 then [Cl_Soft_Core 0] else []), Cl_Exec (cstr (argv ! 4)) (map cstr (drop 4 argv)))" for s
    using m assms(3,4) by (simp add: run_command_def cl_stop_def in_long_def Let_def)
  show ?thesis using assms(2) unfolding cl_args_start [OF assms(1)] Let_def run by (auto simp: cl_initial_def)
qed

theorem cpulimit_runs_command_witness:
  "cpulimit_main (cl_sample_os\<lparr>cl_fork := 0\<rparr>) [''cpulimit'', ''10'', ''100'', ''-h'', ''prover'', ''goal''] =
    ([Cl_Fork 0, Cl_Soft_Cpu 10, Cl_Soft_As 104857600, Cl_Soft_Core 0], Cl_Exec ''prover'' [''prover'', ''goal''])"
proof -
  have "atol ''10'' = 10" "atol ''100'' = 100" by code_simp+
  then show ?thesis
    using cpulimit_runs_command [of "[''cpulimit'', ''10'', ''100'', ''-h'', ''prover'', ''goal'']" 10 100 False
      "cl_sample_os\<lparr>cl_fork := 0\<rparr>"]
    by (simp add: cl_args_def cl_sample_os_def)
qed

end
