(* ===== verification/C_Buffers.thy ===== *)
theory C_Buffers
  imports Read_Buffer C_Strings
begin

section \<open>Strings in bounded character arrays\<close>

text \<open>
  \<open>strlen\<close>, \<open>strcpy\<close> and \<open>strcat\<close> on an array of a given size, for the code that assembles command
  lines in place. A character written behind the end of the array is undefined behaviour.
\<close>

lemma unat_of_nat_small: "k < 2 ^ LENGTH('a) \<Longrightarrow> unat (of_nat k :: 'a::len word) = k"
  by (simp add: unsigned_of_nat take_bit_nat_eq_self)

function strlen_from :: "char cells \<Rightarrow> nat \<Rightarrow> nat res" where
  "strlen_from b i =
     (if i < length b then bindE (c_read b i) (\<lambda>c. if c = NUL then Inr i else strlen_from b (i + 1))
      else crash Out_Of_Bounds)"
  by pat_completeness auto
termination by (relation "measure (\<lambda>(b, i). length b - i)") auto

declare strlen_from.simps [simp del]

definition c_strcpy :: "char cells \<Rightarrow> block \<Rightarrow> char cells res" where
  "c_strcpy b s = store_bytes b 0 (cstr s @ [NUL])"

definition c_strcat :: "char cells \<Rightarrow> block \<Rightarrow> char cells res" where
  "c_strcat b s = bindE (strlen_from b 0) (\<lambda>n. store_bytes b n (cstr s @ [NUL]))"

text \<open>The string in an array, as a library function reads it.\<close>

definition cells_string :: "char cells \<Rightarrow> string" where
  "cells_string b = cstr (map (case_option NUL (\<lambda>c. c)) b)"

lemma cells_string_holds:
  assumes "holds b (s @ [NUL])" "NUL \<notin> set s"
  shows "cells_string b = s"
proof -
  let ?g = "case_option NUL (\<lambda>c. c)"
  have "b = map Some (s @ [NUL]) @ drop (length s + 1) b"
    using assms(1) append_take_drop_id [of "length s + 1" b] by (simp add: holds_def)
  then have "map ?g b = map ?g (map Some (s @ [NUL]) @ drop (length s + 1) b)" by (rule arg_cong)
  also have "\<dots> = s @ NUL # map ?g (drop (length s + 1) b)" by (simp add: comp_def)
  finally have "map ?g b = s @ NUL # map ?g (drop (length s + 1) b)" .
  moreover have "takeWhile (\<lambda>c. c \<noteq> NUL) (s @ NUL # r) = s" for r using assms(2) by (induction s) auto
  ultimately show ?thesis by (simp only: cells_string_def cstr_def)
qed

text \<open>
  \<open>writes n g s r\<close>: the computation \<open>r\<close> fills an array of \<open>n\<close> characters with \<open>s\<close> and gives \<open>g\<close> of
  it, or overflows it.
\<close>

definition writes :: "nat \<Rightarrow> (char cells \<Rightarrow> 'a) \<Rightarrow> string \<Rightarrow> 'a res \<Rightarrow> bool" where
  "writes n g s r \<longleftrightarrow>
     (if length s \<le> n then \<exists>b. r = Inr (g b) \<and> length b = n \<and> holds b s else r = crash Out_Of_Bounds)"

lemma writes_bind:
  assumes "writes n g s r" "\<And>b. length b = n \<Longrightarrow> holds b s \<Longrightarrow> writes n h (s @ t) (f (g b))"
  shows "writes n h (s @ t) (bindE r f)"
  using assms by (cases "length s \<le> n") (auto simp: writes_def)

lemma writes_bind_NUL:
  assumes "writes n g (s @ [NUL]) r"
    "\<And>b. length b = n \<Longrightarrow> holds b (s @ [NUL]) \<Longrightarrow> writes n h (s @ t @ [NUL]) (f (g b))"
  shows "writes n h (s @ t @ [NUL]) (bindE r f)"
  using assms by (cases "length s < n") (auto simp: writes_def)

lemma writes_Inr: "length b = n \<Longrightarrow> holds b s \<Longrightarrow> writes n g s (Inr (g b))"
  by (auto simp: writes_def holds_def)

lemma writes_c_write: "length b = n \<Longrightarrow> holds b s \<Longrightarrow> writes n (\<lambda>b. b) (s @ [c]) (c_write b (length s) c)"
  by (auto simp: writes_def c_write_def holds_snoc)

lemma writes_store: "length b = n \<Longrightarrow> holds b s \<Longrightarrow> writes n (\<lambda>b. b) (s @ cs) (store_bytes b (length s) cs)"
proof (induction cs arbitrary: b s)
  case Nil
  then show ?case by (auto simp: writes_def holds_def)
next
  case (Cons c cs)
  have "writes n (\<lambda>b. b) ((s @ [c]) @ cs) (store_bytes b (length s) (c # cs))"
    unfolding store_bytes.simps
  proof (rule writes_bind [OF writes_c_write [OF Cons.prems]])
    fix b' assume "length b' = n" "holds b' (s @ [c])"
    then show "writes n (\<lambda>b. b) ((s @ [c]) @ cs) (store_bytes b' (Suc (length s)) cs)"
      using Cons.IH [of b' "s @ [c]"] by simp
  qed
  then show ?case by simp
qed

lemma strlen_from_holds:
  "holds b (s @ [NUL]) \<Longrightarrow> NUL \<notin> set s \<Longrightarrow> i \<le> length s \<Longrightarrow> strlen_from b i = Inr (length s)"
proof (induction "length s - i" arbitrary: i)
  case 0
  then have "i = length s" by simp
  moreover have "b ! length s = Some NUL" "length s < length b"
    using holds_nth [OF "0.prems"(1), of "length s"] "0.prems"(1) by (simp_all add: holds_def)
  ultimately show ?case by (subst strlen_from.simps) simp
next
  case (Suc k)
  then have i: "i < length s" by simp
  moreover have "b ! i = Some (s ! i)" "i < length b"
    using holds_nth [OF Suc.prems(1), of i] Suc.prems(1) i by (simp_all add: holds_def nth_append)
  moreover have "s ! i \<noteq> NUL" using Suc.prems(2) i by (metis nth_mem)
  ultimately show ?case using Suc by (subst strlen_from.simps) simp
qed

lemma holds_butlast: "holds b (s @ [c]) \<Longrightarrow> holds b s"
  using holds_take [of b "s @ [c]" "length s"] by simp

lemma writes_strcpy: "length b = n \<Longrightarrow> writes n (\<lambda>b. b) (cstr s @ [NUL]) (c_strcpy b s)"
  using writes_store [of b n "[]" "cstr s @ [NUL]"] by (simp add: c_strcpy_def)

lemma writes_strcat:
  assumes "length b = n" "holds b (s @ [NUL])" "NUL \<notin> set s"
  shows "writes n (\<lambda>b. b) (s @ cstr t @ [NUL]) (c_strcat b t)"
  using writes_store [OF assms(1) holds_butlast [OF assms(2)], of "cstr t @ [NUL]"]
  by (simp add: c_strcat_def strlen_from_holds [OF assms(2,3)])

end
