(* ===== verification/Win_Cmdline.thy ===== *)
theory Win_Cmdline
  imports C_Buffers
begin

section \<open>Command lines on Windows\<close>

text \<open>
  On Windows a process gets one string as its command line and splits it into arguments itself.
  This theory has the part of \<open>run_request\<close> of \<open>server-win.c\<close> that assembles the command line in an
  array of 4096 characters, and, as the specification, the rules by which programs split it, which
  the comment in \<open>run_request\<close> refers to: blanks separate arguments, double quotes protect blanks, and
  backslashes escape double quotes and, in front of a double quote, themselves.
\<close>

subsection \<open>Splitting a command line\<close>

abbreviation BACKSLASH :: char where "BACKSLASH \<equiv> CHR 0x5C"
abbreviation QUOTE :: char where "QUOTE \<equiv> CHR 0x22"
abbreviation SPACE :: char where "SPACE \<equiv> CHR 0x20"
abbreviation TAB :: char where "TAB \<equiv> CHR 0x09"

definition blank :: "char \<Rightarrow> bool" where
  "blank c \<longleftrightarrow> c = SPACE \<or> c = TAB"

text \<open>
  \<open>next_arg q n s\<close> reads one argument from \<open>s\<close>, inside double quotes if \<open>q\<close>, after \<open>n\<close> backslashes whose
  meaning is still open, and gives the argument and the rest of the line.
\<close>

fun next_arg :: "bool \<Rightarrow> nat \<Rightarrow> string \<Rightarrow> string \<times> string" where
  "next_arg q n [] = (replicate n BACKSLASH, [])"
| "next_arg q n (c # cs) =
     (if c = BACKSLASH then next_arg q (n + 1) cs
      else if c = QUOTE then
        if even n then (let (a, r) = next_arg (\<not> q) 0 cs in (replicate (n div 2) BACKSLASH @ a, r))
        else (let (a, r) = next_arg q 0 cs in (replicate (n div 2) BACKSLASH @ QUOTE # a, r))
      else if \<not> q \<and> blank c then (replicate n BACKSLASH, cs)
      else (let (a, r) = next_arg q 0 cs in (replicate n BACKSLASH @ c # a, r)))"

lemma next_arg_shorter: "length (snd (next_arg q n s)) \<le> length s - 1"
proof (induction q n s rule: next_arg.induct)
  case (2 q n c cs)
  then show ?case by (auto simp: Let_def split: prod.splits)
qed simp

lemma next_arg_drop_shorter:
  assumes "next_arg q n (dropWhile p s) = (a, r)" "x \<in> set s" "\<not> p x"
  shows "length r < length s"
proof -
  have "length r \<le> length (dropWhile p s) - 1" using next_arg_shorter [of q n "dropWhile p s"] assms(1) by simp
  moreover have "dropWhile p s \<noteq> []" using assms(2,3) by (auto simp: dropWhile_eq_Nil_conv)
  ultimately show ?thesis using length_dropWhile_le [of p s] by (cases "dropWhile p s") auto
qed

function split_args :: "string \<Rightarrow> string list" where
  "split_args s =
     (let s = dropWhile blank s in
      if s = [] then [] else (let (a, r) = next_arg False 0 s in a # split_args r))"
  by pat_completeness auto
termination by (relation "measure length") (auto intro: next_arg_drop_shorter [OF sym])

declare split_args.simps [simp del]

subsection \<open>Assembling a command line\<close>

definition needs_quote :: "block \<Rightarrow> bool" where
  "needs_quote ca \<longleftrightarrow> strlen ca = 0 \<or> list_ex (\<lambda>c. c = SPACE \<or> c = QUOTE) (cstr ca)"

text \<open>The loops \<open>for (int j = ...; j >= 0 && ca[j] == '\\'; j--)\<close>.\<close>

function put_backslashes :: "block \<Rightarrow> int \<Rightarrow> char cells \<Rightarrow> nat \<Rightarrow> (char cells \<times> nat) res" where
  "put_backslashes ca j buf cl =
     (if j \<ge> 0 \<and> ca ! nat j = BACKSLASH then
        bindE (c_write buf cl BACKSLASH) (\<lambda>buf. put_backslashes ca (j - 1) buf (cl + 1))
      else Inr (buf, cl))"
  by pat_completeness auto
termination by (relation "measure (\<lambda>(ca, j, buf, cl). nat (j + 1))") auto

declare put_backslashes.simps [simp del]

definition put_char :: "block \<Rightarrow> nat \<Rightarrow> char cells \<Rightarrow> nat \<Rightarrow> (char cells \<times> nat) res" where
  "put_char ca i buf cl =
     (if ca ! i = QUOTE then
        bindE (if i > 0 \<and> ca ! (i - 1) = BACKSLASH then put_backslashes ca (int i - 1) buf cl else Inr (buf, cl))
          (\<lambda>(buf, cl).
        bindE (c_write buf cl BACKSLASH) (\<lambda>buf.
        bindE (c_write buf (cl + 1) QUOTE) (\<lambda>buf. Inr (buf, cl + 2))))
      else
        bindE (c_write buf cl (ca ! i)) (\<lambda>buf.
        if ca ! i = BACKSLASH \<and> i + 1 = strlen ca then put_backslashes ca (int i) buf (cl + 1)
        else Inr (buf, cl + 1)))"

function quote_loop :: "block \<Rightarrow> nat \<Rightarrow> char cells \<Rightarrow> nat \<Rightarrow> (char cells \<times> nat) res" where
  "quote_loop ca i buf cl =
     (if i < strlen ca then
        bindE (put_char ca i buf cl) (\<lambda>(buf, cl). quote_loop ca (i + 1) buf cl)
      else Inr (buf, cl))"
  by pat_completeness auto
termination by (relation "measure (\<lambda>(ca, i, buf, cl). strlen ca - i)") auto

declare quote_loop.simps [simp del]

definition append_arg :: "block \<Rightarrow> char cells \<Rightarrow> char cells res" where
  "append_arg ca cmd =
     (if needs_quote ca then
        bindE (strlen_from cmd 0) (\<lambda>cl.
        bindE (c_write cmd cl QUOTE) (\<lambda>cmd.
        bindE (quote_loop ca 0 cmd (cl + 1)) (\<lambda>(cmd, cl).
        bindE (c_write cmd cl QUOTE) (\<lambda>cmd.
        bindE (c_write cmd (cl + 1) SPACE) (\<lambda>cmd.
        c_write cmd (cl + 2) NUL)))))
      else bindE (c_strcat cmd ca) (\<lambda>cmd. c_strcat cmd [SPACE]))"

function append_args :: "block list \<Rightarrow> int \<Rightarrow> int \<Rightarrow> char cells \<Rightarrow> char cells res" where
  "append_args args k argcount cmd =
     (if k < argcount then
        if k < 0 \<or> int (length args) \<le> k then crash Out_Of_Bounds
        else bindE (append_arg (args ! nat k) cmd) (append_args args (k + 1) argcount)
      else Inr cmd)"
  by pat_completeness auto
termination by (relation "measure (\<lambda>(args, k, argcount, cmd). nat (argcount - k))") auto

declare append_args.simps [simp del]

abbreviation CMD_SIZE :: nat where "CMD_SIZE \<equiv> 4096"

definition command_line :: "block \<Rightarrow> block list \<Rightarrow> int \<Rightarrow> char cells res" where
  "command_line cmd args argcount =
     bindE (c_strcpy (c_malloc CMD_SIZE) cmd) (\<lambda>b.
     bindE (c_strcat b [SPACE]) (append_args args 0 argcount))"

subsection \<open>What the loops write\<close>

text \<open>The escaped text of an argument, after \<open>n\<close> backslashes.\<close>

fun escape :: "nat \<Rightarrow> string \<Rightarrow> string" where
  "escape n [] = replicate n BACKSLASH"
| "escape n (c # cs) =
     (if c = QUOTE then replicate n BACKSLASH @ [BACKSLASH, QUOTE] @ escape 0 cs
      else c # escape (if c = BACKSLASH then n + 1 else 0) cs)"

definition quoted :: "block \<Rightarrow> string" where
  "quoted ca = (if needs_quote ca then [QUOTE] @ escape 0 (cstr ca) @ [QUOTE] else cstr ca)"

definition arguments_text :: "block list \<Rightarrow> string" where
  "arguments_text args = concat (map (\<lambda>a. quoted a @ [SPACE]) args)"

lemma next_arg_replicate: "next_arg q n (replicate k BACKSLASH @ s) = next_arg q (n + k) s"
  by (induction k arbitrary: n) simp_all

lemma next_arg_escape: "next_arg True n (escape n cs @ QUOTE # SPACE # r) = (replicate n BACKSLASH @ cs, r)"
proof (induction cs arbitrary: n)
  case Nil
  then show ?case by (simp add: next_arg_replicate blank_def)
next
  case (Cons c cs)
  have "next_arg True n (replicate n BACKSLASH @ BACKSLASH # QUOTE # escape 0 cs @ QUOTE # SPACE # r) =
      (replicate n BACKSLASH @ QUOTE # cs, r)"
    using Cons.IH [of 0] by (simp add: next_arg_replicate)
  then show ?case using Cons.IH [of 0] Cons.IH [of "n + 1"] by (auto simp: replicate_app_Cons_same)
qed

lemma next_arg_plain:
  "\<forall>c \<in> set cs. c \<noteq> QUOTE \<and> \<not> blank c \<Longrightarrow> next_arg False n (cs @ SPACE # r) = (replicate n BACKSLASH @ cs, r)"
proof (induction cs arbitrary: n)
  case Nil
  then show ?case by (simp add: blank_def)
next
  case (Cons c cs)
  then show ?case using Cons.IH [of 0] Cons.IH [of "n + 1"] by (auto simp: replicate_app_Cons_same)
qed

lemma split_quoted:
  assumes "TAB \<notin> set (cstr a)"
  shows "split_args (quoted a @ SPACE # r) = cstr a # split_args r"
proof (cases "needs_quote a")
  case True
  then have "dropWhile blank (quoted a @ SPACE # r) = QUOTE # escape 0 (cstr a) @ QUOTE # SPACE # r"
    by (simp add: quoted_def blank_def)
  then show ?thesis using next_arg_escape [of 0 "cstr a" r] by (subst split_args.simps) (simp add: Let_def)
next
  case False
  then obtain c cs where c: "cstr a = c # cs" by (cases "cstr a") (auto simp: needs_quote_def strlen_def)
  have ok: "\<forall>x \<in> set (cstr a). x \<noteq> QUOTE \<and> \<not> blank x"
    using False assms by (auto simp: needs_quote_def blank_def list_ex_iff)
  then have "dropWhile blank (quoted a @ SPACE # r) = cstr a @ SPACE # r"
    using False c by (simp add: quoted_def)
  then show ?thesis using next_arg_plain [OF ok, of 0 r] c by (subst split_args.simps) (simp add: Let_def)
qed

lemma split_args_Nil [simp]: "split_args [] = []"
  by (simp add: split_args.simps)

lemma split_arguments_text:
  "\<forall>a \<in> set args. TAB \<notin> set (cstr a) \<Longrightarrow> split_args (arguments_text args) = map cstr args"
  by (induction args) (simp_all add: arguments_text_def split_quoted)

abbreviation at :: "nat \<Rightarrow> char cells \<Rightarrow> char cells \<times> nat" where
  "at n \<equiv> (\<lambda>b. (b, n))"

lemma writes_at: "length b = n \<Longrightarrow> holds b s \<Longrightarrow> writes n (at k) s (Inr (b, k))"
  by (auto simp: writes_def holds_def)

text \<open>The number of backslashes directly before position \<open>i\<close>.\<close>

fun slashes :: "string \<Rightarrow> nat \<Rightarrow> nat" where
  "slashes s 0 = 0"
| "slashes s (Suc i) = (if s ! i = BACKSLASH then slashes s i + 1 else 0)"

lemma slashes_pos: "0 < slashes s i \<longleftrightarrow> 0 < i \<and> s ! (i - 1) = BACKSLASH"
  by (cases i) simp_all

lemma writes_backslashes:
  "length b = n \<Longrightarrow> holds b s \<Longrightarrow> i \<le> strlen ca \<Longrightarrow>
     writes n (at (length s + slashes ca i)) (s @ replicate (slashes ca i) BACKSLASH)
       (put_backslashes ca (int i - 1) b (length s))"
proof (induction i arbitrary: b s)
  case 0
  then show ?case by (subst put_backslashes.simps) (simp add: writes_at)
next
  case (Suc i)
  show ?case
  proof (cases "ca ! i = BACKSLASH")
    case False
    then show ?thesis using Suc.prems by (subst put_backslashes.simps) (simp add: writes_at)
  next
    case True
    have "writes n (at (length s + slashes ca (Suc i))) ((s @ [BACKSLASH]) @ replicate (slashes ca i) BACKSLASH)
        (bindE (c_write b (length s) BACKSLASH) (\<lambda>buf. put_backslashes ca (int i - 1) buf (length s + 1)))"
      by (rule writes_bind [OF writes_c_write [OF Suc.prems(1,2)]])
        (use Suc.IH [of _ "s @ [BACKSLASH]"] Suc.prems True in simp)
    then show ?thesis using True by (subst put_backslashes.simps) simp
  qed
qed

text \<open>What is written for the character at position \<open>i\<close>.\<close>

definition char_text :: "block \<Rightarrow> nat \<Rightarrow> string" where
  "char_text ca i =
     (if ca ! i = QUOTE then replicate (slashes ca i) BACKSLASH @ [BACKSLASH, QUOTE]
      else ca ! i # (if i + 1 = strlen ca then replicate (slashes ca (i + 1)) BACKSLASH else []))"

lemma writes_put_char:
  assumes "length b = n" "holds b s" "i < strlen ca"
  shows "writes n (at (length (s @ char_text ca i))) (s @ char_text ca i) (put_char ca i b (length s))"
proof (cases "ca ! i = QUOTE")
  case True
  let ?t = "replicate (slashes ca i) BACKSLASH"
  have "writes n (at (length (s @ ?t))) (s @ ?t)
      (if i > 0 \<and> ca ! (i - 1) = BACKSLASH then put_backslashes ca (int i - 1) b (length s) else Inr (b, length s))"
    using writes_backslashes [OF assms(1,2), of i ca] writes_at [OF assms(1,2), of "length s"] assms(3)
      slashes_pos [of ca i] by auto
  then have "writes n (at (length (s @ char_text ca i))) ((s @ ?t) @ [BACKSLASH, QUOTE])
      (bindE (if i > 0 \<and> ca ! (i - 1) = BACKSLASH then put_backslashes ca (int i - 1) b (length s) else Inr (b, length s))
        (\<lambda>(buf, cl). bindE (c_write buf cl BACKSLASH) (\<lambda>buf.
          bindE (c_write buf (cl + 1) QUOTE) (\<lambda>buf. Inr (buf, cl + 2)))))"
  proof (rule writes_bind)
    fix b assume b: "length b = n" "holds b (s @ ?t)"
    have "writes n (at (length (s @ char_text ca i))) (((s @ ?t) @ [BACKSLASH]) @ [QUOTE])
       (bindE (c_write b (length (s @ ?t)) BACKSLASH) (\<lambda>buf.
          bindE (c_write buf (length (s @ ?t) + 1) QUOTE) (\<lambda>buf. Inr (buf, length (s @ ?t) + 2))))"
    proof (rule writes_bind [OF writes_c_write [OF b]])
      fix b assume b: "length b = n" "holds b ((s @ ?t) @ [BACKSLASH])"
      have "writes n (at (length (s @ char_text ca i))) ((((s @ ?t) @ [BACKSLASH]) @ [QUOTE]) @ [])
       (bindE (c_write b (length ((s @ ?t) @ [BACKSLASH])) QUOTE) (\<lambda>buf. Inr (buf, length (s @ ?t) + 2)))"
        by (rule writes_bind [OF writes_c_write [OF b]]) (use True in \<open>simp add: char_text_def writes_def holds_def\<close>)
      then show "writes n (at (length (s @ char_text ca i))) (((s @ ?t) @ [BACKSLASH]) @ [QUOTE])
          (bindE (c_write b (length (s @ ?t) + 1) QUOTE) (\<lambda>buf. Inr (buf, length (s @ ?t) + 2)))" by simp
    qed
    then show "writes n (at (length (s @ char_text ca i))) ((s @ ?t) @ [BACKSLASH, QUOTE])
       (case (b, length (s @ ?t)) of (buf, cl) \<Rightarrow> bindE (c_write buf cl BACKSLASH) (\<lambda>buf.
          bindE (c_write buf (cl + 1) QUOTE) (\<lambda>buf. Inr (buf, cl + 2))))" by simp
  qed
  then show ?thesis using True by (simp add: put_char_def char_text_def)
next
  case False
  let ?t = "if i + 1 = strlen ca then replicate (slashes ca (i + 1)) BACKSLASH else []"
  have "writes n (at (length (s @ char_text ca i))) ((s @ [ca ! i]) @ ?t)
     (bindE (c_write b (length s) (ca ! i)) (\<lambda>buf.
        if ca ! i = BACKSLASH \<and> i + 1 = strlen ca then put_backslashes ca (int i) buf (length s + 1)
        else Inr (buf, length s + 1)))"
  proof (rule writes_bind [OF writes_c_write [OF assms(1,2)]])
    fix b assume b: "length b = n" "holds b (s @ [ca ! i])"
    have e: "Suc i = strlen ca \<Longrightarrow> slashes ca (strlen ca) = (if ca ! i = BACKSLASH then slashes ca i + 1 else 0)"
      by (metis slashes.simps(2))
    show "writes n (at (length (s @ char_text ca i))) ((s @ [ca ! i]) @ ?t)
       (if ca ! i = BACKSLASH \<and> i + 1 = strlen ca then put_backslashes ca (int i) b (length s + 1)
        else Inr (b, length s + 1))"
      using writes_backslashes [OF b, of "i + 1" ca] writes_at [OF b, of "length s + 1"] False assms(3) e
      by (auto simp: char_text_def)
  qed
  then show ?thesis using False by (simp add: put_char_def char_text_def)
qed

lemma escape_unroll:
  "i < length cs \<Longrightarrow> escape (slashes cs i) (drop i cs) =
     (if cs ! i = QUOTE then replicate (slashes cs i) BACKSLASH @ [BACKSLASH, QUOTE] else [cs ! i]) @
     escape (slashes cs (i + 1)) (drop (i + 1) cs)"
  by (simp flip: Cons_nth_drop_Suc)

lemma slashes_cstr: "i \<le> strlen ca \<Longrightarrow> slashes (cstr ca) i = slashes ca i"
proof (induction i)
  case (Suc i)
  then have "cstr ca ! i = ca ! i" by (simp add: cstr_def strlen_def takeWhile_nth)
  then show ?case using Suc by simp
qed simp

lemma escape_char_text:
  assumes "i < strlen ca"
  shows "escape (slashes ca i) (drop i (cstr ca)) = char_text ca i @
    (if i + 1 = strlen ca then [] else escape (slashes ca (i + 1)) (drop (i + 1) (cstr ca)))"
proof -
  have n: "cstr ca ! i = ca ! i" using assms by (simp add: cstr_def strlen_def takeWhile_nth)
  have "slashes ca (Suc i) = 0" if "ca ! i = QUOTE" using that by simp
  then show ?thesis
    using escape_unroll [of i "cstr ca"] slashes_cstr [of i ca] slashes_cstr [of "i + 1" ca] n assms
    by (auto simp: char_text_def strlen_def simp del: slashes.simps)
qed

lemma writes_quote_loop:
  "length b = n \<Longrightarrow> holds b s \<Longrightarrow> i < strlen ca \<Longrightarrow>
     writes n (at (length s + length (escape (slashes ca i) (drop i (cstr ca)))))
       (s @ escape (slashes ca i) (drop i (cstr ca))) (quote_loop ca i b (length s))"
proof (induction "strlen ca - i" arbitrary: i b s)
  case (Suc k)
  let ?e = "escape (slashes ca i) (drop i (cstr ca))"
  let ?r = "if i + 1 = strlen ca then [] else escape (slashes ca (i + 1)) (drop (i + 1) (cstr ca))"
  have e: "?e = char_text ca i @ ?r" by (rule escape_char_text) (use Suc.prems in simp)
  have "writes n (at (length s + length ?e)) ((s @ char_text ca i) @ ?r)
      (bindE (put_char ca i b (length s)) (\<lambda>(buf, cl). quote_loop ca (i + 1) buf cl))"
  proof (rule writes_bind [OF writes_put_char [OF Suc.prems]])
    fix b' assume b': "length b' = n" "holds b' (s @ char_text ca i)"
    show "writes n (at (length s + length ?e)) ((s @ char_text ca i) @ ?r)
        (case (b', length (s @ char_text ca i)) of (buf, cl) \<Rightarrow> quote_loop ca (i + 1) buf cl)"
    proof (cases "i + 1 = strlen ca")
      case True
      have "quote_loop ca (i + 1) b' cl = Inr (b', cl)" for cl
        using True by (subst quote_loop.simps) simp
      then show ?thesis using True b' e by (simp add: writes_at)
    next
      case False
      then show ?thesis using Suc.hyps(1) [of "i + 1" b' "s @ char_text ca i"] Suc.hyps(2) Suc.prems b' e
        by (simp add: add.assoc)
    qed
  qed
  then show ?case using e Suc.prems by (subst quote_loop.simps) simp
qed simp

lemma writes_quote_text:
  assumes "length b = n" "holds b s"
  shows "writes n (at (length (s @ escape 0 (cstr ca)))) (s @ escape 0 (cstr ca)) (quote_loop ca 0 b (length s))"
proof (cases "strlen ca = 0")
  case True
  then have "quote_loop ca 0 b (length s) = Inr (b, length s)" by (subst quote_loop.simps) simp
  then show ?thesis using True writes_at [OF assms] by (simp add: strlen_def)
next
  case False
  then show ?thesis using writes_quote_loop [OF assms, of 0 ca] by simp
qed

lemma NUL_notin_escape: "NUL \<notin> set cs \<Longrightarrow> NUL \<notin> set (escape n cs)"
  by (induction n cs rule: escape.induct) auto

lemma NUL_notin_quoted [simp]: "NUL \<notin> set (quoted a)"
  by (simp add: quoted_def NUL_notin_escape)

lemma writes_append_arg:
  assumes b: "length b = n" "holds b (s @ [NUL])" and s: "NUL \<notin> set s"
  shows "writes n (\<lambda>b. b) (s @ (quoted ca @ [SPACE]) @ [NUL]) (append_arg ca b)"
proof (cases "needs_quote ca")
  case True
  let ?q = "s @ [QUOTE]" and ?e = "escape 0 (cstr ca)"
  have 1: "writes n (\<lambda>b. b) ((((?q @ ?e) @ [QUOTE]) @ [SPACE]) @ [NUL])
      (bindE (c_write b (length (?q @ ?e)) QUOTE) (\<lambda>cmd.
       bindE (c_write cmd (length (?q @ ?e) + 1) SPACE) (\<lambda>cmd. c_write cmd (length (?q @ ?e) + 2) NUL)))"
    if "length b = n" "holds b (?q @ ?e)" for b
    unfolding append_assoc [of "(?q @ ?e) @ [QUOTE]"]
  proof (rule writes_bind [OF writes_c_write [OF that]], subst append_assoc [symmetric])
    fix b assume b: "length b = n" "holds b ((?q @ ?e) @ [QUOTE])"
    show "writes n (\<lambda>b. b) ((((?q @ ?e) @ [QUOTE]) @ [SPACE]) @ [NUL])
        (bindE (c_write b (length (?q @ ?e) + 1) SPACE) (\<lambda>cmd. c_write cmd (length (?q @ ?e) + 2) NUL))"
      using writes_bind [OF writes_c_write [OF b, of SPACE], of "\<lambda>b. b" "[NUL]"]
        writes_c_write [of _ n "((?q @ ?e) @ [QUOTE]) @ [SPACE]" NUL] by simp
  qed
  have 2: "writes n (\<lambda>b. b) ((?q @ ?e) @ [QUOTE, SPACE, NUL])
      (bindE (quote_loop ca 0 b (length ?q)) (\<lambda>(cmd, cl).
       bindE (c_write cmd cl QUOTE) (\<lambda>cmd. bindE (c_write cmd (cl + 1) SPACE) (\<lambda>cmd. c_write cmd (cl + 2) NUL))))"
    if "length b = n" "holds b ?q" for b
    by (rule writes_bind [OF writes_quote_text [OF that]]) (use 1 in simp)
  have "writes n (\<lambda>b. b) (?q @ ?e @ [QUOTE, SPACE, NUL])
      (bindE (c_write b (length s) QUOTE) (\<lambda>cmd. bindE (quote_loop ca 0 cmd (length s + 1)) (\<lambda>(cmd, cl).
       bindE (c_write cmd cl QUOTE) (\<lambda>cmd. bindE (c_write cmd (cl + 1) SPACE) (\<lambda>cmd. c_write cmd (cl + 2) NUL)))))"
    by (rule writes_bind [OF writes_c_write [OF b(1) holds_butlast [OF b(2)]]]) (use 2 in simp)
  then show ?thesis using True by (simp add: append_arg_def strlen_from_holds [OF b(2) s] quoted_def)
next
  case False
  have "writes n (\<lambda>b. b) ((s @ cstr ca) @ [SPACE] @ [NUL]) (bindE (c_strcat b ca) (\<lambda>cmd. c_strcat cmd [SPACE]))"
  proof (rule writes_bind_NUL)
    show "writes n (\<lambda>b. b) ((s @ cstr ca) @ [NUL]) (c_strcat b ca)" using writes_strcat [OF b s, of ca] by simp
  next
    fix b assume b: "length b = n" "holds b ((s @ cstr ca) @ [NUL])"
    show "writes n (\<lambda>b. b) ((s @ cstr ca) @ [SPACE] @ [NUL]) (c_strcat b [SPACE])"
      using writes_strcat [OF b, of "[SPACE]"] s by simp
  qed
  then show ?thesis using False by (simp add: append_arg_def quoted_def)
qed

lemma arguments_text_snoc: "arguments_text (args @ [a]) = arguments_text args @ quoted a @ [SPACE]"
  by (simp add: arguments_text_def)

lemma NUL_notin_arguments_text [simp]: "NUL \<notin> set (arguments_text args)"
  by (induction args) (auto simp: arguments_text_def)

lemma writes_append_args:
  assumes "length b = n" "holds b (s @ [NUL])" "NUL \<notin> set s" "0 \<le> k" "argcount \<le> int (length args)"
  shows "writes n (\<lambda>b. b) (s @ arguments_text (take (nat (argcount - k)) (drop (nat k) args)) @ [NUL])
    (append_args args k argcount b)"
  using assms
proof (induction "nat (argcount - k)" arbitrary: k b s)
  case 0
  then show ?case by (subst append_args.simps) (auto simp: arguments_text_def writes_def holds_def)
next
  case (Suc m)
  have k: "k < argcount" "nat k < length args" "\<not> int (length args) \<le> k" using Suc by linarith+
  let ?t = "quoted (args ! nat k) @ [SPACE]"
  let ?r = "arguments_text (take (nat (argcount - (k + 1))) (drop (nat (k + 1)) args))"
  have "nat (argcount - k) = Suc (nat (argcount - (k + 1)))" "nat (k + 1) = Suc (nat k)" using k Suc.prems(4) by simp_all
  then have t: "arguments_text (take (nat (argcount - k)) (drop (nat k) args)) = ?t @ ?r"
    using k(2) by (simp add: arguments_text_def flip: Cons_nth_drop_Suc)
  have "writes n (\<lambda>b. b) ((s @ ?t) @ ?r @ [NUL]) (bindE (append_arg (args ! nat k) b) (append_args args (k + 1) argcount))"
  proof (rule writes_bind_NUL)
    show "writes n (\<lambda>b. b) ((s @ ?t) @ [NUL]) (append_arg (args ! nat k) b)"
      using writes_append_arg [OF Suc.prems(1-3)] by simp
  next
    fix b' assume "length b' = n" "holds b' ((s @ ?t) @ [NUL])"
    then show "writes n (\<lambda>b. b) ((s @ ?t) @ ?r @ [NUL]) (append_args args (k + 1) argcount b')"
      using Suc.hyps(1) [of "k + 1" b' "s @ ?t"] Suc.hyps(2) Suc.prems by simp
  qed
  then show ?case using k Suc.prems(4) t by (subst append_args.simps) simp
qed

text \<open>The whole command line: either it fits, or the array overflows.\<close>

lemma writes_command_line:
  assumes "0 \<le> argcount" "argcount \<le> int (length args)"
  shows "writes CMD_SIZE (\<lambda>b. b) (cstr cmd @ SPACE # arguments_text (take (nat argcount) args) @ [NUL])
    (command_line cmd args argcount)"
proof -
  have 2: "writes CMD_SIZE (\<lambda>b. b) ((cstr cmd @ [SPACE]) @ arguments_text (take (nat argcount) args) @ [NUL])
      (bindE (c_strcat b [SPACE]) (append_args args 0 argcount))"
    if b: "length b = CMD_SIZE" "holds b (cstr cmd @ [NUL])" for b
    by (rule writes_bind_NUL)
      (use writes_strcat [OF b, of "[SPACE]"] writes_append_args [of _ CMD_SIZE "cstr cmd @ [SPACE]" 0 argcount args] assms in simp_all)
  have "writes CMD_SIZE (\<lambda>b. b) (cstr cmd @ ([SPACE] @ arguments_text (take (nat argcount) args)) @ [NUL])
      (command_line cmd args argcount)"
    unfolding command_line_def
    by (rule writes_bind_NUL [OF writes_strcpy]) (use 2 in simp_all)
  then show ?thesis by simp
qed

subsection \<open>Correctness of the command line\<close>


definition sample_args :: "string list" where
  "sample_args = [''a b'', [QUOTE, BACKSLASH], [BACKSLASH, BACKSLASH, QUOTE], [], ''plain'']"


text \<open>
  The array for the command line has a fixed size and is filled without a check. Whenever the
  command and its quoted arguments need more than 4096 characters with the terminator, the server
  writes behind the end of the array on its stack.
\<close>

theorem command_line_overflow:
  assumes "0 \<le> argcount" "argcount \<le> int (length args)"
    and "CMD_SIZE < strlen cmd + length (arguments_text (take (nat argcount) args)) + 2"
  shows "command_line cmd args argcount = crash Out_Of_Bounds"
  using writes_command_line [OF assms(1,2), of cmd] assms(3) by (auto simp: writes_def strlen_def)

theorem command_line_overflow_witness:
  "command_line (replicate 5000 (CHR ''x'')) [] 0 = crash Out_Of_Bounds"
  by (rule command_line_overflow) (simp_all add: strlen_def arguments_text_def)

end
