(* ===== verification/Cpulimit_Win.thy ===== *)
theory Cpulimit_Win
  imports Win_Cmdline
begin

section \<open>The program why3-cpulimit on Windows\<close>

text \<open>
  A model of \<open>cpulimit-win.c\<close>: the program assembles a command line from its arguments in a buffer
  that it measures first, creates a suspended process in a job object with the limits, resumes it,
  waits for it and returns its exit code. The answers of the Windows API are a parameter. A \<open>long\<close>
  has 32 bits, so that the limits read by \<open>strtol\<close> are between \<open>- 2 ^ 31\<close> and \<open>2 ^ 31 - 1\<close>.
\<close>

subsection \<open>State and system calls\<close>

datatype wait_code = WAIT_FAILED | WAIT_TIMEOUT | WAIT_OBJECT_0 | WAIT_ABANDONED

datatype cw_event =
    Cw_Error_Report string
  | Cw_Print string
  | Cw_Stderr string
  | Cw_Set_Limits "u64 option" "u64 option"
  | Cw_Create_Process string
  | Cw_Assign_Process
  | Cw_Resume_Thread
  | Cw_Wait wait_code
  | Cw_Show_Times u64 u64
  | Cw_Terminate_Process u32
  | Cw_Close_Handle string

record cw_os =
  cw_job :: bool
  cw_malloc :: bool
  cw_set_information :: bool
  cw_create :: bool
  cw_assign :: bool
  cw_wait :: wait_code
  cw_exit_code :: u32
  cw_times :: "u64 \<times> u64 \<times> u64 \<times> u64"

abbreviation (input) CW_FAILURE :: u32 where "CW_FAILURE \<equiv> 1"

subsection \<open>The functions\<close>

definition close_handles :: "cw_event list" where
  "close_handles = [Cw_Close_Handle ''pi.hProcess'', Cw_Close_Handle ''pi.hThread'', Cw_Close_Handle ''ghJob'']"

definition terminates :: "cw_event list" where
  "terminates = Cw_Terminate_Process 10 # close_handles"

definition ConsoleHandler :: "cw_event list \<times> bool" where
  "ConsoleHandler = (Cw_Print ''Got signal from console: killing subprocess'' # terminates, True)"

text \<open>A limit on the command line: the number, unless characters follow it.\<close>

definition cw_limit :: "block \<Rightarrow> int option" where
  "cw_limit a = (let (v, p) = strtol_bound INT_MAX (cstr a) in if p = [] then Some v else None)"

definition cw_parse :: "block list \<Rightarrow> (int \<times> int \<times> bool) option" where
  "cw_parse argv =
     (if length argv < 5 then None
      else
        case (cw_limit (argv ! 1), cw_limit (argv ! 2)) of
          (Some t, Some m) \<Rightarrow>
            let showtime = strncmp_eq 3 ''-s'' (argv ! 3); hidetime = strncmp_eq 3 ''-h'' (argv ! 3)
            in if showtime \<or> hidetime then Some (t, m, showtime) else None
        | _ \<Rightarrow> None)"

text \<open>The length of the arguments with two quotes and a separator or terminator each.\<close>

fun args_size :: "block list \<Rightarrow> u32 \<Rightarrow> u32" where
  "args_size [] s = s"
| "args_size (a # as) s = args_size as (s + (of_nat (strlen a) + 3))"

fun quote_all :: "block list \<Rightarrow> char cells \<Rightarrow> char cells res" where
  "quote_all [] p = Inr p"
| "quote_all (a # as) p =
     bindE (c_strcat p [QUOTE]) (\<lambda>p.
     bindE (c_strcat p a) (\<lambda>p.
     bindE (c_strcat p [QUOTE]) (\<lambda>p.
     bindE (if as \<noteq> [] then c_strcat p [SPACE] else Inr p) (quote_all as))))"

definition cw_limits :: "int \<Rightarrow> int \<Rightarrow> cw_event list" where
  "cw_limits time_limit_seconds memory_limit_MiB =
     (if time_limit_seconds \<noteq> 0 \<or> memory_limit_MiB \<noteq> 0 then
        [Cw_Set_Limits
          (if time_limit_seconds \<noteq> 0 then Some (10000000 * word_of_int time_limit_seconds) else None)
          (if memory_limit_MiB \<noteq> 0 then Some (word_of_int (1024 * 1024 * memory_limit_MiB)) else None)]
      else [])"

definition wait_message :: "wait_code \<Rightarrow> cw_event list" where
  "wait_message w =
     (case w of WAIT_FAILED \<Rightarrow> [Cw_Print ''Wait failed''] | WAIT_TIMEOUT \<Rightarrow> [Cw_Print ''Wait timeout'']
      | WAIT_OBJECT_0 \<Rightarrow> [] | WAIT_ABANDONED \<Rightarrow> [Cw_Print ''Wait abandonned''])"

definition wait_and_report :: "cw_os \<Rightarrow> bool \<Rightarrow> cw_event list \<times> u32" where
  "wait_and_report env showtime =
     (let w = cw_wait env; (start, stop, system, user) = cw_times env in
      (Cw_Assign_Process # Cw_Resume_Thread # Cw_Wait w # wait_message w @
       (if showtime then [Cw_Show_Times (system + user) (stop - start)] else []) @ close_handles,
       if w = WAIT_TIMEOUT then 152 else cw_exit_code env))"

definition launch :: "cw_os \<Rightarrow> string \<Rightarrow> int \<Rightarrow> int \<Rightarrow> bool \<Rightarrow> cw_event list \<times> u32" where
  "launch env cmdline t m showtime =
     (let es = cw_limits t m in
      if es \<noteq> [] \<and> \<not> cw_set_information env then (es @ [Cw_Error_Report ''SetInformationJobObject''], CW_FAILURE)
      else
        let es = es @ [Cw_Create_Process cmdline] in
        if \<not> cw_create env then
          (es @ [Cw_Print ''Error: failed when launching'', Cw_Error_Report ''CreateProcess''], CW_FAILURE)
        else if \<not> cw_assign env then (es @ [Cw_Assign_Process, Cw_Error_Report ''AssignProcessToJobObject''], CW_FAILURE)
        else (let (es', c) = wait_and_report env showtime in (es @ es', c)))"

definition cpulimit_win_main :: "cw_os \<Rightarrow> block list \<Rightarrow> (cw_event list \<times> u32) res" where
  "cpulimit_win_main env argv =
     (let es = (if cw_job env then [] else [Cw_Error_Report ''CreateJobObject'']) in
      case cw_parse argv of
        None \<Rightarrow> Inr (es @ [Cw_Stderr ''usage''], CW_FAILURE)
      | Some (t, m, showtime) \<Rightarrow>
          let s = args_size (drop 4 argv) 0 in
          if s > 32767 then Inr (es @ [Cw_Print ''Error: parameter's length exceeds CreateProcess limits''], CW_FAILURE)
          else if \<not> cw_malloc env then Inr (es @ [Cw_Print ''Error: when allocating''], CW_FAILURE)
          else
            bindE (c_write (c_malloc (unat s)) 0 NUL) (\<lambda>p.
            bindE (quote_all (drop 4 argv) p) (\<lambda>p.
            let (es', c) = launch env (cells_string p) t m showtime in Inr (es @ es', c))))"

subsection \<open>The command line fills its buffer exactly\<close>

fun quoted_all :: "block list \<Rightarrow> string" where
  "quoted_all [] = []"
| "quoted_all (a # as) = [QUOTE] @ cstr a @ [QUOTE] @ (if as \<noteq> [] then SPACE # quoted_all as else [])"

lemma length_quoted_all: "as \<noteq> [] \<Longrightarrow> length (quoted_all as) + 1 = sum_list (map (\<lambda>a. strlen a + 3) as)"
  by (induction as) (auto simp: strlen_def)

lemma args_size_sum:
  "unat s + sum_list (map (\<lambda>a. strlen a + 3) as) < 2 ^ 32 \<Longrightarrow>
     unat (args_size as s) = unat s + sum_list (map (\<lambda>a. strlen a + 3) as)"
proof (induction as arbitrary: s)
  case (Cons a as)
  have n: "of_nat (strlen a) + 3 = (of_nat (strlen a + 3) :: u32)" by simp
  have l: "strlen a + 3 < 2 ^ 32" "unat s + (strlen a + 3) < 2 ^ 32" using Cons.prems by simp_all
  then have "unat (of_nat (strlen a + 3) :: u32) = strlen a + 3" by (intro unat_of_nat_small) simp
  then have "unat (s + (of_nat (strlen a) + 3)) = unat s + (strlen a + 3)"
    using l unfolding n by (subst unat_add_no_wrap) simp_all
  then show ?case using Cons.IH [of "s + (of_nat (strlen a) + 3)"] Cons.prems by (simp add: add.assoc)
qed simp

lemma NUL_notin_quoted_all [simp]: "NUL \<notin> set (quoted_all as)"
  by (induction as) auto

lemma writes_quote_all:
  "length b = n \<Longrightarrow> holds b (s @ [NUL]) \<Longrightarrow> NUL \<notin> set s \<Longrightarrow>
     writes n (\<lambda>b. b) (s @ quoted_all as @ [NUL]) (quote_all as b)"
proof (induction as arbitrary: b s)
  case Nil
  then show ?case by (auto simp: writes_def holds_def)
next
  case (Cons a as)
  let ?sp = "if as \<noteq> [] then [SPACE] else []"
  have 4: "writes n (\<lambda>b. b) ((s' @ ?sp) @ quoted_all as @ [NUL])
      (bindE (if as \<noteq> [] then c_strcat b [SPACE] else Inr b) (quote_all as))"
    if b: "length b = n" "holds b (s' @ [NUL])" "NUL \<notin> set s'" for b s'
  proof (rule writes_bind_NUL)
    show "writes n (\<lambda>b. b) ((s' @ ?sp) @ [NUL]) (if as \<noteq> [] then c_strcat b [SPACE] else Inr b)"
      using writes_strcat [OF b, of "[SPACE]"] writes_Inr [OF b(1,2), of "\<lambda>b. b"] by simp
  qed (use Cons.IH [of _ "s' @ ?sp"] b(3) in auto)
  have 3: "writes n (\<lambda>b. b) ((s' @ [QUOTE]) @ (?sp @ quoted_all as) @ [NUL])
      (bindE (c_strcat b [QUOTE]) (\<lambda>p. bindE (if as \<noteq> [] then c_strcat p [SPACE] else Inr p) (quote_all as)))"
    if b: "length b = n" "holds b (s' @ [NUL])" "NUL \<notin> set s'" for b s'
    by (rule writes_bind_NUL) (use writes_strcat [OF b, of "[QUOTE]"] 4 [of _ "s' @ [QUOTE]"] b(3) in auto)
  have 2: "writes n (\<lambda>b. b) ((s' @ cstr a) @ (QUOTE # ?sp @ quoted_all as) @ [NUL])
      (bindE (c_strcat b a) (\<lambda>p. bindE (c_strcat p [QUOTE]) (\<lambda>p.
         bindE (if as \<noteq> [] then c_strcat p [SPACE] else Inr p) (quote_all as))))"
    if b: "length b = n" "holds b (s' @ [NUL])" "NUL \<notin> set s'" for b s'
    by (rule writes_bind_NUL) (use writes_strcat [OF b, of a] 3 [of _ "s' @ cstr a"] b(3) in auto)
  have "writes n (\<lambda>b. b) ((s @ [QUOTE]) @ (cstr a @ QUOTE # ?sp @ quoted_all as) @ [NUL]) (quote_all (a # as) b)"
    unfolding quote_all.simps
    by (rule writes_bind_NUL)
      (use writes_strcat [OF Cons.prems, of "[QUOTE]"] 2 [of _ "s @ [QUOTE]"] Cons.prems(3) in auto)
  then show ?case by (cases "as = []") simp_all
qed


definition cw_sample_os :: cw_os where
  "cw_sample_os = \<lparr>cw_job = True, cw_malloc = True, cw_set_information = True, cw_create = True, cw_assign = True,
     cw_wait = WAIT_OBJECT_0, cw_exit_code = 7, cw_times = (0, 0, 0, 0)\<rparr>"


lemma next_arg_closing:
  "QUOTE \<notin> set cs \<Longrightarrow> cs = [] \<longrightarrow> n = 0 \<Longrightarrow> cs \<noteq> [] \<longrightarrow> last cs \<noteq> BACKSLASH \<Longrightarrow>
     next_arg True n (cs @ QUOTE # r) = (let (a, r') = next_arg False 0 r in (replicate n BACKSLASH @ cs @ a, r'))"
proof (induction cs arbitrary: n)
  case Nil
  then show ?case by simp
next
  case (Cons c cs)
  show ?case
  proof (cases "c = BACKSLASH")
    case True
    then have "next_arg True (n + 1) (cs @ QUOTE # r) =
        (let (a, r') = next_arg False 0 r in (replicate (n + 1) BACKSLASH @ cs @ a, r'))"
      using Cons.prems by (intro Cons.IH) auto
    then show ?thesis using True by (simp add: replicate_app_Cons_same split: prod.split)
  next
    case False
    then have "next_arg True 0 (cs @ QUOTE # r) = (let (a, r') = next_arg False 0 r in (replicate 0 BACKSLASH @ cs @ a, r'))"
      using Cons.prems by (intro Cons.IH) auto
    then show ?thesis using False Cons.prems by (auto simp: Let_def split: prod.splits)
  qed
qed

text \<open>
  What the created process makes of the command line. Splitting it by the usual rules gives
  back the arguments, provided that none of them contains a double quote or ends with a backslash,
  which the program does not escape.
\<close>

theorem cpulimit_win_split:
  assumes "\<forall>a \<in> set as. QUOTE \<notin> set (cstr a) \<and> (cstr a \<noteq> [] \<longrightarrow> last (cstr a) \<noteq> BACKSLASH)"
  shows "split_args (quoted_all as) = map cstr as"
  using assms
proof (induction as)
  case (Cons a as)
  let ?r = "if as \<noteq> [] then SPACE # quoted_all as else []"
  have n: "next_arg True 0 (cstr a @ QUOTE # ?r) = (cstr a, if as \<noteq> [] then quoted_all as else [])"
    using Cons.prems by (subst next_arg_closing) (auto simp: blank_def)
  have "split_args (quoted_all (a # as)) = cstr a # split_args (if as \<noteq> [] then quoted_all as else [])"
    using n by (subst split_args.simps) (simp add: blank_def Let_def)
  then show ?case using Cons by simp
qed simp

theorem cpulimit_win_split_witness:
  "split_args (quoted_all [''prover'', ''a b'', ''c'' @ [BACKSLASH] @ ''d'']) = [''prover'', ''a b'', ''c'' @ [BACKSLASH] @ ''d'']"
  using cpulimit_win_split [of "[''prover'', ''a b'', ''c'' @ [BACKSLASH] @ ''d'']"] by simp

end
