(* ===== verification/Server_Win.thy ===== *)
theory Server_Win
  imports Proc Write_Buffer Win_Cmdline
begin

section \<open>The Windows server\<close>

text \<open>
  A model of \<open>server-win.c\<close> with one definition per function. All events come through one completion
  port; reading, writing and connecting are started first and reported when they are done. What the
  Windows API answers is a parameter, a function of the history of calls; \<open>0\<close> stands for a null
  handle and for failure. A completion packet carries the bytes that a finished read has stored in
  the buffer that was handed out for it. How \<open>printf\<close> rounds a time given in units of 100 ns to
  microseconds is a parameter, too. A handle is an \<open>int\<close>, a client object a pointer into a heap.
\<close>

subsection \<open>State\<close>

datatype conn_kind = READOP | WRITEOP

abbreviation (input) SOCKET :: int where "SOCKET \<equiv> 0"
abbreviation (input) PROCESS :: int where "PROCESS \<equiv> 1"

abbreviation READ_ONCE_WIN :: u64 where "READ_ONCE_WIN \<equiv> 1024"
abbreviation BUFSIZE :: u64 where "BUFSIZE \<equiv> 4096"
abbreviation (input) INVALID_HANDLE_VALUE :: int where "INVALID_HANDLE_VALUE \<equiv> - 1"
abbreviation ERROR_IO_PENDING :: int where "ERROR_IO_PENDING \<equiv> 997"
abbreviation ERROR_PIPE_CONNECTED :: int where "ERROR_PIPE_CONNECTED \<equiv> 535"
abbreviation ERROR_BROKEN_PIPE :: int where "ERROR_BROKEN_PIPE \<equiv> 109"
abbreviation ERROR_NOT_ENOUGH_QUOTA :: u32 where "ERROR_NOT_ENOUGH_QUOTA \<equiv> 1816"
abbreviation STATUS_QUOTA_EXCEEDED :: u32 where "STATUS_QUOTA_EXCEEDED \<equiv> 0xC0000044"

record completion =
  cp_res :: bool
  cp_bytes :: u32
  cp_key :: u64
  cp_kind :: conn_kind
  cp_error :: int
  cp_data :: "char list"

record win_os =
  w_call :: "history \<Rightarrow> string \<Rightarrow> int"
  w_completion :: "history \<Rightarrow> completion"
  w_child :: "history \<Rightarrow> int \<Rightarrow> u32 \<times> u64 \<times> u64"
  w_temp_name :: "history \<Rightarrow> string"
  w_micros :: "nat \<Rightarrow> nat"
  w_basename :: "string \<Rightarrow> string"
  w_current_dir :: string

record win_proc = t_proc +
  p_handle :: int
  p_job :: int

text \<open>A server socket that was handed over to a client is freed until it is created again.\<close>

datatype t_server = Server int | Freed_Server

record win_client =
  wc_handle :: int
  wc_readbuf :: t_readbuf
  wc_writebuf :: t_writebuf

record win_server = "win_proc globals" +
  server_socket :: "t_server cells"
  server_key :: "int cells"
  wclients :: "nat t_list"
  lists_set :: bool
  gen_key :: int
  pipe_name :: string
  completion_port :: int
  win_dir :: string
  wheap :: "nat \<Rightarrow> win_client option"
  wnext :: nat

definition wcall :: "win_os \<Rightarrow> string \<Rightarrow> win_server \<Rightarrow> int \<times> win_server" where
  "wcall env name s = (let r = w_call env (hist s) name in (r, sys (Sys_Call name r) s))"

definition wclient_at :: "nat \<Rightarrow> win_server \<Rightarrow> win_client res" where
  "wclient_at p s = (case wheap s p of None \<Rightarrow> crash Use_After_Free | Some c \<Rightarrow> Inr c)"

definition set_wclient :: "nat \<Rightarrow> win_client \<Rightarrow> win_server \<Rightarrow> win_server" where
  "set_wclient p c s = s\<lparr>wheap := (wheap s)(p := Some c)\<rparr>"

lemma sys_win_simps [simp]:
  "server_socket (sys e s) = server_socket s"
  "server_key (sys e s) = server_key s"
  "wclients (sys e s) = wclients s"
  "lists_set (sys e s) = lists_set s"
  "gen_key (sys e s) = gen_key s"
  "pipe_name (sys e s) = pipe_name s"
  "completion_port (sys e s) = completion_port s"
  "win_dir (sys e s) = win_dir s"
  "wheap (sys e s) = wheap s"
  "wnext (sys e s) = wnext s"
  by (simp_all add: sys_def)

lemma set_wclient_simps [simp]:
  "server_socket (set_wclient p c s) = server_socket s"
  "server_key (set_wclient p c s) = server_key s"
  "wclients (set_wclient p c s) = wclients s"
  "lists_set (set_wclient p c s) = lists_set s"
  "gen_key (set_wclient p c s) = gen_key s"
  "pipe_name (set_wclient p c s) = pipe_name s"
  "completion_port (set_wclient p c s) = completion_port s"
  "win_dir (set_wclient p c s) = win_dir s"
  "wnext (set_wclient p c s) = wnext s"
  "parallel (set_wclient p c s) = parallel s"
  "socketname (set_wclient p c s) = socketname s"
  "logging (set_wclient p c s) = logging s"
  "single_client (set_wclient p c s) = single_client s"
  "logfile (set_wclient p c s) = logfile s"
  "queue (set_wclient p c s) = queue s"
  "processes (set_wclient p c s) = processes s"
  "hist (set_wclient p c s) = hist s"
  "wheap (set_wclient p c s) = (wheap s)(p := Some c)"
  by (simp_all add: set_wclient_def)

definition win_kill :: "win_proc \<Rightarrow> sys_event" where
  "win_kill p = Win_Terminate_Job (p_job p)"

definition free_process :: "win_proc \<Rightarrow> win_server \<Rightarrow> win_server" where
  "free_process p s = sys (Win_Close (p_job p)) (sys (Win_Close (p_handle p)) s)"

subsection \<open>Keys\<close>

definition keygen :: "win_server \<Rightarrow> (int \<times> win_server) res" where
  "keygen s = bindE (c_int (gen_key s + 1)) (\<lambda>k. Inr (gen_key s, s\<lparr>gen_key := k\<rparr>))"

definition to_ms_key :: "int \<Rightarrow> int \<Rightarrow> u64 res" where
  "to_ms_key key kind =
     bindE (c_int (key * 2)) (\<lambda>k. bindE (c_int (k + kind)) (\<lambda>k. Inr (word_of_int k)))"

definition kind_of_ms_key :: "u64 \<Rightarrow> int" where
  "kind_of_ms_key ms = to_int32 (uint (ms mod 2))"

definition key_of_ms_key :: "u64 \<Rightarrow> int" where
  "key_of_ms_key ms = to_int32 (uint (ms div 2))"

subsection \<open>Shutdown\<close>

function close_sockets :: "int \<Rightarrow> win_server \<Rightarrow> win_server res" where
  "close_sockets i s =
     (if i < parallel s then
        bindE (c_read (server_socket s) (nat i)) (\<lambda>sv.
        case sv of
          Freed_Server \<Rightarrow> crash Use_After_Free
        | Server h \<Rightarrow> close_sockets (i + 1) (sys (Win_Close h) s))
      else Inr s)"
  by pat_completeness auto
termination by (relation "measure (\<lambda>(i, s). nat (parallel s - i))") auto

declare close_sockets.simps [simp del]

function close_wclients :: "int \<Rightarrow> win_server \<Rightarrow> win_server res" where
  "close_wclients i s =
     (if i < list_length (wclients s) then
        bindE (c_read (l_data (wclients s)) (nat i)) (\<lambda>p.
        bindE (wclient_at p s) (\<lambda>c. close_wclients (i + 1) (sys (Win_Close (wc_handle c)) s)))
      else Inr s)"
  by pat_completeness auto
termination by (relation "measure (\<lambda>(i, s). nat (list_length (wclients s) - i))") (auto simp: sys_def)

declare close_wclients.simps [simp del]

function free_processes :: "int \<Rightarrow> win_server \<Rightarrow> win_server res" where
  "free_processes i s =
     (if i < list_length (processes s) then
        bindE (c_read (l_data (processes s)) (nat i)) (\<lambda>p. free_processes (i + 1) (free_process p s))
      else Inr s)"
  by pat_completeness auto
termination by (relation "measure (\<lambda>(i, s). nat (list_length (processes s) - i))") (auto simp: free_process_def)

declare free_processes.simps [simp del]

definition shutdown_with_msg_win :: "string \<Rightarrow> win_server \<Rightarrow> 'b res" where
  "shutdown_with_msg_win msg s =
     (let s = (if completion_port s \<noteq> 0 then sys (Win_Close (completion_port s)) s else s) in
      bindE (close_sockets 0 s) (\<lambda>s.
      bindE (if lists_set s then close_wclients 0 s else Inr s) (\<lambda>s.
      bindE (if lists_set s then free_processes 0 s else Inr s) (logging_shutdown msg))))"

definition check_win :: "win_os \<Rightarrow> string \<Rightarrow> string \<Rightarrow> win_server \<Rightarrow> win_server res" where
  "check_win env name msg s = (let (ok, s) = wcall env name s in if ok = 0 then shutdown_with_msg_win msg s else Inr s)"

subsection \<open>Sockets\<close>

definition add_to_completion_port :: "win_os \<Rightarrow> int \<Rightarrow> u64 \<Rightarrow> win_server \<Rightarrow> win_server res" where
  "add_to_completion_port env h key s =
     (let (tmp, s) = wcall env ''CreateIoCompletionPort'' (sys (Win_Port h key) s) in
      if tmp = 0 then shutdown_with_msg_win ''CreateIoCompletionPort: error adding handle'' s
      else Inr (if completion_port s = 0 then s\<lparr>completion_port := tmp\<rparr> else s))"

definition init_connect_data :: "win_os \<Rightarrow> win_server \<Rightarrow> win_server" where
  "init_connect_data env s = snd (wcall env ''CreateEvent'' s)"

definition try_write :: "nat \<Rightarrow> win_server \<Rightarrow> win_server res" where
  "try_write p s =
     bindE (wclient_at p s) (\<lambda>c.
     if has_write_data (wc_writebuf c) \<and> can_write (wc_writebuf c) then
       bindE (prepare_write (wc_writebuf c)) (\<lambda>(b, buf, num_write).
       Inr (sys (Win_Write (wc_handle c) (take (nat num_write) buf)) (set_wclient p (c\<lparr>wc_writebuf := b\<rparr>) s)))
     else Inr s)"

definition create_server_socket :: "win_os \<Rightarrow> int \<Rightarrow> win_server \<Rightarrow> win_server res" where
  "create_server_socket env socket_num s =
     bindE (keygen s) (\<lambda>(key, s).
     let (h, s) = wcall env ''CreateNamedPipe'' s in
     if h = INVALID_HANDLE_VALUE then Inl (Exit 1 (hist s))
     else
       bindE (to_ms_key key SOCKET) (\<lambda>ms.
       bindE (add_to_completion_port env h ms s) (\<lambda>s.
       let s = snd (wcall env ''CreateEvent'' s) in
       bindE (c_write (server_socket s) (nat socket_num) (Server h)) (\<lambda>ss.
       bindE (c_write (server_key s) (nat socket_num) key) (\<lambda>ks.
       let (ok, s) = wcall env ''ConnectNamedPipe'' (s\<lparr>server_socket := ss, server_key := ks\<rparr>) in
       if ok = 0 then
         let (err, s) = wcall env ''GetLastError'' s in
         if err = ERROR_IO_PENDING \<or> err = ERROR_PIPE_CONNECTED then Inr s
         else shutdown_with_msg_win ''error connecting to socket'' s
       else Inr s)))))"

subsection \<open>Messages\<close>

definition send_text :: "int \<Rightarrow> nat option \<Rightarrow> block \<Rightarrow> win_server \<Rightarrow> win_server res" where
  "send_text key client msgbuf s =
     bindE (log_msg (''client '' @ show_int key @ '': sending reply '' @ cstr msgbuf) s) (\<lambda>s.
     case client of
       None \<Rightarrow> crash Null_Deref
     | Some p \<Rightarrow>
         bindE (wclient_at p s) (\<lambda>c.
         bindE (push_write_data (wc_writebuf c) msgbuf) (\<lambda>b.
         try_write p (set_wclient p (c\<lparr>wc_writebuf := b\<rparr>) s))))"

definition send_started_msg_to_client_win :: "win_os \<Rightarrow> int \<Rightarrow> nat \<Rightarrow> block \<Rightarrow> win_server \<Rightarrow> win_server res" where
  "send_started_msg_to_client_win env key p ident s =
     (let len = strlen ident + 4; (m, s) = wcall env ''malloc'' s in
      if m = 0 then shutdown_with_msg_win ''error when allocating client msg'' s
      else
        let (msgbuf, used) = snprintf len (''S;'' @ cstr ident @ [NEWLINE]) in
        if used \<noteq> int len - 1 then shutdown_with_msg_win ''message for client too long'' s
        else send_text key (Some p) msgbuf s)"

definition msg_text_win :: "win_os \<Rightarrow> block \<Rightarrow> u32 \<Rightarrow> nat \<Rightarrow> bool \<Rightarrow> block \<Rightarrow> string" where
  "msg_text_win env ident exitcode cpu_time timeout outfile =
     ''F;'' @ cstr ident @ '';'' @ dec (unat exitcode) @ '';'' @ show_micros (w_micros env cpu_time) @ '';''
     @ (if timeout then ''1'' else ''0'') @ '';'' @ cstr outfile @ [NEWLINE]"

definition send_msg_to_client_win :: "win_os \<Rightarrow> int \<Rightarrow> nat option \<Rightarrow> block \<Rightarrow> u32 \<Rightarrow> nat \<Rightarrow> bool \<Rightarrow> block \<Rightarrow>
    win_server \<Rightarrow> win_server res" where
  "send_msg_to_client_win env key client ident exitcode cpu_time timeout outfile s =
     (let len = strlen ident + 3 + 27 + strlen outfile + 1; (m, s) = wcall env ''malloc'' s in
      if m = 0 then shutdown_with_msg_win ''error when allocating buffer for client msg'' s
      else
        let (msgbuf, used) = snprintf len (msg_text_win env ident exitcode cpu_time timeout outfile) in
        if used \<ge> int len then shutdown_with_msg_win ''message for client too long'' s
        else send_text key client msgbuf s)"

subsection \<open>Processes\<close>

definition open_temp_file_win :: "win_os \<Rightarrow> win_server \<Rightarrow> (block \<times> int \<times> win_server) res" where
  "open_temp_file_win env s =
     (let name = w_temp_name env (hist s); (res, s) = wcall env ''GetTempFileName'' s in
      if res = 0 then shutdown_with_msg_win ''error obtaining a tmp file name'' s
      else
        let (h, s) = wcall env ''CreateFile'' s in
        if h = INVALID_HANDLE_VALUE then shutdown_with_msg_win ''error creating a tmp file'' s
        else Inr (name @ [NUL], h, s))"

definition job_limits :: "win_os \<Rightarrow> request \<Rightarrow> int \<Rightarrow> win_server \<Rightarrow> win_server res" where
  "job_limits env r ghJob s =
     (if r_timeout r \<noteq> 0 \<or> r_memlimit r \<noteq> 0 then
        check_win env ''SetInformationJobObject'' ''error in SetInformationJobObject''
          (sys (Win_Job_Limits ghJob
             (if r_timeout r \<noteq> 0 then Some (1000 * 1000 * 10 * r_timeout r) else None)
             (if r_memlimit r \<noteq> 0 then Some (1024 * 1024 * ucast (r_memlimit r)) else None)) s)
      else Inr s)"

text \<open>From \<open>AssignProcessToJobObject\<close> on: the created process is registered and resumed.\<close>

definition register_process :: "win_os \<Rightarrow> request \<Rightarrow> nat \<Rightarrow> int \<Rightarrow> int \<Rightarrow> block \<Rightarrow> win_server \<Rightarrow> win_server res" where
  "register_process env r p ghJob outfilehandle outfile s =
     (let (hProcess, s) = wcall env ''pi.hProcess'' s; (hThread, s) = wcall env ''pi.hThread'' s in
      bindE (check_win env ''AssignProcessToJobObject'' ''failed to assign process to job object'' s) (\<lambda>s.
      bindE (keygen s) (\<lambda>(key, s).
      bindE (list_append (processes s) key
               \<lparr>p_client_key = r_key r, p_task_id = r_id r, p_outfile = outfile, p_handle = hProcess, p_job = ghJob\<rparr>) (\<lambda>l.
      bindE (send_started_msg_to_client_win env (r_key r) p (r_id r) (s\<lparr>processes := l\<rparr>)) (\<lambda>s.
      bindE (to_ms_key key PROCESS) (\<lambda>ms.
      bindE (check_win env ''SetInformationJobObject'' ''Could not associate job with IO completion port''
               (sys (Win_Port ghJob ms) s)) (\<lambda>s.
      Inr (sys (Win_Close hThread) (sys (Win_Close outfilehandle) (snd (wcall env ''ResumeThread'' s)))))))))))"

definition create_process_win :: "win_os \<Rightarrow> request \<Rightarrow> nat \<Rightarrow> int \<Rightarrow> int \<Rightarrow> block \<Rightarrow> char cells \<Rightarrow> win_server \<Rightarrow> win_server res" where
  "create_process_win env r p ghJob outfilehandle outfile cmd s =
     (let (ok, s) = wcall env ''CreateProcess'' (sys (Win_Create_Process (cells_string cmd)) s) in
      if ok = 0 then
        bindE (log_msg (cells_string cmd) s) (\<lambda>s.
        send_msg_to_client_win env (r_key r) (Some p) (r_id r) 0 0 False outfile
          (sys (Win_Close ghJob) (sys (Win_Close outfilehandle) s)))
      else register_process env r p ghJob outfilehandle outfile s)"

definition run_request_win :: "win_os \<Rightarrow> request \<Rightarrow> win_server \<Rightarrow> win_server res" where
  "run_request_win env r s =
     (let argcount = (if r_usestdin r then r_numargs r - 1 else r_numargs r) in
      bindE (list_lookup (wclients s) (r_key r)) (\<lambda>client.
      case client of
        None \<Rightarrow> Inr s
      | Some p \<Rightarrow>
          let (ghJob, s) = wcall env ''CreateJobObject'' s in
          if ghJob = 0 then shutdown_with_msg_win ''failed creating job object'' s
          else
            bindE (open_temp_file_win env s) (\<lambda>(outfile, outfilehandle, s).
            if r_usestdin r \<and> (argcount < 0 \<or> int (length (r_args r)) \<le> argcount) then crash Out_Of_Bounds
            else
              let s = (if r_usestdin r
                       then snd (wcall env (''CreateFile '' @ cstr (r_args r ! nat argcount)) s) else s) in
              bindE (command_line (r_cmd r) (r_args r) argcount) (\<lambda>cmd.
              bindE (job_limits env r ghJob s) (create_process_win env r p ghJob outfilehandle outfile cmd)))))"

definition handle_queue_remove_win :: "win_os \<Rightarrow> request \<Rightarrow> win_server \<Rightarrow> win_server res" where
  "handle_queue_remove_win env r s =
     bindE (list_lookup (wclients s) (r_key r)) (\<lambda>client.
     send_msg_to_client_win env (r_key r) client (r_id r) 0 0 False [] s)"

text \<open>The arguments of a message for the log: a negative precision stands for the whole string.\<close>

definition query_text :: "char cells \<Rightarrow> int \<Rightarrow> string res" where
  "query_text buf len =
     (if len < 0 then bindE (strlen_from buf 0) (\<lambda>_. Inr (cells_string buf))
      else Inr (cells_string (take (nat len) buf)))"

definition handle_request_win :: "win_os \<Rightarrow> int \<Rightarrow> request \<Rightarrow> win_server \<Rightarrow> win_server res" where
  "handle_request_win env key r s =
     (case r_type r of
        REQ_RUN \<Rightarrow>
          if list_length (processes s) < parallel s then run_request_win env r s
          else bindE (queue_push (queue s) r) (\<lambda>q. Inr (s\<lparr>queue := q\<rparr>))
      | REQ_INTERRUPT \<Rightarrow>
          bindE (log_msg (''client '' @ show_int key @ '': requested removing id '' @ cstr (r_id r) @ '' from queue'') s) (\<lambda>s.
          bindE (remove_from_queue key (Some (r_id r)) (Some (handle_queue_remove_win env)) (queue s) s) (\<lambda>(q, s).
          kill_processes win_kill key (Some (r_id r)) (s\<lparr>queue := q\<rparr>))))"

definition handle_msg_win :: "win_os \<Rightarrow> nat \<Rightarrow> int \<Rightarrow> win_server \<Rightarrow> win_server res" where
  "handle_msg_win env p key s =
     bindE (wclient_at p s) (\<lambda>c.
     let buf = rb_data (wc_readbuf c); len = to_int32 (uint (rb_len (wc_readbuf c) - 1)) in
     bindE (if logging s then query_text buf len else Inr []) (\<lambda>q.
     bindE (log_msg (''client '' @ show_int key @ '': received query '' @ q) s) (\<lambda>s.
     bindE (parse_request buf len key (parallel s)) (\<lambda>(r, par).
     let s = s\<lparr>parallel := par\<rparr> in
     case r of None \<Rightarrow> Inr s | Some r \<Rightarrow> handle_request_win env key r s))))"

definition do_read :: "nat \<Rightarrow> win_server \<Rightarrow> win_server res" where
  "do_read p s =
     bindE (wclient_at p s) (\<lambda>c.
     let (b, _) = prepare_read (wc_readbuf c) READ_ONCE_WIN
     in Inr (sys (Win_Read (wc_handle c)) (set_wclient p (c\<lparr>wc_readbuf := b\<rparr>) s)))"

definition accept_client :: "win_os \<Rightarrow> int \<Rightarrow> int \<Rightarrow> win_server \<Rightarrow> win_server res" where
  "accept_client env key socket_num s =
     bindE (c_read (server_socket s) (nat socket_num)) (\<lambda>sv.
     case sv of
       Freed_Server \<Rightarrow> crash Use_After_Free
     | Server h \<Rightarrow>
         bindE (init_readbuf BUFSIZE) (\<lambda>rb.
         bindE (init_writebuf 16) (\<lambda>wb.
         let p = wnext s;
             s = set_wclient p \<lparr>wc_handle = h, wc_readbuf = rb, wc_writebuf = wb\<rparr> (s\<lparr>wnext := p + 1\<rparr>);
             s = init_connect_data env (init_connect_data env s) in
         bindE (c_write (server_socket s) (nat socket_num) Freed_Server) (\<lambda>ss.
         bindE (create_server_socket env socket_num (s\<lparr>server_socket := ss\<rparr>)) (\<lambda>s.
         bindE (list_append (wclients s) key p) (\<lambda>l.
         bindE (log_msg (''accepted client '' @ show_int key) (s\<lparr>wclients := l\<rparr>)) (do_read p)))))))"

definition shutdown_server_win :: "win_server \<Rightarrow> 'b res" where
  "shutdown_server_win s = shutdown_with_msg_win ''last client disconnected'' s"

definition close_client_win :: "nat \<Rightarrow> int \<Rightarrow> win_server \<Rightarrow> win_server res" where
  "close_client_win p key s =
     bindE (remove_from_queue key None None (queue s) ()) (\<lambda>(q, _).
     bindE (kill_processes win_kill key None (s\<lparr>queue := q\<rparr>)) (\<lambda>s.
     bindE (list_remove (wclients s) key) (\<lambda>l.
     bindE (wclient_at p s) (\<lambda>c.
     let s = sys (Win_Close (wc_handle c)) (s\<lparr>wclients := l\<rparr>) in
     bindE (free_writebuf (wc_writebuf c)) (\<lambda>_.
     bindE (log_msg (''client '' @ show_int key @ '' disconnected'') s) (\<lambda>s.
     let s = s\<lparr>wheap := (wheap s)(p := None)\<rparr> in
     if single_client s \<and> list_is_empty (wclients s) then shutdown_server_win s else Inr s))))))"

subsection \<open>Scheduling\<close>

text \<open>Starting a request does not touch the queue, so that the loop of \<open>schedule_new_jobs\<close> ends.\<close>

lemma shutdown_win_not_Inr [simp]: "shutdown_with_msg_win m s \<noteq> Inr x"
  by (auto simp: shutdown_with_msg_win_def logging_shutdown_def Let_def bindE_Inr_iff split: if_splits)

lemma wcall_queue [simp]: "queue (snd (wcall env n s)) = queue s"
  by (simp add: wcall_def Let_def)

lemma wcall_queue_eq: "wcall env n s = (r, s') \<Longrightarrow> queue s' = queue s"
  by (metis snd_conv wcall_queue)

lemma keygen_queue: "keygen s = Inr (k, s') \<Longrightarrow> queue s' = queue s"
  by (auto simp: keygen_def bindE_Inr_iff)

lemma log_msg_queue: "log_msg m (s :: win_server) = Inr s' \<Longrightarrow> queue s' = queue s"
  by (auto simp: log_msg_def split: if_splits)

lemma check_win_queue: "check_win env n m s = Inr s' \<Longrightarrow> queue s' = queue s"
  by (auto simp: check_win_def dest: wcall_queue_eq split: prod.splits if_splits)

lemma try_write_queue: "try_write p s = Inr s' \<Longrightarrow> queue s' = queue s"
  by (auto simp: try_write_def set_wclient_def bindE_Inr_iff split: if_splits)

lemma send_text_queue: "send_text key c m s = Inr s' \<Longrightarrow> queue s' = queue s"
  by (auto simp: send_text_def set_wclient_def bindE_Inr_iff dest!: log_msg_queue try_write_queue split: option.splits)

lemma send_started_win_queue: "send_started_msg_to_client_win env k p i s = Inr s' \<Longrightarrow> queue s' = queue s"
  by (auto simp: send_started_msg_to_client_win_def Let_def dest!: send_text_queue wcall_queue_eq
      split: prod.splits if_splits)

lemma send_msg_win_queue: "send_msg_to_client_win env k c i e t b f s = Inr s' \<Longrightarrow> queue s' = queue s"
  by (auto simp: send_msg_to_client_win_def Let_def dest!: send_text_queue wcall_queue_eq
      split: prod.splits if_splits)

lemma job_limits_queue: "job_limits env r j s = Inr s' \<Longrightarrow> queue s' = queue s"
  by (auto simp: job_limits_def dest!: check_win_queue split: if_splits)

lemma register_process_queue:
  assumes "register_process env r p j h f s = Inr s'"
  shows "queue s' = queue s"
  using assms
  by (auto simp: register_process_def bindE_Inr_iff Let_def split_beta
      dest!: check_win_queue keygen_queue send_started_win_queue)

lemma create_process_win_queue: "create_process_win env r p j h f c s = Inr s' \<Longrightarrow> queue s' = queue s"
  by (auto simp: create_process_win_def bindE_Inr_iff Let_def
      dest!: register_process_queue send_msg_win_queue log_msg_queue wcall_queue_eq split: prod.splits if_splits)

lemma open_temp_file_win_queue: "open_temp_file_win env s = Inr (f, h, s') \<Longrightarrow> queue s' = queue s"
  by (auto simp: open_temp_file_win_def Let_def dest!: wcall_queue_eq split: prod.splits if_splits)

lemma run_request_win_queue: "run_request_win env r s = Inr s' \<Longrightarrow> queue s' = queue s"
  by (auto simp: run_request_win_def bindE_Inr_iff Let_def split_beta [of _ "wcall _ _ _"]
      dest!: create_process_win_queue job_limits_queue open_temp_file_win_queue split: if_splits option.splits)

function schedule_new_jobs_win :: "win_os \<Rightarrow> win_server \<Rightarrow> win_server res" where
  "schedule_new_jobs_win env s =
     (if list_length (processes s) < parallel s \<and> \<not> queue_is_empty (queue s) then
        bindE (queue_pop (queue s)) (\<lambda>(r, q).
        bindE (run_request_win env r (s\<lparr>queue := q\<rparr>)) (\<lambda>s. schedule_new_jobs_win env s))
      else Inr s)"
  by pat_completeness auto
termination
  by (relation "measure (\<lambda>(env, s). unat (q_len (queue s)))")
    (auto dest!: run_request_win_queue queue_pop_shorter)

declare schedule_new_jobs_win.simps [simp del]

subsection \<open>Events of child processes\<close>

text \<open>The messages of a job object; those that are not listed make the server exit.\<close>

abbreviation JOB_OBJECT_MSG_END_OF_JOB_TIME :: u32 where "JOB_OBJECT_MSG_END_OF_JOB_TIME \<equiv> 1"
abbreviation JOB_OBJECT_MSG_END_OF_PROCESS_TIME :: u32 where "JOB_OBJECT_MSG_END_OF_PROCESS_TIME \<equiv> 2"
abbreviation JOB_OBJECT_MSG_ACTIVE_PROCESS_ZERO :: u32 where "JOB_OBJECT_MSG_ACTIVE_PROCESS_ZERO \<equiv> 4"
abbreviation JOB_OBJECT_MSG_NEW_PROCESS :: u32 where "JOB_OBJECT_MSG_NEW_PROCESS \<equiv> 6"
abbreviation JOB_OBJECT_MSG_EXIT_PROCESS :: u32 where "JOB_OBJECT_MSG_EXIT_PROCESS \<equiv> 7"
abbreviation JOB_OBJECT_MSG_ABNORMAL_EXIT_PROCESS :: u32 where "JOB_OBJECT_MSG_ABNORMAL_EXIT_PROCESS \<equiv> 8"
abbreviation JOB_OBJECT_MSG_PROCESS_MEMORY_LIMIT :: u32 where "JOB_OBJECT_MSG_PROCESS_MEMORY_LIMIT \<equiv> 9"
abbreviation JOB_OBJECT_MSG_JOB_MEMORY_LIMIT :: u32 where "JOB_OBJECT_MSG_JOB_MEMORY_LIMIT \<equiv> 10"

definition end_messages :: "u32 list" where
  "end_messages =
     [JOB_OBJECT_MSG_END_OF_JOB_TIME, JOB_OBJECT_MSG_END_OF_PROCESS_TIME, JOB_OBJECT_MSG_JOB_MEMORY_LIMIT,
      JOB_OBJECT_MSG_PROCESS_MEMORY_LIMIT, JOB_OBJECT_MSG_ABNORMAL_EXIT_PROCESS,
      JOB_OBJECT_MSG_ACTIVE_PROCESS_ZERO, JOB_OBJECT_MSG_EXIT_PROCESS]"

definition handle_child_event :: "win_os \<Rightarrow> win_proc \<Rightarrow> nat \<Rightarrow> int \<Rightarrow> u32 \<Rightarrow> win_server \<Rightarrow> win_server res" where
  "handle_child_event env child client proc_key event s =
     (if event = JOB_OBJECT_MSG_NEW_PROCESS then Inr s
      else if event \<in> set end_messages then
        let s = snd (wcall env ''WaitForSingleObject'' s) in
        bindE (list_remove (processes s) proc_key) (\<lambda>l.
        let s = s\<lparr>processes := l\<rparr>;
            (exitcode, system, user) = w_child env (hist s) (p_handle child);
            cpu_time = unat (system + user);
            timeout = (exitcode = ERROR_NOT_ENOUGH_QUOTA \<or> exitcode = STATUS_QUOTA_EXCEEDED) in
        bindE (send_msg_to_client_win env (p_client_key child) (Some client) (p_task_id child) exitcode cpu_time
                 timeout (p_outfile child) s) (\<lambda>s.
        Inr (free_process child s)))
      else Inl (Exit 1 (hist s)))"

subsection \<open>Initialisation and the event loop\<close>

definition win_initial :: win_server where
  "win_initial =
     \<lparr>parallel = 1, socketname = None, logging = False, single_client = False, logfile = False,
      queue = \<lparr>q_data = [], q_pointer = 0, q_len = 0, q_capacity = 0\<rparr>,
      processes = \<lparr>l_key = [], l_data = [], l_len = 0, l_capacity = 0\<rparr>, hist = [],
      server_socket = [], server_key = [],
      wclients = \<lparr>l_key = [], l_data = [], l_len = 0, l_capacity = 0\<rparr>, lists_set = False,
      gen_key = 1, pipe_name = [], completion_port = 0, win_dir = [], wheap = (\<lambda>_. None), wnext = 0\<rparr>"

definition PIPE_PREFIX :: string where
  "PIPE_PREFIX = [BACKSLASH, BACKSLASH, CHR ''.'', BACKSLASH] @ ''pipe'' @ [BACKSLASH]"

definition make_pipe_name :: "string \<Rightarrow> string res" where
  "make_pipe_name name =
     bindE (c_strcpy (c_malloc (strlen name + 10)) PIPE_PREFIX) (\<lambda>b.
     bindE (c_strcat b name) (\<lambda>b. Inr (cells_string b)))"

function create_sockets :: "win_os \<Rightarrow> int \<Rightarrow> int \<Rightarrow> win_server \<Rightarrow> win_server res" where
  "create_sockets env n i s =
     (if i < n then bindE (create_server_socket env i s) (create_sockets env n (i + 1)) else Inr s)"
  by pat_completeness auto
termination by (relation "measure (\<lambda>(env, n, i, s). nat (n - i))") auto

declare create_sockets.simps [simp del]

definition init_win :: "win_os \<Rightarrow> string \<Rightarrow> win_server \<Rightarrow> win_server res" where
  "init_win env name s =
     bindE (make_pipe_name (w_basename env name)) (\<lambda>pipe.
     bindE init_request_queue (\<lambda>q.
     let s = s\<lparr>win_dir := w_current_dir env, pipe_name := pipe, queue := q, wclients := init_list (parallel s),
               lists_set := True\<rparr>;
         s = init_process_list s;
         s = s\<lparr>server_socket := c_malloc (nat (parallel s)), server_key := c_malloc (nat (parallel s))\<rparr>;
         s = init_logging (w_call env (hist s) ''fopen'' \<noteq> 0) s in
     create_sockets env (parallel s) 0 s))"

function get_server_from :: "int \<Rightarrow> int \<Rightarrow> win_server \<Rightarrow> int res" where
  "get_server_from key i s =
     (if i < parallel s then
        bindE (c_read (server_key s) (nat i)) (\<lambda>k. if k = key then Inr i else get_server_from key (i + 1) s)
      else Inr (-1))"
  by pat_completeness auto
termination by (relation "measure (\<lambda>(key, i, s). nat (parallel s - i))") auto

declare get_server_from.simps [simp del]

definition get_server_num :: "int \<Rightarrow> win_server \<Rightarrow> int res" where
  "get_server_num key s = get_server_from key 0 s"

text \<open>A finished read or write of a client. The bytes of a read are in the buffer already.\<close>

definition client_event :: "win_os \<Rightarrow> completion \<Rightarrow> nat \<Rightarrow> int \<Rightarrow> win_server \<Rightarrow> win_server res" where
  "client_event env ev p key s =
     bindE (wclient_at p s) (\<lambda>c.
     case cp_kind ev of
       READOP \<Rightarrow>
         bindE (store_bytes (rb_data (wc_readbuf c)) (unat (rb_len (wc_readbuf c))) (cp_data ev)) (\<lambda>d.
         bindE (have_read ((wc_readbuf c)\<lparr>rb_data := d\<rparr>) (ucast (cp_bytes ev))) (\<lambda>b.
         let s = set_wclient p (c\<lparr>wc_readbuf := b\<rparr>) s in
         if cp_res ev then
           bindE (handle_msg_win env p key s) (\<lambda>s.
           bindE (wclient_at p s) (\<lambda>c.
           do_read p (set_wclient p (c\<lparr>wc_readbuf := clear_readbuf (wc_readbuf c)\<rparr>) s)))
         else if cp_bytes ev = 0 \<and> cp_error ev = ERROR_BROKEN_PIPE then close_client_win p key s
         else do_read p s))
     | WRITEOP \<Rightarrow>
         bindE (have_written (wc_writebuf c) (to_int32 (uint (cp_bytes ev)))) (\<lambda>b.
         try_write p (set_wclient p (c\<lparr>wc_writebuf := b\<rparr>) s)))"

definition socket_event :: "win_os \<Rightarrow> completion \<Rightarrow> int \<Rightarrow> int \<Rightarrow> win_server \<Rightarrow> win_server res" where
  "socket_event env ev server_num key s =
     (if server_num \<noteq> -1 then
        if \<not> cp_res ev \<and> cp_error ev \<noteq> ERROR_PIPE_CONNECTED then shutdown_with_msg_win ''error connecting client'' s
        else accept_client env key server_num s
      else
        bindE (list_lookup (wclients s) key) (\<lambda>client.
        case client of None \<Rightarrow> Inr s | Some p \<Rightarrow> client_event env ev p key s))"

definition process_event :: "win_os \<Rightarrow> completion \<Rightarrow> int \<Rightarrow> win_server \<Rightarrow> win_server res" where
  "process_event env ev key s =
     bindE (list_lookup (processes s) key) (\<lambda>proc.
     case proc of
       None \<Rightarrow> Inr s
     | Some proc \<Rightarrow>
         bindE (list_lookup (wclients s) (p_client_key proc)) (\<lambda>client.
         case client of
           None \<Rightarrow> Inr s
         | Some p \<Rightarrow> handle_child_event env proc p key (cp_bytes ev) s))"

definition main_turn_win :: "win_os \<Rightarrow> win_server \<Rightarrow> win_server res" where
  "main_turn_win env s =
     bindE (schedule_new_jobs_win env s) (\<lambda>s.
     let ev = w_completion env (hist s);
         s = sys (Sys_Call ''GetQueuedCompletionStatus'' (if cp_res ev then 1 else 0)) s in
     if cp_key ev = 0 then shutdown_with_msg_win ''GetQueuedCompletionStatus failed'' s
     else
       let key = key_of_ms_key (cp_key ev); kind = kind_of_ms_key (cp_key ev) in
       bindE (get_server_num key s) (\<lambda>server_num.
       if kind = SOCKET then socket_event env ev server_num key s
       else if kind = PROCESS then process_event env ev key s
       else Inl (Exit 1 (hist s))))"

fun turns_win :: "win_os \<Rightarrow> nat \<Rightarrow> win_server \<Rightarrow> win_server res" where
  "turns_win env 0 s = Inr s"
| "turns_win env (Suc n) s = bindE (main_turn_win env s) (turns_win env n)"

definition server_win_main :: "win_os \<Rightarrow> (string \<Rightarrow> bool) \<Rightarrow> (char \<times> string) list \<Rightarrow> int \<Rightarrow> int \<Rightarrow> nat \<Rightarrow> win_server res" where
  "server_win_main env einval opts optind argc n =
     bindE (parse_options einval opts optind argc (snd (wcall env ''SetErrorMode'' win_initial))) (\<lambda>s.
     bindE (init_win env (the (socketname s)) s) (turns_win env n))"

end
