(* ===== verification/Win_Events.thy ===== *)
theory Win_Events
  imports Server_Win
begin

section \<open>Properties of the Windows server\<close>

text \<open>
  What the handlers of \<open>server-win.c\<close> do: keys of the completion port, messages to clients, reading
  messages, disconnecting, and what happens when a client raises the number of parallel processes.
\<close>

subsection \<open>Keys\<close>

lemma word_of_int_64: "0 \<le> i \<Longrightarrow> i < 2 ^ 63 \<Longrightarrow> uint (word_of_int i :: u64) = i"
  by (simp add: uint_word_of_int)

text \<open>
  Every key that the server draws, combined with the kind of its events, is passed through
  the completion port and recovered, and is not the value that signals an error, as long as fewer
  than \<open>2 ^ 30\<close> keys were drawn.
\<close>

theorem ms_key_roundtrip:
  assumes "0 < key" "key < 2 ^ 30" "kind = SOCKET \<or> kind = PROCESS"
  shows "\<exists>ms. to_ms_key key kind = Inr ms \<and> ms \<noteq> 0 \<and> key_of_ms_key ms = key \<and> kind_of_ms_key ms = kind"
proof -
  let ?ms = "word_of_int (key * 2 + kind) :: u64"
  have u: "uint ?ms = key * 2 + kind" using assms by (intro word_of_int_64) auto
  then have "uint (?ms div 2) = key" "uint (?ms mod 2) = kind" using assms(3) by (auto simp: uint_div uint_mod)
  moreover have "?ms \<noteq> 0"
  proof
    assume "?ms = 0"
    then have "uint ?ms = 0" by (simp only: unsigned_0)
    then show False using u assms(1,3) by auto
  qed
  moreover have "to_ms_key key kind = Inr ?ms"
    using assms by (auto simp: to_ms_key_def c_int_def in_int_def)
  ultimately show ?thesis using assms by (auto simp: key_of_ms_key_def kind_of_ms_key_def in_int_def)
qed

theorem ms_key_roundtrip_witness:
  "\<exists>ms. to_ms_key 5 1 = Inr ms \<and> ms \<noteq> 0 \<and> key_of_ms_key ms = 5 \<and> kind_of_ms_key ms = 1"
  using ms_key_roundtrip [of 5 1] by simp

subsection \<open>Looking for the server socket of a key\<close>

lemma get_server_from_spec:
  assumes "server_key s = map Some ks" "0 \<le> i"
  shows "get_server_from key i s =
    (case find (\<lambda>j. ks ! j = key) [nat i ..< min (length ks) (nat (parallel s))] of
       Some j \<Rightarrow> Inr (int j)
     | None \<Rightarrow> if parallel s \<le> max i (int (length ks)) then Inr (-1) else crash Out_Of_Bounds)"
  using assms
proof (induction key i s rule: get_server_from.induct)
  case (1 key i s)
  show ?case
  proof (cases "i < parallel s")
    case False
    then show ?thesis by (subst get_server_from.simps) (auto simp: upt_conv_Nil)
  next
    case True
    show ?thesis
    proof (cases "nat i < length ks")
      case False
      then show ?thesis using True "1.prems" by (subst get_server_from.simps) (auto simp: c_read_def)
    next
      case lt: True
      have upt: "[nat i ..< min (length ks) (nat (parallel s))] =
          nat i # [nat (i + 1) ..< min (length ks) (nat (parallel s))]"
        using True lt "1.prems" by (simp add: upt_conv_Cons nat_add_distrib)
      have r: "c_read (server_key s) (nat i) = Inr (ks ! nat i)" using lt "1.prems" by simp
      show ?thesis
        using "1.IH" [OF True r] True "1.prems" lt
        by (subst get_server_from.simps) (auto simp: upt r max_def split: option.splits)
    qed
  qed
qed

text \<open>
  C23: the arrays of server sockets are allocated for the number of parallel processes at the
  start. When a client has raised that number with the command \<open>parallel\<close>, the next event that
  does not belong to a server socket makes the server read behind the end of the array of keys.
\<close>

theorem raised_parallel_out_of_bounds:
  assumes "server_key s = map Some ks" "int (length ks) < parallel s" "queue_is_empty (queue s)"
    and "cp_key (w_completion env (hist s)) \<noteq> 0" "key_of_ms_key (cp_key (w_completion env (hist s))) \<notin> set ks"
  shows "main_turn_win env s = crash Out_Of_Bounds"
proof -
  let ?key = "key_of_ms_key (cp_key (w_completion env (hist s)))"
  have "get_server_num ?key (sys e s) = crash Out_Of_Bounds" for e
  proof -
    have "find (\<lambda>j. ks ! j = ?key) [0 ..< length ks] = None" using assms(5) by (auto simp: find_None_iff in_set_conv_nth)
    then show ?thesis using assms(2) get_server_from_spec [of "sys e s" ks 0 ?key] assms(1)
      by (simp add: get_server_num_def min_def sys_def nat_le_iff)
  qed
  moreover have "schedule_new_jobs_win env s = Inr s" using assms(3) by (subst schedule_new_jobs_win.simps) simp
  ultimately show ?thesis using assms(4) by (simp add: main_turn_win_def Let_def)
qed

definition win_sample_os :: win_os where
  "win_sample_os = \<lparr>w_call = (\<lambda>_ _. 7), w_completion = (\<lambda>_. \<lparr>cp_res = True, cp_bytes = 4, cp_key = 10, cp_kind = READOP,
     cp_error = 0, cp_data = ''x;y'' @ [NEWLINE]\<rparr>), w_child = (\<lambda>_ _. (0, 0, 0)), w_temp_name = (\<lambda>_. ''tmp''),
     w_micros = (\<lambda>t. t div 10), w_basename = (\<lambda>s. s), w_current_dir = ''dir''\<rparr>"

theorem raised_parallel_out_of_bounds_witness:
  "main_turn_win win_sample_os (win_initial\<lparr>parallel := 2, server_key := [Some 1]\<rparr>) = crash Out_Of_Bounds"
  by (rule raised_parallel_out_of_bounds [where ks = "[1]"])
    (simp_all add: win_initial_def win_sample_os_def key_of_ms_key_def queue_is_empty_def uint_div in_int_def)

subsection \<open>Disconnecting\<close>


definition win_sample_proc :: win_proc where
  "win_sample_proc = \<lparr>p_client_key = 3, p_task_id = ''id'', p_outfile = ''tmp'', p_handle = 21, p_job = 22\<rparr>"

definition win_sample_client :: win_client where
  "win_sample_client = \<lparr>wc_handle = 9, wc_readbuf = \<lparr>rb_data = replicate 4096 None, rb_len = 0, rb_capacity = 4096\<rparr>,
     wc_writebuf = \<lparr>wb_data = None, wb_len = 0, wb_pointer = 0, wb_is_writing = False,
       wb_queue = \<lparr>q_data = [None], q_pointer = 0, q_len = 0, q_capacity = 1\<rparr>\<rparr>\<rparr>"

text \<open>One client with key 3, one of its processes, with key 5, and an empty queue.\<close>

definition win_sample_state :: win_server where
  "win_sample_state = win_initial\<lparr>parallel := 2,
     queue := \<lparr>q_data = [None], q_pointer = 0, q_len = 0, q_capacity = 1\<rparr>,
     processes := \<lparr>l_key = [Some 5], l_data = [Some win_sample_proc], l_len = 1, l_capacity = 1\<rparr>,
     server_socket := [Some (Server 7), Some (Server 8)], server_key := [Some 1, Some 2],
     wclients := \<lparr>l_key = [Some 3], l_data = [Some 0], l_len = 1, l_capacity = 1\<rparr>,
     lists_set := True, gen_key := 6, wheap := [0 \<mapsto> win_sample_client], wnext := 1\<rparr>"

lemma win_sample_lists:
  "list_entries (processes win_sample_state) = [(5, win_sample_proc)]" "list_inv (processes win_sample_state)"
  "list_entries (wclients win_sample_state) = [(3, 0)]" "list_inv (wclients win_sample_state)"
  "queue_list (queue win_sample_state) = []" "queue_inv (queue win_sample_state)"
  "wb_inv (wc_writebuf win_sample_client)" "rb_inv (wc_readbuf win_sample_client)"
  "wheap win_sample_state 0 = Some win_sample_client" "\<not> single_client win_sample_state" "\<not> logging win_sample_state"
  by (simp_all add: win_sample_state_def win_sample_client_def list_entries_def list_inv_def queue_list_def queue_inv_def
      holds_def wb_inv_def rb_inv_def rb_bytes_def win_initial_def)


subsection \<open>Reading messages\<close>

text \<open>
  A message may arrive in several parts. When a read ends with a part of a message, its bytes
  are appended to the read buffer and the next read is started with room for another part.
\<close>

theorem message_part_appended:
  assumes "wheap s p = Some c" "rb_inv (wc_readbuf c)" "unat (rb_capacity (wc_readbuf c)) < 2 ^ 62"
    and "length (rb_bytes (wc_readbuf c)) + 1024 \<le> length (rb_data (wc_readbuf c))"
    and "cp_kind ev = READOP" "\<not> cp_res ev" "unat (cp_bytes ev) = length (cp_data ev)" "length (cp_data ev) \<le> 1024"
    and "cp_bytes ev \<noteq> 0 \<or> cp_error ev \<noteq> ERROR_BROKEN_PIPE"
  shows "\<exists>b. client_event env ev p key s =
      Inr (sys (Win_Read (wc_handle c)) (set_wclient p (c\<lparr>wc_readbuf := b\<rparr>) s)) \<and> rb_inv b \<and>
    rb_bytes b = rb_bytes (wc_readbuf c) @ cp_data ev \<and> length (rb_bytes b) + 1024 \<le> length (rb_data b)"
proof -
  let ?r = "wc_readbuf c"
  have h: "holds (rb_data ?r) (rb_bytes ?r)" using assms(2) by (simp add: rb_inv_def)
  have len: "unat (rb_len ?r) = length (rb_bytes ?r)" using length_rb_bytes [OF assms(2)] by simp
  obtain d where d: "store_bytes (rb_data ?r) (length (rb_bytes ?r)) (cp_data ev) = Inr d"
    using store_bytes_ok [OF h, of "cp_data ev"] assms(4,8) by auto
  have n: "unat (ucast (cp_bytes ev) :: u64) = length (cp_data ev)"
    using assms(7,8) by (simp add: unsigned_ucast_eq take_bit_nat_eq_self)
  obtain b where b: "have_read (?r\<lparr>rb_data := d\<rparr>) (ucast (cp_bytes ev)) = Inr b" "rb_inv b"
    "rb_bytes b = rb_bytes ?r @ cp_data ev" "rb_capacity b = rb_capacity ?r"
    using have_read_ok [OF assms(2) _ d n] assms(4,8) by auto
  obtain b2 q where q: "prepare_read b READ_ONCE_WIN = (b2, q)" by fastforce
  have small: "unat (rb_capacity b) + unat READ_ONCE_WIN < 2 ^ 63" using b(4) assms(3) by simp
  note r = prepare_read_ok [OF b(2) small q]
  have "client_event env ev p key s = Inr (sys (Win_Read (wc_handle c)) (set_wclient p (c\<lparr>wc_readbuf := b2\<rparr>) s))"
    using assms(1,5,6,9) d b(1) q len
    by (auto simp: client_event_def wclient_at_def do_read_def Let_def set_wclient_def)
  then show ?thesis using r b(3) by auto
qed

definition win_sample_part :: completion where
  "win_sample_part = \<lparr>cp_res = False, cp_bytes = 2, cp_key = 6, cp_kind = READOP, cp_error = 234, cp_data = ''ab''\<rparr>"

theorem message_part_appended_witness:
  "\<exists>b. client_event win_sample_os win_sample_part 0 3 win_sample_state =
      Inr (sys (Win_Read 9) (set_wclient 0 (win_sample_client\<lparr>wc_readbuf := b\<rparr>) win_sample_state)) \<and> rb_bytes b = ''ab''"
proof -
  have "wc_handle win_sample_client = 9" "rb_bytes (wc_readbuf win_sample_client) = []"
    "length (rb_data (wc_readbuf win_sample_client)) = 4096" "unat (rb_capacity (wc_readbuf win_sample_client)) = 4096"
    by (simp_all add: win_sample_client_def rb_bytes_def)
  then show ?thesis
    using message_part_appended [of win_sample_state 0 win_sample_client win_sample_part win_sample_os 3]
    by (auto simp: win_sample_lists win_sample_part_def)
qed

text \<open>
  A complete message is handled as one request. Without its last byte, which is the newline,
  it is split at its semicolons, and the request is run, queued or cancels others accordingly.
\<close>

theorem message_handled_as_request:
  assumes "wheap s p = Some c" "rb_inv (wc_readbuf c)" "rb_bytes (wc_readbuf c) = msg @ [x]"
    and "int (length msg) \<le> INT_MAX" "\<not> logging s"
  shows "handle_msg_win env p key s =
    (let (r, par) = parse_fields (split_semi msg) key (parallel s); s = s\<lparr>parallel := par\<rparr>
     in case r of None \<Rightarrow> Inr s | Some r \<Rightarrow> handle_request_win env key r s)"
proof -
  let ?r = "wc_readbuf c"
  have len: "unat (rb_len ?r) = length msg + 1" using length_rb_bytes [OF assms(2)] assms(3) by simp
  then have "unat (rb_len ?r - 1) = length msg" by (subst unat_pred) simp_all
  then have "uint (rb_len ?r - 1) = int (length msg)" by (metis uint_nat)
  then have l: "to_int32 (uint (rb_len ?r - 1)) = int (length msg)" using assms(4) by (simp add: in_int_def)
  have "holds (rb_data ?r) (msg @ [x])" using assms(2,3) by (simp add: rb_inv_def)
  then have "holds (rb_data ?r) msg" by (rule holds_butlast)
  then have "parse_request (rb_data ?r) (int (length msg)) key (parallel s) = Inr (parse_fields (split_semi msg) key (parallel s))"
    by (rule parse_request_line)
  then show ?thesis using assms(1,5) l
    by (simp add: handle_msg_win_def wclient_at_def log_msg_def Let_def split: prod.split)
qed

theorem message_handled_as_request_witness:
  "handle_msg_win win_sample_os 0 3 (win_sample_state\<lparr>wheap := [0 \<mapsto> win_sample_client\<lparr>wc_readbuf :=
      \<lparr>rb_data = map Some (''parallel;4'' @ [NEWLINE]), rb_len = 11, rb_capacity = 11\<rparr>\<rparr>]\<rparr>) =
    Inr (win_sample_state\<lparr>parallel := 4, wheap := [0 \<mapsto> win_sample_client\<lparr>wc_readbuf :=
      \<lparr>rb_data = map Some (''parallel;4'' @ [NEWLINE]), rb_len = 11, rb_capacity = 11\<rparr>\<rparr>]\<rparr>)"
proof -
  let ?rb = "\<lparr>rb_data = map Some (''parallel;4'' @ [NEWLINE]), rb_len = 11, rb_capacity = 11\<rparr>"
  have rb: "rb_inv ?rb" "rb_bytes ?rb = ''parallel;4'' @ [NEWLINE]" by (simp_all add: rb_inv_def rb_bytes_def holds_def)
  have "parse_fields (split_semi ''parallel;4'') 3 2 = (None, 4)" by code_simp
  then show ?thesis
    using message_handled_as_request [of "win_sample_state\<lparr>wheap := [0 \<mapsto> win_sample_client\<lparr>wc_readbuf := ?rb\<rparr>]\<rparr>" 0
      "win_sample_client\<lparr>wc_readbuf := ?rb\<rparr>" "''parallel;4''" NEWLINE win_sample_os 3] rb
    by (simp add: win_sample_state_def win_initial_def)
qed

subsection \<open>Messages to clients\<close>

text \<open>
  The buffer of a message about a finished task is large enough for every exit code of
  Windows, if the CPU time is below 100000 seconds.
\<close>

theorem finished_message_fits_win:
  assumes "w_micros env ticks < 10 ^ 11" "int (strlen ident + strlen outfile) \<le> INT_MAX - 31"
  shows "snprintf (strlen ident + 3 + 27 + strlen outfile + 1) (msg_text_win env ident code ticks tmo outfile) =
      (msg_text_win env ident code ticks tmo outfile @ [NUL], int (length (msg_text_win env ident code ticks tmo outfile)))"
    (is "?snprintf = (?t @ [NUL], _)")
proof -
  have "unat code < 10 ^ 10" using unat_bound [of code] by simp
  then have "length (dec (unat code)) \<le> 10" by (intro length_dec) simp_all
  moreover have "length (show_micros (w_micros env ticks)) \<le> 5 + 7" using assms(1) by (intro length_show_micros) simp_all
  ultimately have "length ?t \<le> strlen ident + strlen outfile + 30"
    by (simp add: msg_text_win_def strlen_def)
  then show ?thesis using assms(2) by (simp add: snprintf_def)
qed

theorem finished_message_fits_win_witness:
  "snprintf (strlen ''id'' + 3 + 27 + strlen ''tmp'' + 1) (msg_text_win win_sample_os ''id'' STATUS_QUOTA_EXCEEDED 10000000 True ''tmp'') =
    (msg_text_win win_sample_os ''id'' STATUS_QUOTA_EXCEEDED 10000000 True ''tmp'' @ [NUL],
     int (length (msg_text_win win_sample_os ''id'' STATUS_QUOTA_EXCEEDED 10000000 True ''tmp'')))"
  by (rule finished_message_fits_win) (simp_all add: win_sample_os_def strlen_def)

end
