(* ===== verification/Limbs.thy ===== *)
theory Limbs
  imports C_Prelude
begin

section \<open>Arithmetic on limbs\<close>

text \<open>
  The 64-bit primitives of \<open>overlays/uint64gmp.h\<close> and of the macros at the head of
  \<open>mini-gmp.c\<close>: sums and differences with a carry, products of two words as two words, and the
  division of two words by one. A limb is a 64-bit word, \<open>limb_base\<close> is \<open>2 ^ 64\<close>, and each primitive
  is described by the natural numbers that its operands and results stand for.
\<close>

unbundle bit_operations_syntax

named_theorems limb_simps

abbreviation limb_base :: nat where "limb_base \<equiv> 2 ^ 64"

definition lpart :: "u64 \<Rightarrow> u64" where
  "lpart t = t AND 0xFFFFFFFF"

definition hpart :: "u64 \<Rightarrow> u64" where
  "hpart t = drop_bit 32 t"

definition ll_B :: u64 where
  "ll_B = 2 ^ 32"

subsection \<open>Words as numbers\<close>

lemma unat64_less: "unat (a :: u64) < limb_base"
  using unat_bound [of a] by simp

lemmas unat64_less_num [simp] = unat64_less [simplified]

lemma unat_lpart: "unat (lpart t) = unat t mod 2 ^ 32"
proof -
  have "(0xFFFFFFFF :: u64) = mask 32" by (simp add: mask_eq_exp_minus_1)
  then have l: "lpart t = take_bit 32 t" by (simp only: lpart_def take_bit_eq_mask)
  show ?thesis unfolding l unsigned_take_bit_eq by (simp only: take_bit_eq_mod)
qed

lemma unat_hpart: "unat (hpart t) = unat t div 2 ^ 32"
  by (simp add: hpart_def drop_bit_eq_div unat_div)

lemma lpart_less: "unat (lpart t) < 2 ^ 32"
  by (simp add: unat_lpart)

lemmas lpart_less_num [simp] = lpart_less [simplified]

lemma hpart_less: "unat (hpart t) < 2 ^ 32"
  using unat64_less [of t] by (simp add: unat_hpart less_mult_imp_div_less)

lemmas hpart_less_num [simp] = hpart_less [simplified]

lemma parts: "unat (hpart t) * 2 ^ 32 + unat (lpart t) = unat t"
  unfolding unat_lpart unat_hpart by simp

text \<open>Carry of a sum and borrow of a difference.\<close>

lemma mod_less_double: "(n :: nat) < 2 * b \<Longrightarrow> n mod b = (if n < b then n else n - b)"
  by (auto simp: le_mod_geq not_less)

lemma unat_add_double: "unat (a + b :: u64) = (if unat a + unat b < limb_base then unat a + unat b else unat a + unat b - limb_base)"
proof -
  have "unat (a + b) = (unat a + unat b) mod limb_base" by (simp add: unat_word_ariths)
  moreover have "unat a + unat b < 2 * limb_base" using unat64_less [of a] unat64_less [of b] by linarith
  ultimately show ?thesis by (simp only: mod_less_double)
qed

lemma carry_iff: "(a + b :: u64) < b \<longleftrightarrow> limb_base \<le> unat a + unat b"
proof -
  have "(if x + y < m then x + y else x + y - m) < y \<longleftrightarrow> m \<le> x + y" if "x < m" for x y m :: nat using that by auto
  then show ?thesis unfolding word_less_nat_alt unat_add_double using unat64_less [of a] by blast
qed

lemma add_carry [limb_simps]: "unat (a + b :: u64) + limb_base * of_bool (a + b < b) = unat a + unat b"
  unfolding carry_iff unat_add_double by (simp split: if_splits)

lemma add_carry' [limb_simps]: "unat (a + b :: u64) + limb_base * of_bool (a + b < a) = unat a + unat b"
  using add_carry [of b a] by (simp add: add.commute)

lemma sub_borrow [limb_simps]: "unat (a - b :: u64) + unat b = unat a + limb_base * of_bool (a < b)"
proof -
  have "a - b + b = a" by simp
  then have "unat a + limb_base * of_bool (a < b) = unat (a - b) + unat b"
    using add_carry [of "a - b" b] by simp
  then show ?thesis by simp
qed

subsection \<open>Products\<close>

text \<open>
  The product of two limbs as a high and a low limb, from the four products of their halves. The
  macro of \<open>mini-gmp.c\<close> is the same with other names for the constants.
\<close>

definition umul_ppmm :: "u64 \<Rightarrow> u64 \<Rightarrow> u64 \<times> u64" where
  "umul_ppmm u v =
     (let ul = lpart u; uh = hpart u; vl = lpart v; vh = hpart v;
          x0 = ul * vl; x1 = ul * vh; x2 = uh * vl; x3 = uh * vh;
          x1 = x1 + hpart x0;
          x1 = x1 + x2;
          x3 = (if x1 < x2 then x3 + ll_B else x3)
      in (x3 + hpart x1, push_bit 32 x1 + lpart x0))"

definition gmp_umul_ppmm :: "u64 \<Rightarrow> u64 \<Rightarrow> u64 \<times> u64" where
  "gmp_umul_ppmm u v =
     (let GMP_HLIMB_BIT = push_bit 32 1; GMP_LLIMB_MASK = GMP_HLIMB_BIT - 1;
          ul = u AND GMP_LLIMB_MASK; uh = drop_bit 32 u;
          vl = v AND GMP_LLIMB_MASK; vh = drop_bit 32 v;
          x0 = ul * vl; x1 = ul * vh; x2 = uh * vl; x3 = uh * vh;
          x1 = x1 + drop_bit 32 x0;
          x1 = x1 + x2;
          x3 = (if x1 < x2 then x3 + GMP_HLIMB_BIT else x3)
      in (x3 + drop_bit 32 x1, push_bit 32 x1 + (x0 AND GMP_LLIMB_MASK)))"

definition mul64_double :: "u64 \<Rightarrow> u64 \<Rightarrow> u64 \<times> u64" where
  "mul64_double x y = (let (w1, w0) = umul_ppmm x y in (w0, w1))"

lemma gmp_umul_ppmm_eq: "gmp_umul_ppmm = umul_ppmm"
  by (intro ext) (simp add: gmp_umul_ppmm_def umul_ppmm_def lpart_def hpart_def ll_B_def Let_def)

lemma half_product: "(a :: nat) < 2 ^ 32 \<Longrightarrow> b < 2 ^ 32 \<Longrightarrow> a * b \<le> 2 ^ 64 - 2 ^ 33 + 1"
proof -
  assume "a < 2 ^ 32" "b < 2 ^ 32"
  then have "a * b \<le> (2 ^ 32 - 1) * (2 ^ 32 - 1)" by (intro mult_mono) auto
  then show ?thesis by simp
qed

lemma unat_half_product:
  "unat (a :: u64) < 2 ^ 32 \<Longrightarrow> unat b < 2 ^ 32 \<Longrightarrow> unat (a * b) = unat a * unat b"
  using half_product [of "unat a" "unat b"] by (simp add: unat_word_ariths)

lemma unat_push32: "unat (push_bit 32 (x :: u64)) = unat x mod 2 ^ 32 * 2 ^ 32"
proof -
  have "unat (push_bit 32 x) = (unat x * 2 ^ 32) mod (2 ^ 32 * 2 ^ 32)"
    by (simp add: push_bit_eq_mult unat_word_ariths mult.commute)
  then show ?thesis by (simp only: mod_mult_mult2)
qed

lemma shift_parts: "b * b * (y div b) + y mod b * b = b * (y :: nat)"
proof -
  have "b * b * (y div b) + y mod b * b = b * (b * (y div b) + y mod b)" by (simp only: distrib_left ac_simps)
  then show ?thesis by (simp only: mult_div_mod_eq)
qed

lemma shift_parts_sum: "b * (y div b + z) + y mod b = y + b * (z :: nat)"
  using div_mult_mod_eq [of y b] by (simp add: algebra_simps)

lemma umul_ppmm_value [limb_simps]:
  assumes "umul_ppmm u v = (w1, w0)"
  shows "limb_base * unat w1 + unat w0 = unat u * unat v"
proof -
  define p0 p1 p2 p3 where "p0 = unat (lpart u) * unat (lpart v)" and "p1 = unat (lpart u) * unat (hpart v)"
    and "p2 = unat (hpart u) * unat (lpart v)" and "p3 = unat (hpart u) * unat (hpart v)"
  define x0 x1 x2 where "x0 = lpart u * lpart v" and "x1 = lpart u * hpart v + hpart (lpart u * lpart v)"
    and "x2 = hpart u * lpart v"
  have uv: "unat u * unat v = p0 + 2 ^ 32 * (p1 + p2) + limb_base * p3"
    unfolding p0_def p1_def p2_def p3_def parts [of u, symmetric] parts [of v, symmetric] by (simp add: algebra_simps)
  have x0: "unat x0 = p0" and x2: "unat x2 = p2" by (simp_all add: x0_def x2_def p0_def p2_def unat_half_product)
  have "p1 \<le> 2 ^ 64 - 2 ^ 33 + 1" unfolding p1_def by (rule half_product) simp_all
  moreover have h0: "unat (hpart x0) = p0 div 2 ^ 32" by (simp add: unat_hpart x0)
  moreover have l1: "unat (lpart u * hpart v) = p1" by (simp add: unat_half_product p1_def)
  ultimately have x1: "unat x1 = p1 + p0 div 2 ^ 32"
    unfolding x1_def x0_def [symmetric] using hpart_less [of x0] by (subst unat_add_no_wrap) simp_all
  define c :: nat where "c = of_bool (x1 + x2 < x2)"
  have s: "unat (x1 + x2) + limb_base * c = p1 + p0 div 2 ^ 32 + p2"
    using add_carry [of x1 x2] x1 x2 by (simp add: c_def)
  have w0: "unat w0 = unat (x1 + x2) mod 2 ^ 32 * 2 ^ 32 + p0 mod 2 ^ 32"
  proof -
    have "w0 = push_bit 32 (x1 + x2) + lpart x0" using assms by (auto simp: umul_ppmm_def Let_def x0_def x1_def x2_def)
    moreover have "unat (push_bit 32 (x1 + x2)) + unat (lpart x0) < limb_base"
      using lpart_less [of x0] lpart_less [of "x1 + x2"] unfolding unat_push32 unat_lpart by simp
    ultimately have "unat w0 = unat (push_bit 32 (x1 + x2)) + unat (lpart x0)" by (simp only: unat_add_double if_True)
    then show ?thesis unfolding unat_push32 unat_lpart x0 .
  qed
  let ?h = "p3 + c * 2 ^ 32 + unat (x1 + x2) div 2 ^ 32"
  have tot: "limb_base * ?h + unat w0 = unat u * unat v"
  proof -
    have "limb_base * (unat (x1 + x2) div 2 ^ 32) + unat (x1 + x2) mod 2 ^ 32 * 2 ^ 32 = 2 ^ 32 * unat (x1 + x2)"
      using shift_parts [of "2 ^ 32" "unat (x1 + x2)"] by simp
    moreover have "2 ^ 32 * (unat (x1 + x2) + limb_base * c) + p0 mod 2 ^ 32 = p0 + 2 ^ 32 * (p1 + p2)"
      unfolding s using shift_parts_sum [of "2 ^ 32" p0 "p1 + p2"] by (simp add: add.assoc add.left_commute)
    ultimately show ?thesis unfolding uv w0 by (simp add: algebra_simps)
  qed
  have "unat w1 = ?h mod limb_base"
    using assms by (auto simp: umul_ppmm_def Let_def x0_def x1_def x2_def c_def p3_def ll_B_def unat_word_ariths unat_hpart mod_simps)
  moreover have "?h < limb_base"
  proof -
    have "limb_base * ?h \<le> unat u * unat v" using tot by linarith
    also have "\<dots> < limb_base * limb_base" by (intro mult_strict_mono) simp_all
    finally show ?thesis by simp
  qed
  ultimately show ?thesis using tot by simp
qed

subsection \<open>Sums and differences with a carry\<close>

text \<open>Each operation gives the low limb and the carry or borrow.\<close>

definition add64_with_carry :: "u64 \<Rightarrow> u64 \<Rightarrow> u64 \<Rightarrow> u64 \<times> u64" where
  "add64_with_carry x y c = (let r = x + y + c in (r, if r = x then c else of_bool (r < x)))"

definition sub64_with_borrow :: "u64 \<Rightarrow> u64 \<Rightarrow> u64 \<Rightarrow> u64 \<times> u64" where
  "sub64_with_borrow x y b = (let r = x - y - b in (r, if r > x then 1 else if r = x then b else 0))"

definition add64_3 :: "u64 \<Rightarrow> u64 \<Rightarrow> u64 \<Rightarrow> u64 \<times> u64" where
  "add64_3 x y z =
     (let r = x + y; c1 = of_bool (r < y); r = r + z; c2 = of_bool (r < z) in (r, c1 + c2))"

lemma bit_cases: "unat (c :: u64) \<le> 1 \<Longrightarrow> c = 0 \<or> c = 1"
proof -
  assume "unat c \<le> 1"
  then have "unat c = 0 \<or> unat c = 1" by linarith
  then show ?thesis by (metis unat_0 unat_1 word_unat_eq_iff)
qed

lemma add64_with_carry_value:
  assumes "add64_with_carry x y c = (r, cy)" "unat c \<le> 1"
  shows "unat r + limb_base * unat cy = unat x + unat y + unat c \<and> unat cy \<le> 1"
proof -
  have r: "r = x + y + c" and cy: "cy = (if r = x then c else of_bool (r < x))"
    using assms(1) by (auto simp: add64_with_carry_def Let_def)
  define z where "z = y + c"
  have rx: "r = x + z" using r by (simp add: z_def add.assoc)
  have x: "unat r + limb_base * of_bool (r < x) = unat x + unat z" using add_carry' [of x z] rx by simp
  have z: "unat z + limb_base * of_bool (z < c) = unat y + unat c" using add_carry [of y c] z_def by simp
  show ?thesis
  proof (cases "c = 0")
    case True
    then show ?thesis using x cy by (cases "r < x") (auto simp: z_def split: if_splits)
  next
    case False
    then have c: "c = 1" using bit_cases [OF assms(2)] by simp
    show ?thesis
    proof (cases "z = 0")
      case True
      then show ?thesis using z rx cy c by (simp split: if_splits)
    next
      case False
      then have "\<not> z < c" using c by (simp add: word_less_1 flip: word_gt_0)
      moreover have "r \<noteq> x" using False rx by simp
      ultimately show ?thesis using x z cy by (auto split: if_splits)
    qed
  qed
qed

lemma sub64_with_borrow_value:
  assumes "sub64_with_borrow x y b = (r, bo)" "unat b \<le> 1"
  shows "unat r + unat y + unat b = unat x + limb_base * unat bo \<and> unat bo \<le> 1"
proof -
  have r: "r = x - y - b" and bo: "bo = (if r > x then 1 else if r = x then b else 0)"
    using assms(1) by (auto simp: sub64_with_borrow_def Let_def)
  have "add64_with_carry r y b = (x, if x = r then b else of_bool (x < r))"
    using r by (simp add: add64_with_carry_def)
  from add64_with_carry_value [OF this assms(2)] show ?thesis
    using bo by (auto split: if_splits)
qed

lemma add64_3_value:
  assumes "add64_3 x y z = (r, c)"
  shows "unat r + limb_base * unat c = unat x + unat y + unat z"
proof -
  have r: "r = x + y + z" and c: "c = of_bool (x + y < y) + of_bool (x + y + z < z)"
    using assms by (auto simp: add64_3_def Let_def)
  have "unat c = of_bool (x + y < y) + of_bool (x + y + z < z)" using c by simp
  then show ?thesis using add_carry [of x y] add_carry [of "x + y" z] r by simp
qed

text \<open>A shift by no bit, or by all of them, is undefined in C.\<close>

definition lsld64 :: "u64 \<Rightarrow> u64 \<Rightarrow> (u64 \<times> u64) res" where
  "lsld64 x cnt =
     (if cnt = 0 \<or> 64 \<le> cnt then crash Invalid_Shift
      else Inr (push_bit (unat cnt) x, drop_bit (unat (64 - cnt)) x))"

lemma unat_push_bit: "0 < k \<Longrightarrow> k < 64 \<Longrightarrow> unat (push_bit k (x :: u64)) = 2 ^ k * (unat x mod 2 ^ (64 - k))"
proof -
  assume k: "0 < k" "k < 64"
  have e: "limb_base = 2 ^ k * 2 ^ (64 - k)" using k by (simp flip: power_add)
  have "unat (push_bit k x) = take_bit 64 (unat x * 2 ^ k)"
    unfolding unsigned_push_bit_eq by (simp add: push_bit_eq_mult)
  also have "\<dots> = (2 ^ k * unat x) mod (2 ^ k * 2 ^ (64 - k))" unfolding take_bit_eq_mod e by (simp only: mult.commute)
  finally show ?thesis by (simp only: mod_mult_mult1)
qed

lemma shift_value:
  assumes "0 < k" "k < 64"
  shows "unat (push_bit k (x :: u64)) + limb_base * unat (drop_bit (64 - k) x) = unat x * 2 ^ k"
proof -
  have e: "limb_base = 2 ^ k * 2 ^ (64 - k)" using assms by (simp flip: power_add)
  have "unat (push_bit k x) = 2 ^ k * (unat x mod 2 ^ (64 - k))" by (rule unat_push_bit [OF assms])
  moreover have "unat (drop_bit (64 - k) x) = unat x div 2 ^ (64 - k)"
    unfolding unsigned_drop_bit_eq by (simp add: drop_bit_eq_div take_bit_nat_eq_self)
  moreover have "2 ^ k * (unat x mod 2 ^ (64 - k)) + 2 ^ k * 2 ^ (64 - k) * (unat x div 2 ^ (64 - k)) = unat x * 2 ^ k"
  proof -
    have "2 ^ k * (unat x mod 2 ^ (64 - k)) + 2 ^ k * 2 ^ (64 - k) * (unat x div 2 ^ (64 - k)) =
       2 ^ k * (2 ^ (64 - k) * (unat x div 2 ^ (64 - k)) + unat x mod 2 ^ (64 - k))" by (simp only: distrib_left ac_simps)
    then show ?thesis by (simp only: mult_div_mod_eq mult.commute)
  qed
  ultimately show ?thesis unfolding e by simp
qed

subsection \<open>Division of two limbs by one\<close>

text \<open>
  One half of the macro \<open>__udiv_qrnnd_c\<close>: the division of a limb and a half limb \<open>h\<close> by a limb, from
  the estimate of the quotient by the high half of the divisor, with two corrections.
\<close>

definition udiv_half :: "u64 \<Rightarrow> u64 \<Rightarrow> u64 \<Rightarrow> u64 \<times> u64" where
  "udiv_half n h d =
     (let d1 = hpart d; d0 = lpart d;
          q = n div d1; r = n - q * d1; m = q * d0;
          r = r * ll_B OR h;
          (q, r) =
            (if r < m then
               let q = q - 1; r = r + d in if r \<ge> d \<and> r < m then (q - 1, r + d) else (q, r)
             else (q, r))
      in (q, r - m))"

definition udiv_qrnnd_c :: "u64 \<Rightarrow> u64 \<Rightarrow> u64 \<Rightarrow> (u64 \<times> u64) res" where
  "udiv_qrnnd_c n1 n0 d =
     (if hpart d = 0 then crash Division_By_Zero
      else
        let (q1, r1) = udiv_half n1 (hpart n0) d; (q0, r0) = udiv_half r1 (lpart n0) d
        in Inr (q1 * ll_B OR q0, r0))"

definition div64_2by1 :: "u64 \<Rightarrow> u64 \<Rightarrow> u64 \<Rightarrow> u64 res" where
  "div64_2by1 ul uh d = bindE (udiv_qrnnd_c uh ul d) (\<lambda>(q, r). Inr q)"

lemma or_low_bits:
  assumes "unat (h :: u64) < 2 ^ k"
  shows "push_bit k x OR h = push_bit k x + h"
proof -
  have h: "h = take_bit k h"
    using assms by (simp add: word_unat_eq_iff unsigned_take_bit_eq take_bit_nat_eq_self)
  have "push_bit k x + take_bit k h = push_bit k x OR take_bit k h"
    by (rule disjunctive_add) (auto simp: bit_push_bit_iff bit_take_bit_iff)
  then show ?thesis using h by simp
qed

lemma or_halves: "unat (h :: u64) < 2 ^ 32 \<Longrightarrow> x * ll_B OR h = x * ll_B + h"
  using or_low_bits [of h 32 x] by (simp add: ll_B_def push_bit_eq_mult)

text \<open>The estimate is too large by at most two.\<close>

lemma estimate_bound:
  fixes n d1 d0 b :: nat
  assumes "n < d1 * b + d0" "d0 < b" "b \<le> 2 * d1"
  shows "n div d1 \<le> b + 1"
proof -
  have "n < (b + 2) * d1" using assms by (simp add: algebra_simps)
  then have "n div d1 < b + 2" by (simp add: less_mult_imp_div_less)
  then show ?thesis by simp
qed

lemma div_mod_int:
  fixes t q r d :: nat
  assumes "t = q * d + r" "r < d"
  shows "t div d = q" "t mod d = r"
  using assms by simp_all

lemma unat_of_nat64': "k < limb_base \<Longrightarrow> unat (of_nat k :: u64) = k"
  by (simp add: unsigned_of_nat take_bit_nat_eq_self)

lemma udiv_half_value:
  assumes div: "udiv_half n h d = (q, r)" and d: "2 ^ 63 \<le> unat d" and n: "unat n < unat d" and h: "unat h < 2 ^ 32"
  shows "unat q = (unat n * 2 ^ 32 + unat h) div unat d" "unat r = (unat n * 2 ^ 32 + unat h) mod unat d"
proof -
  define D D1 D0 N H where "D = unat d" and "D1 = unat (hpart d)" and "D0 = unat (lpart d)" and "N = unat n" and "H = unat h"
  define Q R M where "Q = N div D1" and "R = N mod D1 * 2 ^ 32 + H" and "M = Q * D0"
  have D: "D = D1 * 2 ^ 32 + D0" "D0 < 2 ^ 32" using parts [of d] by (simp_all add: D_def D1_def D0_def)
  have lt: "D < limb_base" "2 ^ 63 \<le> D" "N < D" "H < 2 ^ 32"
    using unat64_less [of d] d n h by (simp_all add: D_def N_def H_def)
  have D1: "2 ^ 31 \<le> D1"
  proof (rule ccontr)
    assume "\<not> 2 ^ 31 \<le> D1"
    then have "D1 + 1 \<le> 2 ^ 31" by simp
    then have "(D1 + 1) * 2 ^ 32 \<le> 2 ^ 31 * 2 ^ 32" by (rule mult_le_mono1)
    then show False using D lt(2) by simp
  qed
  have Q: "Q \<le> 2 ^ 32 + 1" unfolding Q_def by (rule estimate_bound [of N D1 "2 ^ 32" D0]) (use D lt D1 in simp_all)
  have "M \<le> (2 ^ 32 + 1) * (2 ^ 32 - 1)" unfolding M_def using Q D(2) by (intro mult_le_mono) auto
  then have M: "M < limb_base" by simp
  have RR: "N mod D1 < D1" using D1 by simp
  have R: "R < D" "R < limb_base"
  proof -
    have "(N mod D1 + 1) * 2 ^ 32 \<le> D1 * 2 ^ 32" using RR by (intro mult_le_mono1) simp
    then show "R < D" using lt(4) D(1) by (simp add: R_def)
    then show "R < limb_base" using lt(1) by linarith
  qed
  have T: "N * 2 ^ 32 + H + M = Q * D + R"
  proof -
    have "N * 2 ^ 32 = (Q * D1 + N mod D1) * 2 ^ 32" by (simp add: Q_def)
    then show ?thesis unfolding D(1) R_def M_def by (simp add: algebra_simps)
  qed
  have wq: "n div hpart d = of_nat Q" "hpart d = of_nat D1" "lpart d = of_nat D0" "d = of_nat D"
  proof -
    have "Q = unat (n div hpart d)" by (simp add: Q_def N_def D1_def unat_div)
    then show "n div hpart d = of_nat Q" by simp
  qed (simp_all add: D1_def D0_def D_def)
  have wm: "of_nat Q * of_nat D0 = (of_nat M :: u64)" by (simp add: M_def)
  have wr: "(n - of_nat Q * of_nat D1) * ll_B OR h = of_nat R"
  proof -
    have "n - of_nat Q * of_nat D1 = of_nat (N - Q * D1)"
    proof -
      have "Q * D1 \<le> N" by (simp add: Q_def)
      then have "(of_nat (N - Q * D1) :: u64) = of_nat N - of_nat Q * of_nat D1" by (simp add: of_nat_diff)
      then show ?thesis by (simp add: N_def)
    qed
    moreover have "N - Q * D1 = N mod D1" by (simp add: Q_def minus_div_mult_eq_mod)
    ultimately have "(n - of_nat Q * of_nat D1) * ll_B = of_nat (N mod D1 * 2 ^ 32)" by (simp add: ll_B_def)
    then show ?thesis using or_halves [OF h, of "n - of_nat Q * of_nat D1"] by (simp add: R_def H_def)
  qed
  let ?r1 = "of_nat R :: u64" and ?m = "of_nat M :: u64"
  have res: "(q, r) = (if ?r1 < ?m then
       if ?r1 + d \<ge> d \<and> ?r1 + d < ?m then (of_nat Q - 1 - 1, ?r1 + d + d - ?m) else (of_nat Q - 1, ?r1 + d - ?m)
     else (of_nat Q, ?r1 - ?m))"
    using div unfolding udiv_half_def Let_def wq(1,3) wm wr [unfolded wq(2) [symmetric]] by (auto split: if_splits)
  have cmp: "?r1 < ?m \<longleftrightarrow> R < M" using R(2) M by (simp add: word_less_nat_alt unat_of_nat64')
  have sum: "unat (?r1 + d) = (if R + D < limb_base then R + D else R + D - limb_base)"
    unfolding unat_add_double unat_of_nat64' [OF R(2)] D_def ..
  have c2: "?r1 + d \<ge> d \<and> ?r1 + d < ?m \<longleftrightarrow> R + D < M"
    unfolding word_less_nat_alt word_le_nat_alt sum unat_of_nat64' [OF M] using R(1) M lt(1) by (auto simp: D_def)
  have res: "(q, r) = (if R < M then
       if R + D < M then (of_nat Q - 1 - 1, ?r1 + d + d - ?m) else (of_nat Q - 1, ?r1 + d - ?m)
     else (of_nat Q, ?r1 - ?m))"
    using res unfolding cmp c2 .
  have fin: "q = of_nat (Q - k) \<and> r = of_nat (R + k * D - M) \<and> M \<le> R + k * D \<and> R + k * D - M < D \<and> k \<le> Q"
    if k: "k = (if R < M then if R + D < M then 2 else 1 else 0)" for k
  proof -
    have Q0: "Q \<noteq> 0" if "R < M" using that by (cases "Q = 0") (auto simp: M_def)
    have Q1: "Q \<noteq> 1" if "R + D < M" using that D(2) lt(2) by (auto simp: M_def)
    have le: "k \<le> Q" using k Q0 Q1 by (auto split: if_splits)
    have "M \<le> R + k * D \<and> R + k * D - M < D" using k R(1) lt(2) M by (auto split: if_splits)
    moreover have "q = of_nat (Q - k)" using res le k by (auto simp: of_nat_diff split: if_splits)
    moreover have "r = of_nat (R + k * D - M)"
      using res calculation(1) k by (auto simp: of_nat_diff wq(4) algebra_simps split: if_splits)
    ultimately show ?thesis using le by blast
  qed
  obtain k where k: "q = of_nat (Q - k)" "r = of_nat (R + k * D - M)" "M \<le> R + k * D" "R + k * D - M < D" "k \<le> Q"
    using fin by blast
  have "N * 2 ^ 32 + H = (Q - k) * D + (R + k * D - M)"
  proof -
    have "(Q - k) * D + k * D = Q * D" using k(5) by (simp flip: distrib_right)
    then show ?thesis using T k(3) by linarith
  qed
  note dm = div_mod_int [OF this k(4)]
  have "Q - k < limb_base" using Q by simp
  then show "unat q = (unat n * 2 ^ 32 + unat h) div unat d"
    using dm(1) k(1) unat_of_nat64' by (simp add: N_def H_def D_def)
  have "R + k * D - M < limb_base" using k(4) lt(1) by linarith
  then show "unat r = (unat n * 2 ^ 32 + unat h) mod unat d"
    using dm(2) k(2) unat_of_nat64' by (simp add: N_def H_def D_def)
qed

lemma div_two_steps:
  fixes n h l d b :: nat
  assumes "n < d" "h < b" "l < b" "0 < b"
  shows "(n * b * b + h * b + l) div d = (n * b + h) div d * b + ((n * b + h) mod d * b + l) div d"
    and "(n * b * b + h * b + l) mod d = ((n * b + h) mod d * b + l) mod d"
    and "(n * b + h) div d < b"
proof -
  let ?q = "(n * b + h) div d" and ?r = "(n * b + h) mod d"
  have "n * b * b + h * b = (n * b + h) * b" by (simp only: distrib_right)
  also have "\<dots> = (d * ?q + ?r) * b" by (simp only: mult_div_mod_eq)
  finally have e: "n * b * b + h * b + l = ?r * b + l + d * (?q * b)" by (simp only: distrib_left distrib_right ac_simps)
  have d: "0 < d" using assms(1) by simp
  show "(n * b * b + h * b + l) div d = ?q * b + (?r * b + l) div d" unfolding e using d by (simp add: div_mult_self2)
  show "(n * b * b + h * b + l) mod d = (?r * b + l) mod d" unfolding e by (simp only: mod_mult_self2)
  have "(n + 1) * b \<le> d * b" using assms(1) by (intro mult_le_mono1) simp
  then have "n * b + h < d * b" using assms(2) by simp
  then show "?q < b" by (simp add: less_mult_imp_div_less mult.commute)
qed

text \<open>
  C35: the division of two limbs by one is exact. For a divisor with its highest bit set that is
  larger than the high limb of the dividend, the quotient fits into a limb and the results are
  the quotient and the remainder, although both halves of the quotient are first estimated.
\<close>

theorem udiv_qrnnd_c_exact:
  assumes "2 ^ 63 \<le> unat d" "unat n1 < unat d"
  shows "\<exists>q r. udiv_qrnnd_c n1 n0 d = Inr (q, r) \<and>
    unat q = (limb_base * unat n1 + unat n0) div unat d \<and> unat r = (limb_base * unat n1 + unat n0) mod unat d"
proof -
  have "hpart d \<noteq> 0"
  proof
    assume "hpart d = 0"
    then have "unat d < 2 ^ 32" using parts [of d] lpart_less [of d] by simp
    then show False using assms(1) by simp
  qed
  obtain q1 r1 q0 r0 where 1: "udiv_half n1 (hpart n0) d = (q1, r1)" and 0: "udiv_half r1 (lpart n0) d = (q0, r0)"
    by (metis surj_pair)
  note v1 = udiv_half_value [OF 1 assms hpart_less]
  have "unat r1 < unat d" using v1(2) assms(1) by simp
  note v0 = udiv_half_value [OF 0 assms(1) this lpart_less]
  note two = div_two_steps [OF assms(2) hpart_less [of n0] lpart_less [of n0], simplified]
  have n: "limb_base * unat n1 + unat n0 = unat n1 * 2 ^ 32 * 2 ^ 32 + unat (hpart n0) * 2 ^ 32 + unat (lpart n0)"
    using parts [of n0] by simp
  have q0: "unat q0 < 2 ^ 32" unfolding v0(1)
    by (rule div_two_steps(3) [OF _ lpart_less [of n0] lpart_less [of n0]]) (use \<open>unat r1 < unat d\<close> in simp_all)
  have q1: "unat q1 < 2 ^ 32" unfolding v1(1)
    by (rule div_two_steps(3) [OF assms(2) hpart_less [of n0] lpart_less [of n0]]) simp
  have "unat (q1 * ll_B) = unat q1 * 2 ^ 32"
    using q1 by (simp add: ll_B_def unat_word_ariths)
  moreover have "unat (q1 * ll_B + q0) = unat (q1 * ll_B) + unat q0"
    using q1 q0 calculation by (subst unat_add_no_wrap) simp_all
  ultimately have "unat (q1 * ll_B OR q0) = unat q1 * 2 ^ 32 + unat q0" by (simp only: or_halves [OF q0])
  moreover have "unat q1 * 2 ^ 32 + unat q0 = (limb_base * unat n1 + unat n0) div unat d"
    unfolding n v1(1) v0(1) v1(2) using two(1) by simp
  moreover have "unat r0 = (limb_base * unat n1 + unat n0) mod unat d" unfolding n v0(2) v1(2) using two(2) by simp
  ultimately show ?thesis using 1 0 \<open>hpart d \<noteq> 0\<close> by (simp add: udiv_qrnnd_c_def)
qed

theorem udiv_qrnnd_c_exact_witness:
  "\<exists>q r. udiv_qrnnd_c 5 7 (2 ^ 63) = Inr (q, r) \<and> unat q = 10 \<and> unat r = 7"
  using udiv_qrnnd_c_exact [of "2 ^ 63" 5 7] by simp

end
