(* ===== verification/Mpn.thy ===== *)
theory Mpn
  imports Limbs
begin

section \<open>Natural numbers in memory\<close>

text \<open>
  The basic \<open>mpn\<close> functions of \<open>mini-gmp.c\<close>. They work on numbers that are stored as sequences of
  limbs, the lowest first, in one memory, so that operands and results may overlap: a pointer is an
  address, and a function that writes returns the new memory. A loop that runs from the low to
  the high limbs is the state after \<open>i\<close> turns. The value of the \<open>n\<close> limbs from address \<open>p\<close> is
  \<open>lval m p n\<close>.
\<close>

type_synonym limb_mem = "nat \<Rightarrow> u64"

definition BB :: nat where
  "BB = limb_base"

definition lval :: "limb_mem \<Rightarrow> nat \<Rightarrow> nat \<Rightarrow> nat" where
  "lval m p n = (\<Sum>i<n. unat (m (p + i)) * BB ^ i)"

text \<open>Only the limbs \<open>p, \<dots>, p + n - 1\<close> may have changed.\<close>

definition same_outside :: "nat \<Rightarrow> nat \<Rightarrow> limb_mem \<Rightarrow> limb_mem \<Rightarrow> bool" where
  "same_outside p n m m' \<longleftrightarrow> (\<forall>a. a < p \<or> p + n \<le> a \<longrightarrow> m' a = m a)"

text \<open>The limbs from \<open>ap\<close> may be read while those from \<open>rp\<close> are written, low limbs first, or high limbs first.\<close>

definition fwd :: "nat \<Rightarrow> nat \<Rightarrow> nat \<Rightarrow> bool" where
  "fwd rp ap n \<longleftrightarrow> rp \<le> ap \<or> ap + n \<le> rp"

definition bwd :: "nat \<Rightarrow> nat \<Rightarrow> nat \<Rightarrow> bool" where
  "bwd rp ap n \<longleftrightarrow> ap \<le> rp \<or> rp + n \<le> ap"

subsection \<open>Definitions: copying and comparing\<close>

primrec mpn_copyi :: "nat \<Rightarrow> nat \<Rightarrow> nat \<Rightarrow> limb_mem \<Rightarrow> limb_mem" where
  "mpn_copyi d s 0 m = m"
| "mpn_copyi d s (Suc i) m = (let m = mpn_copyi d s i m in m(d + i := m (s + i)))"

fun mpn_copyd :: "nat \<Rightarrow> nat \<Rightarrow> nat \<Rightarrow> limb_mem \<Rightarrow> limb_mem" where
  "mpn_copyd d s 0 m = m"
| "mpn_copyd d s (Suc n) m = mpn_copyd d s n (m(d + n := m (s + n)))"

fun mpn_cmp :: "limb_mem \<Rightarrow> nat \<Rightarrow> nat \<Rightarrow> nat \<Rightarrow> int" where
  "mpn_cmp m ap bp 0 = 0"
| "mpn_cmp m ap bp (Suc n) =
     (if m (ap + n) \<noteq> m (bp + n) then (if m (ap + n) > m (bp + n) then 1 else -1) else mpn_cmp m ap bp n)"

definition mpn_cmp4 :: "limb_mem \<Rightarrow> nat \<Rightarrow> nat \<Rightarrow> nat \<Rightarrow> nat \<Rightarrow> int" where
  "mpn_cmp4 m ap an bp bn = (if an \<noteq> bn then (if an < bn then -1 else 1) else mpn_cmp m ap bp an)"

fun mpn_normalized_size :: "limb_mem \<Rightarrow> nat \<Rightarrow> nat \<Rightarrow> nat" where
  "mpn_normalized_size m xp 0 = 0"
| "mpn_normalized_size m xp (Suc n) = (if m (xp + n) = 0 then mpn_normalized_size m xp n else Suc n)"

definition mpn_zero_p :: "limb_mem \<Rightarrow> nat \<Rightarrow> nat \<Rightarrow> bool" where
  "mpn_zero_p m rp n \<longleftrightarrow> mpn_normalized_size m rp n = 0"

fun mpn_zero :: "nat \<Rightarrow> nat \<Rightarrow> limb_mem \<Rightarrow> limb_mem" where
  "mpn_zero rp 0 m = m"
| "mpn_zero rp (Suc n) m = mpn_zero rp n (m(rp + n := 0))"

subsection \<open>Definitions: addition and subtraction\<close>

primrec add_1_loop :: "nat \<Rightarrow> nat \<Rightarrow> u64 \<Rightarrow> nat \<Rightarrow> limb_mem \<Rightarrow> u64 \<times> limb_mem" where
  "add_1_loop rp ap b 0 m = (b, m)"
| "add_1_loop rp ap b (Suc i) m =
     (let (b, m) = add_1_loop rp ap b i m; r = m (ap + i) + b; b = of_bool (r < b) in (b, m(rp + i := r)))"

definition mpn_add_1 :: "nat \<Rightarrow> nat \<Rightarrow> nat \<Rightarrow> u64 \<Rightarrow> limb_mem \<Rightarrow> (u64 \<times> limb_mem) res" where
  "mpn_add_1 rp ap n b m = bindE (c_assert (n > 0)) (\<lambda>_. Inr (add_1_loop rp ap b n m))"

primrec mpn_add_n :: "nat \<Rightarrow> nat \<Rightarrow> nat \<Rightarrow> nat \<Rightarrow> limb_mem \<Rightarrow> u64 \<times> limb_mem" where
  "mpn_add_n rp ap bp 0 m = (0, m)"
| "mpn_add_n rp ap bp (Suc i) m =
     (let (cy, m) = mpn_add_n rp ap bp i m; a = m (ap + i); b = m (bp + i);
          r = a + cy; cy = of_bool (r < cy); r = r + b; cy = cy + of_bool (r < b)
      in (cy, m(rp + i := r)))"

definition mpn_add :: "nat \<Rightarrow> nat \<Rightarrow> nat \<Rightarrow> nat \<Rightarrow> nat \<Rightarrow> limb_mem \<Rightarrow> (u64 \<times> limb_mem) res" where
  "mpn_add rp ap an bp bn m =
     bindE (c_assert (an \<ge> bn)) (\<lambda>_.
     let (cy, m) = mpn_add_n rp ap bp bn m in
     if an > bn then mpn_add_1 (rp + bn) (ap + bn) (an - bn) cy m else Inr (cy, m))"

primrec sub_1_loop :: "nat \<Rightarrow> nat \<Rightarrow> u64 \<Rightarrow> nat \<Rightarrow> limb_mem \<Rightarrow> u64 \<times> limb_mem" where
  "sub_1_loop rp ap b 0 m = (b, m)"
| "sub_1_loop rp ap b (Suc i) m =
     (let (b, m) = sub_1_loop rp ap b i m; a = m (ap + i); cy = of_bool (a < b) in (cy, m(rp + i := a - b)))"

definition mpn_sub_1 :: "nat \<Rightarrow> nat \<Rightarrow> nat \<Rightarrow> u64 \<Rightarrow> limb_mem \<Rightarrow> (u64 \<times> limb_mem) res" where
  "mpn_sub_1 rp ap n b m = bindE (c_assert (n > 0)) (\<lambda>_. Inr (sub_1_loop rp ap b n m))"

primrec mpn_sub_n :: "nat \<Rightarrow> nat \<Rightarrow> nat \<Rightarrow> nat \<Rightarrow> limb_mem \<Rightarrow> u64 \<times> limb_mem" where
  "mpn_sub_n rp ap bp 0 m = (0, m)"
| "mpn_sub_n rp ap bp (Suc i) m =
     (let (cy, m) = mpn_sub_n rp ap bp i m; a = m (ap + i); b = m (bp + i);
          b = b + cy; cy = of_bool (b < cy); cy = cy + of_bool (a < b)
      in (cy, m(rp + i := a - b)))"

definition mpn_sub :: "nat \<Rightarrow> nat \<Rightarrow> nat \<Rightarrow> nat \<Rightarrow> nat \<Rightarrow> limb_mem \<Rightarrow> (u64 \<times> limb_mem) res" where
  "mpn_sub rp ap an bp bn m =
     bindE (c_assert (an \<ge> bn)) (\<lambda>_.
     let (cy, m) = mpn_sub_n rp ap bp bn m in
     if an > bn then mpn_sub_1 (rp + bn) (ap + bn) (an - bn) cy m else Inr (cy, m))"

subsection \<open>Definitions: multiplication\<close>

primrec mul_1_loop :: "nat \<Rightarrow> nat \<Rightarrow> u64 \<Rightarrow> nat \<Rightarrow> limb_mem \<Rightarrow> u64 \<times> limb_mem" where
  "mul_1_loop rp up vl 0 m = (0, m)"
| "mul_1_loop rp up vl (Suc i) m =
     (let (cl, m) = mul_1_loop rp up vl i m; ul = m (up + i); (hpl, lpl) = gmp_umul_ppmm ul vl;
          lpl = lpl + cl; cl = of_bool (lpl < cl) + hpl
      in (cl, m(rp + i := lpl)))"

definition mpn_mul_1 :: "nat \<Rightarrow> nat \<Rightarrow> nat \<Rightarrow> u64 \<Rightarrow> limb_mem \<Rightarrow> (u64 \<times> limb_mem) res" where
  "mpn_mul_1 rp up n vl m = bindE (c_assert (n \<ge> 1)) (\<lambda>_. Inr (mul_1_loop rp up vl n m))"

primrec addmul_1_loop :: "nat \<Rightarrow> nat \<Rightarrow> u64 \<Rightarrow> nat \<Rightarrow> limb_mem \<Rightarrow> u64 \<times> limb_mem" where
  "addmul_1_loop rp up vl 0 m = (0, m)"
| "addmul_1_loop rp up vl (Suc i) m =
     (let (cl, m) = addmul_1_loop rp up vl i m; ul = m (up + i); (hpl, lpl) = gmp_umul_ppmm ul vl;
          lpl = lpl + cl; cl = of_bool (lpl < cl) + hpl;
          rl = m (rp + i); lpl = rl + lpl; cl = cl + of_bool (lpl < rl)
      in (cl, m(rp + i := lpl)))"

definition mpn_addmul_1 :: "nat \<Rightarrow> nat \<Rightarrow> nat \<Rightarrow> u64 \<Rightarrow> limb_mem \<Rightarrow> (u64 \<times> limb_mem) res" where
  "mpn_addmul_1 rp up n vl m = bindE (c_assert (n \<ge> 1)) (\<lambda>_. Inr (addmul_1_loop rp up vl n m))"

primrec submul_1_loop :: "nat \<Rightarrow> nat \<Rightarrow> u64 \<Rightarrow> nat \<Rightarrow> limb_mem \<Rightarrow> u64 \<times> limb_mem" where
  "submul_1_loop rp up vl 0 m = (0, m)"
| "submul_1_loop rp up vl (Suc i) m =
     (let (cl, m) = submul_1_loop rp up vl i m; ul = m (up + i); (hpl, lpl) = gmp_umul_ppmm ul vl;
          lpl = lpl + cl; cl = of_bool (lpl < cl) + hpl;
          rl = m (rp + i); lpl = rl - lpl; cl = cl + of_bool (lpl > rl)
      in (cl, m(rp + i := lpl)))"

definition mpn_submul_1 :: "nat \<Rightarrow> nat \<Rightarrow> nat \<Rightarrow> u64 \<Rightarrow> limb_mem \<Rightarrow> (u64 \<times> limb_mem) res" where
  "mpn_submul_1 rp up n vl m = bindE (c_assert (n \<ge> 1)) (\<lambda>_. Inr (submul_1_loop rp up vl n m))"

text \<open>The rows of the schoolbook multiplication, after the first \<open>i + 1\<close> of them.\<close>

primrec mul_rows :: "nat \<Rightarrow> nat \<Rightarrow> nat \<Rightarrow> nat \<Rightarrow> nat \<Rightarrow> limb_mem \<Rightarrow> limb_mem res" where
  "mul_rows rp up un vp 0 m =
     bindE (mpn_mul_1 rp up un (m vp) m) (\<lambda>(cl, m). Inr (m(rp + un := cl)))"
| "mul_rows rp up un vp (Suc i) m =
     bindE (mul_rows rp up un vp i m) (\<lambda>m.
     bindE (mpn_addmul_1 (rp + Suc i) up un (m (vp + Suc i)) m) (\<lambda>(cl, m). Inr (m(rp + Suc i + un := cl))))"

definition mpn_mul :: "nat \<Rightarrow> nat \<Rightarrow> nat \<Rightarrow> nat \<Rightarrow> nat \<Rightarrow> limb_mem \<Rightarrow> (u64 \<times> limb_mem) res" where
  "mpn_mul rp up un vp vn m =
     bindE (c_assert (un \<ge> vn)) (\<lambda>_.
     bindE (c_assert (vn \<ge> 1)) (\<lambda>_.
     bindE (mul_rows rp up un vp (vn - 1) m) (\<lambda>m. Inr (m (rp + (vn - 1) + un), m))))"

definition mpn_mul_n :: "nat \<Rightarrow> nat \<Rightarrow> nat \<Rightarrow> nat \<Rightarrow> limb_mem \<Rightarrow> limb_mem res" where
  "mpn_mul_n rp ap bp n m = bindE (mpn_mul rp ap n bp n m) (\<lambda>(_, m). Inr m)"

definition mpn_sqr :: "nat \<Rightarrow> nat \<Rightarrow> nat \<Rightarrow> limb_mem \<Rightarrow> limb_mem res" where
  "mpn_sqr rp ap n m = bindE (mpn_mul rp ap n ap n m) (\<lambda>(_, m). Inr m)"

subsection \<open>Definitions: shifts, complement and negation\<close>

fun lshift_loop :: "nat \<Rightarrow> nat \<Rightarrow> nat \<Rightarrow> nat \<Rightarrow> u64 \<Rightarrow> limb_mem \<Rightarrow> limb_mem" where
  "lshift_loop rp up cnt 0 high_limb m = m(rp := high_limb)"
| "lshift_loop rp up cnt (Suc n) high_limb m =
     (let low_limb = m (up + n)
      in lshift_loop rp up cnt n (push_bit cnt low_limb)
           (m(rp + Suc n := high_limb OR drop_bit (64 - cnt) low_limb)))"

definition mpn_lshift :: "nat \<Rightarrow> nat \<Rightarrow> nat \<Rightarrow> nat \<Rightarrow> limb_mem \<Rightarrow> (u64 \<times> limb_mem) res" where
  "mpn_lshift rp up n cnt m =
     bindE (c_assert (n \<ge> 1)) (\<lambda>_.
     bindE (c_assert (cnt \<ge> 1)) (\<lambda>_.
     bindE (c_assert (cnt < 64)) (\<lambda>_.
     let low_limb = m (up + (n - 1)); retval = drop_bit (64 - cnt) low_limb
     in Inr (retval, lshift_loop rp up cnt (n - 1) (push_bit cnt low_limb) m))))"

primrec rshift_loop :: "nat \<Rightarrow> nat \<Rightarrow> nat \<Rightarrow> nat \<Rightarrow> limb_mem \<Rightarrow> u64 \<times> limb_mem" where
  "rshift_loop rp up cnt 0 m = (drop_bit cnt (m up), m)"
| "rshift_loop rp up cnt (Suc i) m =
     (let (low_limb, m) = rshift_loop rp up cnt i m; high_limb = m (up + Suc i)
      in (drop_bit cnt high_limb, m(rp + i := low_limb OR push_bit (64 - cnt) high_limb)))"

definition mpn_rshift :: "nat \<Rightarrow> nat \<Rightarrow> nat \<Rightarrow> nat \<Rightarrow> limb_mem \<Rightarrow> (u64 \<times> limb_mem) res" where
  "mpn_rshift rp up n cnt m =
     bindE (c_assert (n \<ge> 1)) (\<lambda>_.
     bindE (c_assert (cnt \<ge> 1)) (\<lambda>_.
     bindE (c_assert (cnt < 64)) (\<lambda>_.
     let retval = push_bit (64 - cnt) (m up); (low_limb, m) = rshift_loop rp up cnt (n - 1) m
     in Inr (retval, m(rp + (n - 1) := low_limb)))))"

primrec mpn_com :: "nat \<Rightarrow> nat \<Rightarrow> nat \<Rightarrow> limb_mem \<Rightarrow> limb_mem" where
  "mpn_com rp up 0 m = m"
| "mpn_com rp up (Suc i) m = (let m = mpn_com rp up i m in m(rp + i := NOT (m (up + i))))"

text \<open>For a number of no limbs the loop of \<open>mpn_neg\<close> would run out of it.\<close>

fun mpn_neg :: "nat \<Rightarrow> nat \<Rightarrow> nat \<Rightarrow> limb_mem \<Rightarrow> (u64 \<times> limb_mem) res" where
  "mpn_neg rp up 0 m = crash Out_Of_Bounds"
| "mpn_neg rp up (Suc n) m =
     (if m up = 0 then
        let m = m(rp := 0) in if n = 0 then Inr (0, m) else mpn_neg (rp + 1) (up + 1) n m
      else
        let m = m(rp := - m up) in Inr (1, mpn_com (rp + 1) (up + 1) n m))"

subsection \<open>Values\<close>

lemma BB_pos [simp]: "0 < BB"
  by (simp add: BB_def)

lemma unat_less_BB [simp]: "unat (x :: u64) < BB"
  using unat64_less [of x] by (simp add: BB_def)

lemma lval_0 [simp]: "lval m p 0 = 0"
  by (simp add: lval_def)

lemma lval_Suc [simp]: "lval m p (Suc n) = lval m p n + unat (m (p + n)) * BB ^ n"
  by (simp add: lval_def)

lemma lval_cong: "(\<And>i. i < n \<Longrightarrow> m (p + i) = m' (p' + i)) \<Longrightarrow> lval m p n = lval m' p' n"
  by (simp add: lval_def)

lemma lval_less: "lval m p n < BB ^ n"
proof (induction n)
  case (Suc n)
  have "lval m p (Suc n) < (unat (m (p + n)) + 1) * BB ^ n" using Suc by simp
  also have "\<dots> \<le> BB * BB ^ n" by (intro mult_le_mono1) (simp add: Suc_le_eq)
  finally show ?case by simp
qed simp

lemma lval_split: "lval m p (n + k) = lval m p n + BB ^ n * lval m (p + n) k"
  by (induction k) (simp_all add: algebra_simps power_add)

lemma lval_outside: "same_outside rp n m m' \<Longrightarrow> p + k \<le> rp \<or> rp + n \<le> p \<Longrightarrow> lval m' p k = lval m p k"
  by (rule lval_cong) (auto simp: same_outside_def)

lemma lval_upd [simp]: "a < p \<or> p + n \<le> a \<Longrightarrow> lval (m(a := v)) p n = lval m p n"
  by (rule lval_cong) auto

lemma same_outside_refl [simp]: "same_outside p n m m"
  by (simp add: same_outside_def)

lemma same_outside_Suc:
  "same_outside p n m m' \<Longrightarrow> same_outside p (Suc n) m (m'(p + n := v))"
  by (simp add: same_outside_def)

lemma same_outside_fwd: "same_outside rp i m m' \<Longrightarrow> fwd rp ap n \<Longrightarrow> i < n \<Longrightarrow> m' (ap + i) = m (ap + i)"
  by (auto simp: same_outside_def fwd_def)

lemma same_outside_trans:
  "same_outside p n m m' \<Longrightarrow> same_outside q k m' m'' \<Longrightarrow> p \<le> q \<Longrightarrow> q \<le> p + n \<Longrightarrow> same_outside p (max n (q + k - p)) m m''"
  by (auto simp: same_outside_def)

text \<open>One more limb: from the value of the limbs below and the equation for this limb.\<close>

lemma limb_step:
  assumes "lval m' rp i + cy * BB ^ i = x" "r + cy' * BB = y + cy"
  shows "lval m' rp i + r * BB ^ i + cy' * BB ^ Suc i = x + y * BB ^ i"
proof -
  have "lval m' rp i + r * BB ^ i + cy' * BB ^ Suc i = lval m' rp i + (r + cy' * BB) * BB ^ i" by (simp add: algebra_simps)
  also have "\<dots> = x + y * BB ^ i" unfolding assms(2) assms(1) [symmetric] by (simp add: algebra_simps)
  finally show ?thesis .
qed

lemma unat_of_bool: "unat (of_bool p :: u64) = of_bool p"
  by simp

lemma unat_of_bool_add: "unat (of_bool p + of_bool q :: u64) = of_bool p + of_bool q"
  by simp

lemma carryB: "unat (a + b :: u64) + of_bool (a + b < b) * BB = unat a + unat b"
  "unat (a + b :: u64) + of_bool (a + b < a) * BB = unat a + unat b"
  "unat (a - b :: u64) + unat b = unat a + of_bool (a < b) * BB"
  using add_carry [of a b] add_carry' [of a b] sub_borrow [of a b] by (simp_all add: BB_def)

subsection \<open>Copying and comparing\<close>

lemma mpn_copyi_ok:
  "fwd d s n \<Longrightarrow> i \<le> n \<Longrightarrow> same_outside d i m (mpn_copyi d s i m) \<and> (\<forall>j<i. mpn_copyi d s i m (d + j) = m (s + j))"
proof (induction i)
  case (Suc i)
  then have IH: "same_outside d i m (mpn_copyi d s i m)" "\<forall>j<i. mpn_copyi d s i m (d + j) = m (s + j)" by auto
  have "mpn_copyi d s i m (s + i) = m (s + i)" using same_outside_fwd [OF IH(1) Suc.prems(1)] Suc.prems(2) by simp
  then have e: "mpn_copyi d s (Suc i) m = (mpn_copyi d s i m)(d + i := m (s + i))" by (simp add: Let_def)
  show ?case unfolding e
    by (intro conjI allI impI same_outside_Suc [OF IH(1)]) (use IH(2) in \<open>auto simp: less_Suc_eq\<close>)
qed simp

lemma mpn_copyd_ok:
  "bwd d s n \<Longrightarrow> same_outside d n m (mpn_copyd d s n m) \<and> (\<forall>j<n. mpn_copyd d s n m (d + j) = m (s + j))"
proof (induction n arbitrary: m)
  case (Suc n)
  let ?m = "m(d + n := m (s + n))"
  have "bwd d s n" using Suc.prems by (auto simp: bwd_def)
  then have IH: "same_outside d n ?m (mpn_copyd d s n ?m)" "\<forall>j<n. mpn_copyd d s n ?m (d + j) = ?m (s + j)"
    using Suc.IH [of ?m] by blast+
  have "?m (s + j) = m (s + j)" if "j < n" for j using that Suc.prems by (auto simp: bwd_def)
  then have "mpn_copyd d s n ?m (d + j) = m (s + j)" if "j < n" for j using IH(2) that by metis
  moreover have "mpn_copyd d s n ?m (d + n) = m (s + n)" using IH(1) unfolding same_outside_def by simp
  moreover have "same_outside d (Suc n) m (mpn_copyd d s n ?m)" using IH(1) unfolding same_outside_def by simp
  ultimately show ?case unfolding mpn_copyd.simps less_Suc_eq by blast
qed simp

lemma mpn_cmp_value:
  "mpn_cmp m ap bp n = (if lval m ap n < lval m bp n then -1 else if lval m bp n < lval m ap n then 1 else 0)"
proof (induction n)
  case (Suc n)
  have less: "lval m p (Suc n) < lval m q (Suc n)" if "m (p + n) < m (q + n)" for p q
  proof -
    have "(unat (m (p + n)) + 1) * BB ^ n \<le> unat (m (q + n)) * BB ^ n"
      using that by (intro mult_le_mono1) (simp add: word_less_nat_alt)
    then show ?thesis using lval_less [of m p n] by simp
  qed
  show ?case
    using Suc less [of ap bp] less [of bp ap]
    by (cases "m (ap + n) = m (bp + n)"; cases "m (ap + n) > m (bp + n)") (auto simp: not_less order_le_less)
qed simp

lemma mpn_normalized_size_value:
  "mpn_normalized_size m xp n \<le> n \<and> lval m xp (mpn_normalized_size m xp n) = lval m xp n \<and>
   (mpn_normalized_size m xp n = 0 \<or> m (xp + (mpn_normalized_size m xp n - 1)) \<noteq> 0)"
  by (induction n) auto

lemma mpn_zero_ok: "same_outside rp n m (mpn_zero rp n m) \<and> (\<forall>j<n. mpn_zero rp n m (rp + j) = 0)"
proof (induction n arbitrary: m)
  case (Suc n)
  let ?m = "m(rp + n := 0)"
  have IH: "same_outside rp n ?m (mpn_zero rp n ?m)" "\<forall>j<n. mpn_zero rp n ?m (rp + j) = 0" using Suc.IH [of ?m] by blast+
  have "mpn_zero rp n ?m (rp + n) = 0" using IH(1) unfolding same_outside_def by simp
  moreover have "same_outside rp (Suc n) m (mpn_zero rp n ?m)" using IH(1) unfolding same_outside_def by simp
  ultimately show ?case using IH(2) unfolding mpn_zero.simps less_Suc_eq by blast
qed simp

subsection \<open>Addition and subtraction\<close>

text \<open>
  Every loop from the low to the high limbs keeps an equation between values, leaves the memory
  outside of the result alone, and reads limbs of its operands that it has not yet written.
\<close>

lemma loop_update:
  assumes "same_outside rp i m m'"
  shows "same_outside rp (Suc i) m (m'(rp + i := r))" "lval (m'(rp + i := r)) rp (Suc i) = lval m' rp i + unat r * BB ^ i"
  using same_outside_Suc [OF assms] by simp_all

lemma add_1_loop_ok:
  assumes "fwd rp ap n" "i \<le> n" "add_1_loop rp ap b i m = (cy, m')"
  shows "same_outside rp i m m' \<and> lval m' rp i + unat cy * BB ^ i = lval m ap i + unat b \<and> (0 < i \<longrightarrow> unat cy \<le> 1)"
  using assms(2,3)
proof (induction i arbitrary: cy m')
  case (Suc i)
  obtain c0 m0 where 0: "add_1_loop rp ap b i m = (c0, m0)" by fastforce
  then have IH: "same_outside rp i m m0" "lval m0 rp i + unat c0 * BB ^ i = lval m ap i + unat b" using Suc by auto
  have a: "m0 (ap + i) = m (ap + i)" using same_outside_fwd [OF IH(1) assms(1)] Suc.prems by simp
  let ?r = "m (ap + i) + c0"
  have res: "cy = of_bool (?r < c0)" "m' = m0(rp + i := ?r)" using Suc.prems(2) 0 a by (auto simp: Let_def)
  have "unat ?r + unat cy * BB = unat (m (ap + i)) + unat c0" unfolding res unat_of_bool by (rule carryB)
  from limb_step [OF IH(2) this]
  have "lval m' rp (Suc i) + unat cy * BB ^ Suc i = lval m ap (Suc i) + unat b"
    unfolding res(2) loop_update(2) [OF IH(1)] lval_Suc [of m] by linarith
  moreover have "unat cy \<le> 1" by (simp add: res(1))
  moreover have "same_outside rp (Suc i) m m'" unfolding res(2) by (rule loop_update(1) [OF IH(1)])
  ultimately show ?case by blast
qed simp

lemma mpn_add_n_ok:
  assumes "fwd rp ap n" "fwd rp bp n" "i \<le> n" "mpn_add_n rp ap bp i m = (cy, m')"
  shows "same_outside rp i m m' \<and> lval m' rp i + unat cy * BB ^ i = lval m ap i + lval m bp i \<and> unat cy \<le> 1"
  using assms(3,4)
proof (induction i arbitrary: cy m')
  case (Suc i)
  obtain c0 m0 where 0: "mpn_add_n rp ap bp i m = (c0, m0)" by fastforce
  then have IH: "same_outside rp i m m0" "lval m0 rp i + unat c0 * BB ^ i = lval m ap i + lval m bp i" "unat c0 \<le> 1"
    using Suc by auto
  have ab: "m0 (ap + i) = m (ap + i)" "m0 (bp + i) = m (bp + i)"
    using same_outside_fwd [OF IH(1) assms(1)] same_outside_fwd [OF IH(1) assms(2)] Suc.prems by simp_all
  let ?a = "m (ap + i)" and ?b = "m (bp + i)"
  let ?r = "?a + c0 + ?b"
  have res: "cy = of_bool (?a + c0 < c0) + of_bool (?r < ?b)" "m' = m0(rp + i := ?r)"
    using Suc.prems(2) 0 ab by (auto simp: Let_def)
  have c: "unat cy = of_bool (?a + c0 < c0) + of_bool (?r < ?b)" unfolding res(1) by (rule unat_of_bool_add)
  have e: "unat ?r + unat cy * BB = unat ?a + unat ?b + unat c0"
    using carryB(1) [of ?a c0] carryB(1) [of "?a + c0" ?b] unfolding c distrib_right by linarith
  have "unat cy \<le> 1"
  proof (rule ccontr)
    assume "\<not> unat cy \<le> 1"
    then have "2 * BB \<le> unat cy * BB" by (intro mult_le_mono1) simp
    then show False using e IH(3) unat_less_BB [of ?a] unat_less_BB [of ?b] by linarith
  qed
  moreover have "lval m' rp (Suc i) + unat cy * BB ^ Suc i = lval m ap (Suc i) + lval m bp (Suc i)"
    using limb_step [OF IH(2) e] unfolding res(2) loop_update(2) [OF IH(1)] lval_Suc [of m] distrib_right by linarith
  moreover have "same_outside rp (Suc i) m m'" unfolding res(2) by (rule loop_update(1) [OF IH(1)])
  ultimately show ?case by blast
qed simp

lemma sub_1_loop_ok:
  assumes "fwd rp ap n" "i \<le> n" "sub_1_loop rp ap b i m = (cy, m')"
  shows "same_outside rp i m m' \<and> lval m' rp i + unat b = lval m ap i + unat cy * BB ^ i \<and> (0 < i \<longrightarrow> unat cy \<le> 1)"
  using assms(2,3)
proof (induction i arbitrary: cy m')
  case (Suc i)
  obtain c0 m0 where 0: "sub_1_loop rp ap b i m = (c0, m0)" by fastforce
  then have IH: "same_outside rp i m m0" "lval m0 rp i + unat b = lval m ap i + unat c0 * BB ^ i" using Suc by auto
  have a: "m0 (ap + i) = m (ap + i)" using same_outside_fwd [OF IH(1) assms(1)] Suc.prems by simp
  let ?a = "m (ap + i)"
  have res: "cy = of_bool (?a < c0)" "m' = m0(rp + i := ?a - c0)" using Suc.prems(2) 0 a by (auto simp: Let_def)
  have "unat (?a - c0) + unat c0 = unat ?a + unat cy * BB" unfolding res unat_of_bool by (rule carryB)
  then have "(unat (?a - c0) + unat c0) * BB ^ i = (unat ?a + unat cy * BB) * BB ^ i" by simp
  then have "lval m0 rp i + unat (?a - c0) * BB ^ i + unat b = lval m ap (Suc i) + unat cy * BB ^ Suc i"
    using IH(2) by (simp add: algebra_simps)
  moreover have "unat cy \<le> 1" by (simp add: res(1))
  moreover have "same_outside rp (Suc i) m m'" unfolding res(2) by (rule loop_update(1) [OF IH(1)])
  ultimately show ?case unfolding res(2) loop_update(2) [OF IH(1)] by blast
qed simp

lemma mpn_sub_n_ok:
  assumes "fwd rp ap n" "fwd rp bp n" "i \<le> n" "mpn_sub_n rp ap bp i m = (cy, m')"
  shows "same_outside rp i m m' \<and> lval m' rp i + lval m bp i = lval m ap i + unat cy * BB ^ i \<and> unat cy \<le> 1"
  using assms(3,4)
proof (induction i arbitrary: cy m')
  case (Suc i)
  obtain c0 m0 where 0: "mpn_sub_n rp ap bp i m = (c0, m0)" by fastforce
  then have IH: "same_outside rp i m m0" "lval m0 rp i + lval m bp i = lval m ap i + unat c0 * BB ^ i" "unat c0 \<le> 1"
    using Suc by auto
  have ab: "m0 (ap + i) = m (ap + i)" "m0 (bp + i) = m (bp + i)"
    using same_outside_fwd [OF IH(1) assms(1)] same_outside_fwd [OF IH(1) assms(2)] Suc.prems by simp_all
  let ?a = "m (ap + i)" and ?b = "m (bp + i) + c0"
  have res: "cy = of_bool (?b < c0) + of_bool (?a < ?b)" "m' = m0(rp + i := ?a - ?b)"
    using Suc.prems(2) 0 ab by (auto simp: Let_def)
  have c: "unat cy = of_bool (?b < c0) + of_bool (?a < ?b)" unfolding res(1) by (rule unat_of_bool_add)
  have e: "unat (?a - ?b) + unat (m (bp + i)) + unat c0 = unat ?a + unat cy * BB"
    using carryB(1) [of "m (bp + i)" c0] carryB(3) [of ?a ?b] unfolding c distrib_right by linarith
  then have "(unat (?a - ?b) + unat (m (bp + i)) + unat c0) * BB ^ i = (unat ?a + unat cy * BB) * BB ^ i" by simp
  then have v: "lval m0 rp i + unat (?a - ?b) * BB ^ i + lval m bp (Suc i) = lval m ap (Suc i) + unat cy * BB ^ Suc i"
    using IH(2) by (simp add: algebra_simps)
  have "unat cy \<le> 1"
  proof (rule ccontr)
    assume "\<not> unat cy \<le> 1"
    then have "2 * BB \<le> unat cy * BB" by (intro mult_le_mono1) simp
    then show False using e IH(3) unat_less_BB [of "?a - ?b"] unat_less_BB [of "m (bp + i)"] by linarith
  qed
  moreover have "same_outside rp (Suc i) m m'" unfolding res(2) by (rule loop_update(1) [OF IH(1)])
  ultimately show ?case using v unfolding res(2) loop_update(2) [OF IH(1)] by blast
qed simp

text \<open>A low part of \<open>n\<close> limbs and a high part of \<open>k\<close> limbs, written one after the other.\<close>

lemma two_parts:
  assumes "same_outside rp n m m1" "same_outside (rp + n) k m1 m2"
  shows "same_outside rp (n + k) m m2" "lval m2 rp (n + k) = lval m1 rp n + BB ^ n * lval m2 (rp + n) k"
proof -
  show "same_outside rp (n + k) m m2" using assms by (auto simp: same_outside_def)
  have "lval m2 rp n = lval m1 rp n" by (rule lval_outside [OF assms(2)]) simp
  then show "lval m2 rp (n + k) = lval m1 rp n + BB ^ n * lval m2 (rp + n) k" by (simp add: lval_split)
qed

lemma fwd_parts:
  assumes "fwd rp ap (n + k)"
  shows "fwd rp ap n" "fwd (rp + n) (ap + n) k" "same_outside rp n m m1 \<Longrightarrow> lval m1 (ap + n) k = lval m (ap + n) k"
proof -
  show "fwd rp ap n" "fwd (rp + n) (ap + n) k" using assms by (auto simp: fwd_def)
  show "lval m1 (ap + n) k = lval m (ap + n) k" if "same_outside rp n m m1"
    by (rule lval_outside [OF that]) (use assms in \<open>auto simp: fwd_def\<close>)
qed

lemma mpn_add_ok:
  assumes "bn \<le> an" "fwd rp ap an" "fwd rp bp bn"
  shows "\<exists>cy m'. mpn_add rp ap an bp bn m = Inr (cy, m') \<and> same_outside rp an m m' \<and> unat cy \<le> 1 \<and>
    lval m' rp an + unat cy * BB ^ an = lval m ap an + lval m bp bn"
proof -
  obtain k where an: "an = bn + k" using assms(1) le_Suc_ex by blast
  note f = fwd_parts [OF assms(2) [unfolded an]]
  obtain c1 m1 where 1: "mpn_add_n rp ap bp bn m = (c1, m1)" by fastforce
  note n = mpn_add_n_ok [OF f(1) assms(3) order_refl 1]
  show ?thesis
  proof (cases "k = 0")
    case True
    then show ?thesis using n 1 an by (simp add: mpn_add_def)
  next
    case False
    obtain c2 m2 where 2: "add_1_loop (rp + bn) (ap + bn) c1 k m1 = (c2, m2)" by fastforce
    note h = add_1_loop_ok [OF f(2) order_refl 2]
    have tp: "same_outside rp an m m2" "lval m2 rp an = lval m1 rp bn + BB ^ bn * lval m2 (rp + bn) k"
      unfolding an using n h by (auto intro: two_parts)
    have "BB ^ bn * (lval m2 (rp + bn) k + unat c2 * BB ^ k) = BB ^ bn * (lval m (ap + bn) k + unat c1)"
      using h f(3) [of m m1] n by simp
    then have "lval m2 rp an + unat c2 * BB ^ an = lval m ap an + lval m bp bn"
      using tp(2) n unfolding an by (simp add: lval_split algebra_simps power_add)
    then show ?thesis using 1 2 False an tp(1) h by (simp add: mpn_add_def mpn_add_1_def)
  qed
qed

text \<open>
  \<open>mpn_add\<close> adds. Also when the result overwrites the first operand or lies below it in the
  same area, the limbs of the result with the returned carry are the sum of the operands, and
  nothing else in memory changes.
\<close>

theorem mpn_add_value:
  assumes "bn \<le> an" "fwd rp ap an" "fwd rp bp bn"
  shows "\<exists>cy m'. mpn_add rp ap an bp bn m = Inr (cy, m') \<and> same_outside rp an m m' \<and> unat cy \<le> 1 \<and>
    lval m' rp an + unat cy * BB ^ an = lval m ap an + lval m bp bn"
  using assms by (rule mpn_add_ok)

lemma mpn_sub_ok:
  assumes "bn \<le> an" "fwd rp ap an" "fwd rp bp bn"
  shows "\<exists>cy m'. mpn_sub rp ap an bp bn m = Inr (cy, m') \<and> same_outside rp an m m' \<and>
    lval m' rp an + lval m bp bn = lval m ap an + unat cy * BB ^ an \<and>
    unat cy = of_bool (lval m ap an < lval m bp bn)"
proof -
  obtain k where an: "an = bn + k" using assms(1) le_Suc_ex by blast
  note f = fwd_parts [OF assms(2) [unfolded an]]
  obtain c1 m1 where 1: "mpn_sub_n rp ap bp bn m = (c1, m1)" by fastforce
  note n = mpn_sub_n_ok [OF f(1) assms(3) order_refl 1]
  have "\<exists>cy m'. mpn_sub rp ap an bp bn m = Inr (cy, m') \<and> same_outside rp an m m' \<and> unat cy \<le> 1 \<and>
    lval m' rp an + lval m bp bn = lval m ap an + unat cy * BB ^ an"
  proof (cases "k = 0")
    case True
    then show ?thesis using n 1 an by (simp add: mpn_sub_def)
  next
    case False
    obtain c2 m2 where 2: "sub_1_loop (rp + bn) (ap + bn) c1 k m1 = (c2, m2)" by fastforce
    note h = sub_1_loop_ok [OF f(2) order_refl 2]
    have tp: "same_outside rp an m m2" "lval m2 rp an = lval m1 rp bn + BB ^ bn * lval m2 (rp + bn) k"
      unfolding an using n h by (auto intro: two_parts)
    have "BB ^ bn * (lval m2 (rp + bn) k + unat c1) = BB ^ bn * (lval m (ap + bn) k + unat c2 * BB ^ k)"
      using h f(3) [of m m1] n by simp
    then have "lval m2 rp an + lval m bp bn = lval m ap an + unat c2 * BB ^ an"
      using tp(2) n unfolding an by (simp add: lval_split algebra_simps power_add)
    then show ?thesis using 1 2 False an tp(1) h by (simp add: mpn_sub_def mpn_sub_1_def)
  qed
  then obtain cy m' where r: "mpn_sub rp ap an bp bn m = Inr (cy, m')" "same_outside rp an m m'" "unat cy \<le> 1"
    "lval m' rp an + lval m bp bn = lval m ap an + unat cy * BB ^ an" by blast
  have "unat cy = of_bool (lval m ap an < lval m bp bn)"
    using r(3,4) lval_less [of m' rp an] by (cases "unat cy = 0") (auto simp: le_Suc_eq)
  then show ?thesis using r by blast
qed

text \<open>
  \<open>mpn_sub\<close> subtracts. The result is the difference, and the returned borrow is 1 exactly when the
  second operand is larger; then the result is the difference modulo \<open>BB ^ an\<close>.
\<close>

theorem mpn_sub_value:
  assumes "bn \<le> an" "fwd rp ap an" "fwd rp bp bn"
  shows "\<exists>cy m'. mpn_sub rp ap an bp bn m = Inr (cy, m') \<and> same_outside rp an m m' \<and>
    lval m' rp an + lval m bp bn = lval m ap an + unat cy * BB ^ an \<and>
    unat cy = of_bool (lval m ap an < lval m bp bn)"
  using assms by (rule mpn_sub_ok)

definition sample_mem :: limb_mem where
  "sample_mem = (\<lambda>a. if a < 3 then - 1 else if a = 5 then 1 else 0)"

lemma sample_mem_values: "lval sample_mem 0 3 = BB ^ 3 - 1" "lval sample_mem 5 1 = 1"
proof -
  have "lval (\<lambda>_. - 1) p n + 1 = BB ^ n" for p n
  proof (induction n)
    case (Suc n)
    have "unat (- 1 :: u64) + 1 = BB" using carryB(3) [of 0 1] by simp
    then have "(unat (- 1 :: u64) + 1) * BB ^ n = BB * BB ^ n" by (simp only:)
    then show ?case using Suc by simp
  qed simp
  moreover have "lval sample_mem 0 3 = lval (\<lambda>_. - 1) 0 3" by (rule lval_cong) (simp add: sample_mem_def)
  ultimately show "lval sample_mem 0 3 = BB ^ 3 - 1" by (metis add_diff_cancel_right')
  show "lval sample_mem 5 1 = 1" by (simp add: lval_def sample_mem_def)
qed

theorem mpn_add_value_witness:
  "\<exists>cy m'. mpn_add 0 0 3 5 1 sample_mem = Inr (cy, m') \<and> lval m' 0 3 + unat cy * BB ^ 3 = BB ^ 3"
proof -
  have "BB ^ 3 - 1 + 1 = BB ^ 3" by simp
  moreover have "fwd 0 0 3" "fwd 0 5 1" by (simp_all add: fwd_def)
  ultimately show ?thesis using mpn_add_value [of 1 3 0 0 5 sample_mem] unfolding sample_mem_values by auto
qed

theorem mpn_sub_value_witness:
  "\<exists>cy m'. mpn_sub 0 0 3 5 1 sample_mem = Inr (cy, m') \<and> unat cy = 0 \<and> lval m' 0 3 + 1 = BB ^ 3 - 1"
proof -
  have "\<not> BB ^ 3 - 1 < 1" by (simp add: BB_def)
  moreover have "fwd 0 0 3" "fwd 0 5 1" by (simp_all add: fwd_def)
  ultimately show ?thesis using mpn_sub_value [of 1 3 0 0 5 sample_mem] unfolding sample_mem_values by auto
qed

end
