(* ===== verification/Mpn_Mul.thy ===== *)
theory Mpn_Mul
  imports Mpn
begin

section \<open>Products, shifts and complements of numbers in memory\<close>

text \<open>
  Proofs about the remaining operations of \<open>Mpn\<close>: a product by one limb, added to or subtracted
  from a number, the schoolbook product of two numbers, shifts by less than a limb, the
  complement and the negation.
\<close>

subsection \<open>One limb of a product\<close>

text \<open>The high limb takes one more carry, because the whole result is less than \<open>BB * BB\<close>.\<close>

lemma high_carry:
  assumes "l + (of_bool p + unat (h :: u64)) * BB = t" "t < BB * BB"
  shows "l + unat (of_bool p + h) * BB = t" "l + unat (h + of_bool p) * BB = t"
proof -
  have "(of_bool p + unat h) * BB < BB * BB" using assms by linarith
  then have "of_bool p + unat h < BB" by (simp only: mult_less_cancel2)
  then have "unat (of_bool p + h) = of_bool p + unat h" by (subst unat_add_no_wrap) (auto simp: BB_def)
  then show "l + unat (of_bool p + h) * BB = t" "l + unat (h + of_bool p) * BB = t"
    using assms(1) by (simp_all add: add.commute)
qed

lemma product_bound: "a < BB \<Longrightarrow> b < BB \<Longrightarrow> c < BB \<Longrightarrow> d < BB \<Longrightarrow> a * b + c + d < BB * BB"
proof -
  assume "a < BB" "b < BB" and cd: "c < BB" "d < BB"
  then obtain k where k: "BB = Suc k" "a \<le> k" "b \<le> k" by (cases BB) auto
  have "a * b \<le> k * k" using k by (intro mult_mono) auto
  moreover have "Suc k * Suc k = k * k + k + k + 1" by simp
  ultimately show ?thesis using cd k(1) by (metis add_le_mono le_imp_less_Suc less_Suc_eq_le Suc_eq_plus1)
qed

lemma mul_limb:
  assumes "gmp_umul_ppmm u v = (h, l)"
  shows "unat (l + c) + unat (of_bool (l + c < c) + h) * BB = unat u * unat v + unat c"
proof (rule high_carry(1))
  show "unat (l + c) + (of_bool (l + c < c) + unat h) * BB = unat u * unat v + unat c"
    using carryB(1) [of l c] umul_ppmm_value [of u v h l] assms by (simp add: gmp_umul_ppmm_eq BB_def)
  show "unat u * unat v + unat c < BB * BB"
    using product_bound [of "unat u" "unat v" "unat c" 0] by simp
qed

lemma addmul_limb:
  assumes "gmp_umul_ppmm u v = (h, l)" "x = l + c" "y = of_bool (x < c) + h"
  shows "unat (r + x) + unat (y + of_bool (r + x < r)) * BB = unat r + unat u * unat v + unat c"
proof (rule high_carry(2))
  show "unat (r + x) + (of_bool (r + x < r) + unat y) * BB = unat r + unat u * unat v + unat c"
    using mul_limb [OF assms(1), of c] carryB(2) [of r x] unfolding assms(3) assms(2) distrib_right by linarith
  show "unat r + unat u * unat v + unat c < BB * BB"
    using product_bound [of "unat u" "unat v" "unat c" "unat r"] by simp
qed

lemma submul_limb:
  assumes "gmp_umul_ppmm u v = (h, l)" "x = l + c" "y = of_bool (x < c) + h"
  shows "unat (r - x) + (unat u * unat v + unat c) = unat r + unat (y + of_bool (r - x > r)) * BB"
proof -
  have gt: "r - x > r \<longleftrightarrow> r < x"
  proof (cases "r < x")
    case True
    then have "unat (r - x) + unat x = unat r + BB" using carryB(3) [of r x] by simp
    then have "unat r < unat (r - x)" using unat_less_BB [of x] by linarith
    then show ?thesis using True by (simp add: word_less_nat_alt)
  next
    case False
    then show ?thesis using carryB(3) [of r x] by (simp add: word_less_nat_alt)
  qed
  let ?t = "(of_bool (r < x) + unat y) * BB"
  have e: "unat (r - x) + (unat u * unat v + unat c) = unat r + ?t"
    using mul_limb [OF assms(1), of c] carryB(3) [of r x] unfolding assms(3) assms(2) distrib_right by linarith
  have "unat u * unat v + unat c + unat (r - x) < BB * BB" by (intro product_bound) simp_all
  then have "?t < BB * BB" using e by linarith
  from high_carry(2) [of 0 "r < x" y, OF _ this] have "unat (y + of_bool (r < x)) * BB = ?t" by simp
  then show ?thesis unfolding gt e by (simp only:)
qed

subsection \<open>Products by a limb\<close>

lemma mul_1_loop_ok:
  assumes "fwd rp up n" "i \<le> n" "mul_1_loop rp up vl i m = (cl, m')"
  shows "same_outside rp i m m' \<and> lval m' rp i + unat cl * BB ^ i = lval m up i * unat vl"
  using assms(2,3)
proof (induction i arbitrary: cl m')
  case (Suc i)
  obtain c0 m0 where 0: "mul_1_loop rp up vl i m = (c0, m0)" by fastforce
  then have IH: "same_outside rp i m m0" "lval m0 rp i + unat c0 * BB ^ i = lval m up i * unat vl" using Suc by auto
  have a: "m0 (up + i) = m (up + i)" using same_outside_fwd [OF IH(1) assms(1)] Suc.prems by simp
  obtain h l where hl: "gmp_umul_ppmm (m (up + i)) vl = (h, l)" by fastforce
  have res: "cl = of_bool (l + c0 < c0) + h" "m' = m0(rp + i := l + c0)"
    using Suc.prems(2) 0 a hl by (auto simp: Let_def)
  have "lval m' rp (Suc i) + unat cl * BB ^ Suc i = lval m up (Suc i) * unat vl"
    using limb_step [OF IH(2) mul_limb [OF hl, of c0]]
    unfolding res loop_update(2) [OF IH(1)] by (simp add: algebra_simps)
  then show ?case unfolding res(2) using loop_update(1) [OF IH(1)] by blast
qed simp

lemma addmul_1_loop_ok:
  assumes "fwd rp up n" "i \<le> n" "addmul_1_loop rp up vl i m = (cl, m')"
  shows "same_outside rp i m m' \<and> lval m' rp i + unat cl * BB ^ i = lval m rp i + lval m up i * unat vl"
  using assms(2,3)
proof (induction i arbitrary: cl m')
  case (Suc i)
  obtain c0 m0 where 0: "addmul_1_loop rp up vl i m = (c0, m0)" by fastforce
  then have IH: "same_outside rp i m m0" "lval m0 rp i + unat c0 * BB ^ i = lval m rp i + lval m up i * unat vl"
    using Suc by auto
  have a: "m0 (up + i) = m (up + i)" "m0 (rp + i) = m (rp + i)"
    using same_outside_fwd [OF IH(1) assms(1)] Suc.prems IH(1) by (simp_all add: same_outside_def)
  obtain h l where hl: "gmp_umul_ppmm (m (up + i)) vl = (h, l)" by fastforce
  define r x where "r = m (rp + i)" and "x = l + c0"
  define y where "y = of_bool (x < c0) + h"
  have res: "cl = y + of_bool (r + x < r)" "m' = m0(rp + i := r + x)"
    using Suc.prems(2) 0 a hl by (auto simp: Let_def x_def y_def r_def)
  have "lval m' rp (Suc i) + unat cl * BB ^ Suc i = lval m rp (Suc i) + lval m up (Suc i) * unat vl"
    using limb_step [OF IH(2) addmul_limb [OF hl x_def y_def, of r]]
    unfolding res loop_update(2) [OF IH(1)] lval_Suc [of m] r_def [symmetric] by (simp add: algebra_simps)
  then show ?case unfolding res(2) using loop_update(1) [OF IH(1)] by blast
qed simp

lemma submul_1_loop_ok:
  assumes "fwd rp up n" "i \<le> n" "submul_1_loop rp up vl i m = (cl, m')"
  shows "same_outside rp i m m' \<and> lval m' rp i + lval m up i * unat vl = lval m rp i + unat cl * BB ^ i"
  using assms(2,3)
proof (induction i arbitrary: cl m')
  case (Suc i)
  obtain c0 m0 where 0: "submul_1_loop rp up vl i m = (c0, m0)" by fastforce
  then have IH: "same_outside rp i m m0" "lval m0 rp i + lval m up i * unat vl = lval m rp i + unat c0 * BB ^ i"
    using Suc by auto
  have a: "m0 (up + i) = m (up + i)" "m0 (rp + i) = m (rp + i)"
    using same_outside_fwd [OF IH(1) assms(1)] Suc.prems IH(1) by (simp_all add: same_outside_def)
  obtain h l where hl: "gmp_umul_ppmm (m (up + i)) vl = (h, l)" by fastforce
  define r x where "r = m (rp + i)" and "x = l + c0"
  define y where "y = of_bool (x < c0) + h"
  have res: "cl = y + of_bool (r - x > r)" "m' = m0(rp + i := r - x)"
    using Suc.prems(2) 0 a hl by (auto simp: Let_def x_def y_def r_def)
  have "(unat (r - x) + (unat (m (up + i)) * unat vl + unat c0)) * BB ^ i = (unat r + unat cl * BB) * BB ^ i"
    unfolding res(1) submul_limb [OF hl x_def y_def, of r] ..
  then have "lval m' rp (Suc i) + lval m up (Suc i) * unat vl = lval m rp (Suc i) + unat cl * BB ^ Suc i"
    using IH(2) unfolding res(2) loop_update(2) [OF IH(1)] lval_Suc [of m] r_def [symmetric] by (simp add: algebra_simps)
  then show ?case unfolding res(2) using loop_update(1) [OF IH(1)] by blast
qed simp

subsection \<open>The product of two numbers\<close>

definition apart :: "nat \<Rightarrow> nat \<Rightarrow> nat \<Rightarrow> nat \<Rightarrow> bool" where
  "apart p n q k \<longleftrightarrow> p + n \<le> q \<or> q + k \<le> p"

lemma row_ok:
  assumes "1 \<le> un" "apart (rp + j) (Suc un) up un" "mpn_addmul_1 (rp + j) up un v m = Inr (cl, m1)"
    and m': "m' = m1(rp + j + un := cl)"
  shows "same_outside (rp + j) (Suc un) m m'"
    and "lval m' rp (j + Suc un) = lval m rp (j + un) + BB ^ j * (lval m up un * unat v)"
proof -
  have l: "addmul_1_loop (rp + j) up v un m = (cl, m1)" using assms(1,3) by (simp add: mpn_addmul_1_def)
  have "fwd (rp + j) up un" using assms(2) by (auto simp: apart_def fwd_def)
  note a = addmul_1_loop_ok [OF this order_refl l]
  show s: "same_outside (rp + j) (Suc un) m m'" unfolding m' using a by (intro loop_update(1)) blast
  have "lval m' rp j = lval m rp j" by (rule lval_outside [OF s]) simp
  moreover have "lval m' (rp + j) (Suc un) = lval m (rp + j) un + lval m up un * unat v"
    unfolding m' using a loop_update(2) [of "rp + j" un m m1 cl] by simp
  ultimately show "lval m' rp (j + Suc un) = lval m rp (j + un) + BB ^ j * (lval m up un * unat v)"
    unfolding lval_split by (simp only: distrib_left add.assoc)
qed

lemma mul_rows_ok:
  assumes "1 \<le> un" "i < vn" "apart rp (un + vn) up un" "apart rp (un + vn) vp vn"
  shows "\<exists>m'. mul_rows rp up un vp i m = Inr m' \<and> same_outside rp (un + Suc i) m m' \<and>
    lval m' rp (un + Suc i) = lval m up un * lval m vp (Suc i)"
  using assms(2)
proof (induction i)
  case 0
  obtain cl m1 where l: "mul_1_loop rp up (m vp) un m = (cl, m1)" by fastforce
  have "fwd rp up un" using assms(3) by (auto simp: apart_def fwd_def)
  note a = mul_1_loop_ok [OF this order_refl l]
  then show ?case using assms(1) l loop_update [of rp un m m1 cl] by (simp add: mpn_mul_1_def)
next
  case (Suc i)
  then obtain m0 where IH: "mul_rows rp up un vp i m = Inr m0" "same_outside rp (un + Suc i) m m0"
    "lval m0 rp (un + Suc i) = lval m up un * lval m vp (Suc i)" by auto
  let ?v = "m0 (vp + Suc i)"
  obtain cl m1 where add: "mpn_addmul_1 (rp + Suc i) up un ?v m0 = Inr (cl, m1)"
    using assms(1) by (cases "addmul_1_loop (rp + Suc i) up ?v un m0") (simp add: mpn_addmul_1_def)
  have "apart (rp + Suc i) (Suc un) up un" using assms(3) Suc.prems by (auto simp: apart_def)
  note r = row_ok [OF assms(1) this add refl]
  have v: "?v = m (vp + Suc i)" using IH(2) assms(4) Suc.prems by (auto simp: same_outside_def apart_def)
  have u: "lval m0 up un = lval m up un"
    by (rule lval_outside [OF IH(2)]) (use assms(3) Suc.prems in \<open>auto simp: apart_def\<close>)
  have "lval (m1(rp + Suc i + un := cl)) rp (un + Suc (Suc i)) =
      lval m0 rp (un + Suc i) + BB ^ Suc i * (lval m up un * unat (m (vp + Suc i)))"
    using r(2) unfolding u v by (simp only: add.commute add_Suc_right)
  then have "lval (m1(rp + Suc i + un := cl)) rp (un + Suc (Suc i)) = lval m up un * lval m vp (Suc (Suc i))"
    unfolding IH(3) lval_Suc [of m vp "Suc i"] by (simp only: distrib_left ac_simps)
  moreover have "same_outside rp (un + Suc (Suc i)) m (m1(rp + Suc i + un := cl))"
    using IH(2) r(1) by (auto simp: same_outside_def)
  ultimately show ?case using IH(1) add by simp
qed

lemma mpn_mul_ok:
  assumes "1 \<le> vn" "vn \<le> un" "apart rp (un + vn) up un" "apart rp (un + vn) vp vn"
  shows "\<exists>m'. mpn_mul rp up un vp vn m = Inr (m' (rp + (un + vn - 1)), m') \<and> same_outside rp (un + vn) m m' \<and>
    lval m' rp (un + vn) = lval m up un * lval m vp vn"
proof -
  have "1 \<le> un" "vn - 1 < vn" using assms(1,2) by simp_all
  from mul_rows_ok [OF this assms(3,4), of m] obtain m' where r: "mul_rows rp up un vp (vn - 1) m = Inr m'"
    "same_outside rp (un + Suc (vn - 1)) m m'" "lval m' rp (un + Suc (vn - 1)) = lval m up un * lval m vp (Suc (vn - 1))"
    by blast
  have "rp + (vn - 1) + un = rp + (un + vn - 1)" "Suc (vn - 1) = vn" using assms(1) by simp_all
  then show ?thesis using r assms(1,2) by (simp add: mpn_mul_def)
qed

text \<open>
  C36: \<open>mpn_mul\<close> multiplies. For a result area apart from both operands, the \<open>un + vn\<close> limbs of the
  result are the product of the operands, the returned limb is the highest of them, and
  nothing else in memory changes.
\<close>

theorem mpn_mul_value:
  assumes "1 \<le> vn" "vn \<le> un" "apart rp (un + vn) up un" "apart rp (un + vn) vp vn"
  shows "\<exists>m'. mpn_mul rp up un vp vn m = Inr (m' (rp + (un + vn - 1)), m') \<and> same_outside rp (un + vn) m m' \<and>
    lval m' rp (un + vn) = lval m up un * lval m vp vn"
  using assms by (rule mpn_mul_ok)

theorem mpn_mul_value_witness:
  "\<exists>m'. mpn_mul 10 0 3 5 1 sample_mem = Inr (m' 13, m') \<and> lval m' 10 4 = BB ^ 3 - 1"
proof -
  have "apart 10 (3 + 1) 0 3" "apart 10 (3 + 1) 5 1" by (simp_all add: apart_def)
  then show ?thesis using mpn_mul_value [of 1 3 10 0 5 sample_mem] unfolding sample_mem_values by auto
qed

subsection \<open>Shifts\<close>

text \<open>A limb shifted to the left has no low bits, so that those of another limb can be put there.\<close>

lemma drop_bit_less: "0 < k \<Longrightarrow> k < 64 \<Longrightarrow> unat (drop_bit (64 - k) (x :: u64)) < 2 ^ k"
proof -
  assume k: "0 < k" "k < 64"
  have "unat (push_bit k x) + limb_base * unat (drop_bit (64 - k) x) = unat x * 2 ^ k" by (rule shift_value [OF k])
  moreover have "unat x * 2 ^ k < limb_base * 2 ^ k" by simp
  ultimately have "limb_base * unat (drop_bit (64 - k) x) < limb_base * 2 ^ k" by linarith
  then show ?thesis by simp
qed

lemma or_shifted:
  assumes "0 < k" "k < 64"
  shows "unat (push_bit k x OR drop_bit (64 - k) y :: u64) = unat (push_bit k x) + unat (drop_bit (64 - k) y)"
proof -
  let ?p = "unat (push_bit k x)" and ?d = "unat (drop_bit (64 - k) y)"
  have d: "?d < 2 ^ k" by (rule drop_bit_less [OF assms])
  have e: "limb_base = 2 ^ k * 2 ^ (64 - k)" using assms by (simp flip: power_add)
  obtain c where c: "?p = 2 ^ k * c" using unat_push_bit [OF assms] by blast
  then have "c < 2 ^ (64 - k)" using unat64_less [of "push_bit k x"] unfolding e by simp
  then have "2 ^ k * (c + 1) \<le> 2 ^ k * 2 ^ (64 - k)" by (intro mult_le_mono2) simp
  then have "?p + ?d < limb_base" using c d unfolding e by simp
  then show ?thesis unfolding or_low_bits [OF d] by (subst unat_add_no_wrap) simp_all
qed

lemma lshift_loop_ok:
  assumes "0 < cnt" "cnt < 64" "bwd rp up (Suc n)"
  shows "same_outside rp (Suc n) m (lshift_loop rp up cnt n (push_bit cnt x) m) \<and>
    lval (lshift_loop rp up cnt n (push_bit cnt x) m) rp (Suc n) = lval m up n * 2 ^ cnt + unat (push_bit cnt x) * BB ^ n"
  using assms(3)
proof (induction n arbitrary: m x)
  case 0
  then show ?case by (simp add: same_outside_def)
next
  case (Suc n)
  let ?low = "m (up + n)"
  define m1 where "m1 = m(rp + Suc n := push_bit cnt x OR drop_bit (64 - cnt) ?low)"
  define m2 where "m2 = lshift_loop rp up cnt n (push_bit cnt ?low) m1"
  have "bwd rp up (Suc n)" using Suc.prems by (auto simp: bwd_def)
  from Suc.IH [OF this, of m1 ?low]
  have IH: "same_outside rp (Suc n) m1 m2" "lval m2 rp (Suc n) = lval m1 up n * 2 ^ cnt + unat (push_bit cnt ?low) * BB ^ n"
    unfolding m2_def by blast+
  have up: "lval m1 up n = lval m up n" unfolding m1_def by (rule lval_upd) (use Suc.prems in \<open>auto simp: bwd_def\<close>)
  have top: "unat (m2 (rp + Suc n)) = unat (push_bit cnt x) + unat (drop_bit (64 - cnt) ?low)"
    using IH(1) or_shifted [OF assms(1,2)] by (simp add: same_outside_def m1_def)
  have "(unat (push_bit cnt ?low) + BB * unat (drop_bit (64 - cnt) ?low)) * BB ^ n = unat ?low * 2 ^ cnt * BB ^ n"
    unfolding BB_def shift_value [OF assms(1,2)] ..
  then have "lval m2 rp (Suc (Suc n)) = lval m up (Suc n) * 2 ^ cnt + unat (push_bit cnt x) * BB ^ Suc n"
    unfolding lval_Suc [of m2 rp "Suc n"] IH(2) top up by (simp add: algebra_simps)
  moreover have "same_outside rp (Suc (Suc n)) m m2" using IH(1) by (auto simp: same_outside_def m1_def)
  moreover have "lshift_loop rp up cnt (Suc n) (push_bit cnt x) m = m2" by (simp add: m2_def m1_def Let_def)
  ultimately show ?case by simp
qed

lemma mpn_lshift_ok:
  assumes "1 \<le> n" "1 \<le> cnt" "cnt < 64" "bwd rp up n"
  shows "\<exists>r m'. mpn_lshift rp up n cnt m = Inr (r, m') \<and> same_outside rp n m m' \<and>
    lval m' rp n + unat r * BB ^ n = lval m up n * 2 ^ cnt"
proof -
  obtain k where k: "n = Suc k" using assms(1) by (cases n) auto
  have c: "0 < cnt" "cnt < 64" using assms(2,3) by simp_all
  let ?x = "m (up + k)"
  have "(unat (push_bit cnt ?x) + BB * unat (drop_bit (64 - cnt) ?x)) * BB ^ k = unat ?x * 2 ^ cnt * BB ^ k"
    unfolding BB_def shift_value [OF c] ..
  then have "lval (lshift_loop rp up cnt k (push_bit cnt ?x) m) rp n + unat (drop_bit (64 - cnt) ?x) * BB ^ n =
      lval m up n * 2 ^ cnt"
    using lshift_loop_ok [OF c assms(4) [unfolded k], of m ?x] unfolding k lval_Suc [of m] by (simp add: algebra_simps)
  then show ?thesis
    using lshift_loop_ok [OF c assms(4) [unfolded k], of m ?x] assms(2,3) k by (simp add: mpn_lshift_def Let_def)
qed

text \<open>
  \<open>mpn_lshift\<close> multiplies by a power of two. Also when the result overwrites the operand
  or lies above it in the same area, the result with the returned limb above it is the operand
  times \<open>2 ^ cnt\<close>.
\<close>

theorem mpn_lshift_value:
  assumes "1 \<le> n" "1 \<le> cnt" "cnt < 64" "bwd rp up n"
  shows "\<exists>r m'. mpn_lshift rp up n cnt m = Inr (r, m') \<and> same_outside rp n m m' \<and>
    lval m' rp n + unat r * BB ^ n = lval m up n * 2 ^ cnt"
  using assms by (rule mpn_lshift_ok)

theorem mpn_lshift_value_witness:
  "\<exists>r m'. mpn_lshift 1 0 3 63 sample_mem = Inr (r, m') \<and> lval m' 1 3 + unat r * BB ^ 3 = (BB ^ 3 - 1) * 2 ^ 63"
proof -
  have "bwd 1 0 3" by (simp add: bwd_def)
  then show ?thesis using mpn_lshift_value [of 3 63 1 0 sample_mem] unfolding sample_mem_values by auto
qed

lemma rshift_loop_ok:
  assumes "0 < cnt" "cnt < 64" "fwd rp up n" "i < n" "rshift_loop rp up cnt i m = (low, m')"
  shows "same_outside rp i m m' \<and> low = drop_bit cnt (m (up + i)) \<and>
    BB * (lval m' rp i + unat low * BB ^ i) + unat (push_bit (64 - cnt) (m up)) = lval m up (Suc i) * 2 ^ (64 - cnt)"
  using assms(4,5)
proof (induction i arbitrary: low m')
  case 0
  have "unat (push_bit (64 - cnt) (m up)) + BB * unat (drop_bit cnt (m up)) = unat (m up) * 2 ^ (64 - cnt)"
    using shift_value [of "64 - cnt" "m up"] assms(1,2) by (simp add: BB_def)
  then show ?case using 0 by auto
next
  case (Suc i)
  obtain l0 m0 where 0: "rshift_loop rp up cnt i m = (l0, m0)" by fastforce
  let ?x = "m (up + Suc i)" and ?y = "m (up + i)" and ?t = "64 - cnt"
  have IH: "same_outside rp i m m0" "l0 = drop_bit cnt ?y"
    "BB * (lval m0 rp i + unat l0 * BB ^ i) + unat (push_bit ?t (m up)) = lval m up (Suc i) * 2 ^ ?t"
    using Suc.IH [OF _ 0] Suc.prems by auto
  have a: "m0 (up + Suc i) = ?x" using IH(1) assms(3) Suc.prems(1) by (auto simp: same_outside_def fwd_def)
  let ?r = "l0 OR push_bit ?t ?x"
  have res: "low = drop_bit cnt ?x" "m' = m0(rp + i := ?r)" using Suc.prems(2) 0 a by (auto simp: Let_def)
  have "unat ?r = unat (push_bit ?t ?x) + unat l0"
    using or_shifted [of ?t ?x ?y] assms(1,2) unfolding IH(2) by (simp add: or.commute)
  moreover have "(unat (push_bit ?t ?x) + BB * unat low) * BB ^ Suc i = unat ?x * 2 ^ ?t * BB ^ Suc i"
    using shift_value [of ?t ?x] assms(1,2) unfolding res(1) by (simp add: BB_def)
  ultimately have "BB * (lval m' rp (Suc i) + unat low * BB ^ Suc i) + unat (push_bit ?t (m up)) = lval m up (Suc (Suc i)) * 2 ^ ?t"
    using IH(3) unfolding res(2) loop_update(2) [OF IH(1)] lval_Suc [of m up "Suc i"] by (simp add: algebra_simps)
  then show ?case unfolding res(2) using res(1) loop_update(1) [OF IH(1)] by blast
qed

lemma mpn_rshift_ok:
  assumes "1 \<le> n" "1 \<le> cnt" "cnt < 64" "fwd rp up n"
  shows "\<exists>r m'. mpn_rshift rp up n cnt m = Inr (r, m') \<and> same_outside rp n m m' \<and>
    BB * lval m' rp n + unat r = lval m up n * 2 ^ (64 - cnt) \<and> lval m' rp n = lval m up n div 2 ^ cnt"
proof -
  obtain k where k: "n = Suc k" using assms(1) by (cases n) auto
  have c: "0 < cnt" using assms(2) by simp
  obtain low m1 where l: "rshift_loop rp up cnt k m = (low, m1)" by fastforce
  have r: "same_outside rp k m m1"
    "BB * (lval m1 rp k + unat low * BB ^ k) + unat (push_bit (64 - cnt) (m up)) = lval m up (Suc k) * 2 ^ (64 - cnt)"
    using rshift_loop_ok [OF c assms(3,4) _ l] k by blast+
  let ?m = "m1(rp + k := low)" and ?r = "push_bit (64 - cnt) (m up)"
  have s: "same_outside rp n m ?m" and v: "BB * lval ?m rp n + unat ?r = lval m up n * 2 ^ (64 - cnt)"
    unfolding k using r(2) loop_update [OF r(1), of low] by simp_all
  have "lval m up n div 2 ^ cnt = lval m up n * 2 ^ (64 - cnt) div BB"
  proof -
    have e: "BB = 2 ^ cnt * 2 ^ (64 - cnt)" using assms(3) by (simp add: BB_def flip: power_add)
    show ?thesis unfolding e by simp
  qed
  also have "\<dots> = lval ?m rp n" unfolding v [symmetric] by simp
  finally show ?thesis using s v l assms(1-3) by (simp add: mpn_rshift_def k)
qed

text \<open>
  \<open>mpn_rshift\<close> divides by a power of two. The result is the quotient of the operand by
  \<open>2 ^ cnt\<close>, and the returned limb holds the remainder in its high bits.
\<close>

theorem mpn_rshift_value:
  assumes "1 \<le> n" "1 \<le> cnt" "cnt < 64" "fwd rp up n"
  shows "\<exists>r m'. mpn_rshift rp up n cnt m = Inr (r, m') \<and> same_outside rp n m m' \<and>
    BB * lval m' rp n + unat r = lval m up n * 2 ^ (64 - cnt) \<and> lval m' rp n = lval m up n div 2 ^ cnt"
  using assms by (rule mpn_rshift_ok)

theorem mpn_rshift_value_witness:
  "\<exists>r m'. mpn_rshift 0 0 3 4 sample_mem = Inr (r, m') \<and> lval m' 0 3 = (BB ^ 3 - 1) div 2 ^ 4"
proof -
  have "fwd 0 0 3" by (simp add: fwd_def)
  then show ?thesis using mpn_rshift_value [of 3 4 0 0 sample_mem] unfolding sample_mem_values by auto
qed

subsection \<open>Complement and negation\<close>

lemma unat_not: "unat (NOT x :: u64) + unat x + 1 = BB"
proof -
  have "unat (- 1 - x) + unat x = unat (- 1 :: u64)" using carryB(3) [of "- 1" x] by (simp add: word_order.extremum_strict)
  moreover have "unat (- 1 :: u64) + 1 = BB" using carryB(3) [of 0 1] by simp
  moreover have "NOT x = - 1 - x" by (simp add: not_eq_complement)
  ultimately show ?thesis by simp
qed

lemma mpn_com_ok:
  assumes "fwd rp up n" "i \<le> n"
  shows "same_outside rp i m (mpn_com rp up i m) \<and> lval (mpn_com rp up i m) rp i + lval m up i + 1 = BB ^ i"
  using assms(2)
proof (induction i)
  case (Suc i)
  let ?m = "mpn_com rp up i m" and ?x = "m (up + i)"
  have IH: "same_outside rp i m ?m" "lval ?m rp i + lval m up i + 1 = BB ^ i" using Suc by auto
  have "?m (up + i) = ?x" using same_outside_fwd [OF IH(1) assms(1)] Suc.prems by simp
  then have e: "mpn_com rp up (Suc i) m = ?m(rp + i := NOT ?x)" by (simp add: Let_def)
  have "(unat (NOT ?x) + unat ?x + 1) * BB ^ i = BB * BB ^ i" unfolding unat_not ..
  then have "lval (mpn_com rp up (Suc i) m) rp (Suc i) + lval m up (Suc i) + 1 = BB ^ Suc i"
    using IH(2) unfolding e loop_update(2) [OF IH(1)] by (simp add: algebra_simps)
  then show ?case unfolding e using loop_update(1) [OF IH(1)] by blast
qed simp

lemma lval_low: "lval m p (Suc n) = unat (m p) + BB * lval m (p + 1) n"
  using lval_split [of m p 1 n] by simp

lemma same_outside_low: "same_outside (rp + 1) n (m(rp := v)) m' \<Longrightarrow> same_outside rp (Suc n) m m' \<and> m' rp = v"
  by (auto simp: same_outside_def)

text \<open>
  \<open>mpn_neg\<close> negates. For a number of at least one limb the result is the two's complement of the
  operand, and the returned limb is 1 unless the operand is 0.
\<close>

theorem mpn_neg_value:
  assumes "1 \<le> n" "fwd rp up n"
  shows "\<exists>cy m'. mpn_neg rp up n m = Inr (cy, m') \<and> same_outside rp n m m' \<and>
    unat cy = of_bool (lval m up n \<noteq> 0) \<and> lval m' rp n + lval m up n = unat cy * BB ^ n"
  using assms
proof (induction n arbitrary: rp up m)
  case (Suc n)
  let ?m = "m(rp := - m up)"
  have f: "fwd (rp + 1) (up + 1) n" using Suc.prems(2) by (auto simp: fwd_def)
  have up: "lval ?m (up + 1) n = lval m (up + 1) n" by (rule lval_upd) (use Suc.prems(2) in \<open>auto simp: fwd_def\<close>)
  show ?case
  proof (cases "m up = 0")
    case z: True
    show ?thesis
    proof (cases "n = 0")
      case True
      then show ?thesis using z by (simp add: same_outside_def)
    next
      case False
      then obtain cy m' where r: "mpn_neg (rp + 1) (up + 1) n ?m = Inr (cy, m')" "same_outside (rp + 1) n ?m m'"
        "unat cy = of_bool (lval m (up + 1) n \<noteq> 0)" "lval m' (rp + 1) n + lval m (up + 1) n = unat cy * BB ^ n"
        using Suc.IH [OF _ f, of ?m] unfolding up by (metis Suc_leI gr0I One_nat_def)
      have "BB * (lval m' (rp + 1) n + lval m (up + 1) n) = BB * (unat cy * BB ^ n)" unfolding r(4) ..
      then show ?thesis using r(1,3) same_outside_low [OF r(2)] z False unfolding lval_low by (simp add: algebra_simps)
    qed
  next
    case nz: False
    let ?c = "mpn_com (rp + 1) (up + 1) n ?m"
    have c: "same_outside (rp + 1) n ?m ?c" "lval ?c (rp + 1) n + lval m (up + 1) n + 1 = BB ^ n"
      using mpn_com_ok [OF f order_refl, of ?m] unfolding up by blast+
    have "unat (- m up) + unat (m up) = BB" using carryB(3) [of 0 "m up"] nz by (simp add: unat_eq_0)
    moreover have "BB * (lval ?c (rp + 1) n + lval m (up + 1) n + 1) = BB * BB ^ n" unfolding c(2) ..
    ultimately have "lval ?c rp (Suc n) + lval m up (Suc n) = 1 * BB ^ Suc n"
      using same_outside_low [OF c(1)] unfolding lval_low by (simp add: algebra_simps)
    moreover have "lval m up (Suc n) \<noteq> 0" using nz unfolding lval_low by (simp add: unat_eq_0)
    ultimately show ?thesis using same_outside_low [OF c(1)] nz by (simp add: Let_def)
  qed
qed simp

theorem mpn_neg_value_witness:
  "\<exists>cy m'. mpn_neg 0 0 3 sample_mem = Inr (cy, m') \<and> unat cy = 1 \<and> lval m' 0 3 = 1"
proof -
  have "fwd 0 0 3" by (simp add: fwd_def)
  moreover have "BB ^ 3 - 1 \<noteq> 0" "x + (BB ^ 3 - 1) = BB ^ 3 \<longleftrightarrow> x = 1" for x by (auto simp: BB_def)
  ultimately show ?thesis using mpn_neg_value [of 3 0 0 sample_mem] unfolding sample_mem_values by auto
qed

end
