(* ===== verification/Mpz_Memory.thy ===== *)
theory Mpz_Memory
  imports Mpn_Mul
begin

section \<open>Integers in memory\<close>

text \<open>
  The objects of the \<open>mpz\<close> layer of \<open>mini-gmp.c\<close> and their memory. A variable of type \<open>mpz_t\<close> is an
  identifier, so that two arguments of a function may be the same variable; its fields are in
  \<open>objs\<close>. The limbs of all variables are in the one memory of the \<open>mpn\<close> layer, in blocks from the
  allocator: a block is new when it is allocated and when it is reallocated, so that a pointer into
  the old block is worthless. The address 0 is the static limb of variables without memory. Local
  variables are taken from a stack.
\<close>

subsection \<open>Definitions\<close>

record mpz =
  mp_alloc :: int
  mp_size :: int
  mp_d :: nat

record mpz_mem =
  limbs :: limb_mem
  brk :: nat
  blocks :: "nat \<Rightarrow> nat option"
  objs :: "nat \<Rightarrow> mpz"
  stack :: nat

text \<open>
  The library functions \<open>malloc\<close>, \<open>realloc\<close> and \<open>free\<close>, which are assumed to succeed. The content of a block
  that was given back by \<open>realloc\<close> is not specified; here its limbs are inverted, so that a function that
  still reads them computes something else.
\<close>

definition stale :: "nat \<Rightarrow> nat \<Rightarrow> limb_mem \<Rightarrow> limb_mem" where
  "stale p k m = (\<lambda>a. if p \<le> a \<and> a < p + k then NOT (m a) else m a)"

definition gmp_xalloc_limbs :: "int \<Rightarrow> mpz_mem \<Rightarrow> (nat \<times> mpz_mem) res" where
  "gmp_xalloc_limbs sz s =
     bindE (c_assert (sz > 0)) (\<lambda>_.
     let p = brk s in Inr (p, s\<lparr>brk := p + nat sz, blocks := (blocks s)(p \<mapsto> nat sz)\<rparr>))"

definition gmp_xrealloc_limbs :: "nat \<Rightarrow> int \<Rightarrow> mpz_mem \<Rightarrow> (nat \<times> mpz_mem) res" where
  "gmp_xrealloc_limbs old sz s =
     bindE (c_assert (sz > 0)) (\<lambda>_.
     case blocks s old of
       None \<Rightarrow> crash Use_After_Free
     | Some k \<Rightarrow>
         let p = brk s
         in Inr (p, s\<lparr>brk := p + nat sz, blocks := (blocks s)(old := None, p \<mapsto> nat sz),
                      limbs := stale old k (mpn_copyi p old (min k (nat sz)) (limbs s))\<rparr>))"

definition gmp_free :: "nat \<Rightarrow> mpz_mem \<Rightarrow> mpz_mem res" where
  "gmp_free p s =
     (case blocks s p of None \<Rightarrow> crash Use_After_Free | Some _ \<Rightarrow> Inr (s\<lparr>blocks := (blocks s)(p := None)\<rparr>))"

definition new_var :: "mpz_mem \<Rightarrow> nat \<times> mpz_mem" where
  "new_var s = (stack s, s\<lparr>stack := stack s + 1\<rparr>)"

definition drop_var :: "mpz_mem \<Rightarrow> mpz_mem" where
  "drop_var s = s\<lparr>stack := stack s - 1\<rparr>"

definition set_obj :: "nat \<Rightarrow> mpz \<Rightarrow> mpz_mem \<Rightarrow> mpz_mem" where
  "set_obj r z s = s\<lparr>objs := (objs s)(r := z)\<rparr>"

text \<open>The fields for sizes have type \<open>int\<close>; the sizes that are stored there have type \<open>long\<close>.\<close>

definition set_size :: "nat \<Rightarrow> int \<Rightarrow> mpz_mem \<Rightarrow> mpz_mem" where
  "set_size r n s = set_obj r ((objs s r)\<lparr>mp_size := to_int32 n\<rparr>) s"

definition mpz_init :: "nat \<Rightarrow> mpz_mem \<Rightarrow> mpz_mem" where
  "mpz_init r s = set_obj r \<lparr>mp_alloc = 0, mp_size = 0, mp_d = 0\<rparr> s"

definition mpz_init2 :: "nat \<Rightarrow> u64 \<Rightarrow> mpz_mem \<Rightarrow> mpz_mem res" where
  "mpz_init2 r bits s =
     (let bits = bits - of_bool (bits \<noteq> 0); rn = 1 + int (unat (bits div 64))
      in bindE (gmp_xalloc_limbs rn s) (\<lambda>(p, s). Inr (set_obj r \<lparr>mp_alloc = to_int32 rn, mp_size = 0, mp_d = p\<rparr> s)))"

definition mpz_clear :: "nat \<Rightarrow> mpz_mem \<Rightarrow> mpz_mem res" where
  "mpz_clear r s = (if mp_alloc (objs s r) \<noteq> 0 then gmp_free (mp_d (objs s r)) s else Inr s)"

definition mpz_realloc :: "nat \<Rightarrow> int \<Rightarrow> mpz_mem \<Rightarrow> (nat \<times> mpz_mem) res" where
  "mpz_realloc r sz s =
     (let sz = max sz 1 in
      bindE (if mp_alloc (objs s r) \<noteq> 0 then gmp_xrealloc_limbs (mp_d (objs s r)) sz s else gmp_xalloc_limbs sz s)
        (\<lambda>(p, s).
      let s = set_obj r ((objs s r)\<lparr>mp_d := p, mp_alloc := to_int32 sz\<rparr>) s
      in Inr (p, if \<bar>mp_size (objs s r)\<bar> > sz then set_size r 0 s else s)))"

definition MPZ_REALLOC :: "nat \<Rightarrow> int \<Rightarrow> mpz_mem \<Rightarrow> (nat \<times> mpz_mem) res" where
  "MPZ_REALLOC z n s = (if n > mp_alloc (objs s z) then mpz_realloc z n s else Inr (mp_d (objs s z), s))"

definition put_limb :: "nat \<Rightarrow> u64 \<Rightarrow> mpz_mem \<Rightarrow> mpz_mem" where
  "put_limb a v s = s\<lparr>limbs := (limbs s)(a := v)\<rparr>"

subsection \<open>Values and the invariant\<close>

abbreviation zd :: "mpz_mem \<Rightarrow> nat \<Rightarrow> nat" where "zd s r \<equiv> mp_d (objs s r)"
abbreviation zs :: "mpz_mem \<Rightarrow> nat \<Rightarrow> int" where "zs s r \<equiv> mp_size (objs s r)"
abbreviation zn :: "mpz_mem \<Rightarrow> nat \<Rightarrow> nat" where "zn s r \<equiv> nat \<bar>mp_size (objs s r)\<bar>"
abbreviation za :: "mpz_mem \<Rightarrow> nat \<Rightarrow> nat" where "za s r \<equiv> nat (mp_alloc (objs s r))"

definition zabs :: "mpz_mem \<Rightarrow> nat \<Rightarrow> nat" where
  "zabs s r = lval (limbs s) (zd s r) (zn s r)"

definition zval :: "mpz_mem \<Rightarrow> nat \<Rightarrow> int" where
  "zval s r = sgn (zs s r) * int (zabs s r)"

text \<open>A variable has a block of the size it states, uses a part of it, and its highest limb is not zero.\<close>

definition obj_ok :: "mpz_mem \<Rightarrow> nat \<Rightarrow> bool" where
  "obj_ok s r \<longleftrightarrow> 0 \<le> mp_alloc (objs s r) \<and> mp_alloc (objs s r) \<le> INT_MAX \<and> \<bar>zs s r\<bar> \<le> mp_alloc (objs s r) \<and>
     (if mp_alloc (objs s r) = 0 then zd s r = 0 else blocks s (zd s r) = Some (za s r)) \<and>
     (zs s r \<noteq> 0 \<longrightarrow> limbs s (zd s r + (zn s r - 1)) \<noteq> 0)"

definition heap_ok :: "mpz_mem \<Rightarrow> bool" where
  "heap_ok s \<longleftrightarrow> 0 < brk s \<and> (\<forall>p k. blocks s p = Some k \<longrightarrow> 0 < p \<and> 0 < k \<and> p + k \<le> brk s) \<and>
     (\<forall>p k q l. blocks s p = Some k \<and> blocks s q = Some l \<and> p < q \<longrightarrow> p + k \<le> q)"

definition owners :: "nat set \<Rightarrow> mpz_mem \<Rightarrow> nat set" where
  "owners L s = {r \<in> L. mp_alloc (objs s r) \<noteq> 0}"

text \<open>
  The variables in \<open>L\<close> are initialised and do not share memory; every block belongs to one of them or
  is one of the temporary blocks in \<open>T\<close>, so that no memory is lost.
\<close>

definition mpz_wf :: "nat set \<Rightarrow> nat set \<Rightarrow> mpz_mem \<Rightarrow> bool" where
  "mpz_wf L T s \<longleftrightarrow> heap_ok s \<and> (\<forall>r\<in>L. obj_ok s r \<and> r < stack s) \<and> inj_on (zd s) (owners L s) \<and>
     dom (blocks s) = T \<union> zd s ` owners L s \<and> T \<inter> zd s ` owners L s = {}"

lemma wf_obj: "mpz_wf L T s \<Longrightarrow> r \<in> L \<Longrightarrow> obj_ok s r"
  by (simp add: mpz_wf_def)

lemma obj_sizes: "obj_ok s r \<Longrightarrow> zn s r \<le> za s r" "obj_ok s r \<Longrightarrow> int (za s r) \<le> INT_MAX"
  "obj_ok s r \<Longrightarrow> int (zn s r) \<le> INT_MAX" "obj_ok s r \<Longrightarrow> int (za s r) = mp_alloc (objs s r)"
  by (auto simp: obj_ok_def)

lemma obj_top: "obj_ok s r \<Longrightarrow> zs s r \<noteq> 0 \<Longrightarrow> \<exists>k. zn s r = Suc k \<and> limbs s (zd s r + k) \<noteq> 0"
  by (cases "zn s r") (auto simp: obj_ok_def)

lemma wf_apart:
  assumes "mpz_wf L T s" "r \<in> L" "q \<in> L" "q \<noteq> r"
  shows "apart (zd s r) (za s r) (zd s q) (za s q)"
proof -
  have o: "obj_ok s r" "obj_ok s q" using assms by (auto simp: mpz_wf_def)
  show ?thesis
  proof (cases "r \<in> owners L s \<and> q \<in> owners L s")
    case True
    then have "zd s r \<noteq> zd s q" using assms by (auto simp: mpz_wf_def inj_on_def)
    moreover have "blocks s (zd s r) = Some (za s r)" "blocks s (zd s q) = Some (za s q)"
      using True o by (auto simp: obj_ok_def owners_def)
    ultimately show ?thesis using assms(1) unfolding mpz_wf_def heap_ok_def apart_def by (metis linorder_neqE_nat)
  next
    case False
    then have "za s r = 0 \<and> zd s r = 0 \<or> za s q = 0 \<and> zd s q = 0"
      using assms(2,3) o by (auto simp: owners_def obj_ok_def)
    then show ?thesis by (auto simp: apart_def)
  qed
qed

text \<open>What is known of the arguments of a function on limbs whose result goes to \<open>r\<close>.\<close>

lemma wf_regions:
  assumes "mpz_wf L T s" "r \<in> L" "a \<in> L"
  shows "zd s a = zd s r \<or> apart (zd s r) (za s r) (zd s a) (zn s a)"
proof (cases "a = r")
  case False
  then show ?thesis using wf_apart [OF assms(1,2,3)] obj_sizes(1) [OF wf_obj [OF assms(1,3)]] by (auto simp: apart_def)
qed simp

lemma wf_fwd: "mpz_wf L T s \<Longrightarrow> r \<in> L \<Longrightarrow> a \<in> L \<Longrightarrow> fwd (zd s r) (zd s a) (zn s a)"
  using wf_regions [of L T s r a] by (auto simp: fwd_def apart_def)

lemma zabs_pos: "obj_ok s r \<Longrightarrow> zs s r \<noteq> 0 \<Longrightarrow> BB ^ (zn s r - 1) \<le> zabs s r"
proof -
  assume o: "obj_ok s r" "zs s r \<noteq> 0"
  then obtain k where k: "zn s r = Suc k" by (metis abs_eq_0 nat_0_iff not0_implies_Suc abs_ge_zero order_antisym)
  have "limbs s (zd s r + k) \<noteq> 0" using o k by (simp add: obj_ok_def)
  then have "1 \<le> unat (limbs s (zd s r + k))" using unat_eq_0 [of "limbs s (zd s r + k)"] by linarith
  then have "1 * BB ^ k \<le> unat (limbs s (zd s r + k)) * BB ^ k" by (rule mult_le_mono1)
  then show ?thesis unfolding zabs_def k lval_Suc diff_Suc_1 by linarith
qed

lemma zabs_0_iff: "obj_ok s r \<Longrightarrow> zabs s r = 0 \<longleftrightarrow> zs s r = 0"
proof
  assume o: "obj_ok s r" "zabs s r = 0"
  have "0 < BB ^ (zn s r - 1)" by simp
  then show "zs s r = 0" using o zabs_pos [OF o(1)] by linarith
qed (simp add: zabs_def)

lemma zval_0_iff: "obj_ok s r \<Longrightarrow> zval s r = 0 \<longleftrightarrow> zs s r = 0"
  using zabs_0_iff [of s r] by (auto simp: zval_def sgn_0_0)

lemma zabs_less: "zabs s r < BB ^ zn s r"
  by (simp add: zabs_def lval_less)

subsection \<open>Allocation\<close>

text \<open>
  More memory for \<open>r\<close>: there is room for \<open>k\<close> limbs, every variable keeps its size and its limbs, and only
  the fields of \<open>r\<close> change.
\<close>

definition grown :: "nat set \<Rightarrow> nat set \<Rightarrow> mpz_mem \<Rightarrow> nat \<Rightarrow> nat \<Rightarrow> mpz_mem \<Rightarrow> bool" where
  "grown L T s r k s' \<longleftrightarrow> mpz_wf L T s' \<and> k \<le> za s' r \<and> stack s' = stack s \<and> (\<forall>q. q \<noteq> r \<longrightarrow> objs s' q = objs s q) \<and>
     (\<forall>q\<in>L. zs s' q = zs s q \<and> (\<forall>i<zn s q. limbs s' (zd s' q + i) = limbs s (zd s q + i)))"

lemma wf_below:
  assumes "mpz_wf L T s" "q \<in> L"
  shows "zd s q < brk s" "zd s q + za s q \<le> brk s" "zd s q + zn s q \<le> brk s"
proof -
  have o: "obj_ok s q" using assms by (rule wf_obj)
  have h: "0 < brk s" "\<And>p k. blocks s p = Some k \<Longrightarrow> 0 < k \<and> p + k \<le> brk s" using assms(1) by (auto simp: mpz_wf_def heap_ok_def)
  have "zd s q = 0 \<and> za s q = 0 \<or> blocks s (zd s q) = Some (za s q)" using o by (auto simp: obj_ok_def split: if_splits)
  then show z: "zd s q + za s q \<le> brk s" and "zd s q < brk s" using h by (auto, fastforce)
  show "zd s q + zn s q \<le> brk s" using z obj_sizes(1) [OF o] by linarith
qed

lemma wf_moved:
  assumes "mpz_wf L T s" "r \<in> L" "za s r \<le> k" "0 < k" "int k \<le> INT_MAX"
    and m: "\<And>a. a < brk s \<Longrightarrow> a < zd s r \<or> zd s r + za s r \<le> a \<Longrightarrow> m' a = limbs s a" "\<And>i. i < zn s r \<Longrightarrow> m' (brk s + i) = limbs s (zd s r + i)"
    and s': "s' = s\<lparr>brk := brk s + k, limbs := m', objs := (objs s)(r := (objs s r)\<lparr>mp_d := brk s, mp_alloc := int k\<rparr>),
      blocks := (if mp_alloc (objs s r) = 0 then blocks s else (blocks s)(zd s r := None))(brk s \<mapsto> k)\<rparr>"
  shows "grown L T s r k s'"
proof -
  let ?p = "brk s"
  have o: "obj_ok s r" using assms(1,2) by (rule wf_obj)
  have bl: "blocks s' q = (if q = ?p then Some k else if mp_alloc (objs s r) \<noteq> 0 \<and> q = zd s r then None else blocks s q)" for q
    by (simp add: s')
  have old: "blocks s q = Some l \<Longrightarrow> 0 < q \<and> 0 < l \<and> q + l \<le> ?p" for q l
    using assms(1) by (auto simp: mpz_wf_def heap_ok_def)
  have other: "blocks s' (zd s q) = blocks s (zd s q)" if "q \<in> owners L s" "q \<noteq> r" for q
  proof -
    have "zd s q < ?p" using that wf_below(1) [OF assms(1)] by (auto simp: owners_def)
    moreover have "zd s q \<noteq> zd s r" if "mp_alloc (objs s r) \<noteq> 0"
      using \<open>q \<in> owners L s\<close> \<open>q \<noteq> r\<close> that assms(1,2) by (auto simp: mpz_wf_def inj_on_def owners_def)
    ultimately show ?thesis by (auto simp: bl)
  qed
  have heap: "heap_ok s'"
    unfolding heap_ok_def
  proof (intro conjI allI impI)
    show "0 < brk s'" using assms(4) by (simp add: s')
    show "0 < p" "0 < l" "p + l \<le> brk s'" if "blocks s' p = Some l" for p l
    proof -
      have "0 < ?p" using assms(1) by (simp add: mpz_wf_def heap_ok_def)
      moreover have "brk s' = ?p + k" by (simp add: s')
      ultimately show "0 < p" "0 < l" "p + l \<le> brk s'"
        using that old [of p l] assms(4) unfolding bl by (cases "p = ?p"; auto split: if_splits)+
    qed
    show "p + l \<le> q" if "blocks s' p = Some l \<and> blocks s' q = Some l' \<and> p < q" for p l q l'
    proof -
      have "p \<noteq> ?p" using that old [of q l'] by (auto simp: bl split: if_splits)
      then have "blocks s p = Some l" using that by (auto simp: bl split: if_splits)
      then show ?thesis using that old [of p l] assms(1) unfolding bl mpz_wf_def heap_ok_def by (metis option.distinct(1))
    qed
  qed
  have same: "m' (zd s q + i) = limbs s (zd s q + i)" if "q \<in> L" "q \<noteq> r" "i < zn s q" for q i
    using wf_apart [OF assms(1,2) that(1,2)] obj_sizes(1) [OF wf_obj [OF assms(1) that(1)]] wf_below(3) [OF assms(1) that(1)] that(3)
    by (intro m(1)) (auto simp: apart_def)
  have obj_r: "obj_ok s' r"
    using o assms(3-5) m(2) [of "zn s r - 1"] by (auto simp: obj_ok_def bl s')
  have objs: "obj_ok s' q" if "q \<in> L" "q \<noteq> r" for q
  proof -
    have oq: "obj_ok s q" using assms(1) that(1) by (rule wf_obj)
    have "zs s q \<noteq> 0 \<Longrightarrow> limbs s' (zd s q + (zn s q - 1)) = limbs s (zd s q + (zn s q - 1))"
      using same [OF that, of "zn s q - 1"] by (simp add: s')
    then show ?thesis using oq other [of q] that by (auto simp: obj_ok_def owners_def s' split: if_splits)
  qed
  have own: "owners L s' = insert r (owners L s)" using assms(2,4) by (auto simp: owners_def s')
  have d: "zd s' q = (if q = r then ?p else zd s q)" for q by (simp add: s')
  have below: "q \<in> owners L s \<Longrightarrow> zd s q < ?p" for q using wf_below(1) [OF assms(1)] by (auto simp: owners_def)
  have img: "zd s' ` owners L s' = insert ?p (zd s ` (owners L s - {r}))" unfolding own by (auto simp: d image_iff)
  have inj: "inj_on (zd s) (owners L s)" and dom: "dom (blocks s) = T \<union> zd s ` owners L s" and T: "T \<inter> zd s ` owners L s = {}"
    using assms(1) by (auto simp: mpz_wf_def)
  have "blocks s ?p = None" using old [of ?p] by (cases "blocks s ?p") auto
  then have pT: "?p \<notin> T" using dom by blast
  have "inj_on (zd s') (owners L s')"
    unfolding own using inj below less_irrefl [of ?p] unfolding inj_on_def d by (metis insertE)
  moreover have "dom (blocks s') = T \<union> zd s' ` owners L s'"
  proof -
    have "dom (blocks s') = insert ?p (if mp_alloc (objs s r) = 0 then dom (blocks s) else dom (blocks s) - {zd s r})"
      by (auto simp: dom_def bl split: if_splits)
    moreover have "zd s ` (owners L s - {r}) = (if mp_alloc (objs s r) = 0 then zd s ` owners L s else zd s ` owners L s - {zd s r})"
      using inj assms(2) by (auto simp: owners_def inj_on_def)
    moreover have "mp_alloc (objs s r) \<noteq> 0 \<Longrightarrow> zd s r \<notin> T" using T assms(2) by (auto simp: owners_def)
    ultimately show ?thesis unfolding img dom by auto
  qed
  moreover have "T \<inter> zd s' ` owners L s' = {}" unfolding img using T pT by auto
  moreover have "\<forall>q\<in>L. q < stack s'" using assms(1) by (simp add: mpz_wf_def s')
  ultimately have "mpz_wf L T s'" using heap obj_r objs unfolding mpz_wf_def by blast
  moreover have "limbs s' (zd s' q + i) = limbs s (zd s q + i)" if "q \<in> L" "i < zn s q" for q i
    using that m(2) same by (cases "q = r") (auto simp: s')
  ultimately show ?thesis using assms(5) by (auto simp: grown_def s')
qed

lemma MPZ_REALLOC_ok:
  assumes "mpz_wf L T s" "r \<in> L" "n \<le> INT_MAX"
  shows "\<exists>s'. MPZ_REALLOC r n s = Inr (zd s' r, s') \<and> grown L T s r (nat n) s'"
proof (cases "n > mp_alloc (objs s r)")
  case False
  then show ?thesis using assms by (auto simp: MPZ_REALLOC_def grown_def)
next
  case True
  have o: "obj_ok s r" using assms(1,2) by (rule wf_obj)
  have n: "0 < n" "max n 1 = n" using True o by (auto simp: obj_ok_def)
  let ?k = "nat n" and ?p = "brk s"
  have k: "za s r \<le> ?k" "0 < ?k" "int ?k \<le> INT_MAX" using True n assms(3) by auto
  have sz: "\<not> \<bar>zs s r\<bar> > n" using True o by (auto simp: obj_ok_def)
  have in_int: "in_int n" using n assms(3) by (simp add: in_int_def)
  define m' where "m' = (if mp_alloc (objs s r) = 0 then limbs s else stale (zd s r) (za s r) (mpn_copyi ?p (zd s r) (za s r) (limbs s)))"
  define s' where "s' = s\<lparr>brk := ?p + ?k, limbs := m', objs := (objs s)(r := (objs s r)\<lparr>mp_d := ?p, mp_alloc := int ?k\<rparr>),
      blocks := (if mp_alloc (objs s r) = 0 then blocks s else (blocks s)(zd s r := None))(?p \<mapsto> ?k)\<rparr>"
  have "fwd ?p (zd s r) (za s r)" using wf_below(2) [OF assms(1,2)] by (simp add: fwd_def)
  note c = mpn_copyi_ok [OF this order_refl, of "limbs s"]
  have below: "m' a = limbs s a" if "a < ?p" "a < zd s r \<or> zd s r + za s r \<le> a" for a
    using that c by (auto simp: m'_def same_outside_def stale_def)
  have copied: "m' (?p + i) = limbs s (zd s r + i)" if "i < zn s r" for i
  proof -
    have "i < za s r" using that obj_sizes(1) [OF o] by simp
    then show ?thesis using c that o wf_below(2) [OF assms(1,2)] by (auto simp: m'_def obj_ok_def stale_def)
  qed
  have g: "grown L T s r ?k s'" by (rule wf_moved [OF assms(1,2) k below copied s'_def])
  have "mp_alloc (objs s r) \<noteq> 0 \<Longrightarrow> blocks s (zd s r) = Some (za s r)" using o by (simp add: obj_ok_def)
  moreover have "min (za s r) ?k = za s r" using k(1) by simp
  ultimately have "MPZ_REALLOC r n s = Inr (?p, s')"
    using True n sz in_int
    by (auto simp: MPZ_REALLOC_def mpz_realloc_def gmp_xalloc_limbs_def gmp_xrealloc_limbs_def set_obj_def Let_def s'_def m'_def)
  moreover have "?p = zd s' r" by (simp add: s'_def)
  ultimately show ?thesis using g by auto
qed

lemma grown_values:
  assumes "grown L T s r k s1" "q \<in> L"
  shows "zs s1 q = zs s q" "lval (limbs s1) (zd s1 q) (zn s q) = zabs s q" "zval s1 q = zval s q" "obj_ok s1 q"
proof -
  show z: "zs s1 q = zs s q" and "obj_ok s1 q" using assms by (auto simp: grown_def mpz_wf_def)
  show l: "lval (limbs s1) (zd s1 q) (zn s q) = zabs s q"
    unfolding zabs_def by (rule lval_cong) (use assms in \<open>auto simp: grown_def\<close>)
  show "zval s1 q = zval s q" unfolding zval_def using z l by (simp add: zabs_def)
qed

lemma grown_regions:
  assumes "grown L T s r k s1" "r \<in> L" "a \<in> L"
  shows "zd s1 a = zd s1 r \<or> apart (zd s1 r) k (zd s1 a) (zn s a)" "fwd (zd s1 r) (zd s1 a) (zn s a)"
proof -
  have w: "mpz_wf L T s1" "k \<le> za s1 r" using assms(1) by (auto simp: grown_def)
  show "zd s1 a = zd s1 r \<or> apart (zd s1 r) k (zd s1 a) (zn s a)"
    using wf_regions [OF w(1) assms(2,3)] w(2) grown_values(1) [OF assms(1,3)] by (auto simp: apart_def)
  show "fwd (zd s1 r) (zd s1 a) (zn s a)" using wf_fwd [OF w(1) assms(2,3)] grown_values(1) [OF assms(1,3)] by simp
qed

subsection \<open>Updates\<close>

text \<open>
  The contract of an operation with the result \<open>v\<close> in the variable \<open>r\<close>: the invariant holds again, and
  every other variable keeps its value.
\<close>

definition upd :: "nat set \<Rightarrow> nat set \<Rightarrow> mpz_mem \<Rightarrow> nat \<Rightarrow> int \<Rightarrow> mpz_mem \<Rightarrow> bool" where
  "upd L T s r v s' \<longleftrightarrow> mpz_wf L T s' \<and> zval s' r = v \<and> (\<forall>q\<in>L. q \<noteq> r \<longrightarrow> zval s' q = zval s q) \<and> stack s' = stack s"

text \<open>The limbs of \<open>r\<close> are written, and the sign and size \<open>n\<close> have still to be stored, possibly negated.\<close>

definition pending :: "nat set \<Rightarrow> nat set \<Rightarrow> mpz_mem \<Rightarrow> nat \<Rightarrow> int \<Rightarrow> int \<Rightarrow> mpz_mem \<Rightarrow> bool" where
  "pending L T s r n v s' \<longleftrightarrow> upd L T s r v (set_size r n s') \<and> upd L T s r (- v) (set_size r (- n) s') \<and>
     (\<forall>q\<in>L. zs s' q = zs s q)"

lemma set_size_simps [simp]:
  "mp_alloc (objs (set_size r n s) q) = mp_alloc (objs s q)" "zd (set_size r n s) q = zd s q"
  "zs (set_size r n s) q = (if q = r then to_int32 n else zs s q)" "limbs (set_size r n s) = limbs s"
  "blocks (set_size r n s) = blocks s" "brk (set_size r n s) = brk s" "stack (set_size r n s) = stack s"
  by (simp_all add: set_size_def set_obj_def)

lemma owners_cong: "(\<And>q. q \<in> L \<Longrightarrow> mp_alloc (objs s' q) = mp_alloc (objs s q)) \<Longrightarrow> owners L s' = owners L s"
  by (auto simp: owners_def)

lemma store_wf:
  assumes "mpz_wf L T s" "r \<in> L" "same_outside (zd s r) (za s r) (limbs s) m'" "\<bar>n\<bar> \<le> int (za s r)"
    and "n \<noteq> 0 \<Longrightarrow> m' (zd s r + (nat \<bar>n\<bar> - 1)) \<noteq> 0"
  shows "upd L T s r (sgn n * int (lval m' (zd s r) (nat \<bar>n\<bar>))) (set_size r n (s\<lparr>limbs := m'\<rparr>))"
proof -
  let ?s = "set_size r n (s\<lparr>limbs := m'\<rparr>)"
  have o: "obj_ok s r" using assms(1,2) by (rule wf_obj)
  have "\<bar>n\<bar> \<le> INT_MAX" using assms(4) obj_sizes(2) [OF o] by linarith
  then have n: "to_int32 n = n" by (intro to_int32_id) (auto simp: in_int_def)
  have same: "m' (zd s q + i) = limbs s (zd s q + i)" if "q \<in> L" "q \<noteq> r" "i < zn s q" for q i
    using wf_apart [OF assms(1,2) that(1,2)] that obj_sizes(1) [OF wf_obj [OF assms(1) that(1)]] assms(3)
    by (auto simp: apart_def same_outside_def)
  have "obj_ok ?s r" using o assms(4,5) n by (auto simp: obj_ok_def)
  moreover have "obj_ok ?s q" if "q \<in> L" "q \<noteq> r" for q
    using wf_obj [OF assms(1) that(1)] same [OF that, of "zn s q - 1"] that(2) by (auto simp: obj_ok_def)
  moreover have own: "owners L ?s = owners L s" by (rule owners_cong) simp
  moreover have "heap_ok ?s" using assms(1) by (simp add: mpz_wf_def heap_ok_def)
  ultimately have "mpz_wf L T ?s" using assms(1) unfolding mpz_wf_def own by auto
  moreover have "zval ?s q = zval s q" if "q \<in> L" "q \<noteq> r" for q
  proof -
    have "lval m' (zd s q) (zn s q) = lval (limbs s) (zd s q) (zn s q)" by (rule lval_cong) (use same that in blast)
    then show ?thesis using that by (simp add: zval_def zabs_def)
  qed
  ultimately show ?thesis using n by (simp add: upd_def zval_def zabs_def)
qed

lemma finish:
  assumes "grown L T s r k s1" "r \<in> L" "same_outside (zd s1 r) k (limbs s1) m'" "\<bar>n\<bar> \<le> int k"
    and "n \<noteq> 0 \<Longrightarrow> m' (zd s1 r + (nat \<bar>n\<bar> - 1)) \<noteq> 0"
  shows "upd L T s r (sgn n * int (lval m' (zd s1 r) (nat \<bar>n\<bar>))) (set_size r n (s1\<lparr>limbs := m'\<rparr>))"
proof -
  have g: "mpz_wf L T s1" "k \<le> za s1 r" "stack s1 = stack s" using assms(1) by (auto simp: grown_def)
  have "same_outside (zd s1 r) (za s1 r) (limbs s1) m'" using assms(3) g(2) by (auto simp: same_outside_def)
  moreover have "\<bar>n\<bar> \<le> int (za s1 r)" using assms(4) g(2) by linarith
  ultimately have "upd L T s1 r (sgn n * int (lval m' (zd s1 r) (nat \<bar>n\<bar>))) (set_size r n (s1\<lparr>limbs := m'\<rparr>))"
    using store_wf [of L T s1 r m' n] g(1) assms(2,5) by blast
  then show ?thesis using grown_values(3) [OF assms(1)] g(3) by (auto simp: upd_def)
qed

lemma finish_pending:
  assumes "grown L T s r k s1" "r \<in> L" "same_outside (zd s1 r) k (limbs s1) m'" "\<bar>n\<bar> \<le> int k"
    and "n \<noteq> 0 \<Longrightarrow> m' (zd s1 r + (nat \<bar>n\<bar> - 1)) \<noteq> 0" "v = sgn n * int (lval m' (zd s1 r) (nat \<bar>n\<bar>))"
  shows "pending L T s r n v (s1\<lparr>limbs := m'\<rparr>)"
  unfolding pending_def assms(6)
  using finish [OF assms(1-5)] finish [OF assms(1-3), of "- n"] assms(4,5) grown_values(1) [OF assms(1)] by auto

text \<open>Setting a variable to 0 needs no memory.\<close>

lemma set_size_0: "mpz_wf L T s \<Longrightarrow> r \<in> L \<Longrightarrow> upd L T s r 0 (set_size r 0 s)"
  using store_wf [of L T s r "limbs s" 0] by simp

lemma upd_trans: "upd L T s r v s' \<Longrightarrow> upd L T s' r v' s'' \<Longrightarrow> upd L T s r v' s''"
  by (simp add: upd_def)

lemma updD:
  assumes "upd L T s r v s'"
  shows "mpz_wf L T s'" "zval s' r = v" "q \<in> L \<Longrightarrow> zval s' q = (if q = r then v else zval s q)" "stack s' = stack s"
  using assms by (auto simp: upd_def)

subsection \<open>Local variables\<close>

lemma new_var_ok:
  assumes "mpz_wf L T s" "new_var s = (t, s')"
  shows "t \<notin> L" "mpz_wf (insert t L) T (mpz_init t s')" "zval (mpz_init t s') t = 0"
    "q \<in> L \<Longrightarrow> zval (mpz_init t s') q = zval s q" "stack (mpz_init t s') = Suc t" "stack s = t"
proof -
  have t: "t = stack s" "s' = s\<lparr>stack := stack s + 1\<rparr>" using assms(2) by (auto simp: new_var_def)
  show tL: "t \<notin> L" "stack (mpz_init t s') = Suc t" "stack s = t" using assms(1) t by (auto simp: mpz_wf_def mpz_init_def set_obj_def)
  let ?s = "mpz_init t s'"
  have ob: "objs ?s q = (if q = t then \<lparr>mp_alloc = 0, mp_size = 0, mp_d = 0\<rparr> else objs s q)" for q
    by (simp add: mpz_init_def set_obj_def t)
  have st: "limbs ?s = limbs s" "blocks ?s = blocks s" "brk ?s = brk s" by (simp_all add: mpz_init_def set_obj_def t)
  have own: "owners (insert t L) ?s = owners L s" using tL(1) by (auto simp: owners_def ob)
  have same: "q \<in> L \<Longrightarrow> objs ?s q = objs s q" for q using tL(1) by (auto simp: ob)
  have "obj_ok ?s q \<and> q < stack ?s" if "q \<in> insert t L" for q
    using that assms(1) tL by (cases "q = t") (auto simp: obj_ok_def ob st mpz_wf_def less_Suc_eq)
  moreover have "heap_ok ?s" using assms(1) by (simp add: mpz_wf_def heap_ok_def st)
  moreover have "zd ?s q = zd s q" if "q \<in> owners L s" for q using that same by (simp add: owners_def)
  ultimately show "mpz_wf (insert t L) T ?s"
    using assms(1) unfolding mpz_wf_def own st by (simp cong: image_cong inj_on_cong)
  show "zval ?s t = 0" by (simp add: zval_def ob)
  show "q \<in> L \<Longrightarrow> zval ?s q = zval s q" by (simp add: zval_def zabs_def same st)
qed

lemma mpz_clear_ok:
  assumes "mpz_wf (insert t L) T s" "t \<notin> L" "stack s = Suc t"
  shows "\<exists>s'. mpz_clear t s = Inr s' \<and> mpz_wf L T (drop_var s') \<and> (\<forall>q\<in>L. zval (drop_var s') q = zval s q) \<and> stack (drop_var s') = t"
proof -
  have o: "obj_ok s t" using assms(1) by (rule wf_obj) simp
  define s' where "s' = s\<lparr>blocks := (if mp_alloc (objs s t) = 0 then blocks s else (blocks s)(zd s t := None))\<rparr>"
  have "mpz_clear t s = Inr s'" using o by (auto simp: mpz_clear_def gmp_free_def s'_def obj_ok_def)
  have own: "owners (insert t L) s = (if mp_alloc (objs s t) = 0 then owners L s else insert t (owners L s))"
    "owners L (drop_var s') = owners L s" by (auto simp: owners_def s'_def drop_var_def)
  have inj: "inj_on (zd s) (owners (insert t L) s)" using assms(1) by (simp add: mpz_wf_def)
  have bl: "blocks (drop_var s') p = (if mp_alloc (objs s t) \<noteq> 0 \<and> p = zd s t then None else blocks s p)" for p
    by (simp add: s'_def drop_var_def)
  have st: "limbs (drop_var s') = limbs s" "objs (drop_var s') = objs s" "brk (drop_var s') = brk s" "stack (drop_var s') = t"
    using assms(3) by (simp_all add: s'_def drop_var_def)
  have ne: "zd s q \<noteq> zd s t" if "q \<in> owners L s" "mp_alloc (objs s t) \<noteq> 0" for q
    using that inj assms(2) by (auto simp: inj_on_def own owners_def)
  have "heap_ok (drop_var s')" using assms(1) unfolding mpz_wf_def heap_ok_def bl st by auto
  moreover have "obj_ok (drop_var s') q \<and> q < t" if "q \<in> L" for q
  proof -
    have "q < Suc t" "q \<noteq> t" "obj_ok s q" using that assms by (auto simp: mpz_wf_def)
    then show ?thesis using ne [of q] that by (auto simp: obj_ok_def bl st owners_def split: if_splits)
  qed
  moreover have "inj_on (zd s) (owners L s)" using inj own(1) by (auto simp: inj_on_def)
  moreover have "dom (blocks (drop_var s')) = T \<union> zd s ` owners L s \<and> T \<inter> zd s ` owners L s = {}"
  proof -
    have d: "dom (blocks s) = T \<union> zd s ` owners (insert t L) s" "T \<inter> zd s ` owners (insert t L) s = {}"
      using assms(1) by (auto simp: mpz_wf_def)
    have "dom (blocks (drop_var s')) = (if mp_alloc (objs s t) = 0 then dom (blocks s) else dom (blocks s) - {zd s t})"
      by (auto simp: dom_def bl)
    moreover have "zd s t \<notin> T" "zd s t \<notin> zd s ` owners L s" if "mp_alloc (objs s t) \<noteq> 0"
    proof -
      show "zd s t \<notin> T" using that d(2) unfolding own by auto
      show "zd s t \<notin> zd s ` owners L s" 
      proof
        assume "zd s t \<in> zd s ` owners L s"
        then obtain q where "q \<in> owners L s" "zd s q = zd s t" by (metis imageE)
        then show False using ne [OF _ that] by blast
      qed
    qed
    ultimately show ?thesis using d unfolding own by (cases "mp_alloc (objs s t) = 0") simp_all
  qed
  ultimately have "mpz_wf L T (drop_var s')" unfolding mpz_wf_def own(2) st by blast
  then show ?thesis using \<open>mpz_clear t s = Inr s'\<close> st by (auto simp: zval_def zabs_def)
qed

end
