(* ===== verification/Mpz_Basic.thy ===== *)
theory Mpz_Basic
  imports Mpz_Memory
begin

section \<open>Assignment, conversion and comparison of integers\<close>

text \<open>
  The functions of \<open>mini-gmp.c\<close> that assign, convert and compare integers of type \<open>mpz_t\<close>. The values
  of type \<open>long\<close> are integers in the range of that type.
\<close>

subsection \<open>Definitions\<close>

definition GMP_LIMB_HIGHBIT :: u64 where
  "GMP_LIMB_HIGHBIT = push_bit 63 1"

definition GMP_CMP :: "'a::linorder \<Rightarrow> 'a \<Rightarrow> int" where
  "GMP_CMP a b = of_bool (a > b) - of_bool (a < b)"

definition GMP_NEG_CAST :: "int \<Rightarrow> u64" where
  "GMP_NEG_CAST x = - (word_of_int (x + 1) - 1)"

definition mpz_set_ui :: "nat \<Rightarrow> u64 \<Rightarrow> mpz_mem \<Rightarrow> mpz_mem res" where
  "mpz_set_ui r x s =
     (if x > 0 then bindE (MPZ_REALLOC r 1 (set_size r 1 s)) (\<lambda>(rp, s). Inr (put_limb rp x s))
      else Inr (set_size r 0 s))"

definition mpz_set_si :: "nat \<Rightarrow> int \<Rightarrow> mpz_mem \<Rightarrow> mpz_mem res" where
  "mpz_set_si r x s =
     (if x \<ge> 0 then mpz_set_ui r (word_of_int x) s
      else bindE (MPZ_REALLOC r 1 (set_size r (-1) s)) (\<lambda>(rp, s). Inr (put_limb rp (GMP_NEG_CAST x) s)))"

definition mpz_set :: "nat \<Rightarrow> nat \<Rightarrow> mpz_mem \<Rightarrow> mpz_mem res" where
  "mpz_set r x s =
     (if r \<noteq> x then
        let n = zn s x in
        bindE (MPZ_REALLOC r (int n) s) (\<lambda>(rp, s).
        let s = s\<lparr>limbs := mpn_copyi rp (zd s x) n (limbs s)\<rparr> in Inr (set_size r (zs s x) s))
      else Inr s)"

definition mpz_init_set_si :: "nat \<Rightarrow> int \<Rightarrow> mpz_mem \<Rightarrow> mpz_mem res" where
  "mpz_init_set_si r x s = mpz_set_si r x (mpz_init r s)"

definition mpz_init_set_ui :: "nat \<Rightarrow> u64 \<Rightarrow> mpz_mem \<Rightarrow> mpz_mem res" where
  "mpz_init_set_ui r x s = mpz_set_ui r x (mpz_init r s)"

definition mpz_init_set :: "nat \<Rightarrow> nat \<Rightarrow> mpz_mem \<Rightarrow> mpz_mem res" where
  "mpz_init_set r x s = mpz_set r x (mpz_init r s)"

definition mpz_fits_slong_p :: "mpz_mem \<Rightarrow> nat \<Rightarrow> bool" where
  "mpz_fits_slong_p s u =
     (let us = zs s u in
      if us = 1 then limbs s (zd s u) < GMP_LIMB_HIGHBIT
      else if us = -1 then limbs s (zd s u) \<le> GMP_LIMB_HIGHBIT
      else us = 0)"

definition mpz_fits_ulong_p :: "mpz_mem \<Rightarrow> nat \<Rightarrow> bool" where
  "mpz_fits_ulong_p s u = (let us = zs s u in us = of_bool (us > 0))"

definition mpz_get_ui :: "mpz_mem \<Rightarrow> nat \<Rightarrow> u64" where
  "mpz_get_ui s u = (if zs s u = 0 then 0 else limbs s (zd s u))"

definition mpz_get_si :: "mpz_mem \<Rightarrow> nat \<Rightarrow> int" where
  "mpz_get_si s u =
     (if zs s u < 0 then -1 - int (unat ((limbs s (zd s u) - 1) AND NOT GMP_LIMB_HIGHBIT))
      else int (unat (mpz_get_ui s u AND NOT GMP_LIMB_HIGHBIT)))"

definition mpz_size :: "mpz_mem \<Rightarrow> nat \<Rightarrow> nat" where
  "mpz_size s u = zn s u"

definition mpz_getlimbn :: "mpz_mem \<Rightarrow> nat \<Rightarrow> int \<Rightarrow> u64" where
  "mpz_getlimbn s u n = (if n \<ge> 0 \<and> n < \<bar>zs s u\<bar> then limbs s (zd s u + nat n) else 0)"

definition mpz_realloc2 :: "nat \<Rightarrow> u64 \<Rightarrow> mpz_mem \<Rightarrow> mpz_mem res" where
  "mpz_realloc2 x n s = bindE (mpz_realloc x (1 + int (unat ((n - of_bool (n \<noteq> 0)) div 64))) s) (\<lambda>(_, s). Inr s)"

definition mpz_limbs_read :: "mpz_mem \<Rightarrow> nat \<Rightarrow> nat" where
  "mpz_limbs_read s x = zd s x"

definition mpz_limbs_modify :: "nat \<Rightarrow> int \<Rightarrow> mpz_mem \<Rightarrow> (nat \<times> mpz_mem) res" where
  "mpz_limbs_modify x n s = bindE (c_assert (n > 0)) (\<lambda>_. MPZ_REALLOC x n s)"

definition mpz_limbs_write :: "nat \<Rightarrow> int \<Rightarrow> mpz_mem \<Rightarrow> (nat \<times> mpz_mem) res" where
  "mpz_limbs_write x n s = mpz_limbs_modify x n s"

definition mpz_limbs_finish :: "nat \<Rightarrow> int \<Rightarrow> mpz_mem \<Rightarrow> mpz_mem" where
  "mpz_limbs_finish x xs s =
     (let xn = int (mpn_normalized_size (limbs s) (zd s x) (nat \<bar>xs\<bar>)) in set_size x (if xs < 0 then - xn else xn) s)"

definition mpz_roinit_n :: "nat \<Rightarrow> nat \<Rightarrow> int \<Rightarrow> mpz_mem \<Rightarrow> mpz_mem" where
  "mpz_roinit_n x xp xs s = mpz_limbs_finish x xs (set_obj x ((objs s x)\<lparr>mp_alloc := 0, mp_d := xp\<rparr>) s)"

definition mpz_sgn :: "mpz_mem \<Rightarrow> nat \<Rightarrow> int" where
  "mpz_sgn s u = GMP_CMP (zs s u) 0"

definition mpz_cmp_ui :: "mpz_mem \<Rightarrow> nat \<Rightarrow> u64 \<Rightarrow> int" where
  "mpz_cmp_ui s u v =
     (let usize = zs s u in if usize > 1 then 1 else if usize < 0 then -1 else GMP_CMP (mpz_get_ui s u) v)"

definition mpz_cmp_si :: "mpz_mem \<Rightarrow> nat \<Rightarrow> int \<Rightarrow> int" where
  "mpz_cmp_si s u v =
     (let usize = zs s u in
      if usize < -1 then -1
      else if v \<ge> 0 then mpz_cmp_ui s u (word_of_int v)
      else if usize \<ge> 0 then 1
      else GMP_CMP (GMP_NEG_CAST v) (limbs s (zd s u)))"

definition mpz_cmp :: "mpz_mem \<Rightarrow> nat \<Rightarrow> nat \<Rightarrow> int" where
  "mpz_cmp s a b =
     (let asize = zs s a; bsize = zs s b in
      if asize \<noteq> bsize then (if asize < bsize then -1 else 1)
      else if asize \<ge> 0 then mpn_cmp (limbs s) (zd s a) (zd s b) (nat asize)
      else mpn_cmp (limbs s) (zd s b) (zd s a) (nat (- asize)))"

definition mpz_cmpabs_ui :: "mpz_mem \<Rightarrow> nat \<Rightarrow> u64 \<Rightarrow> int" where
  "mpz_cmpabs_ui s u v = (if \<bar>zs s u\<bar> > 1 then 1 else GMP_CMP (mpz_get_ui s u) v)"

definition mpz_cmpabs :: "mpz_mem \<Rightarrow> nat \<Rightarrow> nat \<Rightarrow> int" where
  "mpz_cmpabs s u v = mpn_cmp4 (limbs s) (zd s u) (zn s u) (zd s v) (zn s v)"

definition mpz_abs :: "nat \<Rightarrow> nat \<Rightarrow> mpz_mem \<Rightarrow> mpz_mem res" where
  "mpz_abs r u s = bindE (mpz_set r u s) (\<lambda>s. Inr (set_size r \<bar>zs s r\<bar> s))"

definition mpz_neg :: "nat \<Rightarrow> nat \<Rightarrow> mpz_mem \<Rightarrow> mpz_mem res" where
  "mpz_neg r u s = bindE (mpz_set r u s) (\<lambda>s. Inr (set_size r (- zs s r) s))"

text \<open>The fields are swapped one after the other, through a variable.\<close>

definition mpz_swap :: "nat \<Rightarrow> nat \<Rightarrow> mpz_mem \<Rightarrow> mpz_mem" where
  "mpz_swap u v s =
     (let tmp = zs s u; s = set_size u (zs s v) s; s = set_size v tmp s;
          tmp = mp_alloc (objs s u);
          s = set_obj u ((objs s u)\<lparr>mp_alloc := mp_alloc (objs s v)\<rparr>) s;
          s = set_obj v ((objs s v)\<lparr>mp_alloc := tmp\<rparr>) s;
          tmp = zd s u;
          s = set_obj u ((objs s u)\<lparr>mp_d := zd s v\<rparr>) s
      in set_obj v ((objs s v)\<lparr>mp_d := tmp\<rparr>) s)"

subsection \<open>Assignment\<close>

declare of_nat_unat [simp del]

lemma put_limb_simps [simp]:
  "objs (put_limb a v s) = objs s" "limbs (put_limb a v s) = (limbs s)(a := v)" "blocks (put_limb a v s) = blocks s"
  "brk (put_limb a v s) = brk s" "stack (put_limb a v s) = stack s"
  by (simp_all add: put_limb_def)

lemma alloc_set_obj:
  "gmp_xalloc_limbs k (set_obj r z s) = bindE (gmp_xalloc_limbs k s) (\<lambda>(p, s). Inr (p, set_obj r z s))"
  "gmp_xrealloc_limbs old k (set_obj r z s) = bindE (gmp_xrealloc_limbs old k s) (\<lambda>(p, s). Inr (p, set_obj r z s))"
  by (cases "k > 0"; simp add: gmp_xalloc_limbs_def set_obj_def Let_def)
    (cases "k > 0"; cases "blocks s old"; simp add: gmp_xrealloc_limbs_def set_obj_def Let_def)

lemma alloc_objs:
  "gmp_xalloc_limbs k s = Inr (p, s') \<Longrightarrow> objs s' = objs s"
  "gmp_xrealloc_limbs old k s = Inr (p, s') \<Longrightarrow> objs s' = objs s"
  by (auto simp: gmp_xalloc_limbs_def gmp_xrealloc_limbs_def bindE_Inr_iff Let_def split: option.splits)

lemma MPZ_REALLOC_set_size:
  assumes "\<bar>to_int32 n\<bar> \<le> max k 1"
  shows "MPZ_REALLOC r k (set_size r n s) = bindE (MPZ_REALLOC r k s) (\<lambda>(p, s). Inr (p, set_size r n s))"
proof (cases "k > mp_alloc (objs s r)")
  case True
  define A where "A s = (if mp_alloc (objs s r) \<noteq> 0 then gmp_xrealloc_limbs (zd s r) (max k 1) s else gmp_xalloc_limbs (max k 1) s)"
    for s
  have A: "A (set_size r n s) = bindE (A s) (\<lambda>(p, s'). Inr (p, set_obj r ((objs s r)\<lparr>mp_size := to_int32 n\<rparr>) s'))"
    by (simp add: A_def set_size_def alloc_set_obj) (simp add: set_obj_def)
  have R: "mpz_realloc r k s' = bindE (A s') (\<lambda>(p, s).
      let s = set_obj r ((objs s r)\<lparr>mp_d := p, mp_alloc := to_int32 (max k 1)\<rparr>) s
      in Inr (p, if \<bar>zs s r\<bar> > max k 1 then set_size r 0 s else s))" for s'
    by (simp add: mpz_realloc_def A_def Let_def)
  show ?thesis
  proof (cases "A s")
    case (Inl e)
    then show ?thesis using True by (simp add: MPZ_REALLOC_def R A)
  next
    case (Inr x)
    then obtain p s1 where x: "A s = Inr (p, s1)" by (cases x) auto
    have "objs s1 = objs s" using x by (auto simp: A_def alloc_objs split: if_splits)
    moreover have "A (set_size r n s) = Inr (p, set_obj r ((objs s r)\<lparr>mp_size := to_int32 n\<rparr>) s1)" using A x by simp
    moreover have "MPZ_REALLOC r k s' = mpz_realloc r k s'" if "mp_alloc (objs s' r) = mp_alloc (objs s r)" for s'
      using that True by (simp add: MPZ_REALLOC_def)
    moreover obtain al sz d where "objs s r = \<lparr>mp_alloc = al, mp_size = sz, mp_d = d\<rparr>" by (cases "objs s r")
    ultimately show ?thesis using assms x unfolding R by (auto simp: set_size_def set_obj_def Let_def R)
  qed
next
  case False
  then show ?thesis by (simp add: MPZ_REALLOC_def)
qed

text \<open>One limb.\<close>

lemma set_one_limb:
  assumes "mpz_wf L T s" "r \<in> L" "x \<noteq> 0" "n = 1 \<or> n = -1"
  shows "\<exists>s'. bindE (MPZ_REALLOC r 1 (set_size r n s)) (\<lambda>(rp, s). Inr (put_limb rp x s)) = Inr s' \<and>
    upd L T s r (n * int (unat x)) s'"
proof -
  obtain s1 where g: "MPZ_REALLOC r 1 s = Inr (zd s1 r, s1)" "grown L T s r (nat 1) s1"
    using MPZ_REALLOC_ok [OF assms(1,2), of 1] by auto
  let ?m = "(limbs s1)(zd s1 r := x)"
  have so: "same_outside (zd s1 r) (nat 1) (limbs s1) ?m" by (simp add: same_outside_def)
  have n: "\<bar>n\<bar> \<le> int (nat 1)" "nat \<bar>n\<bar> = 1" "sgn n = n" using assms(4) by auto
  have t: "?m (zd s1 r + (nat \<bar>n\<bar> - 1)) \<noteq> 0" using assms(3) n by simp
  have "\<bar>to_int32 n\<bar> \<le> max 1 1" using assms(4) by (auto simp: to_int32_def)
  from MPZ_REALLOC_set_size [OF this, of r s]
  have "bindE (MPZ_REALLOC r 1 (set_size r n s)) (\<lambda>(rp, s). Inr (put_limb rp x s)) =
      Inr (set_size r n (s1\<lparr>limbs := ?m\<rparr>))"
    using g(1) by (simp add: put_limb_def) (simp add: set_size_def set_obj_def)
  moreover have "sgn n * int (lval ?m (zd s1 r) (nat \<bar>n\<bar>)) = n * int (unat x)" using n by (simp add: lval_def)
  ultimately show ?thesis using finish [OF g(2) assms(2) so n(1) t] by metis
qed

lemma mpz_set_ui_ok:
  assumes "mpz_wf L T s" "r \<in> L"
  shows "\<exists>s'. mpz_set_ui r x s = Inr s' \<and> upd L T s r (int (unat x)) s'"
proof (cases "x = 0")
  case True
  then show ?thesis using set_size_0 [OF assms] by (simp add: mpz_set_ui_def)
next
  case False
  then show ?thesis using set_one_limb [OF assms False, of 1] by (simp add: mpz_set_ui_def unat_eq_0)
qed

lemma GMP_NEG_CAST_value: "- (2 ^ 63) \<le> x \<Longrightarrow> x < 0 \<Longrightarrow> int (unat (GMP_NEG_CAST x)) = - x"
proof -
  assume x: "- (2 ^ 63) \<le> x" "x < 0"
  have "GMP_NEG_CAST x = word_of_int (- x)" by (simp add: GMP_NEG_CAST_def)
  then have "uint (GMP_NEG_CAST x) = take_bit 64 (- x)" by (simp only: uint_word_of_int_eq len_num0 len_bit0 len_num1) simp
  then show ?thesis using x by (simp add: take_bit_int_eq_self of_nat_unat)
qed

lemma word_of_int_value: "0 \<le> x \<Longrightarrow> x < 2 ^ 64 \<Longrightarrow> int (unat (word_of_int x :: u64)) = x"
  by (simp add: uint_word_of_int_eq take_bit_int_eq_self of_nat_unat)

lemma int_unat_less: "int (unat (x :: u64)) < 2 ^ 64"
  using unat64_less [of x] by (metis of_nat_less_iff of_nat_numeral of_nat_power)

lemma mpz_set_si_ok:
  assumes "mpz_wf L T s" "r \<in> L" "- (2 ^ 63) \<le> x" "x < 2 ^ 63"
  shows "\<exists>s'. mpz_set_si r x s = Inr s' \<and> upd L T s r x s'"
proof (cases "x \<ge> 0")
  case True
  then show ?thesis using mpz_set_ui_ok [OF assms(1,2), of "word_of_int x"] word_of_int_value [of x] assms(4)
    by (simp add: mpz_set_si_def)
next
  case False
  then have v: "int (unat (GMP_NEG_CAST x)) = - x" using GMP_NEG_CAST_value assms(3) by simp
  have "GMP_NEG_CAST x \<noteq> 0"
  proof
    assume "GMP_NEG_CAST x = 0"
    then show False using v False by simp
  qed
  from set_one_limb [OF assms(1,2) this, of "-1"] show ?thesis using False v by (simp add: mpz_set_si_def)
qed

lemma mpz_set_ok:
  assumes "mpz_wf L T s" "r \<in> L" "x \<in> L"
  shows "\<exists>s'. mpz_set r x s = Inr s' \<and> upd L T s r (zval s x) s'"
proof (cases "r = x")
  case True
  then show ?thesis using assms by (simp add: mpz_set_def upd_def)
next
  case False
  let ?n = "zn s x"
  have ox: "obj_ok s x" using assms(1,3) by (rule wf_obj)
  obtain s1 where g: "MPZ_REALLOC r (int ?n) s = Inr (zd s1 r, s1)" "grown L T s r (nat (int ?n)) s1"
    using MPZ_REALLOC_ok [OF assms(1,2) obj_sizes(3) [OF ox]] by blast
  note v = grown_values [OF g(2) assms(3)]
  note reg = grown_regions [OF g(2) assms(2,3)]
  let ?m = "mpn_copyi (zd s1 r) (zd s1 x) ?n (limbs s1)"
  have c: "same_outside (zd s1 r) ?n (limbs s1) ?m" "\<forall>j<?n. ?m (zd s1 r + j) = limbs s1 (zd s1 x + j)"
    using mpn_copyi_ok [OF reg(2) order_refl] by blast+
  have "lval ?m (zd s1 r) ?n = zabs s x" using v(2) lval_cong [of ?n ?m "zd s1 r" "limbs s1" "zd s1 x"] c(2) by simp
  moreover have "?m (zd s1 r + (nat \<bar>zs s x\<bar> - 1)) \<noteq> 0" if "zs s x \<noteq> 0"
    using that c(2) obj_top [OF v(4)] v(1) by auto
  ultimately have "upd L T s r (zval s x) (set_size r (zs s x) (s1\<lparr>limbs := ?m\<rparr>))"
    using finish [of L T s r ?n s1 ?m "zs s x"] g(2) assms(2) c(1) by (simp add: zval_def)
  then show ?thesis using False g(1) v(1) by (simp add: mpz_set_def Let_def)
qed

subsection \<open>Sign, absolute value and exchange\<close>

lemma zval_cases: "zval s r = (if 0 < zs s r then int (zabs s r) else if zs s r < 0 then - int (zabs s r) else 0)"
  by (simp add: zval_def)

lemma resize_ok:
  assumes "mpz_wf L T s" "r \<in> L" "n = zs s r \<or> n = - zs s r"
  shows "upd L T s r (sgn n * int (zabs s r)) (set_size r n s)"
proof -
  have o: "obj_ok s r" using assms(1,2) by (rule wf_obj)
  have n: "\<bar>n\<bar> = \<bar>zs s r\<bar>" using assms(3) by auto
  have "\<bar>n\<bar> \<le> int (za s r)" unfolding n using obj_sizes(1) [OF o] by linarith
  moreover have "n \<noteq> 0 \<Longrightarrow> limbs s (zd s r + (nat \<bar>n\<bar> - 1)) \<noteq> 0" unfolding n using o assms(3) by (auto simp: obj_ok_def)
  moreover have "same_outside (zd s r) (za s r) (limbs s) (limbs s)" by simp
  ultimately show ?thesis using store_wf [OF assms(1,2), of "limbs s" n] unfolding n by (simp add: zabs_def)
qed

lemma mpz_abs_ok:
  assumes "mpz_wf L T s" "r \<in> L" "u \<in> L"
  shows "\<exists>s'. mpz_abs r u s = Inr s' \<and> upd L T s r \<bar>zval s u\<bar> s'"
proof -
  obtain s1 where s1: "mpz_set r u s = Inr s1" "upd L T s r (zval s u) s1" using mpz_set_ok [OF assms] by blast
  let ?n = "\<bar>zs s1 r\<bar>"
  have "upd L T s1 r (sgn ?n * int (zabs s1 r)) (set_size r ?n s1)"
    by (rule resize_ok [OF updD(1) [OF s1(2)] assms(2)]) auto
  moreover have "sgn ?n * int (zabs s1 r) = \<bar>zval s u\<bar>" 
  proof -
    have "\<bar>zval s1 r\<bar> = \<bar>zval s u\<bar>" using updD(2) [OF s1(2)] by simp
    then show ?thesis by (cases "zs s1 r = 0") (simp_all add: zval_def [of s1] abs_mult)
  qed
  ultimately show ?thesis using s1 upd_trans by (auto simp: mpz_abs_def)
qed

lemma mpz_neg_ok:
  assumes "mpz_wf L T s" "r \<in> L" "u \<in> L"
  shows "\<exists>s'. mpz_neg r u s = Inr s' \<and> upd L T s r (- zval s u) s'"
proof -
  obtain s1 where s1: "mpz_set r u s = Inr s1" "upd L T s r (zval s u) s1" using mpz_set_ok [OF assms] by blast
  let ?n = "- zs s1 r"
  have "upd L T s1 r (sgn ?n * int (zabs s1 r)) (set_size r ?n s1)"
    by (rule resize_ok [OF updD(1) [OF s1(2)] assms(2)]) auto
  moreover have "sgn ?n * int (zabs s1 r) = - zval s u" using updD(2) [OF s1(2)] by (simp add: zval_def sgn_minus)
  ultimately show ?thesis using s1 upd_trans by (auto simp: mpz_neg_def)
qed

text \<open>The fields of the variables are permuted.\<close>

lemma wf_perm:
  assumes "mpz_wf L T s" "bij_betw f L L" "\<And>q. q \<in> L \<Longrightarrow> objs s' q = objs s (f q)"
    and "limbs s' = limbs s" "brk s' = brk s" "blocks s' = blocks s" "stack s' = stack s"
  shows "mpz_wf L T s'" "q \<in> L \<Longrightarrow> zval s' q = zval s (f q)"
proof -
  have f: "q \<in> L \<Longrightarrow> f q \<in> L" for q using assms(2) by (auto simp: bij_betw_def)
  show "q \<in> L \<Longrightarrow> zval s' q = zval s (f q)" by (simp add: zval_def zabs_def assms)
  have own: "f ` owners L s' = owners L s"
  proof -
    have "f ` owners L s' = f ` {q \<in> L. mp_alloc (objs s (f q)) \<noteq> 0}" using assms(3) by (auto simp: owners_def)
    also have "\<dots> = {p \<in> f ` L. mp_alloc (objs s p) \<noteq> 0}" by auto
    finally show ?thesis using assms(2) by (simp add: owners_def bij_betw_def)
  qed
  have sub: "owners L s' \<subseteq> L" by (auto simp: owners_def)
  have d: "zd s' q = zd s (f q)" if "q \<in> owners L s'" for q using that sub assms(3) by auto
  have "inj_on (zd s') (owners L s') = inj_on (zd s \<circ> f) (owners L s')" by (rule inj_on_cong) (simp add: d)
  moreover have "inj_on (zd s \<circ> f) (owners L s')"
    using assms(1,2) sub own by (intro comp_inj_on) (auto simp: mpz_wf_def bij_betw_def intro: inj_on_subset)
  moreover have "zd s' ` owners L s' = zd s ` owners L s" unfolding own [symmetric] by (force simp: d)
  moreover have "obj_ok s' q \<and> q < stack s'" if "q \<in> L" for q
    using assms(1) that f [OF that] by (auto simp: mpz_wf_def obj_ok_def assms(3-7))
  moreover have "heap_ok s'" using assms(1) by (simp add: mpz_wf_def heap_ok_def assms(4-7))
  ultimately show "mpz_wf L T s'" using assms(1) unfolding mpz_wf_def assms(6) by simp
qed

lemma mpz_swap_ok:
  assumes "mpz_wf L T s" "u \<in> L" "v \<in> L"
  shows "mpz_wf L T (mpz_swap u v s)" "zval (mpz_swap u v s) u = zval s v" "zval (mpz_swap u v s) v = zval s u"
    "q \<in> L \<Longrightarrow> q \<noteq> u \<Longrightarrow> q \<noteq> v \<Longrightarrow> zval (mpz_swap u v s) q = zval s q" "stack (mpz_swap u v s) = stack s"
proof -
  let ?f = "id(u := v, v := u)" and ?s = "mpz_swap u v s"
  have i: "to_int32 (zs s q) = zs s q" if "q \<in> L" for q
    using wf_obj [OF assms(1) that] by (intro to_int32_id) (auto simp: obj_ok_def in_int_def)
  have ob: "objs ?s q = objs s (?f q)" for q
    using i [OF assms(2)] i [OF assms(3)] by (auto simp: mpz_swap_def Let_def set_size_def set_obj_def)
  have st: "limbs ?s = limbs s" "brk ?s = brk s" "blocks ?s = blocks s" "stack ?s = stack s"
    by (simp_all add: mpz_swap_def Let_def set_size_def set_obj_def)
  have "bij_betw ?f L L" unfolding bij_betw_def
  proof
    show "inj_on ?f L" by (auto simp: inj_on_def)
    show "?f ` L = L" using assms(2,3) by (auto simp: image_iff)
  qed
  note w = wf_perm [OF assms(1) this ob st]
  show "mpz_wf L T ?s" by (rule w(1))
  show "zval ?s u = zval s v" "zval ?s v = zval s u" using w(2) [OF assms(2)] w(2) [OF assms(3)] by auto
  show "q \<in> L \<Longrightarrow> q \<noteq> u \<Longrightarrow> q \<noteq> v \<Longrightarrow> zval ?s q = zval s q" using w(2) by simp
  show "stack ?s = stack s" by (rule st)
qed

subsection \<open>Comparison\<close>

lemma size_abs_less: "obj_ok s b \<Longrightarrow> zn s a < zn s b \<Longrightarrow> zabs s a < zabs s b"
proof -
  assume b: "obj_ok s b" "zn s a < zn s b"
  then have "BB ^ zn s a \<le> BB ^ (zn s b - 1)" by (intro power_increasing) (auto simp: Suc_le_eq)
  moreover have "BB ^ (zn s b - 1) \<le> zabs s b" using b by (intro zabs_pos) auto
  ultimately show ?thesis using zabs_less [of s a] by linarith
qed

lemma size_less:
  assumes "obj_ok s a" "obj_ok s b" "zs s a < zs s b"
  shows "zval s a < zval s b"
proof -
  have p: "0 < zabs s r" if "obj_ok s r" "zs s r \<noteq> 0" for r using zabs_0_iff [OF that(1)] that(2) by simp
  consider "zs s a \<ge> 0" | "zs s b \<le> 0" | "zs s a < 0" "zs s b > 0" by linarith
  then show ?thesis
  proof cases
    case 1
    then show ?thesis using assms p [OF assms(2)] size_abs_less [OF assms(2), of a] by (auto simp: zval_cases)
  next
    case 2
    then show ?thesis using assms p [OF assms(1)] size_abs_less [OF assms(1), of b] by (auto simp: zval_cases)
  next
    case 3
    then show ?thesis using p [OF assms(1)] by (auto simp: zval_cases)
  qed
qed

lemma mpz_cmp_ok:
  assumes "obj_ok s a" "obj_ok s b"
  shows "mpz_cmp s a b = sgn (zval s a - zval s b)"
proof (cases "zs s a = zs s b")
  case False
  then show ?thesis using size_less [OF assms] size_less [OF assms(2,1)] by (auto simp: mpz_cmp_def)
next
  case True
  then show ?thesis
    by (cases "zs s a \<ge> 0") (auto simp: mpz_cmp_def mpn_cmp_value zval_cases zabs_def Let_def)
qed

lemma mpz_cmpabs_ok:
  assumes "obj_ok s a" "obj_ok s b"
  shows "mpz_cmpabs s a b = sgn (\<bar>zval s a\<bar> - \<bar>zval s b\<bar>)"
proof -
  have a: "\<bar>zval s r\<bar> = int (zabs s r)" for r by (auto simp: zval_cases zabs_def)
  show ?thesis
    using size_abs_less [OF assms(1), of b] size_abs_less [OF assms(2), of a] unfolding a
    by (cases "zn s a" "zn s b" rule: linorder_cases) (auto simp: mpz_cmpabs_def mpn_cmp4_def mpn_cmp_value zabs_def)
qed

lemma mpz_sgn_ok: "obj_ok s u \<Longrightarrow> mpz_sgn s u = sgn (zval s u)"
  using zabs_0_iff [of s u] by (auto simp: mpz_sgn_def GMP_CMP_def zval_cases)

lemma GMP_CMP_unat: "GMP_CMP x (y :: u64) = sgn (int (unat x) - int (unat y))"
  by (auto simp: GMP_CMP_def word_less_nat_alt not_less)

lemma small_value:
  assumes "obj_ok s u" "\<bar>zs s u\<bar> \<le> 1"
  shows "zval s u = zs s u * int (unat (limbs s (zd s u)))" "int (unat (mpz_get_ui s u)) = \<bar>zval s u\<bar>"
proof -
  consider "zs s u = 0" | "zs s u = 1" | "zs s u = -1" using assms(2) by linarith
  then show "zval s u = zs s u * int (unat (limbs s (zd s u)))" by cases (simp_all add: zval_def zabs_def lval_def)
  moreover have "zs s u \<noteq> 0 \<Longrightarrow> \<bar>zs s u\<bar> = 1" using assms(2) by linarith
  ultimately show "int (unat (mpz_get_ui s u)) = \<bar>zval s u\<bar>" by (cases "zs s u = 0") (simp_all add: mpz_get_ui_def abs_mult)
qed

lemma big_value:
  assumes "obj_ok s u" "\<bar>zs s u\<bar> > 1"
  shows "2 ^ 64 \<le> \<bar>zval s u\<bar>" "0 < zval s u \<longleftrightarrow> 0 < zs s u"
proof -
  have "BB ^ 1 \<le> BB ^ (zn s u - 1)" using assms(2) by (intro power_increasing) (auto simp: Suc_le_eq)
  also have "\<dots> \<le> zabs s u" using assms by (intro zabs_pos) auto
  finally have b: "2 ^ 64 \<le> int (zabs s u)" by (simp add: BB_def)
  then show "2 ^ 64 \<le> \<bar>zval s u\<bar>" "0 < zval s u \<longleftrightarrow> 0 < zs s u" using assms(2) by (auto simp: zval_cases)
qed

lemma mpz_cmpabs_ui_ok:
  assumes "obj_ok s u"
  shows "mpz_cmpabs_ui s u v = sgn (\<bar>zval s u\<bar> - int (unat v))"
proof (cases "\<bar>zs s u\<bar> > 1")
  case True
  moreover have "0 < \<bar>zval s u\<bar> - int (unat v)" using int_unat_less [of v] big_value(1) [OF assms True] by linarith
  ultimately show ?thesis by (simp add: mpz_cmpabs_ui_def)
next
  case False
  then show ?thesis using small_value(2) [OF assms] by (simp add: mpz_cmpabs_ui_def GMP_CMP_unat)
qed

lemma mpz_cmp_ui_ok:
  assumes "obj_ok s u"
  shows "mpz_cmp_ui s u v = sgn (zval s u - int (unat v))"
proof -
  have v: "0 \<le> int (unat v)" "int (unat v) < 2 ^ 64" using int_unat_less by simp_all
  consider "zs s u > 1" | "zs s u < 0" | "0 \<le> zs s u" "\<bar>zs s u\<bar> \<le> 1" by linarith
  then show ?thesis
  proof cases
    case 1
    then have "2 ^ 64 \<le> zval s u" using big_value [OF assms] by auto
    then have "0 < zval s u - int (unat v)" using v by linarith
    then show ?thesis using 1 by (simp add: mpz_cmp_ui_def)
  next
    case 2
    then have "zval s u < 0" using zabs_0_iff [OF assms] by (simp add: zval_cases)
    then show ?thesis using 2 v by (simp add: mpz_cmp_ui_def)
  next
    case 3
    then have "zval s u \<ge> 0" by (simp add: zval_cases)
    then show ?thesis using 3 small_value(2) [OF assms] by (simp add: mpz_cmp_ui_def GMP_CMP_unat)
  qed
qed

lemma mpz_cmp_si_ok:
  assumes "obj_ok s u" "- (2 ^ 63) \<le> v" "v < 2 ^ 63"
  shows "mpz_cmp_si s u v = sgn (zval s u - v)"
proof -
  have p: "zs s u < 0 \<Longrightarrow> zval s u < 0" "zs s u \<ge> 0 \<Longrightarrow> zval s u \<ge> 0" using zabs_0_iff [OF assms(1)] by (auto simp: zval_cases)
  consider "zs s u < -1" | "zs s u \<ge> -1" "v \<ge> 0" | "zs s u \<ge> 0" "v < 0" | "zs s u = -1" "v < 0" by linarith
  then show ?thesis
  proof cases
    case 1
    then show ?thesis using big_value(1) [OF assms(1)] p(1) assms(2) by (simp add: mpz_cmp_si_def)
  next
    case 2
    then have "int (unat (word_of_int v :: u64)) = v" using assms(3) by (intro word_of_int_value) auto
    then show ?thesis using 2 mpz_cmp_ui_ok [OF assms(1), of "word_of_int v"] by (simp add: mpz_cmp_si_def)
  next
    case 3
    then show ?thesis using p(2) by (simp add: mpz_cmp_si_def)
  next
    case 4
    then have "zval s u = - int (unat (limbs s (zd s u)))" using small_value(1) [OF assms(1)] by simp
    moreover have "int (unat (GMP_NEG_CAST v)) = - v" using 4 assms(2) by (intro GMP_NEG_CAST_value) auto
    ultimately have "mpz_cmp_si s u v = sgn (- v + zval s u)" using 4 by (simp add: mpz_cmp_si_def GMP_CMP_unat)
    then show ?thesis by (simp add: add.commute)
  qed
qed

subsection \<open>Conversion\<close>

lemma without_high_bit: "unat (x AND NOT GMP_LIMB_HIGHBIT) = unat x mod 2 ^ 63"
proof -
  have "x AND NOT GMP_LIMB_HIGHBIT = take_bit 63 x"
  proof (rule bit_word_eqI)
    fix i assume i: "i < LENGTH(64)"
    have "bit GMP_LIMB_HIGHBIT i \<longleftrightarrow> i = 63"
      using i unfolding GMP_LIMB_HIGHBIT_def bit_push_bit_iff bit_1_iff by auto
    then show "bit (x AND NOT GMP_LIMB_HIGHBIT) i = bit (take_bit 63 x) i"
      using i by (auto simp: bit_and_iff bit_not_iff bit_take_bit_iff)
  qed
  then have "unat (x AND NOT GMP_LIMB_HIGHBIT) = take_bit 63 (unat x)" by (simp only: unsigned_take_bit_eq)
  then show ?thesis by (simp only: take_bit_eq_mod)
qed

lemma highbit_value: "unat GMP_LIMB_HIGHBIT = 2 ^ 63"
  by (simp add: GMP_LIMB_HIGHBIT_def)

lemma mpz_get_ui_ok: "int (unat (mpz_get_ui s u)) = \<bar>zval s u\<bar> mod 2 ^ 64"
proof (cases "zn s u")
  case 0
  then show ?thesis by (simp add: mpz_get_ui_def zval_def)
next
  case (Suc k)
  have "zabs s u mod BB = unat (limbs s (zd s u))" unfolding zabs_def Suc lval_low by simp
  then have "int (zabs s u) mod int BB = int (unat (limbs s (zd s u)))" by (simp flip: of_nat_mod)
  moreover have "\<bar>zval s u\<bar> = int (zabs s u)" "zs s u \<noteq> 0" using Suc by (auto simp: zval_cases)
  ultimately show ?thesis by (simp add: mpz_get_ui_def BB_def)
qed

lemma mpz_fits_slong_ok:
  assumes "obj_ok s u"
  shows "mpz_fits_slong_p s u \<longleftrightarrow> - (2 ^ 63) \<le> zval s u \<and> zval s u < 2 ^ 63"
proof -
  have big: "\<bar>zs s u\<bar> > 1 \<Longrightarrow> \<not> (- (2 ^ 63) \<le> zval s u \<and> zval s u < 2 ^ 63)" using big_value(1) [OF assms] by auto
  consider "zs s u = 0" | "zs s u = 1" | "zs s u = -1" | "\<bar>zs s u\<bar> > 1" by linarith
  then show ?thesis
    using small_value(1) [OF assms] big
    by cases (auto simp: mpz_fits_slong_p_def word_less_nat_alt word_le_nat_alt highbit_value Let_def)
qed

lemma mpz_fits_ulong_ok:
  assumes "obj_ok s u"
  shows "mpz_fits_ulong_p s u \<longleftrightarrow> 0 \<le> zval s u \<and> zval s u < 2 ^ 64"
proof -
  have neg: "zs s u < 0 \<Longrightarrow> zval s u < 0" using zabs_0_iff [OF assms] by (auto simp: zval_cases)
  consider "zs s u = 0" | "zs s u = 1" | "zs s u < 0" | "zs s u > 1" by linarith
  then show ?thesis
  proof cases
    case 1
    then show ?thesis by (simp add: mpz_fits_ulong_p_def zval_def)
  next
    case 2
    then show ?thesis using small_value(1) [OF assms] int_unat_less [of "limbs s (zd s u)"] by (simp add: mpz_fits_ulong_p_def)
  next
    case 3
    then show ?thesis using neg by (simp add: mpz_fits_ulong_p_def)
  next
    case 4
    then show ?thesis using big_value(1) [OF assms] by (auto simp: mpz_fits_ulong_p_def)
  qed
qed

lemma mpz_get_si_ok:
  assumes "obj_ok s u" "mpz_fits_slong_p s u"
  shows "mpz_get_si s u = zval s u"
proof -
  have f: "- (2 ^ 63) \<le> zval s u" "zval s u < 2 ^ 63" using assms by (simp_all add: mpz_fits_slong_ok)
  then have sz: "\<bar>zs s u\<bar> \<le> 1" using big_value(1) [OF assms(1)] by (cases "\<bar>zs s u\<bar> > 1") auto
  note v = small_value [OF assms(1) sz]
  show ?thesis
  proof (cases "zs s u < 0")
    case True
    let ?x = "limbs s (zd s u)"
    have "zs s u = -1" using True sz by simp
    then have x: "zval s u = - int (unat ?x)" using v(1) by simp
    moreover have "zval s u \<noteq> 0" using True zval_0_iff [OF assms(1)] by simp
    ultimately have "0 < unat ?x" "unat ?x \<le> 2 ^ 63" using f(1) by auto
    then have "unat (?x - 1) = unat ?x - 1" "(unat ?x - 1) mod 2 ^ 63 = unat ?x - 1" by (simp_all add: unat_pred)
    then show ?thesis using True x \<open>0 < unat ?x\<close> by (simp add: mpz_get_si_def without_high_bit of_nat_diff del: unat_gt_0_word)
  next
    case False
    then have "zval s u \<ge> 0" by (simp add: zval_cases)
    then have "int (unat (mpz_get_ui s u)) < int (2 ^ 63)" using v(2) f(2) by simp
    then have "unat (mpz_get_ui s u) < 2 ^ 63" by (simp only: of_nat_less_iff)
    then show ?thesis using False v(2) \<open>zval s u \<ge> 0\<close> by (simp add: mpz_get_si_def without_high_bit)
  qed
qed

end
