(* ===== verification/Mpz_Add.thy ===== *)
theory Mpz_Add
  imports Mpz_Basic
begin

section \<open>Addition and subtraction of integers\<close>

text \<open>
  The functions on absolute values write the limbs of the result and return its size, which may be
  negative after a subtraction; their callers store that size with the sign of the result. Any of the
  arguments may be the same variable, and the memory of the result may be moved before the operands
  are read.
\<close>

subsection \<open>Definitions\<close>

definition gmp_assert_nocarry :: "(u64 \<times> limb_mem) \<Rightarrow> limb_mem res" where
  "gmp_assert_nocarry x = bindE (c_assert (fst x = 0)) (\<lambda>_. Inr (snd x))"

definition mpz_abs_add_ui :: "nat \<Rightarrow> nat \<Rightarrow> u64 \<Rightarrow> mpz_mem \<Rightarrow> (int \<times> mpz_mem) res" where
  "mpz_abs_add_ui r a b s =
     (let an = zn s a in
      if an = 0 then bindE (MPZ_REALLOC r 1 s) (\<lambda>(rp, s). Inr (of_bool (b > 0), put_limb rp b s))
      else
        bindE (MPZ_REALLOC r (int an + 1) s) (\<lambda>(rp, s).
        bindE (mpn_add_1 rp (zd s a) an b (limbs s)) (\<lambda>(cy, m).
        let s = put_limb (rp + an) cy (s\<lparr>limbs := m\<rparr>) in Inr (int an + int (unat cy), s))))"

definition mpz_abs_sub_ui :: "nat \<Rightarrow> nat \<Rightarrow> u64 \<Rightarrow> mpz_mem \<Rightarrow> (int \<times> mpz_mem) res" where
  "mpz_abs_sub_ui r a b s =
     (let an = zn s a in
      if an = 0 then bindE (MPZ_REALLOC r 1 s) (\<lambda>(rp, s). Inr (- of_bool (b > 0), put_limb rp b s))
      else
        bindE (MPZ_REALLOC r (int an) s) (\<lambda>(rp, s).
        if an = 1 \<and> limbs s (zd s a) < b then Inr (-1, put_limb rp (b - limbs s (zd s a)) s)
        else
          bindE (mpn_sub_1 rp (zd s a) an b (limbs s)) (\<lambda>x.
          bindE (gmp_assert_nocarry x) (\<lambda>m.
          Inr (int (mpn_normalized_size m rp an), s\<lparr>limbs := m\<rparr>)))))"

definition mpz_add_ui :: "nat \<Rightarrow> nat \<Rightarrow> u64 \<Rightarrow> mpz_mem \<Rightarrow> mpz_mem res" where
  "mpz_add_ui r a b s =
     (if zs s a \<ge> 0 then bindE (mpz_abs_add_ui r a b s) (\<lambda>(rn, s). Inr (set_size r rn s))
      else bindE (mpz_abs_sub_ui r a b s) (\<lambda>(rn, s). Inr (set_size r (- rn) s)))"

definition mpz_sub_ui :: "nat \<Rightarrow> nat \<Rightarrow> u64 \<Rightarrow> mpz_mem \<Rightarrow> mpz_mem res" where
  "mpz_sub_ui r a b s =
     (if zs s a < 0 then bindE (mpz_abs_add_ui r a b s) (\<lambda>(rn, s). Inr (set_size r (- rn) s))
      else bindE (mpz_abs_sub_ui r a b s) (\<lambda>(rn, s). Inr (set_size r rn s)))"

definition mpz_ui_sub :: "nat \<Rightarrow> u64 \<Rightarrow> nat \<Rightarrow> mpz_mem \<Rightarrow> mpz_mem res" where
  "mpz_ui_sub r a b s =
     (if zs s b < 0 then bindE (mpz_abs_add_ui r b a s) (\<lambda>(rn, s). Inr (set_size r rn s))
      else bindE (mpz_abs_sub_ui r b a s) (\<lambda>(rn, s). Inr (set_size r (- rn) s)))"

definition mpz_abs_add :: "nat \<Rightarrow> nat \<Rightarrow> nat \<Rightarrow> mpz_mem \<Rightarrow> (int \<times> mpz_mem) res" where
  "mpz_abs_add r a b s =
     (let an = zn s a; bn = zn s b;
          (a, b, an, bn) = (if an < bn then (b, a, bn, an) else (a, b, an, bn))
      in bindE (MPZ_REALLOC r (int an + 1) s) (\<lambda>(rp, s).
         bindE (mpn_add rp (zd s a) an (zd s b) bn (limbs s)) (\<lambda>(cy, m).
         let s = put_limb (rp + an) cy (s\<lparr>limbs := m\<rparr>) in Inr (int an + int (unat cy), s))))"

definition mpz_abs_sub :: "nat \<Rightarrow> nat \<Rightarrow> nat \<Rightarrow> mpz_mem \<Rightarrow> (int \<times> mpz_mem) res" where
  "mpz_abs_sub r a b s =
     (let an = zn s a; bn = zn s b; cmp = mpn_cmp4 (limbs s) (zd s a) an (zd s b) bn in
      if cmp > 0 then
        bindE (MPZ_REALLOC r (int an) s) (\<lambda>(rp, s).
        bindE (mpn_sub rp (zd s a) an (zd s b) bn (limbs s)) (\<lambda>x.
        bindE (gmp_assert_nocarry x) (\<lambda>m.
        Inr (int (mpn_normalized_size m rp an), s\<lparr>limbs := m\<rparr>))))
      else if cmp < 0 then
        bindE (MPZ_REALLOC r (int bn) s) (\<lambda>(rp, s).
        bindE (mpn_sub rp (zd s b) bn (zd s a) an (limbs s)) (\<lambda>x.
        bindE (gmp_assert_nocarry x) (\<lambda>m.
        Inr (- int (mpn_normalized_size m rp bn), s\<lparr>limbs := m\<rparr>))))
      else Inr (0, s))"

definition mpz_add :: "nat \<Rightarrow> nat \<Rightarrow> nat \<Rightarrow> mpz_mem \<Rightarrow> mpz_mem res" where
  "mpz_add r a b s =
     bindE (if (zs s a XOR zs s b) \<ge> 0 then mpz_abs_add r a b s else mpz_abs_sub r a b s) (\<lambda>(rn, s).
     Inr (set_size r (if zs s a \<ge> 0 then rn else - rn) s))"

definition mpz_sub :: "nat \<Rightarrow> nat \<Rightarrow> nat \<Rightarrow> mpz_mem \<Rightarrow> mpz_mem res" where
  "mpz_sub r a b s =
     bindE (if (zs s a XOR zs s b) \<ge> 0 then mpz_abs_sub r a b s else mpz_abs_add r a b s) (\<lambda>(rn, s).
     Inr (set_size r (if zs s a \<ge> 0 then rn else - rn) s))"

subsection \<open>Storing a result\<close>

lemma top_limb: "BB ^ k \<le> lval m p (Suc k) \<Longrightarrow> m (p + k) \<noteq> 0"
proof
  assume "BB ^ k \<le> lval m p (Suc k)" "m (p + k) = 0"
  then show False using lval_less [of m p k] by simp
qed

text \<open>A result of \<open>an\<close> limbs and a carry above them.\<close>

lemma carry_pending:
  assumes "grown L T s r (Suc an) s1" "r \<in> L" "same_outside (zd s1 r) an (limbs s1) m1"
    and v: "lval m1 (zd s1 r) an + unat cy * BB ^ an = V" and big: "an \<noteq> 0 \<Longrightarrow> BB ^ (an - 1) \<le> V"
  shows "pending L T s r (int an + of_bool (cy > 0)) (int V) (put_limb (zd s1 r + an) cy (s1\<lparr>limbs := m1\<rparr>))"
proof -
  let ?p = "zd s1 r" and ?m = "m1(zd s1 r + an := cy)" and ?n = "int an + of_bool (cy > 0)"
  have n: "nat \<bar>?n\<bar> = an + of_bool (cy > 0)" "\<bar>?n\<bar> \<le> int (Suc an)" by auto
  have l: "lval ?m ?p an = lval m1 ?p an" by simp
  have val: "lval ?m ?p (an + of_bool (cy > 0)) = V"
    using v l by (cases "cy = 0") (auto simp: unat_eq_0)
  have top: "?m (?p + (nat \<bar>?n\<bar> - 1)) \<noteq> 0" if nz: "?n \<noteq> 0"
  proof (cases "cy = 0")
    case True
    then obtain k where k: "an = Suc k" using nz by (cases an) auto
    have "BB ^ k \<le> lval m1 ?p (Suc k)" using big v True k by simp
    then have "m1 (?p + k) \<noteq> 0" by (rule top_limb)
    then show ?thesis unfolding n(1) using True k by simp
  next
    case False
    then have "cy > 0" by (simp add: word_gt_0 del: unat_gt_0_word)
    then show ?thesis using False n by simp
  qed
  have "same_outside ?p (Suc an) (limbs s1) ?m" by (rule loop_update(1) [OF assms(3)])
  moreover have "int V = sgn ?n * int (lval ?m ?p (nat \<bar>?n\<bar>))"

  proof (cases "?n = 0")
    case True
    then have "an = 0" "\<not> cy > 0" by (auto simp: of_bool_def split: if_splits)
    moreover from this(2) have "cy = 0" by (simp add: word_gt_0 del: unat_gt_0_word)
    ultimately have "an = 0" "cy = 0" by blast+
    then show ?thesis using v by simp
  next
    case False
    moreover have "?n \<ge> 0" by simp
    ultimately have "0 < ?n" by linarith
    then have "sgn ?n = 1" by (rule sgn_pos)
    then show ?thesis unfolding n(1) val by simp
  qed
  ultimately have "pending L T s r ?n (int V) (s1\<lparr>limbs := ?m\<rparr>)"
    using finish_pending [of L T s r "Suc an" s1 ?m ?n "int V"] assms(1,2) n(2) top by blast
  then show ?thesis by (simp add: put_limb_def)
qed

lemma bit_of_bool: "unat (cy :: u64) \<le> 1 \<Longrightarrow> int (unat cy) = of_bool (cy > 0)"
  using bit_cases [of cy] by auto

text \<open>A result of \<open>an\<close> limbs whose highest ones may be zero.\<close>

lemma norm_pending:
  assumes "grown L T s r an s1" "r \<in> L" "same_outside (zd s1 r) an (limbs s1) m1"
    and n: "n = int (mpn_normalized_size m1 (zd s1 r) an)" and V: "lval m1 (zd s1 r) an = V"
  shows "pending L T s r n (int V) (s1\<lparr>limbs := m1\<rparr>)" "pending L T s r (- n) (- int V) (s1\<lparr>limbs := m1\<rparr>)"
proof -
  let ?k = "mpn_normalized_size m1 (zd s1 r) an"
  have k: "?k \<le> an" "lval m1 (zd s1 r) ?k = V" "?k = 0 \<or> m1 (zd s1 r + (?k - 1)) \<noteq> 0"
    using mpn_normalized_size_value [of m1 "zd s1 r" an] V by auto
  have "int V = sgn n * int (lval m1 (zd s1 r) (nat \<bar>n\<bar>))" unfolding n using k(2) by (cases "?k = 0") auto
  moreover have "nat \<bar>n\<bar> = ?k" "\<bar>n\<bar> \<le> int an" using k(1) by (simp_all add: n)
  moreover from this have "n \<noteq> 0 \<Longrightarrow> m1 (zd s1 r + (nat \<bar>n\<bar> - 1)) \<noteq> 0" using k(3) n by auto
  ultimately show p: "pending L T s r n (int V) (s1\<lparr>limbs := m1\<rparr>)"
    using finish_pending [OF assms(1-3), of n "int V"] by blast
  then show "pending L T s r (- n) (- int V) (s1\<lparr>limbs := m1\<rparr>)" by (auto simp: pending_def)
qed

text \<open>One limb.\<close>

lemma limb_pending:
  assumes "grown L T s r k s1" "r \<in> L" "1 \<le> k"
  shows "pending L T s r (of_bool (b > 0)) (int (unat b)) (put_limb (zd s1 r) b s1)"
    "pending L T s r (- of_bool (b > 0)) (- int (unat b)) (put_limb (zd s1 r) b s1)"
proof -
  let ?m = "(limbs s1)(zd s1 r := b)"
  have so: "same_outside (zd s1 r) k (limbs s1) ?m" using assms(3) by (simp add: same_outside_def)
  have "lval ?m (zd s1 r) (Suc 0) = unat b" by simp
  then have v: "int (unat b) = sgn (of_bool (b > 0)) * int (lval ?m (zd s1 r) (nat \<bar>of_bool (b > 0)\<bar>))"
    by (cases "b = 0") (auto simp: unat_eq_0)
  have "pending L T s r (of_bool (b > 0)) (int (unat b)) (s1\<lparr>limbs := ?m\<rparr>)"
    by (rule finish_pending [OF assms(1,2) so _ _ v]) (use assms(3) in \<open>auto simp: unat_eq_0 split: if_splits\<close>)
  then show "pending L T s r (of_bool (b > 0)) (int (unat b)) (put_limb (zd s1 r) b s1)"
    "pending L T s r (- of_bool (b > 0)) (- int (unat b)) (put_limb (zd s1 r) b s1)"
    by (auto simp: pending_def put_limb_def)
qed

subsection \<open>Absolute values\<close>

lemma mpz_abs_add_ui_ok:
  assumes "mpz_wf L T s" "r \<in> L" "a \<in> L" "int (zn s a) < INT_MAX"
  shows "\<exists>rn s'. mpz_abs_add_ui r a b s = Inr (rn, s') \<and> pending L T s r rn (int (zabs s a + unat b)) s'"
proof (cases "zn s a = 0")
  case True
  obtain s1 where g: "MPZ_REALLOC r 1 s = Inr (zd s1 r, s1)" "grown L T s r (nat 1) s1"
    using MPZ_REALLOC_ok [OF assms(1,2), of 1] by auto
  then show ?thesis using limb_pending(1) [OF g(2) assms(2), of b] True by (simp add: mpz_abs_add_ui_def zabs_def)
next
  case False
  let ?n = "zn s a"
  have o: "obj_ok s a" using assms(1,3) by (rule wf_obj)
  have "int ?n + 1 \<le> INT_MAX" using assms(4) by simp
  then obtain s1 where g: "MPZ_REALLOC r (int ?n + 1) s = Inr (zd s1 r, s1)" "grown L T s r (nat (int ?n + 1)) s1"
    using MPZ_REALLOC_ok [OF assms(1,2)] by blast
  have k: "nat (int ?n + 1) = Suc ?n" by simp
  note v = grown_values [OF g(2) assms(3)]
  obtain cy m1 where l: "add_1_loop (zd s1 r) (zd s1 a) b ?n (limbs s1) = (cy, m1)" by fastforce
  have ok: "same_outside (zd s1 r) ?n (limbs s1) m1" "lval m1 (zd s1 r) ?n + unat cy * BB ^ ?n = zabs s a + unat b" "unat cy \<le> 1"
    using add_1_loop_ok [OF grown_regions(2) [OF g(2) assms(2,3)] order_refl l] v(2) False by auto
  have "BB ^ (?n - 1) \<le> zabs s a + unat b" using zabs_pos [OF o] False by auto
  from carry_pending [OF g(2) [unfolded k] assms(2) ok(1,2) this]
  have "pending L T s r (int ?n + int (unat cy)) (int (zabs s a + unat b)) (put_limb (zd s1 r + ?n) cy (s1\<lparr>limbs := m1\<rparr>))"
    unfolding bit_of_bool [OF ok(3)] by simp
  then show ?thesis using False g(1) l by (simp add: mpz_abs_add_ui_def mpn_add_1_def Let_def)
qed

lemma mpz_abs_sub_ui_ok:
  assumes "mpz_wf L T s" "r \<in> L" "a \<in> L"
  shows "\<exists>rn s'. mpz_abs_sub_ui r a b s = Inr (rn, s') \<and> pending L T s r rn (int (zabs s a) - int (unat b)) s'"
proof (cases "zn s a = 0")
  case True
  obtain s1 where g: "MPZ_REALLOC r 1 s = Inr (zd s1 r, s1)" "grown L T s r (nat 1) s1"
    using MPZ_REALLOC_ok [OF assms(1,2), of 1] by auto
  then show ?thesis using limb_pending(2) [OF g(2) assms(2), of b] True by (simp add: mpz_abs_sub_ui_def zabs_def)
next
  case False
  let ?n = "zn s a"
  have o: "obj_ok s a" using assms(1,3) by (rule wf_obj)
  obtain s1 where g: "MPZ_REALLOC r (int ?n) s = Inr (zd s1 r, s1)" "grown L T s r (nat (int ?n)) s1"
    using MPZ_REALLOC_ok [OF assms(1,2) obj_sizes(3) [OF o]] by blast
  have k: "nat (int ?n) = ?n" by simp
  note v = grown_values [OF g(2) assms(3)]
  let ?a0 = "limbs s1 (zd s1 a)"
  show ?thesis
  proof (cases "?n = 1 \<and> ?a0 < b")
    case True
    then have a: "zabs s a = unat ?a0" using v(2) by (simp add: lval_def)
    have "\<not> b < ?a0" using True by (simp add: order_less_imp_not_less)
    then have c: "unat (b - ?a0) + unat ?a0 = unat b" using carryB(3) [of b ?a0] by simp
    have "unat (b - ?a0) \<noteq> 0" using c True by (auto simp: word_less_nat_alt)
    then have "pending L T s r (-1) (- int (unat (b - ?a0))) (put_limb (zd s1 r) (b - ?a0) s1)"
      using limb_pending(2) [OF g(2) assms(2), of "b - ?a0"] True by simp
    moreover have "int (zabs s a) - int (unat b) = - int (unat (b - ?a0))" using c a by linarith
    ultimately have "pending L T s r (-1) (int (zabs s a) - int (unat b)) (put_limb (zd s1 r) (b - ?a0) s1)" by simp
    then show ?thesis using True False g(1) by (simp add: mpz_abs_sub_ui_def Let_def)
  next
    case small: False
    obtain cy m1 where l: "sub_1_loop (zd s1 r) (zd s1 a) b ?n (limbs s1) = (cy, m1)" by fastforce
    have ok: "same_outside (zd s1 r) ?n (limbs s1) m1" "lval m1 (zd s1 r) ?n + unat b = zabs s a + unat cy * BB ^ ?n"
      using sub_1_loop_ok [OF grown_regions(2) [OF g(2) assms(2,3)] order_refl l] v(2) by auto
    have le: "unat b \<le> zabs s a"
    proof (cases "?n = 1")
      case True
      then show ?thesis using small v(2) by (simp add: lval_def word_less_nat_alt not_less)
    next
      case n: False
      have "BB ^ 1 \<le> BB ^ (?n - 1)" using n False by (intro power_increasing) (auto simp: Suc_le_eq)
      then show ?thesis using zabs_pos [OF o] False unat_less_BB [of b] by (simp del: unat_less_BB)
    qed
    have cy: "unat cy = 0"
    proof (rule ccontr)
      assume "unat cy \<noteq> 0"
      then have "1 * BB ^ ?n \<le> unat cy * BB ^ ?n" by (intro mult_le_mono1) simp
      then show False using ok(2) le lval_less [of m1 "zd s1 r" ?n] by linarith
    qed
    then have val: "lval m1 (zd s1 r) ?n = zabs s a - unat b" using ok(2) by simp
    have "pending L T s r (int (mpn_normalized_size m1 (zd s1 r) ?n)) (int (zabs s a) - int (unat b)) (s1\<lparr>limbs := m1\<rparr>)"
      using norm_pending(1) [OF g(2) [unfolded k] assms(2) ok(1) refl val] le by (simp add: of_nat_diff)
    moreover have "cy = 0" using cy by (simp add: unat_eq_0)
    ultimately show ?thesis using small False g(1) l
      by (auto simp: mpz_abs_sub_ui_def mpn_sub_1_def gmp_assert_nocarry_def Let_def)
  qed
qed

lemma mpz_abs_add_ok:
  assumes "mpz_wf L T s" "r \<in> L" "a \<in> L" "b \<in> L" "int (zn s a) < INT_MAX" "int (zn s b) < INT_MAX"
  shows "\<exists>rn s'. mpz_abs_add r a b s = Inr (rn, s') \<and> pending L T s r rn (int (zabs s a + zabs s b)) s'"
proof -
  define x y where "x = (if zn s a < zn s b then b else a)" and "y = (if zn s a < zn s b then a else b)"
  have xy: "x \<in> L" "y \<in> L" "zn s y \<le> zn s x" "zabs s x + zabs s y = zabs s a + zabs s b" "int (zn s x) + 1 \<le> INT_MAX"
    using assms(3-6) by (auto simp: x_def y_def)
  let ?n = "zn s x"
  have o: "obj_ok s x" using assms(1) xy(1) by (rule wf_obj)
  obtain s1 where g: "MPZ_REALLOC r (int ?n + 1) s = Inr (zd s1 r, s1)" "grown L T s r (nat (int ?n + 1)) s1"
    using MPZ_REALLOC_ok [OF assms(1,2) xy(5)] by blast
  have k: "nat (int ?n + 1) = Suc ?n" by simp
  note vx = grown_values [OF g(2) xy(1)] and vy = grown_values [OF g(2) xy(2)]
  obtain cy m1 where l: "mpn_add (zd s1 r) (zd s1 x) ?n (zd s1 y) (zn s y) (limbs s1) = Inr (cy, m1)"
    and ok: "same_outside (zd s1 r) ?n (limbs s1) m1" "unat cy \<le> 1"
      "lval m1 (zd s1 r) ?n + unat cy * BB ^ ?n = zabs s a + zabs s b"
    using mpn_add_ok [OF xy(3) grown_regions(2) [OF g(2) assms(2) xy(1)] grown_regions(2) [OF g(2) assms(2) xy(2)], of "limbs s1"]
    unfolding vx(2) vy(2) xy(4) by blast
  have "?n \<noteq> 0 \<Longrightarrow> BB ^ (?n - 1) \<le> zabs s a + zabs s b" using zabs_pos [OF o] unfolding xy(4) [symmetric] by auto
  from carry_pending [OF g(2) [unfolded k] assms(2) ok(1,3) this]
  have "pending L T s r (int ?n + int (unat cy)) (int (zabs s a + zabs s b)) (put_limb (zd s1 r + ?n) cy (s1\<lparr>limbs := m1\<rparr>))"
    unfolding bit_of_bool [OF ok(2)] by simp
  moreover have "mpz_abs_add r a b s = Inr (int ?n + int (unat cy), put_limb (zd s1 r + ?n) cy (s1\<lparr>limbs := m1\<rparr>))"
  proof -
    have "mpz_abs_add r a b s = bindE (MPZ_REALLOC r (int ?n + 1) s) (\<lambda>(rp, s').
        bindE (mpn_add rp (zd s' x) ?n (zd s' y) (zn s y) (limbs s')) (\<lambda>(cy, m).
        Inr (int ?n + int (unat cy), put_limb (rp + ?n) cy (s'\<lparr>limbs := m\<rparr>))))"
      by (cases "zn s a < zn s b") (simp_all only: mpz_abs_add_def x_def y_def Let_def if_True if_False prod.case)
    then show ?thesis unfolding g(1) by (simp add: l)
  qed
  ultimately show ?thesis by blast
qed

text \<open>The larger absolute value minus the smaller one.\<close>

lemma abs_sub_pending:
  assumes "mpz_wf L T s" "r \<in> L" "a \<in> L" "b \<in> L" "zabs s b < zabs s a"
  shows "\<exists>s1 m. MPZ_REALLOC r (int (zn s a)) s = Inr (zd s1 r, s1) \<and>
    mpn_sub (zd s1 r) (zd s1 a) (zn s a) (zd s1 b) (zn s b) (limbs s1) = Inr (0, m) \<and>
    pending L T s r (int (mpn_normalized_size m (zd s1 r) (zn s a))) (int (zabs s a) - int (zabs s b)) (s1\<lparr>limbs := m\<rparr>) \<and>
    pending L T s r (- int (mpn_normalized_size m (zd s1 r) (zn s a))) (int (zabs s b) - int (zabs s a)) (s1\<lparr>limbs := m\<rparr>)"
proof -
  let ?n = "zn s a"
  have o: "obj_ok s a" "obj_ok s b" using assms(1,3,4) by (auto intro: wf_obj)
  have n: "zn s b \<le> ?n" using size_abs_less [OF o(2), of a] assms(5) by (meson leI order_less_asym)
  obtain s1 where g: "MPZ_REALLOC r (int ?n) s = Inr (zd s1 r, s1)" "grown L T s r (nat (int ?n)) s1"
    using MPZ_REALLOC_ok [OF assms(1,2) obj_sizes(3) [OF o(1)]] by blast
  have k: "nat (int ?n) = ?n" by simp
  note va = grown_values [OF g(2) assms(3)] and vb = grown_values [OF g(2) assms(4)]
  obtain cy m where l: "mpn_sub (zd s1 r) (zd s1 a) ?n (zd s1 b) (zn s b) (limbs s1) = Inr (cy, m)"
    and ok: "same_outside (zd s1 r) ?n (limbs s1) m" "lval m (zd s1 r) ?n + zabs s b = zabs s a + unat cy * BB ^ ?n"
      "unat cy = of_bool (zabs s a < zabs s b)"
    using mpn_sub_ok [OF n grown_regions(2) [OF g(2) assms(2,3)] grown_regions(2) [OF g(2) assms(2,4)], of "limbs s1"]
    unfolding va(2) vb(2) by blast
  have cy: "cy = 0" using ok(3) assms(5) by (simp add: unat_eq_0)
  then have val: "lval m (zd s1 r) ?n = zabs s a - zabs s b" using ok(2) by simp
  show ?thesis
    using norm_pending [OF g(2) [unfolded k] assms(2) ok(1) refl val] assms(5) g(1) l cy by (auto simp: of_nat_diff)
qed

lemma cmp4_sgn: "obj_ok s a \<Longrightarrow> obj_ok s b \<Longrightarrow>
    mpn_cmp4 (limbs s) (zd s a) (zn s a) (zd s b) (zn s b) = sgn (int (zabs s a) - int (zabs s b))"
  using mpz_cmpabs_ok [of s a b] by (simp add: mpz_cmpabs_def zval_def abs_mult zabs_def)

lemma mpz_abs_sub_ok:
  assumes "mpz_wf L T s" "r \<in> L" "a \<in> L" "b \<in> L"
  shows "\<exists>rn s'. mpz_abs_sub r a b s = Inr (rn, s') \<and> pending L T s r rn (int (zabs s a) - int (zabs s b)) s'"
proof -
  have cmp: "mpn_cmp4 (limbs s) (zd s a) (zn s a) (zd s b) (zn s b) = sgn (int (zabs s a) - int (zabs s b))"
    by (rule cmp4_sgn) (use assms wf_obj in blast)+
  consider "zabs s b < zabs s a" | "zabs s a < zabs s b" | "zabs s a = zabs s b" by linarith
  then show ?thesis
  proof cases
    case 1
    obtain s1 m where "MPZ_REALLOC r (int (zn s a)) s = Inr (zd s1 r, s1)"
      "mpn_sub (zd s1 r) (zd s1 a) (zn s a) (zd s1 b) (zn s b) (limbs s1) = Inr (0, m)"
      "pending L T s r (int (mpn_normalized_size m (zd s1 r) (zn s a))) (int (zabs s a) - int (zabs s b)) (s1\<lparr>limbs := m\<rparr>)"
      using abs_sub_pending [OF assms 1] by blast
    then show ?thesis unfolding mpz_abs_sub_def Let_def cmp using 1 by (simp add: gmp_assert_nocarry_def)
  next
    case 2
    obtain s1 m where "MPZ_REALLOC r (int (zn s b)) s = Inr (zd s1 r, s1)"
      "mpn_sub (zd s1 r) (zd s1 b) (zn s b) (zd s1 a) (zn s a) (limbs s1) = Inr (0, m)"
      "pending L T s r (- int (mpn_normalized_size m (zd s1 r) (zn s b))) (int (zabs s a) - int (zabs s b)) (s1\<lparr>limbs := m\<rparr>)"
      using abs_sub_pending [OF assms(1,2,4,3) 2] by blast
    then show ?thesis unfolding mpz_abs_sub_def Let_def cmp using 2 by (simp add: gmp_assert_nocarry_def)
  next
    case 3
    have "pending L T s r 0 0 s" using set_size_0 [OF assms(1,2)] by (simp add: pending_def)
    then show ?thesis unfolding mpz_abs_sub_def Let_def cmp using 3 by simp
  qed
qed

subsection \<open>Addition and subtraction\<close>

lemma pendingD:
  assumes "pending L T s r n v s'"
  shows "upd L T s r v (set_size r n s')" "upd L T s r (- v) (set_size r (- n) s')" "q \<in> L \<Longrightarrow> zs s' q = zs s q"
  using assms by (auto simp: pending_def)

lemma zval_nonneg: "zs s a \<ge> 0 \<Longrightarrow> zval s a = int (zabs s a)" "zs s a < 0 \<Longrightarrow> zval s a = - int (zabs s a)"
  by (auto simp: zval_cases zabs_def)

lemma mpz_add_ui_ok:
  assumes "mpz_wf L T s" "r \<in> L" "a \<in> L" "int (zn s a) < INT_MAX"
  shows "\<exists>s'. mpz_add_ui r a b s = Inr s' \<and> upd L T s r (zval s a + int (unat b)) s'"
proof (cases "zs s a \<ge> 0")
  case True
  obtain n s1 where "mpz_abs_add_ui r a b s = Inr (n, s1)" "pending L T s r n (int (zabs s a + unat b)) s1"
    using mpz_abs_add_ui_ok [OF assms] by blast
  then show ?thesis using True pendingD(1) by (auto simp: mpz_add_ui_def zval_nonneg)
next
  case False
  obtain n s1 where "mpz_abs_sub_ui r a b s = Inr (n, s1)" "pending L T s r n (int (zabs s a) - int (unat b)) s1"
    using mpz_abs_sub_ui_ok [OF assms(1-3)] by blast
  then show ?thesis using False pendingD(2) by (fastforce simp: mpz_add_ui_def zval_nonneg)
qed

lemma mpz_sub_ui_ok:
  assumes "mpz_wf L T s" "r \<in> L" "a \<in> L" "int (zn s a) < INT_MAX"
  shows "\<exists>s'. mpz_sub_ui r a b s = Inr s' \<and> upd L T s r (zval s a - int (unat b)) s'"
proof (cases "zs s a < 0")
  case True
  obtain n s1 where p: "mpz_abs_add_ui r a b s = Inr (n, s1)" "pending L T s r n (int (zabs s a + unat b)) s1"
    using mpz_abs_add_ui_ok [OF assms] by blast
  then show ?thesis using True pendingD(2) [OF p(2)] by (simp add: mpz_sub_ui_def zval_nonneg)
next
  case False
  obtain n s1 where "mpz_abs_sub_ui r a b s = Inr (n, s1)" "pending L T s r n (int (zabs s a) - int (unat b)) s1"
    using mpz_abs_sub_ui_ok [OF assms(1-3)] by blast
  then show ?thesis using False pendingD(1) by (auto simp: mpz_sub_ui_def zval_nonneg)
qed

lemma mpz_ui_sub_ok:
  assumes "mpz_wf L T s" "r \<in> L" "b \<in> L" "int (zn s b) < INT_MAX"
  shows "\<exists>s'. mpz_ui_sub r a b s = Inr s' \<and> upd L T s r (int (unat a) - zval s b) s'"
proof (cases "zs s b < 0")
  case True
  obtain n s1 where p: "mpz_abs_add_ui r b a s = Inr (n, s1)" "pending L T s r n (int (zabs s b + unat a)) s1"
    using mpz_abs_add_ui_ok [OF assms] by blast
  then show ?thesis using True pendingD(1) [OF p(2)] by (simp add: mpz_ui_sub_def zval_nonneg add.commute)
next
  case False
  obtain n s1 where p: "mpz_abs_sub_ui r b a s = Inr (n, s1)" "pending L T s r n (int (zabs s b) - int (unat a)) s1"
    using mpz_abs_sub_ui_ok [OF assms(1-3)] by blast
  then show ?thesis using False pendingD(2) [OF p(2)] by (simp add: mpz_ui_sub_def zval_nonneg)
qed

lemma same_sign: "(zs s a XOR zs s b) \<ge> 0 \<longleftrightarrow> (zs s a \<ge> 0 \<longleftrightarrow> zs s b \<ge> 0)"
  by simp

lemma mpz_add_ok:
  assumes "mpz_wf L T s" "r \<in> L" "a \<in> L" "b \<in> L" "int (zn s a) < INT_MAX" "int (zn s b) < INT_MAX"
  shows "\<exists>s'. mpz_add r a b s = Inr s' \<and> upd L T s r (zval s a + zval s b) s'"
proof -
  define v where "v = (if zs s a \<ge> 0 \<longleftrightarrow> zs s b \<ge> 0 then int (zabs s a + zabs s b) else int (zabs s a) - int (zabs s b))"
  obtain n s1 where p: "(if zs s a \<ge> 0 \<longleftrightarrow> zs s b \<ge> 0 then mpz_abs_add r a b s else mpz_abs_sub r a b s) = Inr (n, s1)"
    "pending L T s r n v s1"
    unfolding v_def using mpz_abs_add_ok [OF assms] mpz_abs_sub_ok [OF assms(1-4)] by (cases "zs s a \<ge> 0 \<longleftrightarrow> zs s b \<ge> 0") auto
  have "zval s a + zval s b = (if zs s a \<ge> 0 then v else - v)" by (auto simp: v_def zval_nonneg not_le)
  then show ?thesis using p(1) pendingD [OF p(2)] assms(3) unfolding mpz_add_def same_sign by auto
qed

lemma mpz_sub_ok:
  assumes "mpz_wf L T s" "r \<in> L" "a \<in> L" "b \<in> L" "int (zn s a) < INT_MAX" "int (zn s b) < INT_MAX"
  shows "\<exists>s'. mpz_sub r a b s = Inr s' \<and> upd L T s r (zval s a - zval s b) s'"
proof -
  define v where "v = (if zs s a \<ge> 0 \<longleftrightarrow> zs s b \<ge> 0 then int (zabs s a) - int (zabs s b) else int (zabs s a + zabs s b))"
  obtain n s1 where p: "(if zs s a \<ge> 0 \<longleftrightarrow> zs s b \<ge> 0 then mpz_abs_sub r a b s else mpz_abs_add r a b s) = Inr (n, s1)"
    "pending L T s r n v s1"
    unfolding v_def using mpz_abs_add_ok [OF assms] mpz_abs_sub_ok [OF assms(1-4)] by (cases "zs s a \<ge> 0 \<longleftrightarrow> zs s b \<ge> 0") auto
  have "zval s a - zval s b = (if zs s a \<ge> 0 then v else - v)" by (auto simp: v_def zval_nonneg not_le)
  then show ?thesis using p(1) pendingD [OF p(2)] assms(3) unfolding mpz_sub_def same_sign by auto
qed

end
