(* ===== verification/Mpz_Mul.thy ===== *)
theory Mpz_Mul
  imports Mpz_Add
begin

section \<open>Multiplication of integers\<close>

text \<open>
  The products of \<open>mini-gmp.c\<close>. The general product is computed in a local variable and exchanged with
  the result, as its limbs must not overlap the operands.
\<close>

subsection \<open>Definitions\<close>

definition mpz_mul_ui :: "nat \<Rightarrow> nat \<Rightarrow> u64 \<Rightarrow> mpz_mem \<Rightarrow> mpz_mem res" where
  "mpz_mul_ui r u v s =
     (let us = zs s u in
      if us = 0 \<or> v = 0 then Inr (set_size r 0 s)
      else
        let un = nat \<bar>us\<bar> in
        bindE (MPZ_REALLOC r (int un + 1) s) (\<lambda>(tp, s).
        bindE (mpn_mul_1 tp (zd s u) un v (limbs s)) (\<lambda>(cy, m).
        let s = put_limb (tp + un) cy (s\<lparr>limbs := m\<rparr>); un = int un + of_bool (cy > 0)
        in Inr (set_size r (if us < 0 then - un else un) s))))"

definition mpz_mul_si :: "nat \<Rightarrow> nat \<Rightarrow> int \<Rightarrow> mpz_mem \<Rightarrow> mpz_mem res" where
  "mpz_mul_si r u v s =
     (if v < 0 then bindE (mpz_mul_ui r u (GMP_NEG_CAST v) s) (mpz_neg r r) else mpz_mul_ui r u (word_of_int v) s)"

definition mpz_mul :: "nat \<Rightarrow> nat \<Rightarrow> nat \<Rightarrow> mpz_mem \<Rightarrow> mpz_mem res" where
  "mpz_mul r u v s =
     (let un = zs s u; vn = zs s v in
      if un = 0 \<or> vn = 0 then Inr (set_size r 0 s)
      else
        let sign = (un XOR vn) < 0; un = nat \<bar>un\<bar>; vn = nat \<bar>vn\<bar>; (t, s) = new_var s in
        bindE (mpz_init2 t (of_nat (un + vn) * 64) s) (\<lambda>s.
        let tp = zd s t in
        bindE (if un \<ge> vn then mpn_mul tp (zd s u) un (zd s v) vn (limbs s) else mpn_mul tp (zd s v) vn (zd s u) un (limbs s))
          (\<lambda>(_, m).
        let s = s\<lparr>limbs := m\<rparr>; rn = int (un + vn) - of_bool (m (tp + (un + vn - 1)) = 0);
            s = mpz_swap r t (set_size t (if sign then - rn else rn) s)
        in bindE (mpz_clear t s) (\<lambda>s. Inr (drop_var s)))))"

definition mpz_mul_2exp :: "nat \<Rightarrow> nat \<Rightarrow> u64 \<Rightarrow> mpz_mem \<Rightarrow> mpz_mem res" where
  "mpz_mul_2exp r u bits s =
     (let un = zn s u in
      if un = 0 then Inr (set_size r 0 s)
      else
        let lim = unat (bits div 64); shift = unat (bits mod 64); rn = un + lim + of_bool (shift > 0) in
        bindE (MPZ_REALLOC r (int rn) s) (\<lambda>(rp, s).
        bindE
          (if shift > 0 then
             bindE (mpn_lshift (rp + lim) (zd s u) un shift (limbs s)) (\<lambda>(cy, m).
             Inr (rn - of_bool (cy = 0), m(rp + (rn - 1) := cy)))
           else Inr (rn, mpn_copyd (rp + lim) (zd s u) un (limbs s))) (\<lambda>(rn, m).
        let s = s\<lparr>limbs := mpn_zero rp lim m\<rparr> in Inr (set_size r (if zs s u < 0 then - int rn else int rn) s))))"

text \<open>A product in a local variable, added to or subtracted from the result.\<close>

definition with_product ::
    "(nat \<Rightarrow> mpz_mem \<Rightarrow> mpz_mem res) \<Rightarrow> (nat \<Rightarrow> mpz_mem \<Rightarrow> mpz_mem res) \<Rightarrow> mpz_mem \<Rightarrow> mpz_mem res" where
  "with_product mul op s =
     (let (t, s) = new_var s; s = mpz_init t s in
      bindE (mul t s) (\<lambda>s.
      bindE (op t s) (\<lambda>s.
      bindE (mpz_clear t s) (\<lambda>s. Inr (drop_var s)))))"

definition mpz_addmul_ui :: "nat \<Rightarrow> nat \<Rightarrow> u64 \<Rightarrow> mpz_mem \<Rightarrow> mpz_mem res" where
  "mpz_addmul_ui r u v = with_product (\<lambda>t. mpz_mul_ui t u v) (\<lambda>t. mpz_add r r t)"

definition mpz_submul_ui :: "nat \<Rightarrow> nat \<Rightarrow> u64 \<Rightarrow> mpz_mem \<Rightarrow> mpz_mem res" where
  "mpz_submul_ui r u v = with_product (\<lambda>t. mpz_mul_ui t u v) (\<lambda>t. mpz_sub r r t)"

definition mpz_addmul :: "nat \<Rightarrow> nat \<Rightarrow> nat \<Rightarrow> mpz_mem \<Rightarrow> mpz_mem res" where
  "mpz_addmul r u v = with_product (\<lambda>t. mpz_mul t u v) (\<lambda>t. mpz_add r r t)"

definition mpz_submul :: "nat \<Rightarrow> nat \<Rightarrow> nat \<Rightarrow> mpz_mem \<Rightarrow> mpz_mem res" where
  "mpz_submul r u v = with_product (\<lambda>t. mpz_mul t u v) (\<lambda>t. mpz_sub r r t)"

subsection \<open>Products by a limb\<close>

lemma mpz_mul_ui_ok:
  assumes "mpz_wf L T s" "r \<in> L" "u \<in> L" "int (zn s u) < INT_MAX"
  shows "\<exists>s'. mpz_mul_ui r u v s = Inr s' \<and> upd L T s r (zval s u * int (unat v)) s'"
proof (cases "zs s u = 0 \<or> v = 0")
  case True
  then show ?thesis using set_size_0 [OF assms(1,2)] by (auto simp: mpz_mul_ui_def zval_def)
next
  case False
  let ?n = "zn s u"
  have o: "obj_ok s u" using assms(1,3) by (rule wf_obj)
  have "int ?n + 1 \<le> INT_MAX" using assms(4) by simp
  then obtain s1 where g: "MPZ_REALLOC r (int ?n + 1) s = Inr (zd s1 r, s1)" "grown L T s r (nat (int ?n + 1)) s1"
    using MPZ_REALLOC_ok [OF assms(1,2)] by blast
  have k: "nat (int ?n + 1) = Suc ?n" by simp
  note w = grown_values [OF g(2) assms(3)]
  obtain cy m1 where l: "mul_1_loop (zd s1 r) (zd s1 u) v ?n (limbs s1) = (cy, m1)" by fastforce
  have ok: "same_outside (zd s1 r) ?n (limbs s1) m1" "lval m1 (zd s1 r) ?n + unat cy * BB ^ ?n = zabs s u * unat v"
    using mul_1_loop_ok [OF grown_regions(2) [OF g(2) assms(2,3)] order_refl l] w(2) by auto
  have "1 \<le> unat v" using False unat_eq_0 [of v] by linarith
  then have "zabs s u * 1 \<le> zabs s u * unat v" by (rule mult_le_mono2)
  moreover have "BB ^ (?n - 1) \<le> zabs s u" using zabs_pos [OF o] False by blast
  ultimately have "BB ^ (?n - 1) \<le> zabs s u * unat v" by linarith
  from carry_pending [OF g(2) [unfolded k] assms(2) ok this]
  have p: "pending L T s r (int ?n + of_bool (cy > 0)) (int (zabs s u * unat v)) (put_limb (zd s1 r + ?n) cy (s1\<lparr>limbs := m1\<rparr>))" .
  have e: "mpz_mul_ui r u v s =
      Inr (set_size r (if zs s u < 0 then - (int ?n + of_bool (cy > 0)) else int ?n + of_bool (cy > 0))
        (put_limb (zd s1 r + ?n) cy (s1\<lparr>limbs := m1\<rparr>)))"
  proof -
    have "?n \<ge> 1" using False by linarith
    from c_assert_simps(1) [OF this] have "mpn_mul_1 (zd s1 r) (zd s1 u) ?n v (limbs s1) = Inr (cy, m1)"
      using l by (simp add: mpn_mul_1_def)
    then show ?thesis by (simp only: mpz_mul_ui_def Let_def g(1) False if_False bindE_simps prod.case)
  qed
  show ?thesis unfolding e using pendingD [OF p] by (cases "zs s u < 0") (simp_all add: zval_nonneg)
qed

lemma mpz_mul_si_ok:
  assumes "mpz_wf L T s" "r \<in> L" "u \<in> L" "int (zn s u) < INT_MAX" "- (2 ^ 63) \<le> v" "v < 2 ^ 63"
  shows "\<exists>s'. mpz_mul_si r u v s = Inr s' \<and> upd L T s r (zval s u * v) s'"
proof (cases "v < 0")
  case True
  obtain s1 where s1: "mpz_mul_ui r u (GMP_NEG_CAST v) s = Inr s1" "upd L T s r (zval s u * - v) s1"
    using mpz_mul_ui_ok [OF assms(1-4), of "GMP_NEG_CAST v"] GMP_NEG_CAST_value [OF assms(5) True] by auto
  obtain s2 where "mpz_neg r r s1 = Inr s2" "upd L T s1 r (- zval s1 r) s2"
    using mpz_neg_ok [OF updD(1) [OF s1(2)] assms(2,2)] by blast
  then show ?thesis using True s1 upd_trans [OF s1(2)] updD(2) [OF s1(2)] by (simp add: mpz_mul_si_def)
next
  case False
  then show ?thesis using mpz_mul_ui_ok [OF assms(1-4), of "word_of_int v"] word_of_int_value [of v] assms(6) by (simp add: mpz_mul_si_def)
qed

subsection \<open>The general product\<close>

lemma mpz_init2_ok:
  assumes "mpz_wf L T s" "new_var s = (t, s')" "0 < k" "int k \<le> INT_MAX"
  shows "\<exists>s2. mpz_init2 t (of_nat k * 64) s' = Inr s2 \<and> grown (insert t L) T (mpz_init t s') t k s2"
proof -
  let ?s = "mpz_init t s'"
  note n = new_var_ok [OF assms(1,2)]
  have u: "unat (of_nat k * 64 :: u64) = k * 64"
    using assms(4) by (simp add: unat_word_ariths unat_of_nat)
  have nz: "of_nat k * 64 \<noteq> (0 :: u64)" using u assms(3) by (metis mult_eq_0_iff nat_less_le unat_0 zero_neq_numeral)
  then have "unat (of_nat k * 64 - 1 :: u64) = k * 64 - 1" using u assms(3) by (subst unat_pred) (auto simp: u)
  then have "1 + int (unat ((of_nat k * 64 - of_bool (of_nat k * 64 \<noteq> (0 :: u64))) div 64 :: u64)) = int k"
    using nz assms(3) by (simp add: unat_div of_nat_div)
  moreover define s2 where "s2 = ?s\<lparr>brk := brk ?s + k, limbs := limbs ?s,
      objs := (objs ?s)(t := (objs ?s t)\<lparr>mp_d := brk ?s, mp_alloc := int k\<rparr>),
      blocks := (if mp_alloc (objs ?s t) = 0 then blocks ?s else (blocks ?s)(zd ?s t := None))(brk ?s \<mapsto> k)\<rparr>"
  moreover have "in_int (int k)" using assms(4) by (simp add: in_int_def)
  ultimately have "mpz_init2 t (of_nat k * 64) s' = Inr s2"
    using assms(3) by (simp add: mpz_init2_def Let_def gmp_xalloc_limbs_def set_obj_def mpz_init_def)
  moreover have "grown (insert t L) T ?s t k s2"
    by (rule wf_moved [OF n(2) _ _ assms(3,4) _ _ s2_def]) (simp_all add: mpz_init_def set_obj_def)
  ultimately show ?thesis by blast
qed

text \<open>The result is in the local variable: it is exchanged with \<open>r\<close>, and the local variable is cleared.\<close>

lemma swap_clear_ok:
  assumes "mpz_wf (insert t L) T s" "t \<notin> L" "stack s = Suc t" "r \<in> L"
  shows "\<exists>s'. mpz_clear t (mpz_swap r t s) = Inr s' \<and> mpz_wf L T (drop_var s') \<and> zval (drop_var s') r = zval s t \<and>
    (\<forall>q\<in>L. q \<noteq> r \<longrightarrow> zval (drop_var s') q = zval s q) \<and> stack (drop_var s') = t"
proof -
  note w = mpz_swap_ok [OF assms(1), of r t]
  have "r \<in> insert t L" "t \<in> insert t L" "r \<noteq> t" using assms(2,4) by auto
  then show ?thesis
    using mpz_clear_ok [OF w(1) assms(2)] w assms by auto (metis)
qed

lemma product_size:
  assumes "obj_ok s u" "obj_ok s v" "zs s u \<noteq> 0" "zs s v \<noteq> 0"
  shows "BB ^ (zn s u + zn s v - 2) \<le> zabs s u * zabs s v"
proof -
  have "BB ^ (zn s u - 1) * BB ^ (zn s v - 1) \<le> zabs s u * zabs s v"
    by (intro mult_le_mono zabs_pos assms)
  moreover have "zn s u - 1 + (zn s v - 1) = zn s u + zn s v - 2" using assms(3,4) by linarith
  ultimately show ?thesis by (simp only: power_add [symmetric])
qed

lemma mpz_mul_ok:
  assumes "mpz_wf L T s" "r \<in> L" "u \<in> L" "v \<in> L" "int (zn s u + zn s v) \<le> INT_MAX"
  shows "\<exists>s'. mpz_mul r u v s = Inr s' \<and> upd L T s r (zval s u * zval s v) s'"
proof (cases "zs s u = 0 \<or> zs s v = 0")
  case True
  then show ?thesis using set_size_0 [OF assms(1,2)] by (auto simp: mpz_mul_def Let_def zval_def)
next
  case False
  let ?u = "zn s u" and ?v = "zn s v"
  obtain t s0 where t: "new_var s = (t, s0)" by fastforce
  note n = new_var_ok [OF assms(1) t]
  have o: "obj_ok s u" "obj_ok s v" using assms(1,3,4) by (auto intro: wf_obj)
  have pos: "0 < ?u + ?v" "1 \<le> ?u" "1 \<le> ?v" using False by auto
  obtain s2 where s2: "mpz_init2 t (of_nat (?u + ?v) * 64) s0 = Inr s2" "grown (insert t L) T (mpz_init t s0) t (?u + ?v) s2"
    using mpz_init2_ok [OF assms(1) t pos(1) assms(5)] by blast
  have w2: "mpz_wf (insert t L) T s2" "?u + ?v \<le> za s2 t" "stack s2 = Suc t" using s2(2) n(5) by (auto simp: grown_def)
  have same: "objs (mpz_init t s0) q = objs s q" "limbs (mpz_init t s0) = limbs s" if "q \<in> L" for q
    using that n(1) t by (auto simp: mpz_init_def set_obj_def new_var_def)
  have val: "zs s2 q = zs s q" "lval (limbs s2) (zd s2 q) (zn s q) = zabs s q" "apart (zd s2 t) (?u + ?v) (zd s2 q) (zn s q)"
    if "q \<in> L" for q
  proof -
    have q: "q \<in> insert t L" "q \<noteq> t" using that n(1) by auto
    show z: "zs s2 q = zs s q" and "lval (limbs s2) (zd s2 q) (zn s q) = zabs s q"
      using grown_values(1,2) [OF s2(2) q(1)] same [OF that] by (simp_all add: zabs_def)
    show "apart (zd s2 t) (?u + ?v) (zd s2 q) (zn s q)"
      using wf_apart [OF w2(1) _ q] w2(2) obj_sizes(1) [OF wf_obj [OF w2(1) q(1)]] z by (auto simp: apart_def)
  qed
  let ?tp = "zd s2 t" and ?N = "?u + ?v"
  define mul where "mul = (if ?u \<ge> ?v then mpn_mul ?tp (zd s2 u) ?u (zd s2 v) ?v (limbs s2) else mpn_mul ?tp (zd s2 v) ?v (zd s2 u) ?u (limbs s2))"
  obtain cy m where m: "mul = Inr (cy, m)" "same_outside ?tp ?N (limbs s2) m" "lval m ?tp ?N = zabs s u * zabs s v"
  proof (cases "?u \<ge> ?v")
    case True
    then show ?thesis using that mpn_mul_ok [OF pos(3) True, of ?tp "zd s2 u" "zd s2 v" "limbs s2"] val assms(3,4)
      by (auto simp: mul_def)
  next
    case F: False
    then show ?thesis using that mpn_mul_ok [OF pos(2), of ?v ?tp "zd s2 v" "zd s2 u" "limbs s2"] val assms(3,4)
      by (auto simp: mul_def add.commute mult.commute)
  qed
  define rn where "rn = int ?N - of_bool (m (?tp + (?N - 1)) = 0)"
  define sg where "sg = (if (zs s u XOR zs s v) < 0 then - rn else rn)"
  obtain k where k: "?N = Suc (Suc k)" using pos by (cases ?N; cases "?N - 1") auto
  have top: "m (?tp + (nat rn - 1)) \<noteq> 0 \<and> lval m ?tp (nat rn) = zabs s u * zabs s v \<and> 0 < rn"
  proof (cases "m (?tp + (?N - 1)) = 0")
    case True
    then have l: "lval m ?tp (Suc k) = zabs s u * zabs s v" using m(3) k by simp
    have "BB ^ k \<le> lval m ?tp (Suc k)" unfolding l using product_size [OF o] False k by auto
    then have "m (?tp + k) \<noteq> 0" by (rule top_limb)
    moreover have "rn = int (Suc k)" using True k by (simp add: rn_def)
    ultimately show ?thesis using l by (simp only: nat_int diff_Suc_1) simp
  next
    case F: False
    then have "rn = int (Suc (Suc k))" using k by (simp add: rn_def)
    then show ?thesis using F m(3) k by (simp only: nat_int diff_Suc_1) simp
  qed
  have sg: "nat \<bar>sg\<bar> = nat rn" "\<bar>sg\<bar> \<le> int ?N" "sgn sg = sgn (zs s u) * sgn (zs s v)"
    using top False by (auto simp: sg_def rn_def sgn_if)
  have fin: "upd (insert t L) T (mpz_init t s0) t (sgn sg * int (lval m ?tp (nat \<bar>sg\<bar>))) (set_size t sg (s2\<lparr>limbs := m\<rparr>))"
    by (rule finish [OF s2(2) insertI1 m(2) sg(2)]) (use top in \<open>simp only: sg(1) simp_thms\<close>)
  let ?s3 = "set_size t sg (s2\<lparr>limbs := m\<rparr>)"
  have v3: "zval ?s3 t = zval s u * zval s v" "\<forall>q\<in>L. zval ?s3 q = zval s q" "mpz_wf (insert t L) T ?s3" "stack ?s3 = Suc t"
    using updD [OF fin] n top unfolding sg by (auto simp: zval_def [of s])
  obtain s4 where s4: "mpz_clear t (mpz_swap r t ?s3) = Inr s4" "mpz_wf L T (drop_var s4)" "zval (drop_var s4) r = zval ?s3 t"
    "\<forall>q\<in>L. q \<noteq> r \<longrightarrow> zval (drop_var s4) q = zval ?s3 q" "stack (drop_var s4) = t"
    using swap_clear_ok [OF v3(3) n(1) v3(4) assms(2)] by blast
  have "mpz_mul r u v s = Inr (drop_var s4)"
    unfolding mpz_mul_def Let_def t prod.case using False s2(1) m(1) s4(1) unfolding mul_def sg_def rn_def by simp
  moreover have "upd L T s r (zval s u * zval s v) (drop_var s4)" using s4 v3 n(6) by (simp add: upd_def)
  ultimately show ?thesis by blast
qed

subsection \<open>Products by a power of two\<close>

text \<open>The limbs from \<open>lim\<close> on hold a number, and the limbs below are set to zero.\<close>

lemma zero_below:
  assumes "same_outside (rp + lim) k m0 m"
  shows "same_outside rp (lim + k) m0 (mpn_zero rp lim m)" "lval (mpn_zero rp lim m) rp (lim + j) = BB ^ lim * lval m (rp + lim) j"
    "mpn_zero rp lim m (rp + lim + i) = m (rp + lim + i)"
proof -
  have z: "same_outside rp lim m (mpn_zero rp lim m)" "\<forall>j<lim. mpn_zero rp lim m (rp + j) = 0" using mpn_zero_ok by blast+
  show "same_outside rp (lim + k) m0 (mpn_zero rp lim m)" using assms z(1) by (auto simp: same_outside_def)
  show "mpn_zero rp lim m (rp + lim + i) = m (rp + lim + i)" using z(1) by (auto simp: same_outside_def)
  have "lval (mpn_zero rp lim m) rp lim = 0" using z(2) by (simp add: lval_def)
  moreover have "lval (mpn_zero rp lim m) (rp + lim) j = lval m (rp + lim) j" by (rule lval_outside [OF z(1)]) simp
  ultimately show "lval (mpn_zero rp lim m) rp (lim + j) = BB ^ lim * lval m (rp + lim) j" by (simp add: lval_split)
qed

lemma mpz_mul_2exp_ok:
  assumes "mpz_wf L T s" "r \<in> L" "u \<in> L" "int (zn s u) + int (unat bits div 64) < INT_MAX"
  shows "\<exists>s'. mpz_mul_2exp r u bits s = Inr s' \<and> upd L T s r (zval s u * 2 ^ unat bits) s'"
proof (cases "zn s u = 0")
  case True
  then show ?thesis using set_size_0 [OF assms(1,2)] by (simp add: mpz_mul_2exp_def zval_def)
next
  case False
  define lim shift un where "lim = unat bits div 64" and "shift = unat bits mod 64" and "un = zn s u"
  define rn where "rn = un + lim + of_bool (shift > 0)"
  have o: "obj_ok s u" using assms(1,3) by (rule wf_obj)
  have un: "1 \<le> un" "BB ^ (un - 1) \<le> zabs s u" using False zabs_pos [OF o] by (auto simp: un_def)
  have "int rn \<le> INT_MAX" using assms(4) by (auto simp: rn_def lim_def un_def)
  then obtain s1 where g: "MPZ_REALLOC r (int rn) s = Inr (zd s1 r, s1)" "grown L T s r (nat (int rn)) s1"
    using MPZ_REALLOC_ok [OF assms(1,2)] by blast
  let ?p = "zd s1 r" and ?u = "zd s1 u" and ?m = "limbs s1"
  note w = grown_values [OF g(2) assms(3)]
  have b: "bwd (?p + lim) ?u un"
  proof -
    have "lim + un \<le> rn" by (simp add: rn_def)
    then show ?thesis using grown_regions(1) [OF g(2) assms(2,3)] unfolding nat_int un_def [symmetric] by (auto simp: bwd_def apart_def)
  qed
  have pw: "BB ^ lim * 2 ^ shift = 2 ^ unat bits"
  proof -
    have "unat bits = 64 * lim + shift" by (simp add: lim_def shift_def)
    then show ?thesis by (simp only: BB_def power_add power_mult)
  qed
  define step where "step = (if shift > 0 then
       bindE (mpn_lshift (?p + lim) ?u un shift ?m) (\<lambda>(cy, m). Inr (rn - of_bool (cy = 0), m(?p + (rn - 1) := cy)))
     else Inr (rn, mpn_copyd (?p + lim) ?u un ?m))"
  obtain n m where m: "step = Inr (lim + n, m)" "same_outside (?p + lim) (rn - lim) ?m m"
    "lval m (?p + lim) n = zabs s u * 2 ^ shift" "lim + n \<le> rn" "n = un \<or> n = Suc un \<and> m (?p + lim + un) \<noteq> 0"
  proof (cases "shift > 0")
    case True
    have "shift < 64" by (simp add: shift_def)
    then obtain cy m1 where l: "mpn_lshift (?p + lim) ?u un shift ?m = Inr (cy, m1)" "same_outside (?p + lim) un ?m m1"
      "lval m1 (?p + lim) un + unat cy * BB ^ un = zabs s u * 2 ^ shift"
      using mpn_lshift_ok [OF un(1) _ _ b, of shift ?m] True w(2) by (auto simp: un_def)
    have rn: "rn - 1 = lim + un" "rn - lim = Suc un" using True by (simp_all add: rn_def)
    let ?m2 = "m1(?p + lim + un := cy)"
    have st: "step = Inr (rn - of_bool (cy = 0), ?m2)" using True l(1) rn by (simp add: step_def add.assoc)
    have so: "same_outside (?p + lim) (rn - lim) ?m ?m2" unfolding rn by (rule loop_update(1) [OF l(2)])
    show ?thesis
    proof (cases "cy = 0")
      case c: True
      show ?thesis by (rule that [of un ?m2]) (use st so l(3) c True in \<open>simp_all add: rn_def\<close>)
    next
      case c: False
      show ?thesis by (rule that [of "Suc un" ?m2]) (use st so l(3) c True in \<open>simp_all add: rn_def\<close>)
    qed
  next
    case False
    let ?m2 = "mpn_copyd (?p + lim) ?u un ?m"
    have c: "same_outside (?p + lim) un ?m ?m2" "\<forall>j<un. ?m2 (?p + lim + j) = ?m (?u + j)" using mpn_copyd_ok [OF b] by blast+
    have "lval ?m2 (?p + lim) un = zabs s u" using lval_cong [of un ?m2 "?p + lim" ?m ?u] c(2) w(2) by (simp add: un_def)
    then show ?thesis using that [of un ?m2] c(1) False by (simp add: step_def rn_def add.commute)
  qed
  let ?m3 = "mpn_zero ?p lim m" and ?n = "int (lim + n)"
  note z = zero_below [OF m(2)]
  have val: "lval ?m3 ?p (lim + n) = zabs s u * 2 ^ unat bits" unfolding z(2) m(3) pw [symmetric] by (simp add: mult.left_commute)
  have n1: "1 \<le> n" using m(5) un(1) by auto
  have top: "?m3 (?p + (lim + n - 1)) \<noteq> 0"
  proof -
    obtain j where j: "n = Suc j" using n1 by (cases n) auto
    have "BB ^ j \<le> lval m (?p + lim) (Suc j)" if "n = un"
    proof -
      have "zabs s u * 1 \<le> zabs s u * 2 ^ shift" by (intro mult_le_mono2) simp
      moreover have "BB ^ j \<le> zabs s u" using un(2) unfolding that [symmetric] j diff_Suc_1 .
      ultimately show ?thesis using m(3) unfolding j by linarith
    qed
    then have "m (?p + lim + j) \<noteq> 0" using m(5) j top_limb by auto
    then show ?thesis using z(3) [of j] j by (simp add: add.assoc)
  qed
  have so: "same_outside ?p (nat (int rn)) ?m ?m3" using z(1) m(4) by simp
  have fin: "upd L T s r (sgn x * int (zabs s u * 2 ^ unat bits)) (set_size r x (s1\<lparr>limbs := ?m3\<rparr>))" if "x = ?n \<or> x = - ?n" for x
  proof -
    have x: "nat \<bar>x\<bar> = lim + n" "\<bar>x\<bar> \<le> int (nat (int rn))" using that m(4) by auto
    show ?thesis using finish [OF g(2) assms(2) so x(2)] top unfolding x(1) val by blast
  qed
  have "mpz_mul_2exp r u bits s = Inr (set_size r (if zs s u < 0 then - ?n else ?n) (s1\<lparr>limbs := ?m3\<rparr>))"
  proof -
    have "unat (bits div 64) = lim" "unat (bits mod 64) = shift" by (simp_all add: lim_def shift_def unat_div unat_mod)
    then have "mpz_mul_2exp r u bits s = bindE step (\<lambda>(rn, m).
        let s = s1\<lparr>limbs := mpn_zero ?p lim m\<rparr> in Inr (set_size r (if zs s u < 0 then - int rn else int rn) s))"
      using False g(1) unfolding mpz_mul_2exp_def Let_def by (simp add: step_def rn_def un_def)
    then show ?thesis using m(1) w(1) by (simp add: Let_def)
  qed
  moreover have "sgn (if zs s u < 0 then - ?n else ?n) * int (zabs s u * 2 ^ unat bits) = zval s u * 2 ^ unat bits"
    using n1 False by (auto simp: zval_cases)
  moreover have "upd L T s r (sgn (if zs s u < 0 then - ?n else ?n) * int (zabs s u * 2 ^ unat bits))
      (set_size r (if zs s u < 0 then - ?n else ?n) (s1\<lparr>limbs := ?m3\<rparr>))"
    by (rule fin) simp
  ultimately show ?thesis by metis
qed

subsection \<open>Sums of products\<close>

text \<open>
  The sizes have type \<open>int\<close>, so an integer must have less than \<open>max_limbs\<close> limbs. The bound is stated
  for values, as the size of a result follows from its value.
\<close>

definition max_limbs :: nat where
  "max_limbs = 2147483646"

definition int_fits :: "int \<Rightarrow> bool" where
  "int_fits v \<longleftrightarrow> \<bar>v\<bar> < int (BB ^ (max_limbs - 1))"

lemma fits_size: "obj_ok s r \<Longrightarrow> int_fits (zval s r) \<Longrightarrow> zn s r < max_limbs"
proof (rule ccontr)
  assume o: "obj_ok s r" "int_fits (zval s r)" "\<not> zn s r < max_limbs"
  then have "BB ^ (max_limbs - 1) \<le> BB ^ (zn s r - 1)" by (intro power_increasing) (auto simp: Suc_le_eq)
  also have "\<dots> \<le> zabs s r" using o by (intro zabs_pos) (auto simp: max_limbs_def)
  finally have "int (BB ^ (max_limbs - 1)) \<le> int (zabs s r)" by (rule of_nat_mono)
  moreover have "\<bar>zval s r\<bar> = int (zabs s r)" by (auto simp: zval_cases zabs_def)
  ultimately show False using o(2) unfolding int_fits_def by linarith
qed

lemma fits_size_int: "obj_ok s r \<Longrightarrow> int_fits (zval s r) \<Longrightarrow> int (zn s r) < INT_MAX"
  using fits_size [of s r] by (simp add: max_limbs_def)

lemma fits_product:
  assumes "obj_ok s u" "obj_ok s v" "int_fits (zval s u * zval s v)" "zs s u \<noteq> 0" "zs s v \<noteq> 0"
  shows "int (zn s u + zn s v) \<le> INT_MAX"
proof (rule ccontr)
  assume n: "\<not> int (zn s u + zn s v) \<le> INT_MAX"
  then have "BB ^ (max_limbs - 1) \<le> BB ^ (zn s u + zn s v - 2)" by (intro power_increasing) (auto simp: Suc_le_eq max_limbs_def)
  also have "\<dots> \<le> zabs s u * zabs s v" by (rule product_size [OF assms(1,2,4,5)])
  finally have "int (BB ^ (max_limbs - 1)) \<le> int (zabs s u * zabs s v)" by (rule of_nat_mono)
  moreover have "\<bar>zval s u * zval s v\<bar> = int (zabs s u * zabs s v)" using assms(4,5) by (simp add: zval_def abs_mult)
  ultimately show False using assms(3) unfolding int_fits_def by linarith
qed

lemma mpz_mul_fits:
  assumes "mpz_wf L T s" "r \<in> L" "u \<in> L" "v \<in> L" "int_fits (zval s u * zval s v)"
  shows "\<exists>s'. mpz_mul r u v s = Inr s' \<and> upd L T s r (zval s u * zval s v) s'"
proof (cases "zs s u = 0 \<or> zs s v = 0")
  case True
  then show ?thesis using set_size_0 [OF assms(1,2)] by (auto simp: mpz_mul_def Let_def zval_def)
next
  case False
  then show ?thesis using mpz_mul_ok [OF assms(1-4)] fits_product [OF _ _ assms(5)] wf_obj [OF assms(1)] assms(3,4) by blast
qed

lemma with_product_ok:
  assumes wf: "mpz_wf L T s" "r \<in> L" and fits: "int_fits (zval s r)" "int_fits P"
    and mul: "\<And>t s1. t \<notin> L \<Longrightarrow> mpz_wf (insert t L) T s1 \<Longrightarrow> (\<And>q. q \<in> L \<Longrightarrow> zval s1 q = zval s q) \<Longrightarrow>
      \<exists>s2. mul t s1 = Inr s2 \<and> upd (insert t L) T s1 t P s2"
    and op: "\<And>t s1. mpz_wf (insert t L) T s1 \<Longrightarrow> int (zn s1 r) < INT_MAX \<Longrightarrow> int (zn s1 t) < INT_MAX \<Longrightarrow>
      \<exists>s2. op t s1 = Inr s2 \<and> upd (insert t L) T s1 r (f (zval s1 r) (zval s1 t)) s2"
  shows "\<exists>s'. with_product mul op s = Inr s' \<and> upd L T s r (f (zval s r) P) s'"
proof -
  obtain t s0 where t: "new_var s = (t, s0)" by fastforce
  note n = new_var_ok [OF wf(1) t]
  obtain s1 where s1: "mul t (mpz_init t s0) = Inr s1" "upd (insert t L) T (mpz_init t s0) t P s1" using mul [OF n(1,2,4)] by blast
  have rt: "r \<noteq> t" "r \<in> insert t L" using wf(2) n(1) by auto
  have v1: "zval s1 t = P" "zval s1 r = zval s r" "mpz_wf (insert t L) T s1" "\<forall>q\<in>L. zval s1 q = zval s q" "stack s1 = Suc t"
    using updD [OF s1(2)] rt n by (auto simp: wf(2))
  have sz: "int (zn s1 r) < INT_MAX" "int (zn s1 t) < INT_MAX"
    using fits_size_int [OF wf_obj [OF v1(3) rt(2)]] fits_size_int [OF wf_obj [OF v1(3) insertI1]] fits
    by (simp_all only: v1(1,2))
  obtain s2 where s2: "op t s1 = Inr s2" "upd (insert t L) T s1 r (f (zval s r) P) s2" using op [OF v1(3) sz] v1(1,2) by auto
  obtain s3 where s3: "mpz_clear t s2 = Inr s3" "mpz_wf L T (drop_var s3)" "\<forall>q\<in>L. zval (drop_var s3) q = zval s2 q" "stack (drop_var s3) = t"
    using mpz_clear_ok [OF updD(1) [OF s2(2)] n(1)] updD(4) [OF s2(2)] v1(5) by auto
  have "with_product mul op s = Inr (drop_var s3)" using t s1(1) s2(1) s3(1) by (simp add: with_product_def)
  moreover have "upd L T s r (f (zval s r) P) (drop_var s3)"
    using s3 updD(3) [OF s2(2)] v1(4) n(6) wf(2) by (auto simp: upd_def)
  ultimately show ?thesis by blast
qed

lemma mpz_addmul_ui_ok:
  assumes "mpz_wf L T s" "r \<in> L" "u \<in> L" "int_fits (zval s r)" "int_fits (zval s u)" "int_fits (zval s u * int (unat v))"
  shows "\<exists>s'. mpz_addmul_ui r u v s = Inr s' \<and> upd L T s r (zval s r + zval s u * int (unat v)) s'"
  unfolding mpz_addmul_ui_def
proof (rule with_product_ok [OF assms(1,2,4,6)])
  fix t s1 assume a: "t \<notin> L" "mpz_wf (insert t L) T s1" "\<And>q. q \<in> L \<Longrightarrow> zval s1 q = zval s q"
  then show "\<exists>s2. mpz_mul_ui t u v s1 = Inr s2 \<and> upd (insert t L) T s1 t (zval s u * int (unat v)) s2"
    using mpz_mul_ui_ok [OF a(2), of t u v] fits_size_int [OF wf_obj [OF a(2)], of u] assms(3,5) by auto
qed (use assms(2) in \<open>auto intro: mpz_add_ok\<close>)

lemma mpz_submul_ui_ok:
  assumes "mpz_wf L T s" "r \<in> L" "u \<in> L" "int_fits (zval s r)" "int_fits (zval s u)" "int_fits (zval s u * int (unat v))"
  shows "\<exists>s'. mpz_submul_ui r u v s = Inr s' \<and> upd L T s r (zval s r - zval s u * int (unat v)) s'"
  unfolding mpz_submul_ui_def
proof (rule with_product_ok [OF assms(1,2,4,6)])
  fix t s1 assume a: "t \<notin> L" "mpz_wf (insert t L) T s1" "\<And>q. q \<in> L \<Longrightarrow> zval s1 q = zval s q"
  then show "\<exists>s2. mpz_mul_ui t u v s1 = Inr s2 \<and> upd (insert t L) T s1 t (zval s u * int (unat v)) s2"
    using mpz_mul_ui_ok [OF a(2), of t u v] fits_size_int [OF wf_obj [OF a(2)], of u] assms(3,5) by auto
qed (use assms(2) in \<open>auto intro: mpz_sub_ok\<close>)

lemma mpz_addmul_ok:
  assumes "mpz_wf L T s" "r \<in> L" "u \<in> L" "v \<in> L" "int_fits (zval s r)" "int_fits (zval s u * zval s v)"
  shows "\<exists>s'. mpz_addmul r u v s = Inr s' \<and> upd L T s r (zval s r + zval s u * zval s v) s'"
  unfolding mpz_addmul_def
proof (rule with_product_ok [OF assms(1,2,5,6)])
  fix t s1 assume a: "t \<notin> L" "mpz_wf (insert t L) T s1" "\<And>q. q \<in> L \<Longrightarrow> zval s1 q = zval s q"
  then show "\<exists>s2. mpz_mul t u v s1 = Inr s2 \<and> upd (insert t L) T s1 t (zval s u * zval s v) s2"
    using mpz_mul_fits [OF a(2), of t u v] assms(3,4,6) by auto
qed (use assms(2) in \<open>auto intro: mpz_add_ok\<close>)

lemma mpz_submul_ok:
  assumes "mpz_wf L T s" "r \<in> L" "u \<in> L" "v \<in> L" "int_fits (zval s r)" "int_fits (zval s u * zval s v)"
  shows "\<exists>s'. mpz_submul r u v s = Inr s' \<and> upd L T s r (zval s r - zval s u * zval s v) s'"
  unfolding mpz_submul_def
proof (rule with_product_ok [OF assms(1,2,5,6)])
  fix t s1 assume a: "t \<notin> L" "mpz_wf (insert t L) T s1" "\<And>q. q \<in> L \<Longrightarrow> zval s1 q = zval s q"
  then show "\<exists>s2. mpz_mul t u v s1 = Inr s2 \<and> upd (insert t L) T s1 t (zval s u * zval s v) s2"
    using mpz_mul_fits [OF a(2), of t u v] assms(3,4,6) by auto
qed (use assms(2) in \<open>auto intro: mpz_sub_ok\<close>)

end
