(* ===== verification/Mpz_Values.thy ===== *)
theory Mpz_Values
  imports Mpz_Mul
begin

section \<open>States of integer variables\<close>

text \<open>
  A state of the integers, described by the values of its variables. The functions of the \<open>mpz\<close> layer that
  only call others are verified on this level, where the memory does not appear any more: each operation
  updates the function from variables to integers.
\<close>

declare of_nat_unat [simp del]

definition holding :: "nat set \<Rightarrow> nat set \<Rightarrow> nat \<Rightarrow> (nat \<Rightarrow> int) \<Rightarrow> mpz_mem \<Rightarrow> bool" where
  "holding L T k f s \<longleftrightarrow> mpz_wf L T s \<and> (\<forall>x\<in>L. zval s x = f x) \<and> stack s = k"

lemma holdingI: "mpz_wf L T s \<Longrightarrow> holding L T (stack s) (zval s) s"
  by (simp add: holding_def)

lemma holdingD:
  assumes "holding L T k f s"
  shows "mpz_wf L T s" "x \<in> L \<Longrightarrow> zval s x = f x" "stack s = k" "x \<in> L \<Longrightarrow> obj_ok s x" "x \<in> L \<Longrightarrow> x < k"
  using assms by (auto simp: holding_def mpz_wf_def)

lemma holding_fits: "holding L T k f s \<Longrightarrow> x \<in> L \<Longrightarrow> int_fits (f x) \<Longrightarrow> int (zn s x) < INT_MAX"
  using fits_size_int [of s x] holdingD(2,4) [of L T k f s x] by simp

lemma holding_upd: "holding L T k f s \<Longrightarrow> upd L T s r v s' \<Longrightarrow> g = f(r := v) \<Longrightarrow> holding L T k g s'"
  by (auto simp: holding_def upd_def)

lemma holding_zero_iff: "holding L T k f s \<Longrightarrow> x \<in> L \<Longrightarrow> zs s x = 0 \<longleftrightarrow> f x = 0"
  using zval_0_iff [of s x] holdingD(2,4) [of L T k f s x] by simp

lemma holding_sgn: "holding L T k f s \<Longrightarrow> x \<in> L \<Longrightarrow> sgn (zs s x) = sgn (f x)"
  using holdingD(2,4) [of L T k f s x] zabs_0_iff [of s x] by (auto simp: zval_def sgn_if split: if_splits)

lemma holding_cong: "holding L T k f s \<Longrightarrow> (\<And>x. x \<in> L \<Longrightarrow> f x = g x) \<Longrightarrow> holding L T k g s"
  by (auto simp: holding_def)

subsection \<open>Operations\<close>

lemma fits_shift:
  assumes "obj_ok s u" "zs s u \<noteq> 0" "int_fits (zval s u * 2 ^ n)"
  shows "int (zn s u) + int (n div 64) < INT_MAX"
proof (rule ccontr)
  assume c: "\<not> ?thesis"
  have "(2 :: nat) ^ (64 * (n div 64)) \<le> 2 ^ n" by (intro power_increasing) auto
  then have p: "BB ^ (n div 64) \<le> 2 ^ n" by (simp only: BB_def power_mult)
  have "BB ^ (max_limbs - 1) \<le> BB ^ (zn s u - 1 + n div 64)"
    using c assms(2) by (intro power_increasing) (auto simp: Suc_le_eq max_limbs_def)
  also have "\<dots> \<le> zabs s u * 2 ^ n" unfolding power_add by (intro mult_le_mono p zabs_pos assms(1,2))
  finally have "int (BB ^ (max_limbs - 1)) \<le> int (zabs s u * 2 ^ n)" by (rule of_nat_mono)
  moreover have "\<bar>zval s u * 2 ^ n\<bar> = int (zabs s u * 2 ^ n)" using assms(2) by (simp add: zval_def abs_mult)
  ultimately show False using assms(3) unfolding int_fits_def by linarith
qed

lemma mpz_mul_2exp_fits:
  assumes "mpz_wf L T s" "r \<in> L" "u \<in> L" "int_fits (zval s u * 2 ^ unat bits)"
  shows "\<exists>s'. mpz_mul_2exp r u bits s = Inr s' \<and> upd L T s r (zval s u * 2 ^ unat bits) s'"
proof (cases "zs s u = 0")
  case True
  then show ?thesis using set_size_0 [OF assms(1,2)] by (simp add: mpz_mul_2exp_def zval_def)
next
  case False
  then show ?thesis using mpz_mul_2exp_ok [OF assms(1-3)] fits_shift [OF wf_obj [OF assms(1,3)] False assms(4)] by blast
qed

lemma set_size_0_holding: "holding L T k f s \<Longrightarrow> r \<in> L \<Longrightarrow> holding L T k (f(r := 0)) (set_size r 0 s)"
  using holding_upd set_size_0 holdingD(1) by blast

lemma mpz_set_holding:
  assumes "holding L T k f s" "r \<in> L" "a \<in> L"
  shows "\<exists>s'. mpz_set r a s = Inr s' \<and> holding L T k (f(r := f a)) s'"
  using mpz_set_ok [OF holdingD(1) [OF assms(1)] assms(2,3)] holding_upd [OF assms(1)] holdingD(2) [OF assms(1,3)] by auto

lemma mpz_set_ui_holding:
  assumes "holding L T k f s" "r \<in> L"
  shows "\<exists>s'. mpz_set_ui r x s = Inr s' \<and> holding L T k (f(r := int (unat x))) s'"
  using mpz_set_ui_ok [OF holdingD(1) [OF assms(1)] assms(2), of x] holding_upd [OF assms(1)] by auto

lemma mpz_set_si_holding:
  assumes "holding L T k f s" "r \<in> L" "- (2 ^ 63) \<le> x" "x < 2 ^ 63"
  shows "\<exists>s'. mpz_set_si r x s = Inr s' \<and> holding L T k (f(r := x)) s'"
  using mpz_set_si_ok [OF holdingD(1) [OF assms(1)] assms(2-4)] holding_upd [OF assms(1)] by auto

lemma mpz_add_holding:
  assumes "holding L T k f s" "r \<in> L" "a \<in> L" "b \<in> L" "int_fits (f a)" "int_fits (f b)"
  shows "\<exists>s'. mpz_add r a b s = Inr s' \<and> holding L T k (f(r := f a + f b)) s'"
  using mpz_add_ok [OF holdingD(1) [OF assms(1)] assms(2-4) holding_fits [OF assms(1,3,5)] holding_fits [OF assms(1,4,6)]]
    holding_upd [OF assms(1)] holdingD(2) [OF assms(1,3)] holdingD(2) [OF assms(1,4)] by auto

lemma mpz_sub_holding:
  assumes "holding L T k f s" "r \<in> L" "a \<in> L" "b \<in> L" "int_fits (f a)" "int_fits (f b)"
  shows "\<exists>s'. mpz_sub r a b s = Inr s' \<and> holding L T k (f(r := f a - f b)) s'"
  using mpz_sub_ok [OF holdingD(1) [OF assms(1)] assms(2-4) holding_fits [OF assms(1,3,5)] holding_fits [OF assms(1,4,6)]]
    holding_upd [OF assms(1)] holdingD(2) [OF assms(1,3)] holdingD(2) [OF assms(1,4)] by auto

lemma mpz_add_ui_holding:
  assumes "holding L T k f s" "r \<in> L" "a \<in> L" "int_fits (f a)"
  shows "\<exists>s'. mpz_add_ui r a x s = Inr s' \<and> holding L T k (f(r := f a + int (unat x))) s'"
  using mpz_add_ui_ok [OF holdingD(1) [OF assms(1)] assms(2,3) holding_fits [OF assms(1,3,4)], of x]
    holding_upd [OF assms(1)] holdingD(2) [OF assms(1,3)] by auto

lemma mpz_sub_ui_holding:
  assumes "holding L T k f s" "r \<in> L" "a \<in> L" "int_fits (f a)"
  shows "\<exists>s'. mpz_sub_ui r a x s = Inr s' \<and> holding L T k (f(r := f a - int (unat x))) s'"
  using mpz_sub_ui_ok [OF holdingD(1) [OF assms(1)] assms(2,3) holding_fits [OF assms(1,3,4)], of x]
    holding_upd [OF assms(1)] holdingD(2) [OF assms(1,3)] by auto

lemma mpz_mul_holding:
  assumes "holding L T k f s" "r \<in> L" "a \<in> L" "b \<in> L" "int_fits (f a * f b)"
  shows "\<exists>s'. mpz_mul r a b s = Inr s' \<and> holding L T k (f(r := f a * f b)) s'"
  using mpz_mul_fits [OF holdingD(1) [OF assms(1)] assms(2-4)] assms(5)
    holding_upd [OF assms(1)] holdingD(2) [OF assms(1,3)] holdingD(2) [OF assms(1,4)] by auto

lemma mpz_mul_2exp_holding:
  assumes "holding L T k f s" "r \<in> L" "a \<in> L" "int_fits (f a * 2 ^ unat x)"
  shows "\<exists>s'. mpz_mul_2exp r a x s = Inr s' \<and> holding L T k (f(r := f a * 2 ^ unat x)) s'"
  using mpz_mul_2exp_fits [OF holdingD(1) [OF assms(1)] assms(2,3), of x] assms(4) holding_upd [OF assms(1)] holdingD(2) [OF assms(1,3)] by auto

lemma mpz_mul_ui_holding:
  assumes "holding L T k f s" "r \<in> L" "a \<in> L" "int_fits (f a)"
  shows "\<exists>s'. mpz_mul_ui r a x s = Inr s' \<and> holding L T k (f(r := f a * int (unat x))) s'"
  using mpz_mul_ui_ok [OF holdingD(1) [OF assms(1)] assms(2,3) holding_fits [OF assms(1,3,4)], of x]
    holding_upd [OF assms(1)] holdingD(2) [OF assms(1,3)] by auto

lemma mpz_cmp_holding: "holding L T k f s \<Longrightarrow> a \<in> L \<Longrightarrow> b \<in> L \<Longrightarrow> mpz_cmp s a b = sgn (f a - f b)"
  using mpz_cmp_ok [OF holdingD(4) [of L T k f s a] holdingD(4) [of L T k f s b]] holdingD(2) [of L T k f s] by simp

lemma mpz_neg_holding:
  assumes "holding L T k f s" "r \<in> L" "a \<in> L"
  shows "\<exists>s'. mpz_neg r a s = Inr s' \<and> holding L T k (f(r := - f a)) s'"
  using mpz_neg_ok [OF holdingD(1) [OF assms(1)] assms(2,3)] holding_upd [OF assms(1)] holdingD(2) [OF assms(1,3)] by auto

lemma mpz_abs_holding:
  assumes "holding L T k f s" "r \<in> L" "a \<in> L"
  shows "\<exists>s'. mpz_abs r a s = Inr s' \<and> holding L T k (f(r := \<bar>f a\<bar>)) s'"
  using mpz_abs_ok [OF holdingD(1) [OF assms(1)] assms(2,3)] holding_upd [OF assms(1)] holdingD(2) [OF assms(1,3)] by auto

lemma mpz_swap_holding:
  assumes "holding L T k f s" "a \<in> L" "b \<in> L"
  shows "holding L T k (f(a := f b, b := f a)) (mpz_swap a b s)"
  using mpz_swap_ok [OF holdingD(1) [OF assms(1)] assms(2,3)] assms by (auto simp: holding_def)

subsection \<open>Local variables\<close>

lemma new_var_holding:
  assumes "holding L T k f s"
  shows "new_var s = (k, snd (new_var s))" "k \<notin> L" "holding (insert k L) T (Suc k) (f(k := 0)) (mpz_init k (snd (new_var s)))"
proof -
  show n: "new_var s = (k, snd (new_var s))" using assms by (simp add: new_var_def holding_def)
  note w = new_var_ok [OF holdingD(1) [OF assms] n]
  show "k \<notin> L" by (rule w(1))
  then show "holding (insert k L) T (Suc k) (f(k := 0)) (mpz_init k (snd (new_var s)))"
    using w(2-5) assms by (auto simp: holding_def)
qed

lemma mpz_clear_holding:
  assumes "holding (insert k L) T (Suc k) f s" "k \<notin> L"
  shows "\<exists>s'. mpz_clear k s = Inr s' \<and> holding L T k f (drop_var s')"
  using mpz_clear_ok [OF holdingD(1) [OF assms(1)] assms(2) holdingD(3) [OF assms(1)]] assms(1) by (auto simp: holding_def)

lemma mpz_init_set_holding:
  assumes "holding L T k f s" "a \<in> L"
  shows "\<exists>s'. mpz_init_set k a (snd (new_var s)) = Inr s' \<and> holding (insert k L) T (Suc k) (f(k := f a)) s'"
proof -
  have "a \<in> insert k L" "a \<noteq> k" using assms(2) new_var_holding(2) [OF assms(1)] by auto
  then show ?thesis using mpz_set_holding [OF new_var_holding(3) [OF assms(1)] insertI1, of a] by (simp add: mpz_init_set_def)
qed

end
