(* ===== verification/Limb_Div.thy ===== *)
theory Limb_Div
  imports Mpz_Basic
begin

section \<open>Division of limbs by a precomputed inverse\<close>

text \<open>
  The macros of \<open>mini-gmp.c\<close> that divide two limbs by one and three limbs by two, with multiplications
  instead of divisions, from the inverse of the divisor. Both estimate the quotient, compute a candidate
  for the remainder modulo the base, and correct both. The proofs are about integers: the
  candidate lies in an interval that is not longer than the modulus, so that it is known exactly.
\<close>

declare of_nat_unat [simp del]

subsection \<open>Definitions\<close>

definition gmp_add_ssaaaa :: "u64 \<Rightarrow> u64 \<Rightarrow> u64 \<Rightarrow> u64 \<Rightarrow> u64 \<times> u64" where
  "gmp_add_ssaaaa ah al bh bl = (let x = al + bl in (ah + bh + of_bool (x < al), x))"

definition gmp_sub_ddmmss :: "u64 \<Rightarrow> u64 \<Rightarrow> u64 \<Rightarrow> u64 \<Rightarrow> u64 \<times> u64" where
  "gmp_sub_ddmmss ah al bh bl = (let x = al - bl in (ah - bh - of_bool (al < bl), x))"

definition gmp_udiv_qrnnd_preinv :: "u64 \<Rightarrow> u64 \<Rightarrow> u64 \<Rightarrow> u64 \<Rightarrow> u64 \<times> u64" where
  "gmp_udiv_qrnnd_preinv nh nl d di =
     (let (qh, ql) = gmp_umul_ppmm nh di;
          (qh, ql) = gmp_add_ssaaaa qh ql (nh + 1) nl;
          r = nl - qh * d;
          mask = - of_bool (r > ql);
          qh = qh + mask;
          r = r + (mask AND d)
      in if r \<ge> d then (qh + 1, r - d) else (qh, r))"

definition gmp_udiv_qr_3by2 :: "u64 \<Rightarrow> u64 \<Rightarrow> u64 \<Rightarrow> u64 \<Rightarrow> u64 \<Rightarrow> u64 \<Rightarrow> u64 \<times> u64 \<times> u64" where
  "gmp_udiv_qr_3by2 n2 n1 n0 d1 d0 dinv =
     (let (q, q0) = gmp_umul_ppmm n2 dinv;
          (q, q0) = gmp_add_ssaaaa q q0 n2 n1;
          r1 = n1 - d1 * q;
          (r1, r0) = gmp_sub_ddmmss r1 n0 d1 d0;
          (t1, t0) = gmp_umul_ppmm d0 q;
          (r1, r0) = gmp_sub_ddmmss r1 r0 t1 t0;
          q = q + 1;
          mask = - of_bool (r1 \<ge> q0);
          q = q + mask;
          (r1, r0) = gmp_add_ssaaaa r1 r0 (mask AND d1) (mask AND d0)
      in if r1 \<ge> d1 \<and> (r1 > d1 \<or> r0 \<ge> d0)
         then let (r1, r0) = gmp_sub_ddmmss r1 r0 d1 d0 in (q + 1, r1, r0)
         else (q, r1, r0))"

subsection \<open>An estimated quotient and its correction\<close>

lemma corrected:
  fixes M D t R q :: int
  assumes "M \<le> 2 * D" "D < M" "0 \<le> t" "t \<le> M" "max (M - D) t - M \<le> R" "R < max (M - D) t"
  shows "let r = R mod M; (q1, r1) = (if t \<le> r then (q - 1, (r + D) mod M) else (q, r));
             (q2, r2) = (if D \<le> r1 then (q1 + 1, r1 - D) else (q1, r1))
         in q2 * D + r2 = q * D + R \<and> 0 \<le> r2 \<and> r2 < D"
proof (cases "0 \<le> R")
  case True
  then have r: "R mod M = R" using assms by simp
  have "(R + D) mod M = R + D" if "t \<le> R" using that True assms by simp
  then show ?thesis unfolding Let_def r using assms True by (auto simp: algebra_simps)
next
  case False
  have "R mod M = (R + M) mod M" by simp
  also have "\<dots> = R + M" using False assms by (intro mod_pos_pos_trivial) linarith+
  finally have r: "R mod M = R + M" .
  have "(R + M + D) mod M = (R + D) mod M" by (metis add.commute add.left_commute mod_add_self1)
  also have "\<dots> = R + D" using False assms by (intro mod_pos_pos_trivial) linarith+
  finally show ?thesis unfolding Let_def r using assms False by (auto simp: algebra_simps)
qed

text \<open>
  The estimate of a quotient by two digits of base \<open>b\<close>, from the inverse \<open>v\<close> of the divisor: the candidate
  remainder \<open>R\<close> lies in an interval of length \<open>b ^ 2\<close>, so that it can be computed modulo \<open>b ^ 2\<close>.
\<close>

lemma estimate_upper:
  fixes b D v K u2 u1 u0 :: int
  assumes b: "2 \<le> b" and D: "b * b \<le> 2 * D" "D < b * b"
    and v: "0 \<le> v" "K = b * b * b - D * (v + b)" "1 \<le> K" "K \<le> D"
    and u: "0 \<le> u2" "0 \<le> u1" "u1 < b" "u0 < b" "u2 * b + u1 < D"
  shows "b * (u2 * K + u1 * (b * b - D) + b * u0) < b * b * (b * b - D) + D * D"
proof (cases "v = 0")
  case False
  define e where "e = b * b - D"
  have "D * (1 + b) \<le> D * (v + b)" using False v(1) D b by (intro mult_left_mono) auto
  then have c: "0 \<le> b * e - D" using v(2,3) by (simp add: e_def algebra_simps)
  have "b * u2 * K \<le> b * u2 * D" using u b v(4) by (intro mult_left_mono) auto
  also have "\<dots> \<le> (D - 1 - u1) * D"
  proof -
    have "u2 * b * D \<le> (D - 1 - u1) * D" using u(5) D by (intro mult_right_mono) auto
    then show ?thesis by (simp add: algebra_simps)
  qed
  finally have 1: "b * u2 * K \<le> D * D - D - u1 * D" by (simp add: algebra_simps)
  have 2: "u1 * (b * e - D) \<le> (b - 1) * (b * e - D)" using u(3) c by (intro mult_right_mono) auto
  have 3: "b * (b * u0) \<le> b * (b * (b - 1))" using u(4) b by (intro mult_left_mono) auto
  have "b * (u2 * K + u1 * e + b * u0) = b * u2 * K + u1 * (b * e - D) + u1 * D + b * (b * u0)" by (simp add: algebra_simps)
  also have "\<dots> \<le> D * D - D + (b - 1) * (b * e - D) + b * (b * (b - 1))" using 1 2 3 by linarith
  also have "\<dots> = D * D + b * b * e - b * b" by (simp add: e_def algebra_simps)
  finally have "b * (u2 * K + u1 * e + b * u0) \<le> D * D + b * b * e - b * b" .
  moreover have "0 < b * b" using b by simp
  ultimately show ?thesis unfolding e_def by linarith
next
  case True
  define e where "e = b * b - D"
  define f where "f = b - 1 - e"
  have K: "K = b * e" using v(2) True by (simp add: e_def algebra_simps)
  have e: "1 \<le> e" using D by (simp add: e_def)
  have De: "b * b * b \<le> D * (b + 1)" using v(2,4) True by (simp add: algebra_simps)
  then have "e * (b + 1) \<le> b * b" by (simp add: e_def algebra_simps)
  then have "e * (b + 1) < b * (b + 1)" using b by (simp add: algebra_simps)
  then have f: "0 \<le> f" using b by (simp add: f_def)
  have "f * (b * b) \<le> f * (b * b * b)" using f b by (intro mult_left_mono) (auto simp: mult_le_cancel_left1)
  also have "\<dots> \<le> f * (D * (b + 1))" using f De by (intro mult_left_mono) auto
  finally have 1: "f * (b * b) \<le> f * (D * (b + 1))" .
  have 2: "b * e * (u2 * b + u1) \<le> b * e * (D - 1)" using u(5) b e by (intro mult_left_mono) auto
  have 3: "b * (b * u0) \<le> b * (b * (b - 1))" using u(4) b by (intro mult_left_mono) auto
  have 4: "D * D - b * e * D = D + f * (D * (b + 1))"
  proof -
    have "D - b * e = 1 + f * (b + 1)" by (simp add: f_def e_def algebra_simps)
    then have "D * (D - b * e) = D * (1 + f * (b + 1))" by (rule arg_cong)
    then show ?thesis by (simp add: algebra_simps)
  qed
  have "b * (u2 * K + u1 * e + b * u0) = b * e * (u2 * b + u1) + b * (b * u0)" by (simp add: K algebra_simps)
  also have "\<dots> \<le> b * e * D - b * e + b * (b * (b - 1))" using 2 3 by (simp add: algebra_simps)
  also have "b * (b * (b - 1)) = b * b * e + f * (b * b)" by (simp add: f_def algebra_simps)
  finally have "b * (u2 * K + u1 * e + b * u0) \<le> b * b * e + D * D - D - b * e" using 1 4 by linarith
  moreover have "0 < D + b * e" using e b D by (intro add_nonneg_pos mult_pos_pos) auto
  ultimately show ?thesis unfolding e_def by linarith
qed

lemma estimate_3by2:
  fixes b D v u2 u1 u0 q1 q0 R :: int
  assumes b: "2 \<le> b" and D: "b * b \<le> 2 * D" "D < b * b"
    and v: "0 \<le> v" "D * (v + b) < b * b * b" "b * b * b \<le> D * (v + b) + D"
    and u: "0 \<le> u2" "0 \<le> u1" "u1 < b" "0 \<le> u0" "u0 < b" "u2 * b + u1 < D"
    and q: "q1 * b + q0 = (v + b) * u2 + u1" "0 \<le> q0" "q0 < b"
    and R: "R = u2 * (b * b) + u1 * b + u0 - (q1 + 1) * D"
  shows "max (b * b - D) (q0 * b) - b * b \<le> R" "R < max (b * b - D) (q0 * b)"
proof -
  define K where "K = b * b * b - D * (v + b)"
  have K: "1 \<le> K" "K \<le> D" using v by (simp_all add: K_def)
  have bR: "b * R = u2 * K + u1 * (b * b - D) + b * u0 + q0 * D - b * D"
  proof -
    have "b * R = u2 * (b * b * b) + u1 * (b * b) + b * u0 - (q1 * b + q0) * D + q0 * D - b * D"
      by (simp add: R algebra_simps)
    also have "(q1 * b + q0) * D = u2 * (D * (v + b)) + u1 * D" unfolding q(1) by (simp add: algebra_simps)
    finally show ?thesis unfolding K_def by (simp add: algebra_simps)
  qed
  have nonneg: "0 \<le> u2 * K" "0 \<le> u1 * (b * b - D)" "0 \<le> b * u0" "0 \<le> q0 * D" using K u q(2) D b by simp_all
  have low: "(q0 - b) * D \<le> b * R" using bR nonneg by (simp add: algebra_simps)
  have "b * (- D) \<le> b * R" using low nonneg(4) by (simp add: algebra_simps)
  then have 1: "- D \<le> R" using b by (simp only: mult_le_cancel_left_pos)
  have "(q0 - b) * (b * b) \<le> (q0 - b) * D" using q(3) D(2) by (intro mult_left_mono_neg) auto
  then have "b * (q0 * b - b * b) \<le> b * R" using low by (simp add: algebra_simps)
  then have 2: "q0 * b - b * b \<le> R" using b by (simp only: mult_le_cancel_left_pos)
  show "max (b * b - D) (q0 * b) - b * b \<le> R" using 1 2 by auto
  show "R < max (b * b - D) (q0 * b)"
  proof (rule ccontr)
    define e where "e = b * b - D"
    assume "\<not> R < max (b * b - D) (q0 * b)"
    then have "e * e \<le> R * e" "q0 * b * D \<le> R * D" using D by (auto simp: e_def intro!: mult_right_mono)
    then have "e * e + q0 * b * D \<le> R * (b * b)" by (simp add: e_def algebra_simps)
    also have "\<dots> = b * (u2 * K + u1 * (b * b - D) + b * u0) + b * (q0 * D - b * D)"
      using arg_cong [OF bR, of "\<lambda>x. b * x"] by (simp add: algebra_simps)
    also have "\<dots> < b * b * (b * b - D) + D * D + b * (q0 * D - b * D)"
      using estimate_upper [OF b D v(1) K_def K u(1,2,3,5,6)] by linarith
    finally show False by (simp add: e_def algebra_simps)
  qed
qed

lemma estimate_2by1:
  fixes b D v u1 u0 q1 q0 R :: int
  assumes D: "b \<le> 2 * D" "0 < D" "D < b"
    and v: "D * (v + b) < b * b" "b * b \<le> D * (v + b) + D"
    and u: "0 \<le> u1" "u1 < D" "0 \<le> u0" "u0 < b"
    and q: "q1 * b + q0 = (v + b) * u1 + u0" "0 \<le> q0" "q0 < b"
    and R: "R = u1 * b + u0 - (q1 + 1) * D"
  shows "max (b - D) (q0 + 1) - b \<le> R" "R < max (b - D) (q0 + 1)"
proof -
  define K where "K = b * b - D * (v + b)"
  have K: "1 \<le> K" "K \<le> D" using v by (simp_all add: K_def)
  have bR: "b * R = u1 * K + u0 * (b - D) + q0 * D - b * D"
  proof -
    have "b * R = u1 * (b * b) + u0 * b - (q1 * b + q0) * D + q0 * D - b * D" by (simp add: R algebra_simps)
    also have "(q1 * b + q0) * D = u1 * (D * (v + b)) + u0 * D" unfolding q(1) by (simp add: algebra_simps)
    finally show ?thesis unfolding K_def by (simp add: algebra_simps)
  qed
  have nonneg: "0 \<le> u1 * K" "0 \<le> u0 * (b - D)" "0 \<le> q0 * D" using K u q(2) D by simp_all
  have low: "(q0 - b) * D \<le> b * R" using bR nonneg by (simp add: algebra_simps)
  have "b * (- D) \<le> b * R" using low nonneg(3) by (simp add: algebra_simps)
  then have 1: "- D \<le> R" using D by (simp only: mult_le_cancel_left_pos)
  have "(q0 - b) * b < (q0 - b) * D" using q(3) D(3) by (intro mult_strict_left_mono_neg) auto
  then have "b * (q0 - b) < b * R" using low by (simp add: algebra_simps)
  then have 2: "q0 - b < R" using D by (simp only: mult_less_cancel_left_pos)
  show "max (b - D) (q0 + 1) - b \<le> R" using 1 2 by auto
  show "R < max (b - D) (q0 + 1)"
  proof (rule ccontr)
    assume "\<not> R < max (b - D) (q0 + 1)"
    then have "(b - D) * (b - D) \<le> R * (b - D)" "q0 * D \<le> R * D" using D by (auto intro!: mult_right_mono)
    moreover have "u1 * K \<le> (D - 1) * D" using u K D by (intro mult_mono) auto
    moreover have "u0 * (b - D) \<le> (b - 1) * (b - D)" using u D by (intro mult_right_mono) auto
    moreover have "R * (b - D) + R * D = b * R" "(D - 1) * D + (b - 1) * (b - D) - b * D = (b - D) * (b - D) - b"
      by (simp_all add: algebra_simps)
    ultimately show False using bR D by linarith
  qed
qed

subsection \<open>Words\<close>

abbreviation IB :: int where "IB \<equiv> 2 ^ 64"

lemma uint_less_IB: "uint (x :: u64) < IB"
  using uint_lt2p [of x] by simp

lemma uint_wrap: "uint (word_of_int k :: u64) = k mod IB"
  by (simp add: uint_word_of_int)

lemma word_IB: "(18446744073709551616 :: u64) = 0"
  using word_exp_length_eq_0 [where 'a = 64] by simp

lemma umul_uint:
  assumes "gmp_umul_ppmm u v = (h, l)"
  shows "uint h * IB + uint l = uint u * uint v"
proof -
  have "limb_base * unat h + unat l = unat u * unat v" using umul_ppmm_value assms by (simp only: gmp_umul_ppmm_eq)
  then have "int (limb_base * unat h + unat l) = int (unat u * unat v)" by (rule arg_cong)
  then show ?thesis by (simp add: uint_nat algebra_simps)
qed

lemma word_less_uint: "(a :: u64) < b \<longleftrightarrow> uint a < uint b" "a \<le> b \<longleftrightarrow> uint a \<le> uint b"
  by (simp_all add: word_less_def word_le_def)

lemma add_uint:
  assumes "gmp_add_ssaaaa ah al bh bl = (h, l)"
  shows "\<exists>c. uint al + uint bl = uint l + c * IB \<and> h = ah + bh + word_of_int c"
proof -
  have "unat (al + bl) + limb_base * of_bool (al + bl < al) = unat al + unat bl" by (rule add_carry')
  then have "int (unat (al + bl) + limb_base * of_bool (al + bl < al)) = int (unat al + unat bl)" by (rule arg_cong)
  then have "uint al + uint bl = uint (al + bl) + of_bool (al + bl < al) * IB" by (simp add: uint_nat algebra_simps)
  then show ?thesis using assms
    by (intro exI [of _ "of_bool (al + bl < al)"]) (auto simp: gmp_add_ssaaaa_def Let_def)
qed

lemma sub_uint:
  assumes "gmp_sub_ddmmss ah al bh bl = (h, l)"
  shows "\<exists>c. uint al - uint bl = uint l - c * IB \<and> h = ah - bh - word_of_int c"
proof -
  have "unat (al - bl) + unat bl = unat al + limb_base * of_bool (al < bl)" by (rule sub_borrow)
  then have "int (unat (al - bl) + unat bl) = int (unat al + limb_base * of_bool (al < bl))" by (rule arg_cong)
  then have "uint al - uint bl = uint (al - bl) - of_bool (al < bl) * IB" by (simp add: uint_nat algebra_simps)
  then show ?thesis using assms
    by (intro exI [of _ "of_bool (al < bl)"]) (auto simp: gmp_sub_ddmmss_def Let_def)
qed

text \<open>The inverse of a normalised divisor of one limb.\<close>

definition inverse_1 :: "int \<Rightarrow> int \<Rightarrow> bool" where
  "inverse_1 d v \<longleftrightarrow> d * (v + IB) < IB * IB \<and> IB * IB \<le> d * (v + IB) + d"

lemma quotient_range:
  fixes q D r M :: int
  assumes "0 \<le> r" "r < D" "0 \<le> q * D + r" "q * D + r < D * M"
  shows "0 \<le> q \<and> q < M"
proof -
  have "(- 1) * D < q * D" using assms by linarith
  moreover have "q * D < M * D" using assms mult.commute [of M D] by linarith
  moreover have "0 < D" using assms by linarith
  ultimately have "- 1 < q" "q < M" by (simp_all only: mult_less_cancel_right_pos)
  then show ?thesis by simp
qed

lemma uint_sub_no_wrap: "(b :: u64) \<le> a \<Longrightarrow> uint (a - b) = uint a - uint b"
proof -
  assume "b \<le> a"
  then have "uint b \<le> uint a" by (simp add: word_le_def)
  then have "(uint a - uint b) mod IB = uint a - uint b"
    using uint_less_IB [of a] uint_ge_0 [of b] by (intro mod_pos_pos_trivial) linarith+
  then show ?thesis by (simp add: uint_word_ariths)
qed

lemma uint_add_wrap: "uint (a + b :: u64) = (uint a + uint b) mod IB"
  by (simp add: uint_word_ariths)

text \<open>The correction on words: the candidate remainder \<open>w\<close> is known modulo the base.\<close>

lemma corrected_words:
  fixes d w q r :: u64
  assumes "IB \<le> 2 * uint d" "0 \<le> t" "t \<le> IB" "max (IB - uint d) t - IB \<le> R" "R < max (IB - uint d) t"
    and w: "uint w = R mod IB" "c \<longleftrightarrow> t \<le> R mod IB"
    and qr: "(q, r) = (let (q, r) = (if c then (word_of_int A - 1, w + d) else (word_of_int A, w)) in if r \<ge> d then (q + 1, r - d) else (q, r))"
  shows "\<exists>Q. q = word_of_int Q \<and> Q * uint d + uint r = A * uint d + R \<and> uint r < uint d"
proof -
  define q' r' where "q' = (if c then A - 1 else A)" and "r' = (if c then w + d else w)"
  define Q where "Q = (if d \<le> r' then q' + 1 else q')"
  have r': "uint r' = (if c then (R mod IB + uint d) mod IB else R mod IB)" by (simp add: r'_def uint_add_wrap w)
  have "(q, r) = (word_of_int Q, if d \<le> r' then r' - d else r')" using qr by (auto simp: q'_def r'_def Q_def split: if_splits)
  then have e: "q = word_of_int Q" "r = (if d \<le> r' then r' - d else r')" by (simp_all only: prod.inject)
  have "(if t \<le> R mod IB then (A - 1, (R mod IB + uint d) mod IB) else (A, R mod IB)) = (q', uint r')"
    by (simp add: q'_def r' w(2))
  then have "let (q2, r2) = (if uint d \<le> uint r' then (q' + 1, uint r' - uint d) else (q', uint r'))
      in q2 * uint d + r2 = A * uint d + R \<and> 0 \<le> r2 \<and> r2 < uint d"
    using corrected [of IB "uint d" t R A] assms(1-5) uint_less_IB [of d] unfolding Let_def by simp
  then have "Q * uint d + uint r = A * uint d + R \<and> uint r < uint d"
    using uint_sub_no_wrap [of d r'] unfolding e(2) by (simp add: Q_def word_le_def split: if_splits)
  then show ?thesis using e(1) by blast
qed

lemma qrnnd_preinv_ok:
  assumes "gmp_udiv_qrnnd_preinv nh nl d di = (q, r)" "2 ^ 63 \<le> uint d" "uint nh < uint d" "inverse_1 (uint d) (uint di)"
  shows "uint q * uint d + uint r = uint nh * IB + uint nl \<and> uint r < uint d"
proof -
  define D v u1 u0 where "D = uint d" and "v = uint di" and "u1 = uint nh" and "u0 = uint nl"
  obtain p1 p0 where p: "gmp_umul_ppmm nh di = (p1, p0)" by (metis surj_pair)
  obtain h l where hl: "gmp_add_ssaaaa p1 p0 (nh + 1) nl = (h, l)" by (metis surj_pair)
  obtain c where c: "uint p0 + uint nl = uint l + c * IB" "h = p1 + (nh + 1) + word_of_int c" using add_uint [OF hl] by blast
  define q1 q0 where "q1 = uint p1 + u1 + c" and "q0 = uint l"
  have e: "q1 * IB + q0 = (v + IB) * u1 + u0"
    using umul_uint [OF p] c(1) by (simp add: q1_def q0_def v_def u1_def u0_def algebra_simps)
  have h: "h = word_of_int (q1 + 1)" using c(2) by (simp add: q1_def u1_def)
  define R where "R = u1 * IB + u0 - (q1 + 1) * D"
  have D: "IB \<le> 2 * D" "0 < D" "D < IB" using assms(2) uint_less_IB [of d] by (simp_all add: D_def)
  have q0: "0 \<le> q0" "q0 < IB" using uint_less_IB [of l] by (simp_all add: q0_def)
  have u: "0 \<le> u1" "u1 < D" "0 \<le> u0" "u0 < IB" using assms(3) uint_less_IB [of nl] by (simp_all add: u1_def u0_def D_def)
  have v: "D * (v + IB) < IB * IB" "IB * IB \<le> D * (v + IB) + D" using assms(4) by (simp_all add: inverse_1_def D_def v_def)
  note est = estimate_2by1 [OF D v u e q0 R_def]
  define w where "w = nl - h * d"
  have "w = word_of_int R" using h by (simp add: w_def R_def u1_def u0_def D_def word_IB)
  then have w: "uint w = R mod IB" by (simp only: uint_wrap)
  have cmp: "w > l \<longleftrightarrow> q0 + 1 \<le> R mod IB" unfolding word_less_uint w q0_def by linarith
  have "(q, r) = (let (q, r) = (if w > l then (word_of_int (q1 + 1) - 1, w + d) else (word_of_int (q1 + 1), w)) in if r \<ge> d then (q + 1, r - d) else (q, r))"
    using assms(1) unfolding gmp_udiv_qrnnd_preinv_def Let_def p hl prod.case w_def [symmetric] by (cases "w > l") (auto simp: h split: if_splits)
  then obtain q2 where q2: "q = word_of_int q2" "q2 * D + uint r = (q1 + 1) * D + R" "0 \<le> uint r" "uint r < D"
    using corrected_words [of d "q0 + 1" R w "w > l" q r "q1 + 1"] D q0 est w cmp unfolding D_def [symmetric] by auto
  have N: "q2 * D + uint r = u1 * IB + u0" using q2(2) by (simp add: R_def)
  have "(u1 + 1) * IB \<le> D * IB" using u(2) by (intro mult_right_mono) auto
  then have "u1 * IB + u0 < D * IB" using u(4) by simp
  then have "0 \<le> q2 \<and> q2 < IB" using u N by (intro quotient_range [OF q2(3,4)]) simp_all
  then have "uint q = q2" using q2(1) by (simp add: uint_wrap)
  then show ?thesis using N q2(4) by (simp add: u1_def u0_def D_def)
qed

subsection \<open>Three limbs by two\<close>

abbreviation dv :: "u64 \<Rightarrow> u64 \<Rightarrow> int" where
  "dv h l \<equiv> uint h * IB + uint l"

lemma digit_split: "x * b = x mod b * b + x div b * (b * (b :: int))"
  by (metis add.commute div_mult_mod_eq distrib_right mult.assoc)

lemma digits_le:
  fixes a c x y b :: int
  assumes "0 \<le> x" "x < b" "0 \<le> y" "y < b"
  shows "a * b + x \<le> c * b + y \<longleftrightarrow> a < c \<or> a = c \<and> x \<le> y"
proof -
  have "p * b + b \<le> q * b" if "p < q" for p q
    using mult_right_mono [of "p + 1" q b] that assms by (simp add: distrib_right)
  from this [of a c] this [of c a] show ?thesis using assms by (cases a c rule: linorder_cases) auto
qed

lemma dv_mod:
  assumes "0 \<le> l" "l < IB"
  shows "(x mod IB) * IB + l = (x * IB + l) mod (IB * IB)"
proof -
  have "0 \<le> x mod IB" "x mod IB \<le> IB - 1" by simp_all
  then have "0 \<le> (x mod IB) * IB + l" "(x mod IB) * IB + l < IB * IB" using assms by simp_all
  then have "((x mod IB) * IB + l) mod (IB * IB) = (x mod IB) * IB + l" by (rule mod_pos_pos_trivial)
  moreover have "x * IB + l = (x mod IB) * IB + l + x div IB * (IB * IB)"
    using digit_split [of x IB] by linarith
  ultimately show ?thesis by (metis mod_mult_self1)
qed

lemma dv_less: "dv h l < IB * IB"
  using uint_less_IB [of h] uint_less_IB [of l] by simp

lemma dv_word: "dv (word_of_int x) l = (x * IB + uint l) mod (IB * IB)"
  using dv_mod [of "uint l" x] uint_less_IB [of l] by (simp only: uint_wrap uint_ge_0)

lemma add_dv:
  assumes "gmp_add_ssaaaa ah al bh bl = (h, l)"
  shows "dv h l = (dv ah al + dv bh bl) mod (IB * IB)"
proof -
  obtain c where c: "uint al + uint bl = uint l + c * IB" "h = ah + bh + word_of_int c" using add_uint [OF assms] by blast
  have "h = word_of_int (uint ah + uint bh + c)" using c(2) by simp
  then have "dv h l = ((uint ah + uint bh + c) * IB + uint l) mod (IB * IB)" by (simp only: dv_word)
  also have "(uint ah + uint bh + c) * IB + uint l = dv ah al + dv bh bl" using c(1) by (simp add: algebra_simps)
  finally show ?thesis .
qed

lemma sub_dv:
  assumes "gmp_sub_ddmmss ah al bh bl = (h, l)"
  shows "dv h l = (dv ah al - dv bh bl) mod (IB * IB)"
proof -
  obtain c where c: "uint al - uint bl = uint l - c * IB" "h = ah - bh - word_of_int c" using sub_uint [OF assms] by blast
  have "h = word_of_int (uint ah - uint bh - c)" using c(2) by simp
  then have "dv h l = ((uint ah - uint bh - c) * IB + uint l) mod (IB * IB)" by (simp only: dv_word)
  also have "(uint ah - uint bh - c) * IB + uint l = dv ah al - dv bh bl" using c(1) by (simp add: algebra_simps)
  finally show ?thesis .
qed

lemma dv_le: "dv a b \<le> dv c d \<longleftrightarrow> a < c \<or> a = c \<and> b \<le> d"
  using digits_le [of "uint b" IB "uint d" "uint a" "uint c"] by (simp only: word_less_uint word_uint_eq_iff uint_ge_0 uint_less_IB simp_thms)

lemma normalised_dv:
  assumes "2 ^ 63 \<le> uint d1"
  shows "IB * IB \<le> 2 * dv d1 d0"
proof -
  have "IB * IB = 2 * (2 ^ 63 * IB)" by simp
  also have "\<dots> \<le> 2 * (uint d1 * IB)" using assms by (intro mult_left_mono mult_right_mono) simp_all
  also have "\<dots> \<le> 2 * dv d1 d0" by simp
  finally show ?thesis .
qed

text \<open>The inverse of a normalised divisor of two limbs.\<close>

definition inverse_2 :: "int \<Rightarrow> int \<Rightarrow> bool" where
  "inverse_2 D v \<longleftrightarrow> D * (v + IB) < IB * IB * IB \<and> IB * IB * IB \<le> D * (v + IB) + D"

lemma quotient_estimate_less:
  fixes b D v u2 u1 :: int
  assumes "0 < b" "0 \<le> v" "D * (v + b) < b * b * b" "0 \<le> u1" "u2 * b + u1 < D"
  shows "(v + b) * u2 + u1 < b * b"
proof -
  have "b * ((v + b) * u2 + u1) = (v + b) * (u2 * b + u1) - v * u1" by (simp add: algebra_simps)
  also have "\<dots> \<le> (v + b) * (u2 * b + u1)" using assms by simp
  also have "\<dots> \<le> (v + b) * D" using assms by (intro mult_left_mono) auto
  also have "\<dots> < b * (b * b)" using assms(3) by (simp add: algebra_simps)
  finally show ?thesis using assms(1) by (simp only: mult_less_cancel_left_pos)
qed

lemma qr_3by2_ok:
  assumes "gmp_udiv_qr_3by2 n2 n1 n0 d1 d0 di = (q, r1, r0)" "2 ^ 63 \<le> uint d1" "dv n2 n1 < dv d1 d0" "inverse_2 (dv d1 d0) (uint di)"
  shows "uint q * dv d1 d0 + dv r1 r0 = dv n2 n1 * IB + uint n0 \<and> dv r1 r0 < dv d1 d0"
proof -
  define D v M where "D = dv d1 d0" and "v = uint di" and "M = IB * IB"
  obtain p1 p0 where p: "gmp_umul_ppmm n2 di = (p1, p0)" by (metis surj_pair)
  obtain h l where hl: "gmp_add_ssaaaa p1 p0 n2 n1 = (h, l)" by (metis surj_pair)
  obtain a1 a0 where a: "gmp_sub_ddmmss (n1 - d1 * h) n0 d1 d0 = (a1, a0)" by (metis surj_pair)
  obtain t1 t0 where t: "gmp_umul_ppmm d0 h = (t1, t0)" by (metis surj_pair)
  obtain b1 b0 where b: "gmp_sub_ddmmss a1 a0 t1 t0 = (b1, b0)" by (metis surj_pair)
  have D: "M \<le> 2 * D" "D < M" using normalised_dv [OF assms(2)] dv_less [of d1 d0] by (simp_all only: D_def M_def)
  have v: "0 \<le> v" "D * (v + IB) < M * IB" "M * IB \<le> D * (v + IB) + D"
    using assms(4) by (simp_all add: inverse_2_def D_def v_def M_def)
  have u: "0 \<le> uint n2" "0 \<le> uint n1" "uint n1 < IB" "0 \<le> uint n0" "uint n0 < IB" "uint n2 * IB + uint n1 < D"
    using assms(3) uint_less_IB by (simp_all only: uint_ge_0 D_def)
  have e: "dv h l = (v + IB) * uint n2 + uint n1"
  proof -
    have "dv p1 p0 + dv n2 n1 = (v + IB) * uint n2 + uint n1" using umul_uint [OF p] by (simp add: v_def algebra_simps)
    moreover have "0 \<le> (v + IB) * uint n2 + uint n1" "(v + IB) * uint n2 + uint n1 < IB * IB"
      using quotient_estimate_less [of IB v D "uint n1" "uint n2"] v u by (simp_all add: M_def)
    ultimately show ?thesis using add_dv [OF hl] by (simp only: mod_pos_pos_trivial)
  qed
  define R where "R = uint n2 * M + uint n1 * IB + uint n0 - (uint h + 1) * D"
  have bR: "dv b1 b0 = R mod M"
  proof -
    have "n1 - d1 * h = word_of_int (uint n1 - uint d1 * uint h)" by simp
    then have "dv (n1 - d1 * h) n0 = ((uint n1 - uint d1 * uint h) * IB + uint n0) mod M" by (simp only: dv_word M_def)
    moreover have "dv a1 a0 = (dv (n1 - d1 * h) n0 - D) mod M" using sub_dv [OF a] by (simp only: D_def M_def)
    moreover have "dv b1 b0 = (dv a1 a0 - uint d0 * uint h) mod M" using sub_dv [OF b] umul_uint [OF t] by (simp only: M_def)
    ultimately have "dv b1 b0 = ((uint n1 - uint d1 * uint h) * IB + uint n0 - D - uint d0 * uint h) mod M" by (simp add: mod_simps)
    also have "(uint n1 - uint d1 * uint h) * IB + uint n0 - D - uint d0 * uint h = R - uint n2 * M"
      by (simp add: R_def D_def algebra_simps)
    also have "(R - uint n2 * M) mod M = R mod M" using mod_mult_self1 [of R "- uint n2" M] by simp
    finally show ?thesis .
  qed
  have l: "0 \<le> uint l" "uint l < IB" using uint_less_IB [of l] by simp_all
  note est = estimate_3by2 [OF _ D [unfolded M_def] v [unfolded M_def] u e l R_def [unfolded M_def], folded M_def]
  have cor: "let r = R mod M; (q1, r1) = (if uint l * IB \<le> r then (uint h + 1 - 1, (r + D) mod M) else (uint h + 1, r));
             (q2, r2) = (if D \<le> r1 then (q1 + 1, r1 - D) else (q1, r1))
         in q2 * D + r2 = (uint h + 1) * D + R \<and> 0 \<le> r2 \<and> r2 < D"
    using D l by (intro corrected est) (simp_all add: M_def)
  obtain c1 c0 where c: "gmp_add_ssaaaa b1 b0 (- of_bool (b1 \<ge> l) AND d1) (- of_bool (b1 \<ge> l) AND d0) = (c1, c0)" by (metis surj_pair)
  obtain f1 f0 where f: "gmp_sub_ddmmss c1 c0 d1 d0 = (f1, f0)" by (metis surj_pair)
  have cmp: "b1 \<ge> l \<longleftrightarrow> uint l * IB \<le> R mod M" using dv_le [of l 0 b1 b0] unfolding bR by auto
  have cv: "dv c1 c0 = (if b1 \<ge> l then (R mod M + D) mod M else R mod M)"
    using add_dv [OF c, unfolded bR] by (simp add: D_def M_def)
  define q' q2 where "q' = (if b1 \<ge> l then uint h else uint h + 1)" and "q2 = (if D \<le> dv c1 c0 then q' + 1 else q')"
  have "D \<le> dv c1 c0 \<longleftrightarrow> d1 \<le> c1 \<and> (d1 < c1 \<or> d0 \<le> c0)" using dv_le [of d1 d0 c1 c0] by (auto simp: D_def)
  then have qr: "q = word_of_int q2" "(r1, r0) = (if D \<le> dv c1 c0 then (f1, f0) else (c1, c0))"
    using assms(1) p hl a t b c f by (auto simp: gmp_udiv_qr_3by2_def q'_def q2_def split: if_splits)
  have fv: "dv f1 f0 = dv c1 c0 - D" if "D \<le> dv c1 c0"
  proof -
    have "dv c1 c0 - D < M" using dv_less [of c1 c0] D by (simp add: M_def)
    then show ?thesis using sub_dv [OF f] that by (simp add: D_def M_def)
  qed
  have "(if uint l * IB \<le> R mod M then (uint h + 1 - 1, (R mod M + D) mod M) else (uint h + 1, R mod M)) = (q', dv c1 c0)"
    unfolding cv q'_def cmp by simp
  then have "q2 * D + dv r1 r0 = (uint h + 1) * D + R \<and> 0 \<le> dv r1 r0 \<and> dv r1 r0 < D"
    using cor qr(2) fv unfolding Let_def by (simp add: q2_def split: if_splits)
  then have q2: "q2 * D + dv r1 r0 = dv n2 n1 * IB + uint n0" "0 \<le> dv r1 r0" "dv r1 r0 < D"
    by (simp_all add: R_def M_def algebra_simps)
  have "(dv n2 n1 + 1) * IB \<le> D * IB" using u(6) by (intro mult_right_mono) auto
  then have "dv n2 n1 * IB + uint n0 < D * IB" using u(5) by simp
  then have "0 \<le> q2 \<and> q2 < IB" using u q2 by (intro quotient_range [OF q2(2,3)]) simp_all
  then have "uint q = q2" using qr(1) by (simp add: uint_wrap)
  then show ?thesis using q2 by (simp add: D_def)
qed

end
