(* ===== verification/Limb_Bits.thy ===== *)
theory Limb_Bits
  imports Mpn_Mul
begin

section \<open>Bits of limbs\<close>

text \<open>
  The macros and functions of \<open>mini-gmp.c\<close> that look for bits: the number of leading and of trailing
  zeros of a limb, the position of the next bit in a number, and the greatest common divisor of two limbs,
  which removes factors of two. Their loops do not end on every argument, so that they are partial
  functions: a loop that does not end has no result.
\<close>

subsection \<open>Definitions\<close>

definition returns :: "'a option \<Rightarrow> 'a res" where
  "returns x = (case x of None \<Rightarrow> crash Out_Of_Fuel | Some y \<Rightarrow> Inr y)"

partial_function (option) clz_bytes :: "nat \<Rightarrow> u64 \<Rightarrow> (nat \<times> u64) option" where
  "clz_bytes c x = (if x AND push_bit 56 0xff = 0 then clz_bytes (c + 8) (push_bit 8 x) else Some (c, x))"

partial_function (option) clz_bits :: "nat \<Rightarrow> u64 \<Rightarrow> nat option" where
  "clz_bits c x = (if x AND push_bit 63 1 = 0 then clz_bits (c + 1) (push_bit 1 x) else Some c)"

definition gmp_clz :: "u64 \<Rightarrow> nat option" where
  "gmp_clz x = Option.bind (clz_bytes 0 x) (\<lambda>(c, x). clz_bits c x)"

definition gmp_ctz :: "u64 \<Rightarrow> nat option" where
  "gmp_ctz x = Option.bind (gmp_clz (x AND - x)) (\<lambda>c. Some (63 - c))"

partial_function (option) strip_twos :: "u64 \<Rightarrow> u64 option" where
  "strip_twos v = (if v AND 1 = 0 then strip_twos (drop_bit 1 v) else Some v)"

partial_function (option) gcd_loop :: "u64 \<Rightarrow> u64 \<Rightarrow> u64 option" where
  "gcd_loop u v =
     (if u \<noteq> v then
        if u > v then Option.bind (strip_twos (drop_bit 1 (u - v))) (\<lambda>u. gcd_loop u v)
        else Option.bind (strip_twos (drop_bit 1 (v - u))) (\<lambda>v. gcd_loop u v)
      else Some u)"

definition mpn_gcd_11 :: "u64 \<Rightarrow> u64 \<Rightarrow> u64 res" where
  "mpn_gcd_11 u v =
     bindE (c_assert ((u OR v) > 0)) (\<lambda>_.
     if u = 0 then Inr v
     else if v = 0 then Inr u
     else
       bindE (returns (gmp_ctz (u OR v))) (\<lambda>shift.
       let u = drop_bit shift u; v = drop_bit shift v; (u, v) = (if u AND 1 = 0 then (v, u) else (u, v)) in
       bindE (returns (strip_twos v)) (\<lambda>v.
       bindE (returns (gcd_loop u v)) (\<lambda>u. Inr (push_bit shift u)))))"

partial_function (option) scan_limbs :: "limb_mem \<Rightarrow> nat \<Rightarrow> nat \<Rightarrow> u64 \<Rightarrow> u64 \<Rightarrow> nat \<Rightarrow> u64 option" where
  "scan_limbs m up un ux limb i =
     (if limb = 0 then
        let i = i + 1
        in if i = un then Some (if ux = 0 then NOT 0 else word_of_nat (un * 64))
           else scan_limbs m up un ux (ux XOR m (up + i)) i
      else Option.bind (gmp_ctz limb) (\<lambda>cnt. Some (word_of_nat i * 64 + word_of_nat cnt)))"

definition mpn_common_scan :: "u64 \<Rightarrow> nat \<Rightarrow> nat \<Rightarrow> nat \<Rightarrow> u64 \<Rightarrow> limb_mem \<Rightarrow> u64 res" where
  "mpn_common_scan limb i up un ux m =
     bindE (c_assert (ux = 0 \<or> ux = NOT 0)) (\<lambda>_.
     bindE (c_assert (i \<le> un)) (\<lambda>_.
     returns (scan_limbs m up un ux limb i)))"

definition mpn_scan1 :: "nat \<Rightarrow> u64 \<Rightarrow> limb_mem \<Rightarrow> u64 res" where
  "mpn_scan1 p b m =
     (let i = unat (b div 64)
      in mpn_common_scan (m (p + i) AND push_bit (unat (b mod 64)) (NOT 0)) i p i 0 m)"

definition mpn_scan0 :: "nat \<Rightarrow> u64 \<Rightarrow> limb_mem \<Rightarrow> u64 res" where
  "mpn_scan0 p b m =
     (let i = unat (b div 64)
      in mpn_common_scan (NOT (m (p + i)) AND push_bit (unat (b mod 64)) (NOT 0)) i p i (NOT 0) m)"

subsection \<open>Leading zeros\<close>

lemma top_bits:
  assumes "k + n = 64"
  shows "x AND push_bit k (mask n) = 0 \<longleftrightarrow> unat (x :: u64) < 2 ^ k"
proof -
  have "drop_bit k x = 0 \<longleftrightarrow> unat x div 2 ^ k = 0"
    by (simp add: drop_bit_eq_div word_unat_eq_iff unat_div_distrib unat_drop_bit_eq flip: drop_bit_eq_div)
  moreover have "drop_bit k x = 0" if z: "x AND push_bit k (mask n) = 0"
  proof (rule bit_word_eqI)
    fix i assume "i < LENGTH(64)"
    have "\<not> bit (x AND push_bit k (mask n)) (k + i)" using z by simp
    then show "bit (drop_bit k x) i = bit 0 i" using assms
      by (auto simp: bit_and_iff bit_push_bit_iff bit_mask_iff bit_drop_bit_eq dest: bit_imp_le_length)
  qed
  moreover have "x AND push_bit k (mask n) = 0" if z: "drop_bit k x = 0"
  proof (rule bit_word_eqI)
    fix i assume "i < LENGTH(64)"
    have "\<not> bit (drop_bit k x) (i - k)" using z by simp
    then show "bit (x AND push_bit k (mask n)) i = bit 0 i"
      by (auto simp: bit_and_iff bit_push_bit_iff bit_mask_iff bit_drop_bit_eq)
  qed
  ultimately show ?thesis by (auto simp: div_eq_0_iff)
qed

lemma top_byte: "x AND push_bit 56 0xff = 0 \<longleftrightarrow> unat (x :: u64) < 2 ^ 56"
proof -
  have "(0xff :: u64) = mask 8" by (simp add: mask_eq_exp_minus_1)
  then show ?thesis using top_bits [of 56 8 x] by (simp only:)
qed

lemma top_bit: "x AND push_bit 63 1 = 0 \<longleftrightarrow> unat (x :: u64) < 2 ^ 63"
proof -
  have "(1 :: u64) = mask 1" by (simp add: mask_eq_exp_minus_1)
  then show ?thesis using top_bits [of 63 1 x] by (simp only:)
qed


lemma unat_shift_fits: "unat (x :: u64) * 2 ^ k < 2 ^ 64 \<Longrightarrow> unat (push_bit k x) = unat x * 2 ^ k"
  by (subst unsigned_push_bit_eq) (simp add: take_bit_nat_eq_self push_bit_eq_mult)

lemma clz_bits_step: "clz_bits c x = (if unat x < 2 ^ 63 then clz_bits (c + 1) (push_bit 1 x) else Some c)"
  by (subst clz_bits.simps) (simp only: top_bit)

lemma clz_bytes_step: "clz_bytes c x = (if unat x < 2 ^ 56 then clz_bytes (c + 8) (push_bit 8 x) else Some (c, x))"
  by (subst clz_bytes.simps) (simp only: top_byte)

lemma clz_bits_ok:
  "x \<noteq> 0 \<Longrightarrow> \<exists>k. clz_bits c x = Some (c + k) \<and> 2 ^ 63 \<le> unat x * 2 ^ k \<and> unat x * 2 ^ k < 2 ^ 64"
proof (induction "2 ^ 64 - unat x" arbitrary: c x rule: less_induct)
  case less
  show ?case
  proof (cases "unat x < 2 ^ 63")
    case True
    then have u: "unat (push_bit 1 x) = unat x * 2" using unat_shift_fits [of x 1] by simp
    moreover have "0 < unat x" using less.prems by (simp add: unat_gt_0)
    ultimately obtain k where "clz_bits (c + 1) (push_bit 1 x) = Some (c + 1 + k)"
        "2 ^ 63 \<le> unat x * 2 * 2 ^ k" "unat x * 2 * 2 ^ k < 2 ^ 64"
      using less.hyps [of "push_bit 1 x" "c + 1"] True by fastforce
    then show ?thesis using True by (intro exI [of _ "k + 1"]) (simp add: clz_bits_step [of c x] algebra_simps)
  next
    case False
    then show ?thesis using unat64_less [of x] by (intro exI [of _ 0]) (simp add: clz_bits_step)
  qed
qed

lemma clz_bytes_ok:
  "x \<noteq> 0 \<Longrightarrow> \<exists>k y. clz_bytes c x = Some (c + k, y) \<and> y \<noteq> 0 \<and> unat y = unat x * 2 ^ k"
proof (induction "2 ^ 64 - unat x" arbitrary: c x rule: less_induct)
  case less
  show ?case
  proof (cases "unat x < 2 ^ 56")
    case True
    then have u: "unat (push_bit 8 x) = unat x * 2 ^ 8" using unat_shift_fits [of x 8] by simp
    moreover have "0 < unat x" using less.prems by (simp add: unat_gt_0)
    ultimately obtain k y where "clz_bytes (c + 8) (push_bit 8 x) = Some (c + 8 + k, y)" "y \<noteq> 0"
        "unat y = unat x * 2 ^ 8 * 2 ^ k"
      using less.hyps [of "push_bit 8 x" "c + 8"] True by fastforce
    then show ?thesis using True
      by (intro exI [of _ "k + 8"] exI [of _ y]) (simp add: clz_bytes_step [of c x] power_add algebra_simps)
  next
    case False
    then show ?thesis using less.prems by (intro exI [of _ 0] exI [of _ x]) (simp add: clz_bytes_step)
  qed
qed

lemma gmp_clz_ok:
  assumes "x \<noteq> 0"
  shows "\<exists>c < 64. gmp_clz x = Some c \<and> 2 ^ 63 \<le> unat x * 2 ^ c \<and> unat x * 2 ^ c < 2 ^ 64"
proof -
  obtain k y where y: "clz_bytes 0 x = Some (k, y)" "y \<noteq> 0" "unat y = unat x * 2 ^ k"
    using clz_bytes_ok [OF assms, of 0] by auto
  obtain l where l: "clz_bits k y = Some (k + l)" "2 ^ 63 \<le> unat y * 2 ^ l" "unat y * 2 ^ l < 2 ^ 64"
    using clz_bits_ok [OF y(2)] by blast
  have v: "unat y * 2 ^ l = unat x * 2 ^ (k + l)" using y(3) by (simp add: power_add)
  have "2 ^ (k + l) \<le> unat x * 2 ^ (k + l)" using assms by (simp add: unat_gt_0 Suc_le_eq)
  also have "\<dots> < 2 ^ 64" using l(3) v by simp
  finally have "k + l < 64" by (rule power_less_imp_less_exp [rotated]) simp
  moreover have "gmp_clz x = Some (k + l)" using y l by (simp add: gmp_clz_def)
  ultimately show ?thesis using l v by (intro exI [of _ "k + l"]) (simp only:)
qed

text \<open>There is no bit to be found in 0, and then the loop over the bytes has no end.\<close>

lemma clz_bytes_zero: "clz_bytes c 0 = Some r \<Longrightarrow> False"
proof -
  have "(case a of (c, x) \<Rightarrow> \<lambda>y. x \<noteq> 0) y" if "(case a of (c, x) \<Rightarrow> clz_bytes c x) = Some y" for a y
  proof (rule clz_bytes.raw_induct [OF _ that])
    fix f and c :: nat and x :: u64 and y :: "nat \<times> u64"
    assume "\<And>c x y. f c x = Some y \<Longrightarrow> x \<noteq> 0" "(if x AND push_bit 56 0xff = 0 then f (c + 8) (push_bit 8 x) else Some (c, x)) = Some y"
    then show "x \<noteq> 0" by fastforce
  qed
  from this [of "(c, 0)"] show "clz_bytes c 0 = Some r \<Longrightarrow> False" by simp
qed

lemma gmp_clz_zero: "gmp_clz 0 = None"
  using clz_bytes_zero [of 0] by (cases "clz_bytes 0 0") (auto simp: gmp_clz_def)

subsection \<open>Trailing zeros\<close>

lemma power_two_split:
  assumes "0 < (n :: nat)"
  obtains k m where "n = m * 2 ^ k" "odd m"
  using assms
proof (induction n arbitrary: thesis rule: less_induct)
  case (less n)
  show ?case
  proof (cases "odd n")
    case True
    then show ?thesis using less.prems(1) [of n 0] by simp
  next
    case False
    then obtain h where h: "n = 2 * h" by (auto elim: evenE)
    obtain k m where "h = m * 2 ^ k" "odd m" using less.IH [of h] h less.prems(2) by (metis One_nat_def lessI mult_less_cancel2 nat_0_less_mult_iff nat_1_add_1 nat_mult_1 one_less_numeral_iff plus_1_eq_Suc semiring_norm(76))
    then show ?thesis using h less.prems(1) [of m "k + 1"] by simp
  qed
qed

lemma odd_and_minus:
  assumes "odd (y :: u64)"
  shows "y AND - y = 1"
proof -
  have "y AND 1 = 1" using assms by (simp add: and_one_eq odd_iff_mod_2_eq_one)
  moreover have "(y AND NOT 1) + (y AND 1) = y"
    by (subst disjunctive_add) (auto simp: bit_simps intro!: bit_eqI)
  ultimately have "y AND NOT 1 = y - 1" by (simp only: eq_diff_eq)
  then have "NOT (y AND NOT 1) = NOT (y - 1)" by (rule arg_cong)
  also have "\<dots> = - y" by (rule minus_eq_not_minus_1 [symmetric])
  finally have "y AND - y = y AND NOT (y AND NOT 1)" by (simp only:)
  also have "\<dots> = 1" using \<open>y AND 1 = 1\<close> by (simp add: bit.conj_disj_distrib)
  finally show ?thesis .
qed

lemma and_minus_self:
  assumes "unat x = m * 2 ^ k" "odd m"
  shows "unat ((x :: u64) AND - x) = 2 ^ k"
proof -
  have k: "k < 64"
  proof (rule ccontr)
    assume "\<not> k < 64"
    then have "2 ^ 64 \<le> (2 :: nat) ^ k" by (intro power_increasing) auto
    also have "\<dots> \<le> m * 2 ^ k" using assms(2) by (simp add: odd_pos Suc_le_eq)
    finally show False using unat64_less [of x] assms(1) by simp
  qed
  define y where "y = (word_of_nat m :: u64)"
  have "x = word_of_nat (unat x)" by simp
  then have x: "x = push_bit k y" using assms(1) by (simp add: y_def push_bit_eq_mult)
  have "odd y" using assms(2) by (simp add: y_def even_of_nat)
  have "x AND - x = push_bit k (y AND - y)" by (simp add: x push_bit_and push_bit_minus)
  also have "\<dots> = push_bit k 1" using \<open>odd y\<close> by (simp add: odd_and_minus)
  finally show ?thesis using k unat_shift_fits [of 1 k] power_strict_increasing [of k 64 "2 :: nat"] by simp
qed

lemma gmp_ctz_ok:
  assumes "unat x = m * 2 ^ k" "odd m"
  shows "gmp_ctz x = Some k"
proof -
  have u: "unat (x AND - x) = 2 ^ k" using assms by (rule and_minus_self)
  then have "x AND - x \<noteq> 0" by (metis power_eq_0_iff unat_0 zero_neq_numeral)
  then obtain c where c: "c < 64" "gmp_clz (x AND - x) = Some c" "2 ^ 63 \<le> unat (x AND - x) * 2 ^ c" "unat (x AND - x) * 2 ^ c < 2 ^ 64"
    using gmp_clz_ok by blast
  have "2 ^ 63 \<le> (2 :: nat) ^ (k + c)" "(2 :: nat) ^ (k + c) < 2 ^ 64" using c u by (simp_all add: power_add)
  then have "63 \<le> k + c" "k + c < 64" by (metis one_less_numeral_iff power_le_imp_le_exp semiring_norm(76), metis numeral_One one_less_numeral_iff power_less_imp_less_exp semiring_norm(76))
  then show ?thesis using c by (simp add: gmp_ctz_def)
qed

subsection \<open>The greatest common divisor of two limbs\<close>

lemma and_1_iff: "x AND 1 = 0 \<longleftrightarrow> even (unat (x :: u64))"
proof -
  have "x AND 1 = 0 \<longleftrightarrow> even x" by (simp add: and_one_eq even_iff_mod_2_eq_zero)
  also have "\<dots> \<longleftrightarrow> even (word_of_nat (unat x) :: u64)" by simp
  finally show ?thesis by (simp only: even_of_nat)
qed

lemma unat_drop_bit: "unat (drop_bit k (x :: u64)) = unat x div 2 ^ k"
  by (subst unat_drop_bit_eq) (simp add: drop_bit_eq_div)

lemma strip_twos_ok:
  "v \<noteq> 0 \<Longrightarrow> \<exists>w k. strip_twos v = Some w \<and> unat v = unat w * 2 ^ k \<and> odd (unat w)"
proof (induction "unat v" arbitrary: v rule: less_induct)
  case less
  show ?case
  proof (cases "even (unat v)")
    case True
    then have u: "unat v = unat (drop_bit 1 v) * 2" by (simp add: unat_drop_bit)
    moreover have "0 < unat v" using less.prems by (simp add: unat_gt_0)
    ultimately have "unat (drop_bit 1 v) < unat v" "drop_bit 1 v \<noteq> 0" by (auto simp: unat_gt_0 [symmetric] simp del: unat_gt_0)
    from less.hyps [OF this] obtain w k where
      "strip_twos (drop_bit 1 v) = Some w" "unat (drop_bit 1 v) = unat w * 2 ^ k" "odd (unat w)" by blast
    then show ?thesis using True u
      by (intro exI [of _ w] exI [of _ "k + 1"]) (simp add: strip_twos.simps [of v] and_1_iff)
  next
    case False
    then show ?thesis by (intro exI [of _ v] exI [of _ 0]) (simp add: strip_twos.simps and_1_iff)
  qed
qed

lemma gcd_odd_part: "odd (v :: nat) \<Longrightarrow> gcd (w * 2 ^ k) v = gcd w v"
  by (intro gcd_mult_left_right_cancel) simp

text \<open>One turn of the main loop: the difference of two odd numbers without its factors of two.\<close>

lemma gcd_turn:
  assumes "odd (unat u)" "odd (unat v)" "v < u"
  shows "\<exists>w. strip_twos (drop_bit 1 (u - v)) = Some w \<and> odd (unat w) \<and> unat w < unat u \<and> gcd (unat w) (unat v) = gcd (unat u) (unat v)"
proof -
  have d: "unat (u - v) = unat u - unat v" "unat v < unat u" using assms(3) unat_sub [of v u] by (simp_all add: word_less_nat_alt word_le_nat_alt)
  then have e: "even (unat (u - v))" using assms(1,2) by simp
  then have h: "unat (u - v) = unat (drop_bit 1 (u - v)) * 2" by (simp add: unat_drop_bit)
  then have "drop_bit 1 (u - v) \<noteq> 0" using d by auto
  from strip_twos_ok [OF this] obtain w k where
    w: "strip_twos (drop_bit 1 (u - v)) = Some w" "unat (drop_bit 1 (u - v)) = unat w * 2 ^ k" "odd (unat w)" by blast
  have "unat (u - v) = unat w * 2 ^ (k + 1)" using h w(2) by simp
  moreover have "gcd (unat (u - v)) (unat v) = gcd (unat u) (unat v)" using d by (simp add: gcd_diff1_nat)
  moreover have "unat w \<le> unat w * 2 ^ (k + 1)" "unat (u - v) < unat u" using d odd_pos [OF assms(2)] by simp_all
  ultimately have "unat w < unat u" "gcd (unat w) (unat v) = gcd (unat u) (unat v)"
    using gcd_odd_part [OF assms(2), of "unat w" "k + 1"] by (linarith, simp)
  then show ?thesis using w by blast
qed

lemma gcd_loop_ok:
  "odd (unat u) \<Longrightarrow> odd (unat v) \<Longrightarrow> \<exists>g. gcd_loop u v = Some g \<and> unat g = gcd (unat u) (unat v)"
proof (induction "unat u + unat v" arbitrary: u v rule: less_induct)
  case less
  consider "u = v" | "v < u" | "u < v" by fastforce
  then show ?case
  proof cases
    case 1
    then show ?thesis by (simp add: gcd_loop.simps)
  next
    case 2
    then show ?thesis using gcd_turn [OF less.prems 2] less.hyps [OF _ _ less.prems(2)] by (fastforce simp: gcd_loop.simps [of u v])
  next
    case 3
    then show ?thesis using gcd_turn [OF less.prems(2,1) 3] less.hyps [OF _ less.prems(1)]
      by (fastforce simp: gcd_loop.simps [of u v] gcd.commute)
  qed
qed

lemma gcd_shift_back:
  assumes "unat (g :: u64) = gcd a b" "gcd (a * 2 ^ k) (b * 2 ^ k) \<le> unat (x :: u64)"
  shows "unat (push_bit k g) = gcd (a * 2 ^ k) (b * 2 ^ k)"
proof -
  have e: "gcd (a * 2 ^ k) (b * 2 ^ k) = unat g * 2 ^ k" using assms(1) by (simp add: gcd_mult_right gcd.commute)
  then have "unat g * 2 ^ k < 2 ^ 64" using assms(2) unat64_less [of x] by linarith
  then show ?thesis using e by (simp only: unat_shift_fits)
qed

lemma take_bit_zero: "take_bit k w = 0 \<longleftrightarrow> unat (w :: u64) mod 2 ^ k = 0"
proof -
  have "unat (take_bit k w) = unat w mod 2 ^ k" by (subst unsigned_take_bit_eq) (simp add: take_bit_eq_mod)
  then show ?thesis by (metis unat_eq_zero)
qed

text \<open>The common factors of two of two numbers are the trailing zeros of their disjunction.\<close>

lemma common_twos:
  assumes "u \<noteq> 0" "v \<noteq> 0"
  shows "\<exists>k. gmp_ctz (u OR v) = Some k \<and> unat u = unat (drop_bit k u) * 2 ^ k \<and> unat v = unat (drop_bit k v) * 2 ^ k \<and>
    (odd (unat (drop_bit k u)) \<or> odd (unat (drop_bit k v)))"
proof -
  have "u OR v \<noteq> 0" using assms by (simp add: or_eq_0_iff)
  then have "0 < unat (u OR v)" by (simp add: unat_gt_0)
  then obtain k m where m: "unat (u OR v) = m * 2 ^ k" "odd m" by (rule power_two_split)
  have "take_bit k (u OR v) = 0" unfolding take_bit_zero using m(1) by simp
  then have z: "take_bit k u = 0" "take_bit k v = 0" by (simp_all add: or_eq_0_iff)
  have d: "unat w = unat (drop_bit k w) * 2 ^ k" if "take_bit k w = 0" for w :: u64
  proof -
    have "unat w mod 2 ^ k = 0" using that by (simp add: take_bit_zero)
    then show ?thesis by (simp add: unat_drop_bit) (metis dvd_div_mult_self mod_0_imp_dvd)
  qed
  have "unat (drop_bit k u OR drop_bit k v) = m" using m(1) by (simp add: unat_drop_bit flip: drop_bit_or)
  then have "odd (unat (drop_bit k u)) \<or> odd (unat (drop_bit k v))" using m(2) and_1_iff [of "drop_bit k u OR drop_bit k v"] and_1_iff [of "drop_bit k u"] and_1_iff [of "drop_bit k v"]
    by (auto simp: bit.conj_disj_distrib2)
  then show ?thesis using gmp_ctz_ok [OF m] d [OF z(1)] d [OF z(2)] by blast
qed

lemma gcd_11_core:
  assumes "odd (unat a)" "b \<noteq> 0"
  shows "\<exists>w g. strip_twos b = Some w \<and> gcd_loop a w = Some g \<and> unat g = gcd (unat a) (unat b)"
proof -
  obtain w k where w: "strip_twos b = Some w" "unat b = unat w * 2 ^ k" "odd (unat w)" using strip_twos_ok [OF assms(2)] by blast
  obtain g where "gcd_loop a w = Some g" "unat g = gcd (unat a) (unat w)" using gcd_loop_ok [OF assms(1) w(3)] by blast
  then show ?thesis using w gcd_odd_part [OF assms(1), of "unat w" k] by (simp add: gcd.commute)
qed

lemma gcd_11_nonzero:
  assumes "u \<noteq> 0" "v \<noteq> 0"
  shows "mpn_gcd_11 u v = Inr (word_of_nat (gcd (unat u) (unat v)))"
proof -
  obtain k where k: "gmp_ctz (u OR v) = Some k" "unat u = unat (drop_bit k u) * 2 ^ k" "unat v = unat (drop_bit k v) * 2 ^ k"
      "odd (unat (drop_bit k u)) \<or> odd (unat (drop_bit k v))" using common_twos [OF assms] by blast
  define a b where "a = (if drop_bit k u AND 1 = 0 then drop_bit k v else drop_bit k u)"
    and "b = (if drop_bit k u AND 1 = 0 then drop_bit k u else drop_bit k v)"
  have ab: "(if drop_bit k u AND 1 = 0 then (drop_bit k v, drop_bit k u) else (drop_bit k u, drop_bit k v)) = (a, b)"
    by (simp only: a_def b_def split: if_split) simp
  have "odd (unat a)" "gcd (unat a) (unat b) = gcd (unat (drop_bit k u)) (unat (drop_bit k v))"
    using k(4) by (auto simp: a_def b_def and_1_iff gcd.commute)
  moreover have "b \<noteq> 0" using k(2,3) assms by (auto simp: b_def unat_eq_zero split: if_splits)
  ultimately obtain w g where g: "strip_twos b = Some w" "gcd_loop a w = Some g" "unat g = gcd (unat (drop_bit k u)) (unat (drop_bit k v))"
    using gcd_11_core [of a b] by auto
  have "gcd (unat u) (unat v) \<le> unat u" using assms(1) by (intro gcd_le1_nat) (simp add: unat_eq_zero)
  then have "unat (push_bit k g) = gcd (unat u) (unat v)" using gcd_shift_back [OF g(3), of k u] k(2,3) by simp
  then have "push_bit k g = word_of_nat (gcd (unat u) (unat v))" by (metis of_nat_unat ucast_id)
  moreover have "(u OR v) > 0" using assms(1) or_eq_0_iff [of u v] by (simp only: word_gt_0) auto
  ultimately show ?thesis using assms k(1) ab g by (simp add: mpn_gcd_11_def returns_def Let_def)
qed

text \<open>
  C39: the greatest common divisor of two limbs. The loops of \<open>mpn_gcd_11\<close> end for all arguments that
  are not both 0, and the result is the greatest common divisor; if both are 0 the assertion fails,
  before the search for a bit, which would have no end.
\<close>

theorem mpn_gcd_11_gcd:
  "mpn_gcd_11 u v = (if u = 0 \<and> v = 0 then crash Assert_Failed else Inr (word_of_nat (gcd (unat u) (unat v))))"
proof (cases "u = 0 \<or> v = 0")
  case True
  then show ?thesis by (auto simp: mpn_gcd_11_def c_assert_def word_neq_0_conv)
next
  case False
  then show ?thesis using gcd_11_nonzero [of u v] by auto
qed

subsection \<open>Scanning for a bit\<close>

lemma ctz_lowest:
  assumes "bit (x :: u64) k" "\<And>t. t < k \<Longrightarrow> \<not> bit x t"
  shows "gmp_ctz x = Some k"
proof (rule gmp_ctz_ok)
  have "take_bit k x = 0" using assms(2) by (auto intro!: bit_eqI simp: bit_take_bit_iff)
  then have "unat x mod 2 ^ k = 0" by (simp only: take_bit_zero)
  then show "unat x = unat (drop_bit k x) * 2 ^ k" by (simp add: unat_drop_bit) (metis dvd_div_mult_self mod_0_imp_dvd)
  have "bit (drop_bit k x) 0" using assms(1) by (simp add: bit_drop_bit_eq)
  then have "drop_bit k x AND 1 \<noteq> 0" by (auto simp: bit_0 and_one_eq even_iff_mod_2_eq_zero)
  then show "odd (unat (drop_bit k x))" by (simp only: and_1_iff) simp
qed

lemma scan_limbs_ok:
  assumes "un \<le> i" "i \<le> j div 64" "\<And>t. bit limb t \<Longrightarrow> j \<le> i * 64 + t" "i = j div 64 \<Longrightarrow> bit limb (j mod 64)"
    and "\<And>k. (i + 1) * 64 \<le> k \<Longrightarrow> k < j \<Longrightarrow> \<not> bit (ux XOR m (up + k div 64)) (k mod 64)"
    and "i < j div 64 \<Longrightarrow> bit (ux XOR m (up + j div 64)) (j mod 64)"
  shows "scan_limbs m up un ux limb i = Some (word_of_nat j)"
  using assms
proof (induction "j div 64 - i" arbitrary: i limb rule: less_induct)
  case less
  show ?case
  proof (cases "limb = 0")
    case True
    then have "i \<noteq> j div 64" using less.prems(4) by auto
    then have i: "i < j div 64" using less.prems(2) by simp
    let ?l = "ux XOR m (up + (i + 1))"
    have "scan_limbs m up un ux ?l (i + 1) = Some (word_of_nat j)"
    proof (rule less.hyps)
      show "j \<le> (i + 1) * 64 + t" if b: "bit ?l t" for t
      proof (rule ccontr)
        assume "\<not> j \<le> (i + 1) * 64 + t"
        moreover have "t < 64" using bit_imp_le_length [OF b] by simp
        moreover from this have "((i + 1) * 64 + t) div 64 = i + 1" "((i + 1) * 64 + t) mod 64 = t" using div_mult_self3 [of 64 "i + 1" t] mod_mult_self3 [of "i + 1" 64 t] by simp_all
        ultimately show False using less.prems(5) [of "(i + 1) * 64 + t"] b by (metis le_add1 not_le)
      qed
    qed (use less.prems i in \<open>auto simp: algebra_simps\<close>)
    then show ?thesis using True less.prems(1) by (subst scan_limbs.simps) simp
  next
    case False
    then obtain t where t: "bit limb t" using bit_eq_iff [of limb 0] by auto
    then have "j \<le> i * 64 + t" "t < 64" using less.prems(3) bit_imp_le_length [OF t] by auto
    then have i: "i = j div 64" using less.prems(2) by simp
    have "gmp_ctz limb = Some (j mod 64)"
    proof (rule ctz_lowest)
      show "\<not> bit limb t" if "t < j mod 64" for t
        using less.prems(3) [of t] that i by (metis add_less_cancel_left div_mult_mod_eq not_less)
    qed (use less.prems(4) i in simp)
    moreover have "(word_of_nat i * 64 + word_of_nat (j mod 64) :: u64) = word_of_nat (i * 64 + j mod 64)" by simp
    ultimately show ?thesis using False i by (subst scan_limbs.simps) (simp only: if_False bind.bind_lunit Option.bind.simps div_mult_mod_eq)
  qed
qed

definition bit_at :: "limb_mem \<Rightarrow> nat \<Rightarrow> nat \<Rightarrow> bool" where
  "bit_at m p k = bit (m (p + k div 64)) (k mod 64)"

lemma scan_from:
  assumes "unat b \<le> j" "\<And>k. unat b \<le> k \<Longrightarrow> k < j \<Longrightarrow> \<not> bit (ux XOR m (p + k div 64)) (k mod 64)"
    and "bit (ux XOR m (p + j div 64)) (j mod 64)" "ux = 0 \<or> ux = NOT 0"
  shows "mpn_common_scan ((ux XOR m (p + unat b div 64)) AND push_bit (unat b mod 64) (NOT 0)) (unat b div 64) p (unat b div 64) ux m =
    Inr (word_of_nat j)"
proof -
  let ?i = "unat b div 64" and ?t = "unat b mod 64"
  let ?x = "ux XOR m (p + ?i)"
  have l: "bit (?x AND push_bit ?t (NOT 0)) t \<longleftrightarrow> ?t \<le> t \<and> bit ?x t" for t
    by (auto simp: bit_and_iff bit_not_iff bit_mask_iff dest: bit_imp_le_length)
  have "scan_limbs m p ?i ux (?x AND push_bit ?t (NOT 0)) ?i = Some (word_of_nat j)"
  proof (rule scan_limbs_ok)
    show "j \<le> ?i * 64 + t" if b: "bit (?x AND push_bit ?t (NOT 0)) t" for t
    proof (rule ccontr)
      assume "\<not> j \<le> ?i * 64 + t"
      moreover have "t < 64" using bit_imp_le_length [OF b] by simp
      moreover from this have "(?i * 64 + t) div 64 = ?i" "(?i * 64 + t) mod 64 = t" by simp_all
      moreover have "unat b \<le> ?i * 64 + t" using b l by (metis add_le_cancel_left div_mult_mod_eq)
      ultimately show False using assms(2) [of "?i * 64 + t"] b l by auto
    qed
    show "bit (?x AND push_bit ?t (NOT 0)) (j mod 64)" if i: "?i = j div 64"
    proof -
      have "?t \<le> j mod 64" using i assms(1) by (metis add_le_cancel_left div_mult_mod_eq)
      then show ?thesis using i assms(3) l by auto
    qed
    show "\<not> bit (ux XOR m (p + k div 64)) (k mod 64)" if "(?i + 1) * 64 \<le> k" "k < j" for k
      using that by (intro assms(2)) auto
  qed (use assms in \<open>auto intro: div_le_mono\<close>)
  then show ?thesis using assms(4) by (simp add: mpn_common_scan_def returns_def)
qed

text \<open>
  Scanning. Starting at a given position, \<open>mpn_scan1\<close> finds the first bit that is set and
  \<open>mpn_scan0\<close> the first one that is not, over all the limbs in between, provided that there is one.
\<close>

theorem mpn_scan_first:
  assumes "unat b \<le> j" "\<And>k. unat b \<le> k \<Longrightarrow> k < j \<Longrightarrow> bit_at m p k \<noteq> v" "bit_at m p j = v"
  shows "(if v then mpn_scan1 p b m else mpn_scan0 p b m) = Inr (word_of_nat j)"
proof (cases v)
  case True
  then show ?thesis using scan_from [of b j 0 m p] assms
    by (simp add: mpn_scan1_def bit_at_def unat_div unat_mod Let_def)
next
  case False
  have "NOT x = NOT 0 XOR x" for x :: u64 by (rule bit_eqI) (simp add: bit_xor_iff bit_not_iff)
  then show ?thesis using False scan_from [of b j "NOT 0" m p] assms
    by (simp add: mpn_scan0_def bit_at_def unat_div unat_mod Let_def bit_not_iff)
qed

theorem mpn_scan_first_witness: "mpn_scan1 0 3 (\<lambda>i. if i = 1 then 8 else 0) = Inr 67"
proof -
  have "bit_at (\<lambda>i. if i = 1 then 8 else 0) 0 k \<noteq> True" if "unat (3 :: u64) \<le> k" "k < 67" for k
  proof -
    have "k < 64 \<or> k = 64 \<or> k = 65 \<or> k = 66" using that(2) by linarith
    then show ?thesis by (auto simp: bit_at_def)
  qed
  then show ?thesis using mpn_scan_first [of 3 67 "\<lambda>i. if i = 1 then 8 else 0" 0 True] by (simp add: bit_at_def)
qed

end
