(* ===== verification/Limb_Inverse.thy ===== *)
theory Limb_Inverse
  imports Limb_Div Limb_Bits
begin

section \<open>The inverse of a divisor\<close>

text \<open>
  The function \<open>mpn_invert_3by2\<close> of \<open>mini-gmp.c\<close>, which computes the inverse of a normalised divisor of two
  limbs without a division of two limbs. The property at the end states which number that is.
\<close>

declare of_nat_unat [simp del]

subsection \<open>Definitions\<close>

text \<open>
  The inverse of a divisor of two limbs, in three parts: the high half of the inverse of the high limb, its
  low half, and the adjustment for the low limb. The variable \<open>qh\<close> has half the size of a limb.
\<close>

definition invert_high :: "u64 \<Rightarrow> u64 \<times> u64" where
  "invert_high u1 =
     (let ul = lpart u1; uh = hpart u1;
          qh = lpart (NOT u1 div uh);
          r = push_bit 32 (NOT u1 - qh * uh) OR 0xFFFFFFFF;
          p = qh * ul;
          (qh, r) =
            (if r < p then
               let qh = lpart (qh - 1); r = r + u1
               in if r \<ge> u1 \<and> r < p then (lpart (qh - 1), r + u1) else (qh, r)
             else (qh, r))
      in (qh, r - p))"

definition invert_low :: "u64 \<Rightarrow> u64 \<Rightarrow> u64 \<Rightarrow> u64 \<times> u64" where
  "invert_low u1 qh r =
     (let p = drop_bit 32 r * qh + r;
          ql = drop_bit 32 p + 1;
          r = push_bit 32 r + 0xFFFFFFFF - ql * u1;
          (ql, r) = (if r \<ge> push_bit 32 p then (ql - 1, r + u1) else (ql, r));
          m = push_bit 32 qh + ql
      in if r \<ge> u1 then (m + 1, r - u1) else (m, r))"

definition invert_adjust :: "u64 \<Rightarrow> u64 \<Rightarrow> u64 \<Rightarrow> u64 \<Rightarrow> u64" where
  "invert_adjust u1 u0 m r =
     (let r = NOT r;
          r = r + u0;
          (m, r) =
            (if r < u0 then
               let m = m - 1; (m, r) = (if r \<ge> u1 then (m - 1, r - u1) else (m, r))
               in (m, r - u1)
             else (m, r));
          (th, tlo) = gmp_umul_ppmm u0 m;
          r = r + th
      in if r < th then m - 1 - of_bool (r > u1 \<or> r = u1 \<and> tlo > u0) else m)"

definition mpn_invert_3by2 :: "u64 \<Rightarrow> u64 \<Rightarrow> u64 res" where
  "mpn_invert_3by2 u1 u0 =
     bindE (c_assert (u1 \<ge> GMP_LIMB_HIGHBIT)) (\<lambda>_.
     let (qh, r) = invert_high u1; (m, r) = invert_low u1 qh r
     in Inr (if u0 > 0 then invert_adjust u1 u0 m r else m))"

definition mpn_invert_limb :: "u64 \<Rightarrow> u64 res" where
  "mpn_invert_limb x = mpn_invert_3by2 x 0"

subsection \<open>Half limbs\<close>

lemma uint_lpart: "uint (lpart x) = uint x mod 2 ^ 32"
  using unat_lpart [of x] by (simp add: uint_nat zmod_int)

lemma uint_sub_mod: "uint (x - y :: u64) mod 2 ^ 32 = (uint x - uint y) mod 2 ^ 32"
proof -
  have "((uint x - uint y) mod IB) mod 2 ^ 32 = (uint x - uint y) mod 2 ^ 32" by (rule mod_mod_cancel) (simp add: dvd_def)
  then show ?thesis by (simp add: uint_word_ariths)
qed

lemma lpart_sub: "lpart (lpart x - y) = lpart (x - y)"
  unfolding word_uint_eq_iff uint_lpart uint_sub_mod by (rule mod_diff_left_eq)

lemma lpart_small: "unat x < 2 ^ 32 \<Longrightarrow> lpart x = x"
  by (simp add: word_unat_eq_iff unat_lpart)

lemma not_small:
  assumes "2 ^ 63 \<le> unat u1"
  shows "unat (NOT u1) < 2 ^ 63" "unat (NOT u1 div hpart u1) < 2 ^ 32"
proof -
  show n: "unat (NOT u1) < 2 ^ 63" using unat_not [of u1] assms by (simp add: BB_def)
  have "2 ^ 31 \<le> unat (hpart u1)" using assms div_le_mono [of "2 ^ 63" "unat u1" "2 ^ 32"] by (simp add: unat_hpart)
  then have "2 ^ 32 * 2 ^ 31 \<le> 2 ^ 32 * unat (hpart u1)" by (rule mult_le_mono2)
  then have "unat (NOT u1) < 2 ^ 32 * unat (hpart u1)" using n by simp
  then show "unat (NOT u1 div hpart u1) < 2 ^ 32" by (simp add: unat_div less_mult_imp_div_less)
qed

lemma invert_high_half:
  assumes "2 ^ 63 \<le> unat u1" "udiv_half (NOT u1) 0xFFFFFFFF u1 = (q, r)"
  shows "invert_high u1 = (lpart q, r)"
proof -
  have q: "lpart (NOT u1 div hpart u1) = NOT u1 div hpart u1" using not_small [OF assms(1)] by (intro lpart_small)
  have "push_bit 32 x = x * ll_B" for x :: u64 by (simp add: ll_B_def push_bit_eq_mult)
  then show ?thesis using assms(2) unfolding invert_high_def udiv_half_def Let_def q
    by (auto simp: q lpart_sub split: if_splits)
qed

lemma invert_high_ok:
  assumes "invert_high u1 = (qh, r)" "2 ^ 63 \<le> unat u1"
  shows "uint qh * uint u1 + uint r = (IB - 1 - uint u1) * 2 ^ 32 + (2 ^ 32 - 1)" "uint r < uint u1" "uint qh < 2 ^ 32"
proof -
  obtain q r' where h: "udiv_half (NOT u1) 0xFFFFFFFF u1 = (q, r')" by (metis surj_pair)
  have n: "unat (NOT u1) < unat u1" using not_small(1) [OF assms(2)] assms(2) by linarith
  have v: "unat q = (unat (NOT u1) * 2 ^ 32 + (2 ^ 32 - 1)) div unat u1" "unat r' = (unat (NOT u1) * 2 ^ 32 + (2 ^ 32 - 1)) mod unat u1"
    using udiv_half_value [OF h assms(2) n] by simp_all
  have "(unat (NOT u1) + 1) * 2 ^ 32 \<le> unat u1 * 2 ^ 32" using n by (intro mult_le_mono1) simp
  then have q: "unat q < 2 ^ 32" unfolding v by (intro less_mult_imp_div_less) simp
  then have e: "qh = q" "r = r'" using invert_high_half [OF assms(2) h] assms(1) by (simp_all add: lpart_small)
  have "unat q * unat u1 + unat r' = unat (NOT u1) * 2 ^ 32 + (2 ^ 32 - 1)" unfolding v by simp
  then have "int (unat q * unat u1 + unat r') = int (unat (NOT u1) * 2 ^ 32 + (2 ^ 32 - 1))" by (rule arg_cong)
  then have "uint q * uint u1 + uint r' = uint (NOT u1) * 2 ^ 32 + (2 ^ 32 - 1)" by (simp add: uint_nat)
  moreover have "uint (NOT u1) = IB - 1 - uint u1" using arg_cong [OF unat_not [of u1], of int] by (simp add: uint_nat BB_def)
  ultimately show "uint qh * uint u1 + uint r = (IB - 1 - uint u1) * 2 ^ 32 + (2 ^ 32 - 1)" using e by simp
  have "unat r' < unat u1" unfolding v using n by simp
  then show "uint r < uint u1" using e by (simp add: uint_nat)
  show "uint qh < 2 ^ 32" using e q by (simp add: uint_nat)
qed

lemma uint_drop32: "uint (drop_bit 32 (x :: u64)) = uint x div 2 ^ 32"
  using unat_hpart [of x] by (simp add: hpart_def uint_nat zdiv_int)

lemma uint_push32: "uint (push_bit 32 (x :: u64)) = uint x mod 2 ^ 32 * 2 ^ 32"
  using unat_push32 [of x] by (simp add: uint_nat zmod_int)

lemma invert_low_ok:
  assumes "invert_low u1 qh r = (m, s)" "2 ^ 63 \<le> uint u1" "uint r < uint u1" "uint qh < 2 ^ 32"
    and qh: "uint qh * uint u1 + uint r = (IB - 1 - uint u1) * 2 ^ 32 + (2 ^ 32 - 1)"
  shows "(uint m + IB) * uint u1 + uint s = IB * IB - 1 \<and> uint s < uint u1"
proof -
  define b D v n2 n1 where "b = (2 ^ 32 :: int)" and "D = uint u1" and "v = uint qh" and "n2 = uint r div b" and "n1 = uint r mod b"
  have bb: "b * b = IB" by (simp add: b_def)
  have D: "b * b \<le> 2 * D" "D < b * b" using assms(2) uint_less_IB [of u1] by (simp_all add: bb D_def)
  have n: "0 \<le> n2" "0 \<le> n1" "n1 < b" "n2 * b + n1 < D" "n2 * b + n1 = uint r" using assms(3)
    by (simp_all add: n2_def n1_def b_def D_def pos_imp_zdiv_nonneg_iff)
  have qh': "v * D + uint r = b * b * b - D * b - 1" using qh by (simp add: b_def v_def D_def algebra_simps)
  have v: "0 \<le> v" "D * (v + b) < b * b * b" "b * b * b \<le> D * (v + b) + D"
  proof -
    have "D * (v + b) = v * D + D * b" by (simp add: algebra_simps)
    then show "D * (v + b) < b * b * b" "b * b * b \<le> D * (v + b) + D" using qh' n uint_ge_0 [of r] by linarith+
  qed (simp add: v_def)
  define p where "p = drop_bit 32 r * qh + r"
  have p: "uint p = (v + b) * n2 + n1"
  proof -
    have "(v + b) * n2 + n1 = v * n2 + uint r" using n(5) by (simp add: algebra_simps)
    moreover have "drop_bit 32 r = word_of_int n2" unfolding n2_def b_def uint_drop32 [symmetric] by simp
    ultimately have "p = word_of_int ((v + b) * n2 + n1)" by (simp add: p_def v_def)
    moreover have "0 \<le> (v + b) * n2 + n1" "(v + b) * n2 + n1 < IB"
      using quotient_estimate_less [of b v D n1 n2] v n bb by (simp_all add: b_def)
    ultimately show ?thesis by (simp only: uint_wrap mod_pos_pos_trivial)
  qed
  define q1 q0 where "q1 = uint p div b" and "q0 = uint p mod b"
  have q: "q1 * b + q0 = (v + b) * n2 + n1" "0 \<le> q0" "q0 < b" by (simp_all add: q1_def q0_def p [symmetric]) (simp_all add: b_def)
  define R where "R = n2 * (b * b) + n1 * b + (b - 1) - (q1 + 1) * D"
  have b2: "2 \<le> b" "0 \<le> b - 1" "b - 1 < b" by (simp_all add: b_def)
  note est = estimate_3by2 [OF b2(1) D v n(1-3) b2(2,3) n(4) q R_def]
  define w where "w = push_bit 32 r + 0xFFFFFFFF - (drop_bit 32 p + 1) * u1"
  have "w = word_of_int R"
  proof -
    have "R = uint r * b + (b - 1) - (q1 + 1) * D" unfolding n(5) [symmetric] by (simp add: R_def algebra_simps)
    moreover have "drop_bit 32 p = word_of_int q1" unfolding q1_def b_def uint_drop32 [symmetric] by simp
    ultimately show ?thesis by (simp add: w_def b_def D_def push_bit_eq_mult)
  qed
  then have w: "uint w = R mod IB" by (simp only: uint_wrap)
  have cmp: "w \<ge> push_bit 32 p \<longleftrightarrow> q0 * b \<le> R mod IB" unfolding word_less_uint w uint_push32 q0_def b_def by simp
  define q where "q = m - push_bit 32 qh"
  have "(q, s) = (let (q, r) = (if w \<ge> push_bit 32 p then (word_of_int (q1 + 1) - 1, w + u1) else (word_of_int (q1 + 1), w)) in if r \<ge> u1 then (q + 1, r - u1) else (q, r))"
  proof -
    have "drop_bit 32 p = word_of_int q1" unfolding q1_def b_def uint_drop32 [symmetric] by simp
    then show ?thesis using assms(1) unfolding invert_low_def Let_def p_def [symmetric] w_def [symmetric] by (auto simp: q_def split: if_splits)
  qed
  then obtain Q where Q: "q = word_of_int Q" "Q * D + uint s = (q1 + 1) * D + R" "uint s < D"
    using corrected_words [of u1 "q0 * b" R w "w \<ge> push_bit 32 p" q s "q1 + 1"] D q(2,3) est w cmp bb b2 mult_right_mono [of q0 b b] unfolding D_def [symmetric] by auto
  have m: "m = word_of_int (v * b + Q)" using Q(1) by (simp add: q_def v_def b_def push_bit_eq_mult eq_diff_eq algebra_simps)
  have QD: "Q * D + uint s = uint r * b + (b - 1)" using Q(2) unfolding n(5) [symmetric] by (simp add: R_def algebra_simps)
  have N: "(v * b + Q) * D + uint s = IB * IB - IB * D - 1"
  proof -
    have "(v * b + Q) * D + uint s = (v * D + uint r) * b + (b - 1)" using QD by (simp add: algebra_simps)
    also have "\<dots> = b * b * (b * b) - b * b * D - 1" unfolding qh' by (simp add: algebra_simps)
    finally show ?thesis by (simp only: bb)
  qed
  have "IB * (IB - D) \<le> IB * D" using D bb by (intro mult_left_mono) auto
  then have "IB * IB - IB * D - 1 < D * IB" by (simp add: algebra_simps)
  moreover have "IB * 1 \<le> IB * (IB - D)" using D bb by (intro mult_left_mono) auto
  then have "0 \<le> IB * IB - IB * D - 1" by (simp add: algebra_simps)
  ultimately have "0 \<le> v * b + Q \<and> v * b + Q < IB" using N Q(3) by (intro quotient_range [of "uint s" D]) simp_all
  then have "uint m = v * b + Q" using m by (simp only: uint_wrap mod_pos_pos_trivial)
  then show ?thesis using N Q(3) by (simp add: D_def algebra_simps)
qed

text \<open>The adjustment for the low limb. A divisor whose low limb is not zero is not a power of two.\<close>

lemma no_exact_inverse:
  fixes U L x :: nat
  assumes "0 < L" "L < 2 ^ 64" "0 < U"
  shows "(U * 2 ^ 64 + L) * x \<noteq> 2 ^ n"
proof
  assume e: "(U * 2 ^ 64 + L) * x = 2 ^ n"
  obtain k m where m: "L = m * 2 ^ k" "odd m" using power_two_split [OF assms(1)] .
  have k: "k < 64"
  proof (rule ccontr)
    assume "\<not> k < 64"
    then have "2 ^ 64 \<le> (2 :: nat) ^ k" by (intro power_increasing) auto
    also have "\<dots> \<le> L" using m by (simp add: odd_pos Suc_le_eq)
    finally show False using assms(2) by simp
  qed
  define c where "c = U * 2 ^ (64 - k) + m"
  have "(2 :: nat) ^ 64 = 2 ^ (64 - k) * 2 ^ k" using k by (simp flip: power_add)
  then have "c * (2 ^ k * x) = 2 ^ n" using e m(1) by (simp add: c_def algebra_simps)
  then have "c dvd 2 ^ n" by (metis dvd_triv_left)
  moreover have "coprime c (2 ^ n)" using k m(2) by (simp add: c_def)
  ultimately have "c = 1" by (metis coprime_absorb_left dvd_1_iff_1 is_unit_gcd_iff nat_dvd_1_iff_1)
  moreover have "0 < U * 2 ^ (64 - k)" "0 < m" using assms(3) odd_pos [OF m(2)] by simp_all
  ultimately show False unfolding c_def by linarith
qed

definition defect :: "int \<Rightarrow> int \<Rightarrow> int" where
  "defect D x = IB * IB * IB - D * (x + IB)"

lemma defect_pred: "defect D (x - 1) = defect D x + D"
  by (simp add: defect_def algebra_simps)

lemma defect_pos:
  assumes "0 \<le> x" "D < IB * IB" "defect D x \<le> 0"
  shows "1 \<le> x"
proof (rule ccontr)
  assume "\<not> 1 \<le> x"
  then have "defect D x = IB * (IB * IB - D)" using assms(1) by (simp add: defect_def algebra_simps)
  then show False using assms(2,3) by (simp add: zero_less_mult_iff mult_le_0_iff)
qed

lemma inverse_2_defect: "inverse_2 D v \<longleftrightarrow> 1 \<le> defect D v \<and> defect D v \<le> D"
  by (auto simp: inverse_2_def defect_def)

lemma mod_wrap_once: "b \<le> x \<Longrightarrow> x < 2 * b \<Longrightarrow> x mod b = x - (b :: int)"
  using minus_mod_self2 [of x b] mod_pos_pos_trivial [of "x - b" b] by simp

lemma uint_pred: "1 \<le> uint (x :: u64) \<Longrightarrow> uint (x - 1) = uint x - 1"
  using uint_sub_no_wrap [of 1 x] by (simp add: word_le_def)

text \<open>First the low limb is added to the complement of the remainder.\<close>

lemma invert_adjust_high:
  fixes m m' r r' u1 u0 :: u64
  assumes inv: "(uint m + IB) * uint u1 + uint r = IB * IB - 1" "uint r < uint u1" and u1: "2 ^ 63 \<le> uint u1"
    and mr: "(m', r') = (let r = NOT r; r = r + u0 in if r < u0 then let m = m - 1; (m, r) = (if r \<ge> u1 then (m - 1, r - u1) else (m, r)) in (m, r - u1) else (m, r))"
  shows "defect (dv u1 u0) (uint m') = IB * (IB - uint r') - uint m' * uint u0 \<and> defect (dv u1 u0) (uint m') \<le> dv u1 u0"
proof -
  define D R where "D = dv u1 u0" and "R = IB - 1 - uint r + uint u0"
  define s where "s = NOT r + u0"
  have Fm: "defect D (uint m) = IB * (IB - R) - uint m * uint u0"
    using arg_cong [OF inv(1), of "\<lambda>x. IB * x"] by (simp add: defect_def D_def R_def algebra_simps)
  have "uint (NOT r) = IB - 1 - uint r" using arg_cong [OF unat_not [of r], of int] by (simp add: uint_nat BB_def)
  then have s: "uint s = R mod IB" by (simp add: s_def uint_add_wrap R_def)
  have R: "0 \<le> R" "R < 2 * IB - 1" "uint u0 \<le> R" "R - IB < uint u0" using inv(2) uint_less_IB [of u1] uint_less_IB [of u0] uint_ge_0 [of r] uint_ge_0 [of u0]
    unfolding R_def by linarith+
  have u1': "IB \<le> 2 * uint u1" using u1 by simp
  have D: "D < IB * IB" unfolding D_def by (rule dv_less)
  have next_m: "defect D (x - 1) = IB * (IB - (y - uint u1)) - (x - 1) * uint u0" if "defect D x = IB * (IB - y) - x * uint u0" for x y
    using that unfolding defect_pred by (simp add: D_def algebra_simps)
  have nonpos: "defect D x \<le> 0" if "defect D x = IB * (IB - y) - x * uint u0" "IB \<le> y" "0 \<le> x" for x y
  proof -
    have "IB * (IB - y) \<le> 0" "0 \<le> x * uint u0" using that by simp_all
    then show ?thesis using that(1) by linarith
  qed
  have w: "s = word_of_int R" using s by (simp add: word_uint_eq_iff uint_wrap)
  show ?thesis
  proof (cases "R < IB")
    case True
    then have s': "uint s = R" using s R by simp
    then have e: "m' = m" "r' = s" using mr R(3) by (auto simp: Let_def s_def [symmetric] word_less_uint)
    have "IB * (IB - R) \<le> IB * uint u1" using inv(2) uint_ge_0 [of u0] unfolding R_def by (intro mult_left_mono) (linarith, simp)
    moreover have "IB * uint u1 \<le> D" unfolding D_def by (simp add: mult.commute)
    ultimately have "IB * (IB - R) \<le> D" by (rule order.trans)
    moreover have "0 \<le> uint m * uint u0" by simp
    ultimately have "defect D (uint m) \<le> D" using Fm by linarith
    then show ?thesis using Fm s' e unfolding D_def [symmetric] by simp
  next
    case False
    have s': "uint s = R - IB" unfolding s using False R(2) by (intro mod_wrap_once) linarith+
    have m: "1 \<le> uint m" "defect D (uint m) \<le> 0" using nonpos [OF Fm] False defect_pos [OF uint_ge_0 D, of m] by simp_all
    note F1 = next_m [OF Fm, folded uint_pred [OF m(1)]]
    show ?thesis
    proof (cases "u1 \<le> s")
      case True
      then have t: "uint u1 \<le> R - IB" using s' by (simp add: word_le_def)
      have m1: "1 \<le> uint (m - 1)" "defect D (uint (m - 1)) \<le> 0" using nonpos [OF F1] t defect_pos [OF uint_ge_0 D, of "m - 1"] by simp_all
      note F2 = next_m [OF F1, folded uint_pred [OF m1(1)]]
      have "m' = m - 1 - 1" "r' = s - u1 - u1" using mr R(4) s' True by (auto simp: Let_def s_def [symmetric] word_less_uint)
      then have e: "m' = m - 1 - 1" "r' = word_of_int (R - uint u1 - uint u1)" using w by simp_all
      have "uint r' = R - uint u1 - uint u1" unfolding e(2) uint_wrap using t u1' R by (intro mod_pos_pos_trivial) linarith+
      moreover have "defect D (uint m') \<le> D" using m1(2) defect_pred [of D "uint (m - 1)"] uint_pred [OF m1(1)] e(1) by simp
      ultimately show ?thesis using F2 e(1) unfolding D_def [symmetric] by simp
    next
      case f: False
      have "m' = m - 1" "r' = s - u1" using mr R(4) s' f by (auto simp: Let_def s_def [symmetric] word_less_uint)
      then have e: "m' = m - 1" "r' = word_of_int (R - uint u1)" using w by simp_all
      have "uint r' = R - uint u1" unfolding e(2) uint_wrap using False f s' uint_less_IB [of u1] R
        by (intro mod_pos_pos_trivial) (simp_all add: word_le_def)
      moreover have "defect D (uint m') \<le> D" using m(2) defect_pred [of D "uint m"] uint_pred [OF m(1)] e(1) by simp
      ultimately show ?thesis using F1 e(1) unfolding D_def [symmetric] by simp
    qed
  qed
qed

lemma defect_nonzero:
  assumes "0 < uint u0" "2 ^ 63 \<le> uint u1" "0 \<le> x"
  shows "defect (dv u1 u0) x \<noteq> 0"
proof
  assume "defect (dv u1 u0) x = 0"
  then have "dv u1 u0 * (x + IB) = 2 ^ 192" by (simp add: defect_def)
  moreover have "dv u1 u0 * (x + IB) = int ((unat u1 * 2 ^ 64 + unat u0) * (nat x + 2 ^ 64))" using assms(3) by (simp add: uint_nat)
  ultimately have "int ((unat u1 * 2 ^ 64 + unat u0) * (nat x + 2 ^ 64)) = int (2 ^ 192)" by simp
  then have "(unat u1 * 2 ^ 64 + unat u0) * (nat x + 2 ^ 64) = 2 ^ 192" by (simp only: of_nat_eq_iff)
  moreover have "0 < unat u0" "0 < unat u1" using assms(1,2) by (simp_all add: uint_nat)
  ultimately show False using no_exact_inverse [OF _ unat64_less, of u0 "unat u1"] by blast
qed

text \<open>Then the high limb of the product of the inverse with the low limb is added.\<close>

lemma invert_adjust_low:
  assumes F: "defect D (uint m) = IB * (IB - uint r) - uint m * uint u0" "defect D (uint m) \<le> D"
    and D: "D = dv u1 u0" and u1: "2 ^ 63 \<le> uint u1" and u0: "0 < uint u0" and t: "gmp_umul_ppmm u0 m = (th, tlo)"
    and v: "v = (let r = r + th in if r < th then m - 1 - of_bool (r > u1 \<or> r = u1 \<and> tlo > u0) else m)"
  shows "inverse_2 D (uint v)"
proof (cases "uint r + uint th < IB")
  case True
  then have "uint (r + th) = uint r + uint th" by (simp add: uint_add_wrap)
  then have "v = m" using v by (simp add: word_less_uint)
  have "defect D (uint m) = IB * (IB - uint r - uint th) - uint tlo" using F(1) umul_uint [OF t] by (simp add: algebra_simps)
  moreover have "IB * 1 \<le> IB * (IB - uint r - uint th)" using True by (intro mult_left_mono) auto
  ultimately show ?thesis using F(2) uint_less_IB [of tlo] \<open>v = m\<close> unfolding inverse_2_defect by simp
next
  case False
  define s where "s = r + th"
  have s: "uint s = uint r + uint th - IB" unfolding s_def uint_add_wrap
    using False uint_less_IB [of r] uint_less_IB [of th] by (intro mod_wrap_once) linarith+
  have e: "defect D (uint m) = - dv s tlo" using F(1) umul_uint [OF t] unfolding s by (simp add: algebra_simps)
  have Dl: "D < IB * IB" "IB * IB \<le> 2 * D" unfolding D using dv_less normalised_dv [OF u1] by simp_all
  have nonneg: "0 \<le> dv s tlo" by simp
  have m: "1 \<le> uint m" by (rule defect_pos [OF uint_ge_0 Dl(1)]) (use nonneg e in linarith)
  have e1: "defect D (uint (m - 1)) = D - dv s tlo" using defect_pred [of D "uint m"] e uint_pred [OF m] by simp
  have "s < th" using s uint_less_IB [of r] by (simp add: word_less_uint)
  then have v: "v = m - 1 - of_bool (s > u1 \<or> s = u1 \<and> tlo > u0)" using v by (simp add: s_def)
  have cmp: "(s > u1 \<or> s = u1 \<and> tlo > u0) \<longleftrightarrow> D < dv s tlo" using dv_le [of s tlo u1 u0] unfolding D by auto
  show ?thesis
  proof (cases "D < dv s tlo")
    case True
    have m1: "1 \<le> uint (m - 1)" by (rule defect_pos [OF _ Dl(1)]) (use True in \<open>simp_all add: e1\<close>)
    have "defect D (uint (m - 1 - 1)) = 2 * D - dv s tlo" using defect_pred [of D "uint (m - 1)"] e1 uint_pred [OF m1] by simp
    then show ?thesis using v cmp True Dl dv_less [of s tlo] unfolding inverse_2_defect by simp
  next
    case False
    have "defect D (uint (m - 1)) \<noteq> 0" unfolding D by (rule defect_nonzero [OF u0 u1 uint_ge_0])
    then have "1 \<le> D - dv s tlo" "D - dv s tlo \<le> D" using False e1 nonneg by linarith+
    then show ?thesis using v cmp False e1 unfolding inverse_2_defect by simp
  qed
qed

lemma invert_adjust_ok:
  assumes "(uint m + IB) * uint u1 + uint r = IB * IB - 1" "uint r < uint u1" "2 ^ 63 \<le> uint u1" "0 < uint u0"
  shows "inverse_2 (dv u1 u0) (uint (invert_adjust u1 u0 m r))"
proof -
  obtain m' r' where mr: "(m', r') = (let r = NOT r; r = r + u0 in if r < u0 then let m = m - 1; (m, r) = (if r \<ge> u1 then (m - 1, r - u1) else (m, r)) in (m, r - u1) else (m, r))"
    by (metis surj_pair)
  obtain th tlo where t: "gmp_umul_ppmm u0 m' = (th, tlo)" by (metis surj_pair)
  have "invert_adjust u1 u0 m r = (let r = r' + th in if r < th then m' - 1 - of_bool (r > u1 \<or> r = u1 \<and> tlo > u0) else m')"
    unfolding invert_adjust_def using mr [symmetric] t by (simp only: Let_def prod.case)
  then show ?thesis using invert_adjust_high [OF assms(1-3) mr] assms(3,4) t
    by (intro invert_adjust_low [OF _ _ refl _ _ t]) auto
qed

lemma high_bit_uint: "GMP_LIMB_HIGHBIT \<le> u1 \<longleftrightarrow> 2 ^ 63 \<le> uint u1"
  by (simp add: GMP_LIMB_HIGHBIT_def word_le_def)

lemma inverse_2_unique:
  assumes "inverse_2 D v" "0 < D"
  shows "(IB ^ 3 - 1) div D - IB = v"
proof -
  have "IB ^ 3 - 1 = (v + IB) * D + (IB ^ 3 - 1 - (v + IB) * D)" by simp
  moreover have "0 \<le> IB ^ 3 - 1 - (v + IB) * D" "IB ^ 3 - 1 - (v + IB) * D < D"
    using assms(1) unfolding inverse_2_def by (simp_all add: algebra_simps)
  ultimately have "(IB ^ 3 - 1) div D = v + IB" by (metis div_pos_pos_trivial div_mult_self3 add_0 add.commute assms(2) less_irrefl)
  then show ?thesis by simp
qed

lemma mpn_invert_3by2_ok:
  assumes "2 ^ 63 \<le> uint u1"
  shows "\<exists>v. mpn_invert_3by2 u1 u0 = Inr v \<and> inverse_2 (dv u1 u0) (uint v)"
proof -
  obtain qh r where h: "invert_high u1 = (qh, r)" by (metis surj_pair)
  obtain m s where l: "invert_low u1 qh r = (m, s)" by (metis surj_pair)
  have "2 ^ 63 \<le> unat u1" using assms by (simp add: uint_nat)
  note ih = invert_high_ok [OF h this]
  note il = invert_low_ok [OF l assms ih(2,3,1)]
  show ?thesis
  proof (cases "0 < u0")
    case True
    then have "0 < uint u0" by (simp add: word_less_uint)
    then have "inverse_2 (dv u1 u0) (uint (invert_adjust u1 u0 m s))" using il assms by (intro invert_adjust_ok) simp_all
    then show ?thesis using assms h l True by (simp add: mpn_invert_3by2_def high_bit_uint)
  next
    case False
    then have "uint u0 = 0" by (simp add: word_gt_0 uint_nat)
    moreover have "inverse_2 (uint u1 * IB) (uint m)"
    proof -
      have "inverse_1 (uint u1) (uint m)" using il uint_ge_0 [of s] mult.commute [of "uint u1" "uint m + IB"]
        unfolding inverse_1_def by linarith
      then show ?thesis by (simp add: inverse_1_def inverse_2_def algebra_simps)
    qed
    ultimately show ?thesis using h l assms False by (simp add: mpn_invert_3by2_def high_bit_uint)
  qed
qed

lemma inverse_1_2: "inverse_2 (d * IB) v \<longleftrightarrow> inverse_1 d v"
proof -
  have "d * IB * (v + IB) = IB * (d * (v + IB))" "d * IB * (v + IB) + d * IB = IB * (d * (v + IB) + d)" "IB * IB * IB = IB * (IB * IB)"
    by (simp_all only: distrib_left mult.assoc mult.commute mult.left_commute)
  moreover have "0 < IB" by simp
  ultimately show ?thesis unfolding inverse_1_def inverse_2_def by (simp only: mult_less_cancel_left_pos mult_le_cancel_left_pos)
qed

lemma mpn_invert_limb_ok:
  assumes "2 ^ 63 \<le> uint d"
  shows "\<exists>v. mpn_invert_limb d = Inr v \<and> inverse_1 (uint d) (uint v)"
  using mpn_invert_3by2_ok [OF assms, of 0] inverse_1_2 [of "uint d"] by (simp add: mpn_invert_limb_def)

text \<open>
  C38: the inverse of a divisor. For every divisor of two limbs with its highest bit set, \<open>mpn_invert_3by2\<close> returns
  the quotient of \<open>B ^ 3 - 1\<close> by the divisor, less \<open>B\<close>, although it works with half limbs, estimates and corrections;
  otherwise its assertion fails.
\<close>

theorem mpn_invert_3by2_exact:
  "mpn_invert_3by2 u1 u0 =
     (if 2 ^ 63 \<le> uint u1 then Inr (word_of_int ((IB ^ 3 - 1) div (uint u1 * IB + uint u0) - IB)) else crash Assert_Failed)"
proof (cases "2 ^ 63 \<le> uint u1")
  case True
  then obtain v where v: "mpn_invert_3by2 u1 u0 = Inr v" "inverse_2 (dv u1 u0) (uint v)" using mpn_invert_3by2_ok by blast
  have "0 < dv u1 u0" using True by (simp add: add_pos_nonneg)
  then have "(IB ^ 3 - 1) div dv u1 u0 - IB = uint v" using inverse_2_unique [OF v(2)] by blast
  then have "word_of_int ((IB ^ 3 - 1) div dv u1 u0 - IB) = v" by (simp only: word_of_int_uint)
  then show ?thesis using v(1) True by (simp only: if_True)
next
  case False
  then show ?thesis by (simp add: mpn_invert_3by2_def high_bit_uint)
qed

end
