(* ===== verification/Mpn_Div.thy ===== *)
theory Mpn_Div
  imports Mpz_Add Limb_Inverse
begin

section \<open>Division of numbers in memory\<close>

text \<open>
  The functions of \<open>mini-gmp.c\<close> that divide a number in memory: by one limb, by two limbs, and by more limbs
  with the schoolbook method, which estimates each limb of the quotient from the highest limbs. The
  pointer to the quotient may be null, which is \<open>None\<close>. Two of the functions allocate a temporary
  array, so that the state is the memory with its allocator.
\<close>

declare of_nat_unat [simp del]

subsection \<open>Definitions: normalised divisors\<close>

record gmp_div_inverse =
  inv_shift :: nat
  inv_d1 :: u64
  inv_d0 :: u64
  inv_di :: u64

definition mpn_div_qr_1_invert :: "gmp_div_inverse \<Rightarrow> u64 \<Rightarrow> gmp_div_inverse res" where
  "mpn_div_qr_1_invert iv d =
     bindE (c_assert (d > 0)) (\<lambda>_.
     bindE (returns (gmp_clz d)) (\<lambda>sh.
     let iv = iv\<lparr>inv_shift := sh, inv_d1 := push_bit sh d\<rparr> in
     bindE (mpn_invert_limb (inv_d1 iv)) (\<lambda>di. Inr (iv\<lparr>inv_di := di\<rparr>))))"

definition mpn_div_qr_2_invert :: "gmp_div_inverse \<Rightarrow> u64 \<Rightarrow> u64 \<Rightarrow> gmp_div_inverse res" where
  "mpn_div_qr_2_invert iv d1 d0 =
     bindE (c_assert (d1 > 0)) (\<lambda>_.
     bindE (returns (gmp_clz d1)) (\<lambda>sh.
     let (d1, d0) = (if sh > 0 then (push_bit sh d1 OR drop_bit (64 - sh) d0, push_bit sh d0) else (d1, d0)) in
     bindE (mpn_invert_3by2 d1 d0) (\<lambda>di. Inr (iv\<lparr>inv_shift := sh, inv_d1 := d1, inv_d0 := d0, inv_di := di\<rparr>))))"

definition mpn_div_qr_invert :: "gmp_div_inverse \<Rightarrow> nat \<Rightarrow> nat \<Rightarrow> limb_mem \<Rightarrow> gmp_div_inverse res" where
  "mpn_div_qr_invert iv dp dn m =
     bindE (c_assert (dn > 0)) (\<lambda>_.
     if dn = 1 then mpn_div_qr_1_invert iv (m dp)
     else if dn = 2 then mpn_div_qr_2_invert iv (m (dp + 1)) (m dp)
     else
       let d1 = m (dp + (dn - 1)); d0 = m (dp + (dn - 2)) in
       bindE (c_assert (d1 > 0)) (\<lambda>_.
       bindE (returns (gmp_clz d1)) (\<lambda>sh.
       let (d1, d0) =
         (if sh > 0 then (push_bit sh d1 OR drop_bit (64 - sh) d0, push_bit sh d0 OR drop_bit (64 - sh) (m (dp + (dn - 3))))
          else (d1, d0)) in
       bindE (mpn_invert_3by2 d1 d0) (\<lambda>di. Inr (iv\<lparr>inv_shift := sh, inv_d1 := d1, inv_d0 := d0, inv_di := di\<rparr>)))))"

subsection \<open>Definitions: division\<close>

definition store_q :: "nat option \<Rightarrow> nat \<Rightarrow> u64 \<Rightarrow> limb_mem \<Rightarrow> limb_mem" where
  "store_q qp i q m = (case qp of None \<Rightarrow> m | Some p \<Rightarrow> m(p + i := q))"

fun div_1_loop :: "nat option \<Rightarrow> nat \<Rightarrow> u64 \<Rightarrow> u64 \<Rightarrow> nat \<Rightarrow> u64 \<Rightarrow> limb_mem \<Rightarrow> u64 \<times> limb_mem" where
  "div_1_loop qp np d di 0 r m = (r, m)"
| "div_1_loop qp np d di (Suc i) r m =
     (let (q, r) = gmp_udiv_qrnnd_preinv r (m (np + i)) d di in div_1_loop qp np d di i r (store_q qp i q m))"

text \<open>The shifted copy of the dividend in a temporary array.\<close>

definition shifted_copy :: "nat \<Rightarrow> nat \<Rightarrow> nat \<Rightarrow> mpz_mem \<Rightarrow> (nat \<times> u64 \<times> mpz_mem) res" where
  "shifted_copy np nn sh s =
     (if sh > 0 then
        bindE (gmp_xalloc_limbs (int nn) s) (\<lambda>(tp, s).
        bindE (mpn_lshift tp np nn sh (limbs s)) (\<lambda>(r, m). Inr (tp, r, s\<lparr>limbs := m\<rparr>)))
      else Inr (np, 0, s))"

definition mpn_div_qr_1_preinv :: "nat option \<Rightarrow> nat \<Rightarrow> nat \<Rightarrow> gmp_div_inverse \<Rightarrow> mpz_mem \<Rightarrow> (u64 \<times> mpz_mem) res" where
  "mpn_div_qr_1_preinv qp np nn iv s =
     bindE (shifted_copy np nn (inv_shift iv) s) (\<lambda>(np, r, s).
     let (r, m) = div_1_loop qp np (inv_d1 iv) (inv_di iv) nn r (limbs s); s = s\<lparr>limbs := m\<rparr> in
     bindE (if inv_shift iv > 0 then gmp_free np s else Inr s) (\<lambda>s.
     Inr (drop_bit (inv_shift iv) r, s)))"

definition mpn_div_qr_1 :: "nat option \<Rightarrow> nat \<Rightarrow> nat \<Rightarrow> u64 \<Rightarrow> mpz_mem \<Rightarrow> (u64 \<times> mpz_mem) res" where
  "mpn_div_qr_1 qp np nn d s =
     bindE (c_assert (d > 0)) (\<lambda>_.
     if d AND (d - 1) = 0 then
       let r = limbs s np AND (d - 1) in
       case qp of
         None \<Rightarrow> Inr (r, s)
       | Some qp \<Rightarrow>
           if d \<le> 1 then Inr (r, s\<lparr>limbs := mpn_copyi qp np nn (limbs s)\<rparr>)
           else
             bindE (returns (gmp_ctz d)) (\<lambda>sh.
             bindE (mpn_rshift qp np nn sh (limbs s)) (\<lambda>(_, m). Inr (r, s\<lparr>limbs := m\<rparr>)))
     else
       bindE (mpn_div_qr_1_invert \<lparr>inv_shift = 0, inv_d1 = 0, inv_d0 = 0, inv_di = 0\<rparr> d) (\<lambda>iv.
       mpn_div_qr_1_preinv qp np nn iv s))"

fun div_2_loop :: "nat option \<Rightarrow> nat \<Rightarrow> gmp_div_inverse \<Rightarrow> nat \<Rightarrow> u64 \<Rightarrow> u64 \<Rightarrow> limb_mem \<Rightarrow> u64 \<times> u64 \<times> limb_mem" where
  "div_2_loop qp np iv 0 r1 r0 m = (r1, r0, m)"
| "div_2_loop qp np iv (Suc i) r1 r0 m =
     (let (q, r1, r0) = gmp_udiv_qr_3by2 r1 r0 (m (np + i)) (inv_d1 iv) (inv_d0 iv) (inv_di iv)
      in div_2_loop qp np iv i r1 r0 (store_q qp i q m))"

definition mpn_div_qr_2_preinv :: "nat option \<Rightarrow> nat \<Rightarrow> nat \<Rightarrow> nat \<Rightarrow> gmp_div_inverse \<Rightarrow> mpz_mem \<Rightarrow> mpz_mem res" where
  "mpn_div_qr_2_preinv qp rp np nn iv s =
     bindE (c_assert (nn \<ge> 2)) (\<lambda>_.
     let sh = inv_shift iv in
     bindE (shifted_copy np nn sh s) (\<lambda>(np, r1, s).
     let r0 = limbs s (np + (nn - 1)); (r1, r0, m) = div_2_loop qp np iv (nn - 1) r1 r0 (limbs s); s = s\<lparr>limbs := m\<rparr> in
     bindE
       (if sh > 0 then
          bindE (c_assert (push_bit (64 - sh) r0 = 0)) (\<lambda>_.
          let r0 = drop_bit sh r0 OR push_bit (64 - sh) r1; r1 = drop_bit sh r1 in
          bindE (gmp_free np s) (\<lambda>s. Inr (r1, r0, s)))
        else Inr (r1, r0, s))
       (\<lambda>(r1, r0, s). Inr (s\<lparr>limbs := (limbs s)(rp + 1 := r1, rp := r0)\<rparr>))))"

definition pi1_step ::
  "nat option \<Rightarrow> nat \<Rightarrow> nat \<Rightarrow> nat \<Rightarrow> u64 \<Rightarrow> u64 \<Rightarrow> u64 \<Rightarrow> nat \<Rightarrow> u64 \<Rightarrow> limb_mem \<Rightarrow> (u64 \<times> limb_mem) res" where
  "pi1_step qp np dp dn d1 d0 dinv i n1 m =
     (let n0 = m (np + (dn - 1 + i)) in
      if n1 = d1 \<and> n0 = d0 then
        let q = NOT 0 in
        bindE (mpn_submul_1 (np + i) dp dn q m) (\<lambda>(_, m). Inr (m (np + (dn - 1 + i)), store_q qp i q m))
      else
        let (q, n1, n0) = gmp_udiv_qr_3by2 n1 n0 (m (np + (dn - 2 + i))) d1 d0 dinv in
        bindE (mpn_submul_1 (np + i) dp (dn - 2) q m) (\<lambda>(cy, m).
        let cy1 = of_bool (n0 < cy);
            n0 = n0 - cy;
            cy = of_bool (n1 < cy1) :: u64;
            n1 = n1 - cy1;
            m = m(np + (dn - 2 + i) := n0);
            (q, n1, m) =
              (if cy \<noteq> 0 then
                 let (c, m) = mpn_add_n (np + i) (np + i) dp (dn - 1) m in (q - 1, n1 + (d1 + c), m)
               else (q, n1, m))
        in Inr (n1, store_q qp i q m)))"

primrec pi1_loop ::
  "nat option \<Rightarrow> nat \<Rightarrow> nat \<Rightarrow> nat \<Rightarrow> u64 \<Rightarrow> u64 \<Rightarrow> u64 \<Rightarrow> nat \<Rightarrow> u64 \<Rightarrow> limb_mem \<Rightarrow> (u64 \<times> limb_mem) res" where
  "pi1_loop qp np dp dn d1 d0 dinv 0 n1 m = pi1_step qp np dp dn d1 d0 dinv 0 n1 m"
| "pi1_loop qp np dp dn d1 d0 dinv (Suc i) n1 m =
     bindE (pi1_step qp np dp dn d1 d0 dinv (Suc i) n1 m) (\<lambda>(n1, m). pi1_loop qp np dp dn d1 d0 dinv i n1 m)"

definition mpn_div_qr_pi1 ::
  "nat option \<Rightarrow> nat \<Rightarrow> nat \<Rightarrow> u64 \<Rightarrow> nat \<Rightarrow> nat \<Rightarrow> u64 \<Rightarrow> limb_mem \<Rightarrow> limb_mem res" where
  "mpn_div_qr_pi1 qp np nn n1 dp dn dinv m =
     bindE (c_assert (dn > 2)) (\<lambda>_.
     bindE (c_assert (nn \<ge> dn)) (\<lambda>_.
     let d1 = m (dp + (dn - 1)); d0 = m (dp + (dn - 2)) in
     bindE (c_assert (d1 AND GMP_LIMB_HIGHBIT \<noteq> 0)) (\<lambda>_.
     bindE (pi1_loop qp np dp dn d1 d0 dinv (nn - dn) n1 m) (\<lambda>(n1, m). Inr (m(np + (dn - 1) := n1))))))"

definition mpn_div_qr_preinv ::
  "nat option \<Rightarrow> nat \<Rightarrow> nat \<Rightarrow> nat \<Rightarrow> nat \<Rightarrow> gmp_div_inverse \<Rightarrow> mpz_mem \<Rightarrow> mpz_mem res" where
  "mpn_div_qr_preinv qp np nn dp dn iv s =
     bindE (c_assert (dn > 0)) (\<lambda>_.
     bindE (c_assert (nn \<ge> dn)) (\<lambda>_.
     if dn = 1 then bindE (mpn_div_qr_1_preinv qp np nn iv s) (\<lambda>(r, s). Inr (put_limb np r s))
     else if dn = 2 then mpn_div_qr_2_preinv qp np np nn iv s
     else
       bindE (c_assert (inv_d1 iv = limbs s (dp + (dn - 1)))) (\<lambda>_.
       bindE (c_assert (inv_d0 iv = limbs s (dp + (dn - 2)))) (\<lambda>_.
       bindE (c_assert (inv_d1 iv AND GMP_LIMB_HIGHBIT \<noteq> 0)) (\<lambda>_.
       let sh = inv_shift iv in
       bindE (if sh > 0 then mpn_lshift np np nn sh (limbs s) else Inr (0, limbs s)) (\<lambda>(nh, m).
       bindE (mpn_div_qr_pi1 qp np nn nh dp dn (inv_di iv) m) (\<lambda>m.
       bindE (if sh > 0 then bindE (mpn_rshift np np dn sh m) gmp_assert_nocarry else Inr m) (\<lambda>m.
       Inr (s\<lparr>limbs := m\<rparr>)))))))))"

definition mpn_div_qr :: "nat option \<Rightarrow> nat \<Rightarrow> nat \<Rightarrow> nat \<Rightarrow> nat \<Rightarrow> mpz_mem \<Rightarrow> mpz_mem res" where
  "mpn_div_qr qp np nn dp dn s =
     bindE (c_assert (dn > 0)) (\<lambda>_.
     bindE (c_assert (nn \<ge> dn)) (\<lambda>_.
     bindE (mpn_div_qr_invert \<lparr>inv_shift = 0, inv_d1 = 0, inv_d0 = 0, inv_di = 0\<rparr> dp dn (limbs s)) (\<lambda>iv.
     bindE
       (if dn > 2 \<and> inv_shift iv > 0 then
          bindE (gmp_xalloc_limbs (int dn) s) (\<lambda>(tp, s).
          bindE (bindE (mpn_lshift tp dp dn (inv_shift iv) (limbs s)) gmp_assert_nocarry) (\<lambda>m.
          Inr (tp, Some tp, s\<lparr>limbs := m\<rparr>)))
        else Inr (dp, None, s))
       (\<lambda>(dp, tp, s).
     bindE (mpn_div_qr_preinv qp np nn dp dn iv s) (\<lambda>s.
     case tp of None \<Rightarrow> Inr s | Some p \<Rightarrow> gmp_free p s)))))"

subsection \<open>Limbs as natural numbers\<close>

abbreviation pv :: "u64 \<Rightarrow> u64 \<Rightarrow> nat" where
  "pv h l \<equiv> unat h * BB + unat l"

lemma dv_pv: "dv h l = int (pv h l)"
  by (simp add: uint_nat BB_def)

lemma high_bit_nat: "2 ^ 63 \<le> uint d \<longleftrightarrow> 2 ^ 63 \<le> unat d"
  by (simp add: uint_nat)

lemma qrnnd_preinv_nat:
  assumes "gmp_udiv_qrnnd_preinv nh nl d di = (q, r)" "2 ^ 63 \<le> unat d" "unat nh < unat d" "inverse_1 (uint d) (uint di)"
  shows "unat q * unat d + unat r = pv nh nl" "unat r < unat d"
proof -
  have "uint q * uint d + uint r = dv nh nl \<and> uint r < uint d"
    using assms by (intro qrnnd_preinv_ok) (simp_all add: uint_nat)
  then have "int (unat q * unat d + unat r) = int (pv nh nl)" "unat r < unat d" by (simp_all add: uint_nat BB_def)
  then show "unat q * unat d + unat r = pv nh nl" "unat r < unat d" by (simp_all only: of_nat_eq_iff)
qed

lemma qr_3by2_nat:
  assumes "gmp_udiv_qr_3by2 n2 n1 n0 d1 d0 di = (q, r1, r0)" "2 ^ 63 \<le> unat d1" "pv n2 n1 < pv d1 d0" "inverse_2 (dv d1 d0) (uint di)"
  shows "unat q * pv d1 d0 + pv r1 r0 = pv n2 n1 * BB + unat n0" "pv r1 r0 < pv d1 d0"
proof -
  have "uint q * dv d1 d0 + dv r1 r0 = dv n2 n1 * IB + uint n0 \<and> dv r1 r0 < dv d1 d0"
    using assms by (intro qr_3by2_ok) (simp_all only: dv_pv high_bit_nat of_nat_less_iff)
  then have "uint q * dv d1 d0 + dv r1 r0 = dv n2 n1 * IB + uint n0" "dv r1 r0 < dv d1 d0" by blast+
  then have "int (unat q * pv d1 d0 + pv r1 r0) = int (pv n2 n1 * BB + unat n0)" and l: "pv r1 r0 < pv d1 d0"
    by (simp add: uint_nat BB_def, simp only: dv_pv of_nat_less_iff)
  then show "unat q * pv d1 d0 + pv r1 r0 = pv n2 n1 * BB + unat n0" by (simp only: of_nat_eq_iff)
  show "pv r1 r0 < pv d1 d0" by (rule l)
qed

subsection \<open>The limbs of the quotient\<close>

definition qstored :: "nat option \<Rightarrow> nat \<Rightarrow> nat \<Rightarrow> limb_mem \<Rightarrow> limb_mem \<Rightarrow> bool" where
  "qstored qp n Q m m' \<longleftrightarrow> (case qp of None \<Rightarrow> m' = m | Some p \<Rightarrow> same_outside p n m m' \<and> lval m' p n = Q)"

lemma qstored_0: "qstored qp 0 0 m m"
  by (simp add: qstored_def split: option.splits)

lemma qstored_Suc: "qstored qp i Q (store_q qp i q m) m' \<Longrightarrow> qstored qp (Suc i) (Q + unat q * BB ^ i) m m'"
  by (auto simp: qstored_def store_q_def same_outside_def split: option.splits)

text \<open>The quotient is written from its highest limb, and does not overwrite limbs that are still read.\<close>

definition qfree :: "nat option \<Rightarrow> nat \<Rightarrow> nat \<Rightarrow> bool" where
  "qfree qp np n \<longleftrightarrow> (\<forall>p. qp = Some p \<longrightarrow> bwd p np n)"

lemma qfree_lval: "qfree qp np n \<Longrightarrow> i < n \<Longrightarrow> lval (store_q qp i q m) np i = lval m np i"
  by (auto simp: store_q_def qfree_def bwd_def split: option.splits)

lemma quotient_step:
  fixes d q r1 Z Q l r' P :: nat
  assumes "q * d + r1 = Z" "Q * d + r' = r1 * P + l"
  shows "(Q + q * P) * d + r' = Z * P + l"
proof -
  have "(Q + q * P) * d + r' = (Q * d + r') + q * d * P" by (simp add: algebra_simps)
  also have "\<dots> = (q * d + r1) * P + l" unfolding assms(2) by (simp add: algebra_simps)
  finally show ?thesis unfolding assms(1) .
qed

lemma quotient_digit:
  fixes B d q r r1 x Q l r' P :: nat
  assumes "q * d + r1 = r * B + x" "Q * d + r' = r1 * P + l"
  shows "(Q + q * P) * d + r' = r * (B * P) + (l + x * P)"
  using quotient_step [OF assms] by (simp add: algebra_simps)

lemma div_1_loop_ok:
  assumes "div_1_loop qp np d di n r m = (r', m')" "n \<le> nn" "unat r < unat d"
    and d: "2 ^ 63 \<le> unat d" "inverse_1 (uint d) (uint di)" "qfree qp np nn"
  shows "\<exists>Q. qstored qp n Q m m' \<and> Q * unat d + unat r' = unat r * BB ^ n + lval m np n \<and> unat r' < unat d"
  using assms(1-3)
proof (induction n arbitrary: r m)
  case (Suc i)
  obtain q r1 where q: "gmp_udiv_qrnnd_preinv r (m (np + i)) d di = (q, r1)" by (metis surj_pair)
  note n = qrnnd_preinv_nat [OF q d(1) Suc.prems(3) d(2)]
  have "div_1_loop qp np d di i r1 (store_q qp i q m) = (r', m')" using Suc.prems(1) q by simp
  from Suc.IH [OF this _ n(2)] obtain Q where Q: "qstored qp i Q (store_q qp i q m) m'"
    "Q * unat d + unat r' = unat r1 * BB ^ i + lval m np i" "unat r' < unat d"
    using Suc.prems(2) qfree_lval [OF d(3)] by auto
  show ?case using qstored_Suc [OF Q(1)] quotient_digit [OF n(1) Q(2)] Q(3) by auto
qed (auto intro: qstored_0)

lemma div_2_loop_ok:
  assumes "div_2_loop qp np iv n r1 r0 m = (r1', r0', m')" "n \<le> nn" "pv r1 r0 < pv (inv_d1 iv) (inv_d0 iv)"
    and d: "2 ^ 63 \<le> unat (inv_d1 iv)" "inverse_2 (dv (inv_d1 iv) (inv_d0 iv)) (uint (inv_di iv))" "qfree qp np nn"
  shows "\<exists>Q. qstored qp n Q m m' \<and> Q * pv (inv_d1 iv) (inv_d0 iv) + pv r1' r0' = pv r1 r0 * BB ^ n + lval m np n \<and>
    pv r1' r0' < pv (inv_d1 iv) (inv_d0 iv)"
  using assms(1-3)
proof (induction n arbitrary: r1 r0 m)
  case (Suc i)
  obtain q s1 s0 where q: "gmp_udiv_qr_3by2 r1 r0 (m (np + i)) (inv_d1 iv) (inv_d0 iv) (inv_di iv) = (q, s1, s0)" by (metis prod_cases3)
  note n = qr_3by2_nat [OF q d(1) Suc.prems(3) d(2)]
  have "div_2_loop qp np iv i s1 s0 (store_q qp i q m) = (r1', r0', m')" using Suc.prems(1) q by simp
  from Suc.IH [OF this _ n(2)] obtain Q where Q: "qstored qp i Q (store_q qp i q m) m'"
    "Q * pv (inv_d1 iv) (inv_d0 iv) + pv r1' r0' = pv s1 s0 * BB ^ i + lval m np i" "pv r1' r0' < pv (inv_d1 iv) (inv_d0 iv)"
    using Suc.prems(2) qfree_lval [OF d(3)] by auto
  show ?case using qstored_Suc [OF Q(1)] quotient_digit [OF n(1) Q(2)] Q(3) by auto
qed (auto intro: qstored_0)

subsection \<open>One limb of the quotient by the schoolbook method\<close>

lemma range_unique:
  fixes V W j M :: int
  assumes "V = W + j * M" "0 \<le> V" "V < M" "0 \<le> W" "W < M"
  shows "V = W"
  using assms by (metis mod_mult_self1 mod_pos_pos_trivial)

text \<open>The two highest limbs of dividend and divisor are equal: the limb of the quotient is the largest one.\<close>

lemma top_equal:
  fixes B P DD D' D N x X :: int
  assumes "D = DD * P + D'" "0 \<le> D'" "D' < P" "B \<le> DD" "N = (DD * B + x) * P + X" "0 \<le> x" "0 \<le> X" "0 < B" "N < D * B"
  shows "0 \<le> N - (B - 1) * D" "N - (B - 1) * D < D"
proof -
  have "N - (B - 1) * D = (x * P + X - B * D') + D" by (simp add: assms(1,5) algebra_simps)
  moreover have "0 \<le> x * P" using assms by simp
  moreover have "B * D' \<le> B * P" using assms by (intro mult_left_mono) auto
  moreover have "B * P \<le> DD * P" using assms by (intro mult_right_mono) auto
  ultimately show "0 \<le> N - (B - 1) * D" using assms by linarith
  show "N - (B - 1) * D < D" using assms(9) by (simp add: algebra_simps)
qed

text \<open>Otherwise the estimate from the highest limbs is too large by at most one.\<close>

lemma top_less:
  fixes B P DD D' D N NN x X q R2 L1 cy :: int
  assumes D: "D = DD * P + D'" "0 \<le> D'" "D' < P" "B \<le> DD"
    and N: "N = (NN * B + x) * P + X" and q: "q * DD + R2 = NN * B + x" "R2 < DD"  "0 \<le> R2"
    and L: "L1 + q * D' = X + cy * P" "0 \<le> L1" "L1 < P" "0 \<le> cy" "cy < B"
  shows "N - q * D = (R2 - cy) * P + L1"
    and "cy \<le> R2 \<Longrightarrow> 0 \<le> N - q * D \<and> N - q * D < D"
    and "R2 < cy \<Longrightarrow> N - q * D < 0 \<and> 0 \<le> N - q * D + D"
proof -
  show e: "N - q * D = (R2 - cy) * P + L1" unfolding N q(1) [symmetric] D(1) using L(1) by (simp add: algebra_simps)
  have P: "0 < P" using D by linarith
  show "0 \<le> N - q * D \<and> N - q * D < D" if c: "cy \<le> R2"
  proof -
    have "0 \<le> (R2 - cy) * P" using c P by simp
    moreover have "(R2 - cy + 1) * P \<le> DD * P" using q(2) L(4) P by (intro mult_right_mono) auto
    moreover have "(R2 - cy + 1) * P = (R2 - cy) * P + P" by (simp add: algebra_simps)
    ultimately show ?thesis using e L D by linarith
  qed
  show "N - q * D < 0 \<and> 0 \<le> N - q * D + D" if c: "R2 < cy"
  proof -
    have "(R2 - cy + 1) * P \<le> 0" using c P by (simp add: mult_le_0_iff)
    moreover have "(R2 - cy + 1) * P = (R2 - cy) * P + P" by (simp add: algebra_simps)
    moreover have "(- B) * P \<le> (R2 - cy) * P" using q(3) L(5) P by (intro mult_right_mono) auto
    moreover have "B * P \<le> DD * P" using D(4) P by (intro mult_right_mono) auto
    ultimately show ?thesis using e L D by linarith
  qed
qed

text \<open>The numbers that are involved in a step.\<close>

lemma step_numbers:
  assumes "unat n1 * BB ^ (k + 1) + lval m (p + 1) (k + 1) < lval m dp (k + 2)"
  shows "lval m dp (k + 2) = pv (m (dp + (k + 1))) (m (dp + k)) * BB ^ k + lval m dp k"
    and "unat n1 * BB ^ (k + 2) + lval m p (k + 2) = (pv n1 (m (p + (k + 1))) * BB + unat (m (p + k))) * BB ^ k + lval m p k"
    and "unat n1 * BB ^ (k + 2) + lval m p (k + 2) < lval m dp (k + 2) * BB"
    and "pv n1 (m (p + (k + 1))) \<le> pv (m (dp + (k + 1))) (m (dp + k))"
proof -
  show D: "lval m dp (k + 2) = pv (m (dp + (k + 1))) (m (dp + k)) * BB ^ k + lval m dp k"
    by (simp add: numeral_2_eq_2 algebra_simps)
  show "unat n1 * BB ^ (k + 2) + lval m p (k + 2) = (pv n1 (m (p + (k + 1))) * BB + unat (m (p + k))) * BB ^ k + lval m p k"
    by (simp add: numeral_2_eq_2 algebra_simps)
  define r where "r = unat n1 * BB ^ (k + 1) + lval m (p + 1) (k + 1)"
  have "unat n1 * BB ^ (k + 2) + lval m p (k + 2) = r * BB + unat (m p)"
    using lval_low [of m p "k + 1"] by (simp add: r_def algebra_simps)
  moreover have "(r + 1) * BB \<le> lval m dp (k + 2) * BB" using assms by (intro mult_le_mono1) (simp add: r_def)
  ultimately show "unat n1 * BB ^ (k + 2) + lval m p (k + 2) < lval m dp (k + 2) * BB" using unat_less_BB [of "m p"] by (simp only: add_mult_distrib)
  have "r = pv n1 (m (p + (k + 1))) * BB ^ k + lval m (p + 1) k" by (simp add: r_def algebra_simps)
  then have "pv n1 (m (p + (k + 1))) * BB ^ k < (pv (m (dp + (k + 1))) (m (dp + k)) + 1) * BB ^ k"
    using assms D lval_less [of m dp k] unfolding r_def [symmetric] add_mult_distrib by linarith
  then show "pv n1 (m (p + (k + 1))) \<le> pv (m (dp + (k + 1))) (m (dp + k))" by (simp only: mult_less_cancel2) simp
qed

definition step_done :: "nat \<Rightarrow> nat \<Rightarrow> nat \<Rightarrow> u64 \<Rightarrow> limb_mem \<Rightarrow> u64 \<Rightarrow> u64 \<Rightarrow> limb_mem \<Rightarrow> bool" where
  "step_done D p k n1 m q n1' m' \<longleftrightarrow> same_outside p (k + 2) m m' \<and>
     unat q * D + (unat n1' * BB ^ (k + 1) + lval m' p (k + 1)) = unat n1 * BB ^ (k + 2) + lval m p (k + 2) \<and>
     unat n1' * BB ^ (k + 1) + lval m' p (k + 1) < D"

lemma pv_less: "pv h l < BB * BB"
proof -
  have "(unat h + 1) * BB \<le> BB * BB" using unat_less_BB [of h] by (intro mult_le_mono1) (simp add: Suc_le_eq)
  then show ?thesis using unat_less_BB [of l] by (simp only: add_mult_distrib)
qed

lemma BB_le_pv: "2 ^ 63 \<le> unat d1 \<Longrightarrow> BB \<le> pv d1 d0"
proof -
  assume "2 ^ 63 \<le> unat d1"
  then have "1 * BB \<le> unat d1 * BB" by (intro mult_le_mono1) simp
  then show ?thesis by linarith
qed

lemma step_equal:
  assumes "submul_1_loop p dp (NOT 0) (k + 2) m = (cl, m')" "apart p (k + 2) dp (k + 2)"
    and top: "n1 = m (dp + (k + 1))" "m (p + (k + 1)) = m (dp + k)" "2 ^ 63 \<le> unat n1"
    and rem: "unat n1 * BB ^ (k + 1) + lval m (p + 1) (k + 1) < lval m dp (k + 2)"
  shows "step_done (lval m dp (k + 2)) p k n1 m (NOT 0) (m' (p + (k + 1))) m'"
proof -
  define N D M where "N = unat n1 * BB ^ (k + 2) + lval m p (k + 2)" and "D = lval m dp (k + 2)" and "M = BB ^ (k + 2)"
  note n = step_numbers [OF rem, folded N_def D_def, unfolded top(1,2) [symmetric]]
  have "fwd p dp (k + 2)" using assms(2) by (auto simp: fwd_def apart_def)
  note s = submul_1_loop_ok [OF this order_refl assms(1)]
  have q: "unat (NOT 0 :: u64) = BB - 1" using unat_not [of 0] by simp
  have iq: "int (BB - 1) = int BB - 1" by (simp add: BB_def)
  define DD where "DD = pv n1 (m (p + (k + 1)))"
  have iD: "int D = int DD * int (BB ^ k) + int (lval m dp k)" and
    iN: "int N = (int DD * int BB + int (unat (m (p + k)))) * int (BB ^ k) + int (lval m p k)"
    unfolding DD_def using n(1,2) by (simp_all only: of_nat_add of_nat_mult)
  have lt: "int N < int D * int BB" using n(3) by (simp only: of_nat_mult [symmetric] of_nat_less_iff)
  have le: "int BB \<le> int DD" "int (lval m dp k) < int (BB ^ k)"
    unfolding DD_def using BB_le_pv [OF top(3)] lval_less by (simp_all only: of_nat_le_iff of_nat_less_iff)
  have c: "0 \<le> int N - (int BB - 1) * int D" "int N - (int BB - 1) * int D < int D"
    by (rule top_equal [OF iD of_nat_0_le_iff le(2,1) iN of_nat_0_le_iff of_nat_0_le_iff _ lt], simp)+
  have "int (lval m' p (k + 2)) = int N - (int BB - 1) * int D"
  proof (rule range_unique)
    have "lval m' p (k + 2) + D * (BB - 1) = lval m p (k + 2) + unat cl * M" using s q by (simp only: D_def M_def)
    then have "int (lval m' p (k + 2)) + int D * (int BB - 1) = int (lval m p (k + 2)) + int (unat cl) * int M"
      unfolding iq [symmetric] of_nat_mult [symmetric] of_nat_add [symmetric] by (rule arg_cong)
    moreover have "int N = int (unat n1) * int M + int (lval m p (k + 2))" by (simp only: N_def M_def of_nat_add of_nat_mult)
    ultimately show "int (lval m' p (k + 2)) = int N - (int BB - 1) * int D + (int (unat cl) - int (unat n1)) * int M"
      by (simp only: left_diff_distrib mult.commute [of "int D"])
    show "int (lval m' p (k + 2)) < int M" unfolding M_def of_nat_less_iff by (rule lval_less)
    have "D < M" unfolding D_def M_def by (rule lval_less)
    then show "int N - (int BB - 1) * int D < int M" using c(2) by linarith
  qed (use c in simp_all)
  then have "int ((BB - 1) * D + lval m' p (k + 2)) = int N" "int (lval m' p (k + 2)) < int D"
    using c(2) by (simp_all only: of_nat_add of_nat_mult iq)
  then have "(BB - 1) * D + lval m' p (k + 2) = N" "lval m' p (k + 2) < D" by (simp_all only: of_nat_eq_iff of_nat_less_iff)
  moreover have "lval m' p (k + 2) = unat (m' (p + (k + 1))) * BB ^ (k + 1) + lval m' p (k + 1)" by (simp add: numeral_2_eq_2)
  ultimately show ?thesis using s q unfolding step_done_def N_def [symmetric] D_def [symmetric] by simp
qed

text \<open>The borrow of the product of the low limbs from the two highest limbs of the remainder.\<close>

lemma borrow_pair:
  "int (pv (n1 - of_bool (n0 < cy)) (n0 - cy)) = int (pv n1 n0) - int (unat cy) + int (BB * BB) * of_bool (n1 < of_bool (n0 < cy))"
  "n1 < of_bool (n0 < cy) \<longleftrightarrow> pv n1 n0 < unat cy"
proof -
  have b0: "int (unat (n0 - cy)) = int (unat n0) - int (unat cy) + int BB * of_bool (n0 < cy)"
    using arg_cong [OF sub_borrow [of n0 cy], of int] by (simp add: BB_def)
  have b1: "int (unat (n1 - of_bool (n0 < cy))) = int (unat n1) - of_bool (n0 < cy) + int BB * of_bool (n1 < of_bool (n0 < cy))"
    using arg_cong [OF sub_borrow [of n1 "of_bool (n0 < cy)"], of int]
    unfolding BB_def of_nat_add of_nat_mult unat_of_bool of_nat_of_bool by linarith
  show "int (pv (n1 - of_bool (n0 < cy)) (n0 - cy)) = int (pv n1 n0) - int (unat cy) + int (BB * BB) * of_bool (n1 < of_bool (n0 < cy))"
    unfolding of_nat_add of_nat_mult b0 b1 by (simp add: algebra_simps)
  show "n1 < of_bool (n0 < cy) \<longleftrightarrow> pv n1 n0 < unat cy"
  proof (cases "n1 = 0")
    case True
    then show ?thesis by (simp add: word_less_nat_alt)
  next
    case False
    then have "1 \<le> unat n1" by (simp add: unat_gt_0 Suc_le_eq)
    then have "1 * BB \<le> unat n1 * BB" by (rule mult_le_mono1)
    then have "\<not> pv n1 n0 < unat cy" using unat_less_BB [of cy] by linarith
    moreover have "\<not> n1 < of_bool (n0 < cy)" using \<open>1 \<le> unat n1\<close> by (simp add: word_less_nat_alt)
    ultimately show ?thesis by simp
  qed
qed

lemma sum_wrap: "\<exists>e. unat (a + (b + c) :: u64) + e * BB = unat a + unat b + unat c"
proof -
  obtain e where "unat (b + c) + e * BB = unat b + unat c" using carryB(1) [of b c] by blast
  moreover obtain f where "unat (a + (b + c)) + f * BB = unat a + unat (b + c)" using carryB(1) [of a "b + c"] by blast
  ultimately have "unat (a + (b + c)) + (f + e) * BB = unat a + unat b + unat c" by (simp add: add_mult_distrib)
  then show ?thesis by blast
qed

lemma step_less:
  assumes q: "gmp_udiv_qr_3by2 n1 (m (p + (k + 1))) (m (p + k)) d1 d0 dinv = (q, r1, r0)" "inverse_2 (dv d1 d0) (uint dinv)" "2 ^ 63 \<le> unat d1"
    and d: "d1 = m (dp + (k + 1))" "d0 = m (dp + k)" "apart p (k + 2) dp (k + 2)"
    and ne: "\<not> (n1 = d1 \<and> m (p + (k + 1)) = d0)"
    and rem: "unat n1 * BB ^ (k + 1) + lval m (p + 1) (k + 1) < lval m dp (k + 2)"
    and s: "submul_1_loop p dp q k m = (cy, m1)" and m2: "m2 = m1(p + k := r0 - cy)"
  shows "pv r1 r0 \<ge> unat cy \<Longrightarrow> step_done (lval m dp (k + 2)) p k n1 m q (r1 - of_bool (r0 < cy)) m2"
    and "pv r1 r0 < unat cy \<Longrightarrow> mpn_add_n p p dp (k + 1) m2 = (c, m3) \<Longrightarrow>
      step_done (lval m dp (k + 2)) p k n1 m (q - 1) (r1 - of_bool (r0 < cy) + (d1 + c)) m3"
proof -
  define N D where "N = unat n1 * BB ^ (k + 2) + lval m p (k + 2)" and "D = lval m dp (k + 2)"
  define NN DD where "NN = pv n1 (m (p + (k + 1)))" and "DD = pv d1 d0"
  note n = step_numbers [OF rem, folded N_def D_def NN_def, unfolded d(1,2) [symmetric], folded DD_def]
  have "NN \<noteq> DD"
  proof
    assume "NN = DD"
    then have "NN div BB = DD div BB" "NN mod BB = DD mod BB" by simp_all
    then show False using ne by (simp add: NN_def DD_def word_unat_eq_iff)
  qed
  then have lt: "NN < DD" using n(4) by simp
  note h = qr_3by2_nat [OF q(1,3) lt [unfolded NN_def DD_def] q(2), folded NN_def DD_def]
  have f: "fwd p dp k" "fwd p dp (k + 1)" using d(3) by (auto simp: fwd_def apart_def)
  note sub = submul_1_loop_ok [OF f(1) order_refl s]
  define P where "P = BB ^ k"
  have ints: "int D = int DD * int P + int (lval m dp k)" "int N = (int NN * int BB + int (unat (m (p + k)))) * int P + int (lval m p k)"
    "int (unat q) * int DD + int (pv r1 r0) = int NN * int BB + int (unat (m (p + k)))"
    "int (lval m1 p k) + int (unat q) * int (lval m dp k) = int (lval m p k) + int (unat cy) * int P"
    using arg_cong [OF n(1), of int] arg_cong [OF n(2), of int] arg_cong [OF h(1), of int] arg_cong [OF conjunct2 [OF sub], of int]
    unfolding P_def of_nat_add of_nat_mult by (simp_all only: mult.commute)
  have bounds: "int (lval m dp k) < int P" "int BB \<le> int DD" "int (pv r1 r0) < int DD" "int (lval m1 p k) < int P" "int (unat cy) < int BB"
    unfolding P_def DD_def using lval_less BB_le_pv [OF q(3)] h(2) unat_less_BB DD_def by (simp_all only: of_nat_less_iff of_nat_le_iff)
  note t = top_less [OF ints(1) of_nat_0_le_iff bounds(1,2) ints(2,3) bounds(3) of_nat_0_le_iff ints(4) of_nat_0_le_iff bounds(4) of_nat_0_le_iff bounds(5)]
  have so: "same_outside p (k + 1) m m2" using sub by (auto simp: m2 same_outside_def)
  have v2: "unat h * BB ^ (k + 1) + lval m2 p (k + 1) = pv h (r0 - cy) * P + lval m1 p k" for h :: u64
    by (simp add: m2 P_def algebra_simps)
  show "step_done (lval m dp (k + 2)) p k n1 m q (r1 - of_bool (r0 < cy)) m2" if c: "pv r1 r0 \<ge> unat cy"
  proof -
    define V where "V = unat (r1 - of_bool (r0 < cy)) * BB ^ (k + 1) + lval m2 p (k + 1)"
    have "int (pv (r1 - of_bool (r0 < cy)) (r0 - cy)) = int (pv r1 r0) - int (unat cy)" using borrow_pair [of r1 r0 cy] c by simp
    then have V: "int V = int N - int (unat q) * int D" unfolding t(1) V_def v2 by (simp only: of_nat_add of_nat_mult)
    moreover have "int N - int (unat q) * int D < int D" using t(2) c by (simp only: of_nat_le_iff simp_thms)
    ultimately have "int (unat q * D + V) = int N" "int V < int D" by (simp_all only: of_nat_add of_nat_mult)
    then have "unat q * D + V = N" "V < D" by (simp_all only: of_nat_eq_iff of_nat_less_iff)
    then show ?thesis using so unfolding step_done_def V_def N_def D_def by (auto simp: same_outside_def)
  qed
  show "step_done (lval m dp (k + 2)) p k n1 m (q - 1) (r1 - of_bool (r0 < cy) + (d1 + c)) m3"
    if c: "pv r1 r0 < unat cy" "mpn_add_n p p dp (k + 1) m2 = (c, m3)"
  proof -
    define h where "h = r1 - of_bool (r0 < cy)"
    define V where "V = unat (h + (d1 + c)) * BB ^ (k + 1) + lval m3 p (k + 1)"
    have "fwd p p (k + 1)" by (simp add: fwd_def)
    note a = mpn_add_n_ok [OF this f(2) order_refl c(2)]
    have neg: "int N - int (unat q) * int D < 0" "0 \<le> int N - int (unat q) * int D + int D"
      using t(3) c(1) by (simp_all only: of_nat_less_iff simp_thms)
    have dp: "lval m2 dp (k + 1) = lval m dp (k + 1)" by (rule lval_outside [OF so]) (use d(3) in \<open>auto simp: apart_def\<close>)
    obtain e where e: "unat (h + (d1 + c)) + e * BB = unat h + unat d1 + unat c" using sum_wrap by blast
    have M: "int (BB * BB) * int P = int (BB ^ (k + 2))" by (simp add: P_def)
    have "int V = int N - int (unat q) * int D + int D + (1 - int e) * int (BB ^ (k + 2))"
    proof -
      have "V + unat c * BB ^ (k + 1) + e * BB * BB ^ (k + 1) =
        (unat h * BB ^ (k + 1) + lval m2 p (k + 1)) + (unat d1 * BB ^ (k + 1) + lval m dp (k + 1)) + unat c * BB ^ (k + 1)"
        using arg_cong [OF e, of "\<lambda>x. x * BB ^ (k + 1)"] a unfolding V_def dp by (simp only: add_mult_distrib) linarith
      moreover have "unat d1 * BB ^ (k + 1) + lval m dp (k + 1) = D" unfolding D_def d by (simp add: numeral_2_eq_2)
      moreover have "e * BB * BB ^ (k + 1) = e * BB ^ (k + 2)" by simp
      ultimately have "V + e * BB ^ (k + 2) = pv h (r0 - cy) * P + lval m1 p k + D" unfolding v2 by linarith
      then have "int (V + e * BB ^ (k + 2)) = int (pv h (r0 - cy) * P + lval m1 p k + D)" by (rule arg_cong)
      moreover have "int (pv h (r0 - cy)) = int (pv r1 r0) - int (unat cy) + int (BB * BB)"
        using borrow_pair [of r1 r0 cy] c(1) unfolding h_def by simp
      ultimately have "int V + int e * int (BB ^ (k + 2)) = (int (pv r1 r0) - int (unat cy) + int (BB * BB)) * int P + int (lval m1 p k) + int D"
        by (simp only: of_nat_add of_nat_mult)
      then show ?thesis unfolding t(1) M [symmetric] by (simp only: left_diff_distrib distrib_right mult_1)
    qed
    then have V: "int V = int N - int (unat q) * int D + int D"
    proof (rule range_unique)
      have "D < BB ^ (k + 2)" unfolding D_def by (rule lval_less)
      then have "int D < int (BB ^ (k + 2))" by (simp only: of_nat_less_iff)
      then show "int N - int (unat q) * int D + int D < int (BB ^ (k + 2))" using neg by linarith
      have "V < BB ^ Suc (k + 1)" unfolding V_def using lval_less [of "m3(p + (k + 1) := h + (d1 + c))" p "Suc (k + 1)"] by simp
      then show "int V < int (BB ^ (k + 2))" by (simp only: of_nat_less_iff) simp
    qed (use neg in simp_all)
    have "unat q \<noteq> 0"
    proof
      assume "unat q = 0"
      then show False using neg(1) by simp
    qed
    then have q1: "int (unat (q - 1)) = int (unat q) - 1" using unat_sub [of 1 q] by (simp add: word_le_nat_alt of_nat_diff Suc_le_eq)
    have "int (unat (q - 1) * D + V) = int N" unfolding of_nat_add of_nat_mult q1 V by (simp add: algebra_simps)
    moreover have "int V < int D" using V neg by linarith
    ultimately have "unat (q - 1) * D + V = N" "V < D" by (simp_all only: of_nat_eq_iff of_nat_less_iff)
    then show ?thesis using so a unfolding step_done_def V_def N_def D_def h_def by (auto simp: same_outside_def)
  qed
qed

lemma pi1_step_ok:
  assumes "1 \<le> k" "apart (np + i) (k + 2) dp (k + 2)" "d1 = m (dp + (k + 1))" "d0 = m (dp + k)" "2 ^ 63 \<le> unat d1"
    and "inverse_2 (dv d1 d0) (uint dinv)" "unat n1 * BB ^ (k + 1) + lval m (np + i + 1) (k + 1) < lval m dp (k + 2)"
  shows "\<exists>q n1' m'. pi1_step qp np dp (k + 2) d1 d0 dinv i n1 m = Inr (n1', store_q qp i q m') \<and>
    step_done (lval m dp (k + 2)) (np + i) k n1 m q n1' m'"
proof -
  define p K where "p = np + i" and "K = k + 2"
  have ix: "K - 2 = k" "K - 1 = k + 1" "np + (k + 1 + i) = p + (k + 1)" "np + (k + i) = p + k" "1 \<le> K" by (simp_all add: p_def K_def)
  note a2 = assms(2) [folded p_def K_def] and a7 = assms(7) [folded p_def K_def]
  show ?thesis
  proof (cases "n1 = d1 \<and> m (p + (k + 1)) = d0")
    case True
    obtain cl m' where s: "submul_1_loop p dp (NOT 0) K m = (cl, m')" by (metis surj_pair)
    have "step_done (lval m dp K) p k n1 m (NOT 0) (m' (p + (k + 1))) m'"
      unfolding K_def by (rule step_equal [OF s [unfolded K_def] a2 [unfolded K_def]]) (use True assms a7 in \<open>simp_all add: K_def\<close>)
    moreover have "pi1_step qp np dp K d1 d0 dinv i n1 m = Inr (m' (p + (k + 1)), store_q qp i (NOT 0) m')"
      using True s ix(5) unfolding pi1_step_def ix(1-4) p_def [symmetric] mpn_submul_1_def Let_def by simp
    ultimately show ?thesis unfolding p_def K_def by blast
  next
    case False
    obtain q r1 r0 where q: "gmp_udiv_qr_3by2 n1 (m (p + (k + 1))) (m (p + k)) d1 d0 dinv = (q, r1, r0)" by (metis prod_cases3)
    obtain cy m1 where s: "submul_1_loop p dp q k m = (cy, m1)" by (metis surj_pair)
    obtain c m3 where a: "mpn_add_n p p dp (k + 1) (m1(p + k := r0 - cy)) = (c, m3)" by (metis surj_pair)
    note l = step_less [OF q assms(6,5,3,4) a2 [unfolded K_def] False a7 [unfolded K_def] s refl, folded K_def]
    have "pi1_step qp np dp K d1 d0 dinv i n1 m =
        (if pv r1 r0 < unat cy then Inr (r1 - of_bool (r0 < cy) + (d1 + c), store_q qp i (q - 1) m3)
         else Inr (r1 - of_bool (r0 < cy), store_q qp i q (m1(p + k := r0 - cy))))"
      using a assms(1) unfolding pi1_step_def ix(1-4) p_def [symmetric] mpn_submul_1_def Let_def if_not_P [OF False] q prod.case s borrow_pair(2) [symmetric]
      by (simp del: mpn_add_n.simps)
    note e = this
    show ?thesis
    proof (cases "pv r1 r0 < unat cy")
      case True
      then show ?thesis using e l(2) [OF True a] unfolding p_def K_def by (simp only: if_True) blast
    next
      case False
      then have "unat cy \<le> pv r1 r0" by simp
      then show ?thesis using e l(1) False unfolding p_def K_def by (simp only: if_False) blast
    qed
  qed
qed

text \<open>The whole loop: the quotient goes to \<open>qp\<close>, the remainder stays in the low limbs of the dividend.\<close>

definition qkept :: "nat option \<Rightarrow> nat \<Rightarrow> nat \<Rightarrow> nat \<Rightarrow> limb_mem \<Rightarrow> limb_mem \<Rightarrow> bool" where
  "qkept qp n np l m m' \<longleftrightarrow> (\<forall>a. (a < np \<or> np + l \<le> a) \<and> (\<forall>p. qp = Some p \<longrightarrow> a < p \<or> p + n \<le> a) \<longrightarrow> m' a = m a)"

definition qval :: "nat option \<Rightarrow> nat \<Rightarrow> nat \<Rightarrow> limb_mem \<Rightarrow> bool" where
  "qval qp n Q m \<longleftrightarrow> (\<forall>p. qp = Some p \<longrightarrow> lval m p n = Q)"

lemma lval_store: "(\<And>p. qp = Some p \<Longrightarrow> p + i < a \<or> a + n \<le> p + i) \<Longrightarrow> lval (store_q qp i q m) a n = lval m a n"
  by (auto simp: store_q_def split: option.splits)

lemma top_split: "r * BB ^ (a + b) + lval m p (a + b) = (r * BB ^ b + lval m (p + a) b) * BB ^ a + lval m p a"
  by (simp add: lval_split power_add algebra_simps)

lemma pi1_loop_ok:
  assumes "1 \<le> k" "apart np (i + k + 2) dp (k + 2)" "d1 = m (dp + (k + 1))" "d0 = m (dp + k)" "2 ^ 63 \<le> unat d1"
    and "inverse_2 (dv d1 d0) (uint dinv)" "unat n1 * BB ^ (k + 1) + lval m (np + i + 1) (k + 1) < lval m dp (k + 2)"
    and "\<And>p. qp = Some p \<Longrightarrow> apart p (i + 1) np (i + k + 2) \<and> apart p (i + 1) dp (k + 2)"
  shows "\<exists>Q n1' m'. pi1_loop qp np dp (k + 2) d1 d0 dinv i n1 m = Inr (n1', m') \<and>
    qkept qp (i + 1) np (i + k + 2) m m' \<and> qval qp (i + 1) Q m' \<and>
    Q * lval m dp (k + 2) + (unat n1' * BB ^ (k + 1) + lval m' np (k + 1)) = unat n1 * BB ^ (i + k + 2) + lval m np (i + k + 2) \<and>
    unat n1' * BB ^ (k + 1) + lval m' np (k + 1) < lval m dp (k + 2)"
  using assms(2-)
proof (induction i arbitrary: n1 m)
  case 0
  have "apart (np + 0) (k + 2) dp (k + 2)" using 0(1) by simp
  from pi1_step_ok [OF assms(1) this 0(2-6), of qp] obtain q n1' m' where
    s: "pi1_step qp np dp (k + 2) d1 d0 dinv 0 n1 m = Inr (n1', store_q qp 0 q m')" "step_done (lval m dp (k + 2)) np k n1 m q n1' m'" by auto
  have "lval (store_q qp 0 q m') np (k + 1) = lval m' np (k + 1)" by (rule lval_store) (use 0(7) in \<open>auto simp: apart_def\<close>)
  moreover have "qkept qp 1 np (k + 2) m (store_q qp 0 q m')"
    using s(2) by (auto simp: step_done_def qkept_def same_outside_def store_q_def split: option.splits)
  moreover have "qval qp 1 (unat q) (store_q qp 0 q m')" by (auto simp: qval_def store_q_def)
  ultimately show ?case using s unfolding step_done_def
    by (intro exI [of _ "unat q"] exI [of _ n1'] exI [of _ "store_q qp 0 q m'"]) simp
next
  case (Suc i)
  have ap: "apart (np + Suc i) (k + 2) dp (k + 2)" "apart np (i + k + 2) dp (k + 2)" using Suc.prems(1) by (auto simp: apart_def)
  from pi1_step_ok [OF assms(1) ap(1) Suc.prems(2-6), of qp] obtain q r m' where
    s: "pi1_step qp np dp (k + 2) d1 d0 dinv (Suc i) n1 m = Inr (r, store_q qp (Suc i) q m')"
    and d: "step_done (lval m dp (k + 2)) (np + Suc i) k n1 m q r m'" by blast
  define m2 where "m2 = store_q qp (Suc i) q m'"
  have so: "same_outside (np + Suc i) (k + 2) m m'" using d by (simp add: step_done_def)
  have D: "m2 (dp + j) = m (dp + j)" if "j < k + 2" for j
    using so ap(1) Suc.prems(7) that by (auto simp: m2_def store_q_def same_outside_def apart_def split: option.splits)
  have dp: "lval m2 dp (k + 2) = lval m dp (k + 2)" "m2 (dp + (k + 1)) = m (dp + (k + 1))" "m2 (dp + k) = m (dp + k)"
    by (rule lval_cong, erule D) (rule D, simp)+
  have low: "lval m2 np (i + 1) = lval m np (i + 1)"
    using so Suc.prems(7) by (intro lval_cong) (auto simp: m2_def store_q_def same_outside_def apart_def split: option.splits)
  have mid: "lval m2 (np + Suc i) (k + 1) = lval m' (np + Suc i) (k + 1)"
    unfolding m2_def using Suc.prems(7) by (intro lval_store) (auto simp: apart_def)
  define R where "R = unat r * BB ^ (k + 1) + lval m' (np + Suc i) (k + 1)"
  have R: "unat q * lval m dp (k + 2) + R = unat n1 * BB ^ (k + 2) + lval m (np + Suc i) (k + 2)" "R < lval m dp (k + 2)"
    using d by (simp_all add: step_done_def R_def)
  have "\<exists>Q n1' m''. pi1_loop qp np dp (k + 2) d1 d0 dinv i r m2 = Inr (n1', m'') \<and>
    qkept qp (i + 1) np (i + k + 2) m2 m'' \<and> qval qp (i + 1) Q m'' \<and>
    Q * lval m2 dp (k + 2) + (unat n1' * BB ^ (k + 1) + lval m'' np (k + 1)) = unat r * BB ^ (i + k + 2) + lval m2 np (i + k + 2) \<and>
    unat n1' * BB ^ (k + 1) + lval m'' np (k + 1) < lval m2 dp (k + 2)"
  proof (rule Suc.IH)
    show "unat r * BB ^ (k + 1) + lval m2 (np + i + 1) (k + 1) < lval m2 dp (k + 2)" using R(2) mid unfolding R_def dp(1) by simp
    show "apart p (i + 1) np (i + k + 2) \<and> apart p (i + 1) dp (k + 2)" if "qp = Some p" for p
      using Suc.prems(7) [OF that] by (auto simp: apart_def)
  qed (use dp ap Suc.prems in simp_all)
  then obtain Q n1' m'' where l: "pi1_loop qp np dp (k + 2) d1 d0 dinv i r m2 = Inr (n1', m'')"
      "qkept qp (i + 1) np (i + k + 2) m2 m''" "qval qp (i + 1) Q m''"
    and v: "Q * lval m dp (k + 2) + (unat n1' * BB ^ (k + 1) + lval m'' np (k + 1)) = unat r * BB ^ (i + k + 2) + lval m2 np (i + k + 2)"
      "unat n1' * BB ^ (k + 1) + lval m'' np (k + 1) < lval m dp (k + 2)" unfolding dp by blast
  have ik: "i + k + 2 = (i + 1) + (k + 1)" "Suc i + k + 2 = (i + 1) + (k + 2)" "np + (i + 1) = np + Suc i" by simp_all
  have "unat r * BB ^ (i + k + 2) + lval m2 np (i + k + 2) = R * BB ^ (i + 1) + lval m np (i + 1)"
    unfolding ik(1) top_split ik(3) low mid R_def ..
  note q = quotient_step [OF R(1) v(1) [unfolded this]]
  have "(unat n1 * BB ^ (k + 2) + lval m (np + Suc i) (k + 2)) * BB ^ (i + 1) + lval m np (i + 1) = unat n1 * BB ^ (Suc i + k + 2) + lval m np (Suc i + k + 2)"
    unfolding ik(2) top_split ik(3) ..
  note q = q [unfolded this]
  have "qkept qp (Suc i + 1) np (Suc i + k + 2) m m''"
    using l(2) so by (auto simp: qkept_def same_outside_def m2_def store_q_def split: option.splits)
  moreover have "qval qp (Suc i + 1) (Q + unat q * BB ^ (i + 1)) m''"
  proof -
    have "m'' (p + Suc i) = q" if "qp = Some p" for p
      using l(2) Suc.prems(7) [OF that] that by (auto simp: qkept_def m2_def store_q_def apart_def)
    then show ?thesis using l(3) by (simp add: qval_def)
  qed
  ultimately show ?case using s l(1) q v(2) unfolding m2_def by (intro exI [of _ "Q + unat q * BB ^ (i + 1)"] exI [of _ n1'] exI [of _ m'']) simp
qed

lemma high_bit_set: "d AND GMP_LIMB_HIGHBIT \<noteq> 0 \<longleftrightarrow> 2 ^ 63 \<le> unat d"
  unfolding GMP_LIMB_HIGHBIT_def top_bit by (simp only: not_less)

lemma mpn_div_qr_pi1_ok:
  assumes "1 \<le> k" "dn = k + 2" "dn \<le> nn" "apart np nn dp dn" "2 ^ 63 \<le> unat (m (dp + (dn - 1)))"
    and "inverse_2 (dv (m (dp + (dn - 1))) (m (dp + (dn - 2)))) (uint dinv)" "unat n1 < unat (m (dp + (dn - 1)))"
    and q: "\<And>p. qp = Some p \<Longrightarrow> apart p (nn - dn + 1) np nn \<and> apart p (nn - dn + 1) dp dn"
  shows "\<exists>Q m'. mpn_div_qr_pi1 qp np nn n1 dp dn dinv m = Inr m' \<and> qkept qp (nn - dn + 1) np nn m m' \<and> qval qp (nn - dn + 1) Q m' \<and>
    Q * lval m dp dn + lval m' np dn = unat n1 * BB ^ nn + lval m np nn \<and> lval m' np dn < lval m dp dn"
proof -
  obtain i where i: "nn = i + k + 2" using assms(2,3) by (metis add.assoc add.commute le_add_diff_inverse)
  have dn: "dn - 1 = k + 1" "dn - 2 = k" "nn - dn = i" using assms(2) i by simp_all
  define d1 d0 where "d1 = m (dp + (k + 1))" and "d0 = m (dp + k)"
  have rem: "unat n1 * BB ^ (k + 1) + lval m (np + i + 1) (k + 1) < lval m dp (k + 2)"
  proof -
    have "(unat n1 + 1) * BB ^ (k + 1) \<le> unat d1 * BB ^ (k + 1)" using assms(7) unfolding d1_def dn by (intro mult_le_mono1) simp
    moreover have "lval m dp (k + 2) = unat d1 * BB ^ (k + 1) + lval m dp (k + 1)" by (simp add: d1_def numeral_2_eq_2)
    ultimately show ?thesis using lval_less [of m "np + i + 1" "k + 1"] by (simp only: add_mult_distrib)
  qed
  have "\<exists>Q n1' m'. pi1_loop qp np dp (k + 2) d1 d0 dinv i n1 m = Inr (n1', m') \<and>
    qkept qp (i + 1) np (i + k + 2) m m' \<and> qval qp (i + 1) Q m' \<and>
    Q * lval m dp (k + 2) + (unat n1' * BB ^ (k + 1) + lval m' np (k + 1)) = unat n1 * BB ^ (i + k + 2) + lval m np (i + k + 2) \<and>
    unat n1' * BB ^ (k + 1) + lval m' np (k + 1) < lval m dp (k + 2)"
    using assms i dn by (intro pi1_loop_ok rem) (simp_all add: d1_def d0_def)
  then obtain Q n1' m' where l: "pi1_loop qp np dp dn d1 d0 dinv i n1 m = Inr (n1', m')" "qkept qp (i + 1) np nn m m'" "qval qp (i + 1) Q m'"
    and v: "Q * lval m dp dn + (unat n1' * BB ^ (k + 1) + lval m' np (k + 1)) = unat n1 * BB ^ nn + lval m np nn"
      "unat n1' * BB ^ (k + 1) + lval m' np (k + 1) < lval m dp dn" unfolding i assms(2) by blast
  define m'' where "m'' = m'(np + (k + 1) := n1')"
  have "lval m'' np dn = unat n1' * BB ^ (k + 1) + lval m' np (k + 1)" unfolding m''_def assms(2) by (simp add: numeral_2_eq_2)
  moreover have "qkept qp (i + 1) np nn m m''" using l(2) by (auto simp: qkept_def m''_def i)
  moreover have "lval m'' p (i + 1) = lval m' p (i + 1)" if "qp = Some p" for p
    unfolding m''_def by (rule lval_upd) (use q [OF that, unfolded dn(3)] i in \<open>auto simp: apart_def\<close>)
  then have "qval qp (i + 1) Q m''" using l(3) unfolding qval_def by auto
  moreover have "mpn_div_qr_pi1 qp np nn n1 dp dn dinv m = Inr m''"
    using l(1) assms(1,2,3,5) unfolding mpn_div_qr_pi1_def dn d1_def d0_def m''_def Let_def high_bit_set by simp
  ultimately show ?thesis using v unfolding dn by auto
qed

subsection \<open>Normalised divisors\<close>

definition normal :: "nat \<Rightarrow> nat \<Rightarrow> gmp_div_inverse \<Rightarrow> bool" where
  "normal D dn iv \<longleftrightarrow> inv_shift iv < 64 \<and> D * 2 ^ inv_shift iv < BB ^ dn \<and> 2 ^ 63 \<le> unat (inv_d1 iv) \<and>
     (if dn = 1 then unat (inv_d1 iv) = D * 2 ^ inv_shift iv \<and> inverse_1 (uint (inv_d1 iv)) (uint (inv_di iv))
      else pv (inv_d1 iv) (inv_d0 iv) = D * 2 ^ inv_shift iv div BB ^ (dn - 2) \<and>
        inverse_2 (dv (inv_d1 iv) (inv_d0 iv)) (uint (inv_di iv)))"

lemma shift_pair:
  assumes "0 < sh" "sh < 64" "unat d1 * 2 ^ sh < limb_base"
  shows "unat (push_bit sh d1 OR drop_bit (64 - sh) d0) * BB + unat (push_bit sh d0) = pv d1 d0 * 2 ^ sh"
proof -
  have "unat (push_bit sh d0) + BB * unat (drop_bit (64 - sh) d0) = unat d0 * 2 ^ sh" unfolding BB_def by (rule shift_value [OF assms(1,2)])
  moreover have "unat (push_bit sh d1) = unat d1 * 2 ^ sh" by (rule unat_shift_fits [OF assms(3)])
  ultimately show ?thesis unfolding or_shifted [OF assms(1,2)] by (simp add: algebra_simps)
qed

lemma mpn_div_qr_1_invert_ok:
  assumes "d \<noteq> 0"
  shows "\<exists>iv'. mpn_div_qr_1_invert iv d = Inr iv' \<and> normal (unat d) 1 iv'"
proof -
  obtain c where c: "c < 64" "gmp_clz d = Some c" "2 ^ 63 \<le> unat d * 2 ^ c" "unat d * 2 ^ c < limb_base" using gmp_clz_ok [OF assms] by blast
  have u: "unat (push_bit c d) = unat d * 2 ^ c" by (rule unat_shift_fits [OF c(4)])
  then have "2 ^ 63 \<le> uint (push_bit c d)" using c(3) unfolding high_bit_nat by simp
  then obtain v where "mpn_invert_limb (push_bit c d) = Inr v" "inverse_1 (uint (push_bit c d)) (uint v)" using mpn_invert_limb_ok by blast
  moreover have "0 < unat d" using assms by (simp add: unat_gt_0)
  ultimately show ?thesis using c u by (auto simp: mpn_div_qr_1_invert_def returns_def normal_def BB_def)
qed

text \<open>The two highest limbs of the shifted divisor.\<close>

lemma shifted_top:
  fixes sh k :: nat and m :: limb_mem
  assumes "0 < sh" "sh < 64" "unat d1 * 2 ^ sh < limb_base" "D = pv d1 d0 * BB ^ k + L" "L < BB ^ k"
    and e: "e = (if k = 0 then 0 else drop_bit (64 - sh) x)" "k \<noteq> 0 \<Longrightarrow> L = unat x * BB ^ (k - 1) + l \<and> l < BB ^ (k - 1)"
  shows "pv (push_bit sh d1 OR drop_bit (64 - sh) d0) (push_bit sh d0 OR e) = D * 2 ^ sh div BB ^ k"
proof -
  have o: "unat (push_bit sh d0 OR e) = unat (push_bit sh d0) + unat e" using or_shifted [OF assms(1,2)] by (simp add: e)
  have "unat e * BB ^ k \<le> L * 2 ^ sh \<and> L * 2 ^ sh < (unat e + 1) * BB ^ k"
  proof (cases k)
    case 0
    then show ?thesis using assms(5) e(1) by simp
  next
    case (Suc j)
    have s: "unat (push_bit sh x) + BB * unat e = unat x * 2 ^ sh" using shift_value [OF assms(1,2), of x] Suc by (simp add: e BB_def)
    have L: "L = unat x * BB ^ j + l" "l < BB ^ j" using e(2) Suc by simp_all
    have bb: "BB = 2 ^ sh * 2 ^ (64 - sh)" using assms(2) by (simp add: BB_def flip: power_add)
    obtain c where c: "unat (push_bit sh x) = 2 ^ sh * c" using unat_push_bit [OF assms(1,2)] by blast
    have "2 ^ sh * c < 2 ^ sh * 2 ^ (64 - sh)" using unat_less_BB [of "push_bit sh x"] unfolding c bb .
    then have "2 ^ sh * (c + 1) \<le> 2 ^ sh * 2 ^ (64 - sh)" by (intro mult_le_mono2) simp
    then have p: "unat (push_bit sh x) + 2 ^ sh \<le> BB" unfolding c bb by simp
    have "L * 2 ^ sh = (unat (push_bit sh x) + BB * unat e) * BB ^ j + l * 2 ^ sh" unfolding s L(1) by (simp add: algebra_simps)
    then have q: "L * 2 ^ sh = unat e * BB ^ k + (unat (push_bit sh x) * BB ^ j + l * 2 ^ sh)" by (simp add: Suc algebra_simps)
    have "(unat (push_bit sh x) + 2 ^ sh) * BB ^ j \<le> BB * BB ^ j" using p by (rule mult_le_mono1)
    moreover have "l * 2 ^ sh < 2 ^ sh * BB ^ j" using L(2) by (simp add: mult.commute)
    ultimately have "unat (push_bit sh x) * BB ^ j + l * 2 ^ sh < BB ^ k" unfolding Suc power_Suc add_mult_distrib by linarith
    then show ?thesis using q by (simp add: algebra_simps)
  qed
  then have "L * 2 ^ sh div BB ^ k = unat e" by (intro div_nat_eqI) (simp_all add: mult.commute)
  moreover have "D * 2 ^ sh = L * 2 ^ sh + (pv d1 d0 * 2 ^ sh) * BB ^ k" unfolding assms(4) by (simp add: algebra_simps)
  ultimately have "D * 2 ^ sh div BB ^ k = unat e + pv d1 d0 * 2 ^ sh" by simp
  then show ?thesis unfolding o shift_pair [OF assms(1-3), symmetric] by simp
qed

lemma normal_2:
  assumes "gmp_clz d1 = Some c" "c < 64" "2 ^ 63 \<le> unat d1 * 2 ^ c" "unat d1 * 2 ^ c < limb_base" "dn = k + 2"
    and D: "D = pv d1 d0 * BB ^ k + L" "L < BB ^ k" "k \<noteq> 0 \<Longrightarrow> L = unat x * BB ^ (k - 1) + l \<and> l < BB ^ (k - 1)"
    and e: "e = (if k = 0 then 0 else drop_bit (64 - c) x)"
    and p: "(a1, a0) = (if c > 0 then (push_bit c d1 OR drop_bit (64 - c) d0, push_bit c d0 OR e) else (d1, d0))"
  shows "\<exists>v. mpn_invert_3by2 a1 a0 = Inr v \<and> normal D dn (iv\<lparr>inv_shift := c, inv_d1 := a1, inv_d0 := a0, inv_di := v\<rparr>)"
proof -
  have t: "pv a1 a0 = D * 2 ^ c div BB ^ k"
  proof (cases "c > 0")
    case True
    then show ?thesis using shifted_top [OF _ assms(2,4) D(1,2) e D(3)] p by simp
  next
    case False
    then show ?thesis using p D(2) unfolding D(1) by simp
  qed
  have "unat d1 * 2 ^ c * BB \<le> pv a1 a0"
  proof -
    have "unat d1 * BB * BB ^ k * 2 ^ c \<le> D * 2 ^ c" unfolding D(1) by (simp add: algebra_simps)
    then have "(unat d1 * BB * BB ^ k * 2 ^ c) div BB ^ k \<le> pv a1 a0" unfolding t by (rule div_le_mono)
    moreover have "unat d1 * BB * BB ^ k * 2 ^ c = unat d1 * 2 ^ c * BB * BB ^ k" by (simp only: ac_simps)
    ultimately show ?thesis by simp
  qed
  then have "unat d1 * 2 ^ c * BB < (unat a1 + 1) * BB" using unat_less_BB [of a0] by (simp only: add_mult_distrib)
  then have "unat d1 * 2 ^ c < unat a1 + 1" by (simp only: mult_less_cancel2)
  then have a1: "2 ^ 63 \<le> unat a1" using assms(3) by linarith
  then obtain v where v: "mpn_invert_3by2 a1 a0 = Inr v" "inverse_2 (dv a1 a0) (uint v)" using mpn_invert_3by2_ok [of a1 a0] high_bit_nat by blast
  have "D * 2 ^ c < BB ^ dn"
  proof -
    have "D * 2 ^ c div BB ^ k < BB * BB" unfolding t [symmetric] using pv_less .
    then have "D * 2 ^ c < BB * BB * BB ^ k" by (simp add: div_less_iff_less_mult mult.commute)
    then show ?thesis by (simp add: assms(5) mult.assoc)
  qed
  then show ?thesis using v a1 t assms(2,5) by (simp add: normal_def)
qed

lemma mpn_div_qr_invert_ok:
  assumes "0 < dn" "m (dp + (dn - 1)) \<noteq> 0"
  shows "\<exists>iv'. mpn_div_qr_invert iv dp dn m = Inr iv' \<and> normal (lval m dp dn) dn iv'"
proof (cases "dn = 1")
  case True
  then show ?thesis using mpn_div_qr_1_invert_ok [of "m dp" iv] assms by (simp add: mpn_div_qr_invert_def)
next
  case False
  then obtain k where k: "dn = k + 2" using assms(1) by (metis One_nat_def Suc_leI add.commute le_add_diff_inverse le_antisym less_one not_less numeral_2_eq_2 Suc_lessI le_Suc_ex)
  define d1 d0 where "d1 = m (dp + (k + 1))" and "d0 = m (dp + k)"
  have ne: "d1 \<noteq> 0" using assms(2) by (simp add: k d1_def)
  then have pos: "0 < unat d1" by (simp add: unat_gt_0)
  obtain c where c: "c < 64" "gmp_clz d1 = Some c" "2 ^ 63 \<le> unat d1 * 2 ^ c" "unat d1 * 2 ^ c < limb_base" using gmp_clz_ok [OF ne] by blast
  define e where "e = (if k = 0 then 0 else drop_bit (64 - c) (m (dp + (k - 1))))"
  obtain a1 a0 where a: "(a1, a0) = (if c > 0 then (push_bit c d1 OR drop_bit (64 - c) d0, push_bit c d0 OR e) else (d1, d0))" by (metis surj_pair)
  have D: "lval m dp dn = pv d1 d0 * BB ^ k + lval m dp k" by (simp add: k d1_def d0_def numeral_2_eq_2 algebra_simps)
  have L: "lval m dp k = unat (m (dp + (k - 1))) * BB ^ (k - 1) + lval m dp (k - 1) \<and> lval m dp (k - 1) < BB ^ (k - 1)" if "k \<noteq> 0"
    using that lval_less by (cases k) simp_all
  obtain v where v: "mpn_invert_3by2 a1 a0 = Inr v" "normal (lval m dp dn) dn (iv\<lparr>inv_shift := c, inv_d1 := a1, inv_d0 := a0, inv_di := v\<rparr>)"
    using normal_2 [OF c(2,1,3,4) k D lval_less L e_def a] by blast
  have "mpn_div_qr_invert iv dp dn m = Inr (iv\<lparr>inv_shift := c, inv_d1 := a1, inv_d0 := a0, inv_di := v\<rparr>)"
  proof (cases k)
    case 0
    then show ?thesis using a v(1) c(2) pos unfolding k mpn_div_qr_invert_def mpn_div_qr_2_invert_def d1_def d0_def
      by (auto simp: e_def returns_def Let_def numeral_2_eq_2 split: if_splits)
  next
    case (Suc j)
    then have "dn - 1 = k + 1" "dn - 2 = k" "dn - 3 = k - 1" "dn \<noteq> 1" "dn \<noteq> 2" "k \<noteq> 0" using k by simp_all
    then show ?thesis using a v(1) c(2) pos assms(1) unfolding mpn_div_qr_invert_def d1_def d0_def
      by (auto simp: e_def returns_def Let_def split: if_splits)
  qed
  then show ?thesis using v(2) by blast
qed

end
