(* ===== verification/Mpn_Divide.thy ===== *)
theory Mpn_Divide
  imports Mpn_Div
begin

section \<open>The results of the division\<close>

text \<open>
  What the functions of \<open>Mpn_Div\<close> compute: quotient and remainder, where the remainder replaces the
  dividend and the quotient is stored only when a place for it is given. The temporary arrays are
  allocated behind all other blocks and freed again, so that no block is lost.
\<close>

declare of_nat_unat [simp del]

subsection \<open>Temporary memory\<close>

definition scratch :: "nat option \<Rightarrow> nat \<Rightarrow> nat \<Rightarrow> nat \<Rightarrow> mpz_mem \<Rightarrow> mpz_mem \<Rightarrow> bool" where
  "scratch qp n np l s s' \<longleftrightarrow> blocks s' = blocks s \<and> objs s' = objs s \<and> stack s' = stack s \<and> brk s \<le> brk s' \<and>
     (\<forall>a<brk s. (a < np \<or> np + l \<le> a) \<and> (\<forall>p. qp = Some p \<longrightarrow> a < p \<or> p + n \<le> a) \<longrightarrow> limbs s' a = limbs s a)"

lemma brk_free: "heap_ok s \<Longrightarrow> blocks s (brk s) = None"
  by (cases "blocks s (brk s)") (fastforce simp: heap_ok_def)+

lemma shifted_out:
  assumes "lval m' p nn + r * BB ^ nn = lval m np nn * 2 ^ sh"
  shows "r < 2 ^ sh"
proof -
  have "r * BB ^ nn \<le> lval m np nn * 2 ^ sh" using assms by linarith
  also have "\<dots> < BB ^ nn * 2 ^ sh" using lval_less by simp
  finally show ?thesis by (simp add: mult.commute)
qed

lemma shifted_copy_ok:
  assumes "heap_ok s" "1 \<le> nn" "np + nn \<le> brk s" "sh < 64"
  shows "\<exists>tp r m. shifted_copy np nn sh s =
      Inr (tp, r, if sh > 0 then s\<lparr>brk := brk s + nn, blocks := (blocks s)(tp \<mapsto> nn), limbs := m\<rparr> else s\<lparr>limbs := m\<rparr>) \<and>
    (\<forall>a<brk s. m a = limbs s a) \<and> lval m tp nn + unat r * BB ^ nn = lval (limbs s) np nn * 2 ^ sh \<and>
    tp = (if sh > 0 then brk s else np) \<and> unat r < 2 ^ sh"
proof (cases "sh > 0")
  case False
  then show ?thesis by (intro exI [of _ np] exI [of _ 0] exI [of _ "limbs s"]) (simp add: shifted_copy_def)
next
  case True
  have "bwd (brk s) np nn" using assms(3) by (simp add: bwd_def)
  from mpn_lshift_ok [OF assms(2) _ assms(4) this, of "limbs s"] True obtain r m where
    l: "mpn_lshift (brk s) np nn sh (limbs s) = Inr (r, m)" "same_outside (brk s) nn (limbs s) m"
      "lval m (brk s) nn + unat r * BB ^ nn = lval (limbs s) np nn * 2 ^ sh" by auto
  have "unat r < 2 ^ sh" using l(3) by (rule shifted_out)
  then show ?thesis using True l assms(2)
    by (intro exI [of _ "brk s"] exI [of _ r] exI [of _ m]) (simp add: shifted_copy_def gmp_xalloc_limbs_def same_outside_def Let_def)
qed

lemma remainder_shift:
  fixes Q d N r' :: nat
  assumes "Q * (d * 2 ^ sh) + r' = N * 2 ^ sh" "r' < d * 2 ^ sh"
  shows "Q * d + r' div 2 ^ sh = N" "r' div 2 ^ sh < d" "r' mod 2 ^ sh = 0"
proof -
  have "2 ^ sh dvd Q * (d * 2 ^ sh) + r'" unfolding assms(1) by simp
  then have d: "2 ^ sh dvd r'" by (simp add: dvd_add_right_iff)
  then obtain x where x: "r' = x * 2 ^ sh" by (auto elim: dvdE simp: mult.commute)
  show "r' mod 2 ^ sh = 0" using d by simp
  have "(Q * d + x) * 2 ^ sh = N * 2 ^ sh" using assms(1) x by (simp add: algebra_simps)
  then show "Q * d + r' div 2 ^ sh = N" using x by simp
  show "r' div 2 ^ sh < d" using assms(2) x by simp
qed

lemma mpn_div_qr_1_preinv_ok:
  assumes "heap_ok s" "1 \<le> nn" "np + nn \<le> brk s" "normal d 1 iv" "qfree qp np nn" "\<And>p. qp = Some p \<Longrightarrow> p + nn \<le> brk s"
  shows "\<exists>Q r s'. mpn_div_qr_1_preinv qp np nn iv s = Inr (r, s') \<and> Q * d + unat r = lval (limbs s) np nn \<and> unat r < d \<and>
    qval qp nn Q (limbs s') \<and> scratch qp nn np 0 s s'"
proof -
  define sh d1 where "sh = inv_shift iv" and "d1 = inv_d1 iv"
  have n: "sh < 64" "unat d1 = d * 2 ^ sh" "2 ^ 63 \<le> unat d1" "inverse_1 (uint d1) (uint (inv_di iv))"
    using assms(4) by (simp_all add: normal_def sh_def d1_def)
  obtain tp r m where c: "shifted_copy np nn sh s =
      Inr (tp, r, if sh > 0 then s\<lparr>brk := brk s + nn, blocks := (blocks s)(tp \<mapsto> nn), limbs := m\<rparr> else s\<lparr>limbs := m\<rparr>)"
    "\<forall>a<brk s. m a = limbs s a" "lval m tp nn + unat r * BB ^ nn = lval (limbs s) np nn * 2 ^ sh"
    "tp = (if sh > 0 then brk s else np)" "unat r < 2 ^ sh"
    using shifted_copy_ok [OF assms(1-3) n(1)] by blast
  obtain r' m' where l: "div_1_loop qp tp d1 (inv_di iv) nn r m = (r', m')" by (metis surj_pair)
  have "qfree qp tp nn" using assms(5,6) c(4) by (auto simp: qfree_def bwd_def)
  moreover have "unat r < unat d1"
  proof -
    have "0 < d" using n(2,3) by (cases d) auto
    then have "1 * 2 ^ sh \<le> d * 2 ^ sh" by (intro mult_le_mono1) simp
    then show ?thesis using c(5) n(2) by linarith
  qed
  ultimately obtain Q where Q: "qstored qp nn Q m m'" "Q * unat d1 + unat r' = unat r * BB ^ nn + lval m tp nn" "unat r' < unat d1"
    using div_1_loop_ok [OF l order_refl _ n(3,4)] by blast
  note f = remainder_shift [of Q d sh "unat r'" "lval (limbs s) np nn"]
  define s' where "s' = (if sh > 0 then s\<lparr>brk := brk s + nn, limbs := m'\<rparr> else s\<lparr>limbs := m'\<rparr>)"
  have "(blocks s)(brk s := None) = blocks s" using brk_free [OF assms(1)] by auto
  then have "mpn_div_qr_1_preinv qp np nn iv s = Inr (drop_bit sh r', s')"
    using c(1,4) l unfolding mpn_div_qr_1_preinv_def sh_def [symmetric] d1_def [symmetric]
    by (auto simp: gmp_free_def s'_def Let_def)
  moreover have "Q * d + unat (drop_bit sh r') = lval (limbs s) np nn" "unat (drop_bit sh r') < d"
    using f Q(2,3) c(3) n(2) by (simp_all add: unat_drop_bit)
  moreover have "qval qp nn Q (limbs s')" using Q(1) by (auto simp: qval_def qstored_def s'_def split: option.splits)
  moreover have "scratch qp nn np 0 s s'"
    using Q(1) c(2) by (auto simp: scratch_def s'_def qstored_def same_outside_def split: option.splits)
  ultimately show ?thesis by blast
qed

text \<open>The remainder of two limbs is shifted back.\<close>

lemma shift_back_pair:
  assumes "0 < sh" "sh < 64" "pv r1 r0 mod 2 ^ sh = 0"
  shows "push_bit (64 - sh) r0 = 0" "pv (drop_bit sh r1) (drop_bit sh r0 OR push_bit (64 - sh) r1) = pv r1 r0 div 2 ^ sh"
proof -
  have bb: "BB = 2 ^ (64 - sh) * 2 ^ sh" using assms(2) by (simp add: BB_def flip: power_add)
  have e: "pv r1 r0 = unat r1 * 2 ^ (64 - sh) * 2 ^ sh + unat r0" by (simp add: bb)
  then have z: "unat r0 mod 2 ^ sh = 0" using assms(3) unfolding e by simp
  have c: "0 < 64 - sh" "64 - sh < 64" using assms(1,2) by simp_all
  have "64 - (64 - sh) = sh" using assms(2) by simp
  then have "unat (push_bit (64 - sh) r0) = 2 ^ (64 - sh) * (unat r0 mod 2 ^ sh)" using unat_push_bit [OF c, of r0] by simp
  then show "push_bit (64 - sh) r0 = 0" using z by (simp add: unat_eq_zero)
  have o: "unat (drop_bit sh r0 OR push_bit (64 - sh) r1) = unat (push_bit (64 - sh) r1) + unat (drop_bit sh r0)"
    using or_shifted [OF c, of r1 r0] \<open>64 - (64 - sh) = sh\<close> by (simp add: or.commute)
  have s: "unat (push_bit (64 - sh) r1) + BB * unat (drop_bit sh r1) = unat r1 * 2 ^ (64 - sh)"
    using shift_value [OF c, of r1] \<open>64 - (64 - sh) = sh\<close> by (simp add: BB_def)
  have "pv r1 r0 div 2 ^ sh = unat r1 * 2 ^ (64 - sh) + unat r0 div 2 ^ sh" unfolding e by simp
  then show "pv (drop_bit sh r1) (drop_bit sh r0 OR push_bit (64 - sh) r1) = pv r1 r0 div 2 ^ sh"
    unfolding o using s by (simp add: unat_drop_bit [of sh r0] algebra_simps)
qed

lemma mpn_div_qr_2_preinv_ok:
  assumes "heap_ok s" "2 \<le> nn" "np + nn \<le> brk s" "normal D 2 iv" "\<And>p. qp = Some p \<Longrightarrow> p + (nn - 1) \<le> brk s \<and> apart p (nn - 1) np nn"
  shows "\<exists>Q s'. mpn_div_qr_2_preinv qp np np nn iv s = Inr s' \<and> Q * D + lval (limbs s') np 2 = lval (limbs s) np nn \<and> lval (limbs s') np 2 < D \<and>
    qval qp (nn - 1) Q (limbs s') \<and> scratch qp (nn - 1) np nn s s'"
proof -
  define sh d1 d0 where "sh = inv_shift iv" and "d1 = inv_d1 iv" and "d0 = inv_d0 iv"
  have n: "sh < 64" "pv d1 d0 = D * 2 ^ sh" "2 ^ 63 \<le> unat d1" "inverse_2 (dv d1 d0) (uint (inv_di iv))"
    using assms(4) by (simp_all add: normal_def sh_def d1_def d0_def)
  have "1 \<le> nn" using assms(2) by simp
  then obtain tp r1 m where c: "shifted_copy np nn sh s =
      Inr (tp, r1, if sh > 0 then s\<lparr>brk := brk s + nn, blocks := (blocks s)(tp \<mapsto> nn), limbs := m\<rparr> else s\<lparr>limbs := m\<rparr>)"
    "\<forall>a<brk s. m a = limbs s a" "lval m tp nn + unat r1 * BB ^ nn = lval (limbs s) np nn * 2 ^ sh"
    "tp = (if sh > 0 then brk s else np)" "unat r1 < 2 ^ sh"
    using shifted_copy_ok [OF assms(1) _ assms(3) n(1)] by blast
  define r0 where "r0 = m (tp + (nn - 1))"
  obtain x1 x0 m' where l: "div_2_loop qp tp iv (nn - 1) r1 r0 m = (x1, x0, m')" by (metis prod_cases3)
  have "qfree qp tp (nn - 1)" using assms(5) c(4) by (auto simp: qfree_def bwd_def apart_def)
  moreover have "pv r1 r0 < pv d1 d0"
  proof -
    have "unat r1 + 1 \<le> unat d1" using c(5) n(1,3) power_increasing [of sh 63 "2 :: nat"] by simp
    then have "(unat r1 + 1) * BB \<le> unat d1 * BB" by (rule mult_le_mono1)
    then show ?thesis using unat_less_BB [of r0] by (simp only: add_mult_distrib)
  qed
  ultimately obtain Q where Q: "qstored qp (nn - 1) Q m m'" "Q * pv d1 d0 + pv x1 x0 = pv r1 r0 * BB ^ (nn - 1) + lval m tp (nn - 1)" "pv x1 x0 < pv d1 d0"
    using div_2_loop_ok [OF l order_refl _ n(3,4) [unfolded d1_def d0_def]] unfolding d1_def d0_def by auto
  have "pv r1 r0 * BB ^ (nn - 1) + lval m tp (nn - 1) = lval (limbs s) np nn * 2 ^ sh"
    using c(3) assms(2) by (cases nn) (auto simp: r0_def algebra_simps)
  note f = remainder_shift [OF Q(2) [unfolded n(2) this] Q(3) [unfolded n(2)]]
  define y1 y0 where "y1 = (if sh > 0 then drop_bit sh x1 else x1)" and "y0 = (if sh > 0 then drop_bit sh x0 OR push_bit (64 - sh) x1 else x0)"
  have y: "pv y1 y0 = pv x1 x0 div 2 ^ sh" using shift_back_pair(2) [OF _ n(1) f(3)] by (simp add: y1_def y0_def)
  define s' where "s' = (if sh > 0 then s\<lparr>brk := brk s + nn, limbs := m'(np + 1 := y1, np := y0)\<rparr> else s\<lparr>limbs := m'(np + 1 := y1, np := y0)\<rparr>)"
  have "(blocks s)(brk s := None) = blocks s" using brk_free [OF assms(1)] by auto
  then have "mpn_div_qr_2_preinv qp np np nn iv s = Inr s'"
    using c(1,4) l assms(2) shift_back_pair(1) [OF _ n(1) f(3)] unfolding mpn_div_qr_2_preinv_def sh_def [symmetric]
    by (auto simp: gmp_free_def s'_def r0_def y1_def y0_def Let_def)
  moreover have v: "lval (limbs s') np 2 = pv y1 y0" by (simp add: s'_def numeral_2_eq_2)
  moreover have "qval qp (nn - 1) Q (limbs s')"
  proof -
    have "lval (limbs s') p (nn - 1) = lval m' p (nn - 1)" if "qp = Some p" for p
      using assms(2) assms(5) [OF that] by (auto simp: s'_def apart_def)
    then show ?thesis using Q(1) by (auto simp: qval_def qstored_def split: option.splits)
  qed
  moreover have "scratch qp (nn - 1) np nn s s'"
    using Q(1) c(2) assms(2) by (auto simp: scratch_def s'_def qstored_def same_outside_def split: option.splits)
  ultimately show ?thesis using f(1,2) unfolding y [symmetric] v [symmetric] by blast
qed

subsection \<open>Divisors of three and more limbs\<close>

text \<open>The dividend is shifted in place, divided, and the remainder is shifted back.\<close>

lemma lshift_in_place:
  assumes "1 \<le> nn" "sh < 64"
  shows "\<exists>nh m1. (if sh > 0 then mpn_lshift np np nn sh m else Inr (0, m)) = Inr (nh, m1) \<and> same_outside np nn m m1 \<and>
    lval m1 np nn + unat nh * BB ^ nn = lval m np nn * 2 ^ sh \<and> unat nh < 2 ^ sh"
proof (cases "sh > 0")
  case True
  then have "1 \<le> sh" "bwd np np nn" by (simp_all add: bwd_def)
  then obtain r m' where l: "mpn_lshift np np nn sh m = Inr (r, m')" "same_outside np nn m m'" "lval m' np nn + unat r * BB ^ nn = lval m np nn * 2 ^ sh"
    using mpn_lshift_ok [OF assms(1) _ assms(2)] by blast
  then show ?thesis using True shifted_out [OF l(3)] by auto
qed auto

lemma rshift_in_place:
  assumes "1 \<le> dn" "sh < 64" "lval m np dn mod 2 ^ sh = 0"
  shows "\<exists>m'. (if sh > 0 then bindE (mpn_rshift np np dn sh m) gmp_assert_nocarry else Inr m) = Inr m' \<and> same_outside np dn m m' \<and>
    lval m' np dn = lval m np dn div 2 ^ sh"
proof (cases "sh > 0")
  case True
  then have "1 \<le> sh" "fwd np np dn" by (simp_all add: fwd_def)
  then obtain r m' where l: "mpn_rshift np np dn sh m = Inr (r, m')" "same_outside np dn m m'"
      "BB * lval m' np dn + unat r = lval m np dn * 2 ^ (64 - sh)" "lval m' np dn = lval m np dn div 2 ^ sh"
    using mpn_rshift_ok [OF assms(1) _ assms(2)] by blast
  have "BB = 2 ^ sh * 2 ^ (64 - sh)" using assms(2) by (simp add: BB_def flip: power_add)
  moreover have "lval m np dn = 2 ^ sh * lval m' np dn" using assms(3) l(4) by (simp add: mod_0_imp_dvd)
  ultimately have "BB * lval m' np dn + unat r = BB * lval m' np dn" using l(3) by (simp add: algebra_simps)
  then have "r = 0" by (simp add: unat_eq_zero)
  then show ?thesis using True l by (auto simp: gmp_assert_nocarry_def)
qed auto

lemma pv_inject: "pv a b = pv c d \<Longrightarrow> a = c \<and> b = d"
proof
  assume e: "pv a b = pv c d"
  then have "pv a b div BB = pv c d div BB" by simp
  then show "a = c" by (simp add: word_unat_eq_iff)
  then show "b = d" using e by (simp add: word_unat_eq_iff)
qed

lemma mpn_div_qr_preinv_large:
  assumes k: "1 \<le> k" "dn = k + 2" "dn \<le> nn" and n: "normal D dn iv" and D: "lval (limbs s) dp dn = D * 2 ^ inv_shift iv"
    and a: "apart np nn dp dn" and q: "\<And>p. qp = Some p \<Longrightarrow> apart p (nn - dn + 1) np nn \<and> apart p (nn - dn + 1) dp dn"
  shows "\<exists>Q m'. mpn_div_qr_preinv qp np nn dp dn iv s = Inr (s\<lparr>limbs := m'\<rparr>) \<and> Q * D + lval m' np dn = lval (limbs s) np nn \<and>
    lval m' np dn < D \<and> qval qp (nn - dn + 1) Q m' \<and> qkept qp (nn - dn + 1) np nn (limbs s) m'"
proof -
  define sh m where "sh = inv_shift iv" and "m = limbs s"
  define d1 d0 where "d1 = inv_d1 iv" and "d0 = inv_d0 iv"
  have sh: "sh < 64" and di: "2 ^ 63 \<le> unat d1" "inverse_2 (dv d1 d0) (uint (inv_di iv))" "pv d1 d0 = D * 2 ^ sh div BB ^ k"
    using n k by (simp_all add: normal_def sh_def d1_def d0_def)
  have dn: "dn - 1 = k + 1" "dn - 2 = k" using k(2) by simp_all
  have "lval m dp dn = pv (m (dp + (k + 1))) (m (dp + k)) * BB ^ k + lval m dp k" unfolding k(2) by (simp add: numeral_2_eq_2 algebra_simps)
  then have "pv (m (dp + (k + 1))) (m (dp + k)) = pv d1 d0"
    using D di(3) lval_less [of m dp k] by (simp add: m_def sh_def)
  then have top: "m (dp + (dn - 1)) = d1" "m (dp + (dn - 2)) = d0" unfolding dn by (metis pv_inject)+
  have "1 \<le> nn" "1 \<le> dn" using k by simp_all
  obtain nh m1 where l: "(if sh > 0 then mpn_lshift np np nn sh m else Inr (0, m)) = Inr (nh, m1)" "same_outside np nn m m1"
      "lval m1 np nn + unat nh * BB ^ nn = lval m np nn * 2 ^ sh" "unat nh < 2 ^ sh"
    using lshift_in_place [OF \<open>1 \<le> nn\<close> sh] by blast
  have dp: "m1 (dp + j) = m (dp + j)" if "j < dn" for j using l(2) a that by (auto simp: same_outside_def apart_def)
  have top1: "m1 (dp + (dn - 1)) = d1" "m1 (dp + (dn - 2)) = d0" using top dp [of "dn - 1"] dp [of "dn - 2"] k(2) by simp_all
  have D1: "lval m1 dp dn = D * 2 ^ sh" using D lval_cong [of dn m1 dp m dp] dp by (simp add: m_def sh_def)
  have "unat nh < unat d1" using l(4) di(1) sh power_increasing [of sh 63 "2 :: nat"] by simp
  then obtain Q m2 where p: "mpn_div_qr_pi1 qp np nn nh dp dn (inv_di iv) m1 = Inr m2" "qkept qp (nn - dn + 1) np nn m1 m2" "qval qp (nn - dn + 1) Q m2"
      "Q * (D * 2 ^ sh) + lval m2 np dn = lval m np nn * 2 ^ sh" "lval m2 np dn < D * 2 ^ sh"
    using mpn_div_qr_pi1_ok [OF k a, of m1 "inv_di iv" nh qp] q di(1,2) l(3) unfolding top1 D1 by (auto simp: add.commute)
  note f = remainder_shift [OF p(4,5)]
  obtain m3 where r: "(if sh > 0 then bindE (mpn_rshift np np dn sh m2) gmp_assert_nocarry else Inr m2) = Inr m3" "same_outside np dn m2 m3"
      "lval m3 np dn = lval m2 np dn div 2 ^ sh" using rshift_in_place [OF \<open>1 \<le> dn\<close> sh f(3)] by blast
  have "mpn_div_qr_preinv qp np nn dp dn iv s = Inr (s\<lparr>limbs := m3\<rparr>)"
    using k l(1) p(1) r(1) top di(1) unfolding mpn_div_qr_preinv_def sh_def [symmetric] d1_def [symmetric] d0_def [symmetric] m_def [symmetric] high_bit_set Let_def
    by simp
  moreover have "qkept qp (nn - dn + 1) np nn (limbs s) m3"
    using l(2) p(2) r(2) k(3) by (auto simp: qkept_def same_outside_def m_def)
  moreover have "lval m3 p (nn - dn + 1) = lval m2 p (nn - dn + 1)" if "qp = Some p" for p
    by (rule lval_outside [OF r(2)]) (use q [OF that] k(3) in \<open>auto simp: apart_def\<close>)
  then have "qval qp (nn - dn + 1) Q m3" using p(3) by (auto simp: qval_def)
  ultimately show ?thesis using f(1,2) unfolding r(3) [symmetric] m_def by blast
qed

subsection \<open>The general division\<close>

lemma scratch_kept: "qkept qp n np l (limbs s) m' \<Longrightarrow> scratch qp n np l s (s\<lparr>limbs := m'\<rparr>)"
  by (simp add: scratch_def qkept_def)

text \<open>The arguments of a division, and its outcome for the divisor \<open>D\<close>.\<close>

definition div_args :: "nat option \<Rightarrow> nat \<Rightarrow> nat \<Rightarrow> nat \<Rightarrow> nat \<Rightarrow> mpz_mem \<Rightarrow> bool" where
  "div_args qp np nn dp dn s \<longleftrightarrow> heap_ok s \<and> 0 < dn \<and> dn \<le> nn \<and> limbs s (dp + (dn - 1)) \<noteq> 0 \<and> np + nn \<le> brk s \<and> dp + dn \<le> brk s \<and>
     apart np nn dp dn \<and>
     (\<forall>p. qp = Some p \<longrightarrow> p + (nn - dn + 1) \<le> brk s \<and> apart p (nn - dn + 1) np nn \<and> apart p (nn - dn + 1) dp dn)"

definition divided :: "nat option \<Rightarrow> nat \<Rightarrow> nat \<Rightarrow> nat \<Rightarrow> nat \<Rightarrow> mpz_mem \<Rightarrow> mpz_mem \<Rightarrow> bool" where
  "divided qp np nn dn D s s' \<longleftrightarrow> lval (limbs s') np dn = lval (limbs s) np nn mod D \<and> qval qp (nn - dn + 1) (lval (limbs s) np nn div D) (limbs s') \<and>
     scratch qp (nn - dn + 1) np nn s s'"

lemma dividedI:
  assumes "Q * D + lval (limbs s') np dn = lval (limbs s) np nn" "lval (limbs s') np dn < D" "qval qp (nn - dn + 1) Q (limbs s')"
    "scratch qp (nn - dn + 1) np nn s s'"
  shows "divided qp np nn dn D s s'"
  using assms div_mod_int [OF assms(1) [symmetric] assms(2)] by (simp add: divided_def)

lemma preinv_one:
  assumes a: "div_args qp np nn dp 1 s" and n: "normal D 1 iv"
  shows "\<exists>s'. mpn_div_qr_preinv qp np nn dp 1 iv s = Inr s' \<and> divided qp np nn 1 D s s'"
proof -
  have b: "heap_ok s" "1 \<le> nn" "np + nn \<le> brk s" using a by (simp_all add: div_args_def)
  have nn: "nn - 1 + 1 = nn" using b(2) by simp
  have q: "p + nn \<le> brk s" "apart p nn np nn" if "qp = Some p" for p using a that unfolding div_args_def nn by blast+
  have "qfree qp np nn" using q by (auto simp: qfree_def bwd_def apart_def)
  from mpn_div_qr_1_preinv_ok [OF b n this q(1)] obtain Q x s1 where
    s1: "mpn_div_qr_1_preinv qp np nn iv s = Inr (x, s1)" "Q * D + unat x = lval (limbs s) np nn" "unat x < D"
        "qval qp nn Q (limbs s1)" "scratch qp nn np 0 s s1" by blast
  define s' where "s' = put_limb np x s1"
  have "mpn_div_qr_preinv qp np nn dp 1 iv s = Inr s'" using s1(1) b by (simp add: mpn_div_qr_preinv_def s'_def)
  moreover have "lval (limbs s') p nn = lval (limbs s1) p nn" if "qp = Some p" for p
    using q(2) [OF that] b(2) by (auto simp: s'_def put_limb_def apart_def)
  then have "qval qp (nn - 1 + 1) Q (limbs s')" using s1(4) b(2) by (auto simp: qval_def)
  moreover have "scratch qp (nn - 1 + 1) np nn s s'" using s1(5) b(2) by (auto simp: scratch_def s'_def put_limb_def)
  moreover have "lval (limbs s') np 1 = unat x" by (simp add: s'_def put_limb_def)
  ultimately show ?thesis using s1(2,3) by (auto intro: dividedI)
qed

lemma preinv_two:
  assumes a: "div_args qp np nn dp 2 s" and n: "normal D 2 iv"
  shows "\<exists>s'. mpn_div_qr_preinv qp np nn dp 2 iv s = Inr s' \<and> divided qp np nn 2 D s s'"
proof -
  have b: "heap_ok s" "2 \<le> nn" "np + nn \<le> brk s" using a by (simp_all add: div_args_def)
  have nn: "nn - 2 + 1 = nn - 1" using b(2) by simp
  have q: "p + (nn - 1) \<le> brk s \<and> apart p (nn - 1) np nn" if "qp = Some p" for p using a that unfolding div_args_def nn by blast
  from mpn_div_qr_2_preinv_ok [OF b(1-3) n q] obtain Q s' where
    s': "mpn_div_qr_2_preinv qp np np nn iv s = Inr s'" "Q * D + lval (limbs s') np 2 = lval (limbs s) np nn" "lval (limbs s') np 2 < D"
        "qval qp (nn - 1) Q (limbs s')" "scratch qp (nn - 1) np nn s s'" by blast
  have "mpn_div_qr_preinv qp np nn dp 2 iv s = Inr s'" using s'(1) b by (simp add: mpn_div_qr_preinv_def)
  then show ?thesis using dividedI [OF s'(2,3)] s'(4,5) unfolding nn by blast
qed

lemma mpn_div_qr_ok:
  assumes a: "div_args qp np nn dp dn s"
  shows "\<exists>s'. mpn_div_qr qp np nn dp dn s = Inr s' \<and> divided qp np nn dn (lval (limbs s) dp dn) s s'"
proof -
  define D where "D = lval (limbs s) dp dn"
  have n: "0 < dn" "dn \<le> nn" "limbs s (dp + (dn - 1)) \<noteq> 0" "heap_ok s" using a unfolding div_args_def by blast+
  have r: "np + nn \<le> brk s" "dp + dn \<le> brk s" "apart np nn dp dn"
    and q: "\<And>p. qp = Some p \<Longrightarrow> p + (nn - dn + 1) \<le> brk s \<and> apart p (nn - dn + 1) np nn \<and> apart p (nn - dn + 1) dp dn"
    using a unfolding div_args_def by blast+
  obtain iv where iv: "mpn_div_qr_invert \<lparr>inv_shift = 0, inv_d1 = 0, inv_d0 = 0, inv_di = 0\<rparr> dp dn (limbs s) = Inr iv" "normal D dn iv"
    unfolding D_def using mpn_div_qr_invert_ok [of dn "limbs s" dp] n by blast
  have large: "\<exists>m'. mpn_div_qr_preinv qp np nn tp dn iv s1 = Inr (s1\<lparr>limbs := m'\<rparr>) \<and> divided qp np nn dn D s1 (s1\<lparr>limbs := m'\<rparr>)"
    if "2 < dn" "lval (limbs s1) tp dn = D * 2 ^ inv_shift iv" "apart np nn tp dn" "\<And>p. qp = Some p \<Longrightarrow> apart p (nn - dn + 1) tp dn" for tp s1
  proof -
    have k: "1 \<le> dn - 2" "dn = dn - 2 + 2" using that(1) by simp_all
    from mpn_div_qr_preinv_large [OF k n(2) iv(2) that(2,3), of qp] q that(4) obtain Q m' where
      m': "mpn_div_qr_preinv qp np nn tp dn iv s1 = Inr (s1\<lparr>limbs := m'\<rparr>)" "Q * D + lval m' np dn = lval (limbs s1) np nn"
        "lval m' np dn < D" "qval qp (nn - dn + 1) Q m'" "qkept qp (nn - dn + 1) np nn (limbs s1) m'" by blast
    moreover from this have "divided qp np nn dn D s1 (s1\<lparr>limbs := m'\<rparr>)" using scratch_kept [OF m'(5)] by (intro dividedI) simp_all
    ultimately show ?thesis by blast
  qed
  show ?thesis
  proof (cases "2 < dn \<and> 0 < inv_shift iv")
    case False
    have "\<exists>s'. mpn_div_qr_preinv qp np nn dp dn iv s = Inr s' \<and> divided qp np nn dn D s s'"
    proof -
      have "dn = 1 \<or> dn = 2 \<or> 2 < dn" using n(1) by linarith
      then show ?thesis using a iv(2) preinv_one [of qp np nn dp s D iv] preinv_two [of qp np nn dp s D iv] large [of s dp] False r q D_def by auto
    qed
    then show ?thesis using n False iv(1) unfolding mpn_div_qr_def D_def by auto
  next
    case True
    define tp s0 where "tp = brk s" and "s0 = s\<lparr>brk := brk s + dn, blocks := (blocks s)(tp \<mapsto> dn)\<rparr>"
    have "bwd tp dp dn" "1 \<le> inv_shift iv" "inv_shift iv < 64" using r(2) True iv(2) by (simp_all add: bwd_def tp_def normal_def)
    then obtain c m where l: "mpn_lshift tp dp dn (inv_shift iv) (limbs s) = Inr (c, m)" "same_outside tp dn (limbs s) m"
        "lval m tp dn + unat c * BB ^ dn = D * 2 ^ inv_shift iv"
      unfolding D_def using mpn_lshift_ok [of dn "inv_shift iv" tp dp "limbs s"] n(1) by auto
    have "D * 2 ^ inv_shift iv < BB ^ dn" using iv(2) by (simp add: normal_def)
    then have "unat c * BB ^ dn < 1 * BB ^ dn" using l(3) unfolding mult_1 by linarith
    then have c: "c = 0" by (simp only: mult_less_cancel2) (simp add: unat_eq_zero)
    define s1 where "s1 = s0\<lparr>limbs := m\<rparr>"
    have below: "m x = limbs s x" if "x < brk s" for x using l(2) that by (simp add: same_outside_def tp_def)
    obtain m' where m': "mpn_div_qr_preinv qp np nn tp dn iv s1 = Inr (s1\<lparr>limbs := m'\<rparr>)" "divided qp np nn dn D s1 (s1\<lparr>limbs := m'\<rparr>)"
      using large [of s1 tp] True l(3) c r(1) q by (auto simp: s1_def apart_def tp_def)
    have N: "lval m np nn = lval (limbs s) np nn" using below r(1) by (intro lval_cong) simp
    define s' where "s' = s\<lparr>brk := brk s + dn, limbs := m'\<rparr>"
    have "(blocks s)(brk s := None) = blocks s" using brk_free [OF n(4)] by auto
    then have "mpn_div_qr qp np nn dp dn s = Inr s'"
      using n True iv(1) l(1) m'(1) c unfolding mpn_div_qr_def
      by (simp add: gmp_xalloc_limbs_def gmp_assert_nocarry_def gmp_free_def s1_def s0_def s'_def tp_def Let_def)
    moreover have "divided qp np nn dn D s s'"
      using m'(2) N below unfolding divided_def scratch_def by (auto simp: s1_def s0_def s'_def)
    ultimately show ?thesis unfolding D_def by blast
  qed
qed

text \<open>
  C37: the general division. For a divisor whose highest limb is not zero and that is not longer than the dividend, \<open>mpn_div_qr\<close>
  stores the quotient and leaves the remainder in the place of the dividend; all assertions on the way
  hold, it changes no other limb, and the temporary memory that it allocates is freed.
\<close>

theorem mpn_div_qr_exact:
  assumes "heap_ok s" "0 < dn" "dn \<le> nn" "limbs s (dp + (dn - 1)) \<noteq> 0" "np + nn \<le> brk s" "dp + dn \<le> brk s" "apart np nn dp dn"
    and "qp + (nn - dn + 1) \<le> brk s" "apart qp (nn - dn + 1) np nn" "apart qp (nn - dn + 1) dp dn"
  shows "\<exists>s'. mpn_div_qr (Some qp) np nn dp dn s = Inr s' \<and>
    lval (limbs s') qp (nn - dn + 1) = lval (limbs s) np nn div lval (limbs s) dp dn \<and>
    lval (limbs s') np dn = lval (limbs s) np nn mod lval (limbs s) dp dn \<and> blocks s' = blocks s \<and>
    (\<forall>a<brk s. (a < np \<or> np + nn \<le> a) \<and> (a < qp \<or> qp + (nn - dn + 1) \<le> a) \<longrightarrow> limbs s' a = limbs s a)"
  using mpn_div_qr_ok [of "Some qp" np nn dp dn s] assms by (auto simp: div_args_def divided_def qval_def scratch_def)

definition sample_heap :: mpz_mem where
  "sample_heap = \<lparr>limbs = (\<lambda>_. 0)(1 := 5, 3 := 6, 4 := 1, 6 := 2), brk = 10, blocks = (\<lambda>_. None), objs = (\<lambda>_. \<lparr>mp_alloc = 0, mp_size = 0, mp_d = 0\<rparr>), stack = 0\<rparr>"

theorem mpn_div_qr_exact_witness:
  "\<exists>s'. mpn_div_qr (Some 7) 1 3 4 3 sample_heap = Inr s' \<and> lval (limbs s') 7 1 = 3 \<and> lval (limbs s') 1 3 = 2"
proof -
  have "lval m p 3 = unat (m p) + unat (m (p + 1)) * BB + unat (m (p + 2)) * BB ^ 2" for m p
    by (simp add: numeral_3_eq_3 numeral_2_eq_2)
  then have "lval (limbs sample_heap) 1 3 = 5 + 6 * BB ^ 2" "lval (limbs sample_heap) 4 3 = 1 + 2 * BB ^ 2"
    by (simp_all add: sample_heap_def)
  moreover have "(5 + 6 * BB ^ 2) div (1 + 2 * BB ^ 2) = 3" "(5 + 6 * BB ^ 2) mod (1 + 2 * BB ^ 2) = 2" by (simp_all add: BB_def)
  moreover have "heap_ok sample_heap" by (simp add: heap_ok_def sample_heap_def)
  ultimately show ?thesis using mpn_div_qr_exact [of sample_heap 3 3 4 1 7] by (auto simp: sample_heap_def apart_def)
qed

end
