(* ===== verification/Mpz_Div.thy ===== *)
theory Mpz_Div
  imports Mpz_Values Mpn_Divide
begin

section \<open>Division of integers\<close>

text \<open>
  The division of \<open>mini-gmp.c\<close> on signed integers, with the three directions of rounding. The quotient, the
  remainder or both may be left out (a null pointer, here \<open>None\<close>), and each of them may be the same
  variable as the dividend or the divisor.
\<close>

declare of_nat_unat [simp del]

subsection \<open>Definitions\<close>

definition gmp_die :: "'a res" where
  "gmp_die = crash Aborted"

datatype mpz_div_round_mode = GMP_DIV_FLOOR | GMP_DIV_CEIL | GMP_DIV_TRUNC

text \<open>A statement that is guarded by a pointer that may be null.\<close>

definition given :: "nat option \<Rightarrow> (nat \<Rightarrow> mpz_mem \<Rightarrow> mpz_mem res) \<Rightarrow> mpz_mem \<Rightarrow> mpz_mem res" where
  "given x f s = (case x of None \<Rightarrow> Inr s | Some r \<Rightarrow> f r s)"

text \<open>The quotient is rounded to 0, 1 or -1, as the dividend is shorter than the divisor.\<close>

definition div_short ::
    "nat option \<Rightarrow> nat option \<Rightarrow> nat \<Rightarrow> nat \<Rightarrow> mpz_div_round_mode \<Rightarrow> int \<Rightarrow> mpz_mem \<Rightarrow> mpz_mem res" where
  "div_short q r n d mode qs s =
     (if mode = GMP_DIV_CEIL \<and> qs \<ge> 0 then
        bindE (given r (\<lambda>r. mpz_sub r n d) s) (given q (\<lambda>q. mpz_set_ui q 1))
      else if mode = GMP_DIV_FLOOR \<and> qs < 0 then
        bindE (given r (\<lambda>r. mpz_add r n d) s) (given q (\<lambda>q. mpz_set_si q (- 1)))
      else
        bindE (given r (\<lambda>r. mpz_set r n) s) (given q (\<lambda>q s. Inr (set_size q 0 s))))"

text \<open>The truncated quotient and remainder in the local variables are adjusted to the mode.\<close>

definition div_adjust ::
    "nat option \<Rightarrow> nat option \<Rightarrow> nat \<Rightarrow> nat \<Rightarrow> nat \<Rightarrow> mpz_div_round_mode \<Rightarrow> int \<Rightarrow> nat \<Rightarrow> mpz_mem \<Rightarrow> mpz_mem res" where
  "div_adjust q r tq tr d mode qs rn s =
     (if mode = GMP_DIV_FLOOR \<and> qs < 0 \<and> rn \<noteq> 0 then
        bindE (given q (\<lambda>_. mpz_sub_ui tq tq 1) s) (given r (\<lambda>_. mpz_add tr tr d))
      else if mode = GMP_DIV_CEIL \<and> qs \<ge> 0 \<and> rn \<noteq> 0 then
        bindE (given q (\<lambda>_. mpz_add_ui tq tq 1) s) (given r (\<lambda>_. mpz_sub tr tr d))
      else Inr s)"

definition mpz_div_qr ::
    "nat option \<Rightarrow> nat option \<Rightarrow> nat \<Rightarrow> nat \<Rightarrow> mpz_div_round_mode \<Rightarrow> mpz_mem \<Rightarrow> (bool \<times> mpz_mem) res" where
  "mpz_div_qr q r n d mode s =
     (let ns = zs s n; ds = zs s d in
      if ds = 0 then gmp_die
      else if ns = 0 then
        bindE (given q (\<lambda>q s. Inr (set_size q 0 s)) s) (\<lambda>s.
        bindE (given r (\<lambda>r s. Inr (set_size r 0 s)) s) (\<lambda>s. Inr (False, s)))
      else
        let nn = nat \<bar>ns\<bar>; dn = nat \<bar>ds\<bar>; qs = ds XOR ns in
        if nn < dn then bindE (div_short q r n d mode qs s) (\<lambda>s. Inr (True, s))
        else
          let (tr, s) = new_var s in
          bindE (mpz_init_set tr n s) (\<lambda>s.
          let np = zd s tr; qn = nn - dn + 1; tq = fst (new_var s) in
          bindE (given q (\<lambda>_ s. mpz_init2 tq (of_nat qn * 64) (snd (new_var s))) s) (\<lambda>s.
          let qp = map_option (\<lambda>_. zd s tq) q in
          bindE (mpn_div_qr qp np nn (zd s d) dn s) (\<lambda>s.
          let s = (case qp of None \<Rightarrow> s | Some p \<Rightarrow>
                let qn = int qn - of_bool (limbs s (p + (qn - 1)) = 0) in set_size tq (if qs < 0 then - qn else qn) s);
              rn = mpn_normalized_size (limbs s) np dn;
              s = set_size tr (if ns < 0 then - int rn else int rn) s in
          bindE (div_adjust q r tq tr d mode qs rn s) (\<lambda>s.
          bindE (given q (\<lambda>q s. bindE (mpz_clear tq (mpz_swap tq q s)) (\<lambda>s. Inr (drop_var s))) s) (\<lambda>s.
          bindE (given r (\<lambda>r s. Inr (mpz_swap tr r s)) s) (\<lambda>s.
          bindE (mpz_clear tr s) (\<lambda>s. Inr (rn \<noteq> 0, drop_var s)))))))))"

text \<open>The functions of the interface; most of them do not use the result of \<open>mpz_div_qr\<close>.\<close>

definition void :: "('a \<times> mpz_mem) res \<Rightarrow> mpz_mem res" where
  "void x = bindE x (\<lambda>(_, s). Inr s)"

definition mpz_cdiv_qr :: "nat \<Rightarrow> nat \<Rightarrow> nat \<Rightarrow> nat \<Rightarrow> mpz_mem \<Rightarrow> mpz_mem res" where
  "mpz_cdiv_qr q r n d s = void (mpz_div_qr (Some q) (Some r) n d GMP_DIV_CEIL s)"

definition mpz_fdiv_qr :: "nat \<Rightarrow> nat \<Rightarrow> nat \<Rightarrow> nat \<Rightarrow> mpz_mem \<Rightarrow> mpz_mem res" where
  "mpz_fdiv_qr q r n d s = void (mpz_div_qr (Some q) (Some r) n d GMP_DIV_FLOOR s)"

definition mpz_tdiv_qr :: "nat \<Rightarrow> nat \<Rightarrow> nat \<Rightarrow> nat \<Rightarrow> mpz_mem \<Rightarrow> mpz_mem res" where
  "mpz_tdiv_qr q r n d s = void (mpz_div_qr (Some q) (Some r) n d GMP_DIV_TRUNC s)"

definition mpz_cdiv_q :: "nat \<Rightarrow> nat \<Rightarrow> nat \<Rightarrow> mpz_mem \<Rightarrow> mpz_mem res" where
  "mpz_cdiv_q q n d s = void (mpz_div_qr (Some q) None n d GMP_DIV_CEIL s)"

definition mpz_fdiv_q :: "nat \<Rightarrow> nat \<Rightarrow> nat \<Rightarrow> mpz_mem \<Rightarrow> mpz_mem res" where
  "mpz_fdiv_q q n d s = void (mpz_div_qr (Some q) None n d GMP_DIV_FLOOR s)"

definition mpz_tdiv_q :: "nat \<Rightarrow> nat \<Rightarrow> nat \<Rightarrow> mpz_mem \<Rightarrow> mpz_mem res" where
  "mpz_tdiv_q q n d s = void (mpz_div_qr (Some q) None n d GMP_DIV_TRUNC s)"

definition mpz_cdiv_r :: "nat \<Rightarrow> nat \<Rightarrow> nat \<Rightarrow> mpz_mem \<Rightarrow> mpz_mem res" where
  "mpz_cdiv_r r n d s = void (mpz_div_qr None (Some r) n d GMP_DIV_CEIL s)"

definition mpz_fdiv_r :: "nat \<Rightarrow> nat \<Rightarrow> nat \<Rightarrow> mpz_mem \<Rightarrow> mpz_mem res" where
  "mpz_fdiv_r r n d s = void (mpz_div_qr None (Some r) n d GMP_DIV_FLOOR s)"

definition mpz_tdiv_r :: "nat \<Rightarrow> nat \<Rightarrow> nat \<Rightarrow> mpz_mem \<Rightarrow> mpz_mem res" where
  "mpz_tdiv_r r n d s = void (mpz_div_qr None (Some r) n d GMP_DIV_TRUNC s)"

definition mpz_mod :: "nat \<Rightarrow> nat \<Rightarrow> nat \<Rightarrow> mpz_mem \<Rightarrow> mpz_mem res" where
  "mpz_mod r n d s = void (mpz_div_qr None (Some r) n d (if zs s d \<ge> 0 then GMP_DIV_FLOOR else GMP_DIV_CEIL) s)"

definition mpz_divexact :: "nat \<Rightarrow> nat \<Rightarrow> nat \<Rightarrow> mpz_mem \<Rightarrow> mpz_mem res" where
  "mpz_divexact q n d s =
     bindE (mpz_div_qr (Some q) None n d GMP_DIV_TRUNC s) (\<lambda>(cy, s). bindE (c_assert (\<not> cy)) (\<lambda>_. Inr s))"

definition mpz_divisible_p :: "nat \<Rightarrow> nat \<Rightarrow> mpz_mem \<Rightarrow> (bool \<times> mpz_mem) res" where
  "mpz_divisible_p n d s = bindE (mpz_div_qr None None n d GMP_DIV_TRUNC s) (\<lambda>(x, s). Inr (\<not> x, s))"

definition mpz_congruent_p :: "nat \<Rightarrow> nat \<Rightarrow> nat \<Rightarrow> mpz_mem \<Rightarrow> (bool \<times> mpz_mem) res" where
  "mpz_congruent_p a b m s =
     (if mpz_sgn s m = 0 then Inr (mpz_cmp s a b = 0, s)
      else
        let (t, s) = new_var s in
        bindE (mpz_sub t a b (mpz_init t s)) (\<lambda>s.
        bindE (mpz_divisible_p t m s) (\<lambda>(res, s).
        bindE (mpz_clear t s) (\<lambda>s. Inr (res, drop_var s)))))"

subsection \<open>Memory behind the blocks\<close>

lemma wf_raised:
  assumes "mpz_wf L T s" "brk s \<le> b" "\<And>a. a < brk s \<Longrightarrow> m a = limbs s a"
  shows "mpz_wf L T (s\<lparr>brk := b, limbs := m\<rparr>)" "x \<in> L \<Longrightarrow> zval (s\<lparr>brk := b, limbs := m\<rparr>) x = zval s x"
proof -
  let ?s = "s\<lparr>brk := b, limbs := m\<rparr>"
  have same: "m (zd s q + i) = limbs s (zd s q + i)" if "q \<in> L" "i < zn s q" for q i
    using wf_below(3) [OF assms(1) that(1)] that(2) by (intro assms(3)) simp
  have "obj_ok ?s q" if "q \<in> L" for q
    using wf_obj [OF assms(1) that] same [OF that, of "zn s q - 1"] by (auto simp: obj_ok_def)
  moreover have "heap_ok ?s" using assms(1,2) by (fastforce simp: mpz_wf_def heap_ok_def)
  moreover have "owners L ?s = owners L s" by (rule owners_cong) simp
  ultimately show "mpz_wf L T ?s" using assms(1) by (simp add: mpz_wf_def)
  show "x \<in> L \<Longrightarrow> zval ?s x = zval s x"
    using lval_cong [of "zn s x" m "zd s x" "limbs s"] same [of x] by (simp add: zval_def zabs_def)
qed

lemma sgn_int_nat: "n = (if b then - int k else int k) \<Longrightarrow> sgn n * int (lval m p (nat \<bar>n\<bar>)) = (if b then - int (lval m p k) else int (lval m p k))"
  by (cases "k = 0") (auto split: if_splits)

text \<open>The results of a division in memory are stored in two variables.\<close>

lemma divided_stored:
  assumes w: "mpz_wf L T s" "tr \<in> L" and r: "nn \<le> za s tr" and z: "scratch (map_option (\<lambda>_. zd s tq) q) qn (zd s tr) nn s s'"
    and q: "\<And>x. q = Some x \<Longrightarrow> tq \<in> L \<and> tq \<noteq> tr \<and> qn \<le> za s tq"
    and nq: "\<And>x. q = Some x \<Longrightarrow> kq \<le> qn \<and> (kq \<noteq> 0 \<longrightarrow> limbs s' (zd s tq + (kq - 1)) \<noteq> 0)"
    and nr: "kr \<le> nn" "kr \<noteq> 0 \<Longrightarrow> limbs s' (zd s tr + (kr - 1)) \<noteq> 0"
    and iq: "iq = (if bq then - int kq else int kq)" and ir: "ir = (if br then - int kr else int kr)"
    and f: "f = (\<lambda>x. if q \<noteq> None \<and> x = tq then (if bq then - int (lval (limbs s') (zd s tq) kq) else int (lval (limbs s') (zd s tq) kq))
      else if x = tr then (if br then - int (lval (limbs s') (zd s tr) kr) else int (lval (limbs s') (zd s tr) kr)) else zval s x)"
  shows "holding L T (stack s) f (set_size tr ir (if q = None then s' else set_size tq iq s'))"
proof -
  define m0 where "m0 = (\<lambda>a. if a < brk s then limbs s a else limbs s' a)"
  define s0 where "s0 = s\<lparr>brk := brk s', limbs := m0\<rparr>"
  have sc: "blocks s' = blocks s" "objs s' = objs s" "stack s' = stack s" "brk s \<le> brk s'"
    "\<And>a. a < brk s \<Longrightarrow> a < zd s tr \<or> zd s tr + nn \<le> a \<Longrightarrow> (q \<noteq> None \<Longrightarrow> a < zd s tq \<or> zd s tq + qn \<le> a) \<Longrightarrow> limbs s' a = limbs s a"
    using z unfolding scratch_def by (auto 0 3)
  have s': "s' = s0\<lparr>limbs := limbs s'\<rparr>" using sc(1-3) by (simp add: s0_def)
  have w0: "mpz_wf L T s0" "\<And>x. x \<in> L \<Longrightarrow> zval s0 x = zval s x"
    using wf_raised [OF w(1) sc(4), of m0] by (simp_all add: s0_def m0_def)
  have o: "zd s0 x = zd s x" "za s0 x = za s x" "stack s0 = stack s" for x by (simp_all add: s0_def)
  define m1 where "m1 = (\<lambda>a. if q \<noteq> None \<and> zd s tq \<le> a \<and> a < zd s tq + qn then limbs s' a else m0 a)"
  define s1 where "s1 = (if q = None then s0 else set_size tq iq (s0\<lparr>limbs := m1\<rparr>))"
  have h0: "holding L T (stack s) (zval s) s0" using w0 o by (simp add: holding_def)
  have h1: "holding L T (stack s) (\<lambda>x. if q \<noteq> None \<and> x = tq then (if bq then - int (lval (limbs s') (zd s tq) kq) else int (lval (limbs s') (zd s tq) kq)) else zval s x) s1"
  proof (cases q)
    case None
    then show ?thesis using h0 by (simp add: s1_def)
  next
    case (Some x)
    note qq = q [OF Some] and nq = nq [OF Some]
    have so: "same_outside (zd s0 tq) (za s0 tq) (limbs s0) m1"
      using qq by (auto simp: same_outside_def o m1_def s0_def)
    have le: "\<bar>iq\<bar> \<le> int (za s0 tq)" using nq qq by (simp add: iq o del: int_nat_eq)
    have ki: "nat \<bar>iq\<bar> = kq" by (simp add: iq)
    have "iq \<noteq> 0 \<Longrightarrow> m1 (zd s0 tq + (nat \<bar>iq\<bar> - 1)) \<noteq> 0"
    proof -
      assume "iq \<noteq> 0"
      then have k: "kq \<noteq> 0" by (auto simp: iq split: if_splits)
      then have "zd s tq \<le> zd s tq + (kq - 1)" "zd s tq + (kq - 1) < zd s tq + qn" using nq by linarith+
      then have "m1 (zd s tq + (kq - 1)) = limbs s' (zd s tq + (kq - 1))" using Some unfolding m1_def by (simp only: option.distinct simp_thms if_True)
      then show ?thesis using nq k unfolding ki o by simp
    qed
    from store_wf [OF w0(1) _ so le this] qq
    have u: "upd L T s0 tq (sgn iq * int (lval m1 (zd s0 tq) (nat \<bar>iq\<bar>))) (set_size tq iq (s0\<lparr>limbs := m1\<rparr>))" by blast
    have "lval m1 (zd s tq) kq = lval (limbs s') (zd s tq) kq" using nq Some by (intro lval_cong) (auto simp: m1_def)
    then have "sgn iq * int (lval m1 (zd s0 tq) (nat \<bar>iq\<bar>)) = (if bq then - int (lval (limbs s') (zd s tq) kq) else int (lval (limbs s') (zd s tq) kq))"
      using sgn_int_nat [OF iq, of m1 "zd s tq"] by (simp add: o)
    with holding_upd [OF h0 u] Some show ?thesis by (auto simp: s1_def fun_eq_iff)
  qed
  have d1: "zd s1 x = zd s x" "za s1 x = za s x" for x by (simp_all add: s1_def o)
  have l1: "limbs s1 = m1" by (auto simp: s1_def s0_def m1_def)
  have so: "same_outside (zd s1 tr) (za s1 tr) (limbs s1) (limbs s')"
    unfolding same_outside_def l1 d1
  proof (intro allI impI)
    fix a assume "a < zd s tr \<or> zd s tr + za s tr \<le> a"
    then have "a < zd s tr \<or> zd s tr + nn \<le> a" using r by linarith
    then show "limbs s' a = m1 a" using sc(5) [of a] by (auto simp: m1_def m0_def)
  qed
  have le: "\<bar>ir\<bar> \<le> int (za s1 tr)" using nr(1) r by (simp add: ir d1 del: int_nat_eq)
  have ki: "nat \<bar>ir\<bar> = kr" by (simp add: ir)
  have "ir \<noteq> 0 \<Longrightarrow> limbs s' (zd s1 tr + (nat \<bar>ir\<bar> - 1)) \<noteq> 0"
  proof -
    assume "ir \<noteq> 0"
    then have "kr \<noteq> 0" by (auto simp: ir split: if_splits)
    then show ?thesis using nr(2) unfolding ki d1 by blast
  qed
  from store_wf [OF holdingD(1) [OF h1] w(2) so le this]
  have u: "upd L T s1 tr (sgn ir * int (lval (limbs s') (zd s1 tr) (nat \<bar>ir\<bar>))) (set_size tr ir (s1\<lparr>limbs := limbs s'\<rparr>))" .
  have "set_size tr ir (s1\<lparr>limbs := limbs s'\<rparr>) = set_size tr ir (if q = None then s' else set_size tq iq s')"
    unfolding s1_def using s' sc(2) by (cases q) (auto simp: set_size_def set_obj_def s0_def)
  moreover have "f = (\<lambda>x. if q \<noteq> None \<and> x = tq then (if bq then - int (lval (limbs s') (zd s tq) kq) else int (lval (limbs s') (zd s tq) kq)) else zval s x)
      (tr := sgn ir * int (lval (limbs s') (zd s1 tr) (nat \<bar>ir\<bar>)))"
    unfolding f d1 sgn_int_nat [OF ir] using q by (auto simp: fun_eq_iff)
  ultimately show ?thesis using holding_upd [OF h1 u] by metis
qed

subsection \<open>Rounding\<close>

fun div_round :: "mpz_div_round_mode \<Rightarrow> int \<Rightarrow> int \<Rightarrow> int" where
  "div_round GMP_DIV_FLOOR n d = n div d"
| "div_round GMP_DIV_CEIL n d = - ((- n) div d)"
| "div_round GMP_DIV_TRUNC n d = sgn n * sgn d * (\<bar>n\<bar> div \<bar>d\<bar>)"

definition rem_round :: "mpz_div_round_mode \<Rightarrow> int \<Rightarrow> int \<Rightarrow> int" where
  "rem_round mode n d = n - div_round mode n d * d"

lemma trunc_rem: "rem_round GMP_DIV_TRUNC n d = sgn n * (\<bar>n\<bar> mod \<bar>d\<bar>)"
proof -
  have "sgn d * d = \<bar>d\<bar>" by (simp add: abs_sgn mult.commute)
  then have a: "sgn n * sgn d * (\<bar>n\<bar> div \<bar>d\<bar>) * d = sgn n * (\<bar>n\<bar> div \<bar>d\<bar> * \<bar>d\<bar>)" by (metis mult.commute mult.left_commute)
  have "n = sgn n * (\<bar>n\<bar> div \<bar>d\<bar> * \<bar>d\<bar> + \<bar>n\<bar> mod \<bar>d\<bar>)" by (simp add: sgn_mult_abs)
  then have "n = sgn n * (\<bar>n\<bar> div \<bar>d\<bar> * \<bar>d\<bar>) + sgn n * (\<bar>n\<bar> mod \<bar>d\<bar>)" unfolding distrib_left .
  then show ?thesis unfolding rem_round_def div_round.simps a by linarith
qed

definition div_fix :: "mpz_div_round_mode \<Rightarrow> int \<Rightarrow> int \<Rightarrow> int" where
  "div_fix mode n d =
     (if mode = GMP_DIV_FLOOR \<and> n * d < 0 \<and> \<not> d dvd n then - 1
      else if mode = GMP_DIV_CEIL \<and> n * d > 0 \<and> \<not> d dvd n then 1 else 0)"

lemma floor_trunc: "(d :: int) \<noteq> 0 \<Longrightarrow> n div d = sgn n * sgn d * (\<bar>n\<bar> div \<bar>d\<bar>) - of_bool (n * d < 0 \<and> \<not> d dvd n)"
proof -
  assume d: "d \<noteq> 0"
  have a: "(- m) div e = - (m div e) - of_bool (\<not> e dvd m)" if "e \<noteq> 0" for m e :: int
    using zdiv_zminus1_eq_if [OF that, of m] by (auto simp: dvd_eq_mod_eq_0)
  have b: "m div (- e) = - (m div e) - of_bool (\<not> e dvd m)" if "e \<noteq> 0" for m e :: int
    using zdiv_zminus2_eq_if [OF that, of m] by (auto simp: dvd_eq_mod_eq_0)
  consider "n = 0" | "n > 0" "d > 0" | "n < 0" "d > 0" | "n > 0" "d < 0" | "n < 0" "d < 0"
    using d by (metis linorder_neqE_linordered_idom)
  then show ?thesis
  proof cases
    case 1
    then show ?thesis by simp
  next
    case 2
    then show ?thesis using mult_pos_pos [of n d] by (simp add: less_le_not_le)
  next
    case 3
    then show ?thesis using a [of d "- n"] by (simp add: mult_neg_pos)
  next
    case 4
    then show ?thesis using b [of "- d" n] by (simp add: mult_pos_neg)
  next
    case 5
    then show ?thesis using mult_neg_neg [of n d] by (simp add: less_le_not_le)
  qed
qed

lemma round_fix:
  assumes "d \<noteq> 0"
  shows "div_round mode n d = div_round GMP_DIV_TRUNC n d + div_fix mode n d"
proof (cases mode)
  case GMP_DIV_FLOOR
  show ?thesis unfolding GMP_DIV_FLOOR div_round.simps div_fix_def floor_trunc [OF assms, of n] by simp
next
  case GMP_DIV_CEIL
  show ?thesis unfolding GMP_DIV_CEIL div_round.simps div_fix_def floor_trunc [OF assms, of "- n"] by simp
qed (simp add: div_fix_def)

lemma rem_fix: "d \<noteq> 0 \<Longrightarrow> rem_round mode n d = sgn n * (\<bar>n\<bar> mod \<bar>d\<bar>) - div_fix mode n d * d"
  using trunc_rem [of n d] round_fix [of d mode n] by (simp add: rem_round_def algebra_simps)

lemma trunc_bounds: "d \<noteq> 0 \<Longrightarrow> \<bar>div_round GMP_DIV_TRUNC n d\<bar> \<le> \<bar>n\<bar>" "d \<noteq> 0 \<Longrightarrow> \<bar>rem_round GMP_DIV_TRUNC n d\<bar> \<le> \<bar>d\<bar>"
proof -
  show "d \<noteq> 0 \<Longrightarrow> \<bar>rem_round GMP_DIV_TRUNC n d\<bar> \<le> \<bar>d\<bar>"
    unfolding trunc_rem by (cases "n = 0") (auto simp: abs_mult intro: order_less_imp_le)
  assume "d \<noteq> 0"
  then have "0 \<le> \<bar>n\<bar> div \<bar>d\<bar>" by (simp add: pos_imp_zdiv_nonneg_iff)
  moreover from this have "\<bar>n\<bar> div \<bar>d\<bar> \<le> \<bar>n\<bar>" using div_le_dividend [of "nat \<bar>n\<bar>" "nat \<bar>d\<bar>"] by (simp add: nat_div_distrib [symmetric] nat_le_eq_zle)
  ultimately show "\<bar>div_round GMP_DIV_TRUNC n d\<bar> \<le> \<bar>n\<bar>" by (cases "n = 0") (auto simp: abs_mult)
qed

lemma small_quotient:
  assumes "\<bar>n\<bar> < \<bar>d\<bar>" "n \<noteq> 0"
  shows "div_round mode n d = div_fix mode n d" "\<not> d dvd n"
proof -
  have "d \<noteq> 0" using assms by auto
  then show "div_round mode n d = div_fix mode n d" using assms(1) round_fix [of d mode n] by simp
  show "\<not> d dvd n" using assms zdvd_imp_le [of "\<bar>d\<bar>" "\<bar>n\<bar>"] by auto
qed

lemma small_fits: "\<bar>v\<bar> < 2 ^ 64 \<Longrightarrow> int_fits v"
proof -
  assume v: "\<bar>v\<bar> < 2 ^ 64"
  have "BB ^ 1 \<le> BB ^ (max_limbs - 1)" by (intro power_increasing) (auto simp: max_limbs_def Suc_le_eq)
  then have "int BB \<le> int (BB ^ (max_limbs - 1))" by (simp only: of_nat_le_iff power_one_right)
  then show ?thesis unfolding int_fits_def using v by (simp add: BB_def)
qed

lemma fits_le: "int_fits b \<Longrightarrow> \<bar>a\<bar> \<le> \<bar>b\<bar> \<Longrightarrow> int_fits a"
  unfolding int_fits_def by linarith

subsection \<open>The parts of the division\<close>

definition put :: "nat option \<Rightarrow> int \<Rightarrow> (nat \<Rightarrow> int) \<Rightarrow> nat \<Rightarrow> int" where
  "put x v f = (case x of None \<Rightarrow> f | Some r \<Rightarrow> f(r := v))"

lemma put_simps [simp]: "put None v f = f" "put (Some r) v f = f(r := v)"
  by (simp_all add: put_def)

lemma given_holding:
  assumes "holding L T k f s" "\<And>r. x = Some r \<Longrightarrow> \<exists>s'. op r s = Inr s' \<and> holding L T k (f(g r := v)) s'"
  shows "\<exists>s'. given x op s = Inr s' \<and> holding L T k (put (map_option g x) v f) s'"
  using assms by (cases x) (auto simp: given_def)

lemma given_holding_self:
  assumes "holding L T k f s" "\<And>r. x = Some r \<Longrightarrow> \<exists>s'. op r s = Inr s' \<and> holding L T k (f(r := v)) s'"
  shows "\<exists>s'. given x op s = Inr s' \<and> holding L T k (put x v f) s'"
  using given_holding [of L T k f s x op "\<lambda>r. r" v] assms by (simp add: option.map_ident)

lemma sign_xor:
  assumes "holding L T k f s" "n \<in> L" "d \<in> L" "f n \<noteq> 0" "f d \<noteq> 0"
  shows "(zs s d XOR zs s n) < 0 \<longleftrightarrow> f n * f d < 0" "(zs s d XOR zs s n) \<ge> 0 \<longleftrightarrow> f n * f d > 0"
proof -
  have "sgn (zs s n) = sgn (f n)" "sgn (zs s d) = sgn (f d)" using holding_sgn [OF assms(1)] assms(2,3) by blast+
  then have s: "zs s n < 0 \<longleftrightarrow> f n < 0" "zs s d < 0 \<longleftrightarrow> f d < 0" by (metis sgn_less)+
  show "(zs s d XOR zs s n) < 0 \<longleftrightarrow> f n * f d < 0" "(zs s d XOR zs s n) \<ge> 0 \<longleftrightarrow> f n * f d > 0"
    using s assms(4,5) by (auto simp: mult_less_0_iff zero_less_mult_iff xor_negative_int_iff not_less not_le)
qed

lemma div_short_holding:
  assumes h: "holding L T k f s" and nd: "n \<in> L" "d \<in> L" "int_fits (f n)" "int_fits (f d)" "f n \<noteq> 0" "\<bar>f n\<bar> < \<bar>f d\<bar>"
    and qr: "set_option q \<subseteq> L" "set_option r \<subseteq> L"
  shows "\<exists>s'. div_short q r n d mode (zs s d XOR zs s n) s = Inr s' \<and>
    holding L T k (put q (div_round mode (f n) (f d)) (put r (rem_round mode (f n) (f d)) f)) s'"
proof -
  have d0: "f d \<noteq> 0" using nd(6) by auto
  note v = small_quotient(1) [OF nd(6,5), of mode] small_quotient(2) [OF nd(6,5)] and sg = sign_xor [OF h nd(1,2,5) d0]
  have rm: "rem_round mode (f n) (f d) = f n - div_fix mode (f n) (f d) * f d" by (simp add: rem_round_def v)
  define x where "x = zs s d XOR zs s n"
  consider (ceil) "mode = GMP_DIV_CEIL" "x \<ge> 0" "div_fix mode (f n) (f d) = 1"
    | (floor) "mode = GMP_DIV_FLOOR" "x < 0" "div_fix mode (f n) (f d) = - 1"
    | (trunc) "\<not> (mode = GMP_DIV_CEIL \<and> x \<ge> 0)" "\<not> (mode = GMP_DIV_FLOOR \<and> x < 0)" "div_fix mode (f n) (f d) = 0"
    using v(2) sg [folded x_def] by (cases mode) (auto simp: div_fix_def)
  then show ?thesis
  proof cases
    case ceil
    obtain s1 where s1: "given r (\<lambda>r. mpz_sub r n d) s = Inr s1" "holding L T k (put r (f n - f d) f) s1"
      using given_holding_self [OF h, of r "\<lambda>r. mpz_sub r n d" "f n - f d"] mpz_sub_holding [OF h _ nd(1-4)] qr(2) by auto
    obtain s2 where s2: "given q (\<lambda>q. mpz_set_ui q 1) s1 = Inr s2" "holding L T k (put q 1 (put r (f n - f d) f)) s2"
      using given_holding_self [OF s1(2), of q "\<lambda>q. mpz_set_ui q 1" 1] mpz_set_ui_holding [OF s1(2), of _ 1] qr(1) by auto
    show ?thesis using ceil s1(1) s2 unfolding div_short_def rm v x_def [symmetric] by simp
  next
    case floor
    obtain s1 where s1: "given r (\<lambda>r. mpz_add r n d) s = Inr s1" "holding L T k (put r (f n + f d) f) s1"
      using given_holding_self [OF h, of r "\<lambda>r. mpz_add r n d" "f n + f d"] mpz_add_holding [OF h _ nd(1-4)] qr(2) by auto
    obtain s2 where s2: "given q (\<lambda>q. mpz_set_si q (- 1)) s1 = Inr s2" "holding L T k (put q (- 1) (put r (f n + f d) f)) s2"
      using given_holding_self [OF s1(2), of q "\<lambda>q. mpz_set_si q (- 1)" "- 1"] mpz_set_si_holding [OF s1(2), of _ "- 1"] qr(1) by auto
    show ?thesis using floor s1(1) s2 unfolding div_short_def rm v x_def [symmetric] by simp
  next
    case trunc
    obtain s1 where s1: "given r (\<lambda>r. mpz_set r n) s = Inr s1" "holding L T k (put r (f n) f) s1"
      using given_holding_self [OF h, of r "\<lambda>r. mpz_set r n" "f n"] mpz_set_holding [OF h _ nd(1)] qr(2) by auto
    obtain s2 where s2: "given q (\<lambda>q s. Inr (set_size q 0 s)) s1 = Inr s2" "holding L T k (put q 0 (put r (f n) f)) s2"
      using given_holding_self [OF s1(2), of q "\<lambda>q s. Inr (set_size q 0 s)" 0] set_size_0_holding [OF s1(2)] qr(1) by auto
    show ?thesis using trunc s1(1) s2 unfolding div_short_def rm v x_def [symmetric] by auto
  qed
qed

lemma div_adjust_holding:
  assumes h: "holding L T k f s" and v: "tr \<in> L" "d \<in> L" "tr \<noteq> d" "int_fits (f d)" "int_fits (f tr)"
    and q: "\<And>x. q = Some x \<Longrightarrow> tq \<in> L \<and> tq \<noteq> tr \<and> tq \<noteq> d \<and> int_fits (f tq)"
    and qs: "qs < 0 \<longleftrightarrow> N * f d < 0" "qs \<ge> 0 \<longleftrightarrow> N * f d > 0" "rn \<noteq> 0 \<longleftrightarrow> \<not> f d dvd N"
  shows "\<exists>s'. div_adjust q r tq tr d mode qs rn s = Inr s' \<and>
    holding L T k (put (map_option (\<lambda>_. tr) r) (f tr - div_fix mode N (f d) * f d) (put (map_option (\<lambda>_. tq) q) (f tq + div_fix mode N (f d)) f)) s'"
proof -
  let ?q = "map_option (\<lambda>_. tq) q" and ?r = "map_option (\<lambda>_. tr) r"
  have keep: "put ?q x f tr = f tr" "put ?q x f d = f d" for x using q by (cases q; auto)+
  consider (floor) "mode = GMP_DIV_FLOOR" "qs < 0" "rn \<noteq> 0" "div_fix mode N (f d) = - 1"
    | (ceil) "mode = GMP_DIV_CEIL" "qs \<ge> 0" "rn \<noteq> 0" "div_fix mode N (f d) = 1"
    | (same) "\<not> (mode = GMP_DIV_CEIL \<and> qs \<ge> 0 \<and> rn \<noteq> 0)" "\<not> (mode = GMP_DIV_FLOOR \<and> qs < 0 \<and> rn \<noteq> 0)" "div_fix mode N (f d) = 0"
    using qs by (cases mode) (auto simp: div_fix_def)
  then show ?thesis
  proof cases
    case floor
    obtain s1 where s1: "given q (\<lambda>_. mpz_sub_ui tq tq 1) s = Inr s1" "holding L T k (put ?q (f tq - 1) f) s1"
      using given_holding [OF h, of q "\<lambda>_. mpz_sub_ui tq tq 1" "\<lambda>_. tq" "f tq - 1"] mpz_sub_ui_holding [OF h, of tq tq 1] q by auto
    obtain s2 where s2: "given r (\<lambda>_. mpz_add tr tr d) s1 = Inr s2" "holding L T k (put ?r (f tr + f d) (put ?q (f tq - 1) f)) s2"
      using given_holding [OF s1(2), of r "\<lambda>_. mpz_add tr tr d" "\<lambda>_. tr" "f tr + f d"] mpz_add_holding [OF s1(2) v(1,1,2)] v keep by auto
    show ?thesis using floor s1(1) s2 by (simp add: div_adjust_def)
  next
    case ceil
    obtain s1 where s1: "given q (\<lambda>_. mpz_add_ui tq tq 1) s = Inr s1" "holding L T k (put ?q (f tq + 1) f) s1"
      using given_holding [OF h, of q "\<lambda>_. mpz_add_ui tq tq 1" "\<lambda>_. tq" "f tq + 1"] mpz_add_ui_holding [OF h, of tq tq 1] q by auto
    obtain s2 where s2: "given r (\<lambda>_. mpz_sub tr tr d) s1 = Inr s2" "holding L T k (put ?r (f tr - f d) (put ?q (f tq + 1) f)) s2"
      using given_holding [OF s1(2), of r "\<lambda>_. mpz_sub tr tr d" "\<lambda>_. tr" "f tr - f d"] mpz_sub_holding [OF s1(2) v(1,1,2)] v keep by auto
    show ?thesis using ceil s1(1) s2 by (simp add: div_adjust_def)
  next
    case same
    have "put ?r (f tr) (put ?q (f tq) f) = f" using q by (cases q; cases r) auto
    then show ?thesis using same h unfolding div_adjust_def by (auto simp: same(3))
  qed
qed

lemma quotient_top:
  assumes "0 < n" "lval m p n = X" "2 \<le> n \<Longrightarrow> BB ^ (n - 2) \<le> X"
  defines "k \<equiv> n - of_bool (m (p + (n - 1)) = 0)"
  shows "lval m p k = X" "k \<noteq> 0 \<longrightarrow> m (p + (k - 1)) \<noteq> 0" "k \<le> n"
proof -
  show "k \<le> n" by (simp add: k_def)
  obtain j where j: "n = Suc j" using assms(1) by (cases n) auto
  have "lval m p k = X \<and> (k \<noteq> 0 \<longrightarrow> m (p + (k - 1)) \<noteq> 0)"
  proof (cases "m (p + j) = 0 \<and> 0 < j")
    case False
    then show ?thesis using assms(2) by (auto simp: k_def j)
  next
    case True
    then obtain i where i: "j = Suc i" by (cases j) auto
    have "lval m p (Suc i) = X" "k = Suc i" using assms(2) True by (simp_all add: k_def i j)
    then show ?thesis using top_limb [of i m p] assms(3) by (simp add: i j)
  qed
  then show "lval m p k = X" "k \<noteq> 0 \<longrightarrow> m (p + (k - 1)) \<noteq> 0" by auto
qed

lemma quotient_large:
  assumes "BB ^ (nn - 1) \<le> N" "0 < D" "D < BB ^ dn" "dn < nn"
  shows "BB ^ (nn - dn - 1) \<le> N div D"
proof -
  have "nn - 1 = (nn - dn - 1) + dn" using assms(4) by linarith
  then have "BB ^ (nn - 1) = BB ^ (nn - dn - 1) * BB ^ dn" unfolding power_add [symmetric] by (rule arg_cong)
  moreover have "BB ^ (nn - dn - 1) * D \<le> BB ^ (nn - dn - 1) * BB ^ dn" using assms(3) by (intro mult_le_mono2) simp
  ultimately have "BB ^ (nn - dn - 1) * D \<le> N" using assms(1) by linarith
  then show ?thesis using assms(2) by (simp add: less_eq_div_iff_mult_less_eq)
qed

subsection \<open>The general case\<close>

lemma apart_mono: "apart p a q b \<Longrightarrow> a' \<le> a \<Longrightarrow> b' \<le> b \<Longrightarrow> apart p a' q b'"
  unfolding apart_def by linarith

lemma top_limb_pos: "n \<noteq> 0 \<Longrightarrow> m (p + (n - 1)) \<noteq> 0 \<Longrightarrow> 0 < lval m p n"
  by (cases n) (auto simp: unat_gt_0)

text \<open>The division of the local copy, with the local variable for the quotient if there is one.\<close>

lemma div_core_holding:
  assumes h: "holding L T k f s" and v: "tr \<in> L" "d \<in> L" "tr \<noteq> d" "f tr \<noteq> 0" "f d \<noteq> 0" "zn s d \<le> zn s tr"
    and q: "\<And>x. q = Some x \<Longrightarrow> tq \<in> L \<and> tq \<noteq> tr \<and> tq \<noteq> d \<and> zn s tr - zn s d + 1 \<le> za s tq"
    and qs: "bq \<longleftrightarrow> f tr * f d < 0" and br: "br \<longleftrightarrow> f tr < 0"
  shows "\<exists>s1. mpn_div_qr (map_option (\<lambda>_. zd s tq) q) (zd s tr) (zn s tr) (zd s d) (zn s d) s = Inr s1 \<and>
    (let rn = mpn_normalized_size (limbs s1) (zd s tr) (zn s d);
         qn = int (zn s tr - zn s d + 1) - of_bool (limbs s1 (zd s tq + (zn s tr - zn s d)) = 0) in
     (rn \<noteq> 0 \<longleftrightarrow> \<not> f d dvd f tr) \<and>
     holding L T k (put (Some tr) (rem_round GMP_DIV_TRUNC (f tr) (f d)) (put (map_option (\<lambda>_. tq) q) (div_round GMP_DIV_TRUNC (f tr) (f d)) f))
       (set_size tr (if br then - int rn else int rn) (if q = None then s1 else set_size tq (if bq then - qn else qn) s1)))"
proof -
  define nn dn qp where "nn = zn s tr" and "dn = zn s d" and "qp = map_option (\<lambda>_. zd s tq) q"
  note w = holdingD(1) [OF h]
  have o: "obj_ok s tr" "obj_ok s d" using holdingD(4) [OF h] v by blast+
  have z: "zs s tr \<noteq> 0" "zs s d \<noteq> 0" using holding_zero_iff [OF h] v by blast+
  have n: "0 < dn" "dn \<le> nn" using z(2) v(6) by (simp_all add: dn_def nn_def)
  have N: "int (zabs s tr) = \<bar>f tr\<bar>" "int (zabs s d) = \<bar>f d\<bar>"
    using holdingD(2) [OF h v(1)] holdingD(2) [OF h v(2)] z by (auto simp: zval_def sgn_if split: if_splits)
  have "div_args qp (zd s tr) nn (zd s d) dn s"
  proof -
    have "heap_ok s" using w by (simp add: mpz_wf_def)
    moreover have "limbs s (zd s d + (dn - 1)) \<noteq> 0" using o(2) z(2) by (simp add: obj_ok_def dn_def)
    moreover have "apart (zd s tr) nn (zd s d) dn"
      unfolding nn_def dn_def by (rule apart_mono [OF wf_apart [OF w v(1,2)] obj_sizes(1) [OF o(1)] obj_sizes(1) [OF o(2)]]) (use v(3) in simp)
    moreover have "p + (nn - dn + 1) \<le> brk s \<and> apart p (nn - dn + 1) (zd s tr) nn \<and> apart p (nn - dn + 1) (zd s d) dn" if p: "qp = Some p" for p
    proof -
      obtain x where x: "q = Some x" "p = zd s tq" using p by (auto simp: qp_def)
      have t: "tq \<in> L" "tr \<noteq> tq" "d \<noteq> tq" "nn - dn + 1 \<le> za s tq" using q [OF x(1)] by (auto simp: nn_def dn_def)
      have "p + (nn - dn + 1) \<le> brk s" using wf_below(2) [OF w t(1)] t(4) x(2) by linarith
      moreover have "apart p (nn - dn + 1) (zd s tr) nn" unfolding x(2) nn_def
        by (rule apart_mono [OF wf_apart [OF w t(1) v(1) t(2)] _ obj_sizes(1) [OF o(1)]]) (use t(4) in \<open>simp only: nn_def\<close>)
      moreover have "apart p (nn - dn + 1) (zd s d) dn" unfolding x(2) dn_def
        by (rule apart_mono [OF wf_apart [OF w t(1) v(2) t(3)] _ obj_sizes(1) [OF o(2)]]) (use t(4) in \<open>simp only: dn_def\<close>)
      ultimately show ?thesis by blast
    qed
    ultimately show ?thesis using n wf_below(3) [OF w v(1)] wf_below(3) [OF w v(2)] unfolding div_args_def nn_def dn_def by blast
  qed
  from mpn_div_qr_ok [OF this] obtain s1 where s1: "mpn_div_qr qp (zd s tr) nn (zd s d) dn s = Inr s1"
      "lval (limbs s1) (zd s tr) dn = zabs s tr mod zabs s d" "qval qp (nn - dn + 1) (zabs s tr div zabs s d) (limbs s1)"
      "scratch qp (nn - dn + 1) (zd s tr) nn s s1"
    by (auto simp: divided_def zabs_def nn_def dn_def)
  define rn where "rn = mpn_normalized_size (limbs s1) (zd s tr) dn"
  have r: "rn \<le> nn" "lval (limbs s1) (zd s tr) rn = zabs s tr mod zabs s d" "rn \<noteq> 0 \<Longrightarrow> limbs s1 (zd s tr + (rn - 1)) \<noteq> 0"
    using mpn_normalized_size_value [of "limbs s1" "zd s tr" dn] s1(2) n(2) by (auto simp: rn_def)
  define kq where "kq = nn - dn + 1 - of_bool (limbs s1 (zd s tq + (nn - dn)) = 0)"
  have keq: "int (nn - dn + 1) - of_bool (limbs s1 (zd s tq + (nn - dn)) = 0) = int kq" by (simp add: kq_def)
  have kq: "lval (limbs s1) (zd s tq) kq = zabs s tr div zabs s d" "kq \<noteq> 0 \<longrightarrow> limbs s1 (zd s tq + (kq - 1)) \<noteq> 0" "kq \<le> nn - dn + 1"
    if "q = Some x" for x
  proof -
    have "lval (limbs s1) (zd s tq) (nn - dn + 1) = zabs s tr div zabs s d" using s1(3) that by (simp add: qval_def qp_def)
    moreover have "BB ^ (nn - 1) \<le> zabs s tr" using zabs_pos [OF o(1) z(1)] by (simp add: nn_def)
    moreover have "0 < zabs s d" "zabs s d < BB ^ dn" using zabs_0_iff [OF o(2)] z(2) zabs_less [of s d] by (auto simp: dn_def)
    ultimately show "lval (limbs s1) (zd s tq) kq = zabs s tr div zabs s d" "kq \<noteq> 0 \<longrightarrow> limbs s1 (zd s tq + (kq - 1)) \<noteq> 0" "kq \<le> nn - dn + 1"
      using quotient_top [of "nn - dn + 1" "limbs s1" "zd s tq"] quotient_large [of nn "zabs s tr" "zabs s d" dn] unfolding kq_def by auto
  qed
  have hs: "holding L T (stack s) (\<lambda>x. if q \<noteq> None \<and> x = tq then (if bq then - int (lval (limbs s1) (zd s tq) kq) else int (lval (limbs s1) (zd s tq) kq))
      else if x = tr then (if br then - int (lval (limbs s1) (zd s tr) rn) else int (lval (limbs s1) (zd s tr) rn)) else zval s x)
      (set_size tr (if br then - int rn else int rn) (if q = None then s1 else set_size tq (if bq then - int kq else int kq) s1))"
  proof (rule divided_stored [OF w v(1) obj_sizes(1) [OF o(1), folded nn_def] s1(4) [unfolded qp_def] _ _ r(1,3) refl refl refl])
    show "tq \<in> L \<and> tq \<noteq> tr \<and> nn - dn + 1 \<le> za s tq" if "q = Some x" for x using q [OF that] unfolding nn_def dn_def by blast
    show "kq \<le> nn - dn + 1 \<and> (kq \<noteq> 0 \<longrightarrow> limbs s1 (zd s tq + (kq - 1)) \<noteq> 0)" if "q = Some x" for x using kq(2,3) [OF that] by blast
  qed
  have rem: "(if br then - int (zabs s tr mod zabs s d) else int (zabs s tr mod zabs s d)) = rem_round GMP_DIV_TRUNC (f tr) (f d)"
    unfolding trunc_rem br using v(4) by (simp add: zmod_int N sgn_if)
  have quo: "(if bq then - int (zabs s tr div zabs s d) else int (zabs s tr div zabs s d)) = div_round GMP_DIV_TRUNC (f tr) (f d)"
    unfolding qs using v(4,5) by (auto simp: zdiv_int N sgn_if mult_less_0_iff)
  have "rn \<noteq> 0 \<longleftrightarrow> zabs s tr mod zabs s d \<noteq> 0" using r(2,3) top_limb_pos [of rn "limbs s1" "zd s tr"] by (cases "rn = 0") auto
  also have "\<dots> \<longleftrightarrow> \<not> int (zabs s d) dvd int (zabs s tr)" unfolding int_dvd_int_iff dvd_eq_mod_eq_0 [of "zabs s d"] ..
  finally have rd: "rn \<noteq> 0 \<longleftrightarrow> \<not> f d dvd f tr" unfolding N by simp
  have "holding L T k (put (Some tr) (rem_round GMP_DIV_TRUNC (f tr) (f d)) (put (map_option (\<lambda>_. tq) q) (div_round GMP_DIV_TRUNC (f tr) (f d)) f))
       (set_size tr (if br then - int rn else int rn) (if q = None then s1 else set_size tq (if bq then - int kq else int kq) s1))"
  proof (rule holding_cong [OF hs [unfolded holdingD(3) [OF h]]])
    fix x assume "x \<in> L"
    then show "(if q \<noteq> None \<and> x = tq then (if bq then - int (lval (limbs s1) (zd s tq) kq) else int (lval (limbs s1) (zd s tq) kq))
      else if x = tr then (if br then - int (lval (limbs s1) (zd s tr) rn) else int (lval (limbs s1) (zd s tr) rn)) else zval s x) =
      put (Some tr) (rem_round GMP_DIV_TRUNC (f tr) (f d)) (put (map_option (\<lambda>_. tq) q) (div_round GMP_DIV_TRUNC (f tr) (f d)) f) x"
      using q kq(1) holdingD(2) [OF h] unfolding r(2) rem [symmetric] quo [symmetric] by (cases q) auto
  qed
  then show ?thesis
    using s1(1) rd by (intro exI [of _ s1]) (simp only: Let_def nn_def [symmetric] dn_def [symmetric] qp_def [symmetric] rn_def [symmetric] keq simp_thms)
qed

lemma size_unique:
  assumes "obj_ok s x" "obj_ok s' y" "zabs s x = zabs s' y"
  shows "zn s x = zn s' y"
proof -
  have le: "zn t a \<le> zn t' b" if "obj_ok t a" "zabs t a = zabs t' b" for t t' a b
  proof (cases "zs t a = 0")
    case False
    then have "BB ^ (zn t a - 1) < BB ^ zn t' b" using zabs_pos [OF that(1)] that(2) zabs_less [of t' b] by linarith
    then show ?thesis using power_less_imp_less_exp [of BB "zn t a - 1" "zn t' b"] by (simp add: BB_def)
  qed simp
  show ?thesis using le [OF assms(1,3)] le [OF assms(2) assms(3) [symmetric]] by simp
qed

lemma holding_abs: "holding L T k f s \<Longrightarrow> x \<in> L \<Longrightarrow> int (zabs s x) = \<bar>f x\<bar>"
  using holdingD(2) [of L T k f s x] zabs_0_iff [OF holdingD(4) [of L T k f s x]] by (auto simp: zval_def sgn_if split: if_splits)

lemma holding_size:
  assumes "holding L T k f s" "x \<in> L" "holding L' T' k' g s'" "y \<in> L'" "\<bar>f x\<bar> = \<bar>g y\<bar>"
  shows "zn s x = zn s' y"
  using size_unique [OF holdingD(4) [OF assms(1,2)] holdingD(4) [OF assms(3,4)]] holding_abs [OF assms(1,2)] holding_abs [OF assms(3,4)] assms(5) by simp

lemma grown_holding: "holding L T k f s \<Longrightarrow> grown L T s r n s' \<Longrightarrow> holding L T k f s'"
  using grown_values(3) by (auto simp: holding_def grown_def)

lemma init_quotient_holding:
  fixes q :: "nat option"
  assumes h: "holding L T k f s" and "0 < qn" "int qn \<le> INT_MAX"
  defines "L' \<equiv> set_option (map_option (\<lambda>_. k) q) \<union> L"
  shows "\<exists>s'. given q (\<lambda>_ s. mpz_init2 k (of_nat qn * 64) (snd (new_var s))) s = Inr s' \<and>
    holding L' T (if q = None then k else Suc k) (put (map_option (\<lambda>_. k) q) 0 f) s' \<and>
    (\<forall>x\<in>L. objs s' x = objs s x) \<and> (q \<noteq> None \<longrightarrow> qn \<le> za s' k)"
proof (cases q)
  case None
  then show ?thesis using h by (simp add: given_def L'_def)
next
  case (Some x)
  note n = new_var_holding [OF h]
  obtain s' where s': "mpz_init2 k (of_nat qn * 64) (snd (new_var s)) = Inr s'" "grown (insert k L) T (mpz_init k (snd (new_var s))) k qn s'"
    using mpz_init2_ok [OF holdingD(1) [OF h] n(1) assms(2,3)] by blast
  moreover have "objs s' y = objs s y" if "y \<in> L" for y
  proof -
    have "y \<noteq> k" using that n(2) by auto
    then show ?thesis using s'(2) by (simp add: grown_def mpz_init_def set_obj_def new_var_def)
  qed
  ultimately show ?thesis using grown_holding [OF n(3) s'(2)] Some by (auto simp: given_def L'_def grown_def)
qed

lemma div_finish_holding:
  assumes h: "holding (set_option (map_option (\<lambda>_. Suc k) q) \<union> insert k L) T (if q = None then Suc k else Suc (Suc k)) g s"
    and L: "k \<notin> L" "Suc k \<notin> L" and qr: "set_option q \<subseteq> L" "set_option r \<subseteq> L" "q = None \<or> q \<noteq> r"
  shows "\<exists>s1 s2 s3. given q (\<lambda>q s. bindE (mpz_clear (Suc k) (mpz_swap (Suc k) q s)) (\<lambda>s. Inr (drop_var s))) s = Inr s1 \<and>
    given r (\<lambda>r s. Inr (mpz_swap k r s)) s1 = Inr s2 \<and> mpz_clear k s2 = Inr s3 \<and> holding L T k (put q (g (Suc k)) (put r (g k) g)) (drop_var s3)"
proof -
  obtain s1 where s1: "given q (\<lambda>q s. bindE (mpz_clear (Suc k) (mpz_swap (Suc k) q s)) (\<lambda>s. Inr (drop_var s))) s = Inr s1"
    "holding (insert k L) T (Suc k) (put q (g (Suc k)) g) s1"
  proof (cases q)
    case None
    then show ?thesis using h that by (simp add: given_def)
  next
    case (Some x)
    then have x: "x \<in> L" using qr by simp
    have "holding (insert (Suc k) (insert k L)) T (Suc (Suc k)) (g(Suc k := g x, x := g (Suc k))) (mpz_swap (Suc k) x s)"
      by (rule mpz_swap_holding) (use h Some x in \<open>simp_all add: insert_commute\<close>)
    from mpz_clear_holding [OF this] L obtain s1 where
      s1: "mpz_clear (Suc k) (mpz_swap (Suc k) x s) = Inr s1" "holding (insert k L) T (Suc k) (g(Suc k := g x, x := g (Suc k))) (drop_var s1)" by auto
    have "holding (insert k L) T (Suc k) (put q (g (Suc k)) g) (drop_var s1)"
      by (rule holding_cong [OF s1(2)]) (use L Some in auto)
    then show ?thesis using s1(1) Some that by (simp add: given_def)
  qed
  have gk: "put q (g (Suc k)) g k = g k" using L(1) qr(1) by (cases q) auto
  obtain s2 f2 where s2: "given r (\<lambda>r s. Inr (mpz_swap k r s)) s1 = Inr s2" "holding (insert k L) T (Suc k) f2 s2"
    "\<And>x. x \<in> L \<Longrightarrow> f2 x = put q (g (Suc k)) (put r (g k) g) x"
  proof (cases r)
    case None
    then show ?thesis using s1(2) that by (simp add: given_def)
  next
    case (Some y)
    then have y: "y \<in> insert k L" "y \<noteq> k" "q \<noteq> Some y" using qr L(1) by auto
    let ?g = "put q (g (Suc k)) g"
    have "(?g(k := ?g y, y := ?g k)) x = put q (g (Suc k)) (put r (g k) g) x" if "x \<in> L" for x
      using that Some y L(1) unfolding gk by (cases q) auto
    then show ?thesis using that [OF _ mpz_swap_holding [OF s1(2) insertI1 y(1)]] Some by (simp add: given_def)
  qed
  from mpz_clear_holding [OF s2(2) L(1)] obtain s3 where s3: "mpz_clear k s2 = Inr s3" "holding L T k f2 (drop_var s3)" by blast
  have "holding L T k (put q (g (Suc k)) (put r (g k) g)) (drop_var s3)" by (rule holding_cong [OF s3(2) s2(3)])
  then show ?thesis using s1(1) s2(1) s3(1) by blast
qed

text \<open>The division of integers as a change of their values.\<close>

lemma mpz_div_qr_holding:
  assumes h: "holding L T k f s" and nd: "n \<in> L" "d \<in> L" "f d \<noteq> 0" "int_fits (f n)" "int_fits (f d)"
    and qr: "set_option q \<subseteq> L" "set_option r \<subseteq> L" "q = None \<or> q \<noteq> r"
  shows "\<exists>s'. mpz_div_qr q r n d mode s = Inr (\<not> f d dvd f n, s') \<and>
    holding L T k (put q (div_round mode (f n) (f d)) (put r (rem_round mode (f n) (f d)) f)) s'"
proof -
  have dz: "zs s d \<noteq> 0" using holding_zero_iff [OF h nd(2)] nd(3) by simp
  have nz: "zs s n = 0 \<longleftrightarrow> f n = 0" by (rule holding_zero_iff [OF h nd(1)])
  consider (zero) "f n = 0" | (short) "f n \<noteq> 0" "zn s n < zn s d" | (long) "f n \<noteq> 0" "zn s d \<le> zn s n" by linarith
  then show ?thesis
  proof cases
    case zero
    obtain s1 where s1: "given q (\<lambda>q s. Inr (set_size q 0 s)) s = Inr s1" "holding L T k (put q 0 f) s1"
      using given_holding_self [OF h, of q "\<lambda>q s. Inr (set_size q 0 s)" 0] set_size_0_holding [OF h] qr(1) by auto
    obtain s2 where s2: "given r (\<lambda>r s. Inr (set_size r 0 s)) s1 = Inr s2" "holding L T k (put r 0 (put q 0 f)) s2"
      using given_holding_self [OF s1(2), of r "\<lambda>q s. Inr (set_size q 0 s)" 0] set_size_0_holding [OF s1(2)] qr(2) by auto
    have "div_round mode 0 (f d) = 0" by (cases mode) simp_all
    moreover have "put r 0 (put q 0 f) = put q 0 (put r 0 f)" by (cases q; cases r) (auto simp: fun_upd_twist)
    ultimately show ?thesis using zero s1(1) s2 dz nz by (simp add: mpz_div_qr_def Let_def rem_round_def)
  next
    case short
    have "zabs s n < zabs s d" by (rule size_abs_less [OF holdingD(4) [OF h nd(2)] short(2)])
    then have "\<bar>f n\<bar> < \<bar>f d\<bar>" using holding_abs [OF h nd(1)] holding_abs [OF h nd(2)] by linarith
    from div_short_holding [OF h nd(1,2,4,5) short(1) this qr(1,2), of mode] small_quotient(2) [OF this short(1)] show ?thesis
      using short nz dz by (auto simp: mpz_div_qr_def Let_def)
  next
    case long
    note kL = new_var_holding [OF h]
    have kL': "Suc k \<notin> L" using holdingD(5) [OF h, of "Suc k"] by auto
    obtain s1 where s1: "mpz_init_set k n (snd (new_var s)) = Inr s1" "holding (insert k L) T (Suc k) (f(k := f n)) s1"
      using mpz_init_set_holding [OF h nd(1)] by blast
    define qn where "qn = zn s n - zn s d + 1"
    have "int qn \<le> INT_MAX" "0 < qn" using holding_fits [OF h nd(1,4)] dz by (simp_all add: qn_def)
    from init_quotient_holding [OF s1(2) this(2,1), of q] obtain s2 where
      s2: "given q (\<lambda>_ s. mpz_init2 (Suc k) (of_nat qn * 64) (snd (new_var s))) s1 = Inr s2"
        "holding (set_option (map_option (\<lambda>_. Suc k) q) \<union> insert k L) T (if q = None then Suc k else Suc (Suc k)) (put (map_option (\<lambda>_. Suc k) q) 0 (f(k := f n))) s2"
        "\<forall>x\<in>insert k L. objs s2 x = objs s1 x" "q \<noteq> None \<longrightarrow> qn \<le> za s2 (Suc k)" by blast
    define g2 where "g2 = put (map_option (\<lambda>_. Suc k) q) 0 (f(k := f n))"
    define L2 where "L2 = set_option (map_option (\<lambda>_. Suc k) q) \<union> insert k L"
    define qs where "qs = zs s d XOR zs s n"
    note h2 = s2(2) [folded g2_def L2_def]
    have m: "k \<in> L2" "d \<in> L2" "k \<noteq> d" "Suc k \<noteq> d" "q \<noteq> None \<Longrightarrow> Suc k \<in> L2" using nd(2) kL(2) kL' by (auto simp: L2_def)
    have g2: "g2 k = f n" "g2 d = f d" using m(3,4) by (cases q; auto simp: g2_def)+
    have z: "zn s2 k = zn s n" "zn s2 d = zn s d"
      using holding_size [OF h2 m(1) h nd(1)] holding_size [OF h2 m(2) h nd(2)] g2 by simp_all
    have sg: "qs < 0 \<longleftrightarrow> f n * f d < 0" "qs \<ge> 0 \<longleftrightarrow> f n * f d > 0" "zs s n < 0 \<longleftrightarrow> f n < 0"
      using sign_xor [OF h nd(1,2) long(1) nd(3)] holding_sgn [OF h nd(1)] by (simp_all add: qs_def) (metis sgn_less)
    have d2: "zd s2 k = zd s1 k" using s2(3) by simp
    from div_core_holding [OF h2 m(1-3), of q "Suc k" "qs < 0" "zs s n < 0"] obtain s3 where
      s3: "mpn_div_qr (map_option (\<lambda>_. zd s2 (Suc k)) q) (zd s1 k) (zn s n) (zd s2 d) (zn s d) s2 = Inr s3" and
      c: "let rn = mpn_normalized_size (limbs s3) (zd s1 k) (zn s d);
             qn = int qn - of_bool (limbs s3 (zd s2 (Suc k) + (qn - 1)) = 0) in
         (rn \<noteq> 0 \<longleftrightarrow> \<not> f d dvd f n) \<and>
         holding L2 T (if q = None then Suc k else Suc (Suc k))
           (put (Some k) (rem_round GMP_DIV_TRUNC (f n) (f d)) (put (map_option (\<lambda>_. Suc k) q) (div_round GMP_DIV_TRUNC (f n) (f d)) g2))
           (set_size k (if zs s n < 0 then - int rn else int rn) (if q = None then s3 else set_size (Suc k) (if qs < 0 then - qn else qn) s3))"
      using long nd(3) m s2(4) sg by (auto simp: g2 z d2 qn_def)
    define rn qn' where "rn = mpn_normalized_size (limbs s3) (zd s1 k) (zn s d)"
      and "qn' = int qn - of_bool (limbs s3 (zd s2 (Suc k) + (qn - 1)) = 0)"
    define g4 where "g4 = put (Some k) (rem_round GMP_DIV_TRUNC (f n) (f d)) (put (map_option (\<lambda>_. Suc k) q) (div_round GMP_DIV_TRUNC (f n) (f d)) g2)"
    define s4 where "s4 = set_size k (if zs s n < 0 then - int rn else int rn) (if q = None then s3 else set_size (Suc k) (if qs < 0 then - qn' else qn') s3)"
    have rd: "rn \<noteq> 0 \<longleftrightarrow> \<not> f d dvd f n" and h4: "holding L2 T (if q = None then Suc k else Suc (Suc k)) g4 s4"
      using c unfolding Let_def rn_def [symmetric] qn'_def [symmetric] g4_def [symmetric] s4_def [symmetric] by blast+
    have g4: "g4 k = rem_round GMP_DIV_TRUNC (f n) (f d)" "g4 d = f d" "q \<noteq> None \<Longrightarrow> g4 (Suc k) = div_round GMP_DIV_TRUNC (f n) (f d)"
      "\<And>x. x \<in> L \<Longrightarrow> g4 x = f x"
      using m(3,4) kL(2) kL' by (cases q; auto simp: g4_def g2_def)+
    have "int_fits (g4 k)" "q \<noteq> None \<Longrightarrow> int_fits (g4 (Suc k))"
      using fits_le [OF nd(5)] fits_le [OF nd(4)] trunc_bounds [OF nd(3), of "f n"] unfolding g4(1) by (simp_all add: g4(3))
    define g5 where "g5 = put (map_option (\<lambda>_. k) r) (g4 k - div_fix mode (f n) (f d) * f d) (put (map_option (\<lambda>_. Suc k) q) (g4 (Suc k) + div_fix mode (f n) (f d)) g4)"
    with div_adjust_holding [OF h4 m(1-3), of q "Suc k" qs "f n" rn r mode] m nd(5) sg rd \<open>int_fits (g4 k)\<close> \<open>q \<noteq> None \<Longrightarrow> int_fits (g4 (Suc k))\<close> obtain s5 where
      s5: "div_adjust q r (Suc k) k d mode qs rn s4 = Inr s5" and h5: "holding L2 T (if q = None then Suc k else Suc (Suc k)) g5 s5"
      unfolding g4(2) by auto
    from div_finish_holding [OF h5 [unfolded L2_def] kL(2) kL' qr] obtain s6 s7 s8 where
      s6: "given q (\<lambda>q s. bindE (mpz_clear (Suc k) (mpz_swap (Suc k) q s)) (\<lambda>s. Inr (drop_var s))) s5 = Inr s6"
        "given r (\<lambda>r s. Inr (mpz_swap k r s)) s6 = Inr s7" "mpz_clear k s7 = Inr s8" and
      h8: "holding L T k (put q (g5 (Suc k)) (put r (g5 k) g5)) (drop_var s8)" by blast
    have "holding L T k (put q (div_round mode (f n) (f d)) (put r (rem_round mode (f n) (f d)) f)) (drop_var s8)"
    proof (rule holding_cong [OF h8])
      have "rem_round mode (f n) (f d) = g4 k - div_fix mode (f n) (f d) * f d" using rem_fix [OF nd(3), of mode "f n"] unfolding g4(1) trunc_rem .
      then have "r \<noteq> None \<Longrightarrow> g5 k = rem_round mode (f n) (f d)" by (auto simp: g5_def)
      moreover have "q \<noteq> None \<Longrightarrow> g5 (Suc k) = div_round mode (f n) (f d)" using round_fix [OF nd(3), of mode "f n"] g4(3) by (cases r) (auto simp: g5_def)
      moreover have "g5 x = f x" if "x \<in> L" for x using that g4(4) [OF that] kL(2) kL' by (cases q; cases r) (auto simp: g5_def)
      ultimately show "put q (g5 (Suc k)) (put r (g5 k) g5) x = put q (div_round mode (f n) (f d)) (put r (rem_round mode (f n) (f d)) f) x" if "x \<in> L" for x
        using that by (cases q; cases r) auto
    qed
    moreover have "mpz_div_qr q r n d mode s = Inr (\<not> f d dvd f n, drop_var s8)"
    proof -
      have t: "fst (new_var s1) = Suc k" using holdingD(3) [OF s1(2)] by (simp add: new_var_def)
      have s4': "set_size k (if zs s n < 0 then - int rn else int rn) (case map_option (\<lambda>_. zd s2 (Suc k)) q of None \<Rightarrow> s3
        | Some p \<Rightarrow> set_size (Suc k) (if qs < 0 then - (int qn - of_bool (limbs s3 (p + (qn - 1)) = 0)) else int qn - of_bool (limbs s3 (p + (qn - 1)) = 0)) s3) = s4"
        by (cases q) (simp_all add: s4_def qn'_def)
      have l: "limbs (case map_option (\<lambda>_. zd s2 (Suc k)) q of None \<Rightarrow> s3 | Some p \<Rightarrow> set_size (Suc k) (x p) s3) = limbs s3" for x by (cases q) simp_all
      have c: "(zn s n < zn s d) = False" "(zs s d = 0) = False" "(zs s n = 0) = False" using long nz dz by simp_all
      obtain s0 where s0: "new_var s = (k, s0)" "snd (new_var s) = s0" using kL(1) by auto
      show ?thesis
        unfolding mpz_div_qr_def Let_def c if_False s0 prod.case s1(1) [unfolded s0(2)] bindE_simps t qn_def [symmetric] s2(1) qs_def [symmetric]
          s3 rn_def [symmetric] l s4' s5 s6 rd by simp
    qed
    ultimately show ?thesis by blast
  qed
qed

subsection \<open>The functions of the interface\<close>

lemmas div_functions = mpz_cdiv_qr_def mpz_fdiv_qr_def mpz_tdiv_qr_def mpz_cdiv_q_def mpz_fdiv_q_def mpz_tdiv_q_def
  mpz_cdiv_r_def mpz_fdiv_r_def mpz_tdiv_r_def

lemma void_holding: "\<exists>s'. x = Inr (b, s') \<and> P s' \<Longrightarrow> \<exists>s'. void x = Inr s' \<and> P s'"
  by (auto simp: void_def)

lemma mpz_mod_holding:
  assumes "holding L T k f s" "r \<in> L" "n \<in> L" "d \<in> L" "f d \<noteq> 0" "int_fits (f n)" "int_fits (f d)"
  shows "\<exists>s'. mpz_mod r n d s = Inr s' \<and> holding L T k (f(r := f n mod \<bar>f d\<bar>)) s'"
proof -
  have "zs s d \<ge> 0 \<longleftrightarrow> f d \<ge> 0" using holding_sgn [OF assms(1,4)] by (metis sgn_less not_less)
  then have "rem_round (if zs s d \<ge> 0 then GMP_DIV_FLOOR else GMP_DIV_CEIL) (f n) (f d) = f n mod \<bar>f d\<bar>"
    by (simp add: rem_round_def minus_div_mult_eq_mod [symmetric] div_minus_right)
  then show ?thesis
    using void_holding [OF mpz_div_qr_holding [OF assms(1,3-7), of None "Some r" "if zs s d \<ge> 0 then GMP_DIV_FLOOR else GMP_DIV_CEIL"]] assms(2)
    by (simp add: mpz_mod_def)
qed

lemma mpz_divexact_holding:
  assumes "holding L T k f s" "q \<in> L" "n \<in> L" "d \<in> L" "f d \<noteq> 0" "int_fits (f n)" "int_fits (f d)"
  shows "if f d dvd f n then \<exists>s'. mpz_divexact q n d s = Inr s' \<and> holding L T k (f(q := f n div f d)) s' else mpz_divexact q n d s = crash Assert_Failed"
proof -
  have "f d dvd f n \<Longrightarrow> div_round GMP_DIV_TRUNC (f n) (f d) = f n div f d" using floor_trunc [OF assms(5), of "f n"] by simp
  then show ?thesis using mpz_div_qr_holding [OF assms(1,3-7), of "Some q" None GMP_DIV_TRUNC] assms(2) by (auto simp: mpz_divexact_def c_assert_def)
qed

lemma mpz_divisible_p_holding:
  assumes "holding L T k f s" "n \<in> L" "d \<in> L" "f d \<noteq> 0" "int_fits (f n)" "int_fits (f d)"
  shows "\<exists>s'. mpz_divisible_p n d s = Inr (f d dvd f n, s') \<and> holding L T k f s'"
  using mpz_div_qr_holding [OF assms, of None None GMP_DIV_TRUNC] by (auto simp: mpz_divisible_p_def)

lemma mpz_congruent_p_holding:
  assumes h: "holding L T k f s" and "a \<in> L" "b \<in> L" "m \<in> L" "int_fits (f a)" "int_fits (f b)" "int_fits (f a - f b)" "int_fits (f m)"
  shows "\<exists>s'. mpz_congruent_p a b m s = Inr (f m dvd f a - f b, s') \<and> holding L T k f s'"
proof (cases "f m = 0")
  case True
  then have "mpz_sgn s m = 0" using mpz_sgn_ok [OF holdingD(4) [OF h assms(4)]] holdingD(2) [OF h assms(4)] by simp
  moreover have "mpz_cmp s a b = sgn (f a - f b)"
    using mpz_cmp_ok [OF holdingD(4) [OF h assms(2)] holdingD(4) [OF h assms(3)]] holdingD(2) [OF h] assms(2,3) by simp
  ultimately show ?thesis using True h by (auto simp: mpz_congruent_p_def sgn_0_0)
next
  case False
  then have nz: "mpz_sgn s m \<noteq> 0" using mpz_sgn_ok [OF holdingD(4) [OF h assms(4)]] holdingD(2) [OF h assms(4)] by (simp add: sgn_0_0)
  note n = new_var_holding [OF h]
  have i: "a \<noteq> k" "b \<noteq> k" "m \<noteq> k" using n(2) assms by auto
  obtain s1 where s1: "mpz_sub k a b (mpz_init k (snd (new_var s))) = Inr s1" "holding (insert k L) T (Suc k) (f(k := f a - f b)) s1"
    using mpz_sub_holding [OF n(3), of k a b] assms i by auto
  obtain s2 where s2: "mpz_divisible_p k m s1 = Inr (f m dvd f a - f b, s2)" "holding (insert k L) T (Suc k) (f(k := f a - f b)) s2"
    using mpz_divisible_p_holding [OF s1(2), of k m] assms i False by auto
  obtain s3 where s3: "mpz_clear k s2 = Inr s3" "holding L T k (f(k := f a - f b)) (drop_var s3)"
    using mpz_clear_holding [OF s2(2) n(2)] by blast
  have "holding L T k f (drop_var s3)" by (rule holding_cong [OF s3(2)]) (use n(2) in auto)
  moreover obtain s0 where "new_var s = (k, s0)" "snd (new_var s) = s0" using n(1) by auto
  ultimately show ?thesis using nz s1(1) s2(1) s3(1) by (simp add: mpz_congruent_p_def)
qed

subsection \<open>Properties\<close>

lemma rem_sign:
  assumes "d \<noteq> 0"
  shows "\<bar>rem_round mode n d\<bar> < \<bar>d\<bar>"
    "rem_round mode n d = 0 \<or> sgn (rem_round mode n d) = (case mode of GMP_DIV_FLOOR \<Rightarrow> sgn d | GMP_DIV_CEIL \<Rightarrow> - sgn d | GMP_DIV_TRUNC \<Rightarrow> sgn n)"
proof -
  have fl: "rem_round GMP_DIV_FLOOR n d = n mod d" for n by (simp add: rem_round_def minus_div_mult_eq_mod)
  have ce: "rem_round GMP_DIV_CEIL n d = - ((- n) mod d)" by (simp add: rem_round_def minus_div_mult_eq_mod [symmetric])
  have m: "\<bar>x mod d\<bar> < \<bar>d\<bar> \<and> (x mod d = 0 \<or> sgn (x mod d) = sgn d)" for x
  proof (cases "d > 0")
    case True
    then have "0 < x mod d \<or> x mod d = 0" using pos_mod_sign [of d x] by linarith
    then show ?thesis using True pos_mod_bound [of d x] by (auto simp: sgn_if)
  next
    case False
    then have d: "d < 0" using assms by simp
    then have "x mod d < 0 \<or> x mod d = 0" using neg_mod_sign [of d x] by linarith
    then show ?thesis using d neg_mod_bound [of d x] by (auto simp: sgn_if)
  qed
  show "\<bar>rem_round mode n d\<bar> < \<bar>d\<bar>"
    using m [of n] m [of "- n"] assms by (cases mode) (auto simp: fl ce trunc_rem abs_mult sgn_if)
  show "rem_round mode n d = 0 \<or> sgn (rem_round mode n d) = (case mode of GMP_DIV_FLOOR \<Rightarrow> sgn d | GMP_DIV_CEIL \<Rightarrow> - sgn d | GMP_DIV_TRUNC \<Rightarrow> sgn n)"
  proof (cases mode)
    case GMP_DIV_TRUNC
    have "0 \<le> \<bar>n\<bar> mod \<bar>d\<bar>" using assms by simp
    then have "\<bar>n\<bar> mod \<bar>d\<bar> = 0 \<or> sgn (\<bar>n\<bar> mod \<bar>d\<bar>) = 1" by (metis order_le_less sgn_pos)
    then show ?thesis unfolding GMP_DIV_TRUNC trunc_rem by (auto simp: sgn_mult)
  qed (use m [of n] m [of "- n"] in \<open>auto simp: fl ce sgn_minus\<close>)
qed

lemma rem_zero_iff:
  assumes "d \<noteq> 0"
  shows "rem_round mode n d = 0 \<longleftrightarrow> d dvd n"
proof -
  have "d dvd n \<longleftrightarrow> d dvd div_round mode n d * d + rem_round mode n d" by (simp add: rem_round_def)
  also have "\<dots> \<longleftrightarrow> d dvd rem_round mode n d" by (rule dvd_add_times_triv_left_iff)
  also have "\<dots> \<longleftrightarrow> rem_round mode n d = 0" using rem_sign(1) [OF assms, of mode n] zdvd_imp_le [of "\<bar>d\<bar>" "\<bar>rem_round mode n d\<bar>"] by auto
  finally show ?thesis by simp
qed


text \<open>Four variables, with the values \<open>-7\<close>, \<open>2\<close>, \<open>0\<close> and \<open>0\<close>.\<close>

definition sample_ints :: mpz_mem where
  "sample_ints = \<lparr>limbs = (\<lambda>_. 0)(1 := 7, 2 := 2), brk = 3, blocks = [1 \<mapsto> 1, 2 \<mapsto> 1],
     objs = (\<lambda>x. if x = 0 then \<lparr>mp_alloc = 1, mp_size = - 1, mp_d = 1\<rparr>
       else if x = 1 then \<lparr>mp_alloc = 1, mp_size = 1, mp_d = 2\<rparr> else \<lparr>mp_alloc = 0, mp_size = 0, mp_d = 0\<rparr>), stack = 4\<rparr>"

lemma sample_ints_wf: "mpz_wf {0, 1, 2, 3} {} sample_ints"
proof -
  have "owners {0, 1, 2, 3} sample_ints = {0, 1}" by (auto simp: owners_def sample_ints_def)
  then show ?thesis by (auto simp: mpz_wf_def heap_ok_def obj_ok_def sample_ints_def split: if_splits)
qed

lemma sample_ints_values: "zval sample_ints = (\<lambda>x. if x = 0 then - 7 else if x = 1 then 2 else 0)"
  by (simp add: fun_eq_iff zval_def zabs_def sample_ints_def)


text \<open>
  Division by zero. \<open>mpz_div_qr\<close>, and with it all functions that divide by an integer, ends the program with a message exactly when
  the divisor is 0; the other divisions return.
\<close>

theorem mpz_div_by_zero_aborts:
  assumes "mpz_wf L T s" "n \<in> L" "d \<in> L" "set_option q \<subseteq> L" "set_option r \<subseteq> L" "q = None \<or> q \<noteq> r"
    and "int_fits (zval s n)" "int_fits (zval s d)"
  shows "(mpz_div_qr q r n d mode s = crash Aborted) = (zval s d = 0) \<and> (mpz_div_qr q r n d mode s \<in> range Inr) = (zval s d \<noteq> 0)"
proof (cases "zval s d = 0")
  case True
  then show ?thesis using holding_zero_iff [OF holdingI [OF assms(1)] assms(3)] by (auto simp: mpz_div_qr_def gmp_die_def)
next
  case False
  then show ?thesis using mpz_div_qr_holding [OF holdingI [OF assms(1)] assms(2,3) False assms(7,8,4-6), of mode] by auto
qed

theorem mpz_div_by_zero_aborts_witness:
  "mpz_div_qr (Some 2) None 0 3 GMP_DIV_TRUNC sample_ints = crash Aborted"
  using mpz_div_by_zero_aborts [OF sample_ints_wf, of 0 3 "Some 2" None GMP_DIV_TRUNC] by (simp add: sample_ints_values small_fits)

text \<open>
  Divisibility. \<open>mpz_mod\<close> gives the residue that is not negative, \<open>mpz_divisible_p\<close> and \<open>mpz_congruent_p\<close> decide divisibility and congruence,
  the latter also modulo 0, and leave all variables as they were, and \<open>mpz_divexact\<close> gives the quotient or fails its assertion when there is a remainder.
\<close>

theorem mpz_divisibility:
  assumes "mpz_wf L T s" "a \<in> L" "b \<in> L" "m \<in> L" "r \<in> L" "zval s b \<noteq> 0"
    and "int_fits (zval s a)" "int_fits (zval s b)" "int_fits (zval s a - zval s b)" "int_fits (zval s m)"
  shows "(\<exists>s'. mpz_mod r a b s = Inr s' \<and> zval s' r = zval s a mod \<bar>zval s b\<bar>) \<and>
    (\<exists>s'. mpz_divisible_p a b s = Inr (zval s b dvd zval s a, s') \<and> (\<forall>x\<in>L. zval s' x = zval s x)) \<and>
    (\<exists>s'. mpz_congruent_p a b m s = Inr (zval s m dvd zval s a - zval s b, s') \<and> (\<forall>x\<in>L. zval s' x = zval s x)) \<and>
    (if zval s b dvd zval s a then \<exists>s'. mpz_divexact r a b s = Inr s' \<and> zval s' r = zval s a div zval s b else mpz_divexact r a b s = crash Assert_Failed)"
proof -
  note h = holdingI [OF assms(1)]
  show ?thesis
    using mpz_mod_holding [OF h assms(5,2,3,6-8)] mpz_divisible_p_holding [OF h assms(2,3,6-8)]
      mpz_congruent_p_holding [OF h assms(2-4,7-10)] mpz_divexact_holding [OF h assms(5,2,3,6-8)] assms(5)
    by (auto simp: holding_def split: if_splits)
qed

theorem mpz_divisibility_witness:
  "(\<exists>s'. mpz_mod 0 0 1 sample_ints = Inr s' \<and> zval s' 0 = 1) \<and> (\<exists>s'. mpz_congruent_p 0 1 2 sample_ints = Inr (False, s'))"
  using mpz_divisibility [OF sample_ints_wf, of 0 1 2 0] by (auto simp: sample_ints_values small_fits)

end
