(* ===== verification/Mpz_Programs.thy ===== *)
theory Mpz_Programs
  imports Mpz_Div
begin

section \<open>Sequences of operations on integers\<close>

text \<open>
  The operations of the \<open>mpz\<close> layer keep the promise of an interface: on variables that hold integers, an
  operation changes one variable, to a function of the values before. The interface is the locale below;
  what it gives is that whole sequences of operations compute what the same sequence computes on
  mathematical integers, in any pattern of equal and different arguments.
\<close>

subsection \<open>The interface\<close>

primrec run_all :: "('i \<Rightarrow> 's \<Rightarrow> 's res) \<Rightarrow> 'i list \<Rightarrow> 's \<Rightarrow> 's res" where
  "run_all run [] s = Inr s"
| "run_all run (i # p) s = bindE (run i s) (run_all run p)"

primrec eval_all :: "('i \<Rightarrow> (nat \<Rightarrow> int) \<Rightarrow> nat \<Rightarrow> int) \<Rightarrow> 'i list \<Rightarrow> (nat \<Rightarrow> int) \<Rightarrow> nat \<Rightarrow> int" where
  "eval_all ev [] v = v"
| "eval_all ev (i # p) v = eval_all ev p (ev i v)"

primrec enabled_all :: "('i \<Rightarrow> (nat \<Rightarrow> int) \<Rightarrow> bool) \<Rightarrow> ('i \<Rightarrow> (nat \<Rightarrow> int) \<Rightarrow> nat \<Rightarrow> int) \<Rightarrow> 'i list \<Rightarrow> (nat \<Rightarrow> int) \<Rightarrow> bool" where
  "enabled_all en ev [] v \<longleftrightarrow> True"
| "enabled_all en ev (i # p) v \<longleftrightarrow> en i v \<and> enabled_all en ev p (ev i v)"

locale integer_variables =
  fixes ok :: "nat set \<Rightarrow> 's \<Rightarrow> bool" and val :: "'s \<Rightarrow> nat \<Rightarrow> int" and run :: "'i \<Rightarrow> 's \<Rightarrow> 's res"
    and en :: "nat set \<Rightarrow> 'i \<Rightarrow> (nat \<Rightarrow> int) \<Rightarrow> bool" and ev :: "'i \<Rightarrow> (nat \<Rightarrow> int) \<Rightarrow> nat \<Rightarrow> int"
  assumes run_ok: "ok L s \<Longrightarrow> en L i (val s) \<Longrightarrow> \<exists>s'. run i s = Inr s' \<and> ok L s' \<and> (\<forall>q\<in>L. val s' q = ev i (val s) q)"
    and en_cong: "(\<And>q. q \<in> L \<Longrightarrow> v q = w q) \<Longrightarrow> en L i v = en L i w"
    and ev_cong: "(\<And>q. q \<in> L \<Longrightarrow> v q = w q) \<Longrightarrow> en L i v \<Longrightarrow> q \<in> L \<Longrightarrow> ev i v q = ev i w q"
begin

lemma enabled_all_cong:
  "(\<And>q. q \<in> L \<Longrightarrow> v q = w q) \<Longrightarrow> enabled_all (en L) ev p v \<Longrightarrow>
     enabled_all (en L) ev p w \<and> (\<forall>q\<in>L. eval_all ev p v q = eval_all ev p w q)"
proof (induction p arbitrary: v w)
  case (Cons i p)
  have "en L i v" "enabled_all (en L) ev p (ev i v)" using Cons.prems(2) by auto
  moreover have "en L i v = en L i w" by (rule en_cong [OF Cons.prems(1)])
  moreover have "ev i v q = ev i w q" if "q \<in> L" for q using ev_cong [OF Cons.prems(1) calculation(1) that] .
  ultimately show ?case using Cons.IH [of "ev i v" "ev i w"] by simp
qed simp

lemma run_all_refines:
  "ok L s \<Longrightarrow> enabled_all (en L) ev p (val s) \<Longrightarrow>
     \<exists>s'. run_all run p s = Inr s' \<and> ok L s' \<and> (\<forall>q\<in>L. val s' q = eval_all ev p (val s) q)"
proof (induction p arbitrary: s)
  case (Cons i p)
  then obtain s1 where s1: "run i s = Inr s1" "ok L s1" "\<forall>q\<in>L. val s1 q = ev i (val s) q" using run_ok [of L s i] by auto
  have c: "enabled_all (en L) ev p (val s1)" "\<forall>q\<in>L. eval_all ev p (ev i (val s)) q = eval_all ev p (val s1) q"
    using enabled_all_cong [of L "ev i (val s)" "val s1" p] s1(3) Cons.prems(2) by auto
  then show ?case using Cons.IH [OF s1(2) c(1)] s1(1) by auto
qed auto

end

subsection \<open>The operations\<close>

datatype instr =
    Set_ui nat u64 | Set_si nat int | Set nat nat | Neg nat nat | Abs nat nat
  | Add_ui nat nat u64 | Sub_ui nat nat u64 | Ui_sub nat u64 nat | Add nat nat nat | Sub nat nat nat
  | Mul_ui nat nat u64 | Mul_si nat nat int | Mul nat nat nat | Mul_2exp nat nat u64
  | Addmul_ui nat nat u64 | Submul_ui nat nat u64 | Addmul nat nat nat | Submul nat nat nat
  | Cdiv_q nat nat nat | Fdiv_q nat nat nat | Tdiv_q nat nat nat | Cdiv_r nat nat nat | Fdiv_r nat nat nat | Tdiv_r nat nat nat
  | Mod nat nat nat | Divexact nat nat nat

primrec run_instr :: "instr \<Rightarrow> mpz_mem \<Rightarrow> mpz_mem res" where
  "run_instr (Set_ui r x) = mpz_set_ui r x"
| "run_instr (Set_si r x) = mpz_set_si r x"
| "run_instr (Set r u) = mpz_set r u"
| "run_instr (Neg r u) = mpz_neg r u"
| "run_instr (Abs r u) = mpz_abs r u"
| "run_instr (Add_ui r u x) = mpz_add_ui r u x"
| "run_instr (Sub_ui r u x) = mpz_sub_ui r u x"
| "run_instr (Ui_sub r x u) = mpz_ui_sub r x u"
| "run_instr (Add r u v) = mpz_add r u v"
| "run_instr (Sub r u v) = mpz_sub r u v"
| "run_instr (Mul_ui r u x) = mpz_mul_ui r u x"
| "run_instr (Mul_si r u x) = mpz_mul_si r u x"
| "run_instr (Mul r u v) = mpz_mul r u v"
| "run_instr (Mul_2exp r u x) = mpz_mul_2exp r u x"
| "run_instr (Addmul_ui r u x) = mpz_addmul_ui r u x"
| "run_instr (Submul_ui r u x) = mpz_submul_ui r u x"
| "run_instr (Addmul r u v) = mpz_addmul r u v"
| "run_instr (Submul r u v) = mpz_submul r u v"
| "run_instr (Cdiv_q r u w) = mpz_cdiv_q r u w"
| "run_instr (Fdiv_q r u w) = mpz_fdiv_q r u w"
| "run_instr (Tdiv_q r u w) = mpz_tdiv_q r u w"
| "run_instr (Cdiv_r r u w) = mpz_cdiv_r r u w"
| "run_instr (Fdiv_r r u w) = mpz_fdiv_r r u w"
| "run_instr (Tdiv_r r u w) = mpz_tdiv_r r u w"
| "run_instr (Mod r u w) = mpz_mod r u w"
| "run_instr (Divexact r u w) = mpz_divexact r u w"

text \<open>The variable that is assigned, the ones that are read, and the value.\<close>

primrec instr_sem :: "instr \<Rightarrow> nat \<times> nat list \<times> ((nat \<Rightarrow> int) \<Rightarrow> int)" where
  "instr_sem (Set_ui r x) = (r, [], \<lambda>v. int (unat x))"
| "instr_sem (Set_si r x) = (r, [], \<lambda>v. x)"
| "instr_sem (Set r u) = (r, [u], \<lambda>v. v u)"
| "instr_sem (Neg r u) = (r, [u], \<lambda>v. - v u)"
| "instr_sem (Abs r u) = (r, [u], \<lambda>v. \<bar>v u\<bar>)"
| "instr_sem (Add_ui r u x) = (r, [u], \<lambda>v. v u + int (unat x))"
| "instr_sem (Sub_ui r u x) = (r, [u], \<lambda>v. v u - int (unat x))"
| "instr_sem (Ui_sub r x u) = (r, [u], \<lambda>v. int (unat x) - v u)"
| "instr_sem (Add r u w) = (r, [u, w], \<lambda>v. v u + v w)"
| "instr_sem (Sub r u w) = (r, [u, w], \<lambda>v. v u - v w)"
| "instr_sem (Mul_ui r u x) = (r, [u], \<lambda>v. v u * int (unat x))"
| "instr_sem (Mul_si r u x) = (r, [u], \<lambda>v. v u * x)"
| "instr_sem (Mul r u w) = (r, [u, w], \<lambda>v. v u * v w)"
| "instr_sem (Mul_2exp r u x) = (r, [u], \<lambda>v. v u * 2 ^ unat x)"
| "instr_sem (Addmul_ui r u x) = (r, [r, u], \<lambda>v. v r + v u * int (unat x))"
| "instr_sem (Submul_ui r u x) = (r, [r, u], \<lambda>v. v r - v u * int (unat x))"
| "instr_sem (Addmul r u w) = (r, [r, u, w], \<lambda>v. v r + v u * v w)"
| "instr_sem (Submul r u w) = (r, [r, u, w], \<lambda>v. v r - v u * v w)"
| "instr_sem (Cdiv_q r u w) = (r, [u, w], \<lambda>v. div_round GMP_DIV_CEIL (v u) (v w))"
| "instr_sem (Fdiv_q r u w) = (r, [u, w], \<lambda>v. div_round GMP_DIV_FLOOR (v u) (v w))"
| "instr_sem (Tdiv_q r u w) = (r, [u, w], \<lambda>v. div_round GMP_DIV_TRUNC (v u) (v w))"
| "instr_sem (Cdiv_r r u w) = (r, [u, w], \<lambda>v. rem_round GMP_DIV_CEIL (v u) (v w))"
| "instr_sem (Fdiv_r r u w) = (r, [u, w], \<lambda>v. rem_round GMP_DIV_FLOOR (v u) (v w))"
| "instr_sem (Tdiv_r r u w) = (r, [u, w], \<lambda>v. rem_round GMP_DIV_TRUNC (v u) (v w))"
| "instr_sem (Mod r u w) = (r, [u, w], \<lambda>v. v u mod \<bar>v w\<bar>)"
| "instr_sem (Divexact r u w) = (r, [u, w], \<lambda>v. v u div v w)"

definition eval_instr :: "instr \<Rightarrow> (nat \<Rightarrow> int) \<Rightarrow> nat \<Rightarrow> int" where
  "eval_instr i v = (case instr_sem i of (r, _, f) \<Rightarrow> v(r := f v))"

text \<open>
  An operation can be carried out if its variables are initialised, the values it reads and its result
  fit, and a constant of type \<open>long\<close> is in the range of that type; for a sum of products the product has to fit,
  and a divisor must not be 0.
\<close>

primrec instr_consts :: "instr \<Rightarrow> (nat \<Rightarrow> int) \<Rightarrow> bool" where
  "instr_consts (Set_ui r x) v \<longleftrightarrow> True"
| "instr_consts (Set_si r x) v \<longleftrightarrow> - (2 ^ 63) \<le> x \<and> x < 2 ^ 63"
| "instr_consts (Set r u) v \<longleftrightarrow> True"
| "instr_consts (Neg r u) v \<longleftrightarrow> True"
| "instr_consts (Abs r u) v \<longleftrightarrow> True"
| "instr_consts (Add_ui r u x) v \<longleftrightarrow> True"
| "instr_consts (Sub_ui r u x) v \<longleftrightarrow> True"
| "instr_consts (Ui_sub r x u) v \<longleftrightarrow> True"
| "instr_consts (Add r u w) v \<longleftrightarrow> True"
| "instr_consts (Sub r u w) v \<longleftrightarrow> True"
| "instr_consts (Mul_ui r u x) v \<longleftrightarrow> True"
| "instr_consts (Mul_si r u x) v \<longleftrightarrow> - (2 ^ 63) \<le> x \<and> x < 2 ^ 63"
| "instr_consts (Mul r u w) v \<longleftrightarrow> True"
| "instr_consts (Mul_2exp r u x) v \<longleftrightarrow> True"
| "instr_consts (Addmul_ui r u x) v \<longleftrightarrow> int_fits (v u * int (unat x))"
| "instr_consts (Submul_ui r u x) v \<longleftrightarrow> int_fits (v u * int (unat x))"
| "instr_consts (Addmul r u w) v \<longleftrightarrow> int_fits (v u * v w)"
| "instr_consts (Submul r u w) v \<longleftrightarrow> int_fits (v u * v w)"
| "instr_consts (Cdiv_q r u w) v \<longleftrightarrow> v w \<noteq> 0"
| "instr_consts (Fdiv_q r u w) v \<longleftrightarrow> v w \<noteq> 0"
| "instr_consts (Tdiv_q r u w) v \<longleftrightarrow> v w \<noteq> 0"
| "instr_consts (Cdiv_r r u w) v \<longleftrightarrow> v w \<noteq> 0"
| "instr_consts (Fdiv_r r u w) v \<longleftrightarrow> v w \<noteq> 0"
| "instr_consts (Tdiv_r r u w) v \<longleftrightarrow> v w \<noteq> 0"
| "instr_consts (Mod r u w) v \<longleftrightarrow> v w \<noteq> 0"
| "instr_consts (Divexact r u w) v \<longleftrightarrow> v w \<noteq> 0 \<and> v w dvd v u"

definition instr_enabled :: "nat set \<Rightarrow> instr \<Rightarrow> (nat \<Rightarrow> int) \<Rightarrow> bool" where
  "instr_enabled L i v \<longleftrightarrow> (case instr_sem i of (r, rs, f) \<Rightarrow>
     r \<in> L \<and> set rs \<subseteq> L \<and> (\<forall>q\<in>set rs. int_fits (v q)) \<and> int_fits (f v) \<and> instr_consts i v)"

text \<open>The divisions with one result.\<close>

lemma holding_upd_iff: "r \<in> L \<Longrightarrow> holding L T (stack s) ((zval s)(r := v)) s' \<longleftrightarrow> upd L T s r v s'"
  by (auto simp: holding_def upd_def)

lemma div_upd:
  assumes "mpz_wf L T s" "r \<in> L" "n \<in> L" "d \<in> L" "int_fits (zval s n)" "int_fits (zval s d)" "zval s d \<noteq> 0"
  shows "\<exists>s'. void (mpz_div_qr (Some r) None n d mode s) = Inr s' \<and> upd L T s r (div_round mode (zval s n) (zval s d)) s'"
    "\<exists>s'. void (mpz_div_qr None (Some r) n d mode s) = Inr s' \<and> upd L T s r (rem_round mode (zval s n) (zval s d)) s'"
    "\<exists>s'. mpz_mod r n d s = Inr s' \<and> upd L T s r (zval s n mod \<bar>zval s d\<bar>) s'"
    "zval s d dvd zval s n \<Longrightarrow> \<exists>s'. mpz_divexact r n d s = Inr s' \<and> upd L T s r (zval s n div zval s d) s'"
proof -
  note h = holdingI [OF assms(1)]
  show "\<exists>s'. void (mpz_div_qr (Some r) None n d mode s) = Inr s' \<and> upd L T s r (div_round mode (zval s n) (zval s d)) s'"
    using void_holding [OF mpz_div_qr_holding [OF h assms(3,4,7,5,6), of "Some r" None mode]] assms(2) by (simp add: holding_upd_iff)
  show "\<exists>s'. void (mpz_div_qr None (Some r) n d mode s) = Inr s' \<and> upd L T s r (rem_round mode (zval s n) (zval s d)) s'"
    using void_holding [OF mpz_div_qr_holding [OF h assms(3,4,7,5,6), of None "Some r" mode]] assms(2) by (simp add: holding_upd_iff)
  show "\<exists>s'. mpz_mod r n d s = Inr s' \<and> upd L T s r (zval s n mod \<bar>zval s d\<bar>) s'"
    using mpz_mod_holding [OF h assms(2-4,7,5,6)] assms(2) by (simp add: holding_upd_iff)
  show "zval s d dvd zval s n \<Longrightarrow> \<exists>s'. mpz_divexact r n d s = Inr s' \<and> upd L T s r (zval s n div zval s d) s'"
    using mpz_divexact_holding [OF h assms(2-4,7,5,6)] assms(2) by (simp add: holding_upd_iff)
qed

lemma run_instr_upd:
  assumes "mpz_wf L T s" "instr_enabled L i (zval s)" "instr_sem i = (r, rs, f)"
  shows "\<exists>s'. run_instr i s = Inr s' \<and> upd L T s r (f (zval s)) s'"
proof -
  have e: "r \<in> L" "set rs \<subseteq> L" "\<And>q. q \<in> set rs \<Longrightarrow> int_fits (zval s q)" "int_fits (f (zval s))" "instr_consts i (zval s)"
    using assms(2,3) by (auto simp: instr_enabled_def)
  have sz: "int (zn s q) < INT_MAX" if "q \<in> set rs" for q
    using fits_size_int [OF wf_obj [OF assms(1)] e(3)] that e(2) by blast
  note ops = mpz_set_ui_ok mpz_set_si_ok mpz_set_ok mpz_neg_ok mpz_abs_ok mpz_add_ui_ok mpz_sub_ui_ok mpz_ui_sub_ok
    mpz_add_ok mpz_sub_ok mpz_mul_ui_ok mpz_mul_si_ok mpz_mul_fits mpz_mul_2exp_fits
    mpz_addmul_ui_ok mpz_submul_ui_ok mpz_addmul_ok mpz_submul_ok div_upd
  show ?thesis
    using assms(1,3) e sz by (cases i) (auto simp: div_functions simp del: div_round.simps intro!: ops)
qed

interpretation mz: integer_variables "\<lambda>L. mpz_wf L T" zval run_instr instr_enabled eval_instr for T
proof
  fix L s i assume a: "mpz_wf L T s" "instr_enabled L i (zval s)"
  obtain r rs f where sem: "instr_sem i = (r, rs, f)" by (cases "instr_sem i")
  show "\<exists>s'. run_instr i s = Inr s' \<and> mpz_wf L T s' \<and> (\<forall>q\<in>L. zval s' q = eval_instr i (zval s) q)"
    using run_instr_upd [OF a sem] sem by (auto simp: upd_def eval_instr_def)
next
  fix L and v w :: "nat \<Rightarrow> int" and i assume "\<And>q. q \<in> L \<Longrightarrow> v q = w q"
  then show "instr_enabled L i v = instr_enabled L i w"
    by (cases i) (auto simp: instr_enabled_def)
next
  fix L and v w :: "nat \<Rightarrow> int" and i q assume "\<And>q. q \<in> L \<Longrightarrow> v q = w q" "instr_enabled L i v" "q \<in> L"
  then show "eval_instr i v q = eval_instr i w q"
    by (cases i) (auto simp: instr_enabled_def eval_instr_def)
qed

subsection \<open>Properties\<close>

text \<open>
  C25: a sequence of operations on integers computes what the same sequence computes on mathematical
  integers. This holds for every choice of variables, equal ones among them, although the operations
  move the limbs of the result while they still read their operands; the only condition is that the
  values fit.
\<close>

theorem mpz_programs_refine_integers:
  assumes "mpz_wf L T s" "enabled_all (instr_enabled L) eval_instr p (zval s)"
  shows "\<exists>s'. run_all run_instr p s = Inr s' \<and> mpz_wf L T s' \<and> (\<forall>q\<in>L. zval s' q = eval_all eval_instr p (zval s) q)"
  using assms by (rule mz.run_all_refines)

definition empty_mem :: mpz_mem where
  "empty_mem = \<lparr>limbs = (\<lambda>_. 0xc1a0), brk = 1, blocks = (\<lambda>_. None), objs = (\<lambda>_. \<lparr>mp_alloc = 0, mp_size = 0, mp_d = 0\<rparr>), stack = 3\<rparr>"

lemma empty_mem_wf: "mpz_wf {0, 1, 2} {} empty_mem"
  by (simp add: mpz_wf_def heap_ok_def obj_ok_def owners_def empty_mem_def)

lemma zval_empty: "zval empty_mem = (\<lambda>_. 0)"
  by (simp add: zval_def empty_mem_def fun_eq_iff)

definition sample_program :: "instr list" where
  "sample_program = [Set_si 0 (-5), Set_ui 1 7, Mul 0 0 1, Sub 1 0 1, Addmul 0 1 1, Neg 2 0, Fdiv_q 1 2 1]"

lemma sample_program_enabled: "enabled_all (instr_enabled {0, 1, 2}) eval_instr sample_program (zval empty_mem)"
  by (simp add: sample_program_def zval_empty instr_enabled_def eval_instr_def small_fits)

lemma sample_program_result: "eval_all eval_instr sample_program (zval empty_mem) 2 = - 1729"
  by (simp add: sample_program_def zval_empty eval_instr_def)

theorem mpz_programs_refine_integers_witness:
  "\<exists>s'. run_all run_instr sample_program empty_mem = Inr s' \<and> zval s' 2 = - 1729"
  using mpz_programs_refine_integers [OF empty_mem_wf sample_program_enabled] sample_program_result by auto

text \<open>
  C26: the memory of the integers. After any such sequence every variable with memory is the only
  owner of a block of exactly the size it states, its number of limbs is not more than that, its
  highest limb is not zero, and there is no block without an owner: no memory is lost, shared or used
  after it was freed.
\<close>

theorem mpz_programs_own_memory:
  assumes "mpz_wf L {} s" "enabled_all (instr_enabled L) eval_instr p (zval s)"
  shows "\<exists>s'. run_all run_instr p s = Inr s' \<and> dom (blocks s') = zd s' ` owners L s' \<and> inj_on (zd s') (owners L s') \<and>
    (\<forall>r\<in>owners L s'. blocks s' (zd s' r) = Some (za s' r)) \<and>
    (\<forall>r\<in>L. \<bar>zs s' r\<bar> \<le> mp_alloc (objs s' r) \<and> (zs s' r \<noteq> 0 \<longrightarrow> limbs s' (zd s' r + (zn s' r - 1)) \<noteq> 0))"
proof -
  obtain s' where s': "run_all run_instr p s = Inr s'" "mpz_wf L {} s'" using mz.run_all_refines [OF assms] by blast
  then have "obj_ok s' r" if "r \<in> L" for r using that wf_obj by blast
  then show ?thesis using s' by (intro exI [of _ s']) (auto simp: mpz_wf_def obj_ok_def owners_def)
qed

theorem mpz_programs_own_memory_witness:
  "\<exists>s'. run_all run_instr sample_program empty_mem = Inr s' \<and> dom (blocks s') = zd s' ` owners {0, 1, 2} s'"
  using mpz_programs_own_memory [OF empty_mem_wf sample_program_enabled] by blast

text \<open>
  Round trip of a machine integer. A value of type \<open>long\<close> that is assigned to a variable fits into
  a \<open>long\<close> again and is read back, also the smallest one, whose absolute value is not a \<open>long\<close>.
\<close>

theorem mpz_si_roundtrip:
  assumes "mpz_wf L T s" "r \<in> L" "- (2 ^ 63) \<le> x" "x < 2 ^ 63"
  shows "\<exists>s'. mpz_set_si r x s = Inr s' \<and> mpz_fits_slong_p s' r \<and> mpz_get_si s' r = x \<and> mpz_cmp_si s' r x = 0"
proof -
  obtain s' where s': "mpz_set_si r x s = Inr s'" "upd L T s r x s'" using mpz_set_si_ok [OF assms] by blast
  have o: "obj_ok s' r" "zval s' r = x" using updD [OF s'(2)] assms(2) wf_obj by blast+
  then have "mpz_fits_slong_p s' r" using assms(3,4) by (simp add: mpz_fits_slong_ok)
  then show ?thesis using s'(1) o mpz_get_si_ok [OF o(1)] mpz_cmp_si_ok [OF o(1) assms(3,4)] by simp
qed

theorem mpz_si_roundtrip_witness:
  "\<exists>s'. mpz_set_si 0 (- 9223372036854775808) empty_mem = Inr s' \<and> mpz_get_si s' 0 = - 9223372036854775808"
  using mpz_si_roundtrip [OF empty_mem_wf, of 0 "- 9223372036854775808"] by auto

text \<open>
  Comparison. \<open>mpz_cmp\<close>, which looks at the sizes first, gives the sign of the difference of two
  integers, and \<open>mpz_cmpabs\<close> that of their absolute values.
\<close>

theorem mpz_cmp_sign:
  assumes "mpz_wf L T s" "a \<in> L" "b \<in> L"
  shows "mpz_cmp s a b = sgn (zval s a - zval s b) \<and> mpz_cmpabs s a b = sgn (\<bar>zval s a\<bar> - \<bar>zval s b\<bar>)"
  using mpz_cmp_ok mpz_cmpabs_ok wf_obj [OF assms(1)] assms(2,3) by blast

theorem mpz_cmp_sign_witness: "mpz_cmp empty_mem 0 1 = 0"
  using mpz_cmp_sign [OF empty_mem_wf, of 0 1] by (simp add: zval_empty)

end
