(* ===== verification/Mpz_Div_Ui.thy ===== *)
theory Mpz_Div_Ui
  imports Mpz_Div
begin

section \<open>Division of integers by machine integers\<close>

text \<open>
  The functions of \<open>mini-gmp.c\<close> that divide by an \<open>unsigned long\<close>. The quotient is computed in place, so that its variable holds
  an unfinished value while the remainder is stored; the remainder is returned as well.
\<close>

declare of_nat_unat [simp del]

subsection \<open>Definitions\<close>

definition mpz_div_qr_ui ::
    "nat option \<Rightarrow> nat option \<Rightarrow> nat \<Rightarrow> u64 \<Rightarrow> mpz_div_round_mode \<Rightarrow> mpz_mem \<Rightarrow> (u64 \<times> mpz_mem) res" where
  "mpz_div_qr_ui q r n d mode s =
     (let ns = zs s n in
      if ns = 0 then
        bindE (given q (\<lambda>q s. Inr (set_size q 0 s)) s) (\<lambda>s.
        bindE (given r (\<lambda>r s. Inr (set_size r 0 s)) s) (\<lambda>s. Inr (0, s)))
      else
        let qn = nat \<bar>ns\<bar> in
        bindE (case q of None \<Rightarrow> Inr (None, s) | Some q \<Rightarrow> bindE (MPZ_REALLOC q (int qn) s) (\<lambda>(qp, s). Inr (Some qp, s))) (\<lambda>(qp, s).
        bindE (mpn_div_qr_1 qp (zd s n) qn d s) (\<lambda>(rl, s).
        bindE (c_assert (rl < d)) (\<lambda>_.
        let rs = of_bool (rl > 0); rs = (if ns < 0 then - rs else rs) in
        bindE
          (if rl > 0 \<and> (mode = GMP_DIV_FLOOR \<and> ns < 0 \<or> mode = GMP_DIV_CEIL \<and> ns \<ge> 0) then
             bindE (given qp (\<lambda>qp s. bindE (bindE (mpn_add_1 qp qp qn 1 (limbs s)) gmp_assert_nocarry) (\<lambda>m. Inr (s\<lparr>limbs := m\<rparr>))) s) (\<lambda>s.
             Inr (d - rl, - rs, s))
           else Inr (rl, rs, s)) (\<lambda>(rl, rs, s).
        bindE (given r (\<lambda>r s. bindE (MPZ_REALLOC r 1 s) (\<lambda>(rp, s). Inr (set_size r rs (put_limb rp rl s)))) s) (\<lambda>s.
        bindE (given q (\<lambda>q s.
            let p = the qp; k = int qn - of_bool (limbs s (p + (qn - 1)) = 0) in
            bindE (c_assert (k = 0 \<or> limbs s (p + (nat k - 1)) > 0)) (\<lambda>_. Inr (set_size q (if ns < 0 then - k else k) s))) s) (\<lambda>s.
        Inr (rl, s))))))))"

definition mpz_cdiv_qr_ui :: "nat \<Rightarrow> nat \<Rightarrow> nat \<Rightarrow> u64 \<Rightarrow> mpz_mem \<Rightarrow> (u64 \<times> mpz_mem) res" where
  "mpz_cdiv_qr_ui q r n d s = mpz_div_qr_ui (Some q) (Some r) n d GMP_DIV_CEIL s"

definition mpz_fdiv_qr_ui :: "nat \<Rightarrow> nat \<Rightarrow> nat \<Rightarrow> u64 \<Rightarrow> mpz_mem \<Rightarrow> (u64 \<times> mpz_mem) res" where
  "mpz_fdiv_qr_ui q r n d s = mpz_div_qr_ui (Some q) (Some r) n d GMP_DIV_FLOOR s"

definition mpz_tdiv_qr_ui :: "nat \<Rightarrow> nat \<Rightarrow> nat \<Rightarrow> u64 \<Rightarrow> mpz_mem \<Rightarrow> (u64 \<times> mpz_mem) res" where
  "mpz_tdiv_qr_ui q r n d s = mpz_div_qr_ui (Some q) (Some r) n d GMP_DIV_TRUNC s"

definition mpz_cdiv_q_ui :: "nat \<Rightarrow> nat \<Rightarrow> u64 \<Rightarrow> mpz_mem \<Rightarrow> (u64 \<times> mpz_mem) res" where
  "mpz_cdiv_q_ui q n d s = mpz_div_qr_ui (Some q) None n d GMP_DIV_CEIL s"

definition mpz_fdiv_q_ui :: "nat \<Rightarrow> nat \<Rightarrow> u64 \<Rightarrow> mpz_mem \<Rightarrow> (u64 \<times> mpz_mem) res" where
  "mpz_fdiv_q_ui q n d s = mpz_div_qr_ui (Some q) None n d GMP_DIV_FLOOR s"

definition mpz_tdiv_q_ui :: "nat \<Rightarrow> nat \<Rightarrow> u64 \<Rightarrow> mpz_mem \<Rightarrow> (u64 \<times> mpz_mem) res" where
  "mpz_tdiv_q_ui q n d s = mpz_div_qr_ui (Some q) None n d GMP_DIV_TRUNC s"

definition mpz_cdiv_r_ui :: "nat \<Rightarrow> nat \<Rightarrow> u64 \<Rightarrow> mpz_mem \<Rightarrow> (u64 \<times> mpz_mem) res" where
  "mpz_cdiv_r_ui r n d s = mpz_div_qr_ui None (Some r) n d GMP_DIV_CEIL s"

definition mpz_fdiv_r_ui :: "nat \<Rightarrow> nat \<Rightarrow> u64 \<Rightarrow> mpz_mem \<Rightarrow> (u64 \<times> mpz_mem) res" where
  "mpz_fdiv_r_ui r n d s = mpz_div_qr_ui None (Some r) n d GMP_DIV_FLOOR s"

definition mpz_tdiv_r_ui :: "nat \<Rightarrow> nat \<Rightarrow> u64 \<Rightarrow> mpz_mem \<Rightarrow> (u64 \<times> mpz_mem) res" where
  "mpz_tdiv_r_ui r n d s = mpz_div_qr_ui None (Some r) n d GMP_DIV_TRUNC s"

definition mpz_cdiv_ui :: "nat \<Rightarrow> u64 \<Rightarrow> mpz_mem \<Rightarrow> (u64 \<times> mpz_mem) res" where
  "mpz_cdiv_ui n d s = mpz_div_qr_ui None None n d GMP_DIV_CEIL s"

definition mpz_fdiv_ui :: "nat \<Rightarrow> u64 \<Rightarrow> mpz_mem \<Rightarrow> (u64 \<times> mpz_mem) res" where
  "mpz_fdiv_ui n d s = mpz_div_qr_ui None None n d GMP_DIV_FLOOR s"

definition mpz_tdiv_ui :: "nat \<Rightarrow> u64 \<Rightarrow> mpz_mem \<Rightarrow> (u64 \<times> mpz_mem) res" where
  "mpz_tdiv_ui n d s = mpz_div_qr_ui None None n d GMP_DIV_TRUNC s"

definition mpz_mod_ui :: "nat \<Rightarrow> nat \<Rightarrow> u64 \<Rightarrow> mpz_mem \<Rightarrow> (u64 \<times> mpz_mem) res" where
  "mpz_mod_ui r n d s = mpz_div_qr_ui None (Some r) n d GMP_DIV_FLOOR s"

definition mpz_divexact_ui :: "nat \<Rightarrow> nat \<Rightarrow> u64 \<Rightarrow> mpz_mem \<Rightarrow> mpz_mem res" where
  "mpz_divexact_ui q n d s =
     bindE (mpz_div_qr_ui (Some q) None n d GMP_DIV_TRUNC s) (\<lambda>(cy, s). bindE (c_assert (cy = 0)) (\<lambda>_. Inr s))"

definition mpz_divisible_ui_p :: "nat \<Rightarrow> u64 \<Rightarrow> mpz_mem \<Rightarrow> (bool \<times> mpz_mem) res" where
  "mpz_divisible_ui_p n d s = bindE (mpz_div_qr_ui None None n d GMP_DIV_TRUNC s) (\<lambda>(x, s). Inr (x = 0, s))"

definition mpz_gcd_ui :: "nat option \<Rightarrow> nat \<Rightarrow> u64 \<Rightarrow> mpz_mem \<Rightarrow> (u64 \<times> mpz_mem) res" where
  "mpz_gcd_ui g u v s =
     (if v = 0 then bindE (given g (\<lambda>g. mpz_abs g u) s) (\<lambda>s. Inr (v, s))
      else
        let un = zn s u in
        bindE (if un \<noteq> 0 then bindE (mpn_div_qr_1 None (zd s u) un v s) (\<lambda>(r, s). bindE (mpn_gcd_11 r v) (\<lambda>v. Inr (v, s)))
               else Inr (v, s)) (\<lambda>(v, s).
        bindE (given g (\<lambda>g. mpz_set_ui g v) s) (\<lambda>s. Inr (v, s))))"

subsection \<open>Division by one limb\<close>

lemma power_of_two:
  fixes d :: u64
  assumes "d \<noteq> 0" "d AND (d - 1) = 0"
  shows "\<exists>k<64. unat d = 2 ^ k"
proof -
  obtain m k where k: "unat d = m * 2 ^ k" "odd m" 
    by (rule power_two_split [of "unat d"]) (use assms(1) in \<open>auto simp: unat_gt_0\<close>)
  have "d AND - d = d"
  proof -
    have "NOT (d - 1) = - d" by (simp add: not_eq_complement)
    then have "d AND - d = d AND NOT (d - 1)" by simp
    also have "\<dots> = d"
    proof (rule bit_eqI)
      fix n
      have "bit d n \<Longrightarrow> \<not> bit (d - 1) n" using assms(2) by (metis bit_and_iff bit_0_eq bot_apply bot_bool_def)
      then show "bit (d AND NOT (d - 1)) n = bit d n" by (auto simp: bit_and_iff bit_not_iff dest: bit_imp_le_length)
    qed
    finally show ?thesis .
  qed
  then have u: "unat d = 2 ^ k" using and_minus_self [OF k] by simp
  moreover have "k < 64"
  proof (rule ccontr)
    assume "\<not> k < 64"
    then have "(2 :: nat) ^ 64 \<le> 2 ^ k" by (intro power_increasing) auto
    then show False using u unat64_less [of d] by simp
  qed
  ultimately show ?thesis by blast
qed

lemma mpn_div_qr_1_ok:
  assumes "heap_ok s" "1 \<le> nn" "np + nn \<le> brk s" "d \<noteq> 0"
    and q: "\<And>p. qp = Some p \<Longrightarrow> p + nn \<le> brk s \<and> (p = np \<or> apart p nn np nn)"
  shows "\<exists>r s'. mpn_div_qr_1 qp np nn d s = Inr (r, s') \<and> unat r = lval (limbs s) np nn mod unat d \<and>
    qval qp nn (lval (limbs s) np nn div unat d) (limbs s') \<and> scratch qp nn np 0 s s'"
proof (cases "d AND (d - 1) = 0")
  case False
  obtain iv where iv: "mpn_div_qr_1_invert \<lparr>inv_shift = 0, inv_d1 = 0, inv_d0 = 0, inv_di = 0\<rparr> d = Inr iv" "normal (unat d) 1 iv"
    using mpn_div_qr_1_invert_ok [OF assms(4)] by blast
  have "qfree qp np nn" using q by (auto simp: qfree_def bwd_def apart_def)
  from mpn_div_qr_1_preinv_ok [OF assms(1-3) iv(2) this] q obtain Q r s' where
    p: "mpn_div_qr_1_preinv qp np nn iv s = Inr (r, s')" "Q * unat d + unat r = lval (limbs s) np nn" "unat r < unat d"
      "qval qp nn Q (limbs s')" "scratch qp nn np 0 s s'" by blast
  have "Q = lval (limbs s) np nn div unat d" "unat r = lval (limbs s) np nn mod unat d" using p(2,3) by (auto simp flip: p(2))
  then show ?thesis using False assms(4) iv(1) p by (auto simp: mpn_div_qr_1_def)
next
  case True
  obtain k where k: "k < 64" "unat d = 2 ^ k" using power_of_two [OF assms(4) True] by blast
  let ?N = "lval (limbs s) np nn"
  obtain j where j: "nn = Suc j" using assms(2) by (cases nn) auto
  have dm: "d - 1 = mask k"
  proof -
    have "2 ^ k < limb_base" using unat64_less [of d] k(2) by simp
    then have "d = 2 ^ k" using k unat_shift_fits [of 1 k] by (simp add: word_unat_eq_iff push_bit_of_1 power_strict_increasing)
    then show ?thesis by (simp add: mask_eq_exp_minus_1)
  qed
  have "(2 :: nat) ^ k dvd 2 ^ 64" using k(1) by (intro le_imp_power_dvd) simp
  then have "BB mod 2 ^ k = 0" unfolding BB_def by (simp only: mod_eq_0_iff_dvd)
  then have "?N mod 2 ^ k = unat (limbs s np) mod 2 ^ k" unfolding j lval_low by (metis add.right_neutral mod_add_right_eq mod_mult_left_eq mult_zero_left mod_0)
  then have r: "unat (limbs s np AND (d - 1)) = ?N mod unat d"
    unfolding dm k(2) take_bit_eq_mask [symmetric] unsigned_take_bit_eq by (simp only: take_bit_eq_mod)
  have d0: "0 < unat d" using assms(4) by (simp add: unat_gt_0)
  show ?thesis
  proof (cases qp)
    case None
    then show ?thesis using True d0 r by (auto simp: mpn_div_qr_1_def scratch_def qval_def)
  next
    case (Some p)
    have f: "fwd p np nn" using q [OF Some] by (auto simp: fwd_def apart_def)
    show ?thesis
    proof (cases "d \<le> 1")
      case one: True
      then have d: "unat d = 1" using assms(4) by (simp add: word_le_nat_alt) (metis One_nat_def le_SucE le_zero_eq unat_eq_zero)
      have "lval (mpn_copyi p np nn (limbs s)) p nn = ?N" using mpn_copyi_ok [OF f order_refl, of "limbs s"] by (intro lval_cong) auto
      then show ?thesis using True d0 r one d Some mpn_copyi_ok [OF f order_refl, of "limbs s"]
        by (auto simp: mpn_div_qr_1_def scratch_def qval_def same_outside_def)
    next
      case big: False
      then have "k \<noteq> 0" using k(2) by (cases "k = 0") (simp_all add: word_le_nat_alt)
      moreover have "gmp_ctz d = Some k" using gmp_ctz_ok [of d 1 k] k(2) by simp
      moreover obtain x m' where "mpn_rshift p np nn k (limbs s) = Inr (x, m')" "same_outside p nn (limbs s) m'" "lval m' p nn = ?N div 2 ^ k"
        using mpn_rshift_ok [OF assms(2) _ k(1) f] \<open>k \<noteq> 0\<close> by (metis One_nat_def Suc_leI neq0_conv)
      ultimately show ?thesis using True d0 r big Some k(2)
        by (auto simp: mpn_div_qr_1_def scratch_def qval_def same_outside_def returns_def)
    qed
  qed
qed

subsection \<open>Rounding\<close>

lemma ui_round:
  assumes "0 < D" "up \<longleftrightarrow> n mod int D \<noteq> 0 \<and> (mode = GMP_DIV_FLOOR \<and> n < 0 \<or> mode = GMP_DIV_CEIL \<and> n \<ge> 0)"
    and N: "\<bar>n\<bar> = int N"
  shows "div_round mode n (int D) = (if n < 0 then - int (N div D + of_bool up) else int (N div D + of_bool up))"
    "rem_round mode n (int D) = (if (n < 0) \<noteq> up then - int (if up then D - N mod D else N mod D) else int (if up then D - N mod D else N mod D))"
proof -
  have d: "int D \<noteq> 0" using assms(1) by simp
  have "n = 0 \<Longrightarrow> N = 0" using N by simp
  then have nd: "\<bar>n\<bar> div \<bar>int D\<bar> = int (N div D)" "\<bar>n\<bar> mod \<bar>int D\<bar> = int (N mod D)" unfolding N by (simp_all add: zdiv_int zmod_int)
  have f: "div_fix mode n (int D) = (if up then if n < 0 then - 1 else 1 else 0)"
    using assms(1) by (cases mode) (auto simp: div_fix_def assms(2) mult_less_0_iff zero_less_mult_iff dvd_eq_mod_eq_0 not_less order_le_less)
  have le: "int (D - N mod D) = int D - int (N mod D)" using assms(1) by (simp add: of_nat_diff less_imp_le)
  show "div_round mode n (int D) = (if n < 0 then - int (N div D + of_bool up) else int (N div D + of_bool up))"
    unfolding round_fix [OF d, of mode n] div_round.simps nd f using assms(1) N by (auto simp: sgn_if)
  show "rem_round mode n (int D) = (if (n < 0) \<noteq> up then - int (if up then D - N mod D else N mod D) else int (if up then D - N mod D else N mod D))"
    unfolding rem_fix [OF d, of mode n] nd f using N by (auto simp: sgn_if le)
qed

subsection \<open>Storing the results\<close>

text \<open>One limb is stored in \<open>r\<close>; no limb moves, as a variable without memory has no limbs.\<close>

lemma store_limb_holding:
  assumes h: "holding L T k f s" and r: "r \<in> L" and rs: "rs = (if b then - of_bool (rl > 0) else of_bool (rl > 0))"
  shows "\<exists>s1. MPZ_REALLOC r 1 s = Inr (zd s1 r, s1) \<and> limbs s1 = limbs s \<and> (\<forall>x. x \<noteq> r \<longrightarrow> objs s1 x = objs s x) \<and>
    (\<forall>x\<in>L. x \<noteq> r \<longrightarrow> apart (zd s1 r) 1 (zd s x) (za s x)) \<and>
    holding L T k (f(r := if b then - int (unat rl) else int (unat rl))) (set_size r rs (put_limb (zd s1 r) rl s1))"
proof -
  obtain s1 where s1: "MPZ_REALLOC r 1 s = Inr (zd s1 r, s1)" "grown L T s r (nat 1) s1" using MPZ_REALLOC_ok [OF holdingD(1) [OF h] r, of 1] by auto
  have g: "mpz_wf L T s1" "1 \<le> za s1 r" "\<forall>x. x \<noteq> r \<longrightarrow> objs s1 x = objs s x" using s1(2) by (simp_all add: grown_def)
  have a: "0 \<le> mp_alloc (objs s r)" using holdingD(4) [OF h r] by (simp add: obj_ok_def)
  have l: "limbs s1 = limbs s"
  proof (cases "mp_alloc (objs s r) = 0")
    case True
    then show ?thesis using s1(1) by (auto simp: MPZ_REALLOC_def mpz_realloc_def gmp_xalloc_limbs_def Let_def set_size_def set_obj_def)
  next
    case False
    then show ?thesis using s1(1) a by (auto simp: MPZ_REALLOC_def)
  qed
  have ap: "apart (zd s1 r) 1 (zd s x) (za s x)" if "x \<in> L" "x \<noteq> r" for x
    using apart_mono [OF wf_apart [OF g(1) r that] g(2) order_refl] g(3) that(2) by simp
  have so: "same_outside (zd s1 r) (nat 1) (limbs s1) ((limbs s1)(zd s1 r := rl))" by (simp add: same_outside_def)
  have "\<bar>rs\<bar> \<le> int (nat 1)" "rs \<noteq> 0 \<Longrightarrow> ((limbs s1)(zd s1 r := rl)) (zd s1 r + (nat \<bar>rs\<bar> - 1)) \<noteq> 0" by (auto simp: rs split: if_splits)
  then have u: "upd L T s r (sgn rs * int (lval ((limbs s1)(zd s1 r := rl)) (zd s1 r) (nat \<bar>rs\<bar>))) (set_size r rs (put_limb (zd s1 r) rl s1))"
    unfolding put_limb_def by (rule finish [OF s1(2) r so])
  moreover have "sgn rs * int (lval ((limbs s1)(zd s1 r := rl)) (zd s1 r) (nat \<bar>rs\<bar>)) = (if b then - int (unat rl) else int (unat rl))"
    by (cases "rl = 0") (auto simp: rs unat_gt_0)
  ultimately show ?thesis using s1(1) l g(3) ap holding_upd [OF h u] by auto
qed

lemma realloc_other:
  assumes "y \<noteq> x"
  shows "MPZ_REALLOC y n (set_size x c s) = bindE (MPZ_REALLOC y n s) (\<lambda>(p, s). Inr (p, set_size x c s))"
  using assms by (auto simp: MPZ_REALLOC_def mpz_realloc_def gmp_xalloc_limbs_def gmp_xrealloc_limbs_def set_size_def set_obj_def Let_def
      c_assert_def fun_upd_twist split: option.splits)

text \<open>The remainder is stored while the size of the quotient \<open>x\<close> is not yet set.\<close>

lemma store_remainder:
  assumes h: "holding L T k g (if q = None then s else set_size (the q) c s)"
    and q: "set_option q \<subseteq> L" "set_option r \<subseteq> L" "q = None \<or> q \<noteq> r" and rs: "rs = (if b then - of_bool (rl > 0) else of_bool (rl > 0))"
  shows "\<exists>s'. given r (\<lambda>r s. bindE (MPZ_REALLOC r 1 s) (\<lambda>(rp, s). Inr (set_size r rs (put_limb rp rl s)))) s = Inr s' \<and>
    holding L T k (put r (if b then - int (unat rl) else int (unat rl)) g) (if q = None then s' else set_size (the q) c s') \<and>
    (\<forall>x i. q = Some x \<and> i < za s x \<longrightarrow> limbs s' (zd s x + i) = limbs s (zd s x + i))"
proof (cases r)
  case None
  then show ?thesis using h by (simp add: given_def)
next
  case (Some y)
  then have y: "y \<in> L" using q(2) by simp
  show ?thesis
  proof (cases q)
    case None
    then show ?thesis using store_limb_holding [OF _ y rs, of T k g s] h Some by (auto simp: given_def)
  next
    case qx: (Some x)
    then have x: "x \<in> L" "y \<noteq> x" using q Some by auto
    have h': "holding L T k g (set_size x c s)" using h qx by simp
    from store_limb_holding [OF h' y rs] obtain s1 where
      s1: "MPZ_REALLOC y 1 (set_size x c s) = Inr (zd s1 y, s1)" "limbs s1 = limbs s" "apart (zd s1 y) 1 (zd s x) (za s x)"
        "holding L T k (g(y := if b then - int (unat rl) else int (unat rl))) (set_size y rs (put_limb (zd s1 y) rl s1))"
      using x by auto
    then obtain s2 where s2: "MPZ_REALLOC y 1 s = Inr (zd s1 y, s2)" "s1 = set_size x c s2"
      unfolding realloc_other [OF x(2)] by (auto simp: bindE_Inr_iff)
    let ?s = "set_size y rs (put_limb (zd s1 y) rl s2)"
    have c: "set_size y rs (put_limb (zd s1 y) rl s1) = set_size x c ?s"
      using x(2) unfolding s2(2) by (simp add: set_size_def set_obj_def put_limb_def fun_upd_twist)
    moreover have "limbs ?s (zd s x + i) = limbs s (zd s x + i)" if "i < za s x" for i
      using s1(2,3) s2(2) that by (auto simp: put_limb_def apart_def)
    ultimately show ?thesis using s2(1) s1(4) qx Some by (simp add: given_def)
  qed
qed

text \<open>The quotient is rounded up in place; this gives no carry.\<close>

lemma round_up_quotient:
  assumes "scratch qp nn np 0 s s2" "qval qp nn (N div D) (limbs s2)" "0 < nn" "N < BB ^ nn" "N mod D \<noteq> 0"
    and b: "\<And>p. qp = Some p \<Longrightarrow> p + nn \<le> brk s"
  shows "\<exists>s3. given qp (\<lambda>qp s. bindE (bindE (mpn_add_1 qp qp nn 1 (limbs s)) gmp_assert_nocarry) (\<lambda>m. Inr (s\<lparr>limbs := m\<rparr>))) s2 = Inr s3 \<and>
    qval qp nn (N div D + 1) (limbs s3) \<and> scratch qp nn np 0 s s3"
proof (cases qp)
  case None
  then show ?thesis using assms(1) by (simp add: given_def qval_def)
next
  case (Some p)
  obtain cy m where l: "add_1_loop p p 1 nn (limbs s2) = (cy, m)" by fastforce
  note a = add_1_loop_ok [OF _ order_refl l]
  have v: "lval m p nn + unat cy * BB ^ nn = N div D + 1" "same_outside p nn (limbs s2) m"
    using a assms(2) Some by (auto simp: fwd_def qval_def)
  have "N div D + 1 \<le> N"
  proof -
    have "D \<noteq> 1" "0 < N" using assms(5) by (auto intro: ccontr)
    then have "N div D < N" using assms(5) by (cases "D = 0") auto
    then show ?thesis by simp
  qed
  then have "unat cy * BB ^ nn < 1 * BB ^ nn" using v(1) assms(4) unfolding mult_1 by linarith
  then have "cy = 0" by (simp only: mult_less_cancel2) (simp add: unat_eq_zero)
  then show ?thesis using Some l v assms(1,3)
    by (auto simp: given_def mpn_add_1_def gmp_assert_nocarry_def qval_def scratch_def same_outside_def)
qed

lemma scratch_holding:
  assumes "holding L T k f s" "scratch None nn np 0 s s3"
  shows "holding L T k f s3"
proof -
  have "a < np \<or> np \<le> a" for a by linarith
  then have z: "s3 = s\<lparr>brk := brk s3, limbs := limbs s3\<rparr>" "brk s \<le> brk s3" "\<And>a. a < brk s \<Longrightarrow> limbs s3 a = limbs s a"
    using assms(2) by (auto simp: scratch_def)
  have "holding L T k f (s\<lparr>brk := brk s3, limbs := limbs s3\<rparr>)"
    using wf_raised [OF holdingD(1) [OF assms(1)] z(2,3)] assms(1) by (simp add: holding_def)
  then show ?thesis using z(1) by simp
qed

lemma store_quotient:
  assumes h: "holding L T k f s" and z: "scratch (map_option (zd s) q) nn np 0 s s3" and v: "qval (map_option (zd s) q) nn X (limbs s3)"
    and q: "\<And>x. q = Some x \<Longrightarrow> x \<in> L \<and> nn \<le> za s x" and n: "0 < nn" "2 \<le> nn \<Longrightarrow> BB ^ (nn - 2) \<le> X"
    and kq: "\<And>x. q = Some x \<Longrightarrow> kq = nn - of_bool (limbs s3 (zd s x + (nn - 1)) = 0)"
  shows "holding L T k (put q (if b then - int X else int X) f) (if q = None then s3 else set_size (the q) (if b then - int kq else int kq) s3)"
    "\<And>x. q = Some x \<Longrightarrow> kq = 0 \<or> limbs s3 (zd s x + (kq - 1)) \<noteq> 0"
proof -
  have t: "lval (limbs s3) (zd s x) kq = X \<and> (kq \<noteq> 0 \<longrightarrow> limbs s3 (zd s x + (kq - 1)) \<noteq> 0) \<and> kq \<le> nn" if x: "q = Some x" for x
    using quotient_top [OF n(1) _ n(2), of "limbs s3" "zd s x"] v unfolding kq [OF x] by (auto simp: qval_def x)
  then show "kq = 0 \<or> limbs s3 (zd s x + (kq - 1)) \<noteq> 0" if "q = Some x" for x using that by blast
  show "holding L T k (put q (if b then - int X else int X) f) (if q = None then s3 else set_size (the q) (if b then - int kq else int kq) s3)"
  proof (cases q)
    case None
    then show ?thesis using scratch_holding [OF h] z by simp
  next
    case (Some x)
    note x = q [OF Some] and t = t [OF Some]
    have "a < np \<or> np \<le> a" for a by linarith
    then have "scratch (map_option (\<lambda>_. zd s 0) (None :: nat option)) 0 (zd s x) nn s s3" using z Some by (simp add: scratch_def)
    from divided_stored [OF holdingD(1) [OF h] conjunct1 [OF x] conjunct2 [OF x] this, where kr = kq and br = b, OF _ _ _ _ refl refl refl] t
    have "holding L T (stack s) (\<lambda>y. if y = x then (if b then - int X else int X) else zval s y) (set_size x (if b then - int kq else int kq) s3)"
      unfolding conjunct1 [OF t, symmetric] by (simp cong: if_cong)
    from holding_cong [OF this [unfolded holdingD(3) [OF h]], of "f(x := if b then - int X else int X)"]
    show ?thesis using holdingD(2) [OF h] Some by auto
  qed
qed

lemma mpz_div_qr_ui_holding:
  assumes h: "holding L T k f s" and n: "n \<in> L" "d \<noteq> 0" and qr: "set_option q \<subseteq> L" "set_option r \<subseteq> L" "q = None \<or> q \<noteq> r"
  shows "\<exists>rl s'. mpz_div_qr_ui q r n d mode s = Inr (rl, s') \<and> int (unat rl) = \<bar>rem_round mode (f n) (int (unat d))\<bar> \<and>
    holding L T k (put q (div_round mode (f n) (int (unat d))) (put r (rem_round mode (f n) (int (unat d))) f)) s'"
proof (cases "f n = 0")
  case True
  obtain s1 where s1: "given q (\<lambda>q s. Inr (set_size q 0 s)) s = Inr s1" "holding L T k (put q 0 f) s1"
    using given_holding_self [OF h, of q "\<lambda>q s. Inr (set_size q 0 s)" 0] set_size_0_holding [OF h] qr(1) by auto
  obtain s2 where s2: "given r (\<lambda>r s. Inr (set_size r 0 s)) s1 = Inr s2" "holding L T k (put r 0 (put q 0 f)) s2"
    using given_holding_self [OF s1(2), of r "\<lambda>q s. Inr (set_size q 0 s)" 0] set_size_0_holding [OF s1(2)] qr(2) by auto
  have "div_round mode 0 (int (unat d)) = 0" by (cases mode) simp_all
  moreover have "put r 0 (put q 0 f) = put q 0 (put r 0 f)" by (cases q; cases r) (auto simp: fun_upd_twist)
  moreover have "zs s n = 0" using holding_zero_iff [OF h n(1)] True by simp
  ultimately show ?thesis using True s1(1) s2 by (simp add: mpz_div_qr_ui_def Let_def rem_round_def)
next
  case False
  define nn N D up where "nn = zn s n" and "N = zabs s n" and "D = unat d"
    and "up \<longleftrightarrow> N mod D \<noteq> 0 \<and> (mode = GMP_DIV_FLOOR \<and> f n < 0 \<or> mode = GMP_DIV_CEIL \<and> f n \<ge> 0)"
  have zn: "zs s n \<noteq> 0" using holding_zero_iff [OF h n(1)] False by simp
  have sg: "zs s n < 0 \<longleftrightarrow> f n < 0" "zs s n \<ge> 0 \<longleftrightarrow> f n \<ge> 0" using holding_sgn [OF h n(1)] by (metis sgn_less, metis sgn_less not_less)
  have N: "\<bar>f n\<bar> = int N" "BB ^ (nn - 1) \<le> N" "N < BB ^ nn" "0 < nn" "int nn \<le> INT_MAX"
    using holding_abs [OF h n(1)] zabs_pos [OF holdingD(4) [OF h n(1)] zn] zabs_less [of s n] zn obj_sizes(3) [OF holdingD(4) [OF h n(1)]]
    by (simp_all add: N_def nn_def)
  have D: "0 < D" "D < BB ^ 1" using n(2) by (simp_all add: D_def unat_gt_0)
  obtain s1 where s1: "(case q of None \<Rightarrow> Inr (None, s) | Some q \<Rightarrow> bindE (MPZ_REALLOC q (int nn) s) (\<lambda>(qp, s). Inr (Some qp, s))) = Inr (map_option (zd s1) q, s1)"
    "holding L T k f s1" "\<And>x. q = Some x \<Longrightarrow> nn \<le> za s1 x"
  proof (cases q)
    case None
    then show ?thesis using h that by simp
  next
    case (Some x)
    then obtain s1 where m: "MPZ_REALLOC x (int nn) s = Inr (zd s1 x, s1)" and g: "grown L T s x nn s1"
      using MPZ_REALLOC_ok [OF holdingD(1) [OF h] _ N(5), of x] qr(1) by auto
    have "nn \<le> za s1 x" using g by (simp add: grown_def)
    then show ?thesis using that [of s1] grown_holding [OF h g] m Some by simp
  qed
  note w1 = holdingD(1) [OF s1(2)]
  have z1: "zn s1 n = nn" "lval (limbs s1) (zd s1 n) nn = N"
    using holding_size [OF s1(2) n(1) h n(1)] holding_abs [OF s1(2) n(1)] N(1) by (simp_all add: nn_def zabs_def)
  have qx: "x \<in> L \<and> nn \<le> za s1 x" if "q = Some x" for x using that qr(1) s1(3) by auto
  have reg: "p + nn \<le> brk s1 \<and> (p = zd s1 n \<or> apart p nn (zd s1 n) nn)" if p: "map_option (zd s1) q = Some p" for p
  proof -
    obtain x where x: "q = Some x" "p = zd s1 x" using p by auto
    have "zn s1 n \<le> za s1 n" by (rule obj_sizes(1) [OF holdingD(4) [OF s1(2) n(1)]])
    then show ?thesis using wf_below(2) [OF w1, of x] qx [OF x(1)] wf_apart [OF w1 _ n(1), of x] apart_mono [of p "za s1 x" "zd s1 n" "za s1 n" nn nn] z1(1) x(2)
      by (cases "n = x") auto
  qed
  obtain rl s2 where s2: "mpn_div_qr_1 (map_option (zd s1) q) (zd s1 n) nn d s1 = Inr (rl, s2)" "unat rl = N mod D"
      "qval (map_option (zd s1) q) nn (N div D) (limbs s2)" "scratch (map_option (zd s1) q) nn (zd s1 n) 0 s1 s2"
    using mpn_div_qr_1_ok [of s1 nn "zd s1 n" d "map_option (zd s1) q"] reg N(4) n(2) wf_below(3) [OF w1 n(1)] w1 z1 by (auto simp: mpz_wf_def D_def)
  define b qp rs where "b \<longleftrightarrow> zs s n < 0" and "qp = map_option (zd s1) q" and "rs = (if b then - of_bool (rl > 0) else of_bool (rl > 0) :: int)"
  define rl3 rs3 where "rl3 = (if up then d - rl else rl)" and "rs3 = (if up then - rs else rs)"
  have lt: "unat rl < D" using s2(2) D by simp
  have rl3: "unat rl3 = (if up then D - N mod D else N mod D)" using lt unat_sub [of rl d] s2(2) by (simp add: rl3_def D_def word_le_nat_alt)
  have rs3: "rs3 = (if b \<noteq> up then - of_bool (rl3 > 0) else of_bool (rl3 > 0))"
  proof -
    have "up \<Longrightarrow> rl > 0" using s2(2) by (auto simp: up_def)
    moreover have "up \<Longrightarrow> rl3 > 0" using rl3 lt s2(2) by simp
    ultimately show ?thesis by (auto simp: rs3_def rs_def rl3_def)
  qed
  have upc: "rl > 0 \<and> (mode = GMP_DIV_FLOOR \<and> zs s n < 0 \<or> mode = GMP_DIV_CEIL \<and> zs s n \<ge> 0) \<longleftrightarrow> up"
    using s2(2) sg by (simp add: up_def)
  obtain s3 where s3: "(if up then bindE (given qp (\<lambda>qp s. bindE (bindE (mpn_add_1 qp qp nn 1 (limbs s)) gmp_assert_nocarry) (\<lambda>m. Inr (s\<lparr>limbs := m\<rparr>))) s2) (\<lambda>s. Inr (d - rl, - rs, s))
      else Inr (rl, rs, s2)) = Inr (rl3, rs3, s3)" "qval qp nn (N div D + of_bool up) (limbs s3)" "scratch qp nn (zd s1 n) 0 s1 s3"
  proof (cases up)
    case False
    then show ?thesis using that s2(3,4) by (simp add: rl3_def rs3_def qp_def)
  next
    case True
    then have "N mod D \<noteq> 0" by (simp add: up_def)
    from round_up_quotient [OF s2(4,3) N(4,3) this] reg True show ?thesis using that by (fastforce simp: rl3_def rs3_def qp_def)
  qed
  have "BB ^ (nn - 2) \<le> N div D + of_bool up" if "2 \<le> nn"
    using quotient_large [OF N(2) D] that by (simp add: numeral_2_eq_2)
  note large = this
  define kq where "kq = nn - of_bool (limbs s3 (zd s1 (the q) + (nn - 1)) = 0)"
  have kqx: "q = Some x \<Longrightarrow> kq = nn - of_bool (limbs s3 (zd s1 x + (nn - 1)) = 0)" for x by (simp add: kq_def)
  note st = store_quotient [OF s1(2) s3(3,2) [unfolded qp_def] qx N(4) large kqx]
  define c where "c = (if b then - int kq else int kq)"
  have h4: "q = Some x \<Longrightarrow> kq = 0 \<or> limbs s3 (zd s1 x + (kq - 1)) \<noteq> 0" for x by (rule st(2))
  have h4a: "holding L T k (put q (if b then - int (N div D + of_bool up) else int (N div D + of_bool up)) f) (if q = None then s3 else set_size (the q) c s3)"
    unfolding c_def by (rule st(1))
  from store_remainder [OF h4a qr rs3] obtain s5 where
    s5: "given r (\<lambda>r s. bindE (MPZ_REALLOC r 1 s) (\<lambda>(rp, s). Inr (set_size r rs3 (put_limb rp rl3 s)))) s3 = Inr s5"
      "holding L T k (put r (if b \<noteq> up then - int (unat rl3) else int (unat rl3)) (put q (if b then - int (N div D + of_bool up) else int (N div D + of_bool up)) f))
        (if q = None then s5 else set_size (the q) c s5)"
      "\<And>x i. q = Some x \<Longrightarrow> i < za s3 x \<Longrightarrow> limbs s5 (zd s3 x + i) = limbs s3 (zd s3 x + i)" by blast
  have o3: "objs s3 = objs s1" using s3(3) by (simp add: scratch_def)
  have fin: "given q (\<lambda>q s. bindE (c_assert (int nn - of_bool (limbs s (the qp + (nn - 1)) = 0) = 0 \<or>
        limbs s (the qp + (nat (int nn - of_bool (limbs s (the qp + (nn - 1)) = 0)) - 1)) > 0))
      (\<lambda>_. Inr (set_size q (if b then - (int nn - of_bool (limbs s (the qp + (nn - 1)) = 0)) else int nn - of_bool (limbs s (the qp + (nn - 1)) = 0)) s))) s5 =
    Inr (if q = None then s5 else set_size (the q) c s5)"
  proof (cases q)
    case None
    then show ?thesis by (simp add: given_def)
  next
    case (Some x)
    have same: "limbs s5 (zd s1 x + i) = limbs s3 (zd s1 x + i)" if "i < nn" for i using s5(3) [OF Some, of i] qx [OF Some] that o3 by simp
    have "limbs s5 (zd s1 x + (nn - 1)) = limbs s3 (zd s1 x + (nn - 1))" using N(4) by (intro same) simp
    then have e: "int nn - of_bool (limbs s5 (zd s1 x + (nn - 1)) = 0) = int kq" using N(4) by (simp add: kqx [OF Some] of_nat_diff)
    have "kq = 0 \<or> limbs s5 (zd s1 x + (kq - 1)) \<noteq> 0"
    proof (cases "kq = 0")
      case False
      have "kq \<le> nn" by (simp add: kq_def)
      then show ?thesis using h4 [OF Some] same [of "kq - 1"] False N(4) by simp
    qed simp
    then have "int kq = 0 \<or> limbs s5 (zd s1 x + (kq - 1)) > 0" by (simp add: unat_gt_0)
    then show ?thesis unfolding Some qp_def given_def option.simps option.sel e nat_int by (simp add: c_def)
  qed
  have m: "f n mod int D \<noteq> 0 \<longleftrightarrow> N mod D \<noteq> 0"
  proof -
    have "int D dvd f n \<longleftrightarrow> int D dvd int N" by (simp flip: N(1))
    then show ?thesis by (simp add: mod_eq_0_iff_dvd)
  qed
  have R: "div_round mode (f n) (int D) = (if b then - int (N div D + of_bool up) else int (N div D + of_bool up))"
    "rem_round mode (f n) (int D) = (if b \<noteq> up then - int (unat rl3) else int (unat rl3))"
    using ui_round [OF D(1) _ N(1), of up mode] m sg unfolding rl3 by (simp_all add: up_def b_def)
  have "put r (rem_round mode (f n) (int D)) (put q (div_round mode (f n) (int D)) f) = put q (div_round mode (f n) (int D)) (put r (rem_round mode (f n) (int D)) f)"
    using qr(3) by (cases q; cases r) (auto simp: fun_upd_twist)
  with s5(2) have h6: "holding L T k (put q (div_round mode (f n) (int D)) (put r (rem_round mode (f n) (int D)) f)) (if q = None then s5 else set_size (the q) c s5)"
    unfolding R by simp
  have c: "(zs s n = 0) = False" "(rl < d) = True" using zn lt by (simp_all add: D_def word_less_nat_alt)
  have "mpz_div_qr_ui q r n d mode s = Inr (rl3, if q = None then s5 else set_size (the q) c s5)"
    unfolding mpz_div_qr_ui_def Let_def c if_False nn_def [symmetric] s1(1) qp_def [symmetric] bindE_simps prod.case
      s2(1) [folded qp_def] c_assert_simps(1) [OF TrueI] upc [folded b_def] b_def [symmetric] rs_def [symmetric] s3(1) s5(1) fin ..
  moreover have "int (unat rl3) = \<bar>rem_round mode (f n) (int D)\<bar>" unfolding R by simp
  ultimately show ?thesis using h6 unfolding D_def by blast
qed

subsection \<open>The functions of the interface\<close>

lemma mpz_mod_ui_holding:
  assumes "holding L T k f s" "n \<in> L" "d \<noteq> 0" "r \<in> L"
  shows "\<exists>rl s'. mpz_mod_ui r n d s = Inr (rl, s') \<and> int (unat rl) = f n mod int (unat d) \<and> holding L T k (f(r := f n mod int (unat d))) s'"
  using mpz_div_qr_ui_holding [OF assms(1-3), of None "Some r" GMP_DIV_FLOOR] assms(3,4)
  by (auto simp: mpz_mod_ui_def rem_round_def minus_div_mult_eq_mod unat_gt_0)

lemma mpz_tdiv_ui_holding:
  assumes "holding L T k f s" "n \<in> L" "d \<noteq> 0"
  shows "\<exists>rl s'. mpz_tdiv_ui n d s = Inr (rl, s') \<and> int (unat rl) = \<bar>f n\<bar> mod int (unat d) \<and> holding L T k f s'"
proof -
  have "\<bar>rem_round GMP_DIV_TRUNC (f n) (int (unat d))\<bar> = \<bar>f n\<bar> mod int (unat d)"
    unfolding trunc_rem using assms(3) by (cases "f n = 0") (auto simp: abs_mult unat_gt_0)
  then show ?thesis using mpz_div_qr_ui_holding [OF assms, of None None GMP_DIV_TRUNC] by (auto simp: mpz_tdiv_ui_def)
qed

lemma mpz_divexact_ui_holding:
  assumes "holding L T k f s" "n \<in> L" "d \<noteq> 0" "q \<in> L" "int (unat d) dvd f n"
  shows "\<exists>s'. mpz_divexact_ui q n d s = Inr s' \<and> holding L T k (f(q := f n div int (unat d))) s'"
proof -
  have d: "int (unat d) \<noteq> 0" using assms(3) by (simp add: unat_eq_zero)
  then have "div_round GMP_DIV_TRUNC (f n) (int (unat d)) = f n div int (unat d)" using floor_trunc [OF d, of "f n"] assms(5) by simp
  moreover from this have "rem_round GMP_DIV_TRUNC (f n) (int (unat d)) = 0" using assms(5) by (simp only: rem_round_def) simp
  ultimately show ?thesis using mpz_div_qr_ui_holding [OF assms(1-3), of "Some q" None GMP_DIV_TRUNC] assms(4)
    by (auto simp: mpz_divexact_ui_def unat_eq_zero)
qed

lemma limb_gcd:
  assumes "v \<noteq> 0" "unat (r :: u64) = N mod unat v"
  shows "mpn_gcd_11 r v = Inr (word_of_nat (gcd N (unat v)))" "unat (word_of_nat (gcd N (unat v)) :: u64) = gcd N (unat v)"
proof -
  have v: "0 < unat v" using assms(1) by (simp add: unat_gt_0)
  have g: "gcd (unat r) (unat v) = gcd N (unat v)" unfolding assms(2) by (metis gcd.commute gcd_red_nat)
  show "mpn_gcd_11 r v = Inr (word_of_nat (gcd N (unat v)))"
  proof (cases "r = 0")
    case True
    then have "unat v dvd N" using assms(2) by auto
    then have "gcd N (unat v) = unat v" by (simp add: gcd_nat.absorb2)
    moreover have "word_of_nat (unat v) = v" using unat64_less [of v] by (simp add: word_unat_eq_iff unat_of_nat64')
    ultimately show ?thesis using True v by (simp add: mpn_gcd_11_def)
  next
    case False
    then show ?thesis using gcd_11_nonzero [of r v] assms(1) g by simp
  qed
  have "gcd N (unat v) \<le> unat v" using v by (intro dvd_imp_le) auto
  then show "unat (word_of_nat (gcd N (unat v)) :: u64) = gcd N (unat v)" using unat64_less [of v] by (intro unat_of_nat64') linarith
qed

lemma mpz_gcd_ui_holding:
  assumes h: "holding L T k f s" and u: "u \<in> L" and g: "set_option g \<subseteq> L"
  shows "\<exists>x s'. mpz_gcd_ui g u v s = Inr (x, s') \<and> int (unat x) = (if v = 0 then 0 else gcd (f u) (int (unat v))) \<and>
    holding L T k (put g (gcd (f u) (int (unat v))) f) s'"
proof (cases "v = 0")
  case True
  obtain s1 where "given g (\<lambda>g. mpz_abs g u) s = Inr s1" "holding L T k (put g \<bar>f u\<bar> f) s1"
    using given_holding_self [OF h, of g "\<lambda>g. mpz_abs g u" "\<bar>f u\<bar>"] mpz_abs_holding [OF h _ u] g by auto
  then show ?thesis using True by (simp add: mpz_gcd_ui_def)
next
  case False
  have fu: "int (zabs s u) = \<bar>f u\<bar>" by (rule holding_abs [OF h u])
  have G: "int (gcd (zabs s u) (unat v)) = gcd (f u) (int (unat v))" using fu by (simp flip: gcd_int_int_eq)
  obtain x s1 where s1: "(if zn s u \<noteq> 0 then bindE (mpn_div_qr_1 None (zd s u) (zn s u) v s) (\<lambda>(r, s). bindE (mpn_gcd_11 r v) (\<lambda>v. Inr (v, s))) else Inr (v, s)) = Inr (x, s1)"
    "unat x = gcd (zabs s u) (unat v)" "holding L T k f s1"
  proof (cases "zn s u = 0")
    case True
    then have "zabs s u = 0" by (simp add: zabs_def)
    then show ?thesis using that [of v s] h True by simp
  next
    case n: False
    have w: "heap_ok s" "zd s u + zn s u \<le> brk s" using holdingD(1) [OF h] wf_below(3) [OF holdingD(1) [OF h] u] by (auto simp: mpz_wf_def)
    from mpn_div_qr_1_ok [OF w(1) _ w(2) False, of None] n obtain r s1 where
      r: "mpn_div_qr_1 None (zd s u) (zn s u) v s = Inr (r, s1)" "unat r = zabs s u mod unat v" "scratch None (zn s u) (zd s u) 0 s s1" by (auto simp: zabs_def)
    have "holding L T k f s1" by (rule scratch_holding [OF h r(3)])
    then show ?thesis using that r limb_gcd [OF False r(2)] n by simp
  qed
  obtain s2 where "given g (\<lambda>g. mpz_set_ui g x) s1 = Inr s2" "holding L T k (put g (int (unat x)) f) s2"
    using given_holding_self [OF s1(3), of g "\<lambda>g. mpz_set_ui g x" "int (unat x)"] mpz_set_ui_holding [OF s1(3), of _ x] g by auto
  then show ?thesis using s1 False G by (simp add: mpz_gcd_ui_def Let_def)
qed

subsection \<open>Properties\<close>

text \<open>
  C34: dividing by a machine integer \<open>d\<close> is the same as dividing by an integer variable with the value \<open>d\<close>: all variables
  get the same values, in every mode, and the limb that is returned is the absolute value of the
  remainder.
\<close>

theorem mpz_div_ui_agrees:
  assumes "mpz_wf L T s" "q \<in> L" "r \<in> L" "n \<in> L" "e \<in> L" "q \<noteq> r" "d \<noteq> 0" "zval s e = int (unat d)" "int_fits (zval s n)"
  shows "\<exists>b s1 x s2. mpz_div_qr (Some q) (Some r) n e mode s = Inr (b, s1) \<and> mpz_div_qr_ui (Some q) (Some r) n d mode s = Inr (x, s2) \<and>
    mpz_wf L T s1 \<and> mpz_wf L T s2 \<and> (\<forall>y\<in>L. zval s1 y = zval s2 y) \<and> int (unat x) = \<bar>zval s2 r\<bar> \<and> b = (x \<noteq> 0)"
proof -
  note h = holdingI [OF assms(1)]
  have d: "zval s e \<noteq> 0" "int_fits (zval s e)" using assms(7,8) small_fits [of "zval s e"] int_unat_less [of d] by (simp_all add: unat_eq_zero)
  obtain s1 where s1: "mpz_div_qr (Some q) (Some r) n e mode s = Inr (\<not> zval s e dvd zval s n, s1)"
    "holding L T (stack s) ((zval s)(r := rem_round mode (zval s n) (zval s e), q := div_round mode (zval s n) (zval s e))) s1"
    using mpz_div_qr_holding [OF h assms(4,5) d(1) assms(9) d(2), of "Some q" "Some r" mode] assms(2,3,6) by auto
  obtain x s2 where s2: "mpz_div_qr_ui (Some q) (Some r) n d mode s = Inr (x, s2)" "int (unat x) = \<bar>rem_round mode (zval s n) (zval s e)\<bar>"
    "holding L T (stack s) ((zval s)(r := rem_round mode (zval s n) (zval s e), q := div_round mode (zval s n) (zval s e))) s2"
    using mpz_div_qr_ui_holding [OF h assms(4,7), of "Some q" "Some r" mode] assms(2,3,6,8) by auto
  have "rem_round mode (zval s n) (zval s e) = 0 \<longleftrightarrow> zval s e dvd zval s n" by (rule rem_zero_iff [OF d(1)])
  then have "x \<noteq> 0 \<longleftrightarrow> \<not> zval s e dvd zval s n" using s2(2) by (metis abs_eq_0 of_nat_eq_0_iff unat_eq_zero)
  then show ?thesis using s1 s2 assms(3,6) by (auto simp: holding_def)
qed

theorem mpz_div_ui_agrees_witness:
  "\<exists>b s1 x s2. mpz_div_qr (Some 2) (Some 0) 0 1 GMP_DIV_CEIL sample_ints = Inr (b, s1) \<and>
    mpz_div_qr_ui (Some 2) (Some 0) 0 2 GMP_DIV_CEIL sample_ints = Inr (x, s2) \<and> zval s1 2 = zval s2 2"
  using mpz_div_ui_agrees [OF sample_ints_wf, of 2 0 0 1 2 GMP_DIV_CEIL] by (auto simp: sample_ints_values small_fits)

end
