(* ===== verification/Mpz_Div_2exp.thy ===== *)
theory Mpz_Div_2exp
  imports Mpz_Div_Ui
begin

section \<open>Division of integers by powers of two\<close>

text \<open>
  Shifting an integer to the right with the three directions of rounding. The limbs are shifted as a
  natural number; whether bits that are not zero were shifted out is found out before, as the result
  may overwrite the operand.
\<close>

declare of_nat_unat [simp del]

subsection \<open>Definitions\<close>

definition mpz_div_q_2exp :: "nat \<Rightarrow> nat \<Rightarrow> u64 \<Rightarrow> mpz_div_round_mode \<Rightarrow> mpz_mem \<Rightarrow> mpz_mem res" where
  "mpz_div_q_2exp q u bit_index mode s =
     (let un = zs s u in
      if un = 0 then Inr (set_size q 0 s)
      else
        let limb_cnt = unat (bit_index div 64); qn = \<bar>un\<bar> - int limb_cnt; bits = unat (bit_index mod 64);
            adjust = (mode = (if un > 0 then GMP_DIV_CEIL else GMP_DIV_FLOOR) \<and>
              (qn \<le> 0 \<or> \<not> mpn_zero_p (limbs s) (zd s u) limb_cnt \<or> (limbs s (zd s u + limb_cnt) AND (push_bit bits 1 - 1)) \<noteq> 0)) in
        bindE
          (if qn \<le> 0 then Inr (0, s)
           else
             bindE (MPZ_REALLOC q qn s) (\<lambda>(qp, s).
             if bits \<noteq> 0 then
               bindE (mpn_rshift qp (zd s u + limb_cnt) (nat qn) bits (limbs s)) (\<lambda>(_, m).
               Inr (qn - of_bool (m (qp + (nat qn - 1)) = 0), s\<lparr>limbs := m\<rparr>))
             else Inr (qn, s\<lparr>limbs := mpn_copyi qp (zd s u + limb_cnt) (nat qn) (limbs s)\<rparr>))) (\<lambda>(qn, s).
        let s = set_size q qn s in
        bindE (if adjust then mpz_add_ui q q 1 s else Inr s) (\<lambda>s.
        if un < 0 then mpz_neg q q s else Inr s)))"

definition mpz_cdiv_q_2exp :: "nat \<Rightarrow> nat \<Rightarrow> u64 \<Rightarrow> mpz_mem \<Rightarrow> mpz_mem res" where
  "mpz_cdiv_q_2exp r u cnt s = mpz_div_q_2exp r u cnt GMP_DIV_CEIL s"

definition mpz_fdiv_q_2exp :: "nat \<Rightarrow> nat \<Rightarrow> u64 \<Rightarrow> mpz_mem \<Rightarrow> mpz_mem res" where
  "mpz_fdiv_q_2exp r u cnt s = mpz_div_q_2exp r u cnt GMP_DIV_FLOOR s"

definition mpz_tdiv_q_2exp :: "nat \<Rightarrow> nat \<Rightarrow> u64 \<Rightarrow> mpz_mem \<Rightarrow> mpz_mem res" where
  "mpz_tdiv_q_2exp r u cnt s = mpz_div_q_2exp r u cnt GMP_DIV_TRUNC s"

subsection \<open>The shifted limbs\<close>

lemma two_power_limbs: "2 ^ unat (b :: u64) = BB ^ unat (b div 64) * (2 :: nat) ^ unat (b mod 64)"
proof -
  have "64 * unat (b div 64) + unat (b mod 64) = unat b" by (simp add: unat_div unat_mod)
  then have "(2 :: nat) ^ unat b = 2 ^ (64 * unat (b div 64) + unat (b mod 64))" by simp
  then show ?thesis unfolding power_add power_mult BB_def .
qed

text \<open>A number that is split at a limb and a bit.\<close>

lemma shifted_value:
  assumes "n = c + k"
  shows "lval m p n div (BB ^ c * 2 ^ b) = lval m (p + c) k div 2 ^ b"
    "0 < k \<Longrightarrow> b < 64 \<Longrightarrow> lval m p n mod (BB ^ c * 2 ^ b) \<noteq> 0 \<longleftrightarrow> lval m p c \<noteq> 0 \<or> unat (m (p + c)) mod 2 ^ b \<noteq> 0"
proof -
  have s: "lval m p n = lval m p c + BB ^ c * lval m (p + c) k" unfolding assms by (rule lval_split)
  have l: "lval m p c < BB ^ c" by (rule lval_less)
  have d: "lval m p n div BB ^ c = lval m (p + c) k" "lval m p n mod BB ^ c = lval m p c" using l unfolding s by simp_all
  show "lval m p n div (BB ^ c * 2 ^ b) = lval m (p + c) k div 2 ^ b" unfolding div_mult2_eq d ..
  assume k: "0 < k" "b < 64"
  then obtain j where j: "k = Suc j" by (cases k) auto
  have "(2 :: nat) ^ b dvd 2 ^ 64" using k(2) by (intro le_imp_power_dvd) simp
  then have "BB * x mod 2 ^ b = 0" for x unfolding BB_def by (simp only: mod_eq_0_iff_dvd dvd_mult2)
  then have "lval m (p + c) k mod 2 ^ b = unat (m (p + c)) mod 2 ^ b" unfolding j lval_low by (metis add.right_neutral mod_add_right_eq)
  moreover have "lval m p n mod (BB ^ c * 2 ^ b) = BB ^ c * (lval m (p + c) k mod 2 ^ b) + lval m p c" unfolding mod_mult2_eq d by simp
  ultimately show "lval m p n mod (BB ^ c * 2 ^ b) \<noteq> 0 \<longleftrightarrow> lval m p c \<noteq> 0 \<or> unat (m (p + c)) mod 2 ^ b \<noteq> 0" by auto
qed

lemma and_low_bits: "b < 64 \<Longrightarrow> (x :: u64) AND (push_bit b 1 - 1) \<noteq> 0 \<longleftrightarrow> unat x mod 2 ^ b \<noteq> 0"
proof -
  have "push_bit b 1 - 1 = (mask b :: u64)" by (simp add: mask_eq_exp_minus_1 push_bit_of_1)
  then have "unat (x AND (push_bit b 1 - 1)) = unat x mod 2 ^ b"
    unfolding take_bit_eq_mask [symmetric] by (simp only: unsigned_take_bit_eq [symmetric] take_bit_eq_mask [symmetric] take_bit_eq_mod [of b "unat x", symmetric])
  then show ?thesis by (metis unat_eq_zero)
qed

lemma zero_p_iff: "mpn_zero_p m p n \<longleftrightarrow> lval m p n = 0"
proof -
  define k where "k = mpn_normalized_size m p n"
  have "lval m p k = lval m p n" "k = 0 \<or> m (p + (k - 1)) \<noteq> 0" using mpn_normalized_size_value [of m p n] by (auto simp: k_def)
  then have "k = 0 \<longleftrightarrow> lval m p n = 0" using top_limb_pos [of k m p] by (metis less_irrefl lval_0)
  then show ?thesis by (simp add: mpn_zero_p_def k_def)
qed

lemma mod_abs_iff: "\<bar>n\<bar> = int N \<Longrightarrow> n mod int D = 0 \<longleftrightarrow> N mod D = 0"
proof -
  assume N: "\<bar>n\<bar> = int N"
  have "int D dvd n \<longleftrightarrow> int D dvd int N" by (simp flip: N)
  then show ?thesis by (simp add: mod_eq_0_iff_dvd)
qed

lemma finish_holding:
  assumes h: "holding L T k f s" and g: "grown L T s r n s1" "r \<in> L" "same_outside (zd s1 r) n (limbs s1) m"
    and z: "j \<le> n" "lval m (zd s1 r) j = X" "j \<noteq> 0 \<longrightarrow> m (zd s1 r + (j - 1)) \<noteq> 0"
  shows "holding L T k (f(r := int X)) (set_size r (int j) (s1\<lparr>limbs := m\<rparr>))"
proof -
  have "\<bar>int j\<bar> \<le> int n" "int j \<noteq> 0 \<Longrightarrow> m (zd s1 r + (nat \<bar>int j\<bar> - 1)) \<noteq> 0" using z(1,3) by simp_all
  from finish [OF g this] have "upd L T s r (sgn (int j) * int (lval m (zd s1 r) (nat \<bar>int j\<bar>))) (set_size r (int j) (s1\<lparr>limbs := m\<rparr>))" .
  moreover have "sgn (int j) * int (lval m (zd s1 r) (nat \<bar>int j\<bar>)) = int X" using z(2) by (cases "j = 0") auto
  ultimately show ?thesis using holding_upd [OF h] by simp
qed

lemma shift_core:
  fixes bi :: u64
  assumes h: "holding L T k f s" and v: "q \<in> L" "u \<in> L" "f u \<noteq> 0"
  defines "cnt \<equiv> unat (bi div 64)" and "b \<equiv> unat (bi mod 64)"
  defines "qn \<equiv> \<bar>zs s u\<bar> - int cnt"
  shows "\<exists>qn' s'. (if qn \<le> 0 then Inr (0, s)
           else
             bindE (MPZ_REALLOC q qn s) (\<lambda>(qp, s).
             if b \<noteq> 0 then
               bindE (mpn_rshift qp (zd s u + cnt) (nat qn) b (limbs s)) (\<lambda>(_, m).
               Inr (qn - of_bool (m (qp + (nat qn - 1)) = 0), s\<lparr>limbs := m\<rparr>))
             else Inr (qn, s\<lparr>limbs := mpn_copyi qp (zd s u + cnt) (nat qn) (limbs s)\<rparr>))) = Inr (qn', s') \<and>
    holding L T k (f(q := int (zabs s u div 2 ^ unat bi))) (set_size q qn' s')"
proof (cases "qn \<le> 0")
  case True
  have "zabs s u < BB ^ zn s u" by (rule zabs_less)
  also have "\<dots> \<le> BB ^ cnt" using True by (intro power_increasing) (auto simp: qn_def BB_def)
  also have "\<dots> \<le> 2 ^ unat bi" unfolding two_power_limbs [of bi] cnt_def by simp
  finally show ?thesis using True set_size_0_holding [OF h v(1)] by simp
next
  case False
  define K where "K = nat qn"
  have K: "qn = int K" "0 < K" "zn s u = cnt + K" "int K \<le> INT_MAX"
    using False obj_sizes(3) [OF holdingD(4) [OF h v(2)]] by (auto simp: K_def qn_def)
  have b: "b < 64" by (simp add: b_def unat_mod)
  obtain s1 where s1: "MPZ_REALLOC q qn s = Inr (zd s1 q, s1)" "grown L T s q K s1"
    using MPZ_REALLOC_ok [OF holdingD(1) [OF h] v(1), of qn] K by auto
  have w1: "mpz_wf L T s1" using s1(2) by (simp add: grown_def)
  have N: "lval (limbs s1) (zd s1 u) (cnt + K) = zabs s u" "zn s1 u = cnt + K" using grown_values(1,2) [OF s1(2) v(2)] K(3) by simp_all
  have N': "zabs s u div 2 ^ unat bi = lval (limbs s1) (zd s1 u + cnt) K div 2 ^ b"
    unfolding two_power_limbs [of bi] N(1) [symmetric] cnt_def [symmetric] b_def [symmetric] by (rule shifted_value) simp
  have top: "BB ^ (K - 1) \<le> lval (limbs s1) (zd s1 u + cnt) K"
  proof -
    have "zs s u \<noteq> 0" using holding_zero_iff [OF h v(2)] v(3) by simp
    then have "BB ^ (cnt + (K - 1)) \<le> zabs s u" using zabs_pos [OF holdingD(4) [OF h v(2)]] K by (simp add: add.commute)
    then have "BB ^ cnt * BB ^ (K - 1) div BB ^ cnt \<le> zabs s u div BB ^ cnt" unfolding power_add by (rule div_le_mono)
    then show ?thesis using shifted_value(1) [of "cnt + K" cnt K "limbs s1" "zd s1 u" 0] N(1) by simp
  qed
  have f: "fwd (zd s1 q) (zd s1 u + cnt) K"
    using wf_apart [OF w1 v(1,2)] obj_sizes(1) [OF wf_obj [OF w1 v(2)]] N(2) grown_regions(1) [OF s1(2) v(1,2)] K(3)
    by (auto simp: fwd_def apart_def)
  show ?thesis
  proof (cases "b = 0")
    case True
    let ?m = "mpn_copyi (zd s1 q) (zd s1 u + cnt) K (limbs s1)"
    note c = mpn_copyi_ok [OF f order_refl, of "limbs s1"]
    have l: "lval ?m (zd s1 q) K = zabs s u div 2 ^ unat bi" unfolding N' True using c by (simp cong: lval_cong)
    obtain j where j: "K = Suc j" using K(2) by (cases K) auto
    have "?m (zd s1 q + (K - 1)) \<noteq> 0" using top_limb [of j ?m "zd s1 q"] l top unfolding N' True j by simp
    with finish_holding [OF h s1(2) v(1) conjunct1 [OF c] order_refl l] show ?thesis using False s1(1) K(1) True by simp
  next
    case bits: False
    obtain x m where m: "mpn_rshift (zd s1 q) (zd s1 u + cnt) K b (limbs s1) = Inr (x, m)" "same_outside (zd s1 q) K (limbs s1) m"
        "lval m (zd s1 q) K = lval (limbs s1) (zd s1 u + cnt) K div 2 ^ b"
      using mpn_rshift_ok [OF _ _ b f] K(2) bits by (metis One_nat_def Suc_leI neq0_conv)
    have "BB ^ (K - 2) \<le> zabs s u div 2 ^ unat bi" if "2 \<le> K"
    proof -
      have "(2 :: nat) ^ b < BB ^ 1" using b power_strict_increasing [of b 64 "2 :: nat"] by (simp add: BB_def)
      from quotient_large [OF top _ this] that show ?thesis unfolding N' by (simp add: numeral_2_eq_2)
    qed
    note t = quotient_top [OF K(2) m(3) [folded N'] this]
    have "int K - of_bool (m (zd s1 q + (K - 1)) = 0) = int (K - of_bool (m (zd s1 q + (K - 1)) = 0))" using K(2) by (simp add: of_nat_diff)
    then show ?thesis using finish_holding [OF h s1(2) v(1) m(2) t(3,1,2)] False s1(1) K(1) bits m(1) by simp
  qed
qed

lemma mpz_div_q_2exp_holding:
  assumes h: "holding L T k f s" and v: "q \<in> L" "u \<in> L" "int_fits (f u)"
  shows "\<exists>s'. mpz_div_q_2exp q u bi mode s = Inr s' \<and> holding L T k (f(q := div_round mode (f u) (2 ^ unat bi))) s'"
proof (cases "f u = 0")
  case True
  then have "zs s u = 0" using holding_zero_iff [OF h v(2)] by simp
  moreover have "div_round mode 0 (2 ^ unat bi) = 0" by (cases mode) simp_all
  ultimately show ?thesis using True set_size_0_holding [OF h v(1)] by (simp add: mpz_div_q_2exp_def)
next
  case False
  define cnt b N D where "cnt = unat (bi div 64)" and "b = unat (bi mod 64)" and "N = zabs s u" and "D = (2 :: nat) ^ unat bi"
  have N: "\<bar>f u\<bar> = int N" using holding_abs [OF h v(2)] by (simp add: N_def)
  have z: "zs s u \<noteq> 0" using holding_zero_iff [OF h v(2)] False by simp
  have sg: "zs s u < 0 \<longleftrightarrow> f u < 0" "zs s u > 0 \<longleftrightarrow> f u \<ge> 0" using holding_sgn [OF h v(2)] False by (auto simp: sgn_if split: if_splits)
  define up where "up \<longleftrightarrow> N mod D \<noteq> 0 \<and> (mode = GMP_DIV_FLOOR \<and> f u < 0 \<or> mode = GMP_DIV_CEIL \<and> f u \<ge> 0)"
  have lost: "(\<bar>zs s u\<bar> - int cnt \<le> 0 \<or> \<not> mpn_zero_p (limbs s) (zd s u) cnt \<or> limbs s (zd s u + cnt) AND (push_bit b 1 - 1) \<noteq> 0) \<longleftrightarrow> N mod D \<noteq> 0"
    (is "?l \<longleftrightarrow> _")
  proof (cases "zn s u \<le> cnt")
    case True
    have "N < BB ^ zn s u" unfolding N_def by (rule zabs_less)
    also have "\<dots> \<le> BB ^ cnt" using True by (intro power_increasing) (auto simp: BB_def)
    also have "\<dots> \<le> D" unfolding D_def two_power_limbs [of bi] cnt_def by simp
    finally have "N mod D = N" by simp
    moreover have "N \<noteq> 0" using N False by auto
    moreover have "?l" using True by linarith
    ultimately show ?thesis by simp
  next
    case less: False
    then obtain K where K: "zn s u = cnt + K" "0 < K" by (metis less_imp_add_positive not_le)
    have b: "b < 64" by (simp add: b_def unat_mod)
    have "mpn_zero_p (limbs s) (zd s u) cnt \<longleftrightarrow> lval (limbs s) (zd s u) cnt = 0" by (rule zero_p_iff)
    moreover have "N mod D \<noteq> 0 \<longleftrightarrow> lval (limbs s) (zd s u) cnt \<noteq> 0 \<or> unat (limbs s (zd s u + cnt)) mod 2 ^ b \<noteq> 0"
      using shifted_value(2) [OF K(1) K(2) b, of "limbs s" "zd s u"] unfolding N_def D_def two_power_limbs [of bi] zabs_def cnt_def b_def by simp
    ultimately show ?thesis using less and_low_bits [OF b, of "limbs s (zd s u + cnt)"] by auto
  qed
  have adj: "(mode = (if zs s u > 0 then GMP_DIV_CEIL else GMP_DIV_FLOOR) \<and>
      (\<bar>zs s u\<bar> - int cnt \<le> 0 \<or> \<not> mpn_zero_p (limbs s) (zd s u) cnt \<or> limbs s (zd s u + cnt) AND (push_bit b 1 - 1) \<noteq> 0)) \<longleftrightarrow> up"
    unfolding lost up_def using sg by auto
  note sc = shift_core [OF h v(1,2) False, of bi, folded cnt_def b_def N_def D_def]
  have D: "0 < D" "int D = 2 ^ unat bi" by (simp_all add: D_def)
  have R: "div_round mode (f u) (int D) = (if f u < 0 then - int (N div D + of_bool up) else int (N div D + of_bool up))"
    using ui_round(1) [OF D(1) _ N, of up mode] mod_abs_iff [OF N, of D] by (simp add: up_def)
  show ?thesis using sc
  proof (elim exE conjE, goal_cases)
    case (1 qn' s1)
    note h1 = 1(2)
    have "int_fits (int (N div D))" using div_le_dividend [of N D] N by (intro fits_le [OF v(3)]) linarith
    then obtain s2 where s2: "(if up then mpz_add_ui q q 1 (set_size q qn' s1) else Inr (set_size q qn' s1)) = Inr s2"
      "holding L T k (f(q := int (N div D + of_bool up))) s2"
      using h1 mpz_add_ui_holding [OF h1 v(1,1), of 1] by (cases up) (auto simp: add.commute)
    obtain s3 where s3: "(if zs s u < 0 then mpz_neg q q s2 else Inr s2) = Inr s3" "holding L T k (f(q := div_round mode (f u) (int D))) s3"
      using s2(2) mpz_neg_holding [OF s2(2) v(1,1)] sg(1) unfolding R by (cases "f u < 0") auto
    have c: "(zs s u = 0) = False" using z by simp
    have "mpz_div_q_2exp q u bi mode s = Inr s3"
      unfolding mpz_div_q_2exp_def Let_def c if_False cnt_def [symmetric] b_def [symmetric] adj 1(1) bindE_simps prod.case s2(1) s3(1) ..
    then show ?case using s3(2) D(2) by auto
  qed
qed

end
