(* ===== verification/Mpz_Power.thy ===== *)
theory Mpz_Power
  imports Mpz_Div_2exp
begin

section \<open>Powers, factorials and binomial coefficients\<close>

text \<open>
  The functions of \<open>mini-gmp.c\<close> that multiply in a loop over a machine integer. The loops count down or shift an
  \<open>unsigned long\<close>; they are partial functions that are shown to end. A result must fit; the
  intermediate results then do.
\<close>

declare of_nat_unat [simp del]

subsection \<open>Definitions\<close>

definition GMP_ULONG_HIGHBIT :: u64 where
  "GMP_ULONG_HIGHBIT = push_bit (64 - 1) 1"

partial_function (option) pow_loop :: "nat \<Rightarrow> nat \<Rightarrow> u64 \<Rightarrow> u64 \<Rightarrow> mpz_mem \<Rightarrow> mpz_mem res option" where
  "pow_loop tr b e bt s =
     (case bindE (mpz_mul tr tr tr s) (\<lambda>s. if e AND bt \<noteq> 0 then mpz_mul tr tr b s else Inr s) of
        Inl x \<Rightarrow> Some (Inl x)
      | Inr s \<Rightarrow> let bt = drop_bit 1 bt in if bt > 0 then pow_loop tr b e bt s else Some (Inr s))"

definition mpz_pow_ui :: "nat \<Rightarrow> nat \<Rightarrow> u64 \<Rightarrow> mpz_mem \<Rightarrow> mpz_mem res" where
  "mpz_pow_ui r b e s =
     (let (tr, s) = new_var s in
      bindE (mpz_init_set_ui tr 1 s) (\<lambda>s.
      bindE (bindE (returns (pow_loop tr b e GMP_ULONG_HIGHBIT s)) (\<lambda>x. x)) (\<lambda>s.
      bindE (mpz_clear tr (mpz_swap r tr s)) (\<lambda>s. Inr (drop_var s)))))"

partial_function (option) fac_loop :: "nat \<Rightarrow> u64 \<Rightarrow> mpz_mem \<Rightarrow> mpz_mem res option" where
  "fac_loop x n s =
     (if n > 2 then
        let n = n - 1 in
        case mpz_mul_ui x x n s of Inl e \<Rightarrow> Some (Inl e) | Inr s \<Rightarrow> fac_loop x n s
      else Some (Inr s))"

definition mpz_fac_ui :: "nat \<Rightarrow> u64 \<Rightarrow> mpz_mem \<Rightarrow> mpz_mem res" where
  "mpz_fac_ui x n s = bindE (mpz_set_ui x (n + of_bool (n = 0)) s) (\<lambda>s. bindE (returns (fac_loop x n s)) (\<lambda>x. x))"

partial_function (option) bin_loop :: "nat \<Rightarrow> u64 \<Rightarrow> u64 \<Rightarrow> mpz_mem \<Rightarrow> mpz_mem res option" where
  "bin_loop r n k s =
     (if k > 0 then
        case mpz_mul_ui r r n s of Inl e \<Rightarrow> Some (Inl e) | Inr s \<Rightarrow> bin_loop r (n - 1) (k - 1) s
      else Some (Inr s))"

definition mpz_bin_uiui :: "nat \<Rightarrow> u64 \<Rightarrow> u64 \<Rightarrow> mpz_mem \<Rightarrow> mpz_mem res" where
  "mpz_bin_uiui r n k s =
     bindE (mpz_set_ui r (of_bool (k \<le> n)) s) (\<lambda>s.
     let k = (if k > drop_bit 1 n then if k \<le> n then n - k else 0 else k); (t, s) = new_var s in
     bindE (mpz_fac_ui t k (mpz_init t s)) (\<lambda>s.
     bindE (bindE (returns (bin_loop r n k s)) (\<lambda>x. x)) (\<lambda>s.
     bindE (mpz_divexact r r t s) (\<lambda>s.
     bindE (mpz_clear t s) (\<lambda>s. Inr (drop_var s))))))"

subsection \<open>Powers\<close>

lemma fits_power_le: "int_fits (b ^ n) \<Longrightarrow> p \<le> n \<Longrightarrow> int_fits (b ^ p)"
proof (cases "b = 0")
  case True
  then show ?thesis by (cases p) (simp_all add: small_fits)
next
  case False
  assume "int_fits (b ^ n)" "p \<le> n"
  moreover have "\<bar>b\<bar> ^ p \<le> \<bar>b\<bar> ^ n" if "p \<le> n" using that False by (intro power_increasing) auto
  ultimately show ?thesis using fits_le [of "b ^ n" "b ^ p"] by (simp add: power_abs)
qed

lemma and_single_bit: "i < 64 \<Longrightarrow> (e :: u64) AND push_bit i 1 \<noteq> 0 \<longleftrightarrow> odd (unat e div 2 ^ i)"
proof -
  assume "i < 64"
  then have "e AND push_bit i 1 \<noteq> 0 \<longleftrightarrow> bit e i" by (auto simp: bit_eq_iff [where 'a = u64] bit_and_iff bit_exp_iff possible_bit_def)
  also have "\<dots> \<longleftrightarrow> odd (unat e div 2 ^ i)" by (simp add: bit_iff_odd [of "unat e", symmetric] bit_unsigned_iff bit_imp_le_length)
  finally show ?thesis .
qed

lemma shift_down: "drop_bit 1 (push_bit 0 1) = (0 :: u64)" "i < 63 \<Longrightarrow> drop_bit 1 (push_bit (Suc i) 1) = (push_bit i 1 :: u64)"
  by (auto simp: bit_eq_iff [where 'a = u64] bit_drop_bit_eq bit_exp_iff possible_bit_def simp del: power_Suc)

lemma single_bit_pos: "i < 64 \<Longrightarrow> 0 < (push_bit i 1 :: u64)"
proof -
  assume "i < 64"
  then have "bit (push_bit i 1 :: u64) i" by (simp add: bit_exp_iff)
  then show ?thesis unfolding word_gt_0 by (metis bit_0_eq bot_apply bot_bool_def)
qed

text \<open>One turn of the loop: the exponent is read from its highest bit on.\<close>

lemma pow_step_holding:
  assumes "tr \<in> L" "b \<in> L" "tr \<noteq> b" "int_fits (B ^ unat (e :: u64))" "i < 64" "holding L T k f s" "f b = B" "f tr = B ^ (unat e div 2 ^ Suc i)"
  shows "\<exists>s'. bindE (mpz_mul tr tr tr s) (\<lambda>s. if e AND push_bit i 1 \<noteq> 0 then mpz_mul tr tr b s else Inr s) = Inr s' \<and>
    holding L T k (f(tr := B ^ (unat e div 2 ^ i))) s'"
proof -
  define m where "m = unat e div 2 ^ i"
  have h: "unat e div 2 ^ Suc i = m div 2" unfolding m_def by (simp add: power_Suc2 div_mult2_eq del: power_Suc)
  have m: "m \<le> unat e" by (simp add: m_def)
  have sq: "f tr * f tr = B ^ (2 * (m div 2))" unfolding assms(8) h by (simp add: power_mult power2_eq_square power_mult_distrib)
  have "int_fits (f tr * f tr)" unfolding sq by (rule fits_power_le [OF assms(4)]) (use m in auto)
  then obtain s1 where s1: "mpz_mul tr tr tr s = Inr s1" "holding L T k (f(tr := B ^ (2 * (m div 2)))) s1"
    using mpz_mul_holding [OF assms(6,1,1,1)] unfolding sq by blast
  show ?thesis
  proof (cases "odd m")
    case True
    then have p: "B ^ (2 * (m div 2)) * B = B ^ m" by (metis odd_two_times_div_two_succ power_Suc2 add.commute plus_1_eq_Suc)
    have "int_fits (B ^ (2 * (m div 2)) * B)" unfolding p by (rule fits_power_le [OF assms(4) m])
    then obtain s2 where "mpz_mul tr tr b s1 = Inr s2" "holding L T k (f(tr := B ^ m)) s2"
      using mpz_mul_holding [OF s1(2) assms(1,1,2)] assms(3,7) p by auto
    then show ?thesis using s1(1) True and_single_bit [OF assms(5), of e] by (simp add: m_def [symmetric] del: push_bit_of_1)
  next
    case False
    then show ?thesis using s1 and_single_bit [OF assms(5), of e] by (simp add: m_def [symmetric] del: push_bit_of_1)
  qed
qed

lemma pow_loop_holding:
  assumes "tr \<in> L" "b \<in> L" "tr \<noteq> b" "int_fits (B ^ unat (e :: u64))"
  shows "i < 64 \<Longrightarrow> holding L T k f s \<Longrightarrow> f b = B \<Longrightarrow> f tr = B ^ (unat e div 2 ^ Suc i) \<Longrightarrow>
    \<exists>s'. pow_loop tr b e (push_bit i 1) s = Some (Inr s') \<and> holding L T k (f(tr := B ^ unat e)) s'"
proof (induction i arbitrary: f s)
  case 0
  then obtain s' where "bindE (mpz_mul tr tr tr s) (\<lambda>s. if e AND push_bit 0 1 \<noteq> 0 then mpz_mul tr tr b s else Inr s) = Inr s'"
    "holding L T k (f(tr := B ^ unat e)) s'" using pow_step_holding [OF assms 0] by auto
  then show ?case by (subst pow_loop.simps) (simp add: shift_down del: push_bit_of_1)
next
  case (Suc i)
  obtain s1 where s1: "bindE (mpz_mul tr tr tr s) (\<lambda>s. if e AND push_bit (Suc i) 1 \<noteq> 0 then mpz_mul tr tr b s else Inr s) = Inr s1"
    "holding L T k (f(tr := B ^ (unat e div 2 ^ Suc i))) s1" using pow_step_holding [OF assms Suc.prems] by blast
  have i: "i < 64" "(f(tr := B ^ (unat e div 2 ^ Suc i))) b = B" using Suc.prems assms(3) by simp_all
  from Suc.IH [OF i(1) s1(2) i(2) fun_upd_same] obtain s' where
    "pow_loop tr b e (push_bit i 1) s1 = Some (Inr s')" "holding L T k (f(tr := B ^ unat e)) s'" unfolding fun_upd_upd by blast
  then show ?case using s1(1) shift_down(2) [of i] single_bit_pos [of i] Suc.prems(1) by (subst pow_loop.simps) (simp add: Let_def del: push_bit_of_1)
qed

lemma mpz_pow_ui_holding:
  assumes h: "holding L T k f s" and v: "r \<in> L" "b \<in> L" "int_fits (f b ^ unat e)"
  shows "\<exists>s'. mpz_pow_ui r b e s = Inr s' \<and> holding L T k (f(r := f b ^ unat e)) s'"
proof -
  note n = new_var_holding [OF h]
  obtain s0 where s0: "new_var s = (k, s0)" "snd (new_var s) = s0" using n(1) by auto
  have m: "k \<in> insert k L" "b \<in> insert k L" "r \<in> insert k L" "k \<noteq> b" "k \<noteq> r" using v n(2) by auto
  obtain s1 where s1: "mpz_init_set_ui k 1 s0 = Inr s1" "holding (insert k L) T (Suc k) (f(k := 1)) s1"
    using mpz_set_ui_holding [OF n(3) m(1), of 1] s0(2) by (auto simp: mpz_init_set_ui_def)
  have "(f(k := 1)) k = f b ^ (unat e div 2 ^ Suc 63)" using unsigned_less [of e] by (simp add: div_less)
  then obtain s2 where s2: "pow_loop k b e (push_bit 63 1) s1 = Some (Inr s2)" "holding (insert k L) T (Suc k) (f(k := f b ^ unat e)) s2"
    using pow_loop_holding [OF m(1,2,4) v(3), of 63 T "Suc k" "f(k := 1)" s1] s1(2) m(4) by auto
  have s3: "holding (insert k L) T (Suc k) (f(r := f b ^ unat e, k := f r)) (mpz_swap r k s2)"
    by (rule holding_cong [OF mpz_swap_holding [OF s2(2) m(3,1)]]) (use m(5) in auto)
  obtain s4 where s4: "mpz_clear k (mpz_swap r k s2) = Inr s4" "holding L T k (f(r := f b ^ unat e, k := f r)) (drop_var s4)"
    using mpz_clear_holding [OF s3 n(2)] by blast
  have "GMP_ULONG_HIGHBIT = (push_bit 63 1 :: u64)" by (simp add: GMP_ULONG_HIGHBIT_def)
  then have "mpz_pow_ui r b e s = Inr (drop_var s4)" using s0 s1(1) s2(1) s4(1) by (simp add: mpz_pow_ui_def returns_def)
  moreover have "holding L T k (f(r := f b ^ unat e)) (drop_var s4)" by (rule holding_cong [OF s4(2)]) (use n(2) in auto)
  ultimately show ?thesis by blast
qed

subsection \<open>Factorials\<close>

lemma unat_minus_1: "0 < n \<Longrightarrow> unat (n - 1 :: u64) = unat n - 1"
  by (simp add: unat_sub word_le_nat_alt word_gt_0 unat_gt_0 Suc_le_eq)

lemma fits_factor: "int_fits (x * int m) \<Longrightarrow> 0 < m \<Longrightarrow> int_fits x"
  by (erule fits_le) (simp add: abs_mult mult_le_cancel_left1)

lemma fac_loop_holding:
  assumes x: "x \<in> L"
  shows "holding L T k f s \<Longrightarrow> int_fits (f x * int (fact (unat n - 1))) \<Longrightarrow>
    \<exists>s'. fac_loop x n s = Some (Inr s') \<and> holding L T k (f(x := f x * int (fact (unat n - 1)))) s'"
proof (induction "unat n" arbitrary: n f s rule: less_induct)
  case less
  show ?case
  proof (cases "n > 2")
    case True
    then have n: "2 < unat n" by (simp add: word_less_nat_alt)
    then have u: "unat (n - 1) = unat n - 1" by (intro unat_minus_1) (simp add: word_less_nat_alt)
    have F: "int (unat (n - 1)) * int (fact (unat (n - 1) - 1)) = int (fact (unat n - 1))"
      unfolding u using n by (subst (2) fact_reduce) auto
    obtain s1 where s1: "mpz_mul_ui x x (n - 1) s = Inr s1" "holding L T k (f(x := f x * int (unat (n - 1)))) s1"
      using mpz_mul_ui_holding [OF less.prems(1) x x fits_factor [OF less.prems(2)], of "n - 1"] by auto
    from less.hyps [OF _ s1(2), of "n - 1"] obtain s' where "fac_loop x (n - 1) s1 = Some (Inr s')" "holding L T k (f(x := f x * int (fact (unat n - 1)))) s'"
      using less.prems(2) u n unfolding fun_upd_same fun_upd_upd mult.assoc F by auto
    then show ?thesis using s1(1) True by (subst fac_loop.simps) (simp add: Let_def)
  next
    case False
    then have "unat n = 0 \<or> unat n = 1 \<or> unat n = 2" by (auto simp: word_less_nat_alt)
    then show ?thesis using False less.prems(1) by (subst fac_loop.simps) auto
  qed
qed

lemma mpz_fac_ui_holding:
  assumes h: "holding L T k f s" and v: "x \<in> L" "int_fits (fact (unat n))"
  shows "\<exists>s'. mpz_fac_ui x n s = Inr s' \<and> holding L T k (f(x := fact (unat n))) s'"
proof -
  obtain s1 where s1: "mpz_set_ui x (n + of_bool (n = 0)) s = Inr s1" "holding L T k (f(x := int (unat (n + of_bool (n = 0))))) s1"
    using mpz_set_ui_holding [OF h v(1)] by blast
  have F: "int (unat (n + of_bool (n = 0))) * int (fact (unat n - 1)) = fact (unat n)"
    by (cases "unat n") (auto simp: unat_eq_zero)
  obtain s2 where "fac_loop x n s1 = Some (Inr s2)" "holding L T k (f(x := fact (unat n))) s2"
    using fac_loop_holding [OF v(1) s1(2), of n] v(2) unfolding fun_upd_same fun_upd_upd F by auto
  then show ?thesis using s1(1) by (simp add: mpz_fac_ui_def returns_def)
qed

subsection \<open>Binomial coefficients\<close>

text \<open>The product of the \<open>k\<close> numbers from \<open>n\<close> downwards.\<close>

lemma falling_step:
  assumes "0 < k" "k \<le> n"
  shows "n * ((n - 1 choose (k - 1)) * fact (k - 1)) = (n choose k) * fact k"
proof -
  have "n * (n - 1 choose (k - 1)) = k * (n choose k)" using Suc_times_binomial [of "k - 1" "n - 1"] assms by simp
  then have "n * ((n - 1 choose (k - 1)) * fact (k - 1)) = k * (n choose k) * fact (k - 1)" by (simp only: mult.assoc [symmetric])
  also have "\<dots> = (n choose k) * fact k" using assms(1) by (simp add: fact_reduce [of k])
  finally show ?thesis .
qed

lemma bin_loop_holding:
  assumes r: "r \<in> L"
  shows "holding L T j f s \<Longrightarrow> k \<le> n \<Longrightarrow> int_fits (f r * int ((unat n choose unat k) * fact (unat k))) \<Longrightarrow>
    \<exists>s'. bin_loop r n k s = Some (Inr s') \<and> holding L T j (f(r := f r * int ((unat n choose unat k) * fact (unat k)))) s'"
proof (induction "unat k" arbitrary: n k f s rule: less_induct)
  case less
  have kn: "unat k \<le> unat n" using less.prems(2) by (simp add: word_le_nat_alt)
  show ?case
  proof (cases "k > 0")
    case True
    then have p: "0 < unat k" "0 < n" using less.prems(2) by (auto simp: unat_gt_0 word_gt_0)
    have u: "unat (k - 1) = unat k - 1" "unat (n - 1) = unat n - 1" using True p(2) by (simp_all add: unat_minus_1)
    have F: "int (unat n) * int ((unat (n - 1) choose unat (k - 1)) * fact (unat (k - 1))) = int ((unat n choose unat k) * fact (unat k))"
      unfolding u falling_step [OF p(1) kn, symmetric] by simp
    have "0 < (unat n choose unat k) * fact (unat k)" using kn by simp
    then obtain s1 where s1: "mpz_mul_ui r r n s = Inr s1" "holding L T j (f(r := f r * int (unat n))) s1"
      using mpz_mul_ui_holding [OF less.prems(1) r r fits_factor [OF less.prems(3)], of n] by auto
    have "k - 1 \<le> n - 1" using kn u by (simp add: word_le_nat_alt)
    then obtain s' where "bin_loop r (n - 1) (k - 1) s1 = Some (Inr s')" "holding L T j (f(r := f r * int ((unat n choose unat k) * fact (unat k)))) s'"
      using less.hyps [OF _ s1(2), of "k - 1" "n - 1"] less.prems(3) u p unfolding fun_upd_same fun_upd_upd mult.assoc F by auto
    then show ?thesis using s1(1) True by (subst bin_loop.simps) simp
  next
    case False
    then show ?thesis using less.prems(1) by (subst bin_loop.simps) (simp add: word_gt_0)
  qed
qed

text \<open>The number of factors is the smaller one of \<open>k\<close> and \<open>n - k\<close>.\<close>

lemma bin_factors:
  fixes n k :: u64
  assumes "int_fits (int ((unat n choose unat k) * fact (min (unat k) (unat n - unat k))))"
  defines "k' \<equiv> (if k > drop_bit 1 n then if k \<le> n then n - k else 0 else k)" and "R \<equiv> int (of_bool (k \<le> n))"
  shows "k' \<le> n" "R * int (unat n choose unat k') = int (unat n choose unat k)"
    "int_fits (R * int ((unat n choose unat k') * fact (unat k')))" "int_fits (fact (unat k'))"
proof -
  have d: "unat (drop_bit 1 n) = unat n div 2" by (simp add: drop_bit_eq_div unat_div)
  consider (low) "unat k \<le> unat n div 2" | (high) "unat n div 2 < unat k" "unat k \<le> unat n" | (out) "unat n < unat k" by linarith
  then have "(unat k' = min (unat k) (unat n - unat k) \<and> unat k \<le> unat n \<and> R = 1 \<and> (unat n choose unat k') = (unat n choose unat k)) \<or>
      (unat k' = 0 \<and> unat n < unat k \<and> R = 0)"
  proof cases
    case low
    then show ?thesis using d by (auto simp: k'_def R_def word_le_nat_alt word_less_nat_alt)
  next
    case high
    then show ?thesis using d binomial_symmetric [of "unat k" "unat n"] by (auto simp: k'_def R_def word_le_nat_alt word_less_nat_alt unat_sub)
  next
    case out
    then show ?thesis using d by (auto simp: k'_def R_def word_le_nat_alt word_less_nat_alt)
  qed
  note c = this
  show "k' \<le> n" using c by (auto simp: word_le_nat_alt)
  show "R * int (unat n choose unat k') = int (unat n choose unat k)" using c by auto
  show f: "int_fits (R * int ((unat n choose unat k') * fact (unat k')))" using c assms(1) small_fits [of 0] by auto
  show "int_fits (fact (unat k'))"
  proof (cases "R = 0")
    case True
    then show ?thesis using c small_fits [of 1] by auto
  next
    case False
    then have "R = 1" "0 < (unat n choose unat k')" using c by auto
    then show ?thesis using fits_factor [of "fact (unat k')" "unat n choose unat k'"] f by (simp add: mult.commute)
  qed
qed

lemma mpz_bin_uiui_holding:
  assumes h: "holding L T j f s" and v: "r \<in> L" "int_fits (int ((unat n choose unat k) * fact (min (unat k) (unat n - unat k))))"
  shows "\<exists>s'. mpz_bin_uiui r n k s = Inr s' \<and> holding L T j (f(r := int (unat n choose unat k))) s'"
proof -
  define k' where "k' = (if k > drop_bit 1 n then if k \<le> n then n - k else 0 else k)"
  define R where "R = int (of_bool (k \<le> n))"
  obtain s1 where s1: "mpz_set_ui r (of_bool (k \<le> n)) s = Inr s1" "holding L T j (f(r := R)) s1"
    using mpz_set_ui_holding [OF h v(1), of "of_bool (k \<le> n)"] by (cases "k \<le> n") (auto simp: R_def)
  note k' = bin_factors [OF v(2), folded k'_def R_def]
  note n = new_var_holding [OF s1(2)]
  obtain s0 where s0: "new_var s1 = (j, s0)" "snd (new_var s1) = s0" using n(1) by auto
  have m: "j \<in> insert j L" "r \<in> insert j L" "j \<noteq> r" using v n(2) by auto
  obtain s2 where s2: "mpz_fac_ui j k' (mpz_init j s0) = Inr s2" "holding (insert j L) T (Suc j) (f(r := R, j := fact (unat k'))) s2"
    using mpz_fac_ui_holding [OF n(3) m(1) k'(4)] unfolding s0(2) fun_upd_upd by blast
  let ?P = "int ((unat n choose unat k') * fact (unat k'))"
  obtain s3 where s3: "bin_loop r n k' s2 = Some (Inr s3)" "holding (insert j L) T (Suc j) (f(j := fact (unat k'), r := R * ?P)) s3"
    using bin_loop_holding [OF m(2) s2(2) k'(1)] k'(3) m(3) by (auto simp: fun_upd_twist)
  have "R * ?P div fact (unat k') = int (unat n choose unat k)" unfolding k'(2) [symmetric] by (simp flip: mult.assoc)
  then obtain s4 where s4: "mpz_divexact r r j s3 = Inr s4" "holding (insert j L) T (Suc j) (f(j := fact (unat k'), r := int (unat n choose unat k))) s4"
    using mpz_divexact_holding [OF s3(2) m(2,2,1)] m(3) k'(3,4) by auto
  obtain s5 where s5: "mpz_clear j s4 = Inr s5" "holding L T j (f(j := fact (unat k'), r := int (unat n choose unat k))) (drop_var s5)"
    using mpz_clear_holding [OF s4(2) n(2)] by blast
  have "mpz_bin_uiui r n k s = Inr (drop_var s5)"
    unfolding mpz_bin_uiui_def Let_def s1(1) bindE_simps k'_def [symmetric] s0(1) prod.case s2(1) s3(1) returns_def option.case s4(1) s5(1) ..
  moreover have "holding L T j (f(r := int (unat n choose unat k))) (drop_var s5)" by (rule holding_cong [OF s5(2)]) (use n(2) in auto)
  ultimately show ?thesis by blast
qed

subsection \<open>Properties\<close>

text \<open>
  C33: powers. \<open>mpz_pow_ui\<close>, which squares and multiplies along the bits of the exponent, ends and stores the power, for every base
  and every exponent for which the power fits, also when base and result are the same variable.
\<close>

theorem mpz_pow_ui_value:
  assumes "mpz_wf L T s" "r \<in> L" "b \<in> L" "int_fits (zval s b ^ unat e)"
  shows "\<exists>s'. mpz_pow_ui r b e s = Inr s' \<and> mpz_wf L T s' \<and> zval s' r = zval s b ^ unat e \<and> (\<forall>x\<in>L. x \<noteq> r \<longrightarrow> zval s' x = zval s x)"
  using mpz_pow_ui_holding [OF holdingI [OF assms(1)] assms(2-)] assms(2) by (auto simp: holding_def)

theorem mpz_pow_ui_value_witness:
  "\<exists>s'. mpz_pow_ui 2 0 3 sample_ints = Inr s' \<and> zval s' 2 = - 343 \<and> zval s' 0 = - 7"
  using mpz_pow_ui_value [OF sample_ints_wf, of 2 0 3] by (auto simp: sample_ints_values small_fits)

text \<open>
  Combinatorics. The loops of \<open>mpz_fac_ui\<close> and \<open>mpz_bin_uiui\<close> end and the functions store the factorial and the binomial
  coefficient, also 0 when more is chosen than there is; the division at the end is exact. What has
  to fit is the product before that division.
\<close>

theorem mpz_combinatorics:
  assumes "mpz_wf L T s" "r \<in> L" "int_fits (fact (unat m))" "int_fits (int ((unat n choose unat k) * fact (min (unat k) (unat n - unat k))))"
  shows "(\<exists>s'. mpz_fac_ui r m s = Inr s' \<and> mpz_wf L T s' \<and> zval s' r = fact (unat m)) \<and>
    (\<exists>s'. mpz_bin_uiui r n k s = Inr s' \<and> mpz_wf L T s' \<and> zval s' r = int (unat n choose unat k))"
  using mpz_fac_ui_holding [OF holdingI [OF assms(1)] assms(2,3)] mpz_bin_uiui_holding [OF holdingI [OF assms(1)] assms(2,4)] assms(2)
  unfolding holding_def by (metis (no_types, lifting) fun_upd_same)

theorem mpz_combinatorics_witness:
  "(\<exists>s'. mpz_fac_ui 2 5 sample_ints = Inr s' \<and> zval s' 2 = 120) \<and> (\<exists>s'. mpz_bin_uiui 2 6 4 sample_ints = Inr s' \<and> zval s' 2 = 15)"
proof -
  have "fact 5 = (120 :: int)" "fact (min 4 (6 - 4)) = (2 :: nat)" "(6 choose 4) = (15 :: nat)" by code_simp+
  then show ?thesis using mpz_combinatorics [OF sample_ints_wf, of 2 5 6 4] by (auto simp: small_fits)
qed

end
