(* ===== verification/Mpz_Gcd.thy ===== *)
theory Mpz_Gcd
  imports Mpz_Div_2exp
begin

section \<open>Greatest common divisors of integers\<close>

text \<open>
  The greatest common divisor of \<open>mini-gmp.c\<close>: factors of two are removed by scanning for the lowest bit, one division makes the two
  numbers comparable in size, and then differences are taken until the numbers are equal or the smaller one is a
  single limb. Whether the loop ends depends on the values, so it is a partial function; it is shown to
  end for all arguments.
\<close>

declare of_nat_unat [simp del]

subsection \<open>Definitions\<close>

definition mpz_make_odd :: "nat \<Rightarrow> mpz_mem \<Rightarrow> (u64 \<times> mpz_mem) res" where
  "mpz_make_odd r s =
     bindE (c_assert (zs s r > 0)) (\<lambda>_.
     bindE (mpn_common_scan (limbs s (zd s r)) 0 (zd s r) 0 0 (limbs s)) (\<lambda>shift.
     bindE (mpz_tdiv_q_2exp r r shift s) (\<lambda>s. Inr (shift, s))))"

text \<open>The last step, when the smaller number is one limb.\<close>

definition gcd_one_limb :: "nat \<Rightarrow> nat \<Rightarrow> nat \<Rightarrow> mpz_mem \<Rightarrow> mpz_mem res" where
  "gcd_one_limb g tu tv s =
     (let vl = limbs s (zd s tv) in
      bindE (mpz_tdiv_ui tu vl s) (\<lambda>(ul, s).
      bindE (mpn_gcd_11 ul vl) (\<lambda>x. mpz_set_ui g x s)))"

partial_function (option) gcd_differences :: "nat \<Rightarrow> nat \<Rightarrow> nat \<Rightarrow> mpz_mem \<Rightarrow> mpz_mem res option" where
  "gcd_differences g tu tv s =
     (case mpz_make_odd tu s of
        Inl e \<Rightarrow> Some (Inl e)
      | Inr (_, s) \<Rightarrow>
          let c = mpz_cmp s tu tv in
          if c = 0 then Some (Inr (mpz_swap g tu s))
          else
            let s = (if c < 0 then mpz_swap tu tv s else s) in
            if zs s tv = 1 then Some (gcd_one_limb g tu tv s)
            else (case mpz_sub tu tu tv s of Inl e \<Rightarrow> Some (Inl e) | Inr s \<Rightarrow> gcd_differences g tu tv s))"

text \<open>
  The two local variables are declared in the opposite order, so that they are released like a stack;
  \<open>mpz_init\<close> only sets the fields of a variable.
\<close>

definition mpz_gcd :: "nat \<Rightarrow> nat \<Rightarrow> nat \<Rightarrow> mpz_mem \<Rightarrow> mpz_mem res" where
  "mpz_gcd g u v s =
     (if zs s u = 0 then mpz_abs g v s
      else if zs s v = 0 then mpz_abs g u s
      else
        let (tv, s) = new_var s; s = mpz_init tv s; (tu, s) = new_var s; s = mpz_init tu s in
        bindE (mpz_abs tu u s) (\<lambda>s.
        bindE (mpz_make_odd tu s) (\<lambda>(uz, s).
        bindE (mpz_abs tv v s) (\<lambda>s.
        bindE (mpz_make_odd tv s) (\<lambda>(vz, s).
        let gz = min uz vz; s = (if zs s tu < zs s tv then mpz_swap tu tv s else s) in
        bindE (mpz_tdiv_r tu tu tv s) (\<lambda>s.
        bindE (if zs s tu = 0 then Inr (mpz_swap g tv s) else bindE (returns (gcd_differences g tu tv s)) (\<lambda>x. x)) (\<lambda>s.
        bindE (mpz_clear tu s) (\<lambda>s.
        bindE (mpz_clear tv (drop_var s)) (\<lambda>s.
        mpz_mul_2exp g g gz (drop_var s))))))))))"

definition mpz_lcm :: "nat \<Rightarrow> nat \<Rightarrow> nat \<Rightarrow> mpz_mem \<Rightarrow> mpz_mem res" where
  "mpz_lcm r u v s =
     (if zs s u = 0 \<or> zs s v = 0 then Inr (set_size r 0 s)
      else
        let (g, s) = new_var s in
        bindE (mpz_gcd g u v (mpz_init g s)) (\<lambda>s.
        bindE (mpz_divexact g u g s) (\<lambda>s.
        bindE (mpz_mul r g v s) (\<lambda>s.
        bindE (mpz_clear g s) (\<lambda>s. mpz_abs r r (drop_var s))))))"

definition mpz_lcm_ui :: "nat \<Rightarrow> nat \<Rightarrow> u64 \<Rightarrow> mpz_mem \<Rightarrow> mpz_mem res" where
  "mpz_lcm_ui r u v s =
     (if v = 0 \<or> zs s u = 0 then Inr (set_size r 0 s)
      else
        bindE (mpz_gcd_ui None u v s) (\<lambda>(x, s).
        bindE (mpz_mul_ui r u (v div x) s) (mpz_abs r r)))"

subsection \<open>Removing factors of two\<close>

lemma bit_lval:
  assumes "k < 64 * n"
  shows "bit (lval m p n) k \<longleftrightarrow> bit (m (p + k div 64)) (k mod 64)"
proof -
  define i t where "i = k div 64" and "t = k mod 64"
  have k: "k = 64 * i + t" "t < 64" by (simp_all add: i_def t_def)
  then have i: "i < n" using assms by linarith
  then obtain j where j: "n = i + Suc j" using less_imp_Suc_add by auto
  have B: "BB = 2 ^ t * 2 ^ (64 - t)" using k(2) by (simp add: BB_def flip: power_add)
  have "lval m p n div 2 ^ k = lval m p n div (BB ^ i * 2 ^ t)" unfolding k(1) power_add power_mult BB_def ..
  also have "\<dots> = lval m (p + i) (Suc j) div 2 ^ t" by (rule shifted_value(1) [OF j])
  also have "\<dots> = (unat (m (p + i)) + 2 ^ t * (2 ^ (64 - t) * lval m (p + i + 1) j)) div 2 ^ t" unfolding lval_low B by (simp add: mult.assoc)
  also have "\<dots> = unat (m (p + i)) div 2 ^ t + 2 ^ (64 - t) * lval m (p + i + 1) j" by simp
  finally have "odd (lval m p n div 2 ^ k) \<longleftrightarrow> odd (unat (m (p + i)) div 2 ^ t)" using k(2) by simp
  then show ?thesis unfolding i_def [symmetric] t_def [symmetric] by (simp add: bit_iff_odd [of "lval m p n"] bit_iff_odd [of "unat (m (p + i))", symmetric] bit_unsigned_iff bit_imp_le_length)
qed

lemma lowest_bit:
  assumes "N = x * 2 ^ j" "odd (x :: nat)"
  shows "bit N j" "i < j \<Longrightarrow> \<not> bit N i"
proof -
  show "bit N j" using assms by (simp add: bit_iff_odd)
  assume i: "i < j"
  then have "N = x * 2 ^ (j - i) * 2 ^ i" using assms(1) by (simp flip: power_add add: mult.assoc)
  then show "\<not> bit N i" using i by (simp add: bit_iff_odd)
qed

lemma mpz_make_odd_holding:
  assumes h: "holding L T k f s" and r: "r \<in> L" "f r > 0" "int_fits (f r)"
  shows "\<exists>j x s'. mpz_make_odd r s = Inr (word_of_nat j, s') \<and> unat (word_of_nat j :: u64) = j \<and> f r = x * 2 ^ j \<and> odd x \<and> x > 0 \<and> holding L T k (f(r := x)) s'"
proof -
  have z: "zs s r > 0" using holding_sgn [OF h r(1)] r(2) by (simp add: sgn_if split: if_splits)
  have N: "int (zabs s r) = f r" using holding_abs [OF h r(1)] r(2) by simp
  then have "0 < zabs s r" using r(2) by linarith
  then obtain j x where x: "zabs s r = x * 2 ^ j" "odd x" by (rule power_two_split)
  have "2 ^ j \<le> zabs s r" using x by (cases x) auto
  also have "\<dots> < BB ^ zn s r" by (rule zabs_less)
  also have "\<dots> = 2 ^ (64 * zn s r)" by (simp add: BB_def power_mult)
  finally have j: "j < 64 * zn s r" by (rule power_less_imp_less_exp [rotated]) simp
  have "zn s r < 2 ^ 31" using obj_sizes(3) [OF holdingD(4) [OF h r(1)]] by simp
  then have u: "unat (word_of_nat j :: u64) = j" using j by (intro unat_of_nat64') simp
  have "mpn_common_scan (limbs s (zd s r)) 0 (zd s r) 0 0 (limbs s) = Inr (word_of_nat j)"
    using scan_from [of 0 j 0 "limbs s" "zd s r"] lowest_bit [OF x] bit_lval [of _ "zn s r" "limbs s" "zd s r"] j by (simp add: zabs_def)
  moreover obtain s' where "mpz_tdiv_q_2exp r r (word_of_nat j) s = Inr s'" "holding L T k (f(r := int x)) s'"
  proof -
    have "f r = int x * 2 ^ j" using N x(1) by simp
    then have "div_round GMP_DIV_TRUNC (f r) (2 ^ j) = int x" using r(2) by (simp add: sgn_if)
    then show ?thesis using mpz_div_q_2exp_holding [OF h r(1,1,3), of "word_of_nat j" GMP_DIV_TRUNC] that u by (auto simp: mpz_tdiv_q_2exp_def)
  qed
  ultimately show ?thesis using z u x N
    by (intro exI [of _ j] exI [of _ "int x"] exI [of _ s']) (auto simp: mpz_make_odd_def intro: odd_pos)
qed

subsection \<open>The loop\<close>

lemma gcd_one_limb_holding:
  assumes h: "holding L T k f s" and v: "g \<in> L" "tu \<in> L" "tv \<in> L" "zs s tv = 1"
  shows "\<exists>s'. gcd_one_limb g tu tv s = Inr s' \<and> holding L T k (f(g := gcd (f tu) (f tv))) s'"
proof -
  define vl where "vl = limbs s (zd s tv)"
  have vl: "int (unat vl) = f tv" using holdingD(2) [OF h v(3)] v(4) by (simp add: vl_def zval_def zabs_def)
  have nz: "vl \<noteq> 0" using holding_zero_iff [OF h v(3)] v(4) vl by auto
  obtain ul s1 where s1: "mpz_tdiv_ui tu vl s = Inr (ul, s1)" "int (unat ul) = \<bar>f tu\<bar> mod f tv" "holding L T k f s1"
    using mpz_tdiv_ui_holding [OF h v(2) nz] vl by auto
  have "unat ul = nat \<bar>f tu\<bar> mod unat vl" using s1(2) by (metis abs_ge_zero nat_0_le of_nat_eq_iff vl zmod_int)
  note l = limb_gcd [OF nz this]
  have "int (gcd (nat \<bar>f tu\<bar>) (unat vl)) = gcd (f tu) (f tv)" by (simp add: vl flip: gcd_int_int_eq)
  then show ?thesis using s1(1) l mpz_set_ui_holding [OF s1(3) v(1), of "word_of_nat (gcd (nat \<bar>f tu\<bar>) (unat vl))"]
    by (simp add: gcd_one_limb_def vl_def [symmetric])
qed

lemma gcd_odd_twos: "odd (v :: int) \<Longrightarrow> gcd (x * 2 ^ j) v = gcd x v"
  by (intro gcd_mult_left_right_cancel) (simp add: coprime_power_left_iff)

lemma gcd_minus: "gcd (a - b) b = gcd a (b :: int)"
  by (metis gcd.commute gcd_diff1)

lemma gcd_differences_holding:
  assumes "holding L T k f s" "g \<in> L" "tu \<in> L" "tv \<in> L" "g \<noteq> tu" "g \<noteq> tv" "tu \<noteq> tv"
    and "f tu > 0" "f tv > 0" "odd (f tv)" "int_fits (f tu)" "int_fits (f tv)"
  shows "\<exists>s' h. gcd_differences g tu tv s = Some (Inr s') \<and> holding L T k h s' \<and> h g = gcd (f tu) (f tv) \<and>
    (\<forall>x. x \<noteq> g \<and> x \<noteq> tu \<and> x \<noteq> tv \<longrightarrow> h x = f x)"
  using assms(1,8-)
proof (induction "nat (f tu + f tv)" arbitrary: f s rule: less_induct)
  case less
  obtain j x s1 where s1: "mpz_make_odd tu s = Inr (word_of_nat j, s1)" "f tu = x * 2 ^ j" "odd x" "x > 0" "holding L T k (f(tu := x)) s1"
    using mpz_make_odd_holding [OF less.prems(1) assms(3) less.prems(2,5)] by blast
  have le: "x \<le> f tu" using s1(2,4) by simp
  have G: "gcd (f tu) (f tv) = gcd x (f tv)" unfolding s1(2) by (rule gcd_odd_twos [OF less.prems(4)])
  have c: "mpz_cmp s1 tu tv = sgn (x - f tv)" using mpz_cmp_holding [OF s1(5) assms(3,4)] assms(7) by simp
  show ?case
  proof (cases "x = f tv")
    case True
    have "holding L T k (f(tu := f g, g := x)) (mpz_swap g tu s1)"
      by (rule holding_cong [OF mpz_swap_holding [OF s1(5) assms(2,3)]]) (use assms(5) in auto)
    moreover have "gcd_differences g tu tv s = Some (Inr (mpz_swap g tu s1))"
      by (subst gcd_differences.simps) (simp add: s1(1) c True)
    moreover have "gcd x (f tv) = x" using True s1(4) by simp
    ultimately show ?thesis using G assms(5) by (intro exI [of _ "mpz_swap g tu s1"] exI [of _ "f(tu := f g, g := x)"]) simp
  next
    case False
    define f2 s2 where "f2 = f(tu := max x (f tv), tv := min x (f tv))" and "s2 = (if mpz_cmp s1 tu tv < 0 then mpz_swap tu tv s1 else s1)"
    have h2: "holding L T k f2 s2"
    proof (cases "x < f tv")
      case True
      then have "mpz_cmp s1 tu tv < 0" unfolding c by simp
      then show ?thesis using holding_cong [OF mpz_swap_holding [OF s1(5) assms(3,4)], of f2] True assms(7) by (auto simp: s2_def f2_def)
    next
      case n: False
      then have "\<not> mpz_cmp s1 tu tv < 0" unfolding c by simp
      then show ?thesis using holding_cong [OF s1(5), of f2] n assms(7) by (auto simp: s2_def f2_def)
    qed
    have f2: "f2 tu > f2 tv" "f2 tv > 0" "odd (f2 tv)" "gcd (f2 tu) (f2 tv) = gcd (f tu) (f tv)" "int_fits (f2 tu)" "int_fits (f2 tv)"
        "f2 tu + f2 tv \<le> f tu + f tv" "f2 g = f g" "\<And>y. y \<noteq> tu \<Longrightarrow> y \<noteq> tv \<Longrightarrow> f2 y = f y"
      using False s1(3,4) less.prems le fits_le [OF less.prems(5), of x] assms(5-7) unfolding G
      by (auto simp: f2_def max_def min_def gcd.commute)
    have st: "gcd_differences g tu tv s = (if zs s2 tv = 1 then Some (gcd_one_limb g tu tv s2)
        else (case mpz_sub tu tu tv s2 of Inl e \<Rightarrow> Some (Inl e) | Inr s \<Rightarrow> gcd_differences g tu tv s))"
    proof -
      have "mpz_cmp s1 tu tv \<noteq> 0" unfolding c using False by (simp add: sgn_0_0)
      then show ?thesis by (subst gcd_differences.simps) (simp add: s1(1) s2_def [symmetric])
    qed
    show ?thesis
    proof (cases "zs s2 tv = 1")
      case True
      obtain s3 where s3: "gcd_one_limb g tu tv s2 = Inr s3" "holding L T k (f2(g := gcd (f2 tu) (f2 tv))) s3"
        using gcd_one_limb_holding [OF h2 assms(2-4) True] by blast
      then show ?thesis using st True f2(4,9) by (intro exI [of _ s3] exI [of _ "f2(g := gcd (f2 tu) (f2 tv))"]) simp
    next
      case n: False
      obtain s3 where s3: "mpz_sub tu tu tv s2 = Inr s3" "holding L T k (f2(tu := f2 tu - f2 tv)) s3"
        using mpz_sub_holding [OF h2 assms(3,3,4) f2(5,6)] by blast
      have "\<exists>s' h. gcd_differences g tu tv s3 = Some (Inr s') \<and> holding L T k h s' \<and> h g = gcd (f2 tu - f2 tv) (f2 tv) \<and>
          (\<forall>x. x \<noteq> g \<and> x \<noteq> tu \<and> x \<noteq> tv \<longrightarrow> h x = f2 x)"
        using less.hyps [of "f2(tu := f2 tu - f2 tv)" s3] s3(2) f2 assms(7) fits_le [OF f2(5), of "f2 tu - f2 tv"] by simp
      then show ?thesis using st n s3(1) f2(4,9) unfolding gcd_minus by auto
    qed
  qed
qed

subsection \<open>The functions\<close>

lemma gcd_twos_le:
  assumes "odd (x :: int)" "i \<le> j"
  shows "gcd (x * 2 ^ i) (y * 2 ^ j) = gcd x y * 2 ^ i"
proof -
  have e: "y * 2 ^ j = 2 ^ i * (y * 2 ^ (j - i))" using assms(2) by (simp flip: power_add add: mult.left_commute)
  have "gcd (x * 2 ^ i) (y * 2 ^ j) = 2 ^ i * gcd x (y * 2 ^ (j - i))" unfolding e mult.commute [of x] gcd_mult_distrib_int [symmetric] by simp
  moreover have "gcd x (y * 2 ^ (j - i)) = gcd x y" using gcd_odd_twos [OF assms(1), of y "j - i"] by (simp add: gcd.commute)
  ultimately show ?thesis by simp
qed

lemma gcd_twos_split: "odd (x :: int) \<Longrightarrow> odd y \<Longrightarrow> gcd (x * 2 ^ i) (y * 2 ^ j) = gcd x y * 2 ^ min i j"
  using gcd_twos_le [of x i j y] gcd_twos_le [of y j i x] by (cases "i \<le> j") (simp_all add: gcd.commute min_def)

lemma unat_min: "unat (min a b) = min (unat a) (unat b)"
  by (simp add: min_def word_le_nat_alt)

text \<open>From the two odd numbers to their greatest common divisor.\<close>

lemma gcd_odd_part_holding:
  assumes h: "holding L T k f s" and v: "g \<in> L" "tu \<in> L" "tv \<in> L" "g \<noteq> tu" "g \<noteq> tv" "tu \<noteq> tv"
    and p: "f tu > 0" "f tv > 0" "odd (f tu)" "odd (f tv)" "int_fits (f tu)" "int_fits (f tv)"
  defines "s0 \<equiv> (if zs s tu < zs s tv then mpz_swap tu tv s else s)"
  shows "\<exists>s1 s2 f2. mpz_tdiv_r tu tu tv s0 = Inr s1 \<and>
    (if zs s1 tu = 0 then Inr (mpz_swap g tv s1) else bindE (returns (gcd_differences g tu tv s1)) (\<lambda>x. x)) = Inr s2 \<and>
    holding L T k f2 s2 \<and> f2 g = gcd (f tu) (f tv) \<and> (\<forall>x. x \<noteq> g \<and> x \<noteq> tu \<and> x \<noteq> tv \<longrightarrow> f2 x = f x)"
proof -
  define f0 where "f0 = (if zs s tu < zs s tv then f(tu := f tv, tv := f tu) else f)"
  have h0: "holding L T k f0 s0" using h mpz_swap_holding [OF h v(2,3)] by (simp add: f0_def s0_def)
  have f0: "f0 tu > 0" "f0 tv > 0" "odd (f0 tv)" "int_fits (f0 tu)" "int_fits (f0 tv)" "gcd (f0 tu) (f0 tv) = gcd (f tu) (f tv)"
    "\<And>x. x \<noteq> tu \<Longrightarrow> x \<noteq> tv \<Longrightarrow> f0 x = f x" using p v(6) by (auto simp: f0_def gcd.commute)
  define a where "a = f0 tu mod f0 tv"
  have "a < f0 tv" unfolding a_def by (rule pos_mod_bound [OF f0(2)])
  moreover have "0 \<le> a" using f0(2) by (simp add: a_def)
  ultimately have "int_fits a" by (intro fits_le [OF f0(5)]) simp
  then have a: "0 \<le> a" "gcd a (f0 tv) = gcd (f tu) (f tv)" "int_fits a"
    using f0(2,6) gcd_red_int [of "f0 tu" "f0 tv"] by (auto simp: a_def gcd.commute)
  have "rem_round GMP_DIV_TRUNC (f0 tu) (f0 tv) = a" using f0(1,2) by (simp add: trunc_rem a_def)
  then obtain s1 where s1: "mpz_tdiv_r tu tu tv s0 = Inr s1" "holding L T k (f0(tu := a)) s1"
    using void_holding [OF mpz_div_qr_holding [OF h0 v(2,3) _ f0(4,5), of None "Some tu" GMP_DIV_TRUNC]] f0(2) v(2) by (auto simp: mpz_tdiv_r_def)
  have z: "zs s1 tu = 0 \<longleftrightarrow> a = 0" using holding_zero_iff [OF s1(2) v(2)] by simp
  show ?thesis
  proof (cases "a = 0")
    case True
    have "holding L T k (f0(tu := a, g := f0 tv, tv := f0 g)) (mpz_swap g tv s1)"
      by (rule holding_cong [OF mpz_swap_holding [OF s1(2) v(1,3)]]) (use v in auto)
    moreover have "f0 tv = gcd (f tu) (f tv)" using a(2) True f0(2) by simp
    ultimately show ?thesis using s1(1) z True v f0(7) by (intro exI [of _ s1] exI [of _ "mpz_swap g tv s1"] exI [of _ "f0(tu := a, g := f0 tv, tv := f0 g)"]) auto
  next
    case False
    from gcd_differences_holding [OF s1(2) v] False a f0 v(6) obtain s2 f2 where
      "gcd_differences g tu tv s1 = Some (Inr s2)" "holding L T k f2 s2" "f2 g = gcd (f tu) (f tv)" "\<forall>x. x \<noteq> g \<and> x \<noteq> tu \<and> x \<noteq> tv \<longrightarrow> f2 x = (f0(tu := a)) x"
      by auto
    then show ?thesis using s1(1) z False f0(7) by (intro exI [of _ s1] exI [of _ s2] exI [of _ f2]) (auto simp: returns_def)
  qed
qed

lemma mpz_gcd_holding:
  assumes h: "holding L T k f s" and v: "g \<in> L" "u \<in> L" "v \<in> L" "int_fits (f u)" "int_fits (f v)"
  shows "\<exists>s'. mpz_gcd g u v s = Inr s' \<and> holding L T k (f(g := gcd (f u) (f v))) s'"
proof -
  have z: "zs s u = 0 \<longleftrightarrow> f u = 0" "zs s v = 0 \<longleftrightarrow> f v = 0" using holding_zero_iff [OF h] v by blast+
  consider "f u = 0" | "f u \<noteq> 0" "f v = 0" | (pos) "f u \<noteq> 0" "f v \<noteq> 0" by blast
  then show ?thesis
  proof cases
    case 1
    then show ?thesis using mpz_abs_holding [OF h v(1,3)] z by (simp add: mpz_gcd_def)
  next
    case 2
    then show ?thesis using mpz_abs_holding [OF h v(1,2)] z by (simp add: mpz_gcd_def)
  next
    case pos
    note nv = new_var_holding [OF h]
    obtain s0 where s0: "new_var s = (k, s0)" "snd (new_var s) = s0" using nv(1) by auto
    note h0 = nv(3) [unfolded s0(2)]
    note nu = new_var_holding [OF h0]
    obtain s1 where s1: "new_var (mpz_init k s0) = (Suc k, s1)" "snd (new_var (mpz_init k s0)) = s1" using nu(1) by auto
    define L2 where "L2 = insert (Suc k) (insert k L)"
    have h1: "holding L2 T (Suc (Suc k)) (f(k := 0, Suc k := 0)) (mpz_init (Suc k) s1)" using nu(3) unfolding s1(2) L2_def .
    have m: "k \<in> L2" "Suc k \<in> L2" "g \<in> L2" "u \<in> L2" "v \<in> L2" using v by (auto simp: L2_def)
    have d: "g \<noteq> k" "u \<noteq> k" "v \<noteq> k" "g \<noteq> Suc k" "u \<noteq> Suc k" "v \<noteq> Suc k" using v nv(2) nu(2) by auto
    obtain s2 where s2: "mpz_abs (Suc k) u (mpz_init (Suc k) s1) = Inr s2" "holding L2 T (Suc (Suc k)) (f(k := 0, Suc k := \<bar>f u\<bar>)) s2"
      using mpz_abs_holding [OF h1 m(2,4)] d by auto
    obtain i x s3 where s3: "mpz_make_odd (Suc k) s2 = Inr (word_of_nat i, s3)" "unat (word_of_nat i :: u64) = i" "\<bar>f u\<bar> = x * 2 ^ i" "odd x" "x > 0"
        "holding L2 T (Suc (Suc k)) (f(k := 0, Suc k := x)) s3"
      using mpz_make_odd_holding [OF s2(2) m(2)] pos fits_le [OF v(4), of "\<bar>f u\<bar>"] by auto
    obtain s4 where s4: "mpz_abs k v s3 = Inr s4" "holding L2 T (Suc (Suc k)) (f(Suc k := x, k := \<bar>f v\<bar>)) s4"
      using mpz_abs_holding [OF s3(6) m(1,5)] d by (auto simp: fun_upd_twist)
    obtain j y s5 where s5: "mpz_make_odd k s4 = Inr (word_of_nat j, s5)" "unat (word_of_nat j :: u64) = j" "\<bar>f v\<bar> = y * 2 ^ j" "odd y" "y > 0"
        "holding L2 T (Suc (Suc k)) (f(Suc k := x, k := y)) s5"
      using mpz_make_odd_holding [OF s4(2) m(1)] pos fits_le [OF v(5), of "\<bar>f v\<bar>"] by auto
    have p: "int_fits x" "int_fits y"
      using fits_le [OF v(4), of x] fits_le [OF v(5), of y] s3(3,5) s5(3,5) by auto
    obtain s7 s8 f8 where s8: "mpz_tdiv_r (Suc k) (Suc k) k (if zs s5 (Suc k) < zs s5 k then mpz_swap (Suc k) k s5 else s5) = Inr s7"
      "(if zs s7 (Suc k) = 0 then Inr (mpz_swap g k s7) else bindE (returns (gcd_differences g (Suc k) k s7)) (\<lambda>x. x)) = Inr s8"
      "holding L2 T (Suc (Suc k)) f8 s8" "f8 g = gcd x y" "\<forall>z. z \<noteq> g \<and> z \<noteq> Suc k \<and> z \<noteq> k \<longrightarrow> f8 z = f z"
      using gcd_odd_part_holding [OF s5(6) m(3,2,1) d(4,1)] s3 s5 p by auto
    obtain s9 where s9: "mpz_clear (Suc k) s8 = Inr s9" "holding (insert k L) T (Suc k) f8 (drop_var s9)"
      using mpz_clear_holding [OF s8(3) [unfolded L2_def] nu(2)] by blast
    obtain s10 where s10: "mpz_clear k (drop_var s9) = Inr s10" "holding L T k f8 (drop_var s10)"
      using mpz_clear_holding [OF s9(2) nv(2)] by blast
    have G: "gcd x y * 2 ^ unat (min (word_of_nat i) (word_of_nat j) :: u64) = gcd (f u) (f v)"
      using gcd_twos_split [OF s3(4) s5(4), of i j] unfolding unat_min s3(2) s5(2) s3(3) [symmetric] s5(3) [symmetric] by simp
    have "int_fits (gcd (f u) (f v))" using pos by (intro fits_le [OF v(4)]) (simp add: zdvd_imp_le)
    then obtain s11 where s11: "mpz_mul_2exp g g (min (word_of_nat i) (word_of_nat j)) (drop_var s10) = Inr s11" "holding L T k (f8(g := gcd (f u) (f v))) s11"
      using mpz_mul_2exp_holding [OF s10(2) v(1,1), of "min (word_of_nat i) (word_of_nat j)"] unfolding s8(4) G by blast
    have "holding L T k (f(g := gcd (f u) (f v))) s11"
      by (rule holding_cong [OF s11(2)]) (use s8(5) nv(2) nu(2) in auto)
    moreover have "mpz_gcd g u v s = Inr s11"
      unfolding mpz_gcd_def Let_def s0(1) s1(1) prod.case s2(1) bindE_simps s3(1) s4(1) s5(1) s8(1,2) s9(1) s10(1) s11(1) using z pos by simp
    ultimately show ?thesis by blast
  qed
qed

lemma lcm_product: "\<bar>a div gcd a b * b\<bar> = lcm a (b :: int)"
proof -
  have "a div gcd a b * b = a * b div gcd a b" by (simp add: dvd_div_mult)
  then show ?thesis by (simp add: lcm_gcd)
qed

lemma mpz_lcm_holding:
  assumes h: "holding L T k f s" and v: "r \<in> L" "u \<in> L" "v \<in> L" "int_fits (f u)" "int_fits (f v)" "int_fits (lcm (f u) (f v))"
  shows "\<exists>s'. mpz_lcm r u v s = Inr s' \<and> holding L T k (f(r := lcm (f u) (f v))) s'"
proof (cases "f u = 0 \<or> f v = 0")
  case True
  then show ?thesis using set_size_0_holding [OF h v(1)] holding_zero_iff [OF h v(2)] holding_zero_iff [OF h v(3)] by (auto simp: mpz_lcm_def)
next
  case False
  then have z: "\<not> (zs s u = 0 \<or> zs s v = 0)" using holding_zero_iff [OF h v(2)] holding_zero_iff [OF h v(3)] by simp
  note n = new_var_holding [OF h]
  obtain s0 where s0: "new_var s = (k, s0)" "snd (new_var s) = s0" using n(1) by auto
  note h0 = n(3) [unfolded s0(2)]
  let ?G = "gcd (f u) (f v)"
  have d: "u \<noteq> k" "v \<noteq> k" "r \<noteq> k" using v n(2) by auto
  have m: "k \<in> insert k L" "u \<in> insert k L" "v \<in> insert k L" "r \<in> insert k L" using v by auto
  obtain s1 where s1: "mpz_gcd k u v (mpz_init k s0) = Inr s1" "holding (insert k L) T (Suc k) (f(k := ?G)) s1"
    using mpz_gcd_holding [OF h0 m(1-3)] v d by auto
  have "int_fits ?G" using False by (intro fits_le [OF v(4)]) (simp add: zdvd_imp_le)
  then obtain s2 where s2: "mpz_divexact k u k s1 = Inr s2" "holding (insert k L) T (Suc k) (f(k := f u div ?G)) s2"
    using mpz_divexact_holding [OF s1(2) m(1,2,1)] d False v(4) by auto
  have "\<bar>f u div ?G * f v\<bar> = lcm (f u) (f v)" by (rule lcm_product)
  then have "int_fits (f u div ?G * f v)" by (intro fits_le [OF v(6)]) simp
  then obtain s3 where s3: "mpz_mul r k v s2 = Inr s3" "holding (insert k L) T (Suc k) (f(k := f u div ?G, r := f u div ?G * f v)) s3"
    using mpz_mul_holding [OF s2(2) m(4,1,3)] d by auto
  obtain s4 where s4: "mpz_clear k s3 = Inr s4" "holding L T k (f(k := f u div ?G, r := f u div ?G * f v)) (drop_var s4)"
    using mpz_clear_holding [OF s3(2) n(2)] by blast
  obtain s5 where s5: "mpz_abs r r (drop_var s4) = Inr s5" "holding L T k (f(k := f u div ?G, r := lcm (f u) (f v))) s5"
    using mpz_abs_holding [OF s4(2) v(1,1)] lcm_product [of "f u" "f v"] by auto
  have "holding L T k (f(r := lcm (f u) (f v))) s5" by (rule holding_cong [OF s5(2)]) (use n(2) in auto)
  moreover have "mpz_lcm r u v s = Inr s5" using z s0(1) s1(1) s2(1) s3(1) s4(1) s5(1) by (simp add: mpz_lcm_def)
  ultimately show ?thesis by blast
qed

lemma mpz_lcm_ui_holding:
  assumes h: "holding L T k f s" and v: "r \<in> L" "u \<in> L" "int_fits (f u)"
  shows "\<exists>s'. mpz_lcm_ui r u x s = Inr s' \<and> holding L T k (f(r := lcm (f u) (int (unat x)))) s'"
proof (cases "x = 0 \<or> f u = 0")
  case True
  then show ?thesis using set_size_0_holding [OF h v(1)] holding_zero_iff [OF h v(2)] by (auto simp: mpz_lcm_ui_def)
next
  case False
  let ?G = "gcd (f u) (int (unat x))"
  obtain y s1 where s1: "mpz_gcd_ui None u x s = Inr (y, s1)" "int (unat y) = ?G" "holding L T k f s1"
    using mpz_gcd_ui_holding [OF h v(2), of None x] False by auto
  have "int (unat (x div y)) = int (unat x) div ?G" by (simp add: unat_div s1(2) zdiv_int)
  then obtain s2 where s2: "mpz_mul_ui r u (x div y) s1 = Inr s2" "holding L T k (f(r := f u * (int (unat x) div ?G))) s2"
    using mpz_mul_ui_holding [OF s1(3) v(1,2,3), of "x div y"] by auto
  have "\<bar>f u * (int (unat x) div ?G)\<bar> = lcm (f u) (int (unat x))" using lcm_product [of "int (unat x)" "f u"] by (simp add: gcd.commute lcm.commute mult.commute)
  then show ?thesis using mpz_abs_holding [OF s2(2) v(1,1)] s1(1) s2(1) False holding_zero_iff [OF h v(2)] by (simp add: mpz_lcm_ui_def)
qed

subsection \<open>Properties\<close>

text \<open>
  C28: the greatest common divisor. For all integers, \<open>mpz_gcd\<close> ends and stores their greatest common divisor, whichever of its arguments are the
  same variable; its loop takes differences of odd numbers, which get smaller in every turn. All
  other variables keep their values and no memory is lost.
\<close>

theorem mpz_gcd_terminates:
  assumes "mpz_wf L T s" "g \<in> L" "u \<in> L" "v \<in> L" "int_fits (zval s u)" "int_fits (zval s v)"
  shows "\<exists>s'. mpz_gcd g u v s = Inr s' \<and> mpz_wf L T s' \<and> zval s' g = gcd (zval s u) (zval s v) \<and> (\<forall>x\<in>L. x \<noteq> g \<longrightarrow> zval s' x = zval s x)"
  using mpz_gcd_holding [OF holdingI [OF assms(1)] assms(2-)] assms(2) by (auto simp: holding_def)

theorem mpz_gcd_terminates_witness:
  "\<exists>s'. mpz_gcd 0 0 1 sample_ints = Inr s' \<and> zval s' 0 = 1 \<and> zval s' 1 = 2"
proof -
  have "gcd (- 7) (2 :: int) = 1" by code_simp
  then show ?thesis using mpz_gcd_terminates [OF sample_ints_wf, of 0 0 1] by (auto simp: sample_ints_values small_fits)
qed

text \<open>
  Least common multiples. \<open>mpz_lcm\<close> and \<open>mpz_lcm_ui\<close> store the least common multiple, also of negative numbers and of 0, and
  \<open>mpz_gcd_ui\<close> gives the same divisor as \<open>mpz_gcd\<close>, but returns 0 when its second argument is 0.
\<close>

theorem mpz_lcm_values:
  assumes "mpz_wf L T s" "r \<in> L" "u \<in> L" "v \<in> L" "int_fits (zval s u)" "int_fits (zval s v)" "int_fits (lcm (zval s u) (zval s v))"
  shows "(\<exists>s'. mpz_lcm r u v s = Inr s' \<and> mpz_wf L T s' \<and> zval s' r = lcm (zval s u) (zval s v)) \<and>
    (\<exists>s'. mpz_lcm_ui r u x s = Inr s' \<and> mpz_wf L T s' \<and> zval s' r = lcm (zval s u) (int (unat x))) \<and>
    (\<exists>y s'. mpz_gcd_ui (Some r) u x s = Inr (y, s') \<and> mpz_wf L T s' \<and> zval s' r = gcd (zval s u) (int (unat x)) \<and>
      int (unat y) = (if x = 0 then 0 else zval s' r))"
proof -
  note h = holdingI [OF assms(1)]
  obtain y s' where y: "mpz_gcd_ui (Some r) u x s = Inr (y, s')" "int (unat y) = (if x = 0 then 0 else gcd (zval s u) (int (unat x)))"
      "holding L T (stack s) ((zval s)(r := gcd (zval s u) (int (unat x)))) s'"
    using mpz_gcd_ui_holding [OF h assms(3), of "Some r" x] assms(2) by auto
  have "\<exists>y s'. mpz_gcd_ui (Some r) u x s = Inr (y, s') \<and> mpz_wf L T s' \<and> zval s' r = gcd (zval s u) (int (unat x)) \<and>
      int (unat y) = (if x = 0 then 0 else zval s' r)"
    using y assms(2) by (intro exI [of _ y] exI [of _ s']) (simp add: holding_def)
  then show ?thesis
    using mpz_lcm_holding [OF h assms(2-)] mpz_lcm_ui_holding [OF h assms(2,3,5), of x] assms(2) unfolding holding_def
    by (metis (no_types, lifting) fun_upd_same)
qed

theorem mpz_lcm_values_witness:
  "\<exists>s'. mpz_lcm 2 0 1 sample_ints = Inr s' \<and> zval s' 2 = 14"
proof -
  have "lcm (- 7) (2 :: int) = 14" by code_simp
  then show ?thesis using mpz_lcm_values [OF sample_ints_wf, of 2 0 1 0] by (auto simp: sample_ints_values small_fits)
qed

end
