(* ===== verification/Mpz_Logic.thy ===== *)
theory Mpz_Logic
  imports Mpz_Gcd
begin

section \<open>Logic on integers\<close>

text \<open>
  The bitwise operations of \<open>mini-gmp.c\<close>. Integers are stored as sign and absolute value, but the operations are those on the two's
  complement: limb by limb, the operands are converted to two's complement, combined, and converted back, with
  one carry for each of the three numbers. The results are the bitwise operations on \<open>int\<close>.
\<close>

declare of_nat_unat [simp del]

unbundle bit_operations_syntax

subsection \<open>Definitions\<close>

text \<open>One limb of a negated number: \<open>l = (x ^ m) + c; c = l < c\<close>, where \<open>m\<close> has all bits set to negate and none not to.\<close>

definition twos_limb :: "u64 \<Rightarrow> u64 \<Rightarrow> u64 \<Rightarrow> u64 \<times> u64" where
  "twos_limb x m c = (let l = (x XOR m) + c in (l, of_bool (l < c)))"

fun logic_low ::
    "(u64 \<Rightarrow> u64 \<Rightarrow> u64) \<Rightarrow> u64 \<Rightarrow> u64 \<Rightarrow> u64 \<Rightarrow> nat \<Rightarrow> nat \<Rightarrow> nat \<Rightarrow> nat \<Rightarrow> nat \<Rightarrow> u64 \<Rightarrow> u64 \<Rightarrow> u64 \<Rightarrow> limb_mem \<Rightarrow> u64 \<times> u64 \<times> u64 \<times> limb_mem" where
  "logic_low op ux vx rx rp up vp i 0 uc vc rc m = (uc, vc, rc, m)"
| "logic_low op ux vx rx rp up vp i (Suc n) uc vc rc m =
     (let (ul, uc) = twos_limb (m (up + i)) ux uc;
          (vl, vc) = twos_limb (m (vp + i)) vx vc;
          (rl, rc) = twos_limb (op ul vl) rx rc in
      logic_low op ux vx rx rp up vp (i + 1) n uc vc rc (m(rp + i := rl)))"

fun logic_high :: "(u64 \<Rightarrow> u64) \<Rightarrow> u64 \<Rightarrow> u64 \<Rightarrow> nat \<Rightarrow> nat \<Rightarrow> nat \<Rightarrow> nat \<Rightarrow> u64 \<Rightarrow> u64 \<Rightarrow> limb_mem \<Rightarrow> u64 \<times> limb_mem" where
  "logic_high g e ux rp up i 0 uc rc m = (rc, m)"
| "logic_high g e ux rp up i (Suc n) uc rc m =
     (let (ul, uc) = twos_limb (m (up + i)) ux uc;
          (rl, rc) = twos_limb (g ul) e rc in
      logic_high g e ux rp up (i + 1) n uc rc (m(rp + i := rl)))"

text \<open>
  The part that the three functions have in common. They differ in the operation \<open>op\<close> on the limbs that both numbers have, in the
  operation \<open>g\<close> on the limbs that only the longer number has, with the mask \<open>e\<close> for the result, and in the number
  of limbs of the result.
\<close>

definition logic_op ::
    "(u64 \<Rightarrow> u64 \<Rightarrow> u64) \<Rightarrow> (u64 \<Rightarrow> u64) \<Rightarrow> u64 \<Rightarrow> nat \<Rightarrow> nat \<Rightarrow> nat \<Rightarrow> nat \<Rightarrow> u64 \<Rightarrow> u64 \<Rightarrow> u64 \<Rightarrow> mpz_mem \<Rightarrow> mpz_mem res" where
  "logic_op op g e r u v rn uc vc rc s =
     (let vn = zn s v; ux = - uc; vx = - vc; rx = - rc in
      bindE (MPZ_REALLOC r (int rn + int (unat rc)) s) (\<lambda>(rp, s).
      let up = zd s u; vp = zd s v; (uc, vc, rc, m) = logic_low op ux vx rx rp up vp 0 vn uc vc rc (limbs s) in
      bindE (c_assert (vc = 0)) (\<lambda>_.
      let (rc, m) = logic_high g e ux rp up vn (rn - vn) uc rc m;
          (rn, m) = (if rc \<noteq> 0 then (rn + 1, m(rp + rn := rc)) else (mpn_normalized_size m rp rn, m)) in
      Inr (set_size r (if rx \<noteq> 0 then - int rn else int rn) (s\<lparr>limbs := m\<rparr>)))))"

definition mpz_and :: "nat \<Rightarrow> nat \<Rightarrow> nat \<Rightarrow> mpz_mem \<Rightarrow> mpz_mem res" where
  "mpz_and r u v s =
     (let (u, v) = (if zn s u < zn s v then (v, u) else (u, v)) in
      if zn s v = 0 then Inr (set_size r 0 s)
      else
        let uc = of_bool (zs s u < 0); vc = of_bool (zs s v < 0); rc = uc AND vc; vx = - vc; rx = - rc in
        logic_op (\<lambda>ul vl. ul AND vl) (\<lambda>ul. ul AND vx) rx r u v (if vx \<noteq> 0 then zn s u else zn s v) uc vc rc s)"

definition mpz_ior :: "nat \<Rightarrow> nat \<Rightarrow> nat \<Rightarrow> mpz_mem \<Rightarrow> mpz_mem res" where
  "mpz_ior r u v s =
     (let (u, v) = (if zn s u < zn s v then (v, u) else (u, v)) in
      if zn s v = 0 then mpz_set r u s
      else
        let uc = of_bool (zs s u < 0); vc = of_bool (zs s v < 0); rc = uc OR vc; vx = - vc; rx = - rc in
        logic_op (\<lambda>ul vl. ul OR vl) (\<lambda>ul. ul OR vx) rx r u v (if vx \<noteq> 0 then zn s v else zn s u) uc vc rc s)"

definition mpz_xor :: "nat \<Rightarrow> nat \<Rightarrow> nat \<Rightarrow> mpz_mem \<Rightarrow> mpz_mem res" where
  "mpz_xor r u v s =
     (let (u, v) = (if zn s u < zn s v then (v, u) else (u, v)) in
      if zn s v = 0 then mpz_set r u s
      else
        let uc = of_bool (zs s u < 0); vc = of_bool (zs s v < 0); rc = uc XOR vc; ux = - uc in
        logic_op (\<lambda>ul vl. ul XOR vl) (\<lambda>ul. ul) ux r u v (zn s u) uc vc rc s)"

definition mpz_com :: "nat \<Rightarrow> nat \<Rightarrow> mpz_mem \<Rightarrow> mpz_mem res" where
  "mpz_com r u s = bindE (mpz_neg r u s) (mpz_sub_ui r r 1)"

subsection \<open>Limbs of the two's complement\<close>

definition tc :: "int \<Rightarrow> nat \<Rightarrow> u64" where
  "tc z i = word_of_int (drop_bit (64 * i) z)"

lemma bit_tc: "bit (tc z i) j \<longleftrightarrow> j < 64 \<and> bit z (64 * i + j)"
  by (simp add: tc_def bit_word_of_int_iff bit_drop_bit_eq)

lemma tc_logic:
  "tc z i AND tc y i = tc (z AND y) i" "tc z i OR tc y i = tc (z OR y) i" "tc z i XOR tc y i = tc (z XOR y) i"
  by (rule bit_eqI; auto simp: bit_tc bit_and_iff bit_or_iff bit_xor_iff)+

lemma tc_lval: "i < n \<Longrightarrow> tc (int (lval m p n)) i = m (p + i)"
proof (rule bit_eqI)
  fix j assume i: "i < n" and "possible_bit TYPE(u64) j"
  then have j: "j < 64" by (simp add: possible_bit_def)
  then have "64 * i + j < 64 * n" using i by linarith
  from bit_lval [OF this, of m p] j show "bit (tc (int (lval m p n)) i) j = bit (m (p + i)) j"
    by (simp add: bit_tc bit_of_nat_iff_bit)
qed

lemma tc_div: "tc z i = word_of_int (z div int BB ^ i)"
proof -
  have "(2 :: int) ^ (64 * i) = int BB ^ i" by (simp add: BB_def power_mult)
  then show ?thesis by (simp add: tc_def drop_bit_eq_div)
qed

lemma tc_extend:
  assumes "- (int BB ^ n) \<le> z" "z < int BB ^ n" "n \<le> i"
  shows "tc z i = - of_bool (z < 0)"
proof -
  have "int BB ^ n \<le> int BB ^ i" using assms(3) by (intro power_increasing) (auto simp: BB_def)
  then have z: "- (int BB ^ i) \<le> z" "z < int BB ^ i" using assms(1,2) by linarith+
  show ?thesis
  proof (cases "z < 0")
    case True
    have "z div int BB ^ i = - 1" using z True by (intro int_div_pos_eq [of _ _ _ "z + int BB ^ i"]) auto
    then show ?thesis using True by (simp add: tc_div)
  next
    case False
    then have "z div int BB ^ i = 0" using z by simp
    then show ?thesis using False by (simp add: tc_div)
  qed
qed

lemma tc_0_iff: "tc z i = 0 \<longleftrightarrow> z div int BB ^ i mod int BB = 0"
proof -
  have "tc z i = 0 \<longleftrightarrow> 2 ^ 64 dvd z div int BB ^ i" unfolding tc_div by (simp add: word_of_int_eq_0_iff)
  then show ?thesis by (simp add: BB_def mod_eq_0_iff_dvd)
qed

lemma tc_uminus: "tc (- z) i = NOT (tc z i) + of_bool (z mod int BB ^ i = 0)"
proof -
  have p: "0 < int BB ^ i" by simp
  show ?thesis
  proof (cases "z mod int BB ^ i = 0")
    case True
    then have "- z div int BB ^ i = - (z div int BB ^ i)" using p by (simp add: zdiv_zminus1_eq_if)
    then have "tc (- z) i = - tc z i" by (simp add: tc_div)
    then show ?thesis using True minus_eq_not_plus_1 [of "tc z i"] by simp
  next
    case False
    then have "- z div int BB ^ i = NOT (z div int BB ^ i)" using p by (simp add: zdiv_zminus1_eq_if not_int_def)
    moreover have "word_of_int (NOT x) = NOT (word_of_int x :: u64)" for x
      by (rule bit_eqI) (simp add: bit_word_of_int_iff bit_not_iff)
    ultimately show ?thesis using False by (simp add: tc_div)
  qed
qed

lemma twos_limb_tc:
  assumes "c = of_bool (n \<and> z mod int BB ^ i = 0)" "x XOR mk = tc z i XOR - of_bool n"
  shows "twos_limb x mk c = (tc (if n then - z else z) i, of_bool (n \<and> z mod int BB ^ Suc i = 0))"
proof (cases n)
  case False
  then show ?thesis using assms by (simp add: twos_limb_def)
next
  case True
  have l: "(x XOR mk) + c = tc (- z) i" unfolding tc_uminus assms using True by simp
  have "tc (- z) i < c \<longleftrightarrow> z mod int BB ^ Suc i = 0"
  proof -
    have "z mod int BB ^ Suc i = int BB ^ i * (z div int BB ^ i mod int BB) + z mod int BB ^ i"
      by (simp add: power_Suc2 zmod_zmult2_eq del: power_Suc)
    moreover have "0 \<le> z mod int BB ^ i" "0 \<le> z div int BB ^ i mod int BB" by (simp_all add: BB_def)
    ultimately have "z mod int BB ^ Suc i = 0 \<longleftrightarrow> z mod int BB ^ i = 0 \<and> tc z i = 0"
      unfolding tc_0_iff by (smt (verit) mult_eq_0_iff mult_nonneg_nonneg of_nat_0_le_iff power_eq_0_iff zero_le_power BB_pos of_nat_0_less_iff)
    moreover have "tc (- z) i < c \<longleftrightarrow> z mod int BB ^ i = 0 \<and> tc (- z) i = 0" using assms(1) True by (auto simp: word_less_nat_alt unat_eq_zero)
    moreover have "tc (- z) i = 0 \<longleftrightarrow> tc z i = 0" if "z mod int BB ^ i = 0"
      using that unfolding tc_uminus by (simp add: minus_eq_not_plus_1 [symmetric])
    ultimately show ?thesis by auto
  qed
  then show ?thesis using l True by (simp add: twos_limb_def Let_def)
qed

subsection \<open>The loops\<close>

lemma logic_low_ok:
  assumes f: "fwd rp up N" "fwd rp vp N"
    and op: "\<And>j. op (tc (if a then - U else U) j) (tc (if b then - V else V) j) = tc Z j"
  shows "\<forall>j. i \<le> j \<and> j < i + n \<longrightarrow> m (up + j) = tc U j \<and> m (vp + j) = tc V j \<Longrightarrow> i + n \<le> N \<Longrightarrow>
    \<exists>m'. logic_low op (- of_bool a) (- of_bool b) (- of_bool c) rp up vp i n
        (of_bool (a \<and> U mod int BB ^ i = 0)) (of_bool (b \<and> V mod int BB ^ i = 0)) (of_bool (c \<and> Z mod int BB ^ i = 0)) m =
      (of_bool (a \<and> U mod int BB ^ (i + n) = 0), of_bool (b \<and> V mod int BB ^ (i + n) = 0), of_bool (c \<and> Z mod int BB ^ (i + n) = 0), m') \<and>
      same_outside (rp + i) n m m' \<and> (\<forall>j. i \<le> j \<and> j < i + n \<longrightarrow> m' (rp + j) = tc (if c then - Z else Z) j)"
proof (induction n arbitrary: i m)
  case 0
  then show ?case by auto
next
  case (Suc n)
  let ?m = "m(rp + i := tc (if c then - Z else Z) i)"
  have d: "m (up + i) = tc U i" "m (vp + i) = tc V i" using Suc.prems(1) by auto
  have "up + j \<noteq> rp + i" "vp + j \<noteq> rp + i" if "i < j" "j < Suc i + n" for j
    using f that Suc.prems(2) by (auto simp: fwd_def)
  then have "\<forall>j. Suc i \<le> j \<and> j < Suc i + n \<longrightarrow> ?m (up + j) = tc U j \<and> ?m (vp + j) = tc V j"
    using Suc.prems(1) by auto
  from Suc.IH [OF this] Suc.prems(2) [folded add_Suc_shift] obtain m' where m': "logic_low op (- of_bool a) (- of_bool b) (- of_bool c) rp up vp (Suc i) n
        (of_bool (a \<and> U mod int BB ^ Suc i = 0)) (of_bool (b \<and> V mod int BB ^ Suc i = 0)) (of_bool (c \<and> Z mod int BB ^ Suc i = 0)) ?m =
      (of_bool (a \<and> U mod int BB ^ (i + Suc n) = 0), of_bool (b \<and> V mod int BB ^ (i + Suc n) = 0), of_bool (c \<and> Z mod int BB ^ (i + Suc n) = 0), m')"
      "same_outside (rp + Suc i) n ?m m'" "\<forall>j. Suc i \<le> j \<and> j < i + Suc n \<longrightarrow> m' (rp + j) = tc (if c then - Z else Z) j"
    unfolding add_Suc_shift by (meson Suc_leD)
  have t: "twos_limb (m (up + i)) (- of_bool a) (of_bool (a \<and> U mod int BB ^ i = 0)) = (tc (if a then - U else U) i, of_bool (a \<and> U mod int BB ^ Suc i = 0))"
    "twos_limb (m (vp + i)) (- of_bool b) (of_bool (b \<and> V mod int BB ^ i = 0)) = (tc (if b then - V else V) i, of_bool (b \<and> V mod int BB ^ Suc i = 0))"
    "twos_limb (tc Z i) (- of_bool c) (of_bool (c \<and> Z mod int BB ^ i = 0)) = (tc (if c then - Z else Z) i, of_bool (c \<and> Z mod int BB ^ Suc i = 0))"
    unfolding d by (rule twos_limb_tc; simp)+
  have o: "same_outside (rp + i) (Suc n) m m'" "m' (rp + i) = tc (if c then - Z else Z) i"
    using same_outside_low [of "rp + i" n m _ m'] m'(2) by simp_all
  have "\<forall>j. i \<le> j \<and> j < i + Suc n \<longrightarrow> m' (rp + j) = tc (if c then - Z else Z) j"
    using m'(3) o(2) by (metis Suc_leI order_le_less)
  then show ?case using o(1) unfolding logic_low.simps t prod.case Let_def op Suc_eq_plus1 [symmetric] m'(1) by blast
qed

lemma logic_high_ok:
  assumes f: "fwd rp up N"
    and op: "\<And>j. i \<le> j \<Longrightarrow> g (tc (if a then - U else U) j) XOR e = tc Z j XOR - of_bool c"
  shows "\<forall>j. i \<le> j \<and> j < i + n \<longrightarrow> m (up + j) = tc U j \<Longrightarrow> i + n \<le> N \<Longrightarrow>
    \<exists>m'. logic_high g e (- of_bool a) rp up i n (of_bool (a \<and> U mod int BB ^ i = 0)) (of_bool (c \<and> Z mod int BB ^ i = 0)) m =
      (of_bool (c \<and> Z mod int BB ^ (i + n) = 0), m') \<and>
      same_outside (rp + i) n m m' \<and> (\<forall>j. i \<le> j \<and> j < i + n \<longrightarrow> m' (rp + j) = tc (if c then - Z else Z) j)"
  using op
proof (induction n arbitrary: i m)
  case 0
  then show ?case by auto
next
  case (Suc n)
  let ?m = "m(rp + i := tc (if c then - Z else Z) i)"
  have d: "m (up + i) = tc U i" using Suc.prems(1) by auto
  have "up + j \<noteq> rp + i" if "i < j" "j < Suc i + n" for j
    using f that Suc.prems(2) by (auto simp: fwd_def)
  then have "\<forall>j. Suc i \<le> j \<and> j < Suc i + n \<longrightarrow> ?m (up + j) = tc U j"
    using Suc.prems(1) by auto
  from Suc.IH [OF this Suc.prems(2) [folded add_Suc_shift] Suc.prems(3)] obtain m' where m': "logic_high g e (- of_bool a) rp up (Suc i) n
        (of_bool (a \<and> U mod int BB ^ Suc i = 0)) (of_bool (c \<and> Z mod int BB ^ Suc i = 0)) ?m =
      (of_bool (c \<and> Z mod int BB ^ (i + Suc n) = 0), m')"
      "same_outside (rp + Suc i) n ?m m'" "\<forall>j. Suc i \<le> j \<and> j < i + Suc n \<longrightarrow> m' (rp + j) = tc (if c then - Z else Z) j"
    unfolding add_Suc_shift by (meson Suc_leD)
  have t: "twos_limb (m (up + i)) (- of_bool a) (of_bool (a \<and> U mod int BB ^ i = 0)) = (tc (if a then - U else U) i, of_bool (a \<and> U mod int BB ^ Suc i = 0))"
    "twos_limb (g (tc (if a then - U else U) i)) e (of_bool (c \<and> Z mod int BB ^ i = 0)) = (tc (if c then - Z else Z) i, of_bool (c \<and> Z mod int BB ^ Suc i = 0))"
    unfolding d by (rule twos_limb_tc; simp add: Suc.prems(3))+
  have o: "same_outside (rp + i) (Suc n) m m'" "m' (rp + i) = tc (if c then - Z else Z) i"
    using same_outside_low [of "rp + i" n m _ m'] m'(2) by simp_all
  have "\<forall>j. i \<le> j \<and> j < i + Suc n \<longrightarrow> m' (rp + j) = tc (if c then - Z else Z) j"
    using m'(3) o(2) by (metis Suc_leI order_le_less)
  then show ?case using o(1) unfolding logic_high.simps t prod.case Let_def Suc_eq_plus1 [symmetric] m'(1) by blast
qed

subsection \<open>The common part\<close>

lemma lval_tc:
  assumes "\<forall>j<n. m (p + j) = tc X j" "0 \<le> X" "X < int BB ^ n"
  shows "int (lval m p n) = X"
proof (rule bit_eqI)
  fix k
  have n: "int BB ^ n = 2 ^ (64 * n)" by (simp add: BB_def power_mult)
  show "bit (int (lval m p n)) k = bit X k"
  proof (cases "k < 64 * n")
    case True
    then have "k div 64 < n" by (simp add: less_mult_imp_div_less mult.commute)
    then show ?thesis using bit_lval [OF True, of m p] assms(1) by (simp add: bit_of_nat_iff_bit bit_tc)
  next
    case False
    have h: "\<not> bit Y k" if "0 \<le> Y" "Y < int BB ^ n" for Y
    proof -
      have "Y < 2 ^ k" using that(2) False power_increasing [of "64 * n" k "2 :: int"] unfolding n by linarith
      then show ?thesis using that(1) by (simp add: bit_iff_odd)
    qed
    have "int (lval m p n) < int BB ^ n" using lval_less [of m p n] by (simp flip: of_nat_power)
    then show ?thesis using h assms(2,3) by simp
  qed
qed

lemma abs_digits:
  assumes h: "holding L T k f s" and g: "grown L T s r n s1" and x: "x \<in> L" "j < zn s x"
  shows "limbs s1 (zd s1 x + j) = tc \<bar>f x\<bar> j"
proof -
  have "int (lval (limbs s1) (zd s1 x) (zn s x)) = \<bar>f x\<bar>" using grown_values(2) [OF g x(1)] holding_abs [OF h x(1)] by simp
  then show ?thesis using tc_lval [OF x(2), of "limbs s1" "zd s1 x"] by simp
qed

lemma abs_bound: "holding L T k f s \<Longrightarrow> x \<in> L \<Longrightarrow> \<bar>f x\<bar> < int BB ^ zn s x"
  using holding_abs [of L T k f s x] zabs_less [of s x] by (metis of_nat_less_iff of_nat_power)

text \<open>The size is stored, with one limb more when the last carry is left.\<close>

lemma logic_size_holding:
  assumes h: "holding L T k f s" and g: "grown L T s r (rn + nat (of_bool c)) s1" and r: "r \<in> L" "c = (Z < 0)"
    and m: "same_outside (zd s1 r) rn (limbs s1) m" "\<forall>j<rn. m (zd s1 r + j) = tc \<bar>Z\<bar> j"
    and z: "- (int BB ^ rn) \<le> Z" "Z < int BB ^ rn" "0 < rn"
    and rc: "rc = (of_bool (c \<and> Z mod int BB ^ rn = 0) :: u64)"
    and rm: "(rn', m') = (if rc \<noteq> 0 then (rn + 1, m(zd s1 r + rn := rc)) else (mpn_normalized_size m (zd s1 r) rn, m))"
  shows "holding L T k (f(r := Z)) (set_size r (if c then - int rn' else int rn') (s1\<lparr>limbs := m'\<rparr>))"
proof -
  have B: "1 < int BB ^ rn" using z(3) by (simp add: BB_def)
  have "rn' \<le> rn + nat (of_bool c) \<and> int (lval m' (zd s1 r) rn') = \<bar>Z\<bar> \<and> (rn' \<noteq> 0 \<longrightarrow> m' (zd s1 r + (rn' - 1)) \<noteq> 0) \<and>
      same_outside (zd s1 r) (rn + nat (of_bool c)) (limbs s1) m'"
  proof (cases "rc = 0")
    case True
    have "\<bar>Z\<bar> < int BB ^ rn"
    proof (cases "Z = - (int BB ^ rn)")
      case neg: True
      then have "Z < 0" "Z mod int BB ^ rn = 0" using B by auto
      then show ?thesis using True rc r(2) by simp
    next
      case False
      then show ?thesis using z by linarith
    qed
    then have "int (lval m (zd s1 r) rn) = \<bar>Z\<bar>" using m(2) by (intro lval_tc) auto
    then show ?thesis using True rm mpn_normalized_size_value [of m "zd s1 r" rn] m(1) by (auto simp: same_outside_def)
  next
    case False
    then have c: "Z < 0" "Z mod int BB ^ rn = 0" "rc = 1" using rc r(2) by (auto split: if_splits)
    then have "int BB ^ rn dvd Z" by (simp add: mod_eq_0_iff_dvd)
    then have Z: "Z = - (int BB ^ rn)" using c(1) z(1) zdvd_imp_le [of "int BB ^ rn" "- Z"] by simp
    have "lval m (zd s1 r) rn = 0"
    proof -
      have "\<forall>j<rn. m (zd s1 r + j) = 0"
      proof (intro allI impI)
        fix j assume j: "j < rn"
        have "\<bar>Z\<bar> div int BB ^ j = int BB ^ (rn - j)" using j B unfolding Z by (simp add: power_diff BB_def)
        then have "int BB dvd \<bar>Z\<bar> div int BB ^ j" using j by (simp add: dvd_power)
        then have "tc \<bar>Z\<bar> j = 0" by (simp add: tc_0_iff mod_eq_0_iff_dvd)
        then show "m (zd s1 r + j) = 0" using m(2) j by simp
      qed
      then show ?thesis by (simp add: lval_def)
    qed
    then have "lval m' (zd s1 r) rn' = BB ^ rn" using rm False c(3) by simp
    then show ?thesis using rm False c(1,3) r(2) m(1) Z by (auto simp: same_outside_def)
  qed
  note x = this
  let ?n = "if c then - int rn' else int rn'"
  have a: "\<bar>?n\<bar> = int rn'" by simp
  have "upd L T s r (sgn ?n * int (lval m' (zd s1 r) (nat \<bar>?n\<bar>))) (set_size r ?n (s1\<lparr>limbs := m'\<rparr>))"
    using x by (intro finish [OF g r(1)]) (auto split: if_splits)
  moreover have "sgn ?n * int (lval m' (zd s1 r) (nat \<bar>?n\<bar>)) = Z"
    using x r(2) unfolding a nat_int by (cases "rn' = 0") (auto simp: sgn_if)
  ultimately show ?thesis using holding_upd [OF h] by simp
qed

lemma logic_op_holding:
  assumes h: "holding L T k f s" and v: "r \<in> L" "u \<in> L" "v \<in> L" "int_fits (f u)"
    and n: "0 < zn s v" "zn s v \<le> rn" "rn \<le> zn s u"
    and op: "\<And>j. op (tc (f u) j) (tc (f v) j) = tc Z j"
    and g: "\<And>j. zn s v \<le> j \<Longrightarrow> g (tc (f u) j) XOR e = tc Z j XOR - of_bool (Z < 0)"
    and z: "- (int BB ^ rn) \<le> Z" "Z < int BB ^ rn"
  shows "\<exists>s'. logic_op op g e r u v rn (of_bool (zs s u < 0)) (of_bool (zs s v < 0)) (of_bool (Z < 0)) s = Inr s' \<and> holding L T k (f(r := Z)) s'"
proof -
  define a b c where "a = (f u < 0)" and "b = (f v < 0)" and "c = (Z < 0)"
  have sg: "zs s u < 0 \<longleftrightarrow> a" "zs s v < 0 \<longleftrightarrow> b" using holding_sgn [OF h v(2)] holding_sgn [OF h v(3)] by (auto simp: a_def b_def sgn_if split: if_splits)
  have U: "(if a then - \<bar>f u\<bar> else \<bar>f u\<bar>) = f u" "(if b then - \<bar>f v\<bar> else \<bar>f v\<bar>) = f v" "(if c then - Z else Z) = \<bar>Z\<bar>"
    by (simp_all add: a_def b_def c_def)
  have rn: "int rn + int (unat (of_bool c :: u64)) = int (rn + nat (of_bool c))" by (cases c) simp_all
  have "int (rn + nat (of_bool c)) \<le> INT_MAX" using holding_fits [OF h v(2,4)] n(3) by (cases c) auto
  from MPZ_REALLOC_ok [OF holdingD(1) [OF h] v(1) this]
  obtain s1 where s1: "MPZ_REALLOC r (int rn + int (unat (of_bool c :: u64))) s = Inr (zd s1 r, s1)" "grown L T s r (rn + nat (of_bool c)) s1"
    unfolding rn nat_int by blast
  have fw: "fwd (zd s1 r) (zd s1 u) (zn s u)" "fwd (zd s1 r) (zd s1 v) (zn s v)" using grown_regions(2) [OF s1(2) v(1)] v(2,3) by blast+
  have dg: "\<forall>j. 0 \<le> j \<and> j < 0 + zn s v \<longrightarrow> limbs s1 (zd s1 u + j) = tc \<bar>f u\<bar> j \<and> limbs s1 (zd s1 v + j) = tc \<bar>f v\<bar> j"
    using abs_digits [OF h s1(2)] v(2,3) n(2,3) by simp
  have fu: "fwd (zd s1 r) (zd s1 u) (zn s v)" using fw(1) n by (auto simp: fwd_def)
  obtain m where m: "logic_low op (- of_bool a) (- of_bool b) (- of_bool c) (zd s1 r) (zd s1 u) (zd s1 v) 0 (zn s v) (of_bool a) (of_bool b) (of_bool c) (limbs s1) =
      (of_bool (a \<and> \<bar>f u\<bar> mod int BB ^ zn s v = 0), of_bool (b \<and> \<bar>f v\<bar> mod int BB ^ zn s v = 0), of_bool (c \<and> Z mod int BB ^ zn s v = 0), m)"
      "same_outside (zd s1 r) (zn s v) (limbs s1) m" "\<forall>j<zn s v. m (zd s1 r + j) = tc \<bar>Z\<bar> j"
    using logic_low_ok [OF fu fw(2), of op a "\<bar>f u\<bar>" b "\<bar>f v\<bar>" Z 0 "zn s v" "limbs s1" c] op dg unfolding U by auto
  have vc: "\<not> (b \<and> \<bar>f v\<bar> mod int BB ^ zn s v = 0)" using abs_bound [OF h v(3)] by (auto simp: b_def)
  have dh: "\<forall>j. zn s v \<le> j \<and> j < zn s v + (rn - zn s v) \<longrightarrow> m (zd s1 u + j) = tc \<bar>f u\<bar> j"
  proof (intro allI impI)
    fix j assume j: "zn s v \<le> j \<and> j < zn s v + (rn - zn s v)"
    then have "m (zd s1 u + j) = limbs s1 (zd s1 u + j)" using m(2) fw(1) n by (auto simp: same_outside_def fwd_def)
    then show "m (zd s1 u + j) = tc \<bar>f u\<bar> j" using abs_digits [OF h s1(2) v(2), of j] j n by simp
  qed
  obtain m2 where m2: "logic_high g e (- of_bool a) (zd s1 r) (zd s1 u) (zn s v) (rn - zn s v) (of_bool (a \<and> \<bar>f u\<bar> mod int BB ^ zn s v = 0)) (of_bool (c \<and> Z mod int BB ^ zn s v = 0)) m =
      (of_bool (c \<and> Z mod int BB ^ rn = 0), m2)"
      "same_outside (zd s1 r + zn s v) (rn - zn s v) m m2" "\<forall>j. zn s v \<le> j \<and> j < rn \<longrightarrow> m2 (zd s1 r + j) = tc \<bar>Z\<bar> j"
    using logic_high_ok [OF fw(1), of "zn s v" g a "\<bar>f u\<bar>" e Z c "rn - zn s v" m] g dh n unfolding U by (auto simp: c_def)
  have o: "same_outside (zd s1 r) rn (limbs s1) m2" "\<forall>j<rn. m2 (zd s1 r + j) = tc \<bar>Z\<bar> j"
    using m(2,3) m2(2,3) n(2) by (auto simp: same_outside_def) (metis add_less_cancel_left not_le)
  obtain rn' m3 where rm: "(rn', m3) = (if (of_bool (c \<and> Z mod int BB ^ rn = 0) :: u64) \<noteq> 0 then (rn + 1, m2(zd s1 r + rn := of_bool (c \<and> Z mod int BB ^ rn = 0)))
      else (mpn_normalized_size m2 (zd s1 r) rn, m2))" by (metis surj_pair)
  have "0 < rn" using n by simp
  note hz = logic_size_holding [OF h s1(2) v(1) c_def o z this refl rm]
  have rx: "(- of_bool c \<noteq> (0 :: u64)) = c" by simp
  have "logic_op op g e r u v rn (of_bool (zs s u < 0)) (of_bool (zs s v < 0)) (of_bool (Z < 0)) s = Inr (set_size r (if c then - int rn' else int rn') (s1\<lparr>limbs := m3\<rparr>))"
    unfolding logic_op_def Let_def sg c_def [symmetric] s1(1) bindE_simps prod.case m(1) m2(1) rm [symmetric] rx using vc by simp
  then show ?thesis using hz by blast
qed

subsection \<open>The functions\<close>

lemma int_range: "- (int BB ^ n) \<le> z \<and> z < int BB ^ n \<longleftrightarrow> (\<forall>k. bit z (min (64 * n) k) = bit z k)"
proof -
  have "int BB ^ n = 2 ^ (64 * n)" by (simp add: BB_def power_mult)
  then have "- (int BB ^ n) \<le> z \<and> z < int BB ^ n \<longleftrightarrow> signed_take_bit (64 * n) z = z" by (simp add: signed_take_bit_int_eq_self_iff)
  then show ?thesis by (simp add: bit_eq_iff [where 'a = int] bit_signed_take_bit_iff)
qed

lemma logic_range:
  assumes "- (int BB ^ n) \<le> x \<and> x < int BB ^ n" "- (int BB ^ n) \<le> y \<and> y < int BB ^ n"
  shows "- (int BB ^ n) \<le> x AND y \<and> x AND y < int BB ^ n" "- (int BB ^ n) \<le> x OR y \<and> x OR y < int BB ^ n"
    "- (int BB ^ n) \<le> x XOR y \<and> x XOR y < int BB ^ n"
  using assms unfolding int_range by (simp_all add: bit_and_iff bit_or_iff bit_xor_iff)

lemma logic_signs: "(x :: int) AND y < 0 \<longleftrightarrow> x < 0 \<and> y < 0" "x OR y < 0 \<longleftrightarrow> x < 0 \<or> y < 0" "x XOR y < 0 \<longleftrightarrow> (x < 0) \<noteq> (y < 0)"
  by (auto simp: and_less_eq or_nonnegative_int_iff and_nonnegative_int_iff not_le [symmetric])

text \<open>What the longer number is combined with: the sign of the shorter one.\<close>

lemma sign_limbs: "holding L T k f s \<Longrightarrow> x \<in> L \<Longrightarrow> zn s x \<le> j \<Longrightarrow> tc (f x) j = - of_bool (f x < 0)"
  using abs_bound [of L T k f s x] by (intro tc_extend) auto

lemma range_mono:
  assumes "\<bar>z\<bar> < int BB ^ n" "n \<le> k"
  shows "- (int BB ^ k) \<le> z \<and> z < int BB ^ k"
proof -
  have "int BB ^ n \<le> int BB ^ k" using assms(2) by (intro power_increasing) (auto simp: BB_def)
  then show ?thesis using assms(1) by linarith
qed

text \<open>The operands in the order in which they are processed.\<close>

lemma logic_operands:
  assumes h: "holding L T k f s" and v: "u \<in> L" "v \<in> L"
  defines "x \<equiv> (if zn s u < zn s v then v else u)" and "y \<equiv> (if zn s u < zn s v then u else v)"
  shows "x \<in> L" "y \<in> L" "zn s y \<le> zn s x" "zs s x < 0 \<longleftrightarrow> f x < 0" "zs s y < 0 \<longleftrightarrow> f y < 0" "zn s y = 0 \<longleftrightarrow> f y = 0"
    "- (int BB ^ zn s x) \<le> f x \<and> f x < int BB ^ zn s x" "- (int BB ^ zn s x) \<le> f y \<and> f y < int BB ^ zn s x" "\<bar>f y\<bar> < int BB ^ zn s y"
    "f x AND f y = f u AND f v" "f x OR f y = f u OR f v" "f x XOR f y = f u XOR f v"
proof -
  show xy: "x \<in> L" "y \<in> L" "zn s y \<le> zn s x" using v by (auto simp: x_def y_def)
  show "zs s x < 0 \<longleftrightarrow> f x < 0" "zs s y < 0 \<longleftrightarrow> f y < 0"
    using holding_sgn [OF h xy(1)] holding_sgn [OF h xy(2)] by (auto simp: sgn_if split: if_splits)
  show "zn s y = 0 \<longleftrightarrow> f y = 0" using holding_zero_iff [OF h xy(2)] by auto
  show "- (int BB ^ zn s x) \<le> f x \<and> f x < int BB ^ zn s x" by (rule range_mono [OF abs_bound [OF h xy(1)]]) simp
  show "- (int BB ^ zn s x) \<le> f y \<and> f y < int BB ^ zn s x" by (rule range_mono [OF abs_bound [OF h xy(2)] xy(3)])
  show "\<bar>f y\<bar> < int BB ^ zn s y" by (rule abs_bound [OF h xy(2)])
  show "f x AND f y = f u AND f v" "f x OR f y = f u OR f v" "f x XOR f y = f u XOR f v"
    by (simp_all add: x_def y_def and.commute or.commute xor.commute)
qed

lemma mpz_and_holding:
  assumes h: "holding L T k f s" and v: "r \<in> L" "u \<in> L" "v \<in> L" "int_fits (f u)" "int_fits (f v)"
  shows "\<exists>s'. mpz_and r u v s = Inr s' \<and> holding L T k (f(r := f u AND f v)) s'"
proof -
  define x y where "x = (if zn s u < zn s v then v else u)" and "y = (if zn s u < zn s v then u else v)"
  note o = logic_operands [OF h v(2,3), folded x_def y_def]
  have xy: "(if zn s u < zn s v then (v, u) else (u, v)) = (x, y)" by (simp add: x_def y_def)
  show ?thesis
  proof (cases "f y = 0")
    case True
    then have "f u AND f v = 0" using o(10) by simp
    then show ?thesis using True o(6) set_size_0_holding [OF h v(1)] unfolding mpz_and_def xy by simp
  next
    case False
    define rn where "rn = (if f y < 0 then zn s x else zn s y)"
    have z: "- (int BB ^ rn) \<le> f x AND f y \<and> f x AND f y < int BB ^ rn"
    proof (cases "f y < 0")
      case True
      then show ?thesis using logic_range(1) [OF o(7,8)] by (simp add: rn_def)
    next
      case False
      then have "0 \<le> f x AND f y" "f x AND f y \<le> f y" "f y < int BB ^ rn" using o(9) by (simp_all add: rn_def)
      moreover have "0 \<le> int BB ^ rn" by simp
      ultimately show ?thesis by linarith
    qed
    have rc: "(of_bool (f x < 0) :: u64) AND of_bool (f y < 0) = of_bool (f x AND f y < 0)" unfolding logic_signs by auto
    have "\<exists>s'. logic_op (\<lambda>ul vl. ul AND vl) (\<lambda>ul. ul AND - of_bool (f y < 0)) (- of_bool (f x AND f y < 0)) r x y rn (of_bool (zs s x < 0)) (of_bool (zs s y < 0)) (of_bool (f x AND f y < 0)) s = Inr s' \<and>
        holding L T k (f(r := f x AND f y)) s'"
      using z False o(3,6) v(4,5) sign_limbs [OF h o(2)]
      by (intro logic_op_holding [OF h v(1) o(1,2)]) (auto simp: tc_logic(1) [symmetric] rn_def x_def)
    then show ?thesis using False o(6) unfolding mpz_and_def xy Let_def prod.case o(4,5,10) rc by (simp add: rn_def)
  qed
qed

lemma mpz_ior_holding:
  assumes h: "holding L T k f s" and v: "r \<in> L" "u \<in> L" "v \<in> L" "int_fits (f u)" "int_fits (f v)"
  shows "\<exists>s'. mpz_ior r u v s = Inr s' \<and> holding L T k (f(r := f u OR f v)) s'"
proof -
  define x y where "x = (if zn s u < zn s v then v else u)" and "y = (if zn s u < zn s v then u else v)"
  note o = logic_operands [OF h v(2,3), folded x_def y_def]
  have xy: "(if zn s u < zn s v then (v, u) else (u, v)) = (x, y)" by (simp add: x_def y_def)
  show ?thesis
  proof (cases "f y = 0")
    case True
    then have "f u OR f v = f x" using o(11) by simp
    then show ?thesis using True o(6) mpz_set_holding [OF h v(1) o(1)] unfolding mpz_ior_def xy by simp
  next
    case False
    define rn where "rn = (if f y < 0 then zn s y else zn s x)"
    have z: "- (int BB ^ rn) \<le> f x OR f y \<and> f x OR f y < int BB ^ rn"
    proof (cases "f y < 0")
      case True
      have "NOT (f x OR f y) = NOT (f x) AND NOT (f y)" by simp
      also have "\<dots> \<le> NOT (f y)" using True by (intro AND_upper2) (simp add: not_int_def)
      finally have "f y \<le> f x OR f y" by (simp add: not_int_def)
      moreover have "f x OR f y < 0" using True by simp
      moreover have "- (int BB ^ rn) < f y" "0 \<le> int BB ^ rn" using o(9) True by (simp_all add: rn_def)
      ultimately show ?thesis by linarith
    next
      case False
      then show ?thesis using logic_range(2) [OF o(7,8)] by (simp add: rn_def)
    qed
    have rc: "(of_bool (f x < 0) :: u64) OR of_bool (f y < 0) = of_bool (f x OR f y < 0)" unfolding logic_signs by auto
    have "\<exists>s'. logic_op (\<lambda>ul vl. ul OR vl) (\<lambda>ul. ul OR - of_bool (f y < 0)) (- of_bool (f x OR f y < 0)) r x y rn (of_bool (zs s x < 0)) (of_bool (zs s y < 0)) (of_bool (f x OR f y < 0)) s = Inr s' \<and>
        holding L T k (f(r := f x OR f y)) s'"
      using z False o(3,6) v(4,5) sign_limbs [OF h o(2)]
      by (intro logic_op_holding [OF h v(1) o(1,2)]) (auto simp: tc_logic(2) [symmetric] rn_def x_def)
    then show ?thesis using False o(6) unfolding mpz_ior_def xy Let_def prod.case o(4,5,11) rc by (simp add: rn_def)
  qed
qed

lemma mpz_xor_holding:
  assumes h: "holding L T k f s" and v: "r \<in> L" "u \<in> L" "v \<in> L" "int_fits (f u)" "int_fits (f v)"
  shows "\<exists>s'. mpz_xor r u v s = Inr s' \<and> holding L T k (f(r := f u XOR f v)) s'"
proof -
  define x y where "x = (if zn s u < zn s v then v else u)" and "y = (if zn s u < zn s v then u else v)"
  note o = logic_operands [OF h v(2,3), folded x_def y_def]
  have xy: "(if zn s u < zn s v then (v, u) else (u, v)) = (x, y)" by (simp add: x_def y_def)
  show ?thesis
  proof (cases "f y = 0")
    case True
    then have "f u XOR f v = f x" using o(12) by simp
    then show ?thesis using True o(6) mpz_set_holding [OF h v(1) o(1)] unfolding mpz_xor_def xy by simp
  next
    case False
    have z: "- (int BB ^ zn s x) \<le> f x XOR f y \<and> f x XOR f y < int BB ^ zn s x" by (rule logic_range(3) [OF o(7,8)])
    have rc: "(of_bool (f x < 0) :: u64) XOR of_bool (f y < 0) = of_bool (f x XOR f y < 0)" unfolding logic_signs by auto
    have m: "w XOR - of_bool (f x < 0) = w XOR - of_bool (f y < 0) XOR - of_bool (f x XOR f y < 0)" for w :: u64
      unfolding logic_signs by (cases "f x < 0"; cases "f y < 0") (simp_all add: xor.assoc)
    have "\<exists>s'. logic_op (\<lambda>ul vl. ul XOR vl) (\<lambda>ul. ul) (- of_bool (f x < 0)) r x y (zn s x) (of_bool (zs s x < 0)) (of_bool (zs s y < 0)) (of_bool (f x XOR f y < 0)) s = Inr s' \<and>
        holding L T k (f(r := f x XOR f y)) s'"
    proof (rule logic_op_holding [OF h v(1) o(1,2)])
      show "int_fits (f x)" using v(4,5) by (simp add: x_def)
      show "0 < zn s y" "zn s y \<le> zn s x" using False o(3,6) by auto
      show "tc (f x) j XOR - of_bool (f x < 0) = tc (f x XOR f y) j XOR - of_bool (f x XOR f y < 0)" if "zn s y \<le> j" for j
        using sign_limbs [OF h o(2) that] m by (simp add: tc_logic(3) [symmetric])
    qed (use z in \<open>auto simp: tc_logic(3)\<close>)
    then show ?thesis using False o(6) unfolding mpz_xor_def xy Let_def prod.case o(4,5,12) rc by simp
  qed
qed

lemma mpz_com_holding:
  assumes h: "holding L T k f s" and v: "r \<in> L" "u \<in> L" "int_fits (f u)"
  shows "\<exists>s'. mpz_com r u s = Inr s' \<and> holding L T k (f(r := NOT (f u))) s'"
proof -
  obtain s1 where s1: "mpz_neg r u s = Inr s1" "holding L T k (f(r := - f u)) s1" using mpz_neg_holding [OF h v(1,2)] by blast
  have "int_fits (- f u)" by (rule fits_le [OF v(3)]) simp
  then show ?thesis using mpz_sub_ui_holding [OF s1(2) v(1,1), of 1] s1(1) by (simp add: mpz_com_def not_int_def)
qed

subsection \<open>Properties\<close>

text \<open>
  C31: the bitwise operations. \<open>mpz_and\<close>, \<open>mpz_ior\<close>, \<open>mpz_xor\<close> and \<open>mpz_com\<close>, which work on signs and absolute values, compute the
  operations on the infinite two's complement of all integers, whichever arguments are the same variable; the assertion about the carry
  holds.
\<close>

theorem mpz_logic_twos_complement:
  assumes "mpz_wf L T s" "r \<in> L" "u \<in> L" "v \<in> L" "int_fits (zval s u)" "int_fits (zval s v)"
  shows "(\<exists>s'. mpz_and r u v s = Inr s' \<and> mpz_wf L T s' \<and> zval s' r = zval s u AND zval s v \<and> (\<forall>x\<in>L. x \<noteq> r \<longrightarrow> zval s' x = zval s x)) \<and>
    (\<exists>s'. mpz_ior r u v s = Inr s' \<and> mpz_wf L T s' \<and> zval s' r = zval s u OR zval s v \<and> (\<forall>x\<in>L. x \<noteq> r \<longrightarrow> zval s' x = zval s x)) \<and>
    (\<exists>s'. mpz_xor r u v s = Inr s' \<and> mpz_wf L T s' \<and> zval s' r = zval s u XOR zval s v \<and> (\<forall>x\<in>L. x \<noteq> r \<longrightarrow> zval s' x = zval s x)) \<and>
    (\<exists>s'. mpz_com r u s = Inr s' \<and> mpz_wf L T s' \<and> zval s' r = NOT (zval s u) \<and> (\<forall>x\<in>L. x \<noteq> r \<longrightarrow> zval s' x = zval s x))"
proof -
  note h = holdingI [OF assms(1)]
  have *: "holding L T (stack s) ((zval s)(r := z)) s' \<Longrightarrow> mpz_wf L T s' \<and> zval s' r = z \<and> (\<forall>x\<in>L. x \<noteq> r \<longrightarrow> zval s' x = zval s x)" for z s'
    using assms(2) by (auto simp: holding_def)
  show ?thesis
    using mpz_and_holding [OF h assms(2-)] mpz_ior_holding [OF h assms(2-)] mpz_xor_holding [OF h assms(2-)] mpz_com_holding [OF h assms(2,3,5)] *
    by blast
qed

theorem mpz_logic_twos_complement_witness:
  "(\<exists>s'. mpz_and 2 0 1 sample_ints = Inr s' \<and> zval s' 2 = 0) \<and> (\<exists>s'. mpz_ior 2 0 1 sample_ints = Inr s' \<and> zval s' 2 = - 5) \<and>
   (\<exists>s'. mpz_xor 2 0 1 sample_ints = Inr s' \<and> zval s' 2 = - 5) \<and> (\<exists>s'. mpz_com 2 0 sample_ints = Inr s' \<and> zval s' 2 = 6)"
proof -
  have "- 7 AND (2 :: int) = 0" "- 7 OR (2 :: int) = - 5" "- 7 XOR (2 :: int) = - 5" "NOT (- 7 :: int) = 6" by code_simp+
  then show ?thesis using mpz_logic_twos_complement [OF sample_ints_wf, of 2 0 1] by (auto simp: sample_ints_values small_fits)
qed

end
