(* ===== verification/Mpz_Bits.thy ===== *)
theory Mpz_Bits
  imports Mpz_Logic
begin

section \<open>Single bits of integers\<close>

text \<open>
  The functions of \<open>mini-gmp.c\<close> that test and change one bit of the two's complement of an integer. They add or subtract a power of two
  from the absolute value, in place; when the number gets longer its block grows after the limbs were changed.
\<close>

declare of_nat_unat [simp del]

unbundle bit_operations_syntax

subsection \<open>Definitions\<close>

text \<open>The loop of \<open>mpz_tstbit\<close> over the lower limbs, from the highest one on.\<close>

fun any_limb :: "limb_mem \<Rightarrow> nat \<Rightarrow> nat \<Rightarrow> bool" where
  "any_limb m p 0 = False"
| "any_limb m p (Suc i) = (m (p + i) > 0 \<or> any_limb m p i)"

definition mpz_tstbit :: "mpz_mem \<Rightarrow> nat \<Rightarrow> u64 \<Rightarrow> bool" where
  "mpz_tstbit s d bit_index =
     (let ds = zs s d; dn = zn s d; limb_index = unat (bit_index div 64) in
      if limb_index \<ge> dn then ds < 0
      else
        let shift = unat (bit_index mod 64); w = limbs s (zd s d + limb_index); b = (drop_bit shift w AND 1 = 1) in
        if ds < 0 then
          if shift > 0 \<and> push_bit (64 - shift) w > 0 then \<not> b
          else if any_limb (limbs s) (zd s d) limb_index then \<not> b
          else b
        else b)"

fun zero_limbs :: "nat \<Rightarrow> nat \<Rightarrow> limb_mem \<Rightarrow> limb_mem" where
  "zero_limbs p 0 m = m"
| "zero_limbs p (Suc n) m = zero_limbs (p + 1) n (m(p := 0))"

definition mpz_abs_add_bit :: "nat \<Rightarrow> u64 \<Rightarrow> mpz_mem \<Rightarrow> mpz_mem res" where
  "mpz_abs_add_bit d bit_index s =
     (let dn = zn s d; limb_index = unat (bit_index div 64); b = push_bit (unat (bit_index mod 64)) 1 in
      bindE
        (if limb_index \<ge> dn then
           bindE (MPZ_REALLOC d (int limb_index + 1) s) (\<lambda>(dp, s).
           let s = put_limb (dp + limb_index) b s in
           Inr (limb_index + 1, s\<lparr>limbs := zero_limbs (dp + dn) (limb_index - dn) (limbs s)\<rparr>))
         else
           let dp = zd s d in
           bindE (mpn_add_1 (dp + limb_index) (dp + limb_index) (dn - limb_index) b (limbs s)) (\<lambda>(cy, m).
           let s = s\<lparr>limbs := m\<rparr> in
           if cy > 0 then bindE (MPZ_REALLOC d (int dn + 1) s) (\<lambda>(dp, s). Inr (dn + 1, put_limb (dp + dn) cy s))
           else Inr (dn, s))) (\<lambda>(dn, s).
      Inr (set_size d (if zs s d < 0 then - int dn else int dn) s)))"

definition mpz_abs_sub_bit :: "nat \<Rightarrow> u64 \<Rightarrow> mpz_mem \<Rightarrow> mpz_mem res" where
  "mpz_abs_sub_bit d bit_index s =
     (let dn = zn s d; dp = zd s d; limb_index = unat (bit_index div 64); b = push_bit (unat (bit_index mod 64)) 1 in
      bindE (c_assert (limb_index < dn)) (\<lambda>_.
      bindE (bindE (mpn_sub_1 (dp + limb_index) (dp + limb_index) (dn - limb_index) b (limbs s)) gmp_assert_nocarry) (\<lambda>m.
      let dn = mpn_normalized_size m dp dn in
      Inr (set_size d (if zs s d < 0 then - int dn else int dn) (s\<lparr>limbs := m\<rparr>)))))"

definition mpz_setbit :: "nat \<Rightarrow> u64 \<Rightarrow> mpz_mem \<Rightarrow> mpz_mem res" where
  "mpz_setbit d bit_index s =
     (if \<not> mpz_tstbit s d bit_index then
        if zs s d \<ge> 0 then mpz_abs_add_bit d bit_index s else mpz_abs_sub_bit d bit_index s
      else Inr s)"

definition mpz_clrbit :: "nat \<Rightarrow> u64 \<Rightarrow> mpz_mem \<Rightarrow> mpz_mem res" where
  "mpz_clrbit d bit_index s =
     (if mpz_tstbit s d bit_index then
        if zs s d \<ge> 0 then mpz_abs_sub_bit d bit_index s else mpz_abs_add_bit d bit_index s
      else Inr s)"

definition mpz_combit :: "nat \<Rightarrow> u64 \<Rightarrow> mpz_mem \<Rightarrow> mpz_mem res" where
  "mpz_combit d bit_index s =
     (if mpz_tstbit s d bit_index \<noteq> (zs s d < 0) then mpz_abs_sub_bit d bit_index s else mpz_abs_add_bit d bit_index s)"

subsection \<open>Testing a bit\<close>

lemma any_limb_iff: "any_limb m p n \<longleftrightarrow> lval m p n \<noteq> 0"
  by (induction n) (auto simp: word_gt_0 unat_gt_0)

lemma bit_uminus: "bit (- n :: int) k \<longleftrightarrow> (if n mod 2 ^ k = 0 then bit n k else \<not> bit n k)"
  by (simp add: bit_iff_odd zdiv_zminus1_eq_if)

lemma high_bits_iff: "0 < t \<Longrightarrow> t < 64 \<Longrightarrow> push_bit (64 - t) (w :: u64) > 0 \<longleftrightarrow> unat w mod 2 ^ t \<noteq> 0"
proof -
  assume t: "0 < t" "t < 64"
  have "push_bit (64 - t) w = 0 \<longleftrightarrow> take_bit t w = 0"
  proof
    assume z: "push_bit (64 - t) w = 0"
    show "take_bit t w = 0"
    proof (rule bit_eqI)
      fix j assume "possible_bit TYPE(u64) j"
      have "j < t \<Longrightarrow> bit (push_bit (64 - t) w) (64 - t + j) = bit w j" using t by (auto simp: bit_push_bit_iff)
      then show "bit (take_bit t w) j = bit 0 j" using z by (auto simp: bit_take_bit_iff)
    qed
  next
    assume z: "take_bit t w = 0"
    show "push_bit (64 - t) w = 0"
    proof (rule bit_eqI)
      fix j assume j: "possible_bit TYPE(u64) j"
      then have "64 - t \<le> j \<Longrightarrow> bit (take_bit t w) (j - (64 - t)) = bit w (j - (64 - t))" using t by (auto simp: bit_take_bit_iff possible_bit_def)
      then show "bit (push_bit (64 - t) w) j = bit 0 j" using z by (auto simp: bit_push_bit_iff)
    qed
  qed
  moreover have "take_bit t w = 0 \<longleftrightarrow> unat w mod 2 ^ t = 0" by (metis unat_eq_zero unsigned_take_bit_eq take_bit_eq_mod)
  ultimately show ?thesis using word_gt_0 [of "push_bit (64 - t) w"] by metis
qed

lemma tstbit_abs:
  assumes "i = unat (b div 64)" "t = unat (b mod 64)" "i < zn s d"
  shows "drop_bit t (limbs s (zd s d + i)) AND 1 = 1 \<longleftrightarrow> bit (zabs s d) (unat (b :: u64))"
    "(t > 0 \<and> push_bit (64 - t) (limbs s (zd s d + i)) > 0) \<or> any_limb (limbs s) (zd s d) i \<longleftrightarrow> zabs s d mod 2 ^ unat b \<noteq> 0"
proof -
  have b: "unat b div 64 = i" "unat b mod 64 = t" "t < 64" using assms(1,2) by (simp_all add: unat_div unat_mod)
  then have "unat b < 64 * zn s d" using assms(3) by (metis div_less_iff_less_mult mult.commute zero_less_numeral)
  from bit_lval [OF this, of "limbs s" "zd s d"] show "drop_bit t (limbs s (zd s d + i)) AND 1 = 1 \<longleftrightarrow> bit (zabs s d) (unat b)"
    unfolding b zabs_def by (simp add: and_one_eq bit_iff_odd_drop_bit mod_2_eq_odd)
  obtain K where K: "zn s d = i + K" "0 < K" using assms(3) by (metis less_imp_add_positive)
  have "zabs s d mod 2 ^ unat b \<noteq> 0 \<longleftrightarrow> lval (limbs s) (zd s d) i \<noteq> 0 \<or> unat (limbs s (zd s d + i)) mod 2 ^ t \<noteq> 0"
    using shifted_value(2) [OF K b(3), of "limbs s" "zd s d"] unfolding zabs_def two_power_limbs [of b] assms(1,2) .
  then show "(t > 0 \<and> push_bit (64 - t) (limbs s (zd s d + i)) > 0) \<or> any_limb (limbs s) (zd s d) i \<longleftrightarrow> zabs s d mod 2 ^ unat b \<noteq> 0"
    using high_bits_iff [OF _ b(3), of "limbs s (zd s d + i)"] by (cases "t = 0") (auto simp: any_limb_iff)
qed

lemma mpz_tstbit_holding:
  assumes h: "holding L T k f s" and d: "d \<in> L"
  shows "mpz_tstbit s d b \<longleftrightarrow> bit (f d) (unat b)"
proof -
  define i t where "i = unat (b div 64)" and "t = unat (b mod 64)"
  have sg: "zs s d < 0 \<longleftrightarrow> f d < 0" using holding_sgn [OF h d] by (auto simp: sgn_if split: if_splits)
  have N: "int (zabs s d) = \<bar>f d\<bar>" by (rule holding_abs [OF h d])
  show ?thesis
  proof (cases "zn s d \<le> i")
    case True
    have "bit (f d) (unat b) = bit (tc (f d) i) t" by (simp add: bit_tc i_def t_def unat_div unat_mod)
    also have "\<dots> \<longleftrightarrow> f d < 0" unfolding sign_limbs [OF h d True] by (auto simp: t_def unat_mod)
    finally show ?thesis using True sg by (simp add: mpz_tstbit_def i_def)
  next
    case False
    then have "i < zn s d" by simp
    note a = tstbit_abs [OF i_def t_def this]
    have m: "\<bar>f d\<bar> mod 2 ^ unat b = 0 \<longleftrightarrow> zabs s d mod 2 ^ unat b = 0" unfolding N [symmetric] using mod_abs_iff [of "int (zabs s d)" "zabs s d" "2 ^ unat b"] by simp
    have c: "bit \<bar>f d\<bar> (unat b) = bit (zabs s d) (unat b)" unfolding N [symmetric] by (simp add: bit_of_nat_iff_bit)
    have "bit (f d) (unat b) = (if f d < 0 \<and> zabs s d mod 2 ^ unat b \<noteq> 0 then \<not> bit (zabs s d) (unat b) else bit (zabs s d) (unat b))"
    proof (cases "f d < 0")
      case True
      then have "f d = - \<bar>f d\<bar>" by simp
      then show ?thesis using bit_uminus [of "\<bar>f d\<bar>" "unat b"] m c True by auto
    next
      case False
      then show ?thesis using c by simp
    qed
    then show ?thesis using False sg a unfolding mpz_tstbit_def Let_def i_def [symmetric] t_def [symmetric] by auto
  qed
qed

subsection \<open>Changing the limbs before the block grows\<close>

lemma grown_refl: "mpz_wf L T s \<Longrightarrow> n \<le> za s r \<Longrightarrow> grown L T s r n s"
  by (simp add: grown_def)

lemma upd_limbs:
  assumes "upd L T s r v s'" "\<And>q i. q \<in> L \<Longrightarrow> i < zn s' q \<Longrightarrow> m (zd s' q + i) = limbs s' (zd s' q + i)" "r \<in> L"
  shows "upd L T s r v (s'\<lparr>limbs := m\<rparr>)"
proof -
  let ?t = "s'\<lparr>limbs := m\<rparr>"
  have w: "mpz_wf L T s'" using assms(1) by (simp add: upd_def)
  have "obj_ok ?t q" if "q \<in> L" for q
    using wf_obj [OF w that] assms(2) [OF that, of "zn s' q - 1"] by (auto simp: obj_ok_def)
  moreover have "owners L ?t = owners L s'" by (rule owners_cong) simp
  moreover have "heap_ok ?t" using w by (simp add: mpz_wf_def heap_ok_def)
  ultimately have "mpz_wf L T ?t" using w by (simp add: mpz_wf_def)
  moreover have "zval ?t q = zval s' q" if "q \<in> L" for q
    using lval_cong [of "zn s' q" m "zd s' q" "limbs s'" "zd s' q"] assms(2) [OF that] by (simp add: zval_def zabs_def)
  ultimately show ?thesis using assms(1,3) by (simp add: upd_def)
qed

text \<open>Growing the block of a variable whose limbs have been changed: the changed limbs move.\<close>

lemma MPZ_REALLOC_changed:
  assumes w: "mpz_wf L T s" and r: "r \<in> L" "n \<le> INT_MAX" and m: "same_outside (zd s r) (zn s r) (limbs s) m"
  shows "\<exists>s1 m1. MPZ_REALLOC r n (s\<lparr>limbs := m\<rparr>) = Inr (zd s1 r, s1\<lparr>limbs := m1\<rparr>) \<and> grown L T s r (nat n) s1 \<and>
    (\<forall>i<zn s r. m1 (zd s1 r + i) = m (zd s r + i)) \<and> (\<forall>q\<in>L. q \<noteq> r \<longrightarrow> (\<forall>i<zn s q. m1 (zd s1 q + i) = limbs s1 (zd s1 q + i)))"
proof -
  have o: "obj_ok s r" by (rule wf_obj [OF w r(1)])
  have other: "m (zd s q + i) = limbs s (zd s q + i)" if "q \<in> L" "q \<noteq> r" "i < zn s q" for q i
    using wf_apart [OF w r(1) that(1,2)] obj_sizes(1) [OF o] obj_sizes(1) [OF wf_obj [OF w that(1)]] that(3) m
    by (auto simp: apart_def same_outside_def)
  obtain s1 where s1: "MPZ_REALLOC r n s = Inr (zd s1 r, s1)" "grown L T s r (nat n) s1" using MPZ_REALLOC_ok [OF w r] by blast
  consider "n \<le> mp_alloc (objs s r)" | "n > mp_alloc (objs s r)" "mp_alloc (objs s r) = 0" | (moved) "n > mp_alloc (objs s r)" "mp_alloc (objs s r) \<noteq> 0" by linarith
  then show ?thesis
  proof cases
    case 1
    then have "s1 = s" using s1(1) by (simp add: MPZ_REALLOC_def)
    then show ?thesis using 1 s1(2) other by (intro exI [of _ s] exI [of _ m]) (simp add: MPZ_REALLOC_def)
  next
    case 2
    then have "zn s r = 0" using obj_sizes(1) [OF o] by simp
    then have "m = limbs s" using m by (auto simp: same_outside_def fun_eq_iff)
    then have "s\<lparr>limbs := m\<rparr> = s" "s1\<lparr>limbs := limbs s1\<rparr> = s1" by simp_all
    then show ?thesis using s1 \<open>zn s r = 0\<close> by (intro exI [of _ s1] exI [of _ "limbs s1"]) simp
  next
    case moved
    let ?old = "zd s r" and ?p = "brk s"
    define R where "R m = stale ?old (za s r) (mpn_copyi ?p ?old (za s r) m)" for m
    have bl: "blocks s ?old = Some (za s r)" using o moved(2) by (simp add: obj_ok_def)
    have n: "0 < n" "min (za s r) (nat (max n 1)) = za s r" "\<not> \<bar>zs s r\<bar> > max n 1" using moved(1) o by (auto simp: obj_ok_def)
    have st: "MPZ_REALLOC r n (s\<lparr>limbs := x\<rparr>) = Inr (?p, set_obj r ((objs s r)\<lparr>mp_d := ?p, mp_alloc := to_int32 (max n 1)\<rparr>)
        (s\<lparr>brk := ?p + nat (max n 1), blocks := (blocks s)(?old := None, ?p \<mapsto> nat (max n 1)), limbs := R x\<rparr>))" for x
      using moved bl n by (simp add: MPZ_REALLOC_def mpz_realloc_def gmp_xrealloc_limbs_def R_def Let_def set_obj_def)
    have e: "zd s1 r = ?p" "s1 = set_obj r ((objs s r)\<lparr>mp_d := ?p, mp_alloc := to_int32 (max n 1)\<rparr>)
        (s\<lparr>brk := ?p + nat (max n 1), blocks := (blocks s)(?old := None, ?p \<mapsto> nat (max n 1)), limbs := R (limbs s)\<rparr>)"
      using s1(1) st [of "limbs s"] by (simp_all add: set_obj_def)
    have "MPZ_REALLOC r n (s\<lparr>limbs := m\<rparr>) = Inr (zd s1 r, s1\<lparr>limbs := R m\<rparr>)" unfolding e(1) st unfolding e(2) by (simp add: set_obj_def)
    moreover have "R m (zd s1 r + i) = m (zd s r + i)" if "i < zn s r" for i
    proof -
      have b: "?old + za s r \<le> ?p" using wf_below(2) [OF w r(1)] .
      then have "fwd ?p ?old (za s r)" by (simp add: fwd_def)
      then show ?thesis unfolding e(1) using mpn_copyi_ok [of ?p ?old "za s r" "za s r" m] that obj_sizes(1) [OF o] b by (simp add: R_def stale_def)
    qed
    moreover have "R m (zd s1 q + i) = limbs s1 (zd s1 q + i)" if "q \<in> L" "q \<noteq> r" "i < zn s q" for q i
    proof -
      have z: "zd s1 q = zd s q" using that(2) unfolding e(2) by (simp add: set_obj_def)
      have b: "fwd ?p ?old (za s r)" "zd s q + zn s q \<le> ?p" using wf_below [OF w r(1)] wf_below(3) [OF w that(1)] by (simp_all add: fwd_def)
      have c: "mpn_copyi ?p ?old (za s r) x (zd s q + i) = x (zd s q + i)" for x
        using mpn_copyi_ok [OF b(1) order_refl, of x] b(2) that(3) by (simp add: same_outside_def)
      have "R x (zd s q + i) = x (zd s q + i)" for x
        using c wf_apart [OF w r(1) that(1,2)] obj_sizes(1) [OF wf_obj [OF w that(1)]] that(3) by (auto simp: R_def stale_def apart_def)
      moreover have "limbs s1 = R (limbs s)" unfolding e(2) by (simp add: set_obj_def)
      ultimately show ?thesis using z other [OF that] by simp
    qed
    ultimately show ?thesis using s1(2) by blast
  qed
qed

lemma finish_changed:
  assumes g: "grown L T s r n s1" "r \<in> L" and m: "\<forall>q\<in>L. q \<noteq> r \<longrightarrow> (\<forall>i<zn s q. m (zd s1 q + i) = limbs s1 (zd s1 q + i))"
    and z: "j = int n \<or> j = - int n" "0 < n" "m (zd s1 r + (n - 1)) \<noteq> 0"
  shows "upd L T s r (sgn j * int (lval m (zd s1 r) n)) (set_size r j (s1\<lparr>limbs := m\<rparr>))"
proof -
  define mG where "mG = (\<lambda>a. if zd s1 r \<le> a \<and> a < zd s1 r + n then m a else limbs s1 a)"
  have w: "mpz_wf L T s1" "n \<le> za s1 r" using g by (simp_all add: grown_def)
  have j: "nat \<bar>j\<bar> = n" "j \<noteq> 0" using z by auto
  have "int n \<le> INT_MAX" using obj_sizes(2) [OF wf_obj [OF w(1) g(2)]] w(2) by linarith
  then have t: "to_int32 j = j" using z(1) by (intro to_int32_id) (auto simp: in_int_def)
  have "upd L T s r (sgn j * int (lval mG (zd s1 r) (nat \<bar>j\<bar>))) (set_size r j (s1\<lparr>limbs := mG\<rparr>))"
    using z by (intro finish [OF g]) (auto simp: mG_def same_outside_def)
  moreover have "lval mG (zd s1 r) n = lval m (zd s1 r) n" by (rule lval_cong) (simp add: mG_def)
  ultimately have u: "upd L T s r (sgn j * int (lval m (zd s1 r) n)) (set_size r j (s1\<lparr>limbs := mG\<rparr>))" unfolding j by simp
  have "m (zd s1 q + i) = mG (zd s1 q + i)" if "q \<in> L" "i < zn (set_size r j (s1\<lparr>limbs := mG\<rparr>)) q" for q i
    using that m grown_values(1) [OF g(1) that(1)] j(1) t by (cases "q = r") (auto simp: mG_def)
  then have "upd L T s r (sgn j * int (lval m (zd s1 r) n)) ((set_size r j (s1\<lparr>limbs := mG\<rparr>))\<lparr>limbs := m\<rparr>)"
    by (intro upd_limbs [OF u _ g(2)]) simp
  moreover have "(set_size r j (s1\<lparr>limbs := mG\<rparr>))\<lparr>limbs := m\<rparr> = set_size r j (s1\<lparr>limbs := m\<rparr>)"
    by (cases s1) (simp add: set_size_def set_obj_def)
  ultimately show ?thesis by simp
qed

subsection \<open>Adding and subtracting a power of two\<close>

lemma zero_limbs_ok: "same_outside p n m (zero_limbs p n m) \<and> (\<forall>j<n. zero_limbs p n m (p + j) = 0)"
proof (induction n arbitrary: p m)
  case (Suc n)
  note IH = Suc.IH [of "p + 1"]
  have "same_outside p (Suc n) m (zero_limbs p (Suc n) m) \<and> zero_limbs p (Suc n) m p = 0"
    unfolding zero_limbs.simps by (rule same_outside_low [OF conjunct1 [OF IH]])
  moreover have "zero_limbs p (Suc n) m (p + Suc j) = 0" if "j < n" for j
    using conjunct2 [OF IH, rule_format, OF that] unfolding zero_limbs.simps by simp
  ultimately show ?case by (metis add.right_neutral less_Suc_eq_0_disj)
qed simp

lemma one_bit: "t < 64 \<Longrightarrow> unat (push_bit t 1 :: u64) = 2 ^ t"
  unfolding unsigned_push_bit_eq using power_strict_increasing [of t 64 "2 :: nat"] by (simp add: take_bit_eq_mod push_bit_of_1)

lemma single_bit_nz: "t < 64 \<Longrightarrow> push_bit t 1 \<noteq> (0 :: u64)"
  using one_bit [of t] by (metis power_not_zero unat_0 zero_neq_numeral)

text \<open>The value after a limb from \<open>i\<close> on was added.\<close>

lemma lval_from:
  assumes "i \<le> n" "same_outside (p + i) (n - i) m m'"
  shows "lval m' p n = lval m p i + BB ^ i * lval m' (p + i) (n - i)" "lval m p n = lval m p i + BB ^ i * lval m (p + i) (n - i)"
    "same_outside p n m m'"
proof -
  have "lval m' p i = lval m p i" by (rule lval_outside [OF assms(2)]) simp
  then show "lval m' p n = lval m p i + BB ^ i * lval m' (p + i) (n - i)" using lval_split [of m' p i "n - i"] assms(1) by simp
  show "lval m p n = lval m p i + BB ^ i * lval m (p + i) (n - i)" using lval_split [of m p i "n - i"] assms(1) by simp
  show "same_outside p n m m'" using assms by (auto simp: same_outside_def)
qed

lemma fits_limb_index:
  assumes "int_fits z" "2 ^ unat (b :: u64) \<le> \<bar>z\<bar>"
  shows "int (unat (b div 64)) + 1 \<le> INT_MAX"
proof (rule ccontr)
  assume c: "\<not> ?thesis"
  have "BB ^ (max_limbs - 1) \<le> BB ^ unat (b div 64)" using c by (intro power_increasing) (auto simp: max_limbs_def Suc_le_eq)
  also have "\<dots> \<le> 2 ^ unat b" unfolding two_power_limbs [of b] by simp
  finally have "int (BB ^ (max_limbs - 1)) \<le> int (2 ^ unat b)" by (rule of_nat_mono)
  then show False using assms unfolding int_fits_def by simp
qed

lemma mpz_abs_sub_bit_holding:
  assumes h: "holding L T k f s" and d: "d \<in> L" and le: "2 ^ unat b \<le> \<bar>f d\<bar>"
  shows "\<exists>s'. mpz_abs_sub_bit d b s = Inr s' \<and> holding L T k (f(d := sgn (f d) * (\<bar>f d\<bar> - 2 ^ unat b))) s'"
proof -
  define i t n p where "i = unat (b div 64)" and "t = unat (b mod 64)" and "n = zn s d" and "p = zd s d"
  have t: "t < 64" by (simp add: t_def unat_mod)
  have P: "2 ^ unat b = BB ^ i * 2 ^ t" unfolding two_power_limbs [of b] i_def t_def ..
  have N: "int (zabs s d) = \<bar>f d\<bar>" by (rule holding_abs [OF h d])
  have "int (2 ^ unat b) \<le> int (zabs s d)" using le N by simp
  then have le': "BB ^ i * 2 ^ t \<le> zabs s d" unfolding P by (simp only: of_nat_le_iff)
  have i: "i < n"
  proof (rule ccontr)
    assume "\<not> i < n"
    then have "BB ^ n \<le> BB ^ i" by (intro power_increasing) (auto simp: Suc_le_eq)
    also have "\<dots> \<le> BB ^ i * 2 ^ t" by simp
    finally show False using le' zabs_less [of s d] by (simp add: n_def)
  qed
  obtain cy m where m: "sub_1_loop (p + i) (p + i) (push_bit t 1) (n - i) (limbs s) = (cy, m)" by fastforce
  have "fwd (p + i) (p + i) (n - i)" by (simp add: fwd_def)
  note l = sub_1_loop_ok [OF this order_refl m]
  note v = lval_from [OF less_imp_le [OF i] conjunct1 [OF l]]
  have "lval m (p + i) (n - i) + 2 ^ t = lval (limbs s) (p + i) (n - i) + unat cy * BB ^ (n - i)" using l one_bit [OF t] by simp
  then have "BB ^ i * (lval m (p + i) (n - i) + 2 ^ t) = BB ^ i * (lval (limbs s) (p + i) (n - i) + unat cy * BB ^ (n - i))" by simp
  moreover have "BB ^ i * BB ^ (n - i) = BB ^ n" using i by (simp flip: power_add)
  ultimately have e: "lval m p n + BB ^ i * 2 ^ t = zabs s d + unat cy * BB ^ n"
    using v(1,2) unfolding zabs_def n_def [symmetric] p_def [symmetric] by (simp add: algebra_simps)
  have cy: "cy = 0"
  proof (rule ccontr)
    assume "cy \<noteq> 0"
    then have "1 * BB ^ n \<le> unat cy * BB ^ n" by (intro mult_le_mono1) (simp add: Suc_le_eq unat_gt_0)
    then show False using e le' lval_less [of m p n] by linarith
  qed
  define j where "j = mpn_normalized_size m p n"
  have j: "j \<le> n" "lval m p j = lval m p n" "j = 0 \<or> m (p + (j - 1)) \<noteq> 0" using mpn_normalized_size_value [of m p n] by (auto simp: j_def)
  let ?j = "if zs s d < 0 then - int j else int j"
  have g: "grown L T s d n s" using obj_sizes(1) [OF holdingD(4) [OF h d]] by (intro grown_refl holdingD(1) [OF h]) (simp add: n_def)
  have "upd L T s d (sgn ?j * int (lval m p (nat \<bar>?j\<bar>))) (set_size d ?j (s\<lparr>limbs := m\<rparr>))"
    unfolding p_def using j v(3) by (intro finish [OF g d]) (auto simp: p_def split: if_splits)
  moreover have "sgn ?j * int (lval m p (nat \<bar>?j\<bar>)) = sgn (f d) * (\<bar>f d\<bar> - 2 ^ unat b)"
  proof -
    have "int (lval m p n) = \<bar>f d\<bar> - 2 ^ unat b" using e cy N P by (simp flip: of_nat_add add: algebra_simps) (metis of_nat_add of_nat_numeral of_nat_power)
    moreover have "zs s d < 0 \<longleftrightarrow> f d < 0" "f d \<noteq> 0" using holding_sgn [OF h d] le by (auto simp: sgn_if split: if_splits)
    moreover have "nat \<bar>?j\<bar> = j" by simp
    ultimately show ?thesis using j(2) by (cases "j = 0") (auto simp: sgn_if)
  qed
  ultimately have "holding L T k (f(d := sgn (f d) * (\<bar>f d\<bar> - 2 ^ unat b))) (set_size d ?j (s\<lparr>limbs := m\<rparr>))" using holding_upd [OF h] by simp
  moreover have "mpz_abs_sub_bit d b s = Inr (set_size d ?j (s\<lparr>limbs := m\<rparr>))"
    using i m cy unfolding mpz_abs_sub_bit_def Let_def i_def [symmetric] t_def [symmetric] n_def [symmetric] p_def [symmetric]
    by (simp add: mpn_sub_1_def gmp_assert_nocarry_def j_def)
  ultimately show ?thesis by blast
qed

text \<open>The sign of a variable goes with any new absolute value that is not 0.\<close>

lemma signed_upd:
  assumes h: "holding L T k f s" and d: "d \<in> L" and n: "n \<noteq> 0" "sg \<longleftrightarrow> zs s d < 0"
    and u: "upd L T s d (sgn (if sg then - int n else int n) * int x) s'"
  shows "holding L T k (f(d := (if f d < 0 then - int x else int x))) s'"
proof -
  have "zs s d < 0 \<longleftrightarrow> f d < 0" using holding_sgn [OF h d] by (auto simp: sgn_if split: if_splits)
  then have "sgn (if sg then - int n else int n) * int x = (if f d < 0 then - int x else int x)" using n by simp
  then show ?thesis using holding_upd [OF h u] by simp
qed

lemma finish_signed:
  assumes g: "grown L T s r n s1" "r \<in> L" "same_outside (zd s1 r) n (limbs s1) m" and "m (zd s1 r + (n - 1)) \<noteq> 0"
  shows "upd L T s r (sgn (if sg then - int n else int n) * int (lval m (zd s1 r) n)) (set_size r (if sg then - int n else int n) (s1\<lparr>limbs := m\<rparr>))"
proof -
  let ?j = "if sg then - int n else int n"
  have a: "nat \<bar>?j\<bar> = n" "\<bar>?j\<bar> \<le> int n" by simp_all
  show ?thesis using finish [OF g a(2)] assms(4) unfolding a(1) by blast
qed

lemma abs_add_bit_outside:
  assumes h: "holding L T k f s" and d: "d \<in> L" and b: "zn s d \<le> unat (b div 64)" "int (unat (b div 64)) + 1 \<le> INT_MAX"
  shows "\<exists>s'. mpz_abs_add_bit d b s = Inr s' \<and> holding L T k (f(d := (if f d < 0 then - int (zabs s d + 2 ^ unat b) else int (zabs s d + 2 ^ unat b)))) s'"
proof -
  define i t n where "i = unat (b div 64)" and "t = unat (b mod 64)" and "n = zn s d"
  have t: "t < 64" by (simp add: t_def unat_mod)
  have ni: "n \<le> i" using b(1) by (simp add: i_def n_def)
  have "nat (int i + 1) = Suc i" by simp
  then obtain s1 where s1: "MPZ_REALLOC d (int i + 1) s = Inr (zd s1 d, s1)" "grown L T s d (Suc i) s1"
    using MPZ_REALLOC_ok [OF holdingD(1) [OF h] d, of "int i + 1"] b(2) unfolding i_def [symmetric] by auto
  let ?p = "zd s1 d" and ?w = "(limbs s1)(zd s1 d + i := push_bit t 1)"
  let ?m = "zero_limbs (?p + n) (i - n) ?w"
  note z = zero_limbs_ok [of "?p + n" "i - n" ?w]
  have "lval ?m ?p n = zabs s d"
  proof -
    have "lval ?m ?p n = lval ?w ?p n" by (rule lval_outside [OF conjunct1 [OF z]]) simp
    also have "\<dots> = lval (limbs s1) ?p n" using ni by simp
    finally show ?thesis using grown_values(2) [OF s1(2) d] by (simp add: n_def)
  qed
  moreover have "lval ?m (?p + n) (i - n) = 0" using z by (simp add: lval_def)
  ultimately have "lval ?m ?p i = zabs s d" using lval_split [of ?m ?p n "i - n"] ni by simp
  moreover have top: "?m (?p + i) = push_bit t 1" using z ni by (simp add: same_outside_def)
  ultimately have v: "lval ?m ?p (Suc i) = zabs s d + 2 ^ unat b"
    unfolding lval_Suc top one_bit [OF t] two_power_limbs [of b] i_def [symmetric] t_def [symmetric] by simp
  have o: "same_outside ?p (Suc i) (limbs s1) ?m" using z ni by (auto simp: same_outside_def)
  have zs: "zs s1 d = zs s d" by (rule grown_values(1) [OF s1(2) d])
  let ?j = "if zs s1 d < 0 then - int (Suc i) else int (Suc i)"
  have "?m (?p + (Suc i - 1)) \<noteq> 0" using top single_bit_nz [OF t] by simp
  from finish_signed [OF s1(2) d o this]
  have "upd L T s d (sgn ?j * int (zabs s d + 2 ^ unat b)) (set_size d ?j (s1\<lparr>limbs := ?m\<rparr>))" unfolding v .
  from signed_upd [OF h d _ _ this] have "holding L T k (f(d := (if f d < 0 then - int (zabs s d + 2 ^ unat b) else int (zabs s d + 2 ^ unat b)))) (set_size d ?j (s1\<lparr>limbs := ?m\<rparr>))"
    using zs by simp
  moreover have "mpz_abs_add_bit d b s = Inr (set_size d ?j (s1\<lparr>limbs := ?m\<rparr>))"
    using ni s1(1) unfolding mpz_abs_add_bit_def Let_def i_def [symmetric] t_def [symmetric] n_def [symmetric] by (simp add: put_limb_def)
  ultimately show ?thesis by blast
qed

lemma abs_add_bit_inside:
  assumes h: "holding L T k f s" and d: "d \<in> L" "int_fits (f d)" and b: "unat (b div 64) < zn s d"
  shows "\<exists>s'. mpz_abs_add_bit d b s = Inr s' \<and> holding L T k (f(d := (if f d < 0 then - int (zabs s d + 2 ^ unat b) else int (zabs s d + 2 ^ unat b)))) s'"
proof -
  define i t n p where "i = unat (b div 64)" and "t = unat (b mod 64)" and "n = zn s d" and "p = zd s d"
  have t: "t < 64" by (simp add: t_def unat_mod)
  have i: "i < n" using b by (simp add: i_def n_def)
  obtain cy m where m: "add_1_loop (p + i) (p + i) (push_bit t 1) (n - i) (limbs s) = (cy, m)" by fastforce
  have "fwd (p + i) (p + i) (n - i)" by (simp add: fwd_def)
  note l = add_1_loop_ok [OF this order_refl m]
  note v = lval_from [OF less_imp_le [OF i] conjunct1 [OF l]]
  have "lval m (p + i) (n - i) + unat cy * BB ^ (n - i) = lval (limbs s) (p + i) (n - i) + 2 ^ t" using l one_bit [OF t] by simp
  then have "BB ^ i * (lval m (p + i) (n - i) + unat cy * BB ^ (n - i)) = BB ^ i * (lval (limbs s) (p + i) (n - i) + 2 ^ t)" by simp
  moreover have "BB ^ i * BB ^ (n - i) = BB ^ n" using i by (simp flip: power_add)
  ultimately have e: "lval m p n + unat cy * BB ^ n = zabs s d + 2 ^ unat b"
    using v(1,2) unfolding zabs_def n_def [symmetric] p_def [symmetric] two_power_limbs [of b] i_def [symmetric] t_def [symmetric] by (simp add: algebra_simps)
  have cy: "unat cy \<le> 1" using l i by simp
  have o: "same_outside p n (limbs s) m" by (rule v(3))
  have nz: "zs s d \<noteq> 0" using i by (auto simp: n_def)
  show ?thesis
  proof (cases "cy = 0")
    case True
    let ?j = "if zs s d < 0 then - int n else int n"
    have val: "lval m p n = zabs s d + 2 ^ unat b" using e True by simp
    obtain j where j: "n = Suc j" using i by (cases n) auto
    have "BB ^ j \<le> lval m p (Suc j)" using zabs_pos [OF holdingD(4) [OF h d(1)] nz] val unfolding n_def [symmetric] j by simp
    then have top: "m (p + (n - 1)) \<noteq> 0" using top_limb [of j m p] j by simp
    have g: "grown L T s d n s" using obj_sizes(1) [OF holdingD(4) [OF h d(1)]] by (intro grown_refl holdingD(1) [OF h]) (simp add: n_def)
    from finish_signed [OF g d(1) o [unfolded p_def] top [unfolded p_def]]
    have "upd L T s d (sgn ?j * int (zabs s d + 2 ^ unat b)) (set_size d ?j (s\<lparr>limbs := m\<rparr>))" unfolding val [unfolded p_def] .
    from signed_upd [OF h d(1) _ _ this] have "holding L T k (f(d := (if f d < 0 then - int (zabs s d + 2 ^ unat b) else int (zabs s d + 2 ^ unat b)))) (set_size d ?j (s\<lparr>limbs := m\<rparr>))"
      using i by simp
    moreover have "mpz_abs_add_bit d b s = Inr (set_size d ?j (s\<lparr>limbs := m\<rparr>))"
      using i m True unfolding mpz_abs_add_bit_def Let_def i_def [symmetric] t_def [symmetric] n_def [symmetric] p_def [symmetric]
      by (simp add: mpn_add_1_def)
    ultimately show ?thesis by blast
  next
    case False
    then have "unat cy = unat (1 :: u64)" using cy unat_eq_zero [of cy] by (cases "unat cy") auto
    then have c1: "cy = 1" by (simp only: word_unat_eq_iff)
    have "int n + 1 \<le> INT_MAX" using holding_fits [OF h d] by (simp add: n_def)
    then obtain s1 m1 where s1: "MPZ_REALLOC d (int n + 1) (s\<lparr>limbs := m\<rparr>) = Inr (zd s1 d, s1\<lparr>limbs := m1\<rparr>)" "grown L T s d (nat (int n + 1)) s1"
        "\<forall>i<n. m1 (zd s1 d + i) = m (p + i)" "\<forall>q\<in>L. q \<noteq> d \<longrightarrow> (\<forall>i<zn s q. m1 (zd s1 q + i) = limbs s1 (zd s1 q + i))"
      using MPZ_REALLOC_changed [OF holdingD(1) [OF h] d(1), of "int n + 1" m] o unfolding n_def p_def by blast
    have n1: "nat (int n + 1) = Suc n" by simp
    let ?m = "m1(zd s1 d + n := cy)"
    have w1: "mpz_wf L T s1" "Suc n \<le> za s1 d" using s1(2) n1 by (simp_all add: grown_def)
    have ot: "\<forall>q\<in>L. q \<noteq> d \<longrightarrow> (\<forall>i<zn s q. ?m (zd s1 q + i) = limbs s1 (zd s1 q + i))"
    proof (intro ballI impI allI)
      fix q i assume q: "q \<in> L" "q \<noteq> d" "i < zn s q"
      have "zd s1 q + i \<noteq> zd s1 d + n" using wf_apart [OF w1(1) d(1) q(1,2)] w1(2) q(3) obj_sizes(1) [OF wf_obj [OF w1(1) q(1)]] grown_values(1) [OF s1(2) q(1)]
        by (auto simp: apart_def)
      then show "?m (zd s1 q + i) = limbs s1 (zd s1 q + i)" using s1(4) q by simp
    qed
    have "lval ?m (zd s1 d) (Suc n) = lval m p n + BB ^ n" using s1(3) c1 lval_cong [of n m1 "zd s1 d" m p] by simp
    then have val: "lval ?m (zd s1 d) (Suc n) = zabs s d + 2 ^ unat b" using e c1 by simp
    have zs: "zs s1 d = zs s d" by (rule grown_values(1) [OF s1(2) d(1)])
    let ?j = "if zs s1 d < 0 then - int (Suc n) else int (Suc n)"
    have "upd L T s d (sgn ?j * int (lval ?m (zd s1 d) (Suc n))) (set_size d ?j (s1\<lparr>limbs := ?m\<rparr>))"
      using c1 by (intro finish_changed [OF s1(2) [unfolded n1] d(1) ot]) auto
    from signed_upd [OF h d(1) _ _ this [unfolded val]] have
      "holding L T k (f(d := (if f d < 0 then - int (zabs s d + 2 ^ unat b) else int (zabs s d + 2 ^ unat b)))) (set_size d ?j (s1\<lparr>limbs := ?m\<rparr>))" using zs by simp
    moreover have "mpz_abs_add_bit d b s = Inr (set_size d ?j (s1\<lparr>limbs := ?m\<rparr>))"
      using i m c1 s1(1) unfolding mpz_abs_add_bit_def Let_def i_def [symmetric] t_def [symmetric] n_def [symmetric] p_def [symmetric]
      by (simp add: mpn_add_1_def put_limb_def)
    ultimately show ?thesis by blast
  qed
qed

lemma mpz_abs_add_bit_holding:
  assumes h: "holding L T k f s" and d: "d \<in> L" "int_fits (\<bar>f d\<bar> + 2 ^ unat b)"
  shows "\<exists>s'. mpz_abs_add_bit d b s = Inr s' \<and> holding L T k (f(d := (if f d < 0 then f d - 2 ^ unat b else f d + 2 ^ unat b))) s'"
proof -
  have "int (zabs s d) = \<bar>f d\<bar>" by (rule holding_abs [OF h d(1)])
  then have v: "(if f d < 0 then - int (zabs s d + 2 ^ unat b) else int (zabs s d + 2 ^ unat b)) = (if f d < 0 then f d - 2 ^ unat b else f d + 2 ^ unat b)" by auto
  have "int_fits (f d)" by (rule fits_le [OF d(2)]) simp
  moreover have "int (unat (b div 64)) + 1 \<le> INT_MAX" by (rule fits_limb_index [OF d(2)]) simp
  ultimately show ?thesis
    using abs_add_bit_outside [OF h d(1), of b] abs_add_bit_inside [OF h d(1), of b] unfolding v by (meson not_le)
qed

subsection \<open>The functions\<close>

lemma nonneg_bit_le: "0 \<le> z \<Longrightarrow> bit (z :: int) k \<Longrightarrow> 2 ^ k \<le> z"
  by (rule ccontr) (simp add: bit_iff_odd)

lemma neg_bit_le: "z < 0 \<Longrightarrow> \<not> bit (z :: int) k \<Longrightarrow> 2 ^ k < - z"
proof -
  assume z: "z < 0" "\<not> bit z k"
  then have "bit (NOT z) k" by (simp add: bit_not_iff)
  moreover have "0 \<le> NOT z" using z(1) by simp
  ultimately have "2 ^ k \<le> NOT z" by (intro nonneg_bit_le)
  then show ?thesis by (simp add: not_int_def)
qed

lemma mpz_setbit_holding:
  assumes h: "holding L T k f s" and d: "d \<in> L" "int_fits (\<bar>f d\<bar> + 2 ^ unat b)"
  shows "\<exists>s'. mpz_setbit d b s = Inr s' \<and> holding L T k (f(d := set_bit (unat b) (f d))) s'"
proof -
  note t = mpz_tstbit_holding [OF h d(1), of b]
  have sg: "zs s d \<ge> 0 \<longleftrightarrow> f d \<ge> 0" using holding_sgn [OF h d(1)] by (auto simp: sgn_if split: if_splits)
  consider (set) "bit (f d) (unat b)" | (pos) "\<not> bit (f d) (unat b)" "0 \<le> f d" | (neg) "\<not> bit (f d) (unat b)" "f d < 0" by linarith
  then show ?thesis
  proof cases
    case set
    then show ?thesis using h t by (simp add: mpz_setbit_def set_bit_eq fun_upd_idem)
  next
    case pos
    then show ?thesis using mpz_abs_add_bit_holding [OF h d] t sg by (simp add: mpz_setbit_def set_bit_eq)
  next
    case neg
    then have "2 ^ unat b \<le> \<bar>f d\<bar>" using neg_bit_le [of "f d" "unat b"] by simp
    then show ?thesis using mpz_abs_sub_bit_holding [OF h d(1), of b] neg t sg by (simp add: mpz_setbit_def set_bit_eq add.commute)
  qed
qed

lemma mpz_clrbit_holding:
  assumes h: "holding L T k f s" and d: "d \<in> L" "int_fits (\<bar>f d\<bar> + 2 ^ unat b)"
  shows "\<exists>s'. mpz_clrbit d b s = Inr s' \<and> holding L T k (f(d := unset_bit (unat b) (f d))) s'"
proof -
  note t = mpz_tstbit_holding [OF h d(1), of b]
  have sg: "zs s d \<ge> 0 \<longleftrightarrow> f d \<ge> 0" using holding_sgn [OF h d(1)] by (auto simp: sgn_if split: if_splits)
  consider (clear) "\<not> bit (f d) (unat b)" | (pos) "bit (f d) (unat b)" "0 \<le> f d" | (neg) "bit (f d) (unat b)" "f d < 0" by linarith
  then show ?thesis
  proof cases
    case clear
    then show ?thesis using h t by (simp add: mpz_clrbit_def unset_bit_eq fun_upd_idem)
  next
    case pos
    then have "2 ^ unat b \<le> \<bar>f d\<bar>" "f d > 0" using nonneg_bit_le [of "f d" "unat b"] by (auto simp: order_less_le)
    then show ?thesis using mpz_abs_sub_bit_holding [OF h d(1), of b] pos t sg by (simp add: mpz_clrbit_def unset_bit_eq)
  next
    case neg
    then show ?thesis using mpz_abs_add_bit_holding [OF h d] t sg by (simp add: mpz_clrbit_def unset_bit_eq)
  qed
qed

lemma mpz_combit_holding:
  assumes h: "holding L T k f s" and d: "d \<in> L" "int_fits (\<bar>f d\<bar> + 2 ^ unat b)"
  shows "\<exists>s'. mpz_combit d b s = Inr s' \<and> holding L T k (f(d := flip_bit (unat b) (f d))) s'"
proof -
  note t = mpz_tstbit_holding [OF h d(1), of b]
  have "zs s d < 0 \<longleftrightarrow> f d < 0" using holding_sgn [OF h d(1)] by (auto simp: sgn_if split: if_splits)
  then have "mpz_combit d b s = (if bit (f d) (unat b) then mpz_clrbit d b s else mpz_setbit d b s)"
    using t by (auto simp: mpz_combit_def mpz_clrbit_def mpz_setbit_def)
  then show ?thesis using mpz_setbit_holding [OF h d] mpz_clrbit_holding [OF h d] by (simp add: flip_bit_eq_if)
qed

subsection \<open>Properties\<close>

text \<open>
  C32: single bits. \<open>mpz_tstbit\<close> gives a bit of the two's complement, and \<open>mpz_setbit\<close>, \<open>mpz_clrbit\<close> and \<open>mpz_combit\<close> set, clear and flip
  it, also for negative numbers and for bits behind the last limb; no assertion fails and the block grows when it has to.
\<close>

theorem mpz_bits_twos_complement:
  assumes "mpz_wf L T s" "d \<in> L" "int_fits (\<bar>zval s d\<bar> + 2 ^ unat b)"
  shows "mpz_tstbit s d b = bit (zval s d) (unat b) \<and>
    (\<exists>s'. mpz_setbit d b s = Inr s' \<and> mpz_wf L T s' \<and> zval s' d = set_bit (unat b) (zval s d) \<and> (\<forall>x\<in>L. x \<noteq> d \<longrightarrow> zval s' x = zval s x)) \<and>
    (\<exists>s'. mpz_clrbit d b s = Inr s' \<and> mpz_wf L T s' \<and> zval s' d = unset_bit (unat b) (zval s d) \<and> (\<forall>x\<in>L. x \<noteq> d \<longrightarrow> zval s' x = zval s x)) \<and>
    (\<exists>s'. mpz_combit d b s = Inr s' \<and> mpz_wf L T s' \<and> zval s' d = flip_bit (unat b) (zval s d) \<and> (\<forall>x\<in>L. x \<noteq> d \<longrightarrow> zval s' x = zval s x))"
proof -
  note h = holdingI [OF assms(1)]
  have *: "holding L T (stack s) ((zval s)(d := z)) s' \<Longrightarrow> mpz_wf L T s' \<and> zval s' d = z \<and> (\<forall>x\<in>L. x \<noteq> d \<longrightarrow> zval s' x = zval s x)" for z s'
    using assms(2) by (auto simp: holding_def)
  show ?thesis
    using mpz_tstbit_holding [OF h assms(2)] mpz_setbit_holding [OF h assms(2,3)] mpz_clrbit_holding [OF h assms(2,3)] mpz_combit_holding [OF h assms(2,3)] *
    by blast
qed

theorem mpz_bits_twos_complement_witness:
  "\<not> mpz_tstbit sample_ints 0 1 \<and> (\<exists>s'. mpz_setbit 0 1 sample_ints = Inr s' \<and> zval s' 0 = - 5) \<and> (\<exists>s'. mpz_combit 0 1 sample_ints = Inr s' \<and> zval s' 0 = - 5)"
proof -
  have "\<not> bit (- 7 :: int) 1" "set_bit 1 (- 7 :: int) = - 5" "flip_bit 1 (- 7 :: int) = - 5" by code_simp+
  then show ?thesis using mpz_bits_twos_complement [OF sample_ints_wf, of 0 1] by (auto simp: sample_ints_values small_fits)
qed

end
