(* ===== verification/Mpz_Gcdext.thy ===== *)
theory Mpz_Gcdext
  imports Mpz_Bits
begin

section \<open>The extended greatest common divisor\<close>

text \<open>
  The function of \<open>mini-gmp.c\<close> that finds the cofactors of the greatest common divisor, and the inverse modulo a number that is
  computed with it. The binary algorithm keeps two equations and a determinant that is a power of two; in the end the factors
  of two are taken out one by one. As in \<open>Mpz_Gcd\<close> the local variables are declared in the order opposite to the source,
  so that they are released like a stack.
\<close>

declare of_nat_unat [simp del]

subsection \<open>Definitions\<close>

text \<open>A number is made odd and two cofactors are shifted accordingly; this occurs three times.\<close>

definition gcdext_odd :: "nat \<Rightarrow> nat \<Rightarrow> nat \<Rightarrow> mpz_mem \<Rightarrow> (u64 \<times> mpz_mem) res" where
  "gcdext_odd a t s st =
     bindE (mpz_make_odd a st) (\<lambda>(shift, st).
     bindE (mpz_mul_2exp t t shift st) (\<lambda>st.
     bindE (mpz_mul_2exp s s shift st) (\<lambda>st. Inr (shift, st))))"

partial_function (option) gcdext_loop ::
    "nat \<Rightarrow> nat \<Rightarrow> nat \<Rightarrow> nat \<Rightarrow> nat \<Rightarrow> nat \<Rightarrow> u64 \<Rightarrow> mpz_mem \<Rightarrow> (u64 \<times> mpz_mem) res option" where
  "gcdext_loop tu tv s0 s1 t0 t1 pwr st =
     (let c = mpz_cmp st tu tv in
      if c = 0 then Some (Inr (pwr, st))
      else
        case
          (if c < 0 then
             bindE (mpz_sub tv tv tu st) (\<lambda>st.
             bindE (mpz_add t0 t0 t1 st) (\<lambda>st.
             bindE (mpz_add s0 s0 s1 st) (gcdext_odd tv t1 s1)))
           else
             bindE (mpz_sub tu tu tv st) (\<lambda>st.
             bindE (mpz_add t1 t0 t1 st) (\<lambda>st.
             bindE (mpz_add s1 s0 s1 st) (gcdext_odd tu t0 s0)))) of
          Inl e \<Rightarrow> Some (Inl e)
        | Inr (shift, st) \<Rightarrow> gcdext_loop tu tv s0 s1 t0 t1 (pwr + shift) st)"

definition mpz_odd_p :: "mpz_mem \<Rightarrow> nat \<Rightarrow> bool" where
  "mpz_odd_p s z \<longleftrightarrow> zs s z \<noteq> 0 \<and> limbs s (zd s z) AND 1 \<noteq> 0"

primrec gcdext_halve :: "nat \<Rightarrow> nat \<Rightarrow> nat \<Rightarrow> nat \<Rightarrow> nat \<Rightarrow> mpz_mem \<Rightarrow> mpz_mem res" where
  "gcdext_halve s0 s1 t0 t1 0 st = Inr st"
| "gcdext_halve s0 s1 t0 t1 (Suc pwr) st =
     bindE (if mpz_odd_p st s0 \<or> mpz_odd_p st t0 then bindE (mpz_sub s0 s0 s1 st) (mpz_add t0 t0 t1) else Inr st) (\<lambda>st.
     bindE (mpz_divexact_ui s0 s0 2 st) (\<lambda>st.
     bindE (mpz_divexact_ui t0 t0 2 st) (gcdext_halve s0 s1 t0 t1 pwr)))"

text \<open>From the two odd numbers to the cofactors of the odd part of the divisor, and the power of two that is still in them.\<close>

definition gcdext_reduce ::
    "nat \<Rightarrow> nat \<Rightarrow> nat \<Rightarrow> nat \<Rightarrow> nat \<Rightarrow> nat \<Rightarrow> u64 \<Rightarrow> u64 \<Rightarrow> mpz_mem \<Rightarrow> (u64 \<times> mpz_mem) res" where
  "gcdext_reduce tu tv s0 s1 t0 t1 uz vz st =
     bindE (mpz_setbit t0 uz st) (\<lambda>st.
     bindE (mpz_tdiv_qr t1 tu tu tv st) (\<lambda>st.
     bindE (mpz_mul_2exp t1 t1 uz st) (\<lambda>st.
     bindE (mpz_setbit s1 vz st) (\<lambda>st.
     let pwr = uz + vz in
     if zs st tu > 0 then
       bindE (gcdext_odd tu t0 s0 st) (\<lambda>(shift, st).
       bindE (returns (gcdext_loop tu tv s0 s1 t0 t1 (pwr + shift) st)) (\<lambda>x. x))
     else Inr (pwr, st)))))"

text \<open>The divisor itself and the cofactors for the numbers \<open>u\<close> and \<open>v\<close>.\<close>

definition gcdext_cofactors ::
    "nat \<Rightarrow> nat \<Rightarrow> nat \<Rightarrow> nat \<Rightarrow> nat \<Rightarrow> nat \<Rightarrow> nat \<Rightarrow> u64 \<Rightarrow> u64 \<Rightarrow> mpz_mem \<Rightarrow> mpz_mem res" where
  "gcdext_cofactors u v tv s0 s1 t0 t1 gz pwr st =
     bindE (mpz_mul_2exp tv tv gz st) (\<lambda>st.
     bindE (mpz_neg s0 s0 st) (\<lambda>st.
     bindE (bindE (mpz_divexact s1 v tv st) (mpz_abs s1 s1)) (\<lambda>st.
     bindE (bindE (mpz_divexact t1 u tv st) (mpz_abs t1 t1)) (\<lambda>st.
     bindE (gcdext_halve s0 s1 t0 t1 (unat pwr) st) (\<lambda>st.
     bindE (mpz_add s1 s0 s1 st) (\<lambda>st.
     bindE (if mpz_cmpabs st s0 s1 > 0 then mpz_sub t0 t0 t1 (mpz_swap s0 s1 st) else Inr st) (\<lambda>st.
     bindE (if zs st u < 0 then mpz_neg s0 s0 st else Inr st) (\<lambda>st.
     if zs st v < 0 then mpz_neg t0 t0 st else Inr st))))))))"

definition mpz_gcdext :: "nat \<Rightarrow> nat option \<Rightarrow> nat option \<Rightarrow> nat \<Rightarrow> nat \<Rightarrow> mpz_mem \<Rightarrow> mpz_mem res" where
  "mpz_gcdext g s t u v st =
     (if zs st u = 0 then
        let sign = mpz_sgn st v in
        bindE (mpz_abs g v st) (\<lambda>st.
        bindE (given s (\<lambda>s. mpz_set_ui s 0) st) (given t (\<lambda>t. mpz_set_si t sign)))
      else if zs st v = 0 then
        let sign = mpz_sgn st u in
        bindE (mpz_abs g u st) (\<lambda>st.
        bindE (given s (\<lambda>s. mpz_set_si s sign) st) (given t (\<lambda>t. mpz_set_ui t 0)))
      else
        let (t1, st) = new_var st; st = mpz_init t1 st; (t0, st) = new_var st; st = mpz_init t0 st;
            (s1, st) = new_var st; st = mpz_init s1 st; (s0, st) = new_var st; st = mpz_init s0 st;
            (tv, st) = new_var st; st = mpz_init tv st; (tu, st) = new_var st; st = mpz_init tu st in
        bindE (mpz_abs tu u st) (\<lambda>st.
        bindE (mpz_make_odd tu st) (\<lambda>(uz, st).
        bindE (mpz_abs tv v st) (\<lambda>st.
        bindE (mpz_make_odd tv st) (\<lambda>(vz, st).
        let gz = min uz vz; uz = uz - gz; vz = vz - gz;
            (u, v, s, t, uz, vz, st) =
              (if zs st tu < zs st tv then (v, u, t, s, vz, uz, mpz_swap tu tv st) else (u, v, s, t, uz, vz, st)) in
        bindE (gcdext_reduce tu tv s0 s1 t0 t1 uz vz st) (\<lambda>(pwr, st).
        bindE (gcdext_cofactors u v tv s0 s1 t0 t1 gz pwr st) (\<lambda>st.
        bindE (given s (\<lambda>s st. Inr (mpz_swap s s0 st)) (mpz_swap g tv st)) (\<lambda>st.
        bindE (given t (\<lambda>t st. Inr (mpz_swap t t0 st)) st) (\<lambda>st.
        bindE (mpz_clear tu st) (\<lambda>st. bindE (mpz_clear tv (drop_var st)) (\<lambda>st.
        bindE (mpz_clear s0 (drop_var st)) (\<lambda>st. bindE (mpz_clear s1 (drop_var st)) (\<lambda>st.
        bindE (mpz_clear t0 (drop_var st)) (\<lambda>st. bindE (mpz_clear t1 (drop_var st)) (\<lambda>st.
        Inr (drop_var st))))))))))))))))"

definition mpz_invert :: "nat \<Rightarrow> nat \<Rightarrow> nat \<Rightarrow> mpz_mem \<Rightarrow> (bool \<times> mpz_mem) res" where
  "mpz_invert r u m st =
     (if zs st u = 0 \<or> mpz_cmpabs_ui st m 1 \<le> 0 then Inr (False, st)
      else
        let (tr, st) = new_var st; st = mpz_init tr st; (g, st) = new_var st; st = mpz_init g st in
        bindE (mpz_gcdext g (Some tr) None u m st) (\<lambda>st.
        let invertible = (mpz_cmp_ui st g 1 = 0) in
        bindE
          (if invertible then
             bindE (if zs st tr < 0 then if zs st m \<ge> 0 then mpz_add tr tr m st else mpz_sub tr tr m st else Inr st) (\<lambda>st.
             Inr (mpz_swap r tr st))
           else Inr st) (\<lambda>st.
        bindE (mpz_clear g st) (\<lambda>st.
        bindE (mpz_clear tr (drop_var st)) (\<lambda>st. Inr (invertible, drop_var st))))))"

subsection \<open>The equations\<close>

definition ext_inv :: "int \<Rightarrow> int \<Rightarrow> int \<Rightarrow> nat \<Rightarrow> int \<Rightarrow> int \<Rightarrow> int \<Rightarrow> int \<Rightarrow> int \<Rightarrow> int \<Rightarrow> bool" where
  "ext_inv U V G p tu tv s0 s1 t0 t1 \<longleftrightarrow>
     U = t0 * tu + t1 * tv \<and> V = s0 * tu + s1 * tv \<and> t0 * s1 - s0 * t1 = 2 ^ p \<and> gcd tu tv = G \<and>
     0 \<le> s0 \<and> 0 \<le> s1 \<and> 0 \<le> t0 \<and> 0 \<le> t1 \<and> 0 < tu \<and> 0 < tv \<and> odd tu \<and> odd tv"

lemma ext_inv_bounds:
  assumes "ext_inv U V G p tu tv s0 s1 t0 t1"
  shows "t0 * tu \<le> U" "t1 * tv \<le> U" "s0 * tu \<le> V" "s1 * tv \<le> V" "t0 \<le> U" "t1 \<le> U" "s0 \<le> V" "s1 \<le> V" "2 ^ p \<le> U * V"
proof -
  have n: "0 \<le> t0 * tu" "0 \<le> t1 * tv" "0 \<le> s0 * tu" "0 \<le> s1 * tv" using assms by (auto simp: ext_inv_def)
  then show l: "t0 * tu \<le> U" "t1 * tv \<le> U" "s0 * tu \<le> V" "s1 * tv \<le> V" using assms by (auto simp: ext_inv_def)
  have "x * 1 \<le> x * y" if "0 \<le> x" "0 < y" for x y :: int using that by (intro mult_left_mono) auto
  then have "t0 \<le> t0 * tu" "t1 \<le> t1 * tv" "s0 \<le> s0 * tu" "s1 \<le> s1 * tv" using assms by (auto simp: ext_inv_def)
  then show b: "t0 \<le> U" "t1 \<le> U" "s0 \<le> V" "s1 \<le> V" using l by linarith+
  have "t0 * s1 \<le> U * V" using b assms by (intro mult_mono) (auto simp: ext_inv_def)
  moreover have "0 \<le> s0 * t1" using assms by (simp add: ext_inv_def)
  moreover have "t0 * s1 - s0 * t1 = 2 ^ p" using assms by (simp add: ext_inv_def)
  ultimately show "2 ^ p \<le> U * V" by linarith
qed

lemma ext_inv_low:
  assumes "ext_inv U V G p tu tv s0 s1 t0 t1" "tv - tu = x * 2 ^ j" "odd x" "0 < x"
  shows "ext_inv U V G (p + j) tu x (s0 + s1) (s1 * 2 ^ j) (t0 + t1) (t1 * 2 ^ j)"
proof -
  have tv: "tv = tu + x * 2 ^ j" using assms(2) by simp
  have "gcd (x * 2 ^ j) tu = gcd x tu" using assms(1) by (intro gcd_odd_twos) (simp add: ext_inv_def)
  moreover have "gcd tv tu = gcd (x * 2 ^ j) tu" unfolding tv by (metis add.commute gcd_add1)
  ultimately have "gcd tu x = G" using assms(1) by (simp add: ext_inv_def gcd.commute)
  moreover have "(t0 + t1) * (s1 * 2 ^ j) - (s0 + s1) * (t1 * 2 ^ j) = 2 ^ (p + j)"
  proof -
    have "(t0 + t1) * (s1 * 2 ^ j) - (s0 + s1) * (t1 * 2 ^ j) = (t0 * s1 - s0 * t1) * 2 ^ j" by (simp add: algebra_simps)
    then show ?thesis using assms(1) by (simp add: ext_inv_def power_add)
  qed
  moreover have "U = (t0 + t1) * tu + t1 * 2 ^ j * x" "V = (s0 + s1) * tu + s1 * 2 ^ j * x"
    using assms(1) unfolding ext_inv_def tv by (simp_all add: algebra_simps)
  ultimately show ?thesis using assms(1,3,4) unfolding ext_inv_def by simp
qed

lemma ext_inv_swap: "ext_inv U V G p tu tv s0 s1 t0 t1 \<Longrightarrow> ext_inv V U G p tv tu t1 t0 s1 s0"
  by (auto simp: ext_inv_def gcd.commute algebra_simps)

lemma ext_inv_high:
  assumes "ext_inv U V G p tu tv s0 s1 t0 t1" "tu - tv = x * 2 ^ j" "odd x" "0 < x"
  shows "ext_inv U V G (p + j) x tv (s0 * 2 ^ j) (s0 + s1) (t0 * 2 ^ j) (t0 + t1)"
  using ext_inv_swap [OF ext_inv_low [OF ext_inv_swap [OF assms(1)] assms(2-)]] by (simp add: add.commute)

text \<open>Whatever the parities, the step before halving makes both cofactors even.\<close>

lemma halve_even:
  assumes "x * a + y * b = 2 ^ Suc p" "coprime a (b :: int)" "odd x \<or> odd y"
  shows "even (x - b)" "even (y + a)"
proof -
  have "even (x * a + y * b)" unfolding assms(1) by simp
  moreover have "odd a \<or> odd b" using assms(2) coprime_common_divisor [of a b 2] by auto
  ultimately show "even (x - b)" "even (y + a)" using assms(3) by auto
qed

subsection \<open>The loop\<close>

lemma fits_nonneg: "int_fits U \<Longrightarrow> 0 \<le> x \<Longrightarrow> x \<le> U \<Longrightarrow> int_fits x"
  by (erule fits_le) simp

lemma fits_exponent:
  assumes "int_fits U" "int_fits V" "2 ^ p \<le> U * V"
  shows "p < 2 ^ 64"
proof -
  have B: "int (BB ^ (max_limbs - 1)) = 2 ^ (64 * (max_limbs - 1))" by (simp add: BB_def power_mult)
  have "\<bar>U\<bar> * \<bar>V\<bar> \<le> 2 ^ (64 * (max_limbs - 1)) * 2 ^ (64 * (max_limbs - 1))"
    using assms(1,2) unfolding int_fits_def B by (intro mult_mono) auto
  moreover have "2 ^ p \<le> \<bar>U\<bar> * \<bar>V\<bar>" using assms(3) by (simp flip: abs_mult)
  ultimately have "(2 :: int) ^ p \<le> 2 ^ (64 * (max_limbs - 1) + 64 * (max_limbs - 1))" unfolding power_add by linarith
  then have "p \<le> 64 * (max_limbs - 1) + 64 * (max_limbs - 1)" by (rule power_le_imp_le_exp [rotated]) simp
  then show ?thesis by (simp add: max_limbs_def)
qed

lemma gcdext_odd_holding:
  assumes h: "holding L T k f st" and v: "a \<in> L" "t \<in> L" "s \<in> L" "a \<noteq> t" "a \<noteq> s" "t \<noteq> s"
    and a: "0 < f a" "int_fits (f a)" "0 \<le> f t" "0 \<le> f s" "int_fits (f t * f a)" "int_fits (f s * f a)"
  shows "\<exists>j x st'. gcdext_odd a t s st = Inr (word_of_nat j, st') \<and> unat (word_of_nat j :: u64) = j \<and> f a = x * 2 ^ j \<and> odd x \<and> 0 < x \<and>
    holding L T k (f(a := x, t := f t * 2 ^ j, s := f s * 2 ^ j)) st'"
proof -
  obtain j x s1 where s1: "mpz_make_odd a st = Inr (word_of_nat j, s1)" "unat (word_of_nat j :: u64) = j" "f a = x * 2 ^ j" "odd x" "x > 0" "holding L T k (f(a := x)) s1"
    using mpz_make_odd_holding [OF h v(1) a(1,2)] by blast
  have le: "0 \<le> y * 2 ^ j" "y * 2 ^ j \<le> y * f a" if "0 \<le> y" for y using that s1(3,5) by (auto intro!: mult_left_mono)
  have "int_fits (f t * 2 ^ j)" "int_fits (f s * 2 ^ j)" using fits_nonneg [OF a(5) le [OF a(3)]] fits_nonneg [OF a(6) le [OF a(4)]] by blast+
  note ft = this
  obtain s2 where s2: "mpz_mul_2exp t t (word_of_nat j) s1 = Inr s2" "holding L T k (f(a := x, t := f t * 2 ^ j)) s2"
    using mpz_mul_2exp_holding [OF s1(6) v(2,2), of "word_of_nat j"] ft(1) s1(2) v(4) by auto
  obtain s3 where s3: "mpz_mul_2exp s s (word_of_nat j) s2 = Inr s3" "holding L T k (f(a := x, t := f t * 2 ^ j, s := f s * 2 ^ j)) s3"
    using mpz_mul_2exp_holding [OF s2(2) v(3,3), of "word_of_nat j"] ft(2) s1(2) v(5,6) by auto
  have "gcdext_odd a t s st = Inr (word_of_nat j, s3)" using s1(1) s2(1) s3(1) by (simp add: gcdext_odd_def)
  then show ?thesis using s1(2-5) s3(2) by blast
qed

text \<open>One turn: one of the numbers is subtracted from the other.\<close>

lemma gcdext_low_turn:
  assumes h: "holding L T k f st" and v: "{tu, tv, s0, s1, t0, t1} \<subseteq> L" "distinct [tu, tv, s0, s1, t0, t1]"
    and i: "ext_inv U V G p (f tu) (f tv) (f s0) (f s1) (f t0) (f t1)" "int_fits U" "int_fits V" "f tu < f tv" "int_fits (f tv)"
  shows "\<exists>j st' f'. bindE (mpz_sub tv tv tu st) (\<lambda>st. bindE (mpz_add t0 t0 t1 st) (\<lambda>st. bindE (mpz_add s0 s0 s1 st) (gcdext_odd tv t1 s1))) =
      Inr (word_of_nat j, st') \<and> unat (word_of_nat j :: u64) = j \<and> holding L T k f' st' \<and>
    ext_inv U V G (p + j) (f' tu) (f' tv) (f' s0) (f' s1) (f' t0) (f' t1) \<and> f' tu + f' tv < f tu + f tv \<and>
    0 \<le> f' tu \<and> f' tu \<le> f tu \<and> 0 \<le> f' tv \<and> f' tv \<le> f tv \<and> (\<forall>x. x \<notin> {tu, tv, s0, s1, t0, t1} \<longrightarrow> f' x = f x)"
proof -
  note b = ext_inv_bounds [OF i(1)]
  have p: "0 < f tu" "0 < f tv" "0 \<le> f s0" "0 \<le> f s1" "0 \<le> f t0" "0 \<le> f t1" using i(1) by (auto simp: ext_inv_def)
  have ft: "int_fits (f tu)" "int_fits (f t0)" "int_fits (f t1)" "int_fits (f s0)" "int_fits (f s1)"
    using fits_nonneg [OF i(5)] fits_nonneg [OF i(2)] fits_nonneg [OF i(3)] p i(4) b by simp_all
  obtain x1 where x1: "mpz_sub tv tv tu st = Inr x1" "holding L T k (f(tv := f tv - f tu)) x1"
    using mpz_sub_holding [OF h, of tv tv tu] v i(5) ft by auto
  obtain x2 where x2: "mpz_add t0 t0 t1 x1 = Inr x2" "holding L T k (f(tv := f tv - f tu, t0 := f t0 + f t1)) x2"
    using mpz_add_holding [OF x1(2), of t0 t0 t1] v ft by auto
  obtain x3 where x3: "mpz_add s0 s0 s1 x2 = Inr x3" "holding L T k (f(tv := f tv - f tu, t0 := f t0 + f t1, s0 := f s0 + f s1)) x3"
    using mpz_add_holding [OF x2(2), of s0 s0 s1] v ft by auto
  have le: "0 \<le> y * (f tv - f tu)" "y * (f tv - f tu) \<le> y * f tv" if "0 \<le> y" for y using that i(4) p by (auto intro!: mult_left_mono)
  have "int_fits (f tv - f tu)" "int_fits (f t1 * (f tv - f tu))" "int_fits (f s1 * (f tv - f tu))"
    using fits_nonneg [OF i(5), of "f tv - f tu"] fits_nonneg [OF i(2) le(1)] fits_nonneg [OF i(3) le(1)] le(2) p i(4) b by force+
  note fd = this
  obtain j x x4 where x4: "gcdext_odd tv t1 s1 x3 = Inr (word_of_nat j, x4)" "unat (word_of_nat j :: u64) = j" "f tv - f tu = x * 2 ^ j" "odd x" "0 < x"
      "holding L T k (f(tv := x, t0 := f t0 + f t1, s0 := f s0 + f s1, t1 := f t1 * 2 ^ j, s1 := f s1 * 2 ^ j)) x4"
    using gcdext_odd_holding [OF x3(2), of tv t1 s1] v fd p i(4) by (auto simp: fun_upd_twist)
  let ?f = "f(tv := x, t0 := f t0 + f t1, s0 := f s0 + f s1, t1 := f t1 * 2 ^ j, s1 := f s1 * 2 ^ j)"
  have e: "?f tu = f tu" "?f tv = x" "?f s0 = f s0 + f s1" "?f s1 = f s1 * 2 ^ j" "?f t0 = f t0 + f t1" "?f t1 = f t1 * 2 ^ j" using v(2) by auto
  have xl: "x \<le> f tv - f tu" using x4(3,5) by simp
  have "bindE (mpz_sub tv tv tu st) (\<lambda>st. bindE (mpz_add t0 t0 t1 st) (\<lambda>st. bindE (mpz_add s0 s0 s1 st) (gcdext_odd tv t1 s1))) = Inr (word_of_nat j, x4)"
    using x1(1) x2(1) x3(1) x4(1) by simp
  moreover have "ext_inv U V G (p + j) (?f tu) (?f tv) (?f s0) (?f s1) (?f t0) (?f t1)" unfolding e by (rule ext_inv_low [OF i(1) x4(3-5)])
  moreover have "?f tu + ?f tv < f tu + f tv" "0 \<le> ?f tu" "?f tu \<le> f tu" "0 \<le> ?f tv" "?f tv \<le> f tv" unfolding e using xl p x4(5) by auto
  moreover have "\<forall>x. x \<notin> {tu, tv, s0, s1, t0, t1} \<longrightarrow> ?f x = f x" by simp
  ultimately show ?thesis using x4(2,6) by blast
qed

lemma gcdext_high_turn:
  assumes h: "holding L T k f st" and v: "{tu, tv, s0, s1, t0, t1} \<subseteq> L" "distinct [tu, tv, s0, s1, t0, t1]"
    and i: "ext_inv U V G p (f tu) (f tv) (f s0) (f s1) (f t0) (f t1)" "int_fits U" "int_fits V" "f tv < f tu" "int_fits (f tu)"
  shows "\<exists>j st' f'. bindE (mpz_sub tu tu tv st) (\<lambda>st. bindE (mpz_add t1 t0 t1 st) (\<lambda>st. bindE (mpz_add s1 s0 s1 st) (gcdext_odd tu t0 s0))) =
      Inr (word_of_nat j, st') \<and> unat (word_of_nat j :: u64) = j \<and> holding L T k f' st' \<and>
    ext_inv U V G (p + j) (f' tu) (f' tv) (f' s0) (f' s1) (f' t0) (f' t1) \<and> f' tu + f' tv < f tu + f tv \<and>
    0 \<le> f' tu \<and> f' tu \<le> f tu \<and> 0 \<le> f' tv \<and> f' tv \<le> f tv \<and> (\<forall>x. x \<notin> {tu, tv, s0, s1, t0, t1} \<longrightarrow> f' x = f x)"
proof -
  note b = ext_inv_bounds [OF i(1)]
  have p: "0 < f tu" "0 < f tv" "0 \<le> f s0" "0 \<le> f s1" "0 \<le> f t0" "0 \<le> f t1" using i(1) by (auto simp: ext_inv_def)
  have ft: "int_fits (f tv)" "int_fits (f t0)" "int_fits (f t1)" "int_fits (f s0)" "int_fits (f s1)"
    using fits_nonneg [OF i(5)] fits_nonneg [OF i(2)] fits_nonneg [OF i(3)] p i(4) b by simp_all
  obtain x1 where x1: "mpz_sub tu tu tv st = Inr x1" "holding L T k (f(tu := f tu - f tv)) x1"
    using mpz_sub_holding [OF h, of tu tu tv] v i(5) ft by auto
  obtain x2 where x2: "mpz_add t1 t0 t1 x1 = Inr x2" "holding L T k (f(tu := f tu - f tv, t1 := f t0 + f t1)) x2"
    using mpz_add_holding [OF x1(2), of t1 t0 t1] v ft by auto
  obtain x3 where x3: "mpz_add s1 s0 s1 x2 = Inr x3" "holding L T k (f(tu := f tu - f tv, t1 := f t0 + f t1, s1 := f s0 + f s1)) x3"
    using mpz_add_holding [OF x2(2), of s1 s0 s1] v ft by auto
  have le: "0 \<le> y * (f tu - f tv)" "y * (f tu - f tv) \<le> y * f tu" if "0 \<le> y" for y using that i(4) p by (auto intro!: mult_left_mono)
  have "int_fits (f tu - f tv)" "int_fits (f t0 * (f tu - f tv))" "int_fits (f s0 * (f tu - f tv))"
    using fits_nonneg [OF i(5), of "f tu - f tv"] fits_nonneg [OF i(2) le(1)] fits_nonneg [OF i(3) le(1)] le(2) p i(4) b by force+
  note fd = this
  obtain j x x4 where x4: "gcdext_odd tu t0 s0 x3 = Inr (word_of_nat j, x4)" "unat (word_of_nat j :: u64) = j" "f tu - f tv = x * 2 ^ j" "odd x" "0 < x"
      "holding L T k (f(tu := x, t1 := f t0 + f t1, s1 := f s0 + f s1, t0 := f t0 * 2 ^ j, s0 := f s0 * 2 ^ j)) x4"
    using gcdext_odd_holding [OF x3(2), of tu t0 s0] v fd p i(4) by (auto simp: fun_upd_twist)
  let ?f = "f(tu := x, t1 := f t0 + f t1, s1 := f s0 + f s1, t0 := f t0 * 2 ^ j, s0 := f s0 * 2 ^ j)"
  have e: "?f tu = x" "?f tv = f tv" "?f s0 = f s0 * 2 ^ j" "?f s1 = f s0 + f s1" "?f t0 = f t0 * 2 ^ j" "?f t1 = f t0 + f t1" using v(2) by auto
  have xl: "x \<le> f tu - f tv" using x4(3,5) by simp
  have "bindE (mpz_sub tu tu tv st) (\<lambda>st. bindE (mpz_add t1 t0 t1 st) (\<lambda>st. bindE (mpz_add s1 s0 s1 st) (gcdext_odd tu t0 s0))) = Inr (word_of_nat j, x4)"
    using x1(1) x2(1) x3(1) x4(1) by simp
  moreover have "ext_inv U V G (p + j) (?f tu) (?f tv) (?f s0) (?f s1) (?f t0) (?f t1)" unfolding e by (rule ext_inv_high [OF i(1) x4(3-5)])
  moreover have "?f tu + ?f tv < f tu + f tv" "0 \<le> ?f tu" "?f tu \<le> f tu" "0 \<le> ?f tv" "?f tv \<le> f tv" unfolding e using xl p x4(5) by auto
  moreover have "\<forall>x. x \<notin> {tu, tv, s0, s1, t0, t1} \<longrightarrow> ?f x = f x" by simp
  ultimately show ?thesis using x4(2,6) by blast
qed

lemma power_sum:
  assumes "ext_inv U V G (p + j) a b c d e g" "int_fits U" "int_fits V" "unat (pw :: u64) = p" "unat (word_of_nat j :: u64) = j"
  shows "unat (pw + word_of_nat j) = p + j"
proof -
  have "p + j < 2 ^ 64" by (rule fits_exponent [OF assms(2,3) ext_inv_bounds(9) [OF assms(1)]])
  then show ?thesis unfolding unat_word_ariths assms(4,5) by simp
qed

lemma gcdext_loop_holding:
  assumes v: "{tu, tv, s0, s1, t0, t1} \<subseteq> L" "distinct [tu, tv, s0, s1, t0, t1]" and fits: "int_fits U" "int_fits V"
  shows "holding L T k f st \<Longrightarrow> ext_inv U V G (unat pw) (f tu) (f tv) (f s0) (f s1) (f t0) (f t1) \<Longrightarrow> int_fits (f tu) \<Longrightarrow> int_fits (f tv) \<Longrightarrow>
    \<exists>pw' st' f'. gcdext_loop tu tv s0 s1 t0 t1 pw st = Some (Inr (pw', st')) \<and> holding L T k f' st' \<and>
      ext_inv U V G (unat pw') (f' tu) (f' tv) (f' s0) (f' s1) (f' t0) (f' t1) \<and> f' tu = f' tv \<and> f' tv \<le> f tv \<and>
      (\<forall>x. x \<notin> {tu, tv, s0, s1, t0, t1} \<longrightarrow> f' x = f x)"
proof (induction "nat (f tu + f tv)" arbitrary: f st pw rule: less_induct)
  case less
  have m: "tu \<in> L" "tv \<in> L" using v(1) by auto
  have c: "mpz_cmp st tu tv = sgn (f tu - f tv)" by (rule mpz_cmp_holding [OF less.prems(1) m])
  have p: "0 < f tu" "0 < f tv" using less.prems(2) by (auto simp: ext_inv_def)
  show ?case
  proof (cases "f tu = f tv")
    case True
    then have "gcdext_loop tu tv s0 s1 t0 t1 pw st = Some (Inr (pw, st))" using c by (subst gcdext_loop.simps) simp
    then show ?thesis using less.prems True by blast
  next
    case False
    let ?turn = "if mpz_cmp st tu tv < 0 then bindE (mpz_sub tv tv tu st) (\<lambda>st. bindE (mpz_add t0 t0 t1 st) (\<lambda>st. bindE (mpz_add s0 s0 s1 st) (gcdext_odd tv t1 s1)))
      else bindE (mpz_sub tu tu tv st) (\<lambda>st. bindE (mpz_add t1 t0 t1 st) (\<lambda>st. bindE (mpz_add s1 s0 s1 st) (gcdext_odd tu t0 s0)))"
    have "\<exists>j st' f'. ?turn = Inr (word_of_nat j, st') \<and> unat (word_of_nat j :: u64) = j \<and> holding L T k f' st' \<and>
      ext_inv U V G (unat pw + j) (f' tu) (f' tv) (f' s0) (f' s1) (f' t0) (f' t1) \<and> f' tu + f' tv < f tu + f tv \<and>
      0 \<le> f' tu \<and> f' tu \<le> f tu \<and> 0 \<le> f' tv \<and> f' tv \<le> f tv \<and> (\<forall>x. x \<notin> {tu, tv, s0, s1, t0, t1} \<longrightarrow> f' x = f x)"
    proof (cases "f tu < f tv")
      case True
      then have "mpz_cmp st tu tv < 0" unfolding c by simp
      then show ?thesis using gcdext_low_turn [OF less.prems(1) v less.prems(2) fits True less.prems(4)] by simp
    next
      case n: False
      then have "\<not> mpz_cmp st tu tv < 0" "f tv < f tu" unfolding c using False by simp_all
      then show ?thesis using gcdext_high_turn [OF less.prems(1) v less.prems(2) fits _ less.prems(3)] by simp
    qed
    then obtain j st1 f1 where t: "?turn = Inr (word_of_nat j, st1)" "unat (word_of_nat j :: u64) = j" "holding L T k f1 st1"
      "ext_inv U V G (unat pw + j) (f1 tu) (f1 tv) (f1 s0) (f1 s1) (f1 t0) (f1 t1)" "f1 tu + f1 tv < f tu + f tv"
      "0 \<le> f1 tu" "f1 tu \<le> f tu" "0 \<le> f1 tv" "f1 tv \<le> f tv" "\<forall>x. x \<notin> {tu, tv, s0, s1, t0, t1} \<longrightarrow> f1 x = f x" by blast
    have pw: "unat (pw + word_of_nat j) = unat pw + j" by (rule power_sum [OF t(4) fits refl t(2)])
    have fi: "int_fits (f1 tu)" "int_fits (f1 tv)" using fits_nonneg less.prems(3,4) t(6-9) by blast+
    have "nat (f1 tu + f1 tv) < nat (f tu + f tv)" using t(5) p by simp
    from less.hyps [OF this t(3) _ fi, of "pw + word_of_nat j"] t(4) obtain pw' st' f' where
      r: "gcdext_loop tu tv s0 s1 t0 t1 (pw + word_of_nat j) st1 = Some (Inr (pw', st'))" "holding L T k f' st'"
      "ext_inv U V G (unat pw') (f' tu) (f' tv) (f' s0) (f' s1) (f' t0) (f' t1)" "f' tu = f' tv" "f' tv \<le> f1 tv"
      "\<forall>x. x \<notin> {tu, tv, s0, s1, t0, t1} \<longrightarrow> f' x = f1 x" unfolding pw by blast
    have "mpz_cmp st tu tv \<noteq> 0" unfolding c using False by (simp add: sgn_0_0)
    then have "gcdext_loop tu tv s0 s1 t0 t1 pw st = Some (Inr (pw', st'))"
      using t(1) r(1) by (subst gcdext_loop.simps) (simp add: Let_def)
    moreover have "f' tv \<le> f tv" "\<forall>x. x \<notin> {tu, tv, s0, s1, t0, t1} \<longrightarrow> f' x = f x" using r(5,6) t(9,10) by auto
    ultimately show ?thesis using r(2-4) by blast
  qed
qed

subsection \<open>Halving the cofactors\<close>

lemma mpz_odd_p_holding:
  assumes h: "holding L T k f s" and x: "x \<in> L"
  shows "mpz_odd_p s x \<longleftrightarrow> odd (f x)"
proof -
  have N: "int (zabs s x) = \<bar>f x\<bar>" by (rule holding_abs [OF h x])
  show ?thesis
  proof (cases "zs s x = 0")
    case True
    then show ?thesis using holding_zero_iff [OF h x] by (simp add: mpz_odd_p_def)
  next
    case False
    then obtain n where n: "zn s x = Suc n" by (cases "zn s x") auto
    have "odd (zabs s x) \<longleftrightarrow> odd (unat (limbs s (zd s x)))" unfolding zabs_def n lval_low by (simp add: BB_def)
    also have "\<dots> \<longleftrightarrow> bit (limbs s (zd s x)) 0" by (simp add: bit_0 [of "unat (limbs s (zd s x))", symmetric] bit_unsigned_iff)
    also have "\<dots> \<longleftrightarrow> limbs s (zd s x) AND 1 \<noteq> 0" by (simp add: and_one_eq mod_2_eq_odd bit_0)
    also have "odd (zabs s x) \<longleftrightarrow> odd (f x)" using N by (metis dvd_abs_iff even_of_nat)
    finally show ?thesis using False by (simp add: mpz_odd_p_def)
  qed
qed

lemma halve_turn:
  assumes "x * a + y * b = 2 ^ Suc p" "coprime a (b :: int)" "0 \<le> a" "0 \<le> b" "\<bar>x\<bar> \<le> V" "\<bar>y\<bar> \<le> U" "a \<le> U" "b \<le> V"
    and x': "x' = (if odd x \<or> odd y then x - b else x)" and y': "y' = (if odd x \<or> odd y then y + a else y)"
  shows "even x'" "even y'" "x' div 2 * a + y' div 2 * b = 2 ^ p" "\<bar>x' div 2\<bar> \<le> V" "\<bar>y' div 2\<bar> \<le> U"
proof -
  show e: "even x'" "even y'" using halve_even [OF assms(1,2)] unfolding x' y' by auto
  have "x' * a + y' * b = 2 * 2 ^ p" using assms(1) unfolding x' y' by (simp add: algebra_simps)
  moreover have h: "x' = 2 * (x' div 2)" "y' = 2 * (y' div 2)" using e by simp_all
  ultimately have "2 * (x' div 2 * a + y' div 2 * b) = 2 * 2 ^ p" by (metis distrib_left mult.assoc)
  then show "x' div 2 * a + y' div 2 * b = 2 ^ p" by simp
  have "\<bar>x'\<bar> \<le> 2 * V" "\<bar>y'\<bar> \<le> 2 * U" using assms(3-8) unfolding x' y' by auto
  then show "\<bar>x' div 2\<bar> \<le> V" "\<bar>y' div 2\<bar> \<le> U" using h by linarith+
qed

lemma gcdext_halve_holding:
  assumes v: "{s0, s1, t0, t1} \<subseteq> L" "distinct [s0, s1, t0, t1]" and fits: "int_fits U" "int_fits V"
    and ab: "coprime a b" "0 \<le> a" "0 \<le> b" "a \<le> U" "b \<le> V"
  shows "holding L T k f st \<Longrightarrow> f t1 = a \<Longrightarrow> f s1 = b \<Longrightarrow> f s0 * a + f t0 * b = 2 ^ p \<Longrightarrow> \<bar>f s0\<bar> \<le> V \<Longrightarrow> \<bar>f t0\<bar> \<le> U \<Longrightarrow> 0 \<le> f t0 \<Longrightarrow>
    \<exists>st' x y. gcdext_halve s0 s1 t0 t1 p st = Inr st' \<and> holding L T k (f(s0 := x, t0 := y)) st' \<and> x * a + y * b = 1 \<and> \<bar>x\<bar> \<le> V \<and> \<bar>y\<bar> \<le> U \<and> 0 \<le> y"
proof (induction p arbitrary: f st)
  case 0
  have "f(s0 := f s0, t0 := f t0) = f" by simp
  then show ?case using 0 by (metis gcdext_halve.simps(1) power_0)
next
  case (Suc p)
  define x' y' where "x' = (if odd (f s0) \<or> odd (f t0) then f s0 - b else f s0)" and "y' = (if odd (f s0) \<or> odd (f t0) then f t0 + a else f t0)"
  note ht = halve_turn [OF Suc.prems(4) ab(1-3) Suc.prems(5,6) ab(4,5) x'_def y'_def]
  have m: "s0 \<in> L" "s1 \<in> L" "t0 \<in> L" "t1 \<in> L" using v(1) by auto
  have o: "mpz_odd_p st s0 \<or> mpz_odd_p st t0 \<longleftrightarrow> odd (f s0) \<or> odd (f t0)" using mpz_odd_p_holding [OF Suc.prems(1)] m by blast
  have ft: "int_fits (f s0)" "int_fits (f t0)" "int_fits b" "int_fits a" using fits_le [OF fits(1)] fits_le [OF fits(2)] Suc.prems(5,6) ab by auto
  have "\<exists>st1. (if mpz_odd_p st s0 \<or> mpz_odd_p st t0 then bindE (mpz_sub s0 s0 s1 st) (mpz_add t0 t0 t1) else Inr st) = Inr st1 \<and> holding L T k (f(s0 := x', t0 := y')) st1"
  proof (cases "odd (f s0) \<or> odd (f t0)")
    case True
    obtain z1 where z1: "mpz_sub s0 s0 s1 st = Inr z1" "holding L T k (f(s0 := f s0 - b)) z1"
      using mpz_sub_holding [OF Suc.prems(1) m(1,1,2)] ft Suc.prems(3) by auto
    obtain z2 where "mpz_add t0 t0 t1 z1 = Inr z2" "holding L T k (f(s0 := f s0 - b, t0 := f t0 + a)) z2"
      using mpz_add_holding [OF z1(2) m(3,3,4)] ft Suc.prems(2) v(2) by auto
    then show ?thesis using z1(1) True o by (simp add: x'_def y'_def)
  next
    case False
    then show ?thesis using o Suc.prems(1) by (simp add: x'_def y'_def)
  qed
  then obtain st1 where st1: "(if mpz_odd_p st s0 \<or> mpz_odd_p st t0 then bindE (mpz_sub s0 s0 s1 st) (mpz_add t0 t0 t1) else Inr st) = Inr st1"
    "holding L T k (f(s0 := x', t0 := y')) st1" by blast
  obtain st2 where st2: "mpz_divexact_ui s0 s0 2 st1 = Inr st2" "holding L T k (f(s0 := x' div 2, t0 := y')) st2"
    using mpz_divexact_ui_holding [OF st1(2) m(1) _ m(1), of 2] ht(1) v(2) by (auto simp: fun_upd_twist)
  obtain st3 where st3: "mpz_divexact_ui t0 t0 2 st2 = Inr st3" "holding L T k (f(s0 := x' div 2, t0 := y' div 2)) st3"
    using mpz_divexact_ui_holding [OF st2(2) m(3) _ m(3), of 2] ht(2) v(2) by auto
  let ?f = "f(s0 := x' div 2, t0 := y' div 2)"
  have c: "?f t1 = a" "?f s1 = b" "?f s0 * a + ?f t0 * b = 2 ^ p" "\<bar>?f s0\<bar> \<le> V" "\<bar>?f t0\<bar> \<le> U" "0 \<le> ?f t0"
    using ht(3-5) Suc.prems(2,3,7) ab(2) v(2) by (auto simp: y'_def)
  have "?f(s0 := x, t0 := y) = f(s0 := x, t0 := y)" for x y by (auto simp: fun_eq_iff)
  with Suc.IH [OF st3(2) c] obtain st' x y where
    r: "gcdext_halve s0 s1 t0 t1 p st3 = Inr st'" "holding L T k (f(s0 := x, t0 := y)) st'" "x * a + y * b = 1" "\<bar>x\<bar> \<le> V" "\<bar>y\<bar> \<le> U" "0 \<le> y"
    by metis
  have "gcdext_halve s0 s1 t0 t1 (Suc p) st = Inr st'" using r(1) st1(1) st2(1) st3(1) by simp
  then show ?case using r(2-6) by blast
qed

subsection \<open>The reduction\<close>

lemma ext_inv_end:
  assumes "ext_inv U V G p tu tv s0 s1 t0 t1"
  shows "t0 * V - s0 * U = 2 ^ p * tv"
proof -
  have "t0 * (s0 * tu + s1 * tv) - s0 * (t0 * tu + t1 * tv) = (t0 * s1 - s0 * t1) * tv" by (simp add: algebra_simps)
  then show ?thesis using assms by (simp add: ext_inv_def)
qed

lemma ext_inv_start:
  assumes "tu mod tv = x * 2 ^ j" "odd x" "0 < x" "0 < tu" "0 < tv" "odd tv"
  shows "ext_inv (tu * 2 ^ c) (tv * 2 ^ d) (gcd tu tv) (c + d + j) x tv 0 (2 ^ d) (2 ^ c * 2 ^ j) (tu div tv * 2 ^ c)"
proof -
  have "gcd (x * 2 ^ j) tv = gcd x tv" by (rule gcd_odd_twos [OF assms(6)])
  then have "gcd x tv = gcd tu tv" using gcd_red_int [of tu tv] by (simp add: assms(1) gcd.commute)
  moreover have "tu * 2 ^ c = 2 ^ c * 2 ^ j * x + tu div tv * 2 ^ c * tv"
    using div_mult_mod_eq [of tu tv] unfolding assms(1) by (metis (no_types, opaque_lifting) distrib_right mult.assoc mult.commute add.commute)
  moreover have "0 \<le> tu div tv" using assms(4,5) by (simp add: pos_imp_zdiv_nonneg_iff)
  ultimately show ?thesis using assms by (simp add: ext_inv_def power_add)
qed

lemma set_bit_0_int: "set_bit n (0 :: int) = 2 ^ n"
  by (simp add: set_bit_eq)

lemma gcdext_start_holding:
  assumes h: "holding L T k f st" and v: "{tu, tv, s0, s1, t0, t1} \<subseteq> L" "distinct [tu, tv, s0, s1, t0, t1]"
    and p: "0 < f tu" "0 < f tv" "f s0 = 0" "f s1 = 0" "f t0 = 0" "f t1 = 0"
    and fits: "int_fits (f tu * 2 ^ unat uz)" "int_fits (f tv * 2 ^ unat vz)"
  shows "\<exists>x1 x2 x3 x4. mpz_setbit t0 uz st = Inr x1 \<and> mpz_tdiv_qr t1 tu tu tv x1 = Inr x2 \<and> mpz_mul_2exp t1 t1 uz x2 = Inr x3 \<and> mpz_setbit s1 vz x3 = Inr x4 \<and>
    holding L T k (f(tu := f tu mod f tv, t0 := 2 ^ unat uz, t1 := f tu div f tv * 2 ^ unat uz, s1 := 2 ^ unat vz)) x4"
proof -
  have m: "tu \<in> L" "tv \<in> L" "s0 \<in> L" "s1 \<in> L" "t0 \<in> L" "t1 \<in> L" using v(1) by auto
  have le: "(1 :: int) \<le> 2 ^ n" for n by simp
  have ft: "int_fits (f tu)" "int_fits (f tv)" "int_fits (2 ^ unat uz)" "int_fits (2 ^ unat vz)"
    using p fits_nonneg [OF fits(1), of "f tu"] fits_nonneg [OF fits(1), of "2 ^ unat uz"] fits_nonneg [OF fits(2), of "f tv"] fits_nonneg [OF fits(2), of "2 ^ unat vz"]
    by simp_all
  obtain x1 where x1: "mpz_setbit t0 uz st = Inr x1" "holding L T k (f(t0 := 2 ^ unat uz)) x1"
    using mpz_setbit_holding [OF h m(5), of uz] p ft(3) by (auto simp: set_bit_0_int)
  have dr: "div_round GMP_DIV_TRUNC (f tu) (f tv) = f tu div f tv" "rem_round GMP_DIV_TRUNC (f tu) (f tv) = f tu mod f tv"
    using p(1,2) floor_trunc [of "f tv" "f tu"] by (simp_all add: trunc_rem)
  obtain x2 where x2: "mpz_tdiv_qr t1 tu tu tv x1 = Inr x2" "holding L T k (f(t0 := 2 ^ unat uz, tu := f tu mod f tv, t1 := f tu div f tv)) x2"
    using void_holding [OF mpz_div_qr_holding [OF x1(2) m(1,2), of "Some t1" "Some tu" GMP_DIV_TRUNC]] v(2) m p(2) ft dr by (auto simp: mpz_tdiv_qr_def)
  have "f tu div f tv * 2 ^ unat uz \<le> f tu * 2 ^ unat uz" using p by (intro mult_right_mono) (auto simp: zdiv_mono2 [of "f tu" 1 "f tv", simplified])
  moreover have "0 \<le> f tu div f tv" using p by (simp add: pos_imp_zdiv_nonneg_iff)
  ultimately have "int_fits (f tu div f tv * 2 ^ unat uz)" by (intro fits_nonneg [OF fits(1)]) auto
  then obtain x3 where x3: "mpz_mul_2exp t1 t1 uz x2 = Inr x3" "holding L T k (f(t0 := 2 ^ unat uz, tu := f tu mod f tv, t1 := f tu div f tv * 2 ^ unat uz)) x3"
    using mpz_mul_2exp_holding [OF x2(2) m(6,6), of uz] by auto
  obtain x4 where x4: "mpz_setbit s1 vz x3 = Inr x4" "holding L T k (f(t0 := 2 ^ unat uz, tu := f tu mod f tv, t1 := f tu div f tv * 2 ^ unat uz, s1 := 2 ^ unat vz)) x4"
    using mpz_setbit_holding [OF x3(2) m(4), of vz] p ft(4) v(2) by (auto simp: set_bit_0_int)
  have "f(t0 := 2 ^ unat uz, tu := f tu mod f tv) = f(tu := f tu mod f tv, t0 := 2 ^ unat uz)" using v(2) by (intro fun_upd_twist) auto
  then show ?thesis using x1(1) x2(1) x3(1) x4 by auto
qed

lemma unat_sum: "unat (a :: u64) + unat b < 2 ^ 64 \<Longrightarrow> unat (a + b) = unat a + unat b"
  unfolding unat_word_ariths by simp

lemma gcdext_reduce_holding:
  assumes h: "holding L T k f st" and v: "{tu, tv, s0, s1, t0, t1} \<subseteq> L" "distinct [tu, tv, s0, s1, t0, t1]"
    and p: "0 < f tu" "0 < f tv" "f s0 = 0" "f s1 = 0" "f t0 = 0" "f t1 = 0" and o: "odd (f tv)"
    and fits: "int_fits (f tu * 2 ^ unat uz)" "int_fits (f tv * 2 ^ unat vz)"
  defines "U \<equiv> f tu * 2 ^ unat uz" and "V \<equiv> f tv * 2 ^ unat vz"
  shows "\<exists>pw st' f'. gcdext_reduce tu tv s0 s1 t0 t1 uz vz st = Inr (pw, st') \<and> holding L T k f' st' \<and> f' tv = gcd (f tu) (f tv) \<and>
    f' t0 * V - f' s0 * U = 2 ^ unat pw * gcd (f tu) (f tv) \<and> 0 \<le> f' s0 \<and> f' s0 \<le> V \<and> 0 \<le> f' t0 \<and> f' t0 \<le> U \<and>
    (\<forall>x. x \<notin> {tu, tv, s0, s1, t0, t1} \<longrightarrow> f' x = f x)"
proof -
  have m: "tu \<in> L" "tv \<in> L" "s0 \<in> L" "t0 \<in> L" using v(1) by auto
  define r f1 where "r = f tu mod f tv" and "f1 = f(tu := r, t0 := 2 ^ unat uz, t1 := f tu div f tv * 2 ^ unat uz, s1 := 2 ^ unat vz)"
  from gcdext_start_holding [OF h v p fits] obtain x1 x2 x3 x4 where
    x: "mpz_setbit t0 uz st = Inr x1" "mpz_tdiv_qr t1 tu tu tv x1 = Inr x2" "mpz_mul_2exp t1 t1 uz x2 = Inr x3" "mpz_setbit s1 vz x3 = Inr x4"
      "holding L T k f1 x4" unfolding f1_def r_def by blast
  have f1: "f1 tu = r" "f1 tv = f tv" "f1 s0 = 0" "f1 s1 = 2 ^ unat vz" "f1 t0 = 2 ^ unat uz" "f1 t1 = f tu div f tv * 2 ^ unat uz"
      "\<And>x. x \<notin> {tu, tv, s0, s1, t0, t1} \<Longrightarrow> f1 x = f x" using v(2) p by (auto simp: f1_def)
  have r: "0 \<le> r" "r < f tv" "r \<le> f tu" using p by (simp_all add: r_def zmod_le_nonneg_dividend)
  have U: "2 ^ unat uz \<le> U" "2 ^ unat vz \<le> V" "0 < V" "0 \<le> U" using p by (simp_all add: U_def V_def)
  have "(2 :: int) ^ (unat uz + unat vz) \<le> U * V" unfolding power_add using U by (intro mult_mono) auto
  then have uv: "unat (uz + vz) = unat uz + unat vz" using fits_exponent [OF fits [folded U_def V_def]] by (intro unat_sum) simp
  have z: "zs x4 tu > 0 \<longleftrightarrow> 0 < r" using holding_sgn [OF x(5) m(1)] f1(1) by (auto simp: sgn_if split: if_splits)
  show ?thesis
  proof (cases "r = 0")
    case True
    then have "gcd (f tu) (f tv) = f tv" using p(2) by (simp add: r_def gcd_proj2_iff mod_eq_0_iff_dvd)
    then have "f1 t0 * V - f1 s0 * U = 2 ^ unat (uz + vz) * gcd (f tu) (f tv)" "f1 tv = gcd (f tu) (f tv)" unfolding uv f1 V_def by (simp_all add: power_add)
    moreover have "gcdext_reduce tu tv s0 s1 t0 t1 uz vz st = Inr (uz + vz, x4)" using x(1-4) z True by (simp add: gcdext_reduce_def Let_def)
    ultimately show ?thesis using x(5) f1 U by (intro exI [of _ "uz + vz"] exI [of _ x4] exI [of _ f1]) simp
  next
    case False
    have "2 ^ unat uz * r \<le> U" using r(3) by (simp add: U_def mult.commute)
    moreover have ftv: "int_fits (f tv)" using p(2) by (intro fits_nonneg [OF fits(2) [folded V_def]]) (simp_all add: V_def)
    ultimately have fr: "int_fits (f1 t0 * f1 tu)" "int_fits (f1 s0 * f1 tu)" "int_fits (f1 tu)" "int_fits (f1 tv)"
      using r fits_nonneg [OF fits(1) [folded U_def], of "2 ^ unat uz * r"] fits_nonneg [OF ftv, of r] small_fits [of 0] unfolding f1 by simp_all
    have d: "tu \<noteq> t0" "tu \<noteq> s0" "t0 \<noteq> s0" using v(2) by auto
    have "0 < f1 tu" "0 \<le> f1 t0" "0 \<le> f1 s0" using r(1) False f1 by simp_all
    from gcdext_odd_holding [OF x(5) m(1,4,3) d this(1) fr(3) this(2,3) fr(1,2)] obtain j y x5 where
      y: "gcdext_odd tu t0 s0 x4 = Inr (word_of_nat j, x5)" "unat (word_of_nat j :: u64) = j" "r = y * 2 ^ j" "odd y" "0 < y"
        "holding L T k (f1(tu := y, t0 := 2 ^ unat uz * 2 ^ j, s0 := 0)) x5" unfolding f1 by auto
    let ?f = "f1(tu := y, t0 := 2 ^ unat uz * 2 ^ j, s0 := 0)"
    have e: "?f tu = y" "?f tv = f tv" "?f s0 = 0" "?f s1 = 2 ^ unat vz" "?f t0 = 2 ^ unat uz * 2 ^ j" "?f t1 = f tu div f tv * 2 ^ unat uz" using v(2) f1 by auto
    have i: "ext_inv U V (gcd (f tu) (f tv)) (unat uz + unat vz + j) (?f tu) (?f tv) (?f s0) (?f s1) (?f t0) (?f t1)"
      unfolding e U_def V_def using ext_inv_start [OF _ y(4,5) p(1,2) o] y(3) by (simp add: r_def)
    have pw: "unat (uz + vz + word_of_nat j) = unat uz + unat vz + j" by (rule power_sum [OF i fits [folded U_def V_def] uv y(2)])
    have "int_fits (?f tu)" "int_fits (?f tv)" unfolding e using fr(3,4) fits_nonneg [OF fr(3), of y] y(3,5) f1 by auto
    from gcdext_loop_holding [OF v fits [folded U_def V_def] y(6) i [folded pw] this] obtain pw st' f' where
      w: "gcdext_loop tu tv s0 s1 t0 t1 (uz + vz + word_of_nat j) x5 = Some (Inr (pw, st'))" "holding L T k f' st'"
        "ext_inv U V (gcd (f tu) (f tv)) (unat pw) (f' tu) (f' tv) (f' s0) (f' s1) (f' t0) (f' t1)" "f' tu = f' tv" "\<forall>x. x \<notin> {tu, tv, s0, s1, t0, t1} \<longrightarrow> f' x = ?f x"
      by blast
    have G: "f' tv = gcd (f tu) (f tv)" using w(3,4) by (auto simp: ext_inv_def)
    have "f' t0 * V - f' s0 * U = 2 ^ unat pw * gcd (f tu) (f tv)" using ext_inv_end [OF w(3)] G by simp
    moreover have "gcdext_reduce tu tv s0 s1 t0 t1 uz vz st = Inr (pw, st')"
      using x(1-4) z False r(1) y(1) w(1) by (simp add: gcdext_reduce_def Let_def returns_def)
    moreover have "0 \<le> f' s0" "0 \<le> f' t0" using w(3) by (auto simp: ext_inv_def)
    moreover have "\<forall>x. x \<notin> {tu, tv, s0, s1, t0, t1} \<longrightarrow> f' x = f x" using w(5) f1(7) by simp
    ultimately show ?thesis using w(2) G ext_inv_bounds [OF w(3)] by blast
  qed
qed

subsection \<open>The cofactors\<close>

lemma abs_exact_div:
  assumes "\<bar>n\<bar> = N * 2 ^ z" "G dvd N" "0 < (G :: int)"
  shows "\<bar>n div (G * 2 ^ z)\<bar> = N div G" "G * 2 ^ z dvd n"
proof -
  obtain q where q: "N = G * q" using assms(2) by (elim dvdE)
  have d: "\<bar>n\<bar> = G * 2 ^ z * q" using assms(1) q by simp
  then have "G * 2 ^ z dvd \<bar>n\<bar>" by (metis dvd_triv_left)
  then show "G * 2 ^ z dvd n" by (simp only: dvd_abs_iff)
  then obtain w where w: "n = G * 2 ^ z * w" by (elim dvdE)
  have p: "0 < G * 2 ^ z" using assms(3) by simp
  have "G * 2 ^ z * \<bar>w\<bar> = G * 2 ^ z * q" using d assms(3) unfolding w by (simp add: abs_mult)
  then have "\<bar>w\<bar> = q" using assms(3) by simp
  then show "\<bar>n div (G * 2 ^ z)\<bar> = N div G" using w q p assms(3) by simp
qed

lemma mpz_cmpabs_holding: "holding L T k f s \<Longrightarrow> a \<in> L \<Longrightarrow> b \<in> L \<Longrightarrow> mpz_cmpabs s a b = sgn (\<bar>f a\<bar> - \<bar>f b\<bar>)"
  using mpz_cmpabs_ok [OF holdingD(4) [of L T k f s a] holdingD(4) [of L T k f s b]] holdingD(2) [of L T k f s] by simp

text \<open>The last adjustments of the cofactors \<open>x\<close> and \<open>y\<close>.\<close>

lemma gcdext_adjust_holding:
  assumes h: "holding L T k f st" and v: "{u, v, s0, s1, t0, t1} \<subseteq> L" "distinct [s0, s1, t0, t1]" "u \<notin> {s0, s1, t0, t1}" "v \<notin> {s0, s1, t0, t1}"
    and e: "f s0 * f t1 + f t0 * f s1 = 1" "int_fits (f s0)" "int_fits (f s1)" "int_fits (f t0)" "int_fits (f t1)" "f u \<noteq> 0" "f v \<noteq> 0"
    and b: "\<bar>f s0\<bar> \<le> V" "0 \<le> f t0" "f t0 \<le> U" "0 \<le> f t1" "f t1 \<le> U"
  shows "\<exists>x1 x2 x3 x4 f'. mpz_add s1 s0 s1 st = Inr x1 \<and> (if mpz_cmpabs x1 s0 s1 > 0 then mpz_sub t0 t0 t1 (mpz_swap s0 s1 x1) else Inr x1) = Inr x2 \<and>
    (if zs x2 u < 0 then mpz_neg s0 s0 x2 else Inr x2) = Inr x3 \<and> (if zs x3 v < 0 then mpz_neg t0 t0 x3 else Inr x3) = Inr x4 \<and>
    holding L T k f' x4 \<and> sgn (f u) * f' s0 * f t1 + sgn (f v) * f' t0 * f s1 = 1 \<and> \<bar>f' s0\<bar> \<le> V \<and> \<bar>f' t0\<bar> \<le> U \<and>
    (\<forall>x. x \<notin> {s0, s1, t0, t1} \<longrightarrow> f' x = f x)"
proof -
  have m: "u \<in> L" "v \<in> L" "s0 \<in> L" "s1 \<in> L" "t0 \<in> L" "t1 \<in> L" using v(1) by auto
  obtain x1 where x1: "mpz_add s1 s0 s1 st = Inr x1" "holding L T k (f(s1 := f s0 + f s1)) x1" using mpz_add_holding [OF h m(4,3,4)] e by blast
  have c1: "mpz_cmpabs x1 s0 s1 > 0 \<longleftrightarrow> \<bar>f s0 + f s1\<bar> < \<bar>f s0\<bar>" using mpz_cmpabs_holding [OF x1(2) m(3,4)] v(2) by auto
  have "\<exists>x2 a b c. (if mpz_cmpabs x1 s0 s1 > 0 then mpz_sub t0 t0 t1 (mpz_swap s0 s1 x1) else Inr x1) = Inr x2 \<and>
      holding L T k (f(s0 := a, s1 := c, t0 := b)) x2 \<and> a * f t1 + b * f s1 = 1 \<and> \<bar>a\<bar> \<le> V \<and> \<bar>b\<bar> \<le> U"
  proof (cases "mpz_cmpabs x1 s0 s1 > 0")
    case True
    have sw: "holding L T k (f(s0 := f s0 + f s1, s1 := f s0)) (mpz_swap s0 s1 x1)"
      by (rule holding_cong [OF mpz_swap_holding [OF x1(2) m(3,4)]]) (use v(2) in auto)
    obtain x2 where "mpz_sub t0 t0 t1 (mpz_swap s0 s1 x1) = Inr x2" "holding L T k (f(s0 := f s0 + f s1, s1 := f s0, t0 := f t0 - f t1)) x2"
      using mpz_sub_holding [OF sw m(5,5,6)] e v(2) by auto
    moreover have "(f s0 + f s1) * f t1 + (f t0 - f t1) * f s1 = 1" using e(1) by (simp add: algebra_simps)
    moreover have "\<bar>f s0 + f s1\<bar> \<le> V" "\<bar>f t0 - f t1\<bar> \<le> U" using c1 True b by auto
    ultimately show ?thesis using True by auto
  next
    case False
    moreover have "\<bar>f t0\<bar> \<le> U" using b by simp
    moreover have "f(s1 := f s0 + f s1) = f(s0 := f s0, s1 := f s0 + f s1, t0 := f t0)" using v(2) by (auto simp: fun_eq_iff)
    ultimately show ?thesis using x1(2) e(1) b(1) by metis
  qed
  then obtain x2 a b c where x2: "(if mpz_cmpabs x1 s0 s1 > 0 then mpz_sub t0 t0 t1 (mpz_swap s0 s1 x1) else Inr x1) = Inr x2"
      "holding L T k (f(s0 := a, s1 := c, t0 := b)) x2" "a * f t1 + b * f s1 = 1" "\<bar>a\<bar> \<le> V" "\<bar>b\<bar> \<le> U" by blast
  let ?f = "f(s0 := a, s1 := c, t0 := b)"
  have g: "?f u = f u" "?f v = f v" "?f s0 = a" "?f t0 = b" using v by auto
  have su: "zs x2 u < 0 \<longleftrightarrow> f u < 0" using holding_sgn [OF x2(2) m(1)] g(1) by (metis sgn_less)
  obtain x3 where x3: "(if zs x2 u < 0 then mpz_neg s0 s0 x2 else Inr x2) = Inr x3" "holding L T k (?f(s0 := sgn (f u) * a)) x3"
  proof (cases "f u < 0")
    case True
    then show ?thesis using mpz_neg_holding [OF x2(2) m(3,3)] su g that by auto
  next
    case False
    then have "sgn (f u) * a = a" using e(6) by simp
    then have "?f(s0 := sgn (f u) * a) = ?f" using v(2) by (auto simp: fun_eq_iff)
    then show ?thesis using that x2(2) su False by metis
  qed
  have g3: "(?f(s0 := sgn (f u) * a)) v = f v" "(?f(s0 := sgn (f u) * a)) t0 = b" using v by auto
  have sv: "zs x3 v < 0 \<longleftrightarrow> f v < 0" using holding_sgn [OF x3(2) m(2)] g3(1) by (metis sgn_less)
  obtain x4 where x4: "(if zs x3 v < 0 then mpz_neg t0 t0 x3 else Inr x3) = Inr x4" "holding L T k (?f(s0 := sgn (f u) * a, t0 := sgn (f v) * b)) x4"
  proof (cases "f v < 0")
    case True
    then show ?thesis using mpz_neg_holding [OF x3(2) m(5,5)] sv g3 that by auto
  next
    case False
    then have "sgn (f v) * b = b" using e(7) by simp
    then have "?f(s0 := sgn (f u) * a, t0 := sgn (f v) * b) = ?f(s0 := sgn (f u) * a)" using v(2) by (auto simp: fun_eq_iff)
    then show ?thesis using that x3(2) sv False by metis
  qed
  let ?g = "?f(s0 := sgn (f u) * a, t0 := sgn (f v) * b)"
  have sq: "sgn (f u) * sgn (f u) = 1" "sgn (f v) * sgn (f v) = 1" using e(6,7) by (simp_all add: sgn_if)
  have "sgn (f u) * ?g s0 * f t1 + sgn (f v) * ?g t0 * f s1 = (sgn (f u) * sgn (f u)) * a * f t1 + (sgn (f v) * sgn (f v)) * b * f s1" using v(2) by simp
  then have "sgn (f u) * ?g s0 * f t1 + sgn (f v) * ?g t0 * f s1 = 1" unfolding sq using x2(3) by simp
  moreover have "\<bar>?g s0\<bar> \<le> V" "\<bar>?g t0\<bar> \<le> U" using x2(4,5) v(2) e(6,7) by (simp_all add: abs_mult)
  moreover have "\<forall>x. x \<notin> {s0, s1, t0, t1} \<longrightarrow> ?g x = f x" by simp
  ultimately show ?thesis using x1(1) x2(1) x3(1) x4 by blast
qed

lemma gcdext_cofactors_holding:
  assumes h: "holding L T k f st" and v: "{u, v, tv, s0, s1, t0, t1} \<subseteq> L" "distinct [tv, s0, s1, t0, t1]" "u \<notin> {tv, s0, s1, t0, t1}" "v \<notin> {tv, s0, s1, t0, t1}"
    and z: "f u \<noteq> 0" "f v \<noteq> 0" "int_fits (f u)" "int_fits (f v)" "\<bar>f u\<bar> = U * 2 ^ unat gz" "\<bar>f v\<bar> = V * 2 ^ unat gz" "f tv = gcd U V"
    and e: "f t0 * V - f s0 * U = 2 ^ unat pw * gcd U V" "0 \<le> f s0" "f s0 \<le> V" "0 \<le> f t0" "f t0 \<le> U"
  shows "\<exists>st' f'. gcdext_cofactors u v tv s0 s1 t0 t1 gz pw st = Inr st' \<and> holding L T k f' st' \<and> f' tv = gcd (f u) (f v) \<and>
    f' s0 * f u + f' t0 * f v = gcd (f u) (f v) \<and> \<bar>f' s0\<bar> \<le> V \<and> \<bar>f' t0\<bar> \<le> U \<and> (\<forall>x. x \<notin> {tv, s0, s1, t0, t1} \<longrightarrow> f' x = f x)"
proof -
  define G a b g where "G = gcd U V" and "a = U div gcd U V" and "b = V div gcd U V" and "g = gcd (f u) (f v)"
  have m: "u \<in> L" "v \<in> L" "tv \<in> L" "s0 \<in> L" "s1 \<in> L" "t0 \<in> L" "t1 \<in> L" using v(1) by auto
  have "0 < \<bar>f u\<bar>" "0 < \<bar>f v\<bar>" using z(1,2) by simp_all
  then have UV: "0 < U" "0 < V" unfolding z(5,6) by (simp_all add: zero_less_mult_iff)
  have G: "0 < G" "G dvd U" "G dvd V" using UV by (auto simp: G_def)
  have g: "g = G * 2 ^ unat gz"
  proof -
    have "g = gcd \<bar>f u\<bar> \<bar>f v\<bar>" by (simp add: g_def)
    also have "\<dots> = G * 2 ^ unat gz" unfolding z(5,6) G_def by (simp add: gcd_mult_right gcd.commute)
    finally show ?thesis .
  qed
  have ab1: "U = a * G" "V = b * G" "coprime a b" "0 \<le> a" "0 \<le> b"
    using G UV div_gcd_coprime [of U V] by (auto simp: a_def b_def G_def pos_imp_zdiv_nonneg_iff)
  have "a * 1 \<le> a * G" "b * 1 \<le> b * G" using ab1(4,5) G(1) by (intro mult_left_mono; simp)+
  then have "a \<le> U" "b \<le> V" unfolding ab1(1,2) by simp_all
  note ab = ab1 this
  have fits: "int_fits U" "int_fits V" using UV fits_le [OF z(3), of U] fits_le [OF z(4), of V] unfolding z(5,6) by simp_all
  have gle: "0 < g" "int_fits g"
  proof -
    show p: "0 < g" using G(1) by (simp add: g)
    have "G \<le> U" using zdvd_imp_le [OF G(2) UV(1)] .
    then have "g \<le> \<bar>f u\<bar>" unfolding z(5) g by (intro mult_right_mono) simp_all
    then show "int_fits g" using p by (intro fits_le [OF z(3)]) simp
  qed
  obtain x1 where x1: "mpz_mul_2exp tv tv gz st = Inr x1" "holding L T k (f(tv := g)) x1"
    using mpz_mul_2exp_holding [OF h m(3,3), of gz] gle(2) z(7) g by (auto simp: G_def)
  obtain x2 where x2: "mpz_neg s0 s0 x1 = Inr x2" "holding L T k (f(tv := g, s0 := - f s0)) x2"
    using mpz_neg_holding [OF x1(2) m(4,4)] v(2) by auto
  have dv: "\<bar>f v div g\<bar> = b" "g dvd f v" "\<bar>f u div g\<bar> = a" "g dvd f u"
    unfolding g a_def b_def G_def [symmetric] using abs_exact_div [OF z(6) G(3,1)] abs_exact_div [OF z(5) G(2,1)] by blast+
  obtain x3 where x3: "mpz_divexact s1 v tv x2 = Inr x3" "holding L T k (f(tv := g, s0 := - f s0, s1 := f v div g)) x3"
    using mpz_divexact_holding [OF x2(2) m(5,2,3)] v z(4) gle dv(2) by auto
  obtain x4 where x4: "mpz_abs s1 s1 x3 = Inr x4" "holding L T k (f(tv := g, s0 := - f s0, s1 := b)) x4"
    using mpz_abs_holding [OF x3(2) m(5,5)] dv(1) by auto
  obtain x5 where x5: "mpz_divexact t1 u tv x4 = Inr x5" "holding L T k (f(tv := g, s0 := - f s0, s1 := b, t1 := f u div g)) x5"
    using mpz_divexact_holding [OF x4(2) m(7,1,3)] v z(3) gle dv(4) by auto
  obtain x6 where x6: "mpz_abs t1 t1 x5 = Inr x6" "holding L T k (f(tv := g, s0 := - f s0, s1 := b, t1 := a)) x6"
    using mpz_abs_holding [OF x5(2) m(7,7)] dv(3) by auto
  let ?f = "f(tv := g, s0 := - f s0, s1 := b, t1 := a)"
  have "(- f s0 * a + f t0 * b) * G = f t0 * V - f s0 * U" unfolding ab(1,2) by (simp add: algebra_simps)
  also have "\<dots> = 2 ^ unat pw * G" using e(1) by (simp add: G_def)
  finally have "(- f s0 * a + f t0 * b) * G = 2 ^ unat pw * G" .
  then have eq: "- f s0 * a + f t0 * b = 2 ^ unat pw" using G(1) by simp
  have c: "?f t1 = a" "?f s1 = b" "?f s0 * a + ?f t0 * b = 2 ^ unat pw" "\<bar>?f s0\<bar> \<le> V" "\<bar>?f t0\<bar> \<le> U" "0 \<le> ?f t0" using v(2) e eq by auto
  have v4: "{s0, s1, t0, t1} \<subseteq> L" "distinct [s0, s1, t0, t1]" using v by auto
  from gcdext_halve_holding [OF v4 fits ab(3-7) x6(2) c] obtain x7 x y where
    x7: "gcdext_halve s0 s1 t0 t1 (unat pw) x6 = Inr x7" "holding L T k (?f(s0 := x, t0 := y)) x7" "x * a + y * b = 1" "\<bar>x\<bar> \<le> V" "\<bar>y\<bar> \<le> U" "0 \<le> y" by blast
  have yU: "y \<le> U" using x7(5) by simp
  let ?h = "?f(s0 := x, t0 := y)"
  have hv: "?h s0 = x" "?h t0 = y" "?h s1 = b" "?h t1 = a" "?h u = f u" "?h v = f v" "?h tv = g" using v by auto
  have ft: "int_fits x" "int_fits b" "int_fits y" "int_fits a" using fits_le [OF fits(1)] fits_le [OF fits(2)] x7(4,5) ab by auto
  have "{u, v, s0, s1, t0, t1} \<subseteq> L" "u \<notin> {s0, s1, t0, t1}" "v \<notin> {s0, s1, t0, t1}" using v by auto
  note adj = gcdext_adjust_holding [OF x7(2) this(1) v4(2) this(2,3), unfolded hv, OF x7(3) ft z(1,2) x7(4,6) yU ab(4,6)]
  from adj obtain y1 y2 y3 y4 f' where y4: "mpz_add s1 s0 s1 x7 = Inr y1" "(if mpz_cmpabs y1 s0 s1 > 0 then mpz_sub t0 t0 t1 (mpz_swap s0 s1 y1) else Inr y1) = Inr y2"
    "(if zs y2 u < 0 then mpz_neg s0 s0 y2 else Inr y2) = Inr y3" "(if zs y3 v < 0 then mpz_neg t0 t0 y3 else Inr y3) = Inr y4"
    "holding L T k f' y4" "sgn (f u) * f' s0 * a + sgn (f v) * f' t0 * b = 1" "\<forall>x. x \<notin> {s0, s1, t0, t1} \<longrightarrow> f' x = ?h x" "\<bar>f' s0\<bar> \<le> V" "\<bar>f' t0\<bar> \<le> U" by blast
  have "f' s0 * f u + f' t0 * f v = g"
  proof -
    have "\<bar>f u\<bar> = a * g" "\<bar>f v\<bar> = b * g" unfolding z(5,6) ab(1,2) g by simp_all
    moreover define su sv where "su = sgn (f u)" and "sv = sgn (f v)"
    ultimately have fu: "f u = su * (a * g)" "f v = sv * (b * g)" by (metis sgn_mult_abs)+
    have "f' s0 * f u + f' t0 * f v = (su * f' s0 * a + sv * f' t0 * b) * g" unfolding fu by (simp add: algebra_simps)
    then show ?thesis using y4(6) by (simp add: su_def sv_def)
  qed
  moreover have "f' tv = g" "\<forall>x. x \<notin> {tv, s0, s1, t0, t1} \<longrightarrow> f' x = f x" using y4(7) v(2) hv(7) by auto
  moreover have "gcdext_cofactors u v tv s0 s1 t0 t1 gz pw st = Inr y4"
    using x1(1) x2(1) x3(1) x4(1) x5(1) x6(1) x7(1) y4(1-4) by (simp add: gcdext_cofactors_def)
  ultimately show ?thesis using y4(5,8,9) by (auto simp: g_def)
qed

subsection \<open>The local variables\<close>

lemma next_var:
  assumes "holding L T k f st"
  obtains st' where "new_var st = (k, st')" "holding (insert k L) T (Suc k) (f(k := 0)) (mpz_init k st')" "k \<notin> L"
  using new_var_holding [OF assms] by (metis snd_conv)

definition six :: "nat \<Rightarrow> nat set \<Rightarrow> nat set" where
  "six k L = insert (k + 5) (insert (k + 4) (insert (k + 3) (insert (k + 2) (insert (k + 1) (insert k L)))))"

lemma six_vars:
  assumes h: "holding L T k f st"
  obtains a0 a1 a2 a3 a4 a5 where "new_var st = (k, a0)" "new_var (mpz_init k a0) = (k + 1, a1)" "new_var (mpz_init (k + 1) a1) = (k + 2, a2)"
    "new_var (mpz_init (k + 2) a2) = (k + 3, a3)" "new_var (mpz_init (k + 3) a3) = (k + 4, a4)" "new_var (mpz_init (k + 4) a4) = (k + 5, a5)"
    "holding (six k L) T (k + 6) (f(k := 0, k + 1 := 0, k + 2 := 0, k + 3 := 0, k + 4 := 0, k + 5 := 0)) (mpz_init (k + 5) a5)"
    "\<forall>x\<in>L. x < k"
proof -
  have lt: "\<forall>x\<in>L. x < k" using holdingD(5) [OF h] by blast
  have s: "Suc k = k + 1" "Suc (k + 1) = k + 2" "Suc (k + 2) = k + 3" "Suc (k + 3) = k + 4" "Suc (k + 4) = k + 5" "Suc (k + 5) = k + 6" by simp_all
  from next_var [OF h] obtain a0 where a0: "new_var st = (k, a0)" "holding (insert k L) T (Suc k) (f(k := 0)) (mpz_init k a0)" by blast
  from next_var [OF a0(2) [unfolded s]] obtain a1 where a1: "new_var (mpz_init k a0) = (k + 1, a1)" "holding (insert (k + 1) (insert k L)) T (k + 2) (f(k := 0, k + 1 := 0)) (mpz_init (k + 1) a1)" unfolding s by blast
  from next_var [OF a1(2)] obtain a2 where a2: "new_var (mpz_init (k + 1) a1) = (k + 2, a2)"
    "holding (insert (k + 2) (insert (k + 1) (insert k L))) T (k + 3) (f(k := 0, k + 1 := 0, k + 2 := 0)) (mpz_init (k + 2) a2)" unfolding s by blast
  from next_var [OF a2(2)] obtain a3 where a3: "new_var (mpz_init (k + 2) a2) = (k + 3, a3)"
    "holding (insert (k + 3) (insert (k + 2) (insert (k + 1) (insert k L)))) T (k + 4) (f(k := 0, k + 1 := 0, k + 2 := 0, k + 3 := 0)) (mpz_init (k + 3) a3)" unfolding s by blast
  from next_var [OF a3(2)] obtain a4 where a4: "new_var (mpz_init (k + 3) a3) = (k + 4, a4)"
    "holding (insert (k + 4) (insert (k + 3) (insert (k + 2) (insert (k + 1) (insert k L))))) T (k + 5) (f(k := 0, k + 1 := 0, k + 2 := 0, k + 3 := 0, k + 4 := 0)) (mpz_init (k + 4) a4)" unfolding s by blast
  from next_var [OF a4(2)] obtain a5 where a5: "new_var (mpz_init (k + 4) a4) = (k + 5, a5)"
    "holding (six k L) T (k + 6) (f(k := 0, k + 1 := 0, k + 2 := 0, k + 3 := 0, k + 4 := 0, k + 5 := 0)) (mpz_init (k + 5) a5)" unfolding s six_def by blast
  show thesis by (rule that [OF a0(1) a1(1) a2(1) a3(1) a4(1) a5 lt])
qed

lemma six_clear:
  assumes h: "holding (six k L) T (k + 6) f st" and lt: "\<forall>x\<in>L. x < k"
  shows "\<exists>st'. bindE (mpz_clear (k + 5) st) (\<lambda>st. bindE (mpz_clear (k + 4) (drop_var st)) (\<lambda>st. bindE (mpz_clear (k + 3) (drop_var st)) (\<lambda>st.
      bindE (mpz_clear (k + 2) (drop_var st)) (\<lambda>st. bindE (mpz_clear (k + 1) (drop_var st)) (\<lambda>st. bindE (mpz_clear k (drop_var st)) (\<lambda>st. Inr (drop_var st))))))) = Inr st' \<and>
    holding L T k f st'"
proof -
  have s: "k + 6 = Suc (k + 5)" "k + 5 = Suc (k + 4)" "k + 4 = Suc (k + 3)" "k + 3 = Suc (k + 2)" "k + 2 = Suc (k + 1)" "k + 1 = Suc k" by simp_all
  have n: "k \<notin> L" "k + 1 \<notin> insert k L" "k + 2 \<notin> insert (k + 1) (insert k L)" "k + 3 \<notin> insert (k + 2) (insert (k + 1) (insert k L))"
    "k + 4 \<notin> insert (k + 3) (insert (k + 2) (insert (k + 1) (insert k L)))" "k + 5 \<notin> insert (k + 4) (insert (k + 3) (insert (k + 2) (insert (k + 1) (insert k L))))"
    using lt by auto
  obtain b5 where b5: "mpz_clear (k + 5) st = Inr b5" "holding (insert (k + 4) (insert (k + 3) (insert (k + 2) (insert (k + 1) (insert k L))))) T (k + 5) f (drop_var b5)"
    using mpz_clear_holding [OF h [unfolded six_def s(1)] n(6)] by blast
  obtain b4 where b4: "mpz_clear (k + 4) (drop_var b5) = Inr b4" "holding (insert (k + 3) (insert (k + 2) (insert (k + 1) (insert k L)))) T (k + 4) f (drop_var b4)"
    using mpz_clear_holding [OF b5(2) [unfolded s(2)] n(5)] by blast
  obtain b3 where b3: "mpz_clear (k + 3) (drop_var b4) = Inr b3" "holding (insert (k + 2) (insert (k + 1) (insert k L))) T (k + 3) f (drop_var b3)"
    using mpz_clear_holding [OF b4(2) [unfolded s(3)] n(4)] by blast
  obtain b2 where b2: "mpz_clear (k + 2) (drop_var b3) = Inr b2" "holding (insert (k + 1) (insert k L)) T (k + 2) f (drop_var b2)"
    using mpz_clear_holding [OF b3(2) [unfolded s(4)] n(3)] by blast
  obtain b1 where b1: "mpz_clear (k + 1) (drop_var b2) = Inr b1" "holding (insert k L) T (k + 1) f (drop_var b1)"
    using mpz_clear_holding [OF b2(2) [unfolded s(5)] n(2)] by blast
  obtain b0 where b0: "mpz_clear k (drop_var b1) = Inr b0" "holding L T k f (drop_var b0)"
    using mpz_clear_holding [OF b1(2) [unfolded s(6)] n(1)] by blast
  show ?thesis unfolding b5(1) b4(1) b3(1) b2(1) b1(1) b0(1) bindE_simps using b0(2) by blast
qed

subsection \<open>The functions\<close>

text \<open>Two numbers with odd parts \<open>X\<close> and \<open>Y\<close>, one of the exponents being 0: the rest of the function.\<close>

lemma gcdext_rest_holding:
  assumes h: "holding (six k L) T (k + 6) f st" and lt: "\<forall>x\<in>L. x < k"
    and v: "g \<in> L" "u \<in> L" "v \<in> L" "set_option s \<subseteq> L" "set_option t \<subseteq> L" "g \<notin> set_option s" "g \<notin> set_option t" "s = None \<or> s \<noteq> t"
    and z: "f k = 0" "f (k + 1) = 0" "f (k + 2) = 0" "f (k + 3) = 0" "odd (f (k + 5))" "odd (f (k + 4))" "0 < f (k + 5)" "0 < f (k + 4)"
    and uv: "\<bar>f u\<bar> = f (k + 5) * 2 ^ unat uz * 2 ^ unat gz" "\<bar>f v\<bar> = f (k + 4) * 2 ^ unat vz * 2 ^ unat gz" "int_fits (f u)" "int_fits (f v)" "unat uz = 0 \<or> unat vz = 0"
  shows "\<exists>st' x y. bindE (gcdext_reduce (k + 5) (k + 4) (k + 3) (k + 2) (k + 1) k uz vz st) (\<lambda>(pwr, st).
        bindE (gcdext_cofactors u v (k + 4) (k + 3) (k + 2) (k + 1) k gz pwr st) (\<lambda>st.
        bindE (given s (\<lambda>s st. Inr (mpz_swap s (k + 3) st)) (mpz_swap g (k + 4) st)) (\<lambda>st.
        bindE (given t (\<lambda>t st. Inr (mpz_swap t (k + 1) st)) st) (\<lambda>st.
        bindE (mpz_clear (k + 5) st) (\<lambda>st. bindE (mpz_clear (k + 4) (drop_var st)) (\<lambda>st. bindE (mpz_clear (k + 3) (drop_var st)) (\<lambda>st.
          bindE (mpz_clear (k + 2) (drop_var st)) (\<lambda>st. bindE (mpz_clear (k + 1) (drop_var st)) (\<lambda>st. bindE (mpz_clear k (drop_var st)) (\<lambda>st. Inr (drop_var st))))))))))) = Inr st' \<and>
    x * f u + y * f v = gcd (f u) (f v) \<and> \<bar>x\<bar> \<le> \<bar>f v\<bar> \<and> \<bar>y\<bar> \<le> \<bar>f u\<bar> \<and> holding L T k (put t y (put s x (f(g := gcd (f u) (f v))))) st'"
proof -
  have six: "{k + 5, k + 4, k + 3, k + 2, k + 1, k} \<subseteq> six k L" "distinct [k + 5, k + 4, k + 3, k + 2, k + 1, k]" "L \<subseteq> six k L" by (auto simp: six_def)
  have nl: "x \<in> L \<Longrightarrow> x \<notin> {k + 5, k + 4, k + 3, k + 2, k + 1, k}" for x using lt by auto
  let ?U = "f (k + 5) * 2 ^ unat uz" and ?V = "f (k + 4) * 2 ^ unat vz"
  have le: "(x :: int) \<le> x * 2 ^ n" if "0 < x" for x n using that by simp
  have fits: "int_fits ?U" "int_fits ?V" using fits_le [OF uv(3), of ?U] fits_le [OF uv(4), of ?V] le [of ?U "unat gz"] le [of ?V "unat gz"] z(7,8) unfolding uv(1,2) by simp_all
  from gcdext_reduce_holding [OF h six(1,2) z(7,8,4,3,2,1,6) fits] obtain pw s1 f1 where
    s1: "gcdext_reduce (k + 5) (k + 4) (k + 3) (k + 2) (k + 1) k uz vz st = Inr (pw, s1)" "holding (six k L) T (k + 6) f1 s1" "f1 (k + 4) = gcd (f (k + 5)) (f (k + 4))"
      "f1 (k + 1) * ?V - f1 (k + 3) * ?U = 2 ^ unat pw * gcd (f (k + 5)) (f (k + 4))" "0 \<le> f1 (k + 3)" "f1 (k + 3) \<le> ?V" "0 \<le> f1 (k + 1)" "f1 (k + 1) \<le> ?U"
      "\<forall>x. x \<notin> {k + 5, k + 4, k + 3, k + 2, k + 1, k} \<longrightarrow> f1 x = f x" by blast
  have "gcd ?U ?V = gcd (f (k + 5)) (f (k + 4)) * 2 ^ min (unat uz) (unat vz)" by (rule gcd_twos_split [OF z(5,6)])
  then have G: "gcd (f (k + 5)) (f (k + 4)) = gcd ?U ?V" using uv(5) by (auto simp: min_def)
  have f1: "f1 u = f u" "f1 v = f v" using s1(9) nl v(2,3) by simp_all
  have nz: "f u \<noteq> 0" "f v \<noteq> 0" using uv(1,2) z(7,8) by auto
  have v5: "{u, v, k + 4, k + 3, k + 2, k + 1, k} \<subseteq> six k L" "distinct [k + 4, k + 3, k + 2, k + 1, k]" "u \<notin> {k + 4, k + 3, k + 2, k + 1, k}" "v \<notin> {k + 4, k + 3, k + 2, k + 1, k}"
    using six nl v(2,3) by auto
  from gcdext_cofactors_holding [OF s1(2) v5, unfolded f1, OF nz uv(3,4,1,2) s1(3) [unfolded G] s1(4) [unfolded G] s1(5-8)] obtain s2 f2 where
    s2: "gcdext_cofactors u v (k + 4) (k + 3) (k + 2) (k + 1) k gz pw s1 = Inr s2" "holding (six k L) T (k + 6) f2 s2" "f2 (k + 4) = gcd (f u) (f v)"
      "f2 (k + 3) * f u + f2 (k + 1) * f v = gcd (f u) (f v)" "\<forall>x. x \<notin> {k + 4, k + 3, k + 2, k + 1, k} \<longrightarrow> f2 x = f1 x"
      "\<bar>f2 (k + 3)\<bar> \<le> ?V" "\<bar>f2 (k + 1)\<bar> \<le> ?U" by blast
  have "0 < ?U" "0 < ?V" using z(7,8) by simp_all
  then have "?U \<le> \<bar>f u\<bar>" "?V \<le> \<bar>f v\<bar>" unfolding uv(1,2) using le by blast+
  then have "\<bar>f2 (k + 3)\<bar> \<le> \<bar>f v\<bar>" "\<bar>f2 (k + 1)\<bar> \<le> \<bar>f u\<bar>" using s2(6,7) by linarith+
  note bd = this
  have fl: "x \<in> L \<Longrightarrow> f2 x = f x" for x using s2(5) s1(9) nl by auto
  have m: "g \<in> six k L" "k + 4 \<in> six k L" "k + 3 \<in> six k L" "k + 1 \<in> six k L" using v(1) six by auto
  have d: "g \<noteq> k + 4" "g \<noteq> k + 3" "g \<noteq> k + 1" using nl [OF v(1)] by auto
  note h3 = mpz_swap_holding [OF s2(2) m(1,2)]
  let ?s3 = "mpz_swap g (k + 4) s2" and ?f3 = "f2(g := f2 (k + 4), k + 4 := f2 g)"
  obtain s4 f4 where s4: "given s (\<lambda>s st. Inr (mpz_swap s (k + 3) st)) ?s3 = Inr s4" "holding (six k L) T (k + 6) f4 s4"
      "\<forall>x\<in>L. f4 x = (put s (f2 (k + 3)) ?f3) x" "f4 (k + 1) = f2 (k + 1)"
  proof (cases s)
    case None
    then show ?thesis using that [of ?s3 ?f3] h3 d by (simp add: given_def)
  next
    case (Some r)
    then have r: "r \<in> L" "r \<in> six k L" "r \<notin> {k + 5, k + 4, k + 3, k + 2, k + 1, k}" "r \<noteq> g" using v(4,6) six(3) nl by auto
    show ?thesis
    proof (rule that [OF _ mpz_swap_holding [OF h3 r(2) m(3)]])
      show "\<forall>x\<in>L. (?f3(r := ?f3 (k + 3), k + 3 := ?f3 r)) x = (put s (f2 (k + 3)) ?f3) x" using Some r d nl by auto
    qed (use Some r d in \<open>auto simp: given_def\<close>)
  qed
  obtain s5 f5 where s5: "given t (\<lambda>t st. Inr (mpz_swap t (k + 1) st)) s4 = Inr s5" "holding (six k L) T (k + 6) f5 s5"
      "\<forall>x\<in>L. f5 x = (put t (f2 (k + 1)) f4) x"
  proof (cases t)
    case None
    then show ?thesis using that [of s4 f4] s4(2) by (simp add: given_def)
  next
    case (Some r)
    then have r: "r \<in> L" "r \<in> six k L" "r \<notin> {k + 5, k + 4, k + 3, k + 2, k + 1, k}" using v(5) six(3) nl by auto
    show ?thesis
    proof (rule that [OF _ mpz_swap_holding [OF s4(2) r(2) m(4)]])
      show "\<forall>x\<in>L. (f4(r := f4 (k + 1), k + 1 := f4 r)) x = (put t (f2 (k + 1)) f4) x" using Some r s4(4) nl by auto
    qed (use Some in \<open>simp add: given_def\<close>)
  qed
  from six_clear [OF s5(2) lt] obtain s6 where s6: "bindE (mpz_clear (k + 5) s5) (\<lambda>st. bindE (mpz_clear (k + 4) (drop_var st)) (\<lambda>st. bindE (mpz_clear (k + 3) (drop_var st)) (\<lambda>st.
      bindE (mpz_clear (k + 2) (drop_var st)) (\<lambda>st. bindE (mpz_clear (k + 1) (drop_var st)) (\<lambda>st. bindE (mpz_clear k (drop_var st)) (\<lambda>st. Inr (drop_var st))))))) = Inr s6"
    "holding L T k f5 s6" by blast
  have "holding L T k (put t (f2 (k + 1)) (put s (f2 (k + 3)) (f(g := gcd (f u) (f v))))) s6"
  proof (rule holding_cong [OF s6(2)])
    fix x assume x: "x \<in> L"
    then have "f5 x = (put t (f2 (k + 1)) f4) x" "f4 x = (put s (f2 (k + 3)) ?f3) x" "?f3 x = (f(g := gcd (f u) (f v))) x" using s5(3) s4(3) nl [OF x] fl s2(3) by auto
    then show "f5 x = (put t (f2 (k + 1)) (put s (f2 (k + 3)) (f(g := gcd (f u) (f v))))) x" by (cases t; cases s) auto
  qed
  then show ?thesis unfolding s1(1) bindE_simps prod.case s2(1) s4(1) s5(1) s6(1) using s2(4) bd by blast
qed

lemma mpz_sgn_holding: "holding L T k f s \<Longrightarrow> x \<in> L \<Longrightarrow> mpz_sgn s x = sgn (f x)"
  using holding_sgn [of L T k f s x] by (simp add: mpz_sgn_def GMP_CMP_def sgn_if split: if_splits)

lemma unat_minus_min: "unat (a - min a b :: u64) = unat a - min (unat a) (unat b)" "unat (b - min a b :: u64) = unat b - min (unat a) (unat b)"
  by (simp_all add: unat_sub unat_min)

lemma put_swap: "s = None \<or> s \<noteq> t \<Longrightarrow> put s x (put t y f) = put t y (put s x f)"
  by (cases s; cases t) (auto intro: fun_upd_twist)

lemma mpz_gcdext_holding:
  assumes h: "holding L T k f st"
    and v: "g \<in> L" "u \<in> L" "v \<in> L" "set_option s \<subseteq> L" "set_option t \<subseteq> L" "g \<notin> set_option s" "g \<notin> set_option t" "s = None \<or> s \<noteq> t"
    and fits: "int_fits (f u)" "int_fits (f v)"
  shows "\<exists>st' x y. mpz_gcdext g s t u v st = Inr st' \<and> x * f u + y * f v = gcd (f u) (f v) \<and>
    \<bar>x\<bar> \<le> max 1 \<bar>f v\<bar> \<and> \<bar>y\<bar> \<le> max 1 \<bar>f u\<bar> \<and> holding L T k (put t y (put s x (f(g := gcd (f u) (f v))))) st'"
proof -
  have z: "zs st u = 0 \<longleftrightarrow> f u = 0" "zs st v = 0 \<longleftrightarrow> f v = 0" using holding_zero_iff [OF h] v by blast+
  have sg: "mpz_sgn st u = sgn (f u)" "mpz_sgn st v = sgn (f v)" using mpz_sgn_holding [OF h] v by blast+
  have long: "- (2 ^ 63) \<le> sgn x" "sgn x < 2 ^ 63" for x :: int by (simp_all add: sgn_if)
  consider "f u = 0" | "f u \<noteq> 0" "f v = 0" | (pos) "f u \<noteq> 0" "f v \<noteq> 0" by blast
  then show ?thesis
  proof cases
    case 1
    obtain s1 where s1: "mpz_abs g v st = Inr s1" "holding L T k (f(g := gcd (f u) (f v))) s1" using mpz_abs_holding [OF h v(1,3)] 1 by auto
    obtain s2 where s2: "given s (\<lambda>s. mpz_set_ui s 0) s1 = Inr s2" "holding L T k (put s 0 (f(g := gcd (f u) (f v)))) s2"
      using given_holding_self [OF s1(2), of s "\<lambda>s. mpz_set_ui s 0" 0] mpz_set_ui_holding [OF s1(2), of _ 0] v(4) by auto
    obtain s3 where s3: "given t (\<lambda>t. mpz_set_si t (sgn (f v))) s2 = Inr s3" "holding L T k (put t (sgn (f v)) (put s 0 (f(g := gcd (f u) (f v))))) s3"
    proof -
      have "\<exists>s'. given t (\<lambda>t. mpz_set_si t (sgn (f v))) s2 = Inr s' \<and> holding L T k (put t (sgn (f v)) (put s 0 (f(g := gcd (f u) (f v))))) s'"
        by (rule given_holding_self [OF s2(2)], rule mpz_set_si_holding [OF s2(2) _ long]) (use v(5) in auto)
      then show ?thesis using that by blast
    qed
    have "0 * f u + sgn (f v) * f v = gcd (f u) (f v)" using 1 by (simp add: abs_sgn mult.commute)
    moreover have "mpz_gcdext g s t u v st = Inr s3" using z(1) 1 sg s1(1) s2(1) s3(1) by (simp add: mpz_gcdext_def)
    moreover have "\<bar>sgn z\<bar> \<le> max 1 w" "\<bar>0\<bar> \<le> max 1 w" for z w :: int by (simp_all add: sgn_if max_def)
    ultimately show ?thesis using s3(2) by blast
  next
    case 2
    obtain s1 where s1: "mpz_abs g u st = Inr s1" "holding L T k (f(g := gcd (f u) (f v))) s1" using mpz_abs_holding [OF h v(1,2)] 2 by auto
    obtain s2 where s2: "given s (\<lambda>s. mpz_set_si s (sgn (f u))) s1 = Inr s2" "holding L T k (put s (sgn (f u)) (f(g := gcd (f u) (f v)))) s2"
    proof -
      have "\<exists>s'. given s (\<lambda>s. mpz_set_si s (sgn (f u))) s1 = Inr s' \<and> holding L T k (put s (sgn (f u)) (f(g := gcd (f u) (f v)))) s'"
        by (rule given_holding_self [OF s1(2)], rule mpz_set_si_holding [OF s1(2) _ long]) (use v(4) in auto)
      then show ?thesis using that by blast
    qed
    obtain s3 where s3: "given t (\<lambda>t. mpz_set_ui t 0) s2 = Inr s3" "holding L T k (put t 0 (put s (sgn (f u)) (f(g := gcd (f u) (f v))))) s3"
      using given_holding_self [OF s2(2), of t "\<lambda>t. mpz_set_ui t 0" 0] mpz_set_ui_holding [OF s2(2), of _ 0] v(5) by auto
    have "sgn (f u) * f u + 0 * f v = gcd (f u) (f v)" using 2 by (simp add: abs_sgn mult.commute)
    moreover have "mpz_gcdext g s t u v st = Inr s3" using z 2 sg s1(1) s2(1) s3(1) by (simp add: mpz_gcdext_def)
    moreover have "\<bar>sgn z\<bar> \<le> max 1 w" "\<bar>0\<bar> \<le> max 1 w" for z w :: int by (simp_all add: sgn_if max_def)
    ultimately show ?thesis using s3(2) by blast
  next
    case pos
    from six_vars [OF h] obtain a0 a1 a2 a3 a4 a5 where a: "new_var st = (k, a0)" "new_var (mpz_init k a0) = (k + 1, a1)" "new_var (mpz_init (k + 1) a1) = (k + 2, a2)"
      "new_var (mpz_init (k + 2) a2) = (k + 3, a3)" "new_var (mpz_init (k + 3) a3) = (k + 4, a4)" "new_var (mpz_init (k + 4) a4) = (k + 5, a5)"
      "holding (six k L) T (k + 6) (f(k := 0, k + 1 := 0, k + 2 := 0, k + 3 := 0, k + 4 := 0, k + 5 := 0)) (mpz_init (k + 5) a5)" and lt: "\<forall>x\<in>L. x < k" by blast
    define fz where "fz = f(k := 0, k + 1 := 0, k + 2 := 0, k + 3 := 0, k + 4 := 0, k + 5 := 0)"
    note h6 = a(7) [folded fz_def]
    have m: "u \<in> six k L" "v \<in> six k L" "k + 5 \<in> six k L" "k + 4 \<in> six k L" using v by (auto simp: six_def)
    have fz: "x \<in> L \<Longrightarrow> fz x = f x" "x \<in> L \<Longrightarrow> x < k" for x using lt by (auto simp: fz_def)
    have ne: "u \<noteq> k + 5" "u \<noteq> k + 4" "v \<noteq> k + 5" "v \<noteq> k + 4" using fz(2) [OF v(2)] fz(2) [OF v(3)] by auto
    obtain b1 where b1: "mpz_abs (k + 5) u (mpz_init (k + 5) a5) = Inr b1" "holding (six k L) T (k + 6) (fz(k + 5 := \<bar>f u\<bar>)) b1"
      using mpz_abs_holding [OF h6 m(3,1)] fz(1) [OF v(2)] by auto
    obtain i x b2 where b2: "mpz_make_odd (k + 5) b1 = Inr (word_of_nat i, b2)" "unat (word_of_nat i :: u64) = i" "\<bar>f u\<bar> = x * 2 ^ i" "odd x" "x > 0"
        "holding (six k L) T (k + 6) (fz(k + 5 := x)) b2"
      using mpz_make_odd_holding [OF b1(2) m(3)] pos fits_le [OF fits(1), of "\<bar>f u\<bar>"] by auto
    obtain b3 where b3: "mpz_abs (k + 4) v b2 = Inr b3" "holding (six k L) T (k + 6) (fz(k + 5 := x, k + 4 := \<bar>f v\<bar>)) b3"
      using mpz_abs_holding [OF b2(6) m(4,2)] fz(1) [OF v(3)] ne by auto
    obtain j y b4 where b4: "mpz_make_odd (k + 4) b3 = Inr (word_of_nat j, b4)" "unat (word_of_nat j :: u64) = j" "\<bar>f v\<bar> = y * 2 ^ j" "odd y" "y > 0"
        "holding (six k L) T (k + 6) (fz(k + 5 := x, k + 4 := y)) b4"
      using mpz_make_odd_holding [OF b3(2) m(4)] pos fits_le [OF fits(2), of "\<bar>f v\<bar>"] by auto
    let ?f = "fz(k + 5 := x, k + 4 := y)"
    define gz uz vz :: u64 where "gz = min (word_of_nat i) (word_of_nat j)" and "uz = word_of_nat i - gz" and "vz = word_of_nat j - gz"
    have un: "unat gz = min i j" "unat uz = i - min i j" "unat vz = j - min i j"
      unfolding uz_def vz_def gz_def using unat_minus_min(1) [of "word_of_nat i :: u64" "word_of_nat j"] unat_minus_min(2) [of "word_of_nat j :: u64" "word_of_nat i"] unat_min [of "word_of_nat i :: u64" "word_of_nat j"] b2(2) b4(2) by simp_all
    have uv: "\<bar>f u\<bar> = x * 2 ^ unat uz * 2 ^ unat gz" "\<bar>f v\<bar> = y * 2 ^ unat vz * 2 ^ unat gz" "unat uz = 0 \<or> unat vz = 0"
      unfolding b2(3) b4(3) un by (auto simp: mult.assoc min_def simp flip: power_add)
    have fk: "?f k = 0" "?f (k + 1) = 0" "?f (k + 2) = 0" "?f (k + 3) = 0" "?f (k + 5) = x" "?f (k + 4) = y" "?f u = f u" "?f v = f v"
      using ne fz(1) [OF v(2)] fz(1) [OF v(3)] by (simp_all add: fz_def)
    have cong: "holding L T k (put a p (put b q (?f(g := d)))) st' \<Longrightarrow> holding L T k (put a p (put b q (f(g := d)))) st'" for a b p q d st'
      by (erule holding_cong) (use fz in \<open>cases a; cases b; fastforce\<close>)
    note unf = mpz_gcdext_def Let_def a(1-6) prod.case b1(1) b2(1) b3(1) b4(1) bindE_simps gz_def [symmetric] uz_def [symmetric] vz_def [symmetric]
    have nz: "(zs st u = 0) = False" "(zs st v = 0) = False" using z pos by simp_all
    show ?thesis
    proof (cases "zs b4 (k + 5) < zs b4 (k + 4)")
      case False
      have mx: "p \<le> q \<Longrightarrow> p \<le> max 1 q" for p q :: int by simp
      from gcdext_rest_holding [OF b4(6) lt v, unfolded fk, OF refl refl refl refl b2(4) b4(4) b2(5) b4(5) uv(1,2) fits uv(3)]
      obtain st' p q where r: "mpz_gcdext g s t u v st = Inr st'" "p * f u + q * f v = gcd (f u) (f v)" "\<bar>p\<bar> \<le> \<bar>f v\<bar>" "\<bar>q\<bar> \<le> \<bar>f u\<bar>"
          "holding L T k (put t q (put s p (?f(g := gcd (f u) (f v))))) st'"
        using False unfolding unf nz if_False by (auto simp del: fun_upd_apply)
      then show ?thesis using cong [OF r(5)] mx by blast
    next
      case True
      have sw: "holding (six k L) T (k + 6) (fz(k + 5 := y, k + 4 := x)) (mpz_swap (k + 5) (k + 4) b4)"
        by (rule holding_cong [OF mpz_swap_holding [OF b4(6) m(3,4)]]) auto
      let ?g = "fz(k + 5 := y, k + 4 := x)"
      have gk: "?g k = 0" "?g (k + 1) = 0" "?g (k + 2) = 0" "?g (k + 3) = 0" "?g (k + 5) = y" "?g (k + 4) = x" "?g u = f u" "?g v = f v"
        using ne fz(1) [OF v(2)] fz(1) [OF v(3)] by (simp_all add: fz_def)
      have cong': "holding L T k (put a p (put b q (?g(g := d)))) st' \<Longrightarrow> holding L T k (put a p (put b q (f(g := d)))) st'" for a b p q d st'
        by (erule holding_cong) (use fz in \<open>cases a; cases b; fastforce\<close>)
      have ts: "t = None \<or> t \<noteq> s" using v(8) by auto
      note uv' = disj_commute [THEN iffD1, OF uv(3)]
      from gcdext_rest_holding [OF sw lt v(1,3,2,5,4,7,6) ts, unfolded gk, OF refl refl refl refl b4(4) b2(4) b4(5) b2(5) uv(2,1) fits(2,1) uv']
      obtain st' p q where r: "mpz_gcdext g s t u v st = Inr st'" "q * f v + p * f u = gcd (f v) (f u)" "\<bar>p\<bar> \<le> \<bar>f v\<bar>" "\<bar>q\<bar> \<le> \<bar>f u\<bar>"
          "holding L T k (put s p (put t q (?g(g := gcd (f v) (f u))))) st'"
        using True unfolding unf nz if_False by (auto simp del: fun_upd_apply)
      have "p * f u + q * f v = gcd (f u) (f v)" using r(2) by (simp add: gcd.commute add.commute)
      moreover have "holding L T k (put t q (put s p (f(g := gcd (f u) (f v))))) st'" using cong' [OF r(5)] put_swap [OF v(8)] by (simp add: gcd.commute)
      ultimately show ?thesis using r(1,3,4) max.coboundedI2 by metis
    qed
  qed
qed

subsection \<open>The inverse\<close>

lemma inverse_range:
  assumes "x * u + y * m = 1" "1 < \<bar>m\<bar>" "\<bar>x\<bar> \<le> \<bar>m :: int\<bar>"
  shows "x \<noteq> 0" "\<bar>x\<bar> < \<bar>m\<bar>" "m dvd x * u - 1"
proof -
  have d: "x * u - 1 = m * (- y)" using assms(1) by (simp add: algebra_simps)
  then show "m dvd x * u - 1" by (metis dvd_triv_left)
  have n: "\<not> m dvd x"
  proof
    assume "m dvd x"
    then have "m dvd x * u + y * m" by (intro dvd_add) auto
    then show False using assms(1,2) by simp
  qed
  then show "x \<noteq> 0" by auto
  have "\<bar>x\<bar> \<noteq> \<bar>m\<bar>" using n by (metis abs_dvd_iff dvd_abs_iff dvd_refl)
  then show "\<bar>x\<bar> < \<bar>m\<bar>" using assms(3) by simp
qed

lemma inverse_shift:
  assumes "x \<noteq> 0" "\<bar>x\<bar> < \<bar>m\<bar>" "(m :: int) dvd x * u - 1"
  defines "r \<equiv> (if x < 0 then x + \<bar>m\<bar> else x)"
  shows "0 < r" "r < \<bar>m\<bar>" "m dvd r * u - 1"
proof -
  show "0 < r" "r < \<bar>m\<bar>" using assms(1,2) by (auto simp: r_def)
  have "(x + \<bar>m\<bar>) * u - 1 = (x * u - 1) + \<bar>m\<bar> * u" by (simp add: algebra_simps)
  moreover have "m dvd \<bar>m\<bar> * u" by simp
  ultimately have "m dvd (x + \<bar>m\<bar>) * u - 1" using assms(3) by (metis dvd_add)
  then show "m dvd r * u - 1" using assms(3) by (simp add: r_def)
qed

lemma invert_shift_holding:
  assumes h: "holding L T k f st" and v: "tr \<in> L" "m \<in> L" and fits: "int_fits (f tr)" "int_fits (f m)"
  shows "\<exists>st'. (if zs st tr < 0 then if zs st m \<ge> 0 then mpz_add tr tr m st else mpz_sub tr tr m st else Inr st) = Inr st' \<and>
    holding L T k (f(tr := if f tr < 0 then f tr + \<bar>f m\<bar> else f tr)) st'"
proof -
  have s: "zs st tr < 0 \<longleftrightarrow> f tr < 0" "zs st m \<ge> 0 \<longleftrightarrow> 0 \<le> f m"
    using holding_sgn [OF h v(1)] holding_sgn [OF h v(2)] by (metis sgn_less, metis linorder_not_le sgn_less)
  have "\<exists>st'. mpz_add tr tr m st = Inr st' \<and> holding L T k (f(tr := f tr + f m)) st'"
    "\<exists>st'. mpz_sub tr tr m st = Inr st' \<and> holding L T k (f(tr := f tr - f m)) st'"
    using mpz_add_holding [OF h v(1,1,2)] mpz_sub_holding [OF h v(1,1,2)] fits by blast+
  then show ?thesis using h unfolding s by (simp add: abs_if)
qed

lemma mpz_invert_holding:
  assumes h: "holding L T k f st" and v: "r \<in> L" "u \<in> L" "m \<in> L" and fits: "int_fits (f u)" "int_fits (f m)"
  shows "\<exists>st' x. mpz_invert r u m st = Inr (coprime (f u) (f m) \<and> 1 < \<bar>f m\<bar>, st') \<and>
    (if coprime (f u) (f m) \<and> 1 < \<bar>f m\<bar> then 0 < x \<and> x < \<bar>f m\<bar> \<and> f m dvd x * f u - 1 \<and> holding L T k (f(r := x)) st'
     else holding L T k f st')"
proof (cases "f u = 0 \<or> \<bar>f m\<bar> \<le> 1")
  case True
  have "mpz_cmpabs_ui st m 1 = sgn (\<bar>f m\<bar> - 1)" using mpz_cmpabs_ui_ok [OF holdingD(4) [OF h v(3)], of 1] holdingD(2) [OF h v(3)] by simp
  then have "mpz_cmpabs_ui st m 1 \<le> 0 \<longleftrightarrow> \<bar>f m\<bar> \<le> 1" by (cases "\<bar>f m\<bar> \<le> 1") (auto simp: sgn_if simp del: abs_le_iff split: if_splits)
  then have "mpz_invert r u m st = Inr (False, st)" using True holding_zero_iff [OF h v(2)] by (simp add: mpz_invert_def)
  moreover have "\<not> (coprime (f u) (f m) \<and> 1 < \<bar>f m\<bar>)" using True by auto
  ultimately show ?thesis using h by auto
next
  case False
  have "mpz_cmpabs_ui st m 1 = sgn (\<bar>f m\<bar> - 1)" using mpz_cmpabs_ui_ok [OF holdingD(4) [OF h v(3)], of 1] holdingD(2) [OF h v(3)] by simp
  then have guard: "(zs st u = 0 \<or> mpz_cmpabs_ui st m 1 \<le> 0) = False" using False holding_zero_iff [OF h v(2)] by auto
  have lt: "\<forall>x\<in>L. x < k" using holdingD(5) [OF h] by blast
  let ?L = "insert (Suc k) (insert k L)"
  from next_var [OF h] obtain a0 where a0: "new_var st = (k, a0)" "holding (insert k L) T (Suc k) (f(k := 0)) (mpz_init k a0)" "k \<notin> L" by blast
  from next_var [OF a0(2)] obtain a1 where a1: "new_var (mpz_init k a0) = (Suc k, a1)" "holding ?L T (Suc (Suc k)) (f(k := 0, Suc k := 0)) (mpz_init (Suc k) a1)"
      "Suc k \<notin> insert k L" by blast
  have n: "u \<noteq> k" "u \<noteq> Suc k" "m \<noteq> k" "m \<noteq> Suc k" "r \<noteq> k" "r \<noteq> Suc k" using lt v by auto
  let ?G = "gcd (f u) (f m)"
  obtain s1 x y where s1: "mpz_gcdext (Suc k) (Some k) None u m (mpz_init (Suc k) a1) = Inr s1" "x * f u + y * f m = ?G" "\<bar>x\<bar> \<le> max 1 \<bar>f m\<bar>"
      "holding ?L T (Suc (Suc k)) (f(k := x, Suc k := ?G)) s1"
    using mpz_gcdext_holding [OF a1(2), of "Suc k" u m "Some k" None] n v fits by (auto simp: fun_upd_twist)
  have m: "k \<in> ?L" "Suc k \<in> ?L" "m \<in> ?L" "r \<in> ?L" using v by auto
  have "mpz_cmp_ui s1 (Suc k) 1 = sgn (?G - 1)" using mpz_cmp_ui_ok [OF holdingD(4) [OF s1(4) m(2)], of 1] holdingD(2) [OF s1(4) m(2)] by simp
  then have inv: "mpz_cmp_ui s1 (Suc k) 1 = 0 \<longleftrightarrow> coprime (f u) (f m)" by (simp add: sgn_0_0 coprime_iff_gcd_eq_1)
  let ?R = "if x < 0 then x + \<bar>f m\<bar> else x"
  have xm: "\<bar>x\<bar> \<le> \<bar>f m\<bar>" using s1(3) False by simp
  have e: "(f(k := x, Suc k := ?G)) k = x" "(f(k := x, Suc k := ?G)) m = f m" "(f(k := x, Suc k := ?G))(k := z) = f(k := z, Suc k := ?G)" for z
    using n by (auto simp: fun_eq_iff)
  obtain s2 where s2: "(if zs s1 k < 0 then if zs s1 m \<ge> 0 then mpz_add k k m s1 else mpz_sub k k m s1 else Inr s1) = Inr s2"
      "holding ?L T (Suc (Suc k)) (f(k := ?R, Suc k := ?G)) s2"
    using invert_shift_holding [OF s1(4) m(1,3), unfolded e(1,2), OF fits_le [OF fits(2) xm] fits(2)] unfolding e(3) by blast
  define c where "c = coprime (f u) (f m)"
  obtain s3 f3 where s3: "(if c then bindE (if zs s1 k < 0 then if zs s1 m \<ge> 0 then mpz_add k k m s1 else mpz_sub k k m s1 else Inr s1) (\<lambda>st. Inr (mpz_swap r k st)) else Inr s1) = Inr s3"
      "holding ?L T (Suc (Suc k)) f3 s3" "\<forall>z\<in>L. f3 z = (if c then f(r := ?R) else f) z"
  proof (cases c)
    case True
    have "\<forall>z\<in>L. (f(k := ?R, Suc k := ?G, r := ?R, k := f r)) z = (f(r := ?R)) z" using lt by auto
    moreover have "holding ?L T (Suc (Suc k)) (f(k := ?R, Suc k := ?G, r := ?R, k := f r)) (mpz_swap r k s2)"
      by (rule holding_cong [OF mpz_swap_holding [OF s2(2) m(4,1)]]) (use n in auto)
    ultimately show ?thesis using that True s2(1) by simp
  next
    case c: False
    have "\<forall>z\<in>L. (f(k := x, Suc k := ?G)) z = f z" using lt by auto
    then show ?thesis using that s1(4) c by simp
  qed
  obtain s4 where s4: "mpz_clear (Suc k) s3 = Inr s4" "holding (insert k L) T (Suc k) f3 (drop_var s4)" using mpz_clear_holding [OF s3(2) a1(3)] by blast
  obtain s5 where s5: "mpz_clear k (drop_var s4) = Inr s5" "holding L T k f3 (drop_var s5)" using mpz_clear_holding [OF s4(2) a0(3)] by blast
  have "mpz_invert r u m st = Inr (c, drop_var s5)"
    unfolding mpz_invert_def guard if_False Let_def a0(1) a1(1) prod.case s1(1) bindE_simps inv c_def [symmetric] s3(1) s4(1) s5(1) ..
  moreover have "holding L T k (if c then f(r := ?R) else f) (drop_var s5)" by (rule holding_cong [OF s5(2)]) (use s3(3) in blast)
  moreover have "0 < ?R" "?R < \<bar>f m\<bar>" "f m dvd ?R * f u - 1" if c
  proof -
    have "x * f u + y * f m = 1" using s1(2) that by (simp add: c_def)
    note ir = inverse_range [OF this _ xm]
    then show "0 < ?R" "?R < \<bar>f m\<bar>" "f m dvd ?R * f u - 1" using inverse_shift [of x "f m" "f u"] False by auto
  qed
  ultimately show ?thesis using False unfolding c_def [symmetric] by (intro exI [of _ "drop_var s5"] exI [of _ ?R]) (auto split: if_splits)
qed

subsection \<open>Properties\<close>

text \<open>
  C29: the extended greatest common divisor. For all integers, negative and zero ones included, \<open>mpz_gcdext\<close> ends and stores in \<open>g\<close> their greatest common
  divisor and in \<open>s\<close> and \<open>t\<close> cofactors of it that are not larger than the numbers; the results may go into the variables of the arguments.
  The six local variables are released and all other variables keep their values.
\<close>

theorem mpz_gcdext_cofactors:
  assumes "mpz_wf L T st" "g \<in> L" "s \<in> L" "t \<in> L" "u \<in> L" "v \<in> L" "distinct [g, s, t]" "int_fits (zval st u)" "int_fits (zval st v)"
  shows "\<exists>st'. mpz_gcdext g (Some s) (Some t) u v st = Inr st' \<and> mpz_wf L T st' \<and> zval st' g = gcd (zval st u) (zval st v) \<and>
    zval st' s * zval st u + zval st' t * zval st v = zval st' g \<and> \<bar>zval st' s\<bar> \<le> max 1 \<bar>zval st v\<bar> \<and> \<bar>zval st' t\<bar> \<le> max 1 \<bar>zval st u\<bar> \<and>
    (\<forall>x\<in>L. x \<notin> {g, s, t} \<longrightarrow> zval st' x = zval st x)"
proof -
  from mpz_gcdext_holding [OF holdingI [OF assms(1)], of g u v "Some s" "Some t"] obtain st' x y where
    r: "mpz_gcdext g (Some s) (Some t) u v st = Inr st'" "x * zval st u + y * zval st v = gcd (zval st u) (zval st v)"
      "\<bar>x\<bar> \<le> max 1 \<bar>zval st v\<bar>" "\<bar>y\<bar> \<le> max 1 \<bar>zval st u\<bar>" "holding L T (stack st) ((zval st)(g := gcd (zval st u) (zval st v), s := x, t := y)) st'"
    using assms(2-) by auto
  have "zval st' g = gcd (zval st u) (zval st v)" "zval st' s = x" "zval st' t = y" "\<forall>z\<in>L. z \<notin> {g, s, t} \<longrightarrow> zval st' z = zval st z" "mpz_wf L T st'"
    using holdingD(1,2) [OF r(5)] assms(2-7) by auto
  then show ?thesis using r(1-4) by simp
qed

theorem mpz_gcdext_cofactors_witness:
  "\<exists>st'. mpz_gcdext 2 (Some 0) (Some 3) 0 1 sample_ints = Inr st' \<and> zval st' 2 = 1 \<and> zval st' 0 * - 7 + zval st' 3 * 2 = 1"
proof -
  have "gcd (- 7) (2 :: int) = 1" by code_simp
  then show ?thesis using mpz_gcdext_cofactors [OF sample_ints_wf, of 2 0 3 0 1] by (auto simp: sample_ints_values small_fits)
qed

text \<open>
  C30: the inverse modulo a number. \<open>mpz_invert\<close> returns true exactly when the number is coprime to the modulus and the modulus is neither 0 nor 1 nor -1;
  then it has stored the one inverse between 0 and the absolute value of the modulus, and otherwise it has changed nothing.
\<close>

theorem mpz_invert_inverse:
  assumes "mpz_wf L T st" "r \<in> L" "u \<in> L" "m \<in> L" "int_fits (zval st u)" "int_fits (zval st m)"
  shows "\<exists>b st'. mpz_invert r u m st = Inr (b, st') \<and> mpz_wf L T st' \<and> (b \<longleftrightarrow> coprime (zval st u) (zval st m) \<and> 1 < \<bar>zval st m\<bar>) \<and>
    (if b then 0 < zval st' r \<and> zval st' r < \<bar>zval st m\<bar> \<and> (zval st' r * zval st u) mod \<bar>zval st m\<bar> = 1 else zval st' r = zval st r) \<and>
    (\<forall>x\<in>L. x \<noteq> r \<longrightarrow> zval st' x = zval st x)"
proof -
  let ?b = "coprime (zval st u) (zval st m) \<and> 1 < \<bar>zval st m\<bar>"
  from mpz_invert_holding [OF holdingI [OF assms(1)] assms(2-)] obtain st' x where i: "mpz_invert r u m st = Inr (?b, st')"
    "if ?b then 0 < x \<and> x < \<bar>zval st m\<bar> \<and> zval st m dvd x * zval st u - 1 \<and> holding L T (stack st) ((zval st)(r := x)) st'
     else holding L T (stack st) (zval st) st'" by blast
  show ?thesis
  proof (cases ?b)
    case True
    then have x: "0 < x" "x < \<bar>zval st m\<bar>" "zval st m dvd x * zval st u - 1" "holding L T (stack st) ((zval st)(r := x)) st'" using i(2) by simp_all
    have "(x * zval st u) mod \<bar>zval st m\<bar> = 1 mod \<bar>zval st m\<bar>" using x(3) by (simp add: mod_eq_dvd_iff)
    then have "(x * zval st u) mod \<bar>zval st m\<bar> = 1" using True by simp
    moreover have "zval st' r = x" "\<forall>z\<in>L. z \<noteq> r \<longrightarrow> zval st' z = zval st z" "mpz_wf L T st'" using holdingD(1,2) [OF x(4)] assms(2) by auto
    ultimately show ?thesis using i(1) True x(1,2) by (intro exI [of _ True] exI [of _ st']) simp
  next
    case False
    then have "holding L T (stack st) (zval st) st'" using i(2) by (simp only: if_False)
    then have "\<forall>z\<in>L. zval st' z = zval st z" "mpz_wf L T st'" using holdingD(1,2) by auto
    then show ?thesis using i(1) False assms(2) by (intro exI [of _ False] exI [of _ st']) simp
  qed
qed

theorem mpz_invert_inverse_witness:
  "(\<exists>st'. mpz_invert 2 1 0 sample_ints = Inr (True, st') \<and> zval st' 2 * 2 mod 7 = 1) \<and> (\<exists>st'. mpz_invert 2 0 3 sample_ints = Inr (False, st') \<and> zval st' 2 = 0)"
proof -
  have "coprime 2 (- 7 :: int)" by code_simp
  then show ?thesis using mpz_invert_inverse [OF sample_ints_wf, of 2 1 0] mpz_invert_inverse [OF sample_ints_wf, of 2 0 3]
    by (auto simp: sample_ints_values small_fits)
qed

end
