(* ===== verification/Mersenne.thy ===== *)
theory Mersenne
  imports C_Prelude
begin

section \<open>The random numbers of the multiprecision tests\<close>

text \<open>
  \<open>random/mt19937-64.c\<close>: the 64-bit Mersenne Twister. The static array \<open>mt\<close> is a list, every access
  to it is checked against its length, and \<open>mti\<close> is the next index. The generator makes \<open>NN\<close> words
  at a time, in place: the theorems compare its outputs with the recurrence of the sequence.
\<close>

unbundle bit_operations_syntax

subsection \<open>Definitions\<close>

definition NN :: nat where "NN = 312"
definition MM :: nat where "MM = 156"
definition MATRIX_A :: u64 where "MATRIX_A = 0xB5026F5AA96619E9"
definition UM :: u64 where "UM = 0xFFFFFFFF80000000"
definition LM :: u64 where "LM = 0x7FFFFFFF"

record mt_state =
  mt :: "u64 list"
  mti :: nat

definition mt_initial :: mt_state where
  "mt_initial = \<lparr>mt = replicate NN 0, mti = NN + 1\<rparr>"

definition mt_get :: "u64 list \<Rightarrow> nat \<Rightarrow> u64 res" where
  "mt_get xs i = (if i < length xs then Inr (xs ! i) else crash Out_Of_Bounds)"

definition mt_set :: "u64 list \<Rightarrow> nat \<Rightarrow> u64 \<Rightarrow> u64 list res" where
  "mt_set xs i v = (if i < length xs then Inr (xs[i := v]) else crash Out_Of_Bounds)"

text \<open>The word after the word \<open>x\<close> in the initialisation from a seed, at index \<open>i\<close>.\<close>

definition seed_next :: "u64 \<Rightarrow> nat \<Rightarrow> u64" where
  "seed_next x i = 6364136223846793005 * (x XOR drop_bit 62 x) + of_nat i"

primrec seed_loop :: "nat \<Rightarrow> u64 list \<Rightarrow> u64 list res" where
  "seed_loop 0 xs = Inr xs"
| "seed_loop (Suc i) xs =
     bindE (seed_loop i xs) (\<lambda>xs.
     bindE (mt_get xs i) (\<lambda>x. mt_set xs (Suc i) (seed_next x (Suc i))))"

definition init_genrand64 :: "u64 \<Rightarrow> mt_state \<Rightarrow> mt_state res" where
  "init_genrand64 seed s =
     bindE (mt_set (mt s) 0 seed) (\<lambda>xs.
     bindE (seed_loop (NN - 1) xs) (\<lambda>xs. Inr \<lparr>mt = xs, mti = NN\<rparr>))"

text \<open>The index wraps to 1, with the last word copied to the first.\<close>

definition wrap_index :: "nat \<Rightarrow> u64 list \<Rightarrow> (nat \<times> u64 list) res" where
  "wrap_index i xs =
     (if i \<ge> NN then bindE (mt_get xs (NN - 1)) (\<lambda>x. bindE (mt_set xs 0 x) (\<lambda>xs. Inr (1, xs)))
      else Inr (i, xs))"

fun key_loop :: "u64 list \<Rightarrow> nat \<Rightarrow> nat \<Rightarrow> nat \<Rightarrow> nat \<Rightarrow> u64 list \<Rightarrow> (nat \<times> u64 list) res" where
  "key_loop init_key key_length 0 i j xs = Inr (i, xs)"
| "key_loop init_key key_length (Suc k) i j xs =
     bindE (mt_get xs i) (\<lambda>x. bindE (mt_get xs (i - 1)) (\<lambda>y. bindE (mt_get init_key j) (\<lambda>key.
     bindE (mt_set xs i ((x XOR ((y XOR drop_bit 62 y) * 3935559000370003845)) + key + of_nat j)) (\<lambda>xs.
     bindE (wrap_index (i + 1) xs) (\<lambda>(i, xs).
     key_loop init_key key_length k i (if j + 1 \<ge> key_length then 0 else j + 1) xs)))))"

fun mix_loop :: "nat \<Rightarrow> nat \<Rightarrow> u64 list \<Rightarrow> u64 list res" where
  "mix_loop 0 i xs = Inr xs"
| "mix_loop (Suc k) i xs =
     bindE (mt_get xs i) (\<lambda>x. bindE (mt_get xs (i - 1)) (\<lambda>y.
     bindE (mt_set xs i ((x XOR ((y XOR drop_bit 62 y) * 2862933555777941757)) - of_nat i)) (\<lambda>xs.
     bindE (wrap_index (i + 1) xs) (\<lambda>(i, xs). mix_loop k i xs))))"

definition init_by_array64 :: "u64 list \<Rightarrow> nat \<Rightarrow> mt_state \<Rightarrow> mt_state res" where
  "init_by_array64 init_key key_length s =
     bindE (init_genrand64 19650218 s) (\<lambda>s.
     bindE (key_loop init_key key_length (if NN > key_length then NN else key_length) 1 0 (mt s)) (\<lambda>(i, xs).
     bindE (mix_loop (NN - 1) i xs) (\<lambda>xs.
     bindE (mt_set xs 0 (push_bit 63 1)) (\<lambda>xs. Inr (s\<lparr>mt := xs\<rparr>)))))"

definition mag01 :: "u64 list" where
  "mag01 = [0, MATRIX_A]"

text \<open>A new word, from the word at its place, the one after it, and the word \<open>z\<close> that is \<open>MM\<close> ahead.\<close>

definition twist :: "u64 \<Rightarrow> u64 \<Rightarrow> u64 \<Rightarrow> u64 res" where
  "twist u v z =
     (let x = (u AND UM) OR (v AND LM)
      in bindE (mt_get mag01 (unat (x AND 1))) (\<lambda>a. Inr (z XOR drop_bit 1 x XOR a)))"

definition regenerate_at :: "nat \<Rightarrow> nat \<Rightarrow> nat \<Rightarrow> u64 list \<Rightarrow> u64 list res" where
  "regenerate_at i succ ahead xs =
     bindE (mt_get xs i) (\<lambda>u. bindE (mt_get xs succ) (\<lambda>v. bindE (mt_get xs ahead) (\<lambda>z.
     bindE (twist u v z) (mt_set xs i))))"

primrec regenerate_low :: "nat \<Rightarrow> u64 list \<Rightarrow> u64 list res" where
  "regenerate_low 0 xs = Inr xs"
| "regenerate_low (Suc i) xs = bindE (regenerate_low i xs) (regenerate_at i (i + 1) (i + MM))"

primrec regenerate_high :: "nat \<Rightarrow> u64 list \<Rightarrow> u64 list res" where
  "regenerate_high 0 xs = Inr xs"
| "regenerate_high (Suc k) xs =
     bindE (regenerate_high k xs) (let i = NN - MM + k in regenerate_at i (i + 1) (i - (NN - MM)))"

definition temper :: "u64 \<Rightarrow> u64" where
  "temper x =
     (let x = x XOR (drop_bit 29 x AND 0x5555555555555555);
          x = x XOR (push_bit 17 x AND 0x71D67FFFEDA60000);
          x = x XOR (push_bit 37 x AND 0xFFF7EEE000000000);
          x = x XOR drop_bit 43 x
      in x)"

definition genrand64_int64 :: "mt_state \<Rightarrow> (u64 \<times> mt_state) res" where
  "genrand64_int64 s =
     bindE
       (if mti s \<ge> NN then
          bindE (if mti s = NN + 1 then init_genrand64 5489 s else Inr s) (\<lambda>s.
          bindE (regenerate_low (NN - MM) (mt s)) (\<lambda>xs.
          bindE (regenerate_high (MM - 1) xs) (\<lambda>xs.
          bindE (regenerate_at (NN - 1) 0 (MM - 1) xs) (\<lambda>xs.
          Inr \<lparr>mt = xs, mti = 0\<rparr>))))
        else Inr s) (\<lambda>s.
     bindE (mt_get (mt s) (mti s)) (\<lambda>x. Inr (temper x, s\<lparr>mti := mti s + 1\<rparr>)))"

definition genrand64_int63 :: "mt_state \<Rightarrow> (u64 \<times> mt_state) res" where
  "genrand64_int63 s = bindE (genrand64_int64 s) (\<lambda>(x, s). Inr (drop_bit 1 x, s))"

text \<open>The outputs of \<open>k\<close> calls in a row.\<close>

primrec draws :: "nat \<Rightarrow> mt_state \<Rightarrow> (u64 list \<times> mt_state) res" where
  "draws 0 s = Inr ([], s)"
| "draws (Suc k) s = bindE (draws k s) (\<lambda>(xs, s). bindE (genrand64_int64 s) (\<lambda>(x, s). Inr (xs @ [x], s)))"

text \<open>
  The reference: an infinite sequence that starts with the words from the seed and continues with
  the linear recurrence of the twister.
\<close>

function mt_word :: "u64 \<Rightarrow> nat \<Rightarrow> u64" where
  "mt_word seed n =
     (if n = 0 then seed
      else if n < NN then seed_next (mt_word seed (n - 1)) n
      else
        let x = (mt_word seed (n - NN) AND UM) OR (mt_word seed (n - NN + 1) AND LM)
        in mt_word seed (n - NN + MM) XOR drop_bit 1 x XOR (if x AND 1 = 0 then 0 else MATRIX_A))"
  by pat_completeness auto
termination by (relation "measure snd") (auto simp: NN_def MM_def)

declare mt_word.simps [simp del]

lemmas mt_sizes = NN_def MM_def

subsection \<open>The array and the sequence\<close>

text \<open>The first \<open>i\<close> words of the array are those of the next block already.\<close>

definition block_part :: "u64 \<Rightarrow> nat \<Rightarrow> nat \<Rightarrow> u64 list \<Rightarrow> bool" where
  "block_part seed b i xs \<longleftrightarrow> length xs = NN \<and> (\<forall>j<i. xs ! j = mt_word seed (b + NN + j)) \<and>
     (\<forall>j. i \<le> j \<and> j < NN \<longrightarrow> xs ! j = mt_word seed (b + j))"

lemma block_next: "block_part seed b NN xs \<longleftrightarrow> block_part seed (b + NN) 0 xs"
  by (auto simp: block_part_def)

lemma mt_get_ok [simp]: "i < length xs \<Longrightarrow> mt_get xs i = Inr (xs ! i)"
  by (simp add: mt_get_def)

lemma mt_set_ok [simp]: "i < length xs \<Longrightarrow> mt_set xs i v = Inr (xs[i := v])"
  by (simp add: mt_set_def)

lemma low_bit: "unat ((x :: u64) AND 1) = (if x AND 1 = 0 then 0 else 1)"
  by (cases "even x") (simp_all add: and_one_eq even_iff_mod_2_eq_zero odd_iff_mod_2_eq_one)

lemma twist_word: "twist (mt_word seed n) (mt_word seed (n + 1)) (mt_word seed (n + MM)) = Inr (mt_word seed (n + NN))"
proof -
  have "NN \<noteq> 0" by (simp add: NN_def)
  then show ?thesis
    by (subst (4) mt_word.simps) (simp add: twist_def Let_def low_bit mag01_def)
qed

lemma regenerate_at_ok:
  assumes "block_part seed b i xs" "i < NN" "next_i < NN" "ahead < NN"
    and "xs ! next_i = mt_word seed (b + i + 1)" "xs ! ahead = mt_word seed (b + i + MM)"
  shows "\<exists>xs'. regenerate_at i next_i ahead xs = Inr xs' \<and> block_part seed b (Suc i) xs'"
proof -
  let ?w = "mt_word seed (b + i + NN)"
  have "xs ! i = mt_word seed (b + i)" "length xs = NN" using assms(1,2) by (auto simp: block_part_def)
  then have "regenerate_at i next_i ahead xs = Inr (xs[i := ?w])"
    using assms(2-6) twist_word [of seed "b + i"] by (simp add: regenerate_at_def)
  moreover have "block_part seed b (Suc i) (xs[i := ?w])"
    using assms(1,2) by (auto simp: block_part_def nth_list_update less_Suc_eq add_ac)
  ultimately show ?thesis by blast
qed

lemma regenerate_low_ok:
  "block_part seed b 0 xs \<Longrightarrow> i \<le> NN - MM \<Longrightarrow> \<exists>xs'. regenerate_low i xs = Inr xs' \<and> block_part seed b i xs'"
proof (induction i)
  case (Suc i)
  then obtain ys where ys: "regenerate_low i xs = Inr ys" "block_part seed b i ys" by auto
  have "i < NN" "i + 1 < NN" "i + MM < NN" using Suc.prems(2) by (simp_all add: mt_sizes)
  moreover have "ys ! (i + 1) = mt_word seed (b + i + 1)" "ys ! (i + MM) = mt_word seed (b + i + MM)"
    using ys(2) calculation by (simp_all add: block_part_def add.assoc)
  ultimately show ?case using regenerate_at_ok [OF ys(2)] ys(1) by simp
qed simp

lemma regenerate_high_ok:
  "block_part seed b (NN - MM) xs \<Longrightarrow> k \<le> MM - 1 \<Longrightarrow>
     \<exists>xs'. regenerate_high k xs = Inr xs' \<and> block_part seed b (NN - MM + k) xs'"
proof (induction k)
  case (Suc k)
  let ?i = "NN - MM + k"
  obtain ys where ys: "regenerate_high k xs = Inr ys" "block_part seed b ?i ys" using Suc by auto
  have "?i < NN" "?i + 1 < NN" "?i - (NN - MM) < NN" using Suc.prems(2) by (simp_all add: mt_sizes)
  moreover have "ys ! (?i + 1) = mt_word seed (b + ?i + 1)" using ys(2) calculation by (simp add: block_part_def)
  moreover have "ys ! (?i - (NN - MM)) = mt_word seed (b + ?i + MM)"
  proof -
    have "ys ! (?i - (NN - MM)) = mt_word seed (b + NN + (?i - (NN - MM)))"
      using ys(2) by (auto simp: block_part_def mt_sizes)
    moreover have "b + NN + (?i - (NN - MM)) = b + ?i + MM" by (simp add: mt_sizes)
    ultimately show ?thesis by (simp only:)
  qed
  ultimately show ?case using regenerate_at_ok [OF ys(2)] ys(1) by (simp add: Let_def)
qed simp

lemma regenerate_last_ok:
  assumes "block_part seed b (NN - 1) xs"
  shows "\<exists>xs'. regenerate_at (NN - 1) 0 (MM - 1) xs = Inr xs' \<and> block_part seed (b + NN) 0 xs'"
proof -
  have "xs ! 0 = mt_word seed (b + (NN - 1) + 1)" "xs ! (MM - 1) = mt_word seed (b + (NN - 1) + MM)"
    using assms by (simp_all add: block_part_def mt_sizes add_ac)
  from regenerate_at_ok [OF assms _ _ _ this] show ?thesis
    unfolding block_next [symmetric] by (simp add: mt_sizes)
qed

lemma seed_loop_ok:
  assumes "length xs = NN" "xs ! 0 = seed" "i < NN"
  shows "\<exists>ys. seed_loop i xs = Inr ys \<and> length ys = NN \<and> (\<forall>j\<le>i. ys ! j = mt_word seed j)"
  using assms(3)
proof (induction i)
  case 0
  then show ?case using assms by (simp add: mt_word.simps)
next
  case (Suc i)
  then obtain ys where ys: "seed_loop i xs = Inr ys" "length ys = NN" "\<forall>j\<le>i. ys ! j = mt_word seed j" by auto
  have "mt_word seed (Suc i) = seed_next (mt_word seed i) (Suc i)"
    using Suc.prems by (subst mt_word.simps) simp
  then show ?case using ys Suc.prems by (auto simp: nth_list_update le_Suc_eq)
qed

text \<open>The state before output number \<open>k\<close>: the array holds the block from \<open>b\<close> on.\<close>

definition mt_inv :: "u64 \<Rightarrow> nat \<Rightarrow> mt_state \<Rightarrow> bool" where
  "mt_inv seed k s \<longleftrightarrow> mti s \<le> NN \<and> (\<exists>b. block_part seed b 0 (mt s) \<and> b + mti s = NN + k)"

lemma init_genrand64_ok:
  assumes "length (mt s) = NN"
  shows "\<exists>s'. init_genrand64 seed s = Inr s' \<and> mt_inv seed 0 s'"
proof -
  let ?xs = "(mt s)[0 := seed]"
  have "length ?xs = NN" "?xs ! 0 = seed" "NN - 1 < NN" using assms by (simp_all add: NN_def)
  from seed_loop_ok [OF this] obtain ys where ys: "seed_loop (NN - 1) ?xs = Inr ys" "length ys = NN"
    "\<forall>j\<le>NN - 1. ys ! j = mt_word seed j" by blast
  have "block_part seed 0 0 ys" using ys(2,3) by (auto simp: block_part_def NN_def)
  moreover have "0 < length (mt s)" using assms by (simp add: NN_def)
  ultimately show ?thesis using ys(1) by (auto simp: init_genrand64_def mt_inv_def)
qed

lemma genrand64_int64_ok:
  assumes "mt_inv seed k s"
  shows "\<exists>s'. genrand64_int64 s = Inr (temper (mt_word seed (NN + k)), s') \<and> mt_inv seed (Suc k) s'"
proof -
  obtain b where b: "block_part seed b 0 (mt s)" "b + mti s = NN + k" "mti s \<le> NN" using assms by (auto simp: mt_inv_def)
  show ?thesis
  proof (cases "mti s = NN")
    case True
    obtain xs where xs: "regenerate_low (NN - MM) (mt s) = Inr xs" "block_part seed b (NN - MM) xs"
      using regenerate_low_ok [OF b(1) order_refl] by blast
    obtain ys where ys: "regenerate_high (MM - 1) xs = Inr ys" "block_part seed b (NN - MM + (MM - 1)) ys"
      using regenerate_high_ok [OF xs(2) order_refl] by blast
    have "NN - MM + (MM - 1) = NN - 1" by (simp add: mt_sizes)
    then obtain zs where zs: "regenerate_at (NN - 1) 0 (MM - 1) ys = Inr zs" "block_part seed (b + NN) 0 zs"
      using regenerate_last_ok [of seed b ys] ys(2) by auto
    have "length zs = NN" "zs ! 0 = mt_word seed (NN + k)" "0 < NN" "Suc 0 \<le> NN"
      using zs(2) b(2) True by (simp_all add: block_part_def NN_def add_ac)
    then have "genrand64_int64 s = Inr (temper (mt_word seed (NN + k)), \<lparr>mt = zs, mti = 1\<rparr>)"
      using True xs(1) ys(1) zs(1) by (simp add: genrand64_int64_def)
    moreover have "mt_inv seed (Suc k) \<lparr>mt = zs, mti = 1\<rparr>"
      unfolding mt_inv_def using zs(2) b(2) True \<open>Suc 0 \<le> NN\<close> by (intro conjI exI [of _ "b + NN"]) simp_all
    ultimately show ?thesis by blast
  next
    case False
    then have "mti s < NN" using b(3) by simp
    then have "genrand64_int64 s = Inr (temper (mt_word seed (NN + k)), s\<lparr>mti := mti s + 1\<rparr>)"
      using b by (simp add: genrand64_int64_def block_part_def)
    moreover have "mt_inv seed (Suc k) (s\<lparr>mti := mti s + 1\<rparr>)"
      unfolding mt_inv_def using b \<open>mti s < NN\<close> by (intro conjI exI [of _ b]) simp_all
    ultimately show ?thesis by blast
  qed
qed

lemma draws_ok:
  "mt_inv seed 0 s \<Longrightarrow>
     \<exists>s'. draws k s = Inr (map (\<lambda>i. temper (mt_word seed (NN + i))) [0..<k], s') \<and> mt_inv seed k s'"
proof (induction k)
  case (Suc k)
  then obtain s1 where "draws k s = Inr (map (\<lambda>i. temper (mt_word seed (NN + i))) [0..<k], s1)" "mt_inv seed k s1" by blast
  then show ?case using genrand64_int64_ok [of seed k s1] by auto
qed simp

text \<open>
  C40: the generator, which makes its numbers in blocks and in place, produces the tempered words of the
  recurrence, in order and without an access outside of its array, after an initialisation
  with any seed.
\<close>

theorem genrand64_sequence:
  assumes "length (mt s) = NN"
  shows "\<exists>s' s''. init_genrand64 seed s = Inr s' \<and>
    draws k s' = Inr (map (\<lambda>i. temper (mt_word seed (NN + i))) [0..<k], s'') \<and> mti s'' \<le> NN"
proof -
  obtain s' where "init_genrand64 seed s = Inr s'" "mt_inv seed 0 s'" using init_genrand64_ok [OF assms] by blast
  then show ?thesis using draws_ok [of seed s' k] by (auto simp: mt_inv_def)
qed

theorem genrand64_sequence_witness:
  "\<exists>s' s''. init_genrand64 5489 mt_initial = Inr s' \<and>
    draws 1000 s' = Inr (map (\<lambda>i. temper (mt_word 5489 (NN + i))) [0..<1000], s'') \<and> mti s'' \<le> NN"
  using genrand64_sequence [of mt_initial 5489 1000] by (simp add: mt_initial_def)

text \<open>
  A generator that was not initialised behaves as one that was initialised with the seed 5489, and every
  number on 63 bits is the number on 64 bits without its lowest bit, so not negative as a \<open>long long\<close>.
\<close>

theorem genrand64_default_seed:
  "\<exists>s x s'. init_genrand64 5489 mt_initial = Inr s \<and> genrand64_int64 mt_initial = Inr (x, s') \<and>
     genrand64_int64 s = Inr (x, s') \<and> genrand64_int63 mt_initial = Inr (drop_bit 1 x, s') \<and> unat (drop_bit 1 x) < 2 ^ 63"
proof -
  have "length (mt mt_initial) = NN" by (simp add: mt_initial_def)
  from init_genrand64_ok [OF this, of 5489] obtain s where s: "init_genrand64 5489 mt_initial = Inr s" "mt_inv 5489 0 s" by blast
  then obtain s' where s': "genrand64_int64 s = Inr (temper (mt_word 5489 NN), s')"
    using genrand64_int64_ok [of 5489 0 s] by auto
  have m: "mti s = NN" using s(1) unfolding init_genrand64_def by (auto simp: bindE_Inr_iff)
  have "genrand64_int64 mt_initial = genrand64_int64 s"
    using s(1) m by (simp add: genrand64_int64_def mt_initial_def)
  moreover have "unat (drop_bit 1 x) < 2 ^ 63" for x :: u64
    using unat_bound [of x] by (simp add: drop_bit_eq_div unat_div less_mult_imp_div_less)
  ultimately show ?thesis using s(1) s' by (auto simp: genrand64_int63_def)
qed

subsection \<open>Initialisation by an array\<close>

lemma wrap_index_ok:
  assumes "length xs = NN" "1 \<le> i"
  shows "\<exists>i' xs'. wrap_index i xs = Inr (i', xs') \<and> length xs' = NN \<and> 1 \<le> i' \<and> i' < NN"
  using assms by (auto simp: wrap_index_def NN_def)

lemma key_loop_ok:
  assumes "length key = n" "0 < n"
  shows "length xs = NN \<Longrightarrow> 1 \<le> i \<Longrightarrow> i < NN \<Longrightarrow> j < n \<Longrightarrow>
    \<exists>i' xs'. key_loop key n k i j xs = Inr (i', xs') \<and> length xs' = NN \<and> 1 \<le> i' \<and> i' < NN"
proof (induction k arbitrary: i j xs)
  case (Suc k)
  define x where "x = (xs ! i XOR (xs ! (i - 1) XOR drop_bit 62 (xs ! (i - 1))) * 3935559000370003845) + key ! j + of_nat j"
  obtain i' ys where w: "wrap_index (i + 1) (xs[i := x]) = Inr (i', ys)" "length ys = NN" "1 \<le> i'" "i' < NN"
    using wrap_index_ok [of "xs[i := x]" "i + 1"] Suc.prems by auto
  have "key_loop key n (Suc k) i j xs = key_loop key n k i' (if j + 1 \<ge> n then 0 else j + 1) ys"
    using Suc.prems assms w(1) by (simp add: x_def)
  then show ?case using Suc.IH [OF w(2-4), of "if j + 1 \<ge> n then 0 else j + 1"] assms(2) by auto
qed auto

lemma mix_loop_ok:
  "length xs = NN \<Longrightarrow> 1 \<le> i \<Longrightarrow> i < NN \<Longrightarrow> \<exists>xs'. mix_loop k i xs = Inr xs' \<and> length xs' = NN"
proof (induction k arbitrary: i xs)
  case (Suc k)
  define x where "x = (xs ! i XOR (xs ! (i - 1) XOR drop_bit 62 (xs ! (i - 1))) * 2862933555777941757) - of_nat i"
  obtain i' ys where w: "wrap_index (i + 1) (xs[i := x]) = Inr (i', ys)" "length ys = NN" "1 \<le> i'" "i' < NN"
    using wrap_index_ok [of "xs[i := x]" "i + 1"] Suc.prems by auto
  have "mix_loop (Suc k) i xs = mix_loop k i' ys" using Suc.prems w(1) by (simp add: x_def)
  then show ?case using Suc.IH [OF w(2-4)] by simp
qed simp

text \<open>
  The initialisation by an array of any positive length stays inside of both arrays, and gives a state that is not
  zero; with an array of no words it reads a word of the key that is not there.
\<close>

theorem init_by_array64_bounds:
  assumes "length (mt s) = NN"
  shows "(0 < length key \<longrightarrow> (\<exists>s'. init_by_array64 key (length key) s = Inr s' \<and>
      length (mt s') = NN \<and> mti s' = NN \<and> mt s' ! 0 = push_bit 63 1)) \<and>
    init_by_array64 [] 0 s = crash Out_Of_Bounds"
proof -
  obtain s1 where s1: "init_genrand64 19650218 s = Inr s1" "mt_inv 19650218 0 s1" using init_genrand64_ok [OF assms] by blast
  have l: "length (mt s1) = NN" using s1(2) by (auto simp: mt_inv_def block_part_def)
  have m: "mti s1 = NN" using s1(1) unfolding init_genrand64_def by (auto simp: bindE_Inr_iff)
  have n: "1 < NN" "0 < NN" by (simp_all add: NN_def)
  have "\<exists>s'. init_by_array64 key (length key) s = Inr s' \<and> length (mt s') = NN \<and> mti s' = NN \<and> mt s' ! 0 = push_bit 63 1"
    if k: "0 < length key"
  proof -
    define K where "K = (if NN > length key then NN else length key)"
    obtain i xs where x: "key_loop key (length key) K 1 0 (mt s1) = Inr (i, xs)" "length xs = NN" "1 \<le> i" "i < NN"
      using key_loop_ok [OF refl k l order_refl n(1) k, of K] by blast
    obtain ys where "mix_loop (NN - 1) i xs = Inr ys" "length ys = NN" using mix_loop_ok [OF x(2-4)] by blast
    then show ?thesis using s1(1) x(1) n m by (simp add: init_by_array64_def K_def)
  qed
  moreover have "key_loop [] 0 (Suc k) 1 0 (mt s1) = crash Out_Of_Bounds" for k using l n by (simp add: mt_get_def)
  then have "key_loop [] 0 NN 1 0 (mt s1) = crash Out_Of_Bounds" using n by (metis gr0_implies_Suc)
  then have "init_by_array64 [] 0 s = crash Out_Of_Bounds" using s1(1) n by (simp add: init_by_array64_def)
  ultimately show ?thesis by blast
qed

theorem init_by_array64_bounds_witness:
  "(\<exists>s'. init_by_array64 [0x12345, 0x23456, 0x34567, 0x45678] 4 mt_initial = Inr s' \<and> mti s' = NN) \<and>
   init_by_array64 [] 0 mt_initial = crash Out_Of_Bounds"
proof -
  have "length (mt mt_initial) = NN" "length [0x12345, 0x23456, 0x34567, 0x45678 :: u64] = 4"
    by (simp_all add: mt_initial_def)
  then show ?thesis using init_by_array64_bounds [of mt_initial "[0x12345, 0x23456, 0x34567, 0x45678]"] by (metis zero_less_numeral)
qed

subsection \<open>Tempering\<close>

text \<open>Where two arguments differ in a bit, they differ in a bit further up, or further down.\<close>

lemma xor_drop_inj: "0 < n \<Longrightarrow> inj (\<lambda>x :: u64. x XOR (drop_bit n x AND c))"
proof (rule injI)
  fix x y :: u64
  assume n: "0 < n" and e: "x XOR (drop_bit n x AND c) = y XOR (drop_bit n y AND c)"
  have up: "bit x (i + n) \<noteq> bit y (i + n)" if "bit x i \<noteq> bit y i" for i
    using that arg_cong [OF e, of "\<lambda>z. bit z i"] by (auto simp: bit_simps add.commute)
  have "bit x i = bit y i" for i
  proof (rule ccontr)
    assume "bit x i \<noteq> bit y i"
    have d: "bit x (i + k * n) \<noteq> bit y (i + k * n)" for k
    proof (induction k)
      case (Suc k)
      have e: "i + Suc k * n = i + k * n + n" by simp
      show ?case unfolding e by (rule up [OF Suc])
    qed (use \<open>bit x i \<noteq> bit y i\<close> in simp)
    have "64 \<le> i + 64 * n" using n by simp
    then show False using d [of 64] by (auto dest: bit_imp_le_length)
  qed
  then show "x = y" by (intro bit_word_eqI) simp
qed

lemma xor_push_inj: "0 < n \<Longrightarrow> inj (\<lambda>x :: u64. x XOR (push_bit n x AND c))"
proof (rule injI)
  fix x y :: u64
  assume n: "0 < n" and e: "x XOR (push_bit n x AND c) = y XOR (push_bit n y AND c)"
  have "bit x i = bit y i" for i
  proof (induction i rule: less_induct)
    case (less i)
    then show ?case using n arg_cong [OF e, of "\<lambda>z. bit z i"] less [of "i - n"]
      by (cases "n \<le> i") (auto simp: bit_simps)
  qed
  then show "x = y" by (intro bit_word_eqI) simp
qed

text \<open>
  The tempering loses nothing. It is a bijection on 64-bit words, so that the outputs determine
  the words of the recurrence and every output is possible.
\<close>

theorem temper_bij: "bij temper"
proof -
  let ?a = "\<lambda>x :: u64. x XOR (drop_bit 29 x AND 0x5555555555555555)"
  let ?b = "\<lambda>x :: u64. x XOR (push_bit 17 x AND 0x71D67FFFEDA60000)"
  let ?c = "\<lambda>x :: u64. x XOR (push_bit 37 x AND 0xFFF7EEE000000000)"
  let ?d = "\<lambda>x :: u64. x XOR (drop_bit 43 x AND - 1)"
  have "temper = ?d \<circ> (?c \<circ> (?b \<circ> ?a))" by (auto simp: temper_def Let_def)
  moreover have "inj (?d \<circ> (?c \<circ> (?b \<circ> ?a)))"
    by (intro inj_compose xor_drop_inj xor_push_inj) simp_all
  ultimately have "inj temper" by (simp only:)
  moreover have "finite (UNIV :: u64 set)" by simp
  ultimately show ?thesis by (simp add: bij_def finite_UNIV_inj_surj)
qed

end
