(* ===== verification/Spec2Isabelle.thy ===== *)
theory Spec2Isabelle
  imports Write_Stream Cpulimit_Unix Cpulimit_Win Win_Events Mpz_Programs Mpz_Power Mpz_Gcdext Mersenne
begin

text \<open>
  This development models the C code of the Why3 repository: the prover server with its wrapper
  \<open>cpulimit\<close> (under \<open>src/src/server/\<close>), and the arithmetic of the multiprecision library (under
  \<open>src/examples/multiprecision/\<close>).

  \<^bold>\<open>The program.\<close> Why3 sends requests to run provers to the server over a local socket (Unix) or a named
  pipe (Windows). A line of a request is a list of fields separated by semicolons. The server runs
  as many processes in parallel as it is allowed to, keeps the other requests in a queue, tells the
  client when a task starts and when it ends, and kills the tasks of a client that interrupts them
  or disconnects. The processes are usually started through \<open>cpulimit\<close>, which enforces limits and
  reports times. The multiprecision library computes with natural numbers that are arrays of
  64-bit limbs; \<open>mini-gmp.c\<close> is the reference it is compared with, on random numbers from the
  Mersenne Twister.

  \<^bold>\<open>How C is modelled.\<close> \<open>C_Prelude\<close> has the common conventions: a function that may stop the program gives
  \<open>stop + 'a\<close>, where \<open>Inl (Crash f)\<close> is an assertion failure or undefined behaviour of the kind \<open>f\<close> and
  \<open>Inl (Exit n h)\<close> is a call of \<open>exit\<close>; arrays are lists of cells with checked accesses;
  \<open>unsigned\<close> numbers are words of their width, \<open>int\<close> is checked for overflow. \<open>malloc\<close> and
  \<open>realloc\<close> succeed in the server, and memory that is not released again is not tracked except for the
  objects of clients. \<open>C_Strings\<close> and \<open>C_Buffers\<close> have the functions on strings. The operating
  system is a parameter: a record of functions from the history of system calls to the next result,
  so that every behaviour over time is covered; \<open>os_ok\<close> in \<open>OS_Interface\<close> states what is documented
  about it, and \<open>Sample_Runs\<close> has a simulated one for which this holds.

  \<^bold>\<open>The containers.\<close> \<open>Ring_Queue\<close> (\<open>queue.c\<close>), \<open>Array_List\<close> (\<open>arraylist.c\<close>), \<open>Read_Buffer\<close> (\<open>readbuf.c\<close>) and
  \<open>Write_Buffer\<close> (\<open>writebuf.c\<close>) have the data structures. What their users rely on are the locales of
  \<open>Fifo_Interface\<close> and \<open>Keyed_Store\<close>, which the two containers interpret. The lemmas show that
  the queue refines a list, that the array list is a finite map, that no byte is lost, duplicated or
  reordered in the buffers, and that no access leaves an array. \<open>Write_Stream\<close> has the write buffer over time.

  \<^bold>\<open>The Unix server.\<close> \<open>Server_Globals\<close> (\<open>options.c\<close>, \<open>logging.c\<close>), \<open>Proc\<close> (\<open>proc.c\<close>) and \<open>Request\<close> (\<open>request.c\<close>) have the
  parts shared with Windows, \<open>Server_Unix\<close> and \<open>Unix_Startup\<close> have \<open>server-unix.c\<close>, one definition per function. The
  proofs are in \<open>Unix_Poll\<close> (the poll list), \<open>Unix_Invariant\<close> (the invariant), \<open>Unix_Messages\<close>,
  \<open>Unix_Requests\<close>, \<open>Unix_Lines\<close>, \<open>Unix_Clients\<close>, \<open>Unix_Events\<close> and \<open>Unix_Safety\<close>: every operation
  of the event loop keeps the invariant and does not crash, as long as the clients together send at
  most \<open>2 ^ 28\<close> bytes, a bound that keeps all \<open>int\<close> lengths in range. \<open>turns\<close> is the event loop with a number of
  turns; the statements hold for every number. This theory has the properties of the
  whole server and of its parts.

  \<^bold>\<open>The Windows server.\<close> \<open>Server_Win\<close> has \<open>server-win.c\<close>, one definition per function, and \<open>Win_Cmdline\<close> the assembly
  of a command line, with the rules by which a program splits it again. \<open>Win_Events\<close> shows what
  the handlers do. There is no invariant of the whole loop, because the code has none: the
  theories show reachable accesses out of bounds instead.

  \<^bold>\<open>The wrapper.\<close> \<open>Cpulimit_Unix\<close> and \<open>Cpulimit_Win\<close> have \<open>cpulimit-unix.c\<close> and \<open>cpulimit-win.c\<close>: how the command
  is run, under which limits, and how the wrapper ends.

  \<^bold>\<open>The arithmetic.\<close> \<open>Limbs\<close> has the primitives of \<open>overlays/uint64gmp.h\<close> and the product macro of \<open>mini-gmp.c\<close>. \<open>Mpn\<close> has
  the functions of \<open>mini-gmp.c\<close> on numbers in memory, where operands and results are addresses in
  one memory and may overlap, with the proofs for copying, comparing, addition and subtraction;
  \<open>Mpn_Mul\<close> has the proofs for products, shifts and negation. Each function is described by the
  number that its limbs stand for, and by the limbs that it does not change. Loops are recursive functions over
  the number of limbs; a loop that ends only because of the bits it looks at is a partial function whose
  result is \<open>None\<close> when it does not end, and the lemmas show when there is a result. \<open>Limb_Bits\<close> has
  these: counting zeros, scanning for a bit and the greatest common divisor of two limbs.
  Division is by multiplication with the inverse of the divisor: \<open>Limb_Div\<close> divides two limbs by one and three by two
  with an inverse, \<open>Limb_Inverse\<close> computes the inverse, \<open>Mpn_Div\<close> has the functions that divide numbers in memory, with
  the proof of the schoolbook step, and \<open>Mpn_Divide\<close> the proof of the whole division. \<open>Mersenne\<close> has \<open>random/mt19937-64.c\<close>.

  \<^bold>\<open>The signed integers.\<close> \<open>Mpz_Memory\<close> has the structure of \<open>mini-gmp.h\<close> and its memory: the limbs, the allocated blocks,
  the structures that variables are, and a stack for the temporary ones. A reallocation moves the limbs
  and what was there before becomes arbitrary, so that a stale pointer is noticed. \<open>mpz_wf\<close> says
  that every variable with memory is the only owner of a block. \<open>Mpz_Basic\<close> (assignment, conversion,
  comparison), \<open>Mpz_Add\<close> and \<open>Mpz_Mul\<close> have the functions of \<open>mini-gmp.c\<close> with lemmas that give, for
  every aliasing of result and operands, the value of the result, that the other variables keep theirs
  and that \<open>mpz_wf\<close> is kept. \<open>Mpz_Values\<close> describes a state by the values of its variables, so that functions
  that only call others need no reasoning about memory. \<open>Mpz_Div\<close> has the division with its three directions of
  rounding, \<open>Mpz_Div_Ui\<close> the division by a machine integer, \<open>Mpz_Div_2exp\<close> that by a power of two and \<open>Mpz_Gcd\<close>
  greatest common divisors and least common multiples, with the proof that the loop ends. \<open>Mpz_Power\<close> has powers,
  factorials and binomial coefficients. \<open>Mpz_Logic\<close> and \<open>Mpz_Bits\<close> have the operations on the bits: integers are stored as
  sign and absolute value, but the results are those on the two's complement, which are the bitwise operations on \<open>int\<close>.
  \<open>Mpz_Gcdext\<close> has the cofactors of the greatest common divisor, whose loop keeps two equations and a determinant, and the
  inverse modulo a number. \<open>Mpz_Programs\<close> composes them: its locale is the interface that a user of
  the integers relies on, interpreted on the functions. The sizes are \<open>int\<close> in the source, so
  results must stay below \<open>2 ^ 31 - 1\<close> limbs, which is the condition of the properties.

  \<^bold>\<open>Not modelled.\<close> In \<open>mini-gmp.c\<close>: conversion to and from digits and bytes, and of the signed integers the remainder by a power of
  two, modular powers, roots, primality, counting and scanning bits and
  \<open>double\<close>. The conversions to \<open>double\<close> (random numbers, printed times), and what \<open>printf\<close> shows
  to the user. Releasing memory. The benchmark \<open>tests.c\<close> and the headers that only declare or
  wrap code extracted from WhyML, which is not in the repository. The small programs that are inputs of
  the C front ends, and the OCaml program itself.
\<close>

unbundle bit_operations_syntax

section \<open>Properties of the Unix server\<close>

subsection \<open>The whole program\<close>


definition sim_options :: "(char \<times> string) list" where
  "sim_options = [(CHR ''j'', ''2''), (CHR ''s'', ''sock''), (CHR ''l'', '''')]"

lemma sim_parallel: "parse_options (\<lambda>_. False) sim_options 6 6 initial_state = Inr s \<Longrightarrow> parallel s = 2"
proof -
  have "fst (strtol_bound LONG_MAX ''2'') = 2" by code_simp
  moreover assume "parse_options (\<lambda>_. False) sim_options 6 6 initial_state = Inr s"
  ultimately show ?thesis
    by (auto simp: sim_options_def parse_options_def initial_state_def to_int32_def)
qed


text \<open>The relations between the data structures, the processes and the descriptors.\<close>

definition consistent :: "unix_server \<Rightarrow> bool" where
  "consistent s \<longleftrightarrow>
     fst ` set (list_entries (processes s)) = set (live_pids (hist s)) \<and>
     distinct (map fst (list_entries (processes s))) \<and> distinct (map fst (list_entries (clients s))) \<and>
     (\<forall>r \<in> set (queue_list (queue s)). r_key r \<in> fst ` set (list_entries (clients s))) \<and>
     (\<forall>(fd, p) \<in> set (list_entries (clients s)).
        fd \<in> set (open_fds (hist s)) \<and> heap s p \<noteq> None \<and> c_fd (the (heap s p)) = fd)"





text \<open>
  C4: the event loop handles the input of a client line by line. The loop of \<open>handle_msg\<close> over the
  bytes \<open>bs\<close> of the read buffer does the same as splitting \<open>bs\<close> at its newlines and handling the
  complete lines in order, and it reports how many bytes those lines took.
\<close>

theorem handle_msg_handles_lines:
  assumes "holds buf bs"
  shows "handle_msg_loop env p key buf (int (length bs)) 0 s =
    bindE (handle_lines env p key (fst (split_lines bs)) s)
      (\<lambda>s. Inr (int (length bs - length (snd (split_lines bs))), s))"
  using handle_msg_loop_lines [OF assms, of 0] by simp

theorem handle_msg_handles_lines_witness:
  "handle_msg_loop sim_os 0 5 (map Some ''ab;'') (int (length ''ab;'')) 0 sim_start =
    bindE (handle_lines sim_os 0 5 (fst (split_lines ''ab;'')) sim_start)
      (\<lambda>s. Inr (int (length ''ab;'' - length (snd (split_lines ''ab;''))), s))"
  by (rule handle_msg_handles_lines) (simp add: holds_def)


text \<open>
  C6: the handler of \<open>SIGTERM\<close>, \<open>SIGHUP\<close> and \<open>SIGINT\<close>. It kills the process group of every running
  child, closes the listening socket and every client, logs if logging is on, and exits.
\<close>

theorem sigterm_handler_exits:
  assumes "good s"
  shows "sigterm_handler s = Inl (Exit 1 (hist s @
    map (\<lambda>e. Sys_Kill (- fst e) SIGKILL) (list_entries (processes s)) @
    Sys_Close (server_sock s) # map (\<lambda>e. Sys_Close (fst e)) (list_entries (clients s)) @
    (if logging s then [Sys_Log ''''] else [])))"
proof -
  have i: "inv (2 * total_read (hist s)) s" using assms by (simp add: good_def)
  let ?es = "map unix_kill (map snd (list_entries (processes s)))"
  let ?t = "s\<lparr>hist := hist s @ ?es\<rparr>"
  have kill: "kill_all_processes unix_kill s = Inr ?t"
    using i by (intro kill_all_processes_spec) (simp add: inv_def procs_ok_def al.ok_def)
  have es: "?es = map (\<lambda>e. Sys_Kill (- fst e) SIGKILL) (list_entries (processes s))"
    using i by (auto simp: inv_def procs_ok_def unix_kill_def)
  have it: "inv (2 * total_read (hist s)) ?t" by (rule inv_harmless [OF i]) (simp add: list_all_iff unix_kill_def)
  have c: "can_shutdown ?t" "clients_set ?t" "server_sock ?t \<noteq> -1"
    using it inv_can_shutdown [OF it] by (auto simp: inv_def misc_ok_def fds_ok_def)
  show ?thesis
    unfolding sigterm_handler_def kill bindE_simps shutdown_exact [OF c] good_clients_close [OF it] unfolding es by simp
qed

theorem sigterm_handler_exits_witness:
  "\<exists>s. good s \<and> sigterm_handler s = (Inl (Exit 1 (hist s @
    map (\<lambda>e. Sys_Kill (- fst e) SIGKILL) (list_entries (processes s)) @
    Sys_Close (server_sock s) # map (\<lambda>e. Sys_Close (fst e)) (list_entries (clients s)) @
    (if logging s then [Sys_Log ''''] else []))) :: unit res)"
  using sigterm_handler_exits [OF sample_good] sample_good by blast

subsection \<open>Messages and processes\<close>

lemma length_show_int: "0 \<le> i \<Longrightarrow> nat i < 10 ^ k \<Longrightarrow> 0 < k \<Longrightarrow> length (show_int i) \<le> k"
  by (simp add: show_int_def length_dec)



lemma copy_argv_spec:
  "i + n \<le> length argv \<Longrightarrow> i + n < length a \<Longrightarrow>
     copy_argv argv i n a = Inr (take (i + 1) a @ map (\<lambda>x. Some (Some x)) (take n (drop i argv)) @ drop (i + 1 + n) a)"
proof (induction n arbitrary: i a)
  case (Suc n)
  let ?a = "a[i + 1 := Some (Some (argv ! i))]"
  have "take (i + 2) ?a = take (i + 1) a @ [Some (Some (argv ! i))]"
    using Suc.prems by (simp add: take_Suc_conv_app_nth take_update_cancel)
  moreover have "drop i argv = argv ! i # drop (i + 1) argv" using Suc.prems by (simp add: Cons_nth_drop_Suc)
  ultimately show ?case using Suc.prems Suc.IH [of "i + 1" ?a] by simp
qed simp

lemma make_argv_spec:
  assumes "0 \<le> cnt" "cnt \<le> int (length argv)"
  shows "make_argv cmd argv cnt = Inr (map (\<lambda>x. Some (Some x)) (cmd # take (nat cnt) argv) @ [Some None])"
proof -
  let ?a = "(c_malloc (nat (cnt + 2)))[0 := Some (Some cmd), nat (cnt + 1) := Some None]"
  have l: "length ?a = nat cnt + 2" using assms by simp
  have "copy_argv argv 0 (nat cnt) ?a = Inr (take 1 ?a @ map (\<lambda>x. Some (Some x)) (take (nat cnt) argv) @ drop (1 + nat cnt) ?a)"
    using copy_argv_spec [of 0 "nat cnt" argv ?a] assms l by simp
  moreover have "take 1 ?a = [Some (Some cmd)]" using assms by (simp add: take_Suc_conv_app_nth nat_add_distrib)
  moreover have "drop (1 + nat cnt) ?a = [Some None]"
    using assms l by (intro nth_equalityI) (auto simp: nat_add_distrib)
  ultimately show ?thesis using assms by (simp add: make_argv_def)
qed

lemma argv_strings_spec:
  "argv_strings (map (\<lambda>x. Some (Some x)) xs @ [Some None]) = map cstr xs"
  by (induction xs) (simp_all add: argv_strings_def)



lemma mebibytes: "unat (ucast (m :: u32) * 1024 * 1024 :: u64) = unat m * 2 ^ 20"
proof -
  have "unat m < 2 ^ 32" using unat_bound [of m] by simp
  moreover have "unat (ucast m :: u64) = unat m" using calculation by (simp add: unsigned_ucast_eq take_bit_nat_eq_self)
  ultimately show ?thesis by (simp add: unat_word_ariths mult.assoc)
qed

text \<open>
  Resource limits of a child. The CPU limit is set exactly when a positive one is asked for;
  the memory limit is the number of mebibytes asked for, without overflow; core dumps are
  disabled whenever there is a limit.
\<close>

theorem child_limits:
  assumes "child_program cmd a argv cnt stdin out timelimit memlimit = Inr acts"
  shows "(Setrlimit_Cpu n \<in> set acts \<longleftrightarrow> 0 < timelimit \<and> n = timelimit) \<and>
    (Setrlimit_As m \<in> set acts \<longleftrightarrow> memlimit \<noteq> 0 \<and> unat m = unat memlimit * 2 ^ 20) \<and>
    (Setrlimit_Core c \<in> set acts \<longleftrightarrow> (0 < timelimit \<or> memlimit \<noteq> 0) \<and> c = 0)"
proof -
  let ?m = "ucast memlimit * 1024 * 1024 :: u64"
  have m: "m = ?m \<longleftrightarrow> unat m = unat memlimit * 2 ^ 20"
    using mebibytes [of memlimit] by (metis word_unat_eq_iff)
  have z: "0 < unat memlimit \<longleftrightarrow> memlimit \<noteq> 0" by (simp add: unat_eq_0 flip: neq0_conv)
  show ?thesis using assms unfolding m [symmetric] by (auto simp: child_program_def Let_def z split: if_splits)
qed

theorem child_limits_witness:
  "Setrlimit_As (100 * 2 ^ 20) \<in> set (projr (child_program ''prover'' [] [] 0 False 7 10 100)) \<and>
   Setrlimit_Cpu 10 \<in> set (projr (child_program ''prover'' [] [] 0 False 7 10 100))"
  using child_limits [of "''prover''" "[]" "[]" 0 False 7 10 100 "projr (child_program ''prover'' [] [] 0 False 7 10 100)"
    10 "100 * 2 ^ 20" 0]
  by (simp add: child_program_def)

text \<open>
  A request \<open>runstdin\<close> without arguments. Its child reads \<open>argv[-1]\<close>, outside the array of
  arguments, for the name of the file that should become its standard input.
\<close>

theorem runstdin_without_arguments:
  "\<exists>a. make_argv cmd [] (-1) = Inr a \<and> child_program cmd a [] (-1) True out timelimit memlimit = Inl Out_Of_Bounds"
  by (simp add: make_argv_def child_program_def c_malloc_def)



subsection \<open>Disconnecting and interrupting\<close>



text \<open>
  C11: a request to interrupt a task. Afterwards no request with this identifier of this client
  is pending, all others still are, in the same order, and the process group of every running
  process with this identifier of this client has been killed.
\<close>

theorem interrupt_cancels:
  assumes g: "good s" and p: "(key, p) \<in> set (list_entries (clients s))" and r: "r_type r = REQ_INTERRUPT"
  shows "safe (\<lambda>s'. processes s' = processes s \<and>
      queue_list (queue s') = filter (\<lambda>q. \<not> matches key (Some (r_id r)) q) (queue_list (queue s)) \<and>
      (\<forall>(pid, q) \<in> set (list_entries (processes s)).
         p_client_key q = key \<and> streq (p_task_id q) (r_id r) \<longrightarrow> Sys_Kill (- pid) SIGKILL \<in> set (hist s')))
    (handle_request env p key r s)"
proof -
  let ?B = "2 * total_read (hist s)" and ?id = "Some (r_id r)"
  let ?P = "\<lambda>s'. processes s' = processes s \<and>
      queue_list (queue s') = filter (\<lambda>q. \<not> matches key ?id q) (queue_list (queue s)) \<and>
      (\<forall>(pid, q) \<in> set (list_entries (processes s)).
         p_client_key q = key \<and> streq (p_task_id q) (r_id r) \<longrightarrow> Sys_Kill (- pid) SIGKILL \<in> set (hist s'))"
  have i: "inv ?B s" and T: "total_read (hist s) \<le> 2 ^ 28" using g by (simp_all add: good_def)
  obtain c where c: "client_at p s = Inr c" using inv_client [OF i p] by blast
  have "safe ?P (bindE (remove_from_queue key ?id (Some (handle_queue_remove env)) (queue t) t) (\<lambda>(q, s).
          kill_processes unix_kill key ?id (s\<lparr>queue := q\<rparr>)))"
    if t: "inv ?B t" "frame s t" "processes t = processes s" "queue t = queue s" for t
  proof -
    let ?rs = "filter (matches key ?id) (queue_list (queue t))"
    have qi: "queue_inv (queue t)" and ql: "2 * length (queue_list (queue t)) \<le> ?B"
      and keys: "\<forall>r \<in> set ?rs. r_key r \<in> al.keys (clients t)"
      using t(1) by (auto simp: inv_def queue_ok_def load_def)
    have room: "length (queue_list (queue t)) \<le> queue_room" using ql T by simp
    obtain q where q: "queue_list q = filter (\<lambda>r. \<not> matches key ?id r) (queue_list (queue t))"
      "\<And>s'. remove_from_queue key ?id (Some (handle_queue_remove env)) (queue t) s' =
         bindE (each_request (Some (handle_queue_remove env)) ?rs s') (\<lambda>s. Inr (q, s))"
      using remove_from_queue_list [OF qi room, of key ?id "Some (handle_queue_remove env)"] by blast
    have len: "length ?rs \<le> length (queue_list (queue t))" by simp
    have "safe (\<lambda>s'. inv (?B + length ?rs) s' \<and> frame t s' \<and> processes s' = processes t \<and> queue s' = queue t \<and>
      parallel s' = parallel t) (each_request (Some (handle_queue_remove env)) ?rs t)"
      by (rule each_request_inv [OF t(1) keys]) (use ql T len in \<open>simp del: length_filter_le\<close>)
    moreover have "safe ?P (kill_processes unix_kill key ?id (u\<lparr>queue := q\<rparr>))"
      if u: "inv (?B + length ?rs) u" "processes u = processes t" for u
    proof -
      have li: "list_inv (processes (u\<lparr>queue := q\<rparr>))" using u(1) by (simp add: inv_def procs_ok_def al.ok_def)
      have pid: "p_id q = pid" if "(pid, q) \<in> set (list_entries (processes s))" for pid q
        using i that by (auto simp: inv_def procs_ok_def)
      show ?thesis unfolding kill_processes_spec [OF li]
        using u(2) t(3,4) q(1) pid by (force simp: task_matches_def unix_kill_def)
    qed
    ultimately show ?thesis unfolding q(2) bindE_assoc bindE_simps prod.case by (elim safe_bindE) blast
  qed
  then show ?thesis using r c
    by (auto simp: handle_request_def intro!: safe_bindE [OF log_msg_inv [OF i]])
qed

theorem interrupt_cancels_witness:
  "safe (\<lambda>s'. queue_list (queue s') = [sample_request] \<and> Sys_Kill (-7) SIGKILL \<in> set (hist s'))
    (handle_request sim_os 0 5 (request_interrupt 5 ''t1'') sample_state)"
  by (rule safe_mono [OF interrupt_cancels [OF sample_good, of 5 0]])
    (auto simp: sample_lists request_interrupt_def sample_request_def request_run_def matches_def streq_def cstr_def)

section \<open>Properties of the components\<close>

subsection \<open>Data structures\<close>

text \<open>
  C12: pushing onto the ring buffer refines appending to a list, also when the buffer is full
  and has to be doubled and when the positions wrap around; this holds for up to \<open>2 ^ 30\<close> elements.
\<close>

theorem queue_push_refines_append:
  assumes "queue_inv q" "length (queue_list q) < queue_room"
  shows "\<exists>q'. queue_push q x = Inr q' \<and> queue_inv q' \<and> queue_list q' = queue_list q @ [x]"
  using assms by (rule rq.push_law)

definition full_queue :: "nat t_queue" where
  "full_queue = \<lparr>q_data = [Some 2, Some 3, Some 1], q_pointer = 2, q_len = 3, q_capacity = 3\<rparr>"

lemma full_queue_ok: "queue_inv full_queue" "queue_list full_queue = [1, 2, 3]"
proof -
  show "queue_list full_queue = [1, 2, 3]" by code_simp
  have "\<forall>i \<in> {0, 1, 2}. q_data full_queue ! ring_index full_queue i \<noteq> None"
    by (simp add: full_queue_def ring_index_def)
  moreover have "i < 3 \<Longrightarrow> i \<in> {0, 1, 2}" for i :: nat by auto
  ultimately show "queue_inv full_queue"
    by (simp add: queue_inv_def full_queue_def) blast
qed

theorem queue_push_refines_append_witness:
  "\<exists>q'. queue_push full_queue 4 = Inr q' \<and> queue_inv q' \<and> queue_list q' = [1, 2, 3, 4]"
  using queue_push_refines_append [OF full_queue_ok(1), of 4] by (simp add: full_queue_ok(2))

text \<open>
  Popping from the ring buffer gives the oldest element and leaves the others in order; on
  an empty buffer the assertion of the source fails.
\<close>

theorem queue_pop_refines_head:
  assumes "queue_inv q"
  shows "case queue_list q of
      [] \<Rightarrow> queue_pop q = crash Assert_Failed
    | x # xs \<Rightarrow> \<exists>q'. queue_pop q = Inr (x, q') \<and> queue_inv q' \<and> queue_list q' = xs"
  using rq.pop_empty_law [OF assms] rq.pop_law [OF assms] by (simp split: list.split)

theorem queue_pop_refines_head_witness:
  "\<exists>q'. queue_pop full_queue = Inr (1, q') \<and> queue_inv q' \<and> queue_list q' = [2, 3]"
  using queue_pop_refines_head [OF full_queue_ok(1)] by (simp add: full_queue_ok(2))

text \<open>
  The array list behaves as a finite map. After appending a new key, looking up that key
  gives the new value and looking up any other key gives what it gave before.
\<close>

theorem list_append_then_lookup:
  assumes "list_inv l" "length (list_entries l) < list_room" "k \<notin> fst ` set (list_entries l)"
  shows "\<exists>l'. list_append l k v = Inr l' \<and> list_inv l' \<and> list_lookup l' k = Inr (Some v) \<and>
    (\<forall>k'. k' \<noteq> k \<longrightarrow> list_lookup l' k' = list_lookup l k')"
proof -
  obtain l' where l': "list_append l k v = Inr l'" "list_inv l'" "list_entries l' = list_entries l @ [(k, v)]"
    using al.append_law [OF assms(1,2)] by blast
  have "map_of (list_entries l) k = None" using assms(3) by (simp add: map_of_eq_None_iff)
  then show ?thesis using l' by (auto simp: al.lookup_law [OF assms(1)] al.lookup_law [OF l'(2)] map_add_def split: option.split)
qed

theorem list_append_then_lookup_witness:
  "\<exists>l'. list_append (clients sample_state) 8 (1 :: nat) = Inr l' \<and> list_inv l' \<and> list_lookup l' 8 = Inr (Some 1) \<and>
    (\<forall>k'. k' \<noteq> 8 \<longrightarrow> list_lookup l' k' = list_lookup (clients sample_state) k')"
  by (rule list_append_then_lookup) (simp_all add: sample_lists)

text \<open>
  Removing a key from the array list takes away its entry and no other; removing an absent
  key changes nothing. The order of the rest may change.
\<close>

theorem list_remove_removes_key:
  assumes "list_inv l" "distinct (map fst (list_entries l))"
  shows "\<exists>l'. list_remove l k = Inr l' \<and> list_inv l' \<and>
    mset (list_entries l') = filter_mset (\<lambda>e. fst e \<noteq> k) (mset (list_entries l))"
  using assms by (rule al.remove_law)

theorem list_remove_removes_key_witness:
  "\<exists>l'. list_remove (clients sample_state) 5 = Inr l' \<and> list_inv l' \<and> mset (list_entries l') = {#}"
  using list_remove_removes_key [of "clients sample_state" 5] by (simp add: sample_lists)

text \<open>
  A round of reading. Asking for room, storing the bytes that \<open>read\<close> delivered and counting
  them appends exactly those bytes to the buffer, however full it was.
\<close>

theorem read_buffer_appends:
  assumes "rb_inv b" "unat (rb_capacity b) + unat n < 2 ^ 63" "length cs \<le> unat n"
  shows "\<exists>b1 d b2. prepare_read b n = (b1, length (rb_bytes b)) \<and>
    store_bytes (rb_data b1) (length (rb_bytes b)) cs = Inr d \<and>
    have_read (b1\<lparr>rb_data := d\<rparr>) (of_nat (length cs)) = Inr b2 \<and> rb_inv b2 \<and> rb_bytes b2 = rb_bytes b @ cs"
proof -
  obtain b1 at where p: "prepare_read b n = (b1, at)" by fastforce
  note r = prepare_read_ok [OF assms(1,2) p]
  have h: "holds (rb_data b1) (rb_bytes b1)" using r unfolding rb_inv_def by blast
  obtain d where d: "store_bytes (rb_data b1) (length (rb_bytes b1)) cs = Inr d"
    using store_bytes_ok [OF h, of cs] r assms(3) by auto
  have "unat (of_nat (length cs) :: u64) = length cs"
    using assms(2,3) by (intro unat_of_nat64) simp
  then show ?thesis using have_read_ok [OF _ _ d, of "of_nat (length cs)"] r assms(3) p d by fastforce
qed

theorem read_buffer_appends_witness:
  "\<exists>b1 d b2. prepare_read (c_readbuf sample_client) 4 = (b1, 0) \<and> store_bytes (rb_data b1) 0 ''ab'' = Inr d \<and>
    have_read (b1\<lparr>rb_data := d\<rparr>) (of_nat 2) = Inr b2 \<and> rb_inv b2 \<and> rb_bytes b2 = ''ab''"
  using read_buffer_appends [of "c_readbuf sample_client" 4 "''ab''"]
  by (simp add: sample_client_def rb_inv_def rb_bytes_def)

text \<open>
  Taking the handled bytes off the read buffer leaves exactly the rest, provided that
  \<open>memcpy\<close> copies upwards as common implementations do.
\<close>

theorem read_buffer_drops:
  assumes "rb_inv b" "unat n \<le> length (rb_bytes b)"
  shows "\<exists>b'. have_taken b n = Inr b' \<and> rb_inv b' \<and> rb_bytes b' = drop (unat n) (rb_bytes b)"
  using have_taken_ok [OF assms] by blast

definition sample_readbuf :: t_readbuf where
  "sample_readbuf = \<lparr>rb_data = map Some ''abcd'', rb_len = 4, rb_capacity = 4\<rparr>"

theorem read_buffer_drops_witness:
  "\<exists>b'. have_taken sample_readbuf 1 = Inr b' \<and> rb_inv b' \<and> rb_bytes b' = ''bcd''"
  using read_buffer_drops [of sample_readbuf 1] by (simp add: sample_readbuf_def rb_inv_def rb_bytes_def holds_def)



subsection \<open>Requests\<close>

text \<open>
  Removing requests from the queue keeps the others, in order, and calls the callback for
  each removed request, oldest first, and for no other.
\<close>

theorem remove_from_queue_filters:
  assumes "queue_inv q" "length (queue_list q) \<le> queue_room"
  shows "\<exists>q'. queue_inv q' \<and> queue_list q' = filter (\<lambda>r. \<not> matches key i r) (queue_list q) \<and>
    remove_from_queue key i callback q s =
      bindE (each_request callback (filter (matches key i) (queue_list q)) s) (\<lambda>s. Inr (q', s))"
  using remove_from_queue_list [OF assms, of key i callback] by blast

theorem remove_from_queue_filters_witness:
  "\<exists>q'. queue_inv q' \<and> queue_list q' = [] \<and>
    remove_from_queue 5 None (Some (\<lambda>r n. Inr (n + 1))) (queue sample_state) (0 :: nat) = Inr (q', 1)"
  using remove_from_queue_filters [of "queue sample_state" 5 None "Some (\<lambda>r n. Inr (n + 1))" "0 :: nat"]
  by (simp add: sample_lists matches_def sample_request_def request_run_def)

text \<open>
  \<open>kill_processes\<close> signals the process group of exactly those running processes that belong
  to the client and, if an identifier is given, run the task with that identifier.
\<close>

theorem kill_processes_targets:
  assumes "list_inv (processes s)"
  shows "kill_processes unix_kill key i s = Inr (s\<lparr>hist := hist s @
    map (\<lambda>p. Sys_Kill (- p_id p) SIGKILL) (filter (\<lambda>p. p_client_key p = key \<and>
      (i = None \<or> streq (p_task_id p) (the i))) (map snd (list_entries (processes s))))\<rparr>)"
proof -
  have "(task_matches key i :: unix_proc \<Rightarrow> bool) = (\<lambda>p. p_client_key p = key \<and> (i = None \<or> streq (p_task_id p) (the i)))"
    by (rule ext) (simp add: task_matches_def split: option.split)
  then show ?thesis using kill_processes_spec [OF assms, of unix_kill key i] by (simp add: unix_kill_def [abs_def])
qed

theorem kill_processes_targets_witness:
  "kill_processes unix_kill 5 (Some ''t1'') sample_state =
    Inr (sample_state\<lparr>hist := hist sample_state @ [Sys_Kill (-7) SIGKILL]\<rparr>)"
  using kill_processes_targets [OF sample_lists(5), of 5 "Some ''t1''"] by (simp add: sample_lists streq_def)

text \<open>
  C16: the parser on C strings and indices is equivalent to splitting the line at its semicolons
  and reading the fields, for every line; in particular it never reads outside the line.
\<close>

theorem parse_request_equiv_fields:
  assumes "holds buf s"
  shows "parse_request buf (int (length s)) key par = Inr (parse_fields (split_semi s) key par)"
  using assms by (rule parse_request_line)

theorem parse_request_equiv_fields_witness:
  "parse_request (map Some ''interrupt;id'') 12 5 2 = Inr (parse_fields (split_semi ''interrupt;id'') 5 2)"
  using parse_request_equiv_fields [of "map Some ''interrupt;id''" "''interrupt;id''" 5 2] by (simp add: holds_def)

text \<open>
  C17: round trip of a run request. What a client prints as the fields of a request, separated by
  semicolons, is parsed back to exactly those fields, if none of them contains a semicolon and
  the numbers fit into an \<open>int\<close>.
\<close>

theorem parse_printed_request:
  fixes stdin :: bool
  assumes "SEMICOLON \<notin> set i" "SEMICOLON \<notin> set c" "\<forall>a \<in> set as. SEMICOLON \<notin> set a"
    and "int t \<le> INT_MAX" "int m \<le> INT_MAX"
  defines "line \<equiv> join_semi ([if stdin then ''runstdin'' else ''run'', i, dec t, dec m, c] @ as)"
  shows "parse_request (map Some line) (int (length line)) key par =
    Inr (Some \<lparr>r_key = key, r_type = REQ_RUN, r_id = i @ [NUL], r_timeout = int t, r_memlimit = of_nat m,
      r_usestdin = stdin, r_cmd = c @ [NUL], r_numargs = int (length as), r_args = map (\<lambda>a. a @ [NUL]) as\<rparr>, par)"
proof -
  let ?fs = "[if stdin then ''runstdin'' else ''run'', i, dec t, dec m, c] @ as"
  have "split_semi line = ?fs" unfolding line_def
    by (rule split_join) (use assms(1-3) dec_no_special in auto)
  moreover have "holds (map Some line) line" by (simp add: holds_def)
  moreover have "cstr ''runstdin'' = ''runstdin''" "cstr ''run'' = ''run''" by simp_all
  ultimately show ?thesis
    using parse_request_line [of "map Some line" line key par] assms(4,5)
    by (auto simp: parse_fields_def request_run_def atoi_dec)
qed

theorem parse_printed_request_witness:
  "parse_request (map Some ''run;id;10;100;prover;a;b'') 24 5 2 =
    Inr (Some \<lparr>r_key = 5, r_type = REQ_RUN, r_id = ''id'' @ [NUL], r_timeout = 10, r_memlimit = 100,
      r_usestdin = False, r_cmd = ''prover'' @ [NUL], r_numargs = 2, r_args = [''a'' @ [NUL], ''b'' @ [NUL]]\<rparr>, 2)"
proof -
  have d: "dec 10 = ''10''" "dec 100 = ''100''" by code_simp+
  show ?thesis
    using parse_printed_request [of "''id''" "''prover''" "[''a'', ''b'']" 10 100 False 5 2] by (simp add: d)
qed

text \<open>
  C18: what the server accepts on its command line. If the options are accepted, a socket name
  was given, there was no further argument, and the number of parallel processes is at least 1
  and fits into an \<open>int\<close>.
\<close>

theorem parse_options_accepts:
  assumes "parse_options einval opts optind argc initial_state = Inr s"
  shows "socketname s \<noteq> None \<and> argc \<le> optind \<and> 1 \<le> parallel s \<and> parallel s \<le> INT_MAX"
proof -
  obtain t where t: "parse_option_list einval opts initial_state = Inr t" "argc \<le> optind" "s = t" "socketname s \<noteq> None"
    using assms by (auto simp: parse_options_def bindE_Inr_iff split: if_splits)
  have "0 < parallel initial_state" "in_int (parallel initial_state)" by (simp_all add: initial_state_def in_int_def)
  with parse_option_list_parallel [OF t(1)] t show ?thesis by (simp add: in_int_def)
qed

theorem parse_options_accepts_witness:
  "1 \<le> parallel (projr (parse_options (\<lambda>_. False) [(CHR ''s'', ''sock'')] 3 3 initial_state))"
  using parse_options_accepts [of "\<lambda>_. False" "[(CHR ''s'', ''sock'')]" 3 3
    "projr (parse_options (\<lambda>_. False) [(CHR ''s'', ''sock'')] 3 3 initial_state)"]
  by (simp add: parse_options_def initial_state_def)

end
